(* ===== verification/Prelude.thy ===== *)
theory Prelude
  imports Main "HOL-Library.Word"
begin

text \<open>
  Shared vocabulary of the development: Rust's \<open>Result\<close> and \<open>Option\<close> helpers, saturating machine
  arithmetic, decimal and padded printing, and the lemma collections the component theories extend.

  Conventions. \<open>Result<A, E>\<close> is the sum type \<open>'e + 'a\<close> with \<open>Err\<close> for \<open>Inl\<close> and \<open>Ok\<close> for
  \<open>Inr\<close>. A Rust panic is the value \<open>None\<close> of an \<open>option\<close>, unless a comment says otherwise.
  Machine integers are words of their width where the code can wrap or saturate; lengths and
  capacities that only count elements of an in-memory list are \<open>nat\<close>.
\<close>

named_theorems effect_simps \<open>unfolding rules of the effect combinators\<close>
named_theorems txn_intros \<open>transaction bodies the validation argument covers\<close>

section \<open>Results\<close>

type_synonym ('a, 'e) result = "'e + 'a"

abbreviation Ok :: "'a \<Rightarrow> 'e + 'a" where "Ok \<equiv> Inr"
abbreviation Err :: "'e \<Rightarrow> 'e + 'a" where "Err \<equiv> Inl"

type_synonym u64 = "64 word"
type_synonym u32 = "32 word"

definition result_map :: "('a \<Rightarrow> 'b) \<Rightarrow> ('e + 'a) \<Rightarrow> 'e + 'b" where
  "result_map f x = (case x of Inl e \<Rightarrow> Inl e | Inr a \<Rightarrow> Inr (f a))"

definition result_map_err :: "('e \<Rightarrow> 'e2) \<Rightarrow> ('e + 'a) \<Rightarrow> 'e2 + 'a" where
  "result_map_err f x = (case x of Inl e \<Rightarrow> Inl (f e) | Inr a \<Rightarrow> Inr a)"

definition result_bind :: "('e + 'a) \<Rightarrow> ('a \<Rightarrow> 'e + 'b) \<Rightarrow> 'e + 'b" where
  "result_bind x f = (case x of Inl e \<Rightarrow> Inl e | Inr a \<Rightarrow> f a)"

lemma result_map_simps [simp]:
  "result_map f (Inl e) = Inl e" "result_map f (Inr a) = Inr (f a)"
  by (simp_all add: result_map_def)

lemma result_map_err_simps [simp]:
  "result_map_err f (Inl e) = Inl (f e)" "result_map_err f (Inr a) = Inr a"
  by (simp_all add: result_map_err_def)

lemma result_bind_simps [simp]:
  "result_bind (Inl e) f = Inl e" "result_bind (Inr a) f = f a"
  by (simp_all add: result_bind_def)

section \<open>Sequencing\<close>

text \<open>
  The contract of a sequencing construct (\<open>succeed\<close>/\<open>flat_map\<close> of effects, of transactions and of
  plain results): a unit and a bind that satisfy the monad laws. A pipeline threads one value
  through a list of steps; in every such construct a pipeline can be cut anywhere.
\<close>

primrec pipeline ::
  "('a \<Rightarrow> 'm) \<Rightarrow> ('m \<Rightarrow> ('a \<Rightarrow> 'm) \<Rightarrow> 'm) \<Rightarrow> ('a \<Rightarrow> 'm) list \<Rightarrow> 'a \<Rightarrow> 'm" where
  "pipeline ret bind [] a = ret a"
| "pipeline ret bind (f # fs) a = bind (f a) (pipeline ret bind fs)"

locale sequencing =
  fixes ret :: "'a \<Rightarrow> 'm"
    and bind :: "'m \<Rightarrow> ('a \<Rightarrow> 'm) \<Rightarrow> 'm"
  assumes bind_ret: "bind (ret a) f = f a"
    and ret_bind: "bind m ret = m"
    and bind_bind: "bind (bind m f) g = bind m (\<lambda>a. bind (f a) g)"
begin

lemma pipeline_nil: "pipeline ret bind [] = ret"
  by (simp add: fun_eq_iff)

lemma pipeline_append:
  "pipeline ret bind (fs @ gs) = (\<lambda>a. bind (pipeline ret bind fs a) (pipeline ret bind gs))"
proof (induction fs)
  case Nil
  show ?case by (simp add: fun_eq_iff bind_ret)
next
  case (Cons f fs)
  show ?case by (simp add: Cons.IH fun_eq_iff bind_bind)
qed

lemma pipeline_snoc: "pipeline ret bind (fs @ [g]) a = bind (pipeline ret bind fs a) g"
proof -
  have "pipeline ret bind [g] = g" by (simp add: pipeline_nil fun_eq_iff ret_bind)
  then show ?thesis by (simp only: pipeline_append)
qed

end

interpretation result_seq: sequencing "Ok :: 'a \<Rightarrow> 'e + 'a" result_bind
  by unfold_locales (simp_all add: result_bind_def split: sum.split)

section \<open>Saturating machine arithmetic\<close>

definition sat_add :: "'a::len word \<Rightarrow> 'a word \<Rightarrow> 'a word" where
  "sat_add a b = (if unat a + unat b < 2 ^ LENGTH('a) then a + b else - 1)"

lemma unat_sat_add: "unat (sat_add (a :: 'a::len word) b) = min (unat a + unat b) (2 ^ LENGTH('a) - 1)"
proof (cases "unat a + unat b < 2 ^ LENGTH('a)")
  case True
  then show ?thesis by (simp add: sat_add_def unat_word_ariths)
next
  case False
  then show ?thesis by (simp add: sat_add_def unsigned_minus_1_eq_mask mask_eq_exp_minus_1)
qed

lemma sat_add_mono: "unat a \<le> unat (sat_add a b)"
  for a b :: "'a::len word"
proof -
  have "unat a < 2 ^ LENGTH('a)" by simp
  then have "unat a \<le> 2 ^ LENGTH('a) - 1" by linarith
  then show ?thesis by (simp add: unat_sat_add)
qed

text \<open>\<open>u128\<close> arithmetic that saturates at \<open>u128::MAX\<close>.\<close>

definition u64_max :: nat where "u64_max = 2 ^ 64 - 1"
definition u128_max :: nat where "u128_max = 2 ^ 128 - 1"

definition sat_mul_u128 :: "nat \<Rightarrow> nat \<Rightarrow> nat" where
  "sat_mul_u128 a b = min (a * b) u128_max"

definition sat_pow_u128 :: "nat \<Rightarrow> nat \<Rightarrow> nat" where
  "sat_pow_u128 b n = min (b ^ n) u128_max"

lemma sat_mul_u128_mono:
  "a \<le> a' \<Longrightarrow> b \<le> b' \<Longrightarrow> sat_mul_u128 a b \<le> sat_mul_u128 a' b'"
  by (simp add: sat_mul_u128_def min.coboundedI1 min.coboundedI2 mult_le_mono)

lemma sat_pow_u128_mono:
  "1 \<le> b \<Longrightarrow> m \<le> n \<Longrightarrow> sat_pow_u128 b m \<le> sat_pow_u128 b n"
  by (simp add: sat_pow_u128_def min.coboundedI1 power_increasing)

section \<open>Printing\<close>

definition digit_char :: "nat \<Rightarrow> char" where
  "digit_char d = char_of (48 + d)"

fun show_nat :: "nat \<Rightarrow> string" where
  "show_nat n = (if n < 10 then [digit_char n] else show_nat (n div 10) @ [digit_char (n mod 10)])"

declare show_nat.simps [simp del]

lemma show_nat_nonempty [simp]: "show_nat n \<noteq> []"
  by (subst show_nat.simps) simp

definition nl :: string where "nl = [char_of (10 :: nat)]"

fun join :: "string \<Rightarrow> string list \<Rightarrow> string" where
  "join sep [] = []"
| "join sep [x] = x"
| "join sep (x # xs) = x @ sep @ join sep xs"

lemma join_empty_iff: "(\<forall>x \<in> set xs. x \<noteq> []) \<Longrightarrow> join sep xs = [] \<longleftrightarrow> xs = []"
  by (induction sep xs rule: join.induct) auto

section \<open>Lists\<close>

lemma filter_eq_self_conv: "(\<forall>x \<in> set xs. P x) \<Longrightarrow> filter P xs = xs"
  by (induction xs) auto

lemma distinct_snoc [simp]: "distinct (xs @ [x]) \<longleftrightarrow> distinct xs \<and> x \<notin> set xs"
  by auto

lemma removeAll_distinct_length:
  "distinct xs \<Longrightarrow> x \<in> set xs \<Longrightarrow> length (removeAll x xs) = length xs - 1"
  by (metis distinct_remove1_removeAll length_remove1)

end
