(* ===== verification/Matching.thy ===== *)
theory Matching
  imports Prelude
begin

text \<open>
  \<open>crates/id_effect/src/match_.rs\<close>: the \<open>Matcher\<close>, an ordered list of guarded arms with an
  optional default. The first arm whose guard holds decides; with no arm and no default the
  exhaustive runners panic (\<open>None\<close>).
\<close>

datatype ('i, 'a) arm =
    When "'i \<Rightarrow> bool" "'i \<Rightarrow> 'a"
  | Tag "'i \<Rightarrow> bool" "'i \<Rightarrow> 'a"

record ('i, 'a) matcher =
  arms :: "('i, 'a) arm list"
  default_arm :: "('i \<Rightarrow> 'a) option"

definition matcher_new :: "('i, 'a) matcher" where
  "matcher_new = \<lparr>arms = [], default_arm = None\<rparr>"

definition when_arm :: "('i, 'a) matcher \<Rightarrow> ('i \<Rightarrow> bool) \<Rightarrow> ('i \<Rightarrow> 'a) \<Rightarrow> ('i, 'a) matcher" where
  "when_arm m pred h = m\<lparr>arms := arms m @ [When pred h]\<rparr>"

text \<open>\<open>tag\<close> needs \<open>I: HasTag\<close>; the trait method is the argument \<open>tag_of\<close>.\<close>

definition tag_arm ::
  "('i \<Rightarrow> string) \<Rightarrow> ('i, 'a) matcher \<Rightarrow> string \<Rightarrow> ('i \<Rightarrow> 'a) \<Rightarrow> ('i, 'a) matcher" where
  "tag_arm tag_of m expected h = m\<lparr>arms := arms m @ [Tag (\<lambda>i. tag_of i = expected) h]\<rparr>"

definition matcher_or_else :: "('i, 'a) matcher \<Rightarrow> ('i \<Rightarrow> 'a) \<Rightarrow> ('i, 'a) matcher" where
  "matcher_or_else m h = m\<lparr>default_arm := Some h\<rparr>"

fun try_arms :: "('i, 'a) arm list \<Rightarrow> 'i \<Rightarrow> 'i + 'a" where
  "try_arms [] i = Err i"
| "try_arms (When p h # as) i = (if p i then Ok (h i) else try_arms as i)"
| "try_arms (Tag p h # as) i = (if p i then Ok (h i) else try_arms as i)"

definition try_match :: "('i, 'a) matcher \<Rightarrow> 'i \<Rightarrow> 'i + 'a" where
  "try_match m i = try_arms (arms m) i"

fun run_arms :: "('i, 'a) arm list \<Rightarrow> ('i \<Rightarrow> 'a) option \<Rightarrow> 'i \<Rightarrow> 'a option" where
  "run_arms [] d i = (case d of Some h \<Rightarrow> Some (h i) | None \<Rightarrow> None)"
| "run_arms (When p h # as) d i = (if p i then Some (h i) else run_arms as d i)"
| "run_arms (Tag p h # as) d i = (if p i then Some (h i) else run_arms as d i)"

definition run_exhaustive :: "('i, 'a) matcher \<Rightarrow> 'i \<Rightarrow> 'a option" where
  "run_exhaustive m i = run_arms (arms m) (default_arm m) i"

definition exhaustive :: "('i, 'a) matcher \<Rightarrow> 'i \<Rightarrow> 'a option" where
  "exhaustive m i = (case try_match m i of
       Inr a \<Rightarrow> Some a
     | Inl inp \<Rightarrow> (case default_arm m of Some d \<Rightarrow> Some (d inp) | None \<Rightarrow> None))"

definition matcher_option :: "('i, 'a) matcher \<Rightarrow> 'i \<Rightarrow> 'a option" where
  "matcher_option m i = (case try_match m i of Inr a \<Rightarrow> Some a | Inl _ \<Rightarrow> None)"

definition matcher_either :: "('i, 'a) matcher \<Rightarrow> 'i \<Rightarrow> 'i + 'a" where
  "matcher_either m i = try_match m i"

section \<open>First match decides\<close>

fun arm_guard :: "('i, 'a) arm \<Rightarrow> 'i \<Rightarrow> bool" where
  "arm_guard (When p h) i = p i"
| "arm_guard (Tag p h) i = p i"

fun arm_handler :: "('i, 'a) arm \<Rightarrow> 'i \<Rightarrow> 'a" where
  "arm_handler (When p h) i = h i"
| "arm_handler (Tag p h) i = h i"

lemma try_arms_find:
  "try_arms as i =
     (case find (\<lambda>a. arm_guard a i) as of Some a \<Rightarrow> Ok (arm_handler a i) | None \<Rightarrow> Err i)"
  by (induction as i rule: try_arms.induct) simp_all

lemma run_arms_try:
  "run_arms as d i = (case try_arms as i of Inr a \<Rightarrow> Some a | Inl j \<Rightarrow> map_option (\<lambda>h. h j) d)"
  by (induction as d i rule: run_arms.induct) (simp_all split: option.split)

lemma try_arms_Err: "try_arms as i = Inl j \<longleftrightarrow> j = i \<and> (\<forall>a \<in> set as. \<not> arm_guard a i)"
  by (induction as i rule: try_arms.induct) auto

lemma try_arms_append:
  "try_arms (as @ bs) i = (case try_arms as i of Inr a \<Rightarrow> Ok a | Inl _ \<Rightarrow> try_arms bs i)"
  by (induction as i rule: try_arms.induct) auto

end
