(* ===== verification/Failure.thy ===== *)
theory Failure
  imports Matching
begin

text \<open>
  \<open>crates/id_effect/src/failure/\<close> (\<open>cause.rs\<close>, \<open>exit.rs\<close>, \<open>pretty.rs\<close>, \<open>union.rs\<close>) and the
  fiber identifiers of \<open>concurrency/fiber_id.rs\<close>: the failure algebra, terminal outcomes, the
  binary error union and the two renderers of causes.
\<close>

section \<open>Fiber identifiers\<close>

datatype fiber_id = FiberId u64

definition fiber_new :: "u64 \<Rightarrow> fiber_id" where "fiber_new v = FiberId v"

fun as_u64 :: "fiber_id \<Rightarrow> u64" where "as_u64 (FiberId v) = v"

definition fiber_root :: fiber_id where "fiber_root = FiberId 0"

definition is_root :: "fiber_id \<Rightarrow> bool" where "is_root f \<longleftrightarrow> f = fiber_root"

text \<open>\<open>fresh\<close> draws from the static counter \<open>NEXT_ID\<close> (which starts at 1); \<open>fetch_add\<close> wraps.\<close>

definition fresh :: "u64 \<Rightarrow> fiber_id \<times> u64" where
  "fresh next_id = (FiberId next_id, next_id + 1)"

fun fiber_display :: "fiber_id \<Rightarrow> string" where
  "fiber_display (FiberId v) = ''fiber-'' @ show_nat (unat v)"

section \<open>Causes\<close>

datatype 'e cause =
    Fail 'e
  | Die string
  | Interrupt fiber_id
  | Both "'e cause" "'e cause"
  | Then "'e cause" "'e cause"

definition cause_fail :: "'e \<Rightarrow> 'e cause" where "cause_fail e = Fail e"
definition cause_die :: "string \<Rightarrow> 'e cause" where "cause_die m = Die m"
definition cause_interrupt :: "fiber_id \<Rightarrow> 'e cause" where "cause_interrupt f = Interrupt f"
definition cause_both :: "'e cause \<Rightarrow> 'e cause \<Rightarrow> 'e cause" where "cause_both l r = Both l r"
definition cause_then :: "'e cause \<Rightarrow> 'e cause \<Rightarrow> 'e cause" where "cause_then l r = Then l r"

primrec map_fail :: "('e \<Rightarrow> 'e2) \<Rightarrow> 'e cause \<Rightarrow> 'e2 cause" where
  "map_fail f (Fail e) = Fail (f e)"
| "map_fail f (Die m) = Die m"
| "map_fail f (Interrupt i) = Interrupt i"
| "map_fail f (Both l r) = Both (map_fail f l) (map_fail f r)"
| "map_fail f (Then l r) = Then (map_fail f l) (map_fail f r)"

definition fail_option :: "'e cause \<Rightarrow> 'e option" where
  "fail_option c = (case c of Fail e \<Rightarrow> Some e | _ \<Rightarrow> None)"

primrec contains :: "('e cause \<Rightarrow> bool) \<Rightarrow> 'e cause \<Rightarrow> bool" where
  "contains p (Fail e) = p (Fail e)"
| "contains p (Die m) = p (Die m)"
| "contains p (Interrupt i) = p (Interrupt i)"
| "contains p (Both l r) = (p (Both l r) \<or> contains p l \<or> contains p r)"
| "contains p (Then l r) = (p (Then l r) \<or> contains p l \<or> contains p r)"

primrec flatten :: "'e cause cause \<Rightarrow> 'e cause" where
  "flatten (Fail inner) = inner"
| "flatten (Die m) = Die m"
| "flatten (Interrupt i) = Interrupt i"
| "flatten (Both l r) = cause_both (flatten l) (flatten r)"
| "flatten (Then l r) = cause_then (flatten l) (flatten r)"

definition cause_combine :: "'e cause \<Rightarrow> 'e cause \<Rightarrow> 'e cause" where
  "cause_combine a b = cause_both a b"

text \<open>
  \<open>Cause::pretty\<close> dispatches through a \<open>Matcher\<close> with one arm per variant. \<open>pretty\<close> is the
  string the arms build (\<open>show_e\<close> is the \<open>Display\<close> instance of \<open>E\<close>); \<open>pretty_matcher\<close> is the
  matcher itself, whose \<open>unreachable!()\<close> branches are \<open>None\<close>.
\<close>

primrec pretty :: "('e \<Rightarrow> string) \<Rightarrow> 'e cause \<Rightarrow> string" where
  "pretty show_e (Fail e) = ''Fail('' @ show_e e @ '')''"
| "pretty show_e (Die m) = ''Die('' @ m @ '')''"
| "pretty show_e (Interrupt i) = ''Interrupt('' @ fiber_display i @ '')''"
| "pretty show_e (Both l r) = ''Both('' @ pretty show_e l @ '', '' @ pretty show_e r @ '')''"
| "pretty show_e (Then l r) = ''Then('' @ pretty show_e l @ '', '' @ pretty show_e r @ '')''"

definition pretty_matcher :: "('e \<Rightarrow> string) \<Rightarrow> ('e cause, string option) matcher" where
  "pretty_matcher show_e =
    when_arm (when_arm (when_arm (when_arm (when_arm matcher_new
      (\<lambda>c. case c of Fail _ \<Rightarrow> True | _ \<Rightarrow> False)
      (\<lambda>c. case c of Fail e \<Rightarrow> Some (''Fail('' @ show_e e @ '')'') | _ \<Rightarrow> None))
      (\<lambda>c. case c of Die _ \<Rightarrow> True | _ \<Rightarrow> False)
      (\<lambda>c. case c of Die m \<Rightarrow> Some (''Die('' @ m @ '')'') | _ \<Rightarrow> None))
      (\<lambda>c. case c of Interrupt _ \<Rightarrow> True | _ \<Rightarrow> False)
      (\<lambda>c. case c of Interrupt i \<Rightarrow> Some (''Interrupt('' @ fiber_display i @ '')'') | _ \<Rightarrow> None))
      (\<lambda>c. case c of Both _ _ \<Rightarrow> True | _ \<Rightarrow> False)
      (\<lambda>c. case c of
          Both l r \<Rightarrow> Some (''Both('' @ pretty show_e l @ '', '' @ pretty show_e r @ '')'')
        | _ \<Rightarrow> None))
      (\<lambda>c. case c of Then _ _ \<Rightarrow> True | _ \<Rightarrow> False)
      (\<lambda>c. case c of
          Then l r \<Rightarrow> Some (''Then('' @ pretty show_e l @ '', '' @ pretty show_e r @ '')'')
        | _ \<Rightarrow> None)"

section \<open>Exits\<close>

datatype ('a, 'e) exit = Success 'a | Failure "'e cause"

definition exit_succeed :: "'a \<Rightarrow> ('a, 'e) exit" where "exit_succeed v = Success v"
definition exit_fail :: "'e \<Rightarrow> ('a, 'e) exit" where "exit_fail e = Failure (cause_fail e)"
definition exit_die :: "string \<Rightarrow> ('a, 'e) exit" where "exit_die m = Failure (cause_die m)"
definition exit_interrupt :: "fiber_id \<Rightarrow> ('a, 'e) exit" where
  "exit_interrupt f = Failure (cause_interrupt f)"

fun exit_map :: "('a \<Rightarrow> 'b) \<Rightarrow> ('a, 'e) exit \<Rightarrow> ('b, 'e) exit" where
  "exit_map f (Success v) = Success (f v)"
| "exit_map f (Failure c) = Failure c"

fun exit_map_error :: "('e \<Rightarrow> 'e2) \<Rightarrow> ('a, 'e) exit \<Rightarrow> ('a, 'e2) exit" where
  "exit_map_error f (Success v) = Success v"
| "exit_map_error f (Failure c) = Failure (map_fail f c)"

definition into_result_matcher :: "(('a, 'e) exit, ('e cause + 'a) option) matcher" where
  "into_result_matcher =
    when_arm (when_arm matcher_new
      (\<lambda>x. case x of Success _ \<Rightarrow> True | _ \<Rightarrow> False)
      (\<lambda>x. case x of Success v \<Rightarrow> Some (Ok v) | _ \<Rightarrow> None))
      (\<lambda>x. case x of Failure _ \<Rightarrow> True | _ \<Rightarrow> False)
      (\<lambda>x. case x of Failure c \<Rightarrow> Some (Err c) | _ \<Rightarrow> None)"

text \<open>The outer \<open>option\<close> of \<open>run_exhaustive\<close> and the inner one of the arms are both panics.\<close>

definition into_result :: "('a, 'e) exit \<Rightarrow> ('e cause + 'a) option" where
  "into_result x = Option.bind (run_exhaustive into_result_matcher x) (\<lambda>y. y)"

definition to_either :: "('a, 'e) exit \<Rightarrow> ('e cause + 'a) option" where
  "to_either x = into_result x"

fun from_either :: "('e cause + 'a) \<Rightarrow> ('a, 'e) exit" where
  "from_either (Inr v) = Success v"
| "from_either (Inl c) = Failure c"

section \<open>Binary error unions\<close>

datatype ('l, 'r) either_or = OrLeft 'l | OrRight 'r

fun or_to_either :: "('l, 'r) either_or \<Rightarrow> 'l + 'r" where
  "or_to_either (OrLeft l) = Err l"
| "or_to_either (OrRight r) = Ok r"

fun or_from_either :: "('l + 'r) \<Rightarrow> ('l, 'r) either_or" where
  "or_from_either (Inr r) = OrRight r"
| "or_from_either (Inl l) = OrLeft l"

definition or_from :: "'l \<Rightarrow> ('l, 'r) either_or" where "or_from v = OrLeft v"

fun unify :: "('e, 'e) either_or \<Rightarrow> 'e" where
  "unify (OrLeft e) = e"
| "unify (OrRight e) = e"

section \<open>Multi-line rendering\<close>

definition INDENT :: string where "INDENT = ''  ''"

definition pad :: "nat \<Rightarrow> string" where "pad depth = concat (replicate depth INDENT)"

text \<open>\<open>out\<close> is the string built so far; \<open>dbg\<close> is the \<open>Debug\<close> instance of \<open>E\<close>.\<close>

primrec write_pretty_cause :: "('e \<Rightarrow> string) \<Rightarrow> 'e cause \<Rightarrow> nat \<Rightarrow> string \<Rightarrow> string" where
  "write_pretty_cause dbg (Fail e) d out = out @ pad d @ ''Fail('' @ dbg e @ '')'' @ nl"
| "write_pretty_cause dbg (Die m) d out = out @ pad d @ ''Die('' @ m @ '')'' @ nl"
| "write_pretty_cause dbg (Interrupt i) d out =
     out @ pad d @ ''Interrupt('' @ fiber_display i @ '')'' @ nl"
| "write_pretty_cause dbg (Both l r) d out =
     (let out1 = out @ pad d @ ''Both('' @ nl;
          out2 = write_pretty_cause dbg l (d + 1) out1;
          out3 = write_pretty_cause dbg r (d + 1) out2
      in out3 @ pad d @ '')'' @ nl)"
| "write_pretty_cause dbg (Then l r) d out =
     (let out1 = out @ pad d @ ''Then('' @ nl;
          out2 = write_pretty_cause dbg l (d + 1) out1;
          out3 = write_pretty_cause dbg r (d + 1) out2
      in out3 @ pad d @ '')'' @ nl)"

definition pretty_cause :: "('e \<Rightarrow> string) \<Rightarrow> 'e cause \<Rightarrow> string" where
  "pretty_cause dbg c = write_pretty_cause dbg c 0 []"

fun pretty_exit :: "('a \<Rightarrow> string) \<Rightarrow> ('e \<Rightarrow> string) \<Rightarrow> ('a, 'e) exit \<Rightarrow> string" where
  "pretty_exit dbg_a dbg_e (Success v) = ''Success('' @ dbg_a v @ '')''"
| "pretty_exit dbg_a dbg_e (Failure c) = ''Failure('' @ nl @ pretty_cause dbg_e c @ nl @ '')''"

section \<open>The cause algebra\<close>

lemmas cause_constructors =
  cause_fail_def cause_die_def cause_interrupt_def cause_both_def cause_then_def

lemmas exit_constructors =
  exit_succeed_def exit_fail_def exit_die_def exit_interrupt_def

lemma map_fail_id [simp]: "map_fail (\<lambda>e. e) c = c"
  by (induction c) simp_all

lemma map_fail_comp: "map_fail g (map_fail f c) = map_fail (\<lambda>e. g (f e)) c"
  by (induction c) simp_all

primrec subcauses :: "'e cause \<Rightarrow> 'e cause list" where
  "subcauses (Fail e) = [Fail e]"
| "subcauses (Die m) = [Die m]"
| "subcauses (Interrupt i) = [Interrupt i]"
| "subcauses (Both l r) = Both l r # subcauses l @ subcauses r"
| "subcauses (Then l r) = Then l r # subcauses l @ subcauses r"

lemma contains_subcauses: "contains p c \<longleftrightarrow> (\<exists>d \<in> set (subcauses c). p d)"
  by (induction c) auto

lemma flatten_map_fail: "flatten (map_fail (map_fail f) c) = map_fail f (flatten c)"
  by (induction c) (simp_all add: cause_constructors)

lemma flatten_flatten: "flatten (flatten c) = flatten (map_fail flatten c)"
  by (induction c) (simp_all add: cause_constructors)

lemma flatten_Fail: "flatten (map_fail Fail c) = c"
  by (induction c) (simp_all add: cause_constructors)

lemma pretty_by_matcher: "run_exhaustive (pretty_matcher show_e) c = Some (Some (pretty show_e c))"
  by (cases c)
    (simp_all add: run_exhaustive_def pretty_matcher_def when_arm_def matcher_new_def)

lemma into_result_total [simp]:
  "into_result (Success v) = Some (Ok v)" "into_result (Failure c) = Some (Err c)"
  by (simp_all add: into_result_def run_exhaustive_def into_result_matcher_def when_arm_def
      matcher_new_def)

lemma from_either_inverse: "Option.bind (to_either x) (\<lambda>y. Some (from_either y)) = Some x"
  by (cases x) (simp_all add: to_either_def)

text \<open>The layout of a rendered cause: one \<open>(depth, text)\<close> pair per line.\<close>

primrec cause_lines :: "('e \<Rightarrow> string) \<Rightarrow> 'e cause \<Rightarrow> nat \<Rightarrow> (nat \<times> string) list" where
  "cause_lines dbg (Fail e) d = [(d, ''Fail('' @ dbg e @ '')'')]"
| "cause_lines dbg (Die m) d = [(d, ''Die('' @ m @ '')'')]"
| "cause_lines dbg (Interrupt i) d = [(d, ''Interrupt('' @ fiber_display i @ '')'')]"
| "cause_lines dbg (Both l r) d =
     (d, ''Both('') # cause_lines dbg l (d + 1) @ cause_lines dbg r (d + 1) @ [(d, '')'')]"
| "cause_lines dbg (Then l r) d =
     (d, ''Then('') # cause_lines dbg l (d + 1) @ cause_lines dbg r (d + 1) @ [(d, '')'')]"

definition render_lines :: "(nat \<times> string) list \<Rightarrow> string" where
  "render_lines ls = concat (map (\<lambda>(d, s). pad d @ s @ nl) ls)"

lemma render_lines_simps [simp]:
  "render_lines [] = []"
  "render_lines ((d, s) # ls) = pad d @ s @ nl @ render_lines ls"
  "render_lines (ls @ ms) = render_lines ls @ render_lines ms"
  by (simp_all add: render_lines_def)

lemma write_pretty_cause_lines:
  "write_pretty_cause dbg c d out = out @ render_lines (cause_lines dbg c d)"
  by (induction c arbitrary: d out) (simp_all add: Let_def)

lemma cause_lines_depth: "(k, s) \<in> set (cause_lines dbg c d) \<Longrightarrow> d \<le> k"
  by (induction c arbitrary: d) (auto dest: Suc_leD)

end
