(* ===== verification/Effects.thy ===== *)
theory Effects
  imports Failure
begin

text \<open>
  \<open>crates/id_effect/src/kernel/effect.rs\<close>: the lazy program \<open>Effect<A, E, R>\<close> and its
  combinators.

  Running an effect takes the environment \<open>r\<close> (the \<open>&mut R\<close>) and the shared state \<open>w\<close> that the
  closures reach through \<open>Arc\<close>s; it gives the \<open>Result\<close>, the environment as the effect left it and
  the shared state. The outer \<open>option\<close> is completion of the returned future: \<open>None\<close> is a future
  that never resolves. \<open>Never\<close> is an uninhabited error type in Rust; here an effect in
  \<open>Effect<_, Never, _>\<close> keeps a type variable for the error and is \<open>infallible\<close>.
\<close>

type_synonym ('a, 'e, 'r, 'w) effect = "'r \<Rightarrow> 'w \<Rightarrow> (('e + 'a) \<times> 'r \<times> 'w) option"

section \<open>Construction and execution\<close>

definition new_sync :: "('r \<Rightarrow> 'w \<Rightarrow> ('e + 'a) \<times> 'r \<times> 'w) \<Rightarrow> ('a, 'e, 'r, 'w) effect" where
  "new_sync f = (\<lambda>r w. Some (f r w))"

definition new_async :: "('r \<Rightarrow> 'w \<Rightarrow> (('e + 'a) \<times> 'r \<times> 'w) option) \<Rightarrow> ('a, 'e, 'r, 'w) effect"
  where "new_async f = f"

definition run :: "('a, 'e, 'r, 'w) effect \<Rightarrow> 'r \<Rightarrow> 'w \<Rightarrow> (('e + 'a) \<times> 'r \<times> 'w) option" where
  "run eff r w = eff r w"

definition from_async ::
  "('r \<Rightarrow> 'w \<Rightarrow> (('e + 'a) \<times> 'r \<times> 'w) option) \<Rightarrow> ('a, 'e, 'r, 'w) effect" where
  "from_async f = new_async (\<lambda>r w. f r w)"

definition succeed :: "'a \<Rightarrow> ('a, 'e, 'r, 'w) effect" where
  "succeed a = new_sync (\<lambda>r w. (Ok a, r, w))"

definition fail :: "'e \<Rightarrow> ('a, 'e, 'r, 'w) effect" where
  "fail e = new_sync (\<lambda>r w. (Err e, r, w))"

definition pure_effect :: "'a \<Rightarrow> ('a, unit, unit, 'w) effect" where
  "pure_effect a = succeed a"

definition ask :: "('r, 'n, 'r, 'w) effect" where
  "ask = new_sync (\<lambda>r w. (Ok r, r, w))"

definition asks :: "('r \<Rightarrow> 'a) \<Rightarrow> ('a, 'n, 'r, 'w) effect" where
  "asks f = new_sync (\<lambda>r w. (Ok (f r), r, w))"

text \<open>\<open>IntoBind\<close>: an effect binds by running, a plain \<open>Result\<close> by being ready.\<close>

definition effect_into_bind ::
  "('a, 'e, 'r, 'w) effect \<Rightarrow> 'r \<Rightarrow> 'w \<Rightarrow> (('e + 'a) \<times> 'r \<times> 'w) option" where
  "effect_into_bind eff r w = run eff r w"

definition result_into_bind :: "('e + 'a) \<Rightarrow> 'r \<Rightarrow> 'w \<Rightarrow> (('e + 'a) \<times> 'r \<times> 'w) option" where
  "result_into_bind x r w = Some (x, r, w)"

section \<open>Success channel\<close>

definition map_effect ::
  "('a, 'e, 'r, 'w) effect \<Rightarrow> ('a \<Rightarrow> 'b) \<Rightarrow> ('b, 'e, 'r, 'w) effect" where
  "map_effect eff g = new_async (\<lambda>r w.
     Option.bind (run eff r w) (\<lambda>(res, r', w').
       case res of Inl e \<Rightarrow> Some (Err e, r', w') | Inr a \<Rightarrow> Some (Ok (g a), r', w')))"

definition as_value :: "('a, 'e, 'r, 'w) effect \<Rightarrow> 'b \<Rightarrow> ('b, 'e, 'r, 'w) effect" where
  "as_value eff b = map_effect eff (\<lambda>_. b)"

definition void :: "('a, 'e, 'r, 'w) effect \<Rightarrow> (unit, 'e, 'r, 'w) effect" where
  "void eff = as_value eff ()"

definition flat_map ::
  "('a, 'e, 'r, 'w) effect \<Rightarrow> ('a \<Rightarrow> ('b, 'e, 'r, 'w) effect) \<Rightarrow> ('b, 'e, 'r, 'w) effect" where
  "flat_map eff h = new_async (\<lambda>r w.
     Option.bind (run eff r w) (\<lambda>(res, r', w').
       case res of Inl e \<Rightarrow> Some (Err e, r', w') | Inr a \<Rightarrow> run (h a) r' w'))"

definition and_then ::
  "('a, 'e, 'r, 'w) effect \<Rightarrow> ('b, 'e, 'r, 'w) effect \<Rightarrow> ('b, 'e, 'r, 'w) effect" where
  "and_then eff other = flat_map eff (\<lambda>_. other)"

definition and_then_discard ::
  "('a, 'e, 'r, 'w) effect \<Rightarrow> ('b, 'e, 'r, 'w) effect \<Rightarrow> ('a, 'e, 'r, 'w) effect" where
  "and_then_discard eff other = flat_map eff (\<lambda>a. map_effect other (\<lambda>_. a))"

section \<open>Error channel\<close>

definition map_error ::
  "('a, 'e, 'r, 'w) effect \<Rightarrow> ('e \<Rightarrow> 'e2) \<Rightarrow> ('a, 'e2, 'r, 'w) effect" where
  "map_error eff h = new_async (\<lambda>r w.
     Option.bind (run eff r w) (\<lambda>(res, r', w'). Some (result_map_err h res, r', w')))"

definition catch ::
  "('a, 'e, 'r, 'w) effect \<Rightarrow> ('e \<Rightarrow> ('a, 'e2, 'r, 'w) effect) \<Rightarrow> ('a, 'e2, 'r, 'w) effect" where
  "catch eff h = new_async (\<lambda>r w.
     Option.bind (run eff r w) (\<lambda>(res, r', w').
       case res of Inr a \<Rightarrow> Some (Ok a, r', w') | Inl e \<Rightarrow> run (h e) r' w'))"

text \<open>\<open>dbg\<close> is the \<open>Debug\<close> instance of \<open>E\<close>; an error of the handler replaces the original one.\<close>

definition tap_error ::
  "('e \<Rightarrow> string) \<Rightarrow> ('a, 'e, 'r, 'w) effect \<Rightarrow> (string \<Rightarrow> (unit, 'e, 'r, 'w) effect)
    \<Rightarrow> ('a, 'e, 'r, 'w) effect" where
  "tap_error dbg eff h = new_async (\<lambda>r w.
     Option.bind (run eff r w) (\<lambda>(res, r', w').
       case res of
         Inr a \<Rightarrow> Some (Ok a, r', w')
       | Inl e \<Rightarrow> Option.bind (run (h (dbg e)) r' w') (\<lambda>(res2, r2, w2).
           case res2 of Inl e2 \<Rightarrow> Some (Err e2, r2, w2) | Inr _ \<Rightarrow> Some (Err e, r2, w2))))"

definition catch_all ::
  "('a, 'e, 'r, 'w) effect \<Rightarrow> ('e \<Rightarrow> 'a) \<Rightarrow> ('a, 'n, 'r, 'w) effect" where
  "catch_all eff fallback = new_async (\<lambda>r w.
     Option.bind (run eff r w) (\<lambda>(res, r', w').
       case res of Inr a \<Rightarrow> Some (Ok a, r', w') | Inl e \<Rightarrow> Some (Ok (fallback e), r', w')))"

definition union_error ::
  "('a, 'e, 'r, 'w) effect \<Rightarrow> ('a, ('e, 'e2) either_or, 'r, 'w) effect" where
  "union_error eff = map_error eff OrLeft"

definition flat_map_union ::
  "('a, 'e, 'r, 'w) effect \<Rightarrow> ('a \<Rightarrow> ('b, 'e2, 'r, 'w) effect)
    \<Rightarrow> ('b, ('e, 'e2) either_or, 'r, 'w) effect" where
  "flat_map_union eff h = flat_map (union_error eff) (\<lambda>a. map_error (h a) OrRight)"

section \<open>Environment\<close>

text \<open>\<open>local\<close> clones the environment, so what the effect does to its copy is dropped.\<close>

definition local_env :: "('a, 'e, 'r, 'w) effect \<Rightarrow> ('r \<Rightarrow> 'r) \<Rightarrow> ('a, 'e, 'r, 'w) effect" where
  "local_env eff f = new_async (\<lambda>r w.
     Option.bind (run eff (f r) w) (\<lambda>(res, _, w'). Some (res, r, w')))"

text \<open>The projection of \<open>zoom_env\<close> takes \<open>&mut S\<close>: it may change the outer environment.\<close>

definition zoom_env ::
  "('a, 'e, 'r, 'w) effect \<Rightarrow> ('s \<Rightarrow> 'w \<Rightarrow> 'r \<times> 's \<times> 'w) \<Rightarrow> ('a, 'e, 's, 'w) effect" where
  "zoom_env eff f = new_async (\<lambda>s w.
     (case f s w of (inner, s', w1) \<Rightarrow>
        Option.bind (run eff inner w1) (\<lambda>(res, _, w'). Some (res, s', w'))))"

section \<open>Finalisers\<close>

definition ensuring ::
  "('a, 'e, 'r, 'w) effect \<Rightarrow> (unit, 'n, 'r, 'w) effect \<Rightarrow> ('a, 'e, 'r, 'w) effect" where
  "ensuring eff finalizer = new_async (\<lambda>r w.
     Option.bind (run eff r w) (\<lambda>(res, r', w').
       Option.bind (run finalizer r' w') (\<lambda>(_, r2, w2). Some (res, r2, w2))))"

definition on_exit ::
  "('a, 'e, 'r, 'w) effect \<Rightarrow> (('a, 'e) exit \<Rightarrow> (unit, 'n, 'r, 'w) effect)
    \<Rightarrow> ('a, 'e, 'r, 'w) effect" where
  "on_exit eff f = new_async (\<lambda>r w.
     Option.bind (run eff r w) (\<lambda>(res, r', w').
       case res of
         Inr v \<Rightarrow> Option.bind (run (f (exit_succeed v)) r' w') (\<lambda>(_, r2, w2). Some (Ok v, r2, w2))
       | Inl e \<Rightarrow> Option.bind (run (f (exit_fail e)) r' w') (\<lambda>(_, r2, w2). Some (Err e, r2, w2))))"

text \<open>\<open>default_r2\<close> is \<open>R2::default()\<close>, the environment the release effect runs in.\<close>

definition acquire_release ::
  "'r2 \<Rightarrow> ('a, 'e, 'r, 'w) effect \<Rightarrow> ('a \<Rightarrow> (unit, 'e2, 'r2, 'w) effect)
    \<Rightarrow> ('a, 'e, 'r, 'w) effect" where
  "acquire_release default_r2 acquire release = new_async (\<lambda>r w.
     Option.bind (run acquire r w) (\<lambda>(res, r', w').
       case res of
         Inl e \<Rightarrow> Some (Err e, r', w')
       | Inr v \<Rightarrow> Option.bind (run (release v) default_r2 w') (\<lambda>(_, _, w2). Some (Ok v, r', w2))))"

section \<open>Laws\<close>

definition infallible :: "('a, 'e, 'r, 'w) effect \<Rightarrow> bool" where
  "infallible eff \<longleftrightarrow> (\<forall>r w res r' w'. run eff r w = Some (res, r', w') \<longrightarrow> (\<exists>a. res = Ok a))"

lemmas effect_defs =
  new_sync_def new_async_def run_def succeed_def fail_def map_effect_def flat_map_def
  map_error_def catch_def catch_all_def local_env_def zoom_env_def ensuring_def on_exit_def
  acquire_release_def tap_error_def and_then_def and_then_discard_def as_value_def void_def
  union_error_def flat_map_union_def ask_def asks_def from_async_def pure_effect_def


lemma run_succeed [effect_simps, simp]: "run (succeed a) r w = Some (Ok a, r, w)"
  by (simp add: run_def succeed_def new_sync_def)

lemma run_fail [effect_simps, simp]: "run (fail e) r w = Some (Err e, r, w)"
  by (simp add: run_def fail_def new_sync_def)

lemma run_flat_map [effect_simps]:
  "run (flat_map eff h) r w = (case run eff r w of
       None \<Rightarrow> None
     | Some (Inl e, r', w') \<Rightarrow> Some (Err e, r', w')
     | Some (Inr a, r', w') \<Rightarrow> run (h a) r' w')"
  by (simp add: effect_defs split: option.split prod.split sum.split)

lemma run_map_effect [effect_simps]:
  "run (map_effect eff g) r w = map_option (\<lambda>(res, s). (result_map g res, s)) (run eff r w)"
  by (cases "run eff r w") (auto simp: effect_defs result_map_def split: sum.split)

lemma run_catch [effect_simps]:
  "run (catch eff h) r w = (case run eff r w of
       None \<Rightarrow> None
     | Some (Inr a, r', w') \<Rightarrow> Some (Ok a, r', w')
     | Some (Inl e, r', w') \<Rightarrow> run (h e) r' w')"
  by (simp add: effect_defs split: option.split prod.split sum.split)

lemma run_map_error [effect_simps]:
  "run (map_error eff h) r w = map_option (\<lambda>(res, s). (result_map_err h res, s)) (run eff r w)"
  by (cases "run eff r w") (auto simp: effect_defs result_map_def split: sum.split)

lemma run_ensuring [effect_simps]:
  "run (ensuring eff fin) r w = (case run eff r w of
       None \<Rightarrow> None
     | Some (res, r', w') \<Rightarrow> map_option (\<lambda>(_, s). (res, s)) (run fin r' w'))"
  by (auto simp: effect_defs map_option_case split: option.split)

lemma effect_eqI: "(\<And>r w. run f r w = run g r w) \<Longrightarrow> f = g"
  by (auto simp: run_def fun_eq_iff)

interpretation eff_seq: sequencing "succeed :: 'a \<Rightarrow> ('a, 'e, 'r, 'w) effect" flat_map
proof
  show "flat_map (succeed a) f = f a" for a :: 'a and f :: "'a \<Rightarrow> ('a, 'e, 'r, 'w) effect"
    by (rule effect_eqI) (simp add: effect_simps)
  show "flat_map m succeed = m" for m :: "('a, 'e, 'r, 'w) effect"
    by (rule effect_eqI) (auto simp: effect_simps split: option.split sum.split)
  show "flat_map (flat_map m f) g = flat_map m (\<lambda>a. flat_map (f a) g)"
    for m :: "('a, 'e, 'r, 'w) effect" and f g
    by (rule effect_eqI) (auto simp: effect_simps split: option.split sum.split)
qed

lemma map_effect_flat_map: "map_effect eff g = flat_map eff (\<lambda>a. succeed (g a))"
  by (rule effect_eqI) (auto simp: effect_simps split: option.split sum.split)

lemma flat_map_fail: "flat_map (fail e) h = fail e"
  by (rule effect_eqI) (simp add: effect_simps)

lemma catch_succeed: "catch (succeed a) h = succeed a"
  by (rule effect_eqI) (simp add: effect_simps)

lemma catch_catch: "catch (catch eff h) k = catch eff (\<lambda>e. catch (h e) k)"
  by (rule effect_eqI) (auto simp: effect_simps split: option.split sum.split)

lemma run_catch_all [effect_simps]:
  "run (catch_all eff f) r w =
     map_option (\<lambda>(res, s). (Ok (case res of Inl e \<Rightarrow> f e | Inr a \<Rightarrow> a), s)) (run eff r w)"
  by (cases "run eff r w") (auto simp: effect_defs split: sum.split)

lemma infallible_catch_all: "infallible (catch_all eff fallback)"
  by (auto simp: infallible_def run_catch_all)

lemma map_error_comp: "map_error (map_error m f) g = map_error m (\<lambda>e. g (f e))"
  by (rule effect_eqI) (auto simp: run_map_error option.map_comp o_def result_map_err_def split: sum.split
    intro!: option.map_cong0)

lemma map_error_id: "map_error m (\<lambda>e. e) = m"
proof (rule effect_eqI)
  fix r w
  show "run (map_error m (\<lambda>e. e)) r w = run m r w"
    by (cases "run m r w") (auto simp: run_map_error result_map_err_def split: sum.split)
qed

lemma map_error_flat_map: "map_error (flat_map m f) g = flat_map (map_error m g) (\<lambda>a. map_error (f a) g)"
  by (rule effect_eqI) (auto simp: effect_simps result_map_err_def split: option.split sum.split)

section \<open>Properties\<close>

text \<open>
  Sequencing and recovery obey their laws for every effect, completing or not: \<open>succeed\<close> is the
  unit of \<open>flat_map\<close> on both sides, \<open>flat_map\<close> is associative, a failure skips the rest, \<open>catch\<close>
  leaves a success alone and nested handlers compose, and \<open>flat_map_union\<close> keeps the errors of
  its two halves apart so that unifying them gives \<open>flat_map\<close> back.
\<close>

theorem effect_laws:
  fixes m :: "('a, 'e, 'r, 'w) effect"
  shows "flat_map (succeed a) f = f a \<and> flat_map m succeed = m \<and>
    flat_map (flat_map m f) g = flat_map m (\<lambda>x. flat_map (f x) g) \<and>
    flat_map (fail e) f = fail e \<and> catch (succeed a) h = succeed a \<and> catch (fail e) h = h e \<and>
    catch (catch m h) k = catch m (\<lambda>x. catch (h x) k) \<and>
    map_error (flat_map_union m f) unify = flat_map m f"
proof (intro conjI)
  show "flat_map (succeed a) f = f a" "flat_map (flat_map m f) g = flat_map m (\<lambda>x. flat_map (f x) g)"
    by (rule effect_eqI, auto simp: effect_simps split: option.split sum.split)+
  show "flat_map m succeed = m" by (rule eff_seq.ret_bind)
  show "map_error (flat_map_union m f) unify = flat_map m f"
    by (simp add: flat_map_union_def union_error_def map_error_flat_map map_error_comp map_error_id)
  show "catch (fail e) h = h e" by (rule effect_eqI) (simp add: effect_simps)
qed (simp_all only: flat_map_fail catch_succeed catch_catch)

text \<open>
  The value of \<open>acquire_release\<close> has already been released when the rest of the program gets
  it: everything sequenced after it runs in the state the release left, whether or not the
  release failed.
\<close>

theorem acquire_release_releases_before_use:
  assumes "run acq r w = Some (Ok v, r1, w1)" "run (rel v) env0 w1 = Some (res, env1, w2)"
  shows "run (flat_map (acquire_release env0 acq rel) use) r w = run (use v) r1 w2"
  using assms by (simp add: run_flat_map) (simp add: effect_defs)

lemma acquire_release_releases_before_use_witness:
  "run (flat_map (acquire_release () (new_sync (\<lambda>r w. (Ok (7 :: nat), r, w @ [''open''])))
        (\<lambda>_. new_sync (\<lambda>r w. (Ok () :: unit + unit, r, w @ [''close'']))))
      (\<lambda>_. new_sync (\<lambda>r w. (Ok () :: unit + unit, r, w @ [''use''])))) () [] =
     Some (Ok (), (), [''open'', ''close'', ''use''])"
  by (subst acquire_release_releases_before_use [where v = 7 and ?r1.0 = "()" and ?w1.0 = "[''open'']"
      and res = "Ok ()" and ?env1.0 = "()" and ?w2.0 = "[''open'', ''close'']"])
    (simp_all add: effect_defs)

end
