(* ===== verification/Orders.thy ===== *)
theory Orders
  imports Prelude "HOL-Library.Multiset"
begin

text \<open>
  \<open>crates/id_effect/src/schema/order.rs\<close>: three-way comparison results and first-class
  comparators (\<open>DynOrder\<close>). The contract of a comparator is the locale \<open>comparator_laws\<close>; the
  combinators \<open>reverse\<close>, \<open>combine\<close> and \<open>map_input\<close> keep it, and the selection functions are
  correct for every comparator that satisfies it.
\<close>

datatype ordering = Less | Equal | Greater

type_synonym 'a dyn_order = "'a \<Rightarrow> 'a \<Rightarrow> ordering"

section \<open>Ordering values\<close>

fun ordering_reverse :: "ordering \<Rightarrow> ordering" where
  "ordering_reverse Less = Greater"
| "ordering_reverse Equal = Equal"
| "ordering_reverse Greater = Less"

fun ordering_combine :: "ordering \<Rightarrow> ordering \<Rightarrow> ordering" where
  "ordering_combine Equal second = second"
| "ordering_combine other second = other"

fun ordering_match :: "ordering \<Rightarrow> (unit \<Rightarrow> 'a) \<Rightarrow> (unit \<Rightarrow> 'a) \<Rightarrow> (unit \<Rightarrow> 'a) \<Rightarrow> 'a" where
  "ordering_match Less on_less on_equal on_greater = on_less ()"
| "ordering_match Equal on_less on_equal on_greater = on_equal ()"
| "ordering_match Greater on_less on_equal on_greater = on_greater ()"

section \<open>Comparators\<close>

text \<open>
  \<open>Ord::cmp\<close> of a totally ordered type; \<open>order::duration\<close>, \<open>order::string\<close>, \<open>order::number_i64\<close>,
  \<open>order::number_u64\<close> and \<open>order::number_usize\<close> are this function at their types.
\<close>

definition cmp :: "'a::linorder dyn_order" where
  "cmp a b = (if a < b then Less else if a = b then Equal else Greater)"

definition order_reverse :: "'a dyn_order \<Rightarrow> 'a dyn_order" where
  "order_reverse ord = (\<lambda>a b. ord b a)"

definition order_combine :: "'a dyn_order \<Rightarrow> 'a dyn_order \<Rightarrow> 'a dyn_order" where
  "order_combine first second = (\<lambda>a b. ordering_combine (first a b) (second a b))"

definition order_map_input :: "'a dyn_order \<Rightarrow> ('b \<Rightarrow> 'a) \<Rightarrow> 'b dyn_order" where
  "order_map_input ord f = (\<lambda>a b. ord (f a) (f b))"

definition order_less_than :: "'a dyn_order \<Rightarrow> 'a \<Rightarrow> 'a \<Rightarrow> bool" where
  "order_less_than ord a b \<longleftrightarrow> ord a b = Less"

definition order_less_than_or_equal_to :: "'a dyn_order \<Rightarrow> 'a \<Rightarrow> 'a \<Rightarrow> bool" where
  "order_less_than_or_equal_to ord a b \<longleftrightarrow> ord a b \<noteq> Greater"

definition order_greater_than :: "'a dyn_order \<Rightarrow> 'a \<Rightarrow> 'a \<Rightarrow> bool" where
  "order_greater_than ord a b \<longleftrightarrow> ord a b = Greater"

definition order_greater_than_or_equal_to :: "'a dyn_order \<Rightarrow> 'a \<Rightarrow> 'a \<Rightarrow> bool" where
  "order_greater_than_or_equal_to ord a b \<longleftrightarrow> ord a b \<noteq> Less"

definition order_min :: "'a dyn_order \<Rightarrow> 'a \<Rightarrow> 'a \<Rightarrow> 'a" where
  "order_min ord a b = (if ord a b \<noteq> Greater then a else b)"

definition order_max :: "'a dyn_order \<Rightarrow> 'a \<Rightarrow> 'a \<Rightarrow> 'a" where
  "order_max ord a b = (if ord a b \<noteq> Less then a else b)"

definition order_clamp :: "'a dyn_order \<Rightarrow> 'a \<Rightarrow> 'a \<Rightarrow> 'a \<Rightarrow> 'a" where
  "order_clamp ord v lo hi =
     (if ord v lo = Less then lo else if ord v hi = Greater then hi else v)"

definition order_between :: "'a dyn_order \<Rightarrow> 'a \<Rightarrow> 'a \<Rightarrow> 'a \<Rightarrow> bool" where
  "order_between ord v lo hi \<longleftrightarrow> ord v lo \<noteq> Less \<and> ord v hi \<noteq> Greater"

text \<open>
  \<open>slice::sort_by\<close> is a stable sort: an element is inserted in front of the first element that
  compares greater, taking the elements from right to left.
\<close>

fun insert_by :: "'a dyn_order \<Rightarrow> 'a \<Rightarrow> 'a list \<Rightarrow> 'a list" where
  "insert_by ord x [] = [x]"
| "insert_by ord x (y # ys) = (if ord x y \<noteq> Greater then x # y # ys else y # insert_by ord x ys)"

definition sort_with_serial :: "'a dyn_order \<Rightarrow> 'a list \<Rightarrow> 'a list" where
  "sort_with_serial ord xs = foldr (insert_by ord) xs []"

section \<open>Laws\<close>

locale comparator_laws =
  fixes ord :: "'a dyn_order"
  assumes flip: "ord b a = ordering_reverse (ord a b)"
    and le_trans: "ord a b \<noteq> Greater \<Longrightarrow> ord b c \<noteq> Greater \<Longrightarrow> ord a c \<noteq> Greater"
begin

lemma refl: "ord a a = Equal"
  using flip [of a a] by (cases "ord a a") auto

lemma total: "ord a b \<noteq> Greater \<or> ord b a \<noteq> Greater"
  using flip [of a b] by (cases "ord a b") auto

lemma not_le: "ord a b = Greater \<longleftrightarrow> ord b a = Less"
  using flip [of a b] by (cases "ord b a") auto

lemma not_ge: "ord a b = Less \<longleftrightarrow> ord b a = Greater"
  using flip [of a b] by (cases "ord b a") auto

lemma le_of_greater: "ord a b = Greater \<Longrightarrow> ord b a \<noteq> Greater"
  by (simp add: not_le)

lemma clamp_between:
  assumes "ord lo hi \<noteq> Greater"
  shows "order_between ord (order_clamp ord v lo hi) lo hi"
  using assms by (auto simp: order_between_def order_clamp_def refl not_ge)

lemma clamp_id: "order_between ord v lo hi \<Longrightarrow> order_clamp ord v lo hi = v"
  by (auto simp: order_between_def order_clamp_def)

lemma min_lower: "ord (order_min ord a b) a \<noteq> Greater \<and> ord (order_min ord a b) b \<noteq> Greater"
  by (auto simp: order_min_def refl dest: le_of_greater)

lemma max_upper: "ord a (order_max ord a b) \<noteq> Greater \<and> ord b (order_max ord a b) \<noteq> Greater"
  using flip [of b a] by (cases "ord a b") (simp_all add: order_max_def refl)

lemma mset_insert_by: "mset (insert_by ord x ys) = add_mset x (mset ys)"
  by (induction ys) auto

lemma sorted_insert_by:
  "sorted_wrt (\<lambda>a b. ord a b \<noteq> Greater) ys \<Longrightarrow> sorted_wrt (\<lambda>a b. ord a b \<noteq> Greater) (insert_by ord x ys)"
proof (induction ys)
  case Nil
  show ?case by simp
next
  case (Cons y ys)
  have set_eq: "set (insert_by ord x ys) = insert x (set ys)"
    using mset_insert_by [of x ys] by (metis set_mset_add_mset_insert set_mset_mset)
  show ?case
  proof (cases "ord x y = Greater")
    case True
    then have "ord y x \<noteq> Greater" by (rule le_of_greater)
    with True Cons set_eq show ?thesis by auto
  next
    case False
    with Cons.prems show ?thesis by (auto dest: le_trans)
  qed
qed

lemma sort_with_serial_sorted: "sorted_wrt (\<lambda>a b. ord a b \<noteq> Greater) (sort_with_serial ord xs)"
  by (induction xs) (simp_all add: sort_with_serial_def sorted_insert_by)

lemma sort_with_serial_mset: "mset (sort_with_serial ord xs) = mset xs"
  by (induction xs) (simp_all add: sort_with_serial_def mset_insert_by)

lemma filter_insert_by_eq:
  "sorted_wrt (\<lambda>a b. ord a b \<noteq> Greater) ys \<Longrightarrow> ord k x = Equal \<Longrightarrow>
   filter (\<lambda>y. ord k y = Equal) (insert_by ord x ys) = x # filter (\<lambda>y. ord k y = Equal) ys"
proof (induction ys)
  case Nil
  then show ?case by simp
next
  case (Cons y ys)
  have "ord k y \<noteq> Equal" if gt: "ord x y = Greater"
  proof
    assume "ord k y = Equal"
    then have "ord k y \<noteq> Greater" by simp
    moreover have "ord x k \<noteq> Greater" using Cons.prems(2) flip [of x k] by simp
    ultimately show False using le_trans [of x k y] gt by simp
  qed
  with Cons show ?case by auto
qed

lemma filter_insert_by_neq:
  "ord k x \<noteq> Equal \<Longrightarrow>
   filter (\<lambda>y. ord k y = Equal) (insert_by ord x ys) = filter (\<lambda>y. ord k y = Equal) ys"
  by (induction ys) auto

lemma sort_with_serial_stable:
  "filter (\<lambda>y. ord k y = Equal) (sort_with_serial ord xs) = filter (\<lambda>y. ord k y = Equal) xs"
proof (induction xs)
  case Nil
  show ?case by (simp add: sort_with_serial_def)
next
  case (Cons x xs)
  have "sort_with_serial ord (x # xs) = insert_by ord x (sort_with_serial ord xs)"
    by (simp add: sort_with_serial_def)
  with Cons sort_with_serial_sorted [of xs] show ?case
    by (simp add: filter_insert_by_eq filter_insert_by_neq)
qed

end

interpretation cmp_laws: comparator_laws "cmp :: 'a::linorder dyn_order"
  by unfold_locales (auto simp: cmp_def split: if_splits)

lemma ordering_combine_reverse:
  "ordering_reverse (ordering_combine a b) = ordering_combine (ordering_reverse a) (ordering_reverse b)"
  by (cases a) auto

lemma ordering_combine_Greater:
  "ordering_combine a b = Greater \<longleftrightarrow> a = Greater \<or> (a = Equal \<and> b = Greater)"
  by (cases a) auto

lemma comparator_reverse:
  assumes "comparator_laws ord"
  shows "comparator_laws (order_reverse ord)"
proof
  fix a b c
  show "order_reverse ord b a = ordering_reverse (order_reverse ord a b)"
    unfolding order_reverse_def by (rule comparator_laws.flip [OF assms])
  show "order_reverse ord a b \<noteq> Greater \<Longrightarrow> order_reverse ord b c \<noteq> Greater \<Longrightarrow>
    order_reverse ord a c \<noteq> Greater"
    unfolding order_reverse_def by (rule comparator_laws.le_trans [OF assms])
qed

lemma comparator_map_input:
  assumes "comparator_laws ord"
  shows "comparator_laws (order_map_input ord f)"
proof
  fix a b c
  show "order_map_input ord f b a = ordering_reverse (order_map_input ord f a b)"
    unfolding order_map_input_def by (rule comparator_laws.flip [OF assms])
  show "order_map_input ord f a b \<noteq> Greater \<Longrightarrow> order_map_input ord f b c \<noteq> Greater \<Longrightarrow>
    order_map_input ord f a c \<noteq> Greater"
    unfolding order_map_input_def by (rule comparator_laws.le_trans [OF assms])
qed

lemma comparator_eq_trans:
  assumes "comparator_laws ord" "ord a b \<noteq> Greater" "ord b c \<noteq> Greater" "ord a c = Equal"
  shows "ord a b = Equal \<and> ord b c = Equal"
proof -
  note laws = comparator_laws.flip [OF assms(1)] comparator_laws.le_trans [OF assms(1)]
  have "ord c a \<noteq> Greater" using laws(1) [of c a] assms(4) by simp
  then have "ord b a \<noteq> Greater" "ord c b \<noteq> Greater" using laws(2) assms(2,3) by blast+
  then show ?thesis
    using laws(1) [of b a] laws(1) [of c b] assms(2,3) by (cases "ord a b"; cases "ord b c") auto
qed

lemma comparator_combine:
  assumes "comparator_laws ord1" "comparator_laws ord2"
  shows "comparator_laws (order_combine ord1 ord2)"
proof
  fix a b c
  show "order_combine ord1 ord2 b a = ordering_reverse (order_combine ord1 ord2 a b)"
    unfolding order_combine_def ordering_combine_reverse
    by (simp add: comparator_laws.flip [OF assms(1), of b a] comparator_laws.flip [OF assms(2), of b a])
  assume le: "order_combine ord1 ord2 a b \<noteq> Greater" "order_combine ord1 ord2 b c \<noteq> Greater"
  then have first: "ord1 a b \<noteq> Greater" "ord1 b c \<noteq> Greater"
    by (auto simp: order_combine_def ordering_combine_Greater)
  then have "ord1 a c \<noteq> Greater" by (rule comparator_laws.le_trans [OF assms(1)])
  moreover have "ord2 a c \<noteq> Greater" if "ord1 a c = Equal"
  proof -
    have "ord1 a b = Equal \<and> ord1 b c = Equal"
      using comparator_eq_trans [OF assms(1) first that] .
    with le have "ord2 a b \<noteq> Greater" "ord2 b c \<noteq> Greater"
      by (auto simp: order_combine_def)
    then show ?thesis by (rule comparator_laws.le_trans [OF assms(2)])
  qed
  ultimately show "order_combine ord1 ord2 a c \<noteq> Greater"
    by (auto simp: order_combine_def ordering_combine_Greater)
qed

section \<open>Properties\<close>

text \<open>
  Sorting by any comparator assembled with \<open>map_input\<close>, \<open>reverse\<close> and \<open>combine\<close> from lawful
  ones gives a sorted permutation of the input, and elements that compare equal keep their order;
  clamping between ordered bounds lands between them and changes nothing that was.
\<close>

theorem assembled_comparator_sorts:
  assumes "comparator_laws ord1" "comparator_laws ord2"
    and ord: "ord = order_combine (order_map_input ord1 f) (order_reverse (order_map_input ord2 g))"
  shows "sorted_wrt (\<lambda>a b. ord a b \<noteq> Greater) (sort_with_serial ord xs) \<and>
    mset (sort_with_serial ord xs) = mset xs \<and>
    filter (\<lambda>y. ord k y = Equal) (sort_with_serial ord xs) = filter (\<lambda>y. ord k y = Equal) xs \<and>
    (ord lo hi \<noteq> Greater \<longrightarrow> order_between ord (order_clamp ord v lo hi) lo hi) \<and>
    (order_between ord v lo hi \<longrightarrow> order_clamp ord v lo hi = v)"
proof -
  have "comparator_laws ord"
    unfolding ord by (intro comparator_combine comparator_reverse comparator_map_input assms)
  note laws = comparator_laws.sort_with_serial_sorted [OF this]
    comparator_laws.sort_with_serial_mset [OF this] comparator_laws.sort_with_serial_stable [OF this]
    comparator_laws.clamp_between [OF this] comparator_laws.clamp_id [OF this]
  then show ?thesis by blast
qed

lemma assembled_comparator_sorts_witness:
  "mset (sort_with_serial (order_combine (order_map_input cmp fst) (order_reverse (order_map_input cmp snd)))
       [(2, 1), (1, 1), (1, 5 :: nat)]) = mset [(2, 1), (1, 1), (1 :: nat, 5)] \<and>
   sort_with_serial (order_combine (order_map_input cmp fst) (order_reverse (order_map_input cmp snd)))
     [(2, 1), (1, 1), (1 :: nat, 5 :: nat)] = [(1, 5), (1, 1), (2, 1)]"
  using assembled_comparator_sorts
    [OF cmp_laws.comparator_laws_axioms cmp_laws.comparator_laws_axioms refl,
      of "fst :: nat \<times> nat \<Rightarrow> nat" "snd :: nat \<times> nat \<Rightarrow> nat" "[(2, 1), (1, 1), (1, 5)]"]
  by (simp add: sort_with_serial_def order_combine_def order_map_input_def order_reverse_def cmp_def)

end
