(* ===== verification/Durations.thy ===== *)
theory Durations
  imports Orders
begin

text \<open>
  \<open>crates/id_effect/src/scheduling/duration.rs\<close>: constructors, arithmetic, checks and formatting of
  \<open>std::time::Duration\<close>. A duration is its number of nanoseconds; \<open>Duration::MAX\<close> is
  \<open>u64::MAX\<close> seconds and 999999999 nanoseconds. Operations that panic on overflow return
  \<open>None\<close> there (for \<open>n * 60\<close> on \<open>u64\<close> this is the panic of a build with overflow checks).
  \<open>decode\<close> and the \<open>f64\<close> extractions work on floating point and are not modelled.
\<close>

type_synonym duration = nat

abbreviation (input) nanos_per_sec :: nat where "nanos_per_sec \<equiv> 1000000000"

definition DURATION_MAX :: duration where
  "DURATION_MAX = u64_max * nanos_per_sec + 999999999"

definition INFINITY :: duration where "INFINITY = DURATION_MAX"
definition ZERO :: duration where "ZERO = 0"

section \<open>Constructors\<close>

definition nanos :: "u64 \<Rightarrow> duration" where "nanos n = unat n"
definition micros :: "u64 \<Rightarrow> duration" where "micros n = unat n * 1000"
definition millis :: "u64 \<Rightarrow> duration" where "millis n = unat n * 1000000"
definition seconds :: "u64 \<Rightarrow> duration" where "seconds n = unat n * nanos_per_sec"

definition from_secs_checked :: "nat \<Rightarrow> duration option" where
  "from_secs_checked s = (if s \<le> u64_max then Some (s * nanos_per_sec) else None)"

definition minutes :: "u64 \<Rightarrow> duration option" where "minutes n = from_secs_checked (unat n * 60)"
definition hours :: "u64 \<Rightarrow> duration option" where "hours n = from_secs_checked (unat n * 3600)"
definition days :: "u64 \<Rightarrow> duration option" where "days n = from_secs_checked (unat n * 86400)"
definition weeks :: "u64 \<Rightarrow> duration option" where "weeks n = from_secs_checked (unat n * 604800)"

section \<open>Arithmetic\<close>

definition duration_sum :: "duration \<Rightarrow> duration \<Rightarrow> duration option" where
  "duration_sum a b = (if a + b \<le> DURATION_MAX then Some (a + b) else None)"

definition duration_subtract :: "duration \<Rightarrow> duration \<Rightarrow> duration" where
  "duration_subtract a b = a - b"

definition duration_times :: "duration \<Rightarrow> u32 \<Rightarrow> duration option" where
  "duration_times a n = (if a * unat n \<le> DURATION_MAX then Some (a * unat n) else None)"

definition duration_min :: "duration \<Rightarrow> duration \<Rightarrow> duration" where "duration_min a b = min a b"
definition duration_max :: "duration \<Rightarrow> duration \<Rightarrow> duration" where "duration_max a b = max a b"

definition duration_clamp :: "duration \<Rightarrow> duration \<Rightarrow> duration \<Rightarrow> duration" where
  "duration_clamp d minimum maximum = min (max d minimum) maximum"

definition duration_between :: "duration \<Rightarrow> duration \<Rightarrow> duration \<Rightarrow> bool" where
  "duration_between d minimum maximum \<longleftrightarrow> minimum \<le> d \<and> d \<le> maximum"

definition to_nanos :: "duration \<Rightarrow> nat" where "to_nanos d = d"

definition duration_is_zero :: "duration \<Rightarrow> bool" where "duration_is_zero d \<longleftrightarrow> d = 0"
definition is_finite :: "duration \<Rightarrow> bool" where "is_finite d \<longleftrightarrow> d \<noteq> DURATION_MAX"

section \<open>Formatting\<close>

text \<open>\<open>{ms:03}\<close> pads with zeros to three digits.\<close>

definition pad3 :: "nat \<Rightarrow> string" where
  "pad3 n = (let s = show_nat n in replicate (3 - length s) CHR ''0'' @ s)"

definition unit_part :: "nat \<Rightarrow> string \<Rightarrow> string list" where
  "unit_part n suffix = (if n > 0 then [show_nat n @ suffix] else [])"

definition second_part :: "nat \<Rightarrow> nat \<Rightarrow> string list" where
  "second_part secs ms =
     (if secs = 0 \<and> ms = 0 then []
      else if ms = 0 then [show_nat secs @ ''s'']
      else if secs = 0 then [''0.'' @ pad3 ms @ ''s'']
      else [show_nat secs @ ''.'' @ pad3 ms @ ''s''])"

definition format_duration :: "duration \<Rightarrow> string" where
  "format_duration d =
    (let total_secs = d div nanos_per_sec;
         subsec_nanos = d mod nanos_per_sec;
         wks = total_secs div 604800;
         rem1 = total_secs mod 604800;
         dys = rem1 div 86400;
         rem2 = rem1 mod 86400;
         hrs = rem2 div 3600;
         rem3 = rem2 mod 3600;
         mins = rem3 div 60;
         secs = rem3 mod 60;
         ms = subsec_nanos div 1000000;
         parts = unit_part wks ''w'' @ unit_part dys ''d'' @ unit_part hrs ''h'' @
                 unit_part mins ''m'' @ second_part secs ms
     in if parts = [] then ''0s'' else join '' '' parts)"

section \<open>Facts\<close>

lemma nanos_le_max: "nanos n \<le> DURATION_MAX"
proof -
  have "unat n < 2 ^ LENGTH(64)" by (rule unsigned_less)
  then have "unat n \<le> u64_max" by (simp add: u64_max_def)
  also have "\<dots> \<le> DURATION_MAX" by (simp add: DURATION_MAX_def)
  finally show ?thesis by (simp add: nanos_def)
qed

lemma duration_sum_bounded: "duration_sum a b = Some c \<Longrightarrow> c = a + b \<and> c \<le> DURATION_MAX"
  by (simp add: duration_sum_def split: if_splits)

lemma duration_clamp_between:
  "minimum \<le> maximum \<Longrightarrow> duration_between (duration_clamp d minimum maximum) minimum maximum"
  by (simp add: duration_clamp_def duration_between_def)

lemma duration_subtract_sum:
  "duration_sum a b = Some c \<Longrightarrow> duration_subtract c b = a"
  by (simp add: duration_sum_def duration_subtract_def split: if_splits)

lemma format_duration_nonempty: "format_duration d \<noteq> []"
proof -
  have ne: "\<forall>x \<in> set (unit_part n s). x \<noteq> []" for n s by (simp add: unit_part_def)
  have ns: "\<forall>x \<in> set (second_part a b). x \<noteq> []" for a b by (simp add: second_part_def)
  show ?thesis
    using ne ns by (auto simp: format_duration_def Let_def join_empty_iff ball_Un)
qed

end
