(* ===== verification/Schedules.thy ===== *)
theory Schedules
  imports Durations Effects
begin

text \<open>
  \<open>crates/id_effect/src/scheduling/schedule.rs\<close>: scheduling policies and the \<open>repeat\<close> / \<open>retry\<close>
  interpreters.

  \<open>schedule_next\<close> is \<open>Schedule::next\<close>: the decision and the policy as the call leaves it. The loops
  are \<open>partial_function (option)\<close>, so a loop that never stops has the value \<open>None\<close>; the
  section on termination gives the schedules for which they return. \<open>Clock::sleep\<close> is the
  argument \<open>sleep\<close>; the attempt metric's \<open>apply(1)\<close> is the optional effect \<open>counter\<close>;
  \<open>is_cancelled\<close> reads the cancellation token's flag in the shared state.
\<close>

record schedule_input =
  attempt :: u64

definition default_input :: schedule_input where "default_input = \<lparr>attempt = 0\<rparr>"

record schedule_decision =
  delay :: duration

definition continue_after :: "duration \<Rightarrow> schedule_decision" where
  "continue_after d = \<lparr>delay = d\<rparr>"

datatype schedule =
    Recurs u64
  | Spaced duration
  | Exponential duration u32
  | Compose schedule schedule
  | Jittered schedule
  | RecursWhile "schedule_input \<Rightarrow> bool"
  | RecursUntil "schedule_input \<Rightarrow> bool"
  | MapDelay schedule "duration \<Rightarrow> duration"
  | ContramapInput schedule "schedule_input \<Rightarrow> schedule_input"

section \<open>Constructors\<close>

definition recurs :: "u64 \<Rightarrow> schedule" where "recurs n = Recurs n"
definition spaced :: "duration \<Rightarrow> schedule" where "spaced interval = Spaced interval"
definition exponential :: "duration \<Rightarrow> schedule" where "exponential base = Exponential base 0"
definition compose_with :: "schedule \<Rightarrow> schedule \<Rightarrow> schedule" where "compose_with a b = Compose a b"
definition jittered :: "schedule \<Rightarrow> schedule" where "jittered s = Jittered s"
definition recurs_while :: "(schedule_input \<Rightarrow> bool) \<Rightarrow> schedule" where
  "recurs_while p = RecursWhile p"
definition recurs_until :: "(schedule_input \<Rightarrow> bool) \<Rightarrow> schedule" where
  "recurs_until p = RecursUntil p"

definition schedule_map :: "schedule \<Rightarrow> (duration \<Rightarrow> duration) \<Rightarrow> schedule" where
  "schedule_map s f = (case s of
       MapDelay inner existing \<Rightarrow> MapDelay inner (\<lambda>d. f (existing d))
     | other \<Rightarrow> MapDelay other f)"

definition schedule_contramap :: "schedule \<Rightarrow> (schedule_input \<Rightarrow> schedule_input) \<Rightarrow> schedule" where
  "schedule_contramap s g = (case s of
       ContramapInput inner existing \<Rightarrow> ContramapInput inner (\<lambda>i. existing (g i))
     | other \<Rightarrow> ContramapInput other g)"

section \<open>Advancing a policy\<close>

text \<open>\<open>saturating_div(10)\<close> cannot overflow: it is plain division.\<close>

definition jitter_80_120 :: "duration \<Rightarrow> duration" where
  "jitter_80_120 d =
    (let ns = d;
         jittered_ns = sat_mul_u128 ns 9 div 10;
         capped = min jittered_ns u64_max
     in nanos (of_nat capped))"

definition exponential_delay :: "duration \<Rightarrow> u32 \<Rightarrow> duration" where
  "exponential_delay base step =
    (let mult = sat_pow_u128 2 (unat step);
         ns = sat_mul_u128 base mult;
         capped = min ns u64_max;
         candidate = nanos (of_nat capped)
     in order_clamp cmp candidate ZERO DURATION_MAX)"

primrec schedule_next ::
  "schedule \<Rightarrow> schedule_input \<Rightarrow> schedule_decision option \<times> schedule" where
  "schedule_next (Recurs remaining) i =
     (if remaining = 0 then (None, Recurs remaining)
      else (Some (continue_after ZERO), Recurs (remaining - 1)))"
| "schedule_next (Spaced interval) i = (Some (continue_after interval), Spaced interval)"
| "schedule_next (Exponential base step) i =
     (Some (continue_after (exponential_delay base step)), Exponential base (sat_add step 1))"
| "schedule_next (Compose a b) i =
     (let (da, a') = schedule_next a default_input;
          (db, b') = schedule_next b default_input
      in (case (da, db) of
            (Some x, Some y) \<Rightarrow> Some (continue_after (order_max cmp (delay x) (delay y)))
          | _ \<Rightarrow> None, Compose a' b'))"
| "schedule_next (Jittered inner) i =
     (let (d, inner') = schedule_next inner default_input
      in (map_option (\<lambda>x. continue_after (jitter_80_120 (delay x))) d, Jittered inner'))"
| "schedule_next (RecursWhile p) i =
     (if p i then Some (continue_after ZERO) else None, RecursWhile p)"
| "schedule_next (RecursUntil p) i =
     (if p i then None else Some (continue_after ZERO), RecursUntil p)"
| "schedule_next (MapDelay inner f) i =
     (let (d, inner') = schedule_next inner i
      in (map_option (\<lambda>x. continue_after (f (delay x))) d, MapDelay inner' f))"
| "schedule_next (ContramapInput inner g) i =
     (let (d, inner') = schedule_next inner (g i)
      in (d, ContramapInput inner' g))"

definition next_sleep ::
  "(duration \<Rightarrow> (unit, 'n, unit, 'w) effect) \<Rightarrow> schedule \<Rightarrow> schedule_input
    \<Rightarrow> (unit, 'n, unit, 'w) effect option \<times> schedule" where
  "next_sleep sleep s i =
     (let (d, s') = schedule_next s i in (map_option (\<lambda>x. sleep (delay x)) d, s'))"

section \<open>Interpreters\<close>

text \<open>An infallible unit effect, run for its change of the shared state.\<close>

definition run_unit :: "(unit, 'n, unit, 'w) effect \<Rightarrow> 'w \<Rightarrow> 'w option" where
  "run_unit eff w = map_option (\<lambda>(_, _, w'). w') (run eff () w)"

definition tick :: "(unit, 'n, unit, 'w) effect option \<Rightarrow> 'w \<Rightarrow> 'w option" where
  "tick counter w = (case counter of None \<Rightarrow> Some w | Some c \<Rightarrow> run_unit c w)"

partial_function (option) repeat_loop ::
  "(duration \<Rightarrow> (unit, 'n, unit, 'w) effect) \<Rightarrow> (unit, 'n, unit, 'w) effect option
    \<Rightarrow> ('w \<Rightarrow> bool) \<Rightarrow> ('a, 'e, 'r, 'w) effect \<Rightarrow> schedule \<Rightarrow> u64 \<Rightarrow> 'a \<Rightarrow> 'r \<Rightarrow> 'w
    \<Rightarrow> (('e + 'a) \<times> 'r \<times> 'w) option" where
  "repeat_loop sleep counter interrupted mk s att last_v r w =
     (case next_sleep sleep s \<lparr>attempt = att\<rparr> of
        (None, s') \<Rightarrow> Some (Ok last_v, r, w)
      | (Some sleep_effect, s') \<Rightarrow>
          if interrupted w then Some (Ok last_v, r, w)
          else Option.bind (run_unit sleep_effect w) (\<lambda>w1.
            Option.bind (tick counter w1) (\<lambda>w2.
              Option.bind (run mk r w2) (\<lambda>(res, r3, w3).
                case res of
                  Inl e \<Rightarrow> Some (Err e, r3, w3)
                | Inr v \<Rightarrow>
                    repeat_loop sleep counter interrupted mk s' (sat_add att 1) v r3 w3))))"

definition repeat_with_clock_and_interrupt ::
  "(duration \<Rightarrow> (unit, 'n, unit, 'w) effect) \<Rightarrow> (unit, 'n, unit, 'w) effect option
    \<Rightarrow> ('w \<Rightarrow> bool) \<Rightarrow> ('a, 'e, 'r, 'w) effect \<Rightarrow> schedule \<Rightarrow> ('a, 'e, 'r, 'w) effect" where
  "repeat_with_clock_and_interrupt sleep counter is_cancelled mk s = new_async (\<lambda>r w.
     Option.bind (tick counter w) (\<lambda>w1.
       Option.bind (run mk r w1) (\<lambda>(res, r2, w2).
         case res of
           Inl e \<Rightarrow> Some (Err e, r2, w2)
         | Inr v \<Rightarrow> repeat_loop sleep counter is_cancelled mk s 0 v r2 w2)))"

text \<open>Without a token the loop never looks for an interrupt.\<close>

definition repeat_with_clock ::
  "(duration \<Rightarrow> (unit, 'n, unit, 'w) effect) \<Rightarrow> (unit, 'n, unit, 'w) effect option
    \<Rightarrow> ('a, 'e, 'r, 'w) effect \<Rightarrow> schedule \<Rightarrow> ('a, 'e, 'r, 'w) effect" where
  "repeat_with_clock sleep counter mk s = new_async (\<lambda>r w.
     Option.bind (tick counter w) (\<lambda>w1.
       Option.bind (run mk r w1) (\<lambda>(res, r2, w2).
         case res of
           Inl e \<Rightarrow> Some (Err e, r2, w2)
         | Inr v \<Rightarrow> repeat_loop sleep counter (\<lambda>_. False) mk s 0 v r2 w2)))"

definition repeat_effect ::
  "(duration \<Rightarrow> (unit, 'n, unit, 'w) effect) \<Rightarrow> ('a, 'e, 'r, 'w) effect \<Rightarrow> schedule
    \<Rightarrow> ('a, 'e, 'r, 'w) effect" where
  "repeat_effect live_sleep mk s = repeat_with_clock live_sleep None mk s"

definition repeat_n ::
  "(duration \<Rightarrow> (unit, 'n, unit, 'w) effect) \<Rightarrow> ('a, 'e, 'r, 'w) effect \<Rightarrow> u64
    \<Rightarrow> ('a, 'e, 'r, 'w) effect" where
  "repeat_n live_sleep mk n = repeat_effect live_sleep mk (recurs n)"

partial_function (option) retry_loop ::
  "(duration \<Rightarrow> (unit, 'n, unit, 'w) effect) \<Rightarrow> (unit, 'n, unit, 'w) effect option
    \<Rightarrow> ('w \<Rightarrow> bool) \<Rightarrow> ('a, 'e, 'r, 'w) effect \<Rightarrow> schedule \<Rightarrow> u64 \<Rightarrow> 'r \<Rightarrow> 'w
    \<Rightarrow> (('e + 'a) \<times> 'r \<times> 'w) option" where
  "retry_loop sleep counter interrupted mk s att r w =
     Option.bind (tick counter w) (\<lambda>w1.
       Option.bind (run mk r w1) (\<lambda>(res, r2, w2).
         case res of
           Inr a \<Rightarrow> Some (Ok a, r2, w2)
         | Inl e \<Rightarrow>
             if interrupted w2 then Some (Err e, r2, w2)
             else (case next_sleep sleep s \<lparr>attempt = att\<rparr> of
                     (None, s') \<Rightarrow> Some (Err e, r2, w2)
                   | (Some sleep_effect, s') \<Rightarrow>
                       Option.bind (run_unit sleep_effect w2) (\<lambda>w3.
                         retry_loop sleep counter interrupted mk s' (sat_add att 1) r2 w3))))"

definition retry_with_clock_and_interrupt ::
  "(duration \<Rightarrow> (unit, 'n, unit, 'w) effect) \<Rightarrow> (unit, 'n, unit, 'w) effect option
    \<Rightarrow> ('w \<Rightarrow> bool) \<Rightarrow> ('a, 'e, 'r, 'w) effect \<Rightarrow> schedule \<Rightarrow> ('a, 'e, 'r, 'w) effect" where
  "retry_with_clock_and_interrupt sleep counter is_cancelled mk s =
     new_async (\<lambda>r w. retry_loop sleep counter is_cancelled mk s 0 r w)"

definition retry_with_clock ::
  "(duration \<Rightarrow> (unit, 'n, unit, 'w) effect) \<Rightarrow> (unit, 'n, unit, 'w) effect option
    \<Rightarrow> ('a, 'e, 'r, 'w) effect \<Rightarrow> schedule \<Rightarrow> ('a, 'e, 'r, 'w) effect" where
  "retry_with_clock sleep counter mk s =
     new_async (\<lambda>r w. retry_loop sleep counter (\<lambda>_. False) mk s 0 r w)"

definition retry ::
  "(duration \<Rightarrow> (unit, 'n, unit, 'w) effect) \<Rightarrow> ('a, 'e, 'r, 'w) effect \<Rightarrow> schedule
    \<Rightarrow> ('a, 'e, 'r, 'w) effect" where
  "retry live_sleep mk s = retry_with_clock live_sleep None mk s"

partial_function (option) forever ::
  "(unit, 'e, 'r, 'w) effect \<Rightarrow> 'r \<Rightarrow> 'w \<Rightarrow> (('e + unit) \<times> 'r \<times> 'w) option" where
  "forever mk r w =
     Option.bind (run mk r w) (\<lambda>(res, r', w').
       case res of Inl e \<Rightarrow> Some (Err e, r', w') | Inr _ \<Rightarrow> forever mk r' w')"

section \<open>Delays\<close>

lemma u64_max_unat: "n \<le> u64_max \<Longrightarrow> nanos (of_nat n) = n"
  by (simp add: nanos_def u64_max_def unat_of_nat)

lemma clamp_duration: "d \<le> DURATION_MAX \<Longrightarrow> order_clamp cmp d ZERO DURATION_MAX = d"
  by (auto simp: order_clamp_def cmp_def ZERO_def)

lemma min_sat_pow: "min (sat_mul_u128 b (sat_pow_u128 2 n)) u64_max = min (b * 2 ^ n) u64_max"
proof (cases "b = 0")
  case True
  then show ?thesis by (simp add: sat_mul_u128_def)
next
  case False
  have le: "u64_max \<le> u128_max" by (simp add: u64_max_def u128_max_def)
  show ?thesis
  proof (cases "2 ^ n \<le> u128_max")
    case True
    with le show ?thesis by (simp add: sat_mul_u128_def sat_pow_u128_def min.assoc)
  next
    case big: False
    from False have "2 ^ n \<le> b * 2 ^ n" by simp
    with big have "u128_max \<le> b * 2 ^ n" by linarith
    moreover from False have "u128_max \<le> b * u128_max" by simp
    ultimately show ?thesis using big le by (simp add: sat_mul_u128_def sat_pow_u128_def)
  qed
qed

lemma exponential_delay_eq: "exponential_delay base step = min (base * 2 ^ unat step) u64_max"
proof -
  let ?c = "min (base * 2 ^ unat step) u64_max"
  have "nanos (of_nat ?c) = ?c" by (rule u64_max_unat) simp
  moreover have "?c \<le> DURATION_MAX"
    using nanos_le_max [of "of_nat ?c"] calculation by simp
  ultimately show ?thesis
    unfolding exponential_delay_def Let_def min_sat_pow by (simp add: clamp_duration)
qed

lemma jitter_eq: "jitter_80_120 d = min (min (9 * d) u128_max div 10) u64_max"
proof -
  let ?c = "min (sat_mul_u128 d 9 div 10) u64_max"
  have "nanos (of_nat ?c) = ?c" by (rule u64_max_unat) simp
  then show ?thesis
    unfolding jitter_80_120_def Let_def by (simp add: sat_mul_u128_def mult.commute)
qed

lemma jitter_le: "jitter_80_120 d \<le> d"
proof -
  have "min (9 * d) u128_max div 10 \<le> 9 * d div 10" by (intro div_le_mono) simp
  also have "\<dots> \<le> d" by simp
  finally show ?thesis unfolding jitter_eq by linarith
qed

text \<open>Delays stay representable whatever the nesting, as long as mapped delays are.\<close>

primrec delays_bounded :: "schedule \<Rightarrow> bool" where
  "delays_bounded (Recurs n) = True"
| "delays_bounded (Spaced d) = (d \<le> DURATION_MAX)"
| "delays_bounded (Exponential b n) = True"
| "delays_bounded (Compose a b) = (delays_bounded a \<and> delays_bounded b)"
| "delays_bounded (Jittered s) = delays_bounded s"
| "delays_bounded (RecursWhile p) = True"
| "delays_bounded (RecursUntil p) = True"
| "delays_bounded (MapDelay s f) = (delays_bounded s \<and> (\<forall>d \<le> DURATION_MAX. f d \<le> DURATION_MAX))"
| "delays_bounded (ContramapInput s g) = delays_bounded s"

lemma delays_bounded_next:
  "delays_bounded s \<Longrightarrow> delays_bounded (snd (schedule_next s i)) \<and>
     (\<forall>x. fst (schedule_next s i) = Some x \<longrightarrow> delay x \<le> DURATION_MAX)"
proof (induction s arbitrary: i)
  case (Exponential b n)
  have "u64_max \<le> DURATION_MAX" by (simp add: DURATION_MAX_def)
  then show ?case by (simp add: continue_after_def exponential_delay_eq min.coboundedI2)
next
  case (Jittered s)
  then have "delays_bounded (snd (schedule_next s default_input))"
    "\<forall>x. fst (schedule_next s default_input) = Some x \<longrightarrow> delay x \<le> DURATION_MAX"
    by auto
  then show ?case
    by (auto simp: continue_after_def Let_def case_prod_unfold intro: order_trans [OF jitter_le])
next
  case (Compose a b)
  have "delays_bounded a" "delays_bounded b" using Compose.prems by auto
  note a = Compose.IH(1) [OF this(1), of default_input] and b = Compose.IH(2) [OF this(2), of default_input]
  with a b show ?case
    by (auto simp: continue_after_def order_max_def Let_def case_prod_unfold
        split: option.splits if_splits)
qed (auto simp: continue_after_def ZERO_def Let_def case_prod_unfold)

section \<open>Termination of policies\<close>

text \<open>\<open>stops_within k s\<close>: whatever inputs it sees, \<open>s\<close> says stop within \<open>k\<close> calls.\<close>

primrec stops_within :: "nat \<Rightarrow> schedule \<Rightarrow> bool" where
  "stops_within 0 s = False"
| "stops_within (Suc k) s =
     (\<forall>i. fst (schedule_next s i) = None \<or> stops_within k (snd (schedule_next s i)))"

lemma stops_within_recurs: "stops_within (Suc (unat n)) (Recurs n)"
proof (induction "unat n" arbitrary: n)
  case 0
  then show ?case by (simp add: unat_eq_zero)
next
  case (Suc k)
  then have "n \<noteq> 0" by auto
  then have "unat (n - 1) = k" using Suc.hyps(2) by (simp add: unat_minus_one)
  with Suc.hyps(1) [of "n - 1"] \<open>n \<noteq> 0\<close> Suc.hyps(2) [symmetric] show ?case by simp
qed

lemma compose_stops_left: "stops_within k a \<Longrightarrow> stops_within k (Compose a b)"
proof (induction k arbitrary: a b)
  case (Suc k)
  from Suc.prems [simplified, rule_format, of default_input] show ?case
    by (auto simp: Let_def case_prod_unfold split: option.split dest: Suc.IH)
qed simp

lemma compose_stops_right: "stops_within k b \<Longrightarrow> stops_within k (Compose a b)"
proof (induction k arbitrary: a b)
  case (Suc k)
  from Suc.prems [simplified, rule_format, of default_input] show ?case
    by (auto simp: Let_def case_prod_unfold split: option.split dest: Suc.IH)
qed simp

lemma jittered_stops: "stops_within k s \<Longrightarrow> stops_within k (Jittered s)"
proof (induction k arbitrary: s)
  case (Suc k)
  from Suc.prems [simplified, rule_format, of default_input] show ?case
    by (auto simp: Let_def case_prod_unfold dest: Suc.IH)
qed simp

lemma map_delay_stops: "stops_within k s \<Longrightarrow> stops_within k (MapDelay s f)"
proof (induction k arbitrary: s)
  case (Suc k)
  then show ?case by (auto simp: Let_def case_prod_unfold)
qed simp

lemma contramap_stops: "stops_within k s \<Longrightarrow> stops_within k (ContramapInput s g)"
proof (induction k arbitrary: s)
  case (Suc k)
  then show ?case by (auto simp: Let_def case_prod_unfold)
qed simp

section \<open>The interpreters\<close>

definition completes :: "('a, 'e, 'r, 'w) effect \<Rightarrow> bool" where
  "completes eff \<longleftrightarrow> (\<forall>r w. run eff r w \<noteq> None)"

lemma run_unit_completes: "completes eff \<Longrightarrow> \<exists>w'. run_unit eff w = Some w'"
  by (simp add: completes_def run_unit_def) (metis option.exhaust_sel prod.collapse)

lemma tick_completes: "(\<forall>c. counter = Some c \<longrightarrow> completes c) \<Longrightarrow> \<exists>w'. tick counter w = Some w'"
  by (auto simp: tick_def run_unit_completes split: option.split)

lemma retry_loop_returns:
  assumes "stops_within k s" "completes mk" "\<forall>d. completes (sleep d)"
    and "\<forall>c. counter = Some c \<longrightarrow> completes c"
  shows "\<exists>x. retry_loop sleep counter interrupted mk s att r w = Some x"
  using assms(1)
proof (induction k arbitrary: s att r w)
  case (Suc k)
  obtain w1 where w1: "tick counter w = Some w1" using tick_completes [OF assms(4)] by blast
  obtain res r2 w2 where mk: "run mk r w1 = Some (res, r2, w2)"
    using assms(2) by (metis completes_def not_None_eq prod_cases3)
  show ?case
  proof (cases res)
    case (Inl e)
    obtain d s' where nx: "schedule_next s \<lparr>attempt = att\<rparr> = (d, s')" by fastforce
    show ?thesis
    proof (cases d)
      case None
      with w1 mk Inl nx show ?thesis
        by (subst retry_loop.simps) (simp add: next_sleep_def)
    next
      case (Some x)
      with nx Suc.prems [unfolded stops_within.simps, rule_format, of "\<lparr>attempt = att\<rparr>"]
      have "stops_within k s'" by simp
      moreover obtain w3 where w3: "run_unit (sleep (delay x)) w2 = Some w3"
        using run_unit_completes [OF assms(3) [rule_format, of "delay x"], of w2] by blast
      ultimately obtain y where
        "retry_loop sleep counter interrupted mk s' (sat_add att 1) r2 w3 = Some y"
        using Suc.IH by blast
      then show ?thesis
        by (cases y, subst retry_loop.simps) (simp add: next_sleep_def w1 mk Inl nx Some w3)
    qed
  next
    case (Inr a)
    with w1 mk show ?thesis by (subst retry_loop.simps) simp
  qed
qed simp

text \<open>What \<open>retry\<close> over \<open>recurs n\<close> is for: at most \<open>n\<close> more attempts after a failure.\<close>

primrec try_upto ::
  "(duration \<Rightarrow> (unit, 'n, unit, 'w) effect) \<Rightarrow> ('a, 'e, 'r, 'w) effect \<Rightarrow> nat
    \<Rightarrow> ('a, 'e, 'r, 'w) effect" where
  "try_upto sleep mk 0 = mk"
| "try_upto sleep mk (Suc n) = (\<lambda>r w.
     Option.bind (run mk r w) (\<lambda>(res, r2, w2).
       case res of
         Inr a \<Rightarrow> Some (Ok a, r2, w2)
       | Inl e \<Rightarrow> Option.bind (run_unit (sleep ZERO) w2) (\<lambda>w3. try_upto sleep mk n r2 w3)))"

lemma next_sleep_recurs:
  "next_sleep sleep (Recurs n) i =
     (if n = 0 then (None, Recurs n) else (Some (sleep ZERO), Recurs (n - 1)))"
  by (simp add: next_sleep_def continue_after_def)

lemma retry_loop_recurs:
  "retry_loop sleep None (\<lambda>_. False) mk (Recurs n) att r w = try_upto sleep mk (unat n) r w"
proof (induction "unat n" arbitrary: n att r w)
  case 0
  then have "n = 0" by (simp add: unat_eq_zero)
  then show ?case
    by (subst retry_loop.simps, cases "mk r w")
      (auto simp: tick_def next_sleep_recurs run_def split: sum.split)
next
  case (Suc k)
  then have "n \<noteq> 0" by auto
  then have k: "unat (n - 1) = k" using Suc.hyps(2) by (simp add: unat_minus_one)
  have "retry_loop sleep None (\<lambda>_. False) mk (Recurs (n - 1)) = (\<lambda>_. try_upto sleep mk k)"
    by (intro ext) (simp add: Suc.hyps(1) [OF k [symmetric]] k)
  with \<open>n \<noteq> 0\<close> show ?case
    by (subst retry_loop.simps, cases "run mk r w")
      (auto simp: tick_def next_sleep_recurs Suc.hyps(2) [symmetric] split: sum.split)
qed

primrec repeat_upto ::
  "(duration \<Rightarrow> (unit, 'n, unit, 'w) effect) \<Rightarrow> ('a, 'e, 'r, 'w) effect \<Rightarrow> nat \<Rightarrow> 'a
    \<Rightarrow> ('a, 'e, 'r, 'w) effect" where
  "repeat_upto sleep mk 0 v = succeed v"
| "repeat_upto sleep mk (Suc n) v = (\<lambda>r w.
     Option.bind (run_unit (sleep ZERO) w) (\<lambda>w1. run (flat_map mk (repeat_upto sleep mk n)) r w1))"

lemma repeat_loop_recurs:
  "repeat_loop sleep None (\<lambda>_. False) mk (Recurs n) att v r w = repeat_upto sleep mk (unat n) v r w"
proof (induction "unat n" arbitrary: n att v r w)
  case 0
  then have "n = 0" by (simp add: unat_eq_zero)
  then show ?case
    by (subst repeat_loop.simps) (simp add: next_sleep_recurs succeed_def new_sync_def)
next
  case (Suc k)
  then have "n \<noteq> 0" by auto
  then have k: "unat (n - 1) = k" using Suc.hyps(2) by (simp add: unat_minus_one)
  have "repeat_loop sleep None (\<lambda>_. False) mk (Recurs (n - 1)) = (\<lambda>_. repeat_upto sleep mk k)"
    by (intro ext) (simp add: Suc.hyps(1) [OF k [symmetric]] k)
  then have loop: "repeat_loop sleep None (\<lambda>_. False) mk (Recurs (n - 1)) att v r w =
    run (repeat_upto sleep mk k v) r w" for att v r w by (simp add: run_def)
  have "run_unit (sleep ZERO) w = Some w1 \<Longrightarrow>
    repeat_loop sleep None (\<lambda>_. False) mk (Recurs n) att v r w =
      run (flat_map mk (repeat_upto sleep mk k)) r w1" for w1
    using \<open>n \<noteq> 0\<close> by (subst repeat_loop.simps, cases "run mk r w1")
      (auto simp: tick_def next_sleep_recurs loop run_flat_map split: sum.split)
  moreover have "run_unit (sleep ZERO) w = None \<Longrightarrow>
    repeat_loop sleep None (\<lambda>_. False) mk (Recurs n) att v r w = None"
    using \<open>n \<noteq> 0\<close> by (subst repeat_loop.simps) (simp add: next_sleep_recurs)
  ultimately show ?case
    by (cases "run_unit (sleep ZERO) w") (simp_all add: Suc.hyps(2) [symmetric])
qed

lemma forever_never_succeeds:
  assumes "forever mk r w = Some x"
  shows "\<exists>e. fst x = Err e"
proof (rule forever.raw_induct [where P = "\<lambda>_ _ _ x. \<exists>e. fst x = Err e", OF _ assms])
  fix f mk r w x
  assume IH: "\<And>mk r w x. f mk r w = Some x \<Longrightarrow> \<exists>e. fst x = Err e"
    and eq: "Option.bind (run mk r w) (\<lambda>(res, r', w').
       case res of Inl e \<Rightarrow> Some (Err e, r', w') | Inr _ \<Rightarrow> f mk r' w') = Some x"
  from eq show "\<exists>e. fst x = Err e"
    by (cases "run mk r w") (auto split: sum.splits dest: IH)
qed

text \<open>
  \<open>Compose\<close> and \<open>Jittered\<close> hand their parts \<open>ScheduleInput::default()\<close> instead of the input they
  were called with, so a predicate below them only ever sees attempt 0.
\<close>

lemma jittered_input_ignored: "schedule_next (Jittered s) i = schedule_next (Jittered s) j"
  by simp

lemma compose_input_ignored: "schedule_next (Compose a b) i = schedule_next (Compose a b) j"
  by simp

lemma retry_jittered_while_diverges:
  fixes mk :: "('a, 'e, 'r, 'w) effect"
  assumes p: "p default_input"
    and fails: "\<And>r w res r' w'. run mk r w = Some (res, r', w') \<Longrightarrow> isl res"
  shows "retry_loop sleep counter (\<lambda>_. False) mk (Jittered (RecursWhile p)) att r w = None"
proof (rule ccontr)
  let ?s = "Jittered (RecursWhile p)"
  assume "retry_loop sleep counter (\<lambda>_. False) mk ?s att r w \<noteq> None"
  then obtain x where ret: "retry_loop sleep counter (\<lambda>_. False) mk ?s att r w = Some x" by blast
  let ?P = "\<lambda>sl c (i :: 'w \<Rightarrow> bool) m s (att :: u64) (r :: 'r) (w :: 'w) (x :: ('e + 'a) \<times> 'r \<times> 'w).
    sl = sleep \<and> c = counter \<and> i = (\<lambda>_. False) \<and> m = mk \<and> s = ?s \<longrightarrow> False"
  have step: "next_sleep sleep ?s i = (Some (sleep (jitter_80_120 ZERO)), ?s)" for i
    using p by (simp add: next_sleep_def continue_after_def)
  have "?P sleep counter (\<lambda>_. False) mk ?s att r w x"
  proof (rule retry_loop.raw_induct [where P = ?P, OF _ ret])
    fix f sl c i m s att r w x
    assume IH: "\<And>sl c i m s att r w x. f sl c i m s att r w = Some x \<Longrightarrow> ?P sl c i m s att r w x"
      and eq: "Option.bind (tick c w) (\<lambda>w1. Option.bind (run m r w1) (\<lambda>(res, r2, w2).
         case res of
           Inl e \<Rightarrow> if i w2 then Some (Err e, r2, w2)
             else (case next_sleep sl s \<lparr>attempt = att\<rparr> of
                     (None, s') \<Rightarrow> Some (Err e, r2, w2)
                   | (Some sleep_effect, s') \<Rightarrow> Option.bind (run_unit sleep_effect w2) (\<lambda>w3.
                         f sl c i m s' (sat_add att 1) r2 w3))
         | Inr a \<Rightarrow> Some (Ok a, r2, w2))) = Some x"
    show "?P sl c i m s att r w x"
    proof
      assume same: "sl = sleep \<and> c = counter \<and> i = (\<lambda>_. False) \<and> m = mk \<and> s = ?s"
      from eq obtain w1 res r2 w2 where mk: "run m r w1 = Some (res, r2, w2)"
        and tail: "(case res of
           Inl e \<Rightarrow> if i w2 then Some (Err e, r2, w2)
             else (case next_sleep sl s \<lparr>attempt = att\<rparr> of
                     (None, s') \<Rightarrow> Some (Err e, r2, w2)
                   | (Some sleep_effect, s') \<Rightarrow> Option.bind (run_unit sleep_effect w2) (\<lambda>w3.
                         f sl c i m s' (sat_add att 1) r2 w3))
         | Inr a \<Rightarrow> Some (Ok a, r2, w2)) = Some x"
        by (auto simp: bind_eq_Some_conv)
      from mk same fails obtain e where "res = Inl e" by (cases res) fastforce+
      with tail same show False by (auto simp: bind_eq_Some_conv step dest: IH)
    qed
  qed
  then show False by simp
qed

text \<open>The delays a policy asks for when it is driven with the attempt numbers \<open>att, att + 1, \<dots>\<close>.\<close>

primrec delays_from :: "nat \<Rightarrow> u64 \<Rightarrow> schedule \<Rightarrow> duration list" where
  "delays_from 0 att s = []"
| "delays_from (Suc k) att s = (case schedule_next s \<lparr>attempt = att\<rparr> of
     (None, s') \<Rightarrow> []
   | (Some d, s') \<Rightarrow> delay d # delays_from k (sat_add att 1) s')"

lemma delays_from_exponential:
  "unat step + k \<le> 2 ^ 32 \<Longrightarrow>
   delays_from k att (Exponential base step) =
     map (\<lambda>j. min (base * 2 ^ j) u64_max) [unat step..<unat step + k]"
proof (induction k arbitrary: att step)
  case (Suc k)
  show ?case
  proof (cases k)
    case 0
    then show ?thesis by (simp add: exponential_delay_eq continue_after_def)
  next
    case (Suc k')
    with Suc.prems have "unat (sat_add step 1) = Suc (unat step)" 
      by (simp add: unat_sat_add)
    moreover have "[unat step..<unat step + Suc k] = unat step # [Suc (unat step)..<Suc (unat step) + k]"
      by (simp add: upt_conv_Cons del: upt_Suc)
    ultimately show ?thesis using Suc.IH [of "sat_add step 1"] Suc.prems
      by (simp add: exponential_delay_eq continue_after_def del: upt_Suc)
  qed
qed simp


text \<open>
  The number of calls after which a policy is known to stop: a \<open>Recurs\<close> bounds whatever it is
  composed with, and the decorators keep the bound.
\<close>

primrec budget :: "schedule \<Rightarrow> nat option" where
  "budget (Recurs n) = Some (Suc (unat n))"
| "budget (Spaced d) = None"
| "budget (Exponential b n) = None"
| "budget (Compose a b) = (case (budget a, budget b) of
     (Some m, Some n) \<Rightarrow> Some (min m n)
   | (Some m, None) \<Rightarrow> Some m
   | (None, Some n) \<Rightarrow> Some n
   | (None, None) \<Rightarrow> None)"
| "budget (Jittered s) = budget s"
| "budget (RecursWhile p) = None"
| "budget (RecursUntil p) = None"
| "budget (MapDelay s f) = budget s"
| "budget (ContramapInput s g) = budget s"

lemma budget_stops: "budget s = Some k \<Longrightarrow> stops_within k s"
proof (induction s arbitrary: k)
  case (Recurs n)
  then show ?case using stops_within_recurs [of n] by auto
next
  case (Compose a b)
  from Compose.prems show ?case
    by (auto simp: min_def dest: Compose.IH intro: compose_stops_left compose_stops_right
      split: option.splits if_splits)
qed (auto intro: jittered_stops map_delay_stops contramap_stops)

lemma repeat_loop_returns:
  assumes "stops_within k s" "completes mk" "\<forall>d. completes (sleep d)"
    and "\<forall>c. counter = Some c \<longrightarrow> completes c"
  shows "\<exists>x. repeat_loop sleep counter interrupted mk s att v r w = Some x"
  using assms(1)
proof (induction k arbitrary: s att v r w)
  case (Suc k)
  obtain d s' where nx: "schedule_next s \<lparr>attempt = att\<rparr> = (d, s')" by fastforce
  show ?case
  proof (cases "d = None \<or> interrupted w")
    case True
    with nx show ?thesis
      by (subst repeat_loop.simps) (auto simp: next_sleep_def split: option.split)
  next
    case False
    then obtain x where x: "d = Some x" by (cases d) auto
    with nx Suc.prems [unfolded stops_within.simps, rule_format, of "\<lparr>attempt = att\<rparr>"]
    have "stops_within k s'" by simp
    note IH = Suc.IH [OF this]
    obtain w1 where w1: "run_unit (sleep (delay x)) w = Some w1"
      using run_unit_completes [OF assms(3) [rule_format, of "delay x"], of w] by blast
    obtain w2 where w2: "tick counter w1 = Some w2" using tick_completes [OF assms(4)] by blast
    obtain res r3 w3 where mk: "run mk r w2 = Some (res, r3, w3)"
      using assms(2) by (metis completes_def not_None_eq prod_cases3)
    from IH obtain y where y: "\<And>v. \<exists>y. repeat_loop sleep counter interrupted mk s' (sat_add att 1) v r3 w3 = Some y"
      by blast
    show ?thesis
      using False y by (cases res; subst repeat_loop.simps) (simp_all add: next_sleep_def nx x w1 w2 mk)
  qed
qed simp

section \<open>Properties\<close>

text \<open>
  C32. \<open>retry\<close> and \<open>repeat\<close> return whenever the policy has a recurrence bound somewhere in it, however
  it is composed with unbounded policies and decorated, provided the body, the sleeps and the
  attempt counter complete; this covers cancellation by a token as well.
\<close>

theorem bounded_policies_return:
  fixes mk :: "('a, 'e, 'r, 'w) effect"
  assumes "budget s = Some k" "completes mk" "\<forall>d. completes (sleep d)"
    and "\<forall>c. counter = Some c \<longrightarrow> completes c"
  shows "completes (retry_with_clock_and_interrupt sleep counter is_cancelled mk s) \<and>
    completes (repeat_with_clock_and_interrupt sleep counter is_cancelled mk s)"
proof
  note stops = budget_stops [OF assms(1)]
  show "completes (retry_with_clock_and_interrupt sleep counter is_cancelled mk s)"
    using retry_loop_returns [OF stops assms(2-)]
    by (simp add: completes_def retry_with_clock_and_interrupt_def new_async_def run_def)
  show "completes (repeat_with_clock_and_interrupt sleep counter is_cancelled mk s)"
    unfolding completes_def
  proof (intro allI)
    fix r w
    obtain w1 where w1: "tick counter w = Some w1" using tick_completes [OF assms(4)] by blast
    obtain res r2 w2 where mk: "run mk r w1 = Some (res, r2, w2)"
      using assms(2) by (metis completes_def not_None_eq prod_cases3)
    show "run (repeat_with_clock_and_interrupt sleep counter is_cancelled mk s) r w \<noteq> None"
      using w1 mk repeat_loop_returns [OF stops assms(2-)]
      by (cases res) (simp_all add: run_def repeat_with_clock_and_interrupt_def new_async_def)
  qed
qed

lemma bounded_policies_return_witness:
  "completes (retry_with_clock_and_interrupt (\<lambda>_. succeed () :: (unit, nat, unit, unit) effect) None (\<lambda>_. False)
     (fail 0 :: (unit, nat, unit, unit) effect)
     (compose_with (exponential 5) (jittered (recurs 3))))"
  using bounded_policies_return
    [of "compose_with (exponential 5) (jittered (recurs 3))" 4 "fail 0 :: (unit, nat, unit, unit) effect"
      "\<lambda>_. succeed () :: (unit, nat, unit, unit) effect" None "\<lambda>_. False"]
  by (simp add: completes_def compose_with_def exponential_def jittered_def recurs_def)

text \<open>
  \<open>retry\<close> over \<open>recurs n\<close> is exactly: run the body, and while it fails, sleep and run it again, at
  most \<open>n\<close> times, giving the last failure; \<open>repeat_n\<close> runs the body once and, while it succeeds,
  \<open>n\<close> more times, giving the last value or the first error.
\<close>

theorem recurs_attempts:
  "retry sleep mk (recurs n) = try_upto sleep mk (unat n) \<and>
   repeat_n sleep mk n = flat_map mk (repeat_upto sleep mk (unat n))"
proof
  show "retry sleep mk (recurs n) = try_upto sleep mk (unat n)"
    by (intro ext) (simp add: retry_def retry_with_clock_def new_async_def recurs_def retry_loop_recurs)
  show "repeat_n sleep mk n = flat_map mk (repeat_upto sleep mk (unat n))"
  proof (rule effect_eqI)
    fix r w
    show "run (repeat_n sleep mk n) r w = run (flat_map mk (repeat_upto sleep mk (unat n))) r w"
      by (cases "mk r w") (auto simp: repeat_n_def repeat_effect_def repeat_with_clock_def flat_map_def
        new_async_def run_def recurs_def repeat_loop_recurs tick_def split: sum.split)
  qed
qed

text \<open>
  C40. The delays of \<open>exponential(base)\<close> are \<open>base\<close>, \<open>2 base\<close>, \<open>4 base\<close> and so on, capped at
  \<open>u64::MAX\<close> nanoseconds, for the first \<open>2^32\<close> attempts: the saturating arithmetic never
  wraps, and its caps at \<open>u128::MAX\<close> and \<open>Duration::MAX\<close> never show.
\<close>

theorem exponential_backoff:
  assumes "k \<le> 2 ^ 32"
  shows "delays_from k att (exponential base) = map (\<lambda>j. min (base * 2 ^ j) u64_max) [0..<k]"
  using delays_from_exponential [of 0 k att base] assms by (simp add: exponential_def)

lemma exponential_backoff_witness: "delays_from 4 0 (exponential 10) = [10, 20, 40, 80]"
proof -
  have "[0..<4] = [0, 1, 2, 3 :: nat]" by (simp add: upt_rec)
  then show ?thesis using exponential_backoff [of 4 0 10] by (simp add: u64_max_def)
qed

text \<open>
  \<open>Jittered\<close> and \<open>Compose\<close> call their parts with \<open>ScheduleInput::default()\<close>, so a predicate
  below them sees attempt 0 for ever: a retry of a body that keeps failing under a jittered
  \<open>recurs_while\<close> whose predicate holds at attempt 0 never returns, although the same policy
  without the jitter stops as soon as the predicate fails for the current attempt.
\<close>

theorem jittered_while_never_stops:
  fixes mk :: "('a, 'e, 'r, 'w) effect"
  assumes "p \<lparr>attempt = 0\<rparr>" "\<not> p \<lparr>attempt = 1\<rparr>"
    and "\<And>r w. \<exists>e r' w'. run mk r w = Some (Err e, r', w')" "\<forall>d. completes (sleep d)"
  shows "retry sleep mk (jittered (recurs_while p)) r w = None \<and>
    (\<exists>e r' w'. retry sleep mk (recurs_while p) r w = Some (Err e, r', w'))"
proof
  show "retry sleep mk (jittered (recurs_while p)) r w = None"
    unfolding retry_def retry_with_clock_def new_async_def jittered_def recurs_while_def
    by (rule retry_jittered_while_diverges) (use assms(1) in \<open>simp add: default_input_def\<close>,
      metis Pair_inject assms(3) isl_def option.inject)
  obtain e r1 w1 where one: "run mk r w = Some (Err e, r1, w1)" using assms(3) by blast
  obtain w2 where w2: "run_unit (sleep ZERO) w1 = Some w2"
    using run_unit_completes [OF assms(4) [rule_format, of ZERO], of w1] by blast
  obtain e' r3 w3 where two: "run mk r1 w2 = Some (Err e', r3, w3)" using assms(3) by blast
  have "sat_add 0 1 = (1 :: u64)" by (simp add: sat_add_def)
  then have "retry_loop sleep None (\<lambda>_. False) mk (RecursWhile p) (sat_add 0 1) r1 w2 = Some (Err e', r3, w3)"
    using two assms(2) by (subst retry_loop.simps) (simp add: tick_def next_sleep_def)
  then have "retry_loop sleep None (\<lambda>_. False) mk (RecursWhile p) 0 r w = Some (Err e', r3, w3)"
    using one w2 assms(1) by (subst retry_loop.simps) (simp add: tick_def next_sleep_def continue_after_def)
  then show "\<exists>e r' w'. retry sleep mk (recurs_while p) r w = Some (Err e, r', w')"
    by (simp add: retry_def retry_with_clock_def new_async_def recurs_while_def)
qed

lemma jittered_while_never_stops_witness:
  "retry (\<lambda>_. succeed () :: (unit, nat, unit, unit) effect) (fail 0 :: (unit, nat, unit, unit) effect)
     (jittered (recurs_while (\<lambda>i. attempt i < 1))) () () = None"
  using jittered_while_never_stops [of "\<lambda>i. attempt i < 1" "fail 0 :: (unit, nat, unit, unit) effect"
      "\<lambda>_. succeed () :: (unit, nat, unit, unit) effect" "()" "()"]
  by (simp add: completes_def)

end
