(* ===== verification/Stm.thy ===== *)
theory Stm
  imports Prelude
begin

text \<open>
  \<open>crates/id_effect/src/stm/mod.rs\<close>: software transactional memory over \<open>TRef\<close> cells.

  The heap maps a cell's address to its data and version. \<open>Box<dyn Any>\<close> values are values of one
  type \<open>'v\<close>; the type parameters of \<open>TRef<A>\<close> make every downcast of the code succeed.
  A transaction body runs while other threads commit, so what it reads at its \<open>t\<close>-th access to a
  live cell is the heap \<open>env t\<close>: \<open>env\<close> is the sequence of heaps the body happens to meet, and the
  heap as other threads leave it is arbitrary here and constrained only where a theorem needs it.
  The closures stored in \<open>read_validators\<close> and \<open>commit_writes\<close> are represented by what they
  capture: the cell and the version it must still have, and the cell and the value to store.
  Validation and write-back happen under \<open>STM_COMMIT_LOCK\<close>, as one atomic step \<open>try_commit\<close>.
\<close>

record 'v cell =
  data :: 'v
  ver :: u64

type_synonym 'v heap = "nat \<Rightarrow> 'v cell"
type_synonym 'v env = "nat \<Rightarrow> 'v heap"

record 'v txn =
  shadow :: "nat \<rightharpoonup> 'v"
  validated :: "nat set"
  read_validators :: "(nat \<times> u64) list"
  commit_writes :: "(nat \<times> 'v) list"

definition txn_new :: "'v txn" where
  "txn_new = \<lparr>shadow = Map.empty, validated = {}, read_validators = [], commit_writes = []\<rparr>"

text \<open>\<open>HashMap::insert\<close> on the pending writes: one entry per cell, the last value wins.\<close>

fun put_write :: "nat \<Rightarrow> 'v \<Rightarrow> (nat \<times> 'v) list \<Rightarrow> (nat \<times> 'v) list" where
  "put_write i v [] = [(i, v)]"
| "put_write i v ((j, u) # ws) = (if i = j then (i, v) # ws else (j, u) # put_write i v ws)"

section \<open>Commit\<close>

definition validates :: "'v heap \<Rightarrow> (nat \<times> u64) list \<Rightarrow> bool" where
  "validates h vs \<longleftrightarrow> list_all (\<lambda>(i, v). ver (h i) = v) vs"

definition write_cell :: "nat \<Rightarrow> 'v \<Rightarrow> 'v heap \<Rightarrow> 'v heap" where
  "write_cell i v h = h(i := \<lparr>data = v, ver = ver (h i) + 1\<rparr>)"

text \<open>The heaps after each write of the ascending pass over the pending writes.\<close>

fun write_pass :: "(nat \<times> 'v) list \<Rightarrow> nat list \<Rightarrow> 'v heap \<Rightarrow> 'v heap list" where
  "write_pass ws [] h = []"
| "write_pass ws (i # is) h =
     (case map_of ws i of
        None \<Rightarrow> write_pass ws is h
      | Some v \<Rightarrow> (let h' = write_cell i v h in h' # write_pass ws is h'))"

definition commit_heaps :: "'v txn \<Rightarrow> 'v heap \<Rightarrow> 'v heap list" where
  "commit_heaps txn h = write_pass (commit_writes txn) (sort (map fst (commit_writes txn))) h"

definition try_commit :: "'v txn \<Rightarrow> 'v heap \<Rightarrow> unit + 'v heap" where
  "try_commit txn h =
     (if validates h (read_validators txn) then Ok (last (h # commit_heaps txn h)) else Err ())"

section \<open>Transaction programs\<close>

datatype ('a, 'e) outcome = Done 'a | Failed 'e | Retry

type_synonym 'v tstate = "nat \<times> 'v txn"
type_synonym ('v, 'a, 'e) stm = "'v env \<Rightarrow> 'v tstate \<Rightarrow> ('a, 'e) outcome \<times> 'v tstate"

definition run_on :: "('v, 'a, 'e) stm \<Rightarrow> ('v, 'a, 'e) stm" where "run_on m = m"

definition stm_succeed :: "'a \<Rightarrow> ('v, 'a, 'e) stm" where
  "stm_succeed a = (\<lambda>env st. (Done a, st))"

definition stm_fail :: "'e \<Rightarrow> ('v, 'a, 'e) stm" where
  "stm_fail e = (\<lambda>env st. (Failed e, st))"

definition stm_retry :: "('v, 'a, 'e) stm" where
  "stm_retry = (\<lambda>env st. (Retry, st))"

definition stm_check :: "bool \<Rightarrow> ('v, unit, 'e) stm" where
  "stm_check cond = (if cond then stm_succeed () else stm_retry)"

definition stm_map :: "('v, 'a, 'e) stm \<Rightarrow> ('a \<Rightarrow> 'b) \<Rightarrow> ('v, 'b, 'e) stm" where
  "stm_map m f = (\<lambda>env st. case run_on m env st of
       (Done a, st') \<Rightarrow> (Done (f a), st')
     | (Failed e, st') \<Rightarrow> (Failed e, st')
     | (Retry, st') \<Rightarrow> (Retry, st'))"

definition stm_flat_map ::
  "('v, 'a, 'e) stm \<Rightarrow> ('a \<Rightarrow> ('v, 'b, 'e) stm) \<Rightarrow> ('v, 'b, 'e) stm" where
  "stm_flat_map m f = (\<lambda>env st. case run_on m env st of
       (Done a, st') \<Rightarrow> run_on (f a) env st'
     | (Failed e, st') \<Rightarrow> (Failed e, st')
     | (Retry, st') \<Rightarrow> (Retry, st'))"

definition stm_or_else :: "('v, 'a, 'e) stm \<Rightarrow> ('v, 'a, 'e) stm \<Rightarrow> ('v, 'a, 'e) stm" where
  "stm_or_else m that = (\<lambda>env st. case run_on m env st of
       (Retry, st') \<Rightarrow> run_on that env st'
     | other \<Rightarrow> other)"

section \<open>TRef\<close>

text \<open>
  \<open>TRef::make\<close> is a transaction that ignores its log and allocates: a cell with version 0 at an address
  the allocator chooses (\<open>new_addr\<close>). The allocation takes effect when the body runs, whether or not the
  transaction commits, so it is a function of the heap and not of the log.
\<close>

definition tref_make :: "nat \<Rightarrow> 'v \<Rightarrow> 'v heap \<Rightarrow> nat \<times> 'v heap" where
  "tref_make new_addr initial h = (new_addr, h(new_addr := \<lparr>data = initial, ver = 0\<rparr>))"

definition ensure_validated :: "nat \<Rightarrow> 'v env \<Rightarrow> 'v tstate \<Rightarrow> 'v tstate" where
  "ensure_validated i env st = (case st of (t, txn) \<Rightarrow>
     if i \<in> validated txn then (t, txn)
     else (Suc t, txn\<lparr>validated := insert i (validated txn),
                      read_validators := read_validators txn @ [(i, ver (env t i))]\<rparr>))"

definition read_stm :: "nat \<Rightarrow> ('v, 'v, 'e) stm" where
  "read_stm i = (\<lambda>env st. case st of (t, txn) \<Rightarrow>
     (case shadow txn i of
        Some v \<Rightarrow> (Done v, (t, txn))
      | None \<Rightarrow>
          (let vr = ver (env t i);
               val = data (env t i);
               txn1 = (if i \<in> validated txn then txn
                       else txn\<lparr>validated := insert i (validated txn),
                                read_validators := read_validators txn @ [(i, vr)]\<rparr>);
               txn2 = txn1\<lparr>shadow := (shadow txn1)(i \<mapsto> val)\<rparr>
           in (Done val, (Suc t, txn2)))))"

definition write_stm :: "nat \<Rightarrow> 'v \<Rightarrow> ('v, unit, 'e) stm" where
  "write_stm i v = (\<lambda>env st.
     (case ensure_validated i env st of (t, txn) \<Rightarrow>
        (Done (), (t, txn\<lparr>shadow := (shadow txn)(i \<mapsto> v),
                          commit_writes := put_write i v (commit_writes txn)\<rparr>))))"

definition update_stm :: "nat \<Rightarrow> ('v \<Rightarrow> 'v) \<Rightarrow> ('v, unit, 'e) stm" where
  "update_stm i f = (\<lambda>env st. case run_on (read_stm i) env st of
       (Done cur, st') \<Rightarrow> run_on (write_stm i (f cur)) env st'
     | (Failed e, st') \<Rightarrow> (Failed e, st')
     | (Retry, st') \<Rightarrow> (Retry, st'))"

definition modify_stm :: "nat \<Rightarrow> ('v \<Rightarrow> 'b \<times> 'v) \<Rightarrow> ('v, 'b, 'e) stm" where
  "modify_stm i f = (\<lambda>env st. case run_on (read_stm i) env st of
       (Done cur, st') \<Rightarrow>
         (case f cur of (out, nxt) \<Rightarrow>
           (case run_on (write_stm i nxt) env st' of
              (Done _, st2) \<Rightarrow> (Done out, st2)
            | (Failed e, st2) \<Rightarrow> (Failed e, st2)
            | (Retry, st2) \<Rightarrow> (Retry, st2)))
     | (Failed e, st') \<Rightarrow> (Failed e, st')
     | (Retry, st') \<Rightarrow> (Retry, st'))"

text \<open>
  \<open>read_txn\<close> and \<open>set_txn\<close>, the helpers the containers use: \<open>read_txn\<close> reaches its
  \<open>unreachable!()\<close> (\<open>None\<close>) only if \<open>read_stm\<close> fails or retries, and \<open>set_txn\<close> drops the outcome.
\<close>

definition read_txn :: "nat \<Rightarrow> 'v env \<Rightarrow> 'v tstate \<Rightarrow> ('v \<times> 'v tstate) option" where
  "read_txn i env st = (case run_on (read_stm i :: ('v, 'v, unit) stm) env st of
       (Done v, st') \<Rightarrow> Some (v, st')
     | _ \<Rightarrow> None)"

definition set_txn :: "nat \<Rightarrow> 'v \<Rightarrow> 'v env \<Rightarrow> 'v tstate \<Rightarrow> 'v tstate" where
  "set_txn i v env st = snd (run_on (write_stm i v :: ('v, unit, unit) stm) env st)"

section \<open>Running a transaction to completion\<close>

text \<open>
  One pass of the loop in \<open>commit\<close>: the body runs against \<open>env\<close>, the commit happens at heap \<open>h\<close>.
  \<open>None\<close> is the \<open>continue\<close> of the loop.
\<close>

definition attempt_commit ::
  "('v, 'a, 'e) stm \<Rightarrow> 'v env \<Rightarrow> 'v heap \<Rightarrow> (('e + 'a) \<times> 'v heap) option" where
  "attempt_commit m env h = (case run_on m env (0, txn_new) of
       (Failed e, _) \<Rightarrow> Some (Err e, h)
     | (Retry, _) \<Rightarrow> None
     | (Done a, (t, txn)) \<Rightarrow>
         (case try_commit txn h of Inr h' \<Rightarrow> Some (Ok a, h') | Inl _ \<Rightarrow> None))"

text \<open>\<open>world k\<close> is what the \<open>k\<close>-th pass meets: the heaps of its body and the heap it commits at.\<close>

partial_function (option) commit_loop ::
  "('v, 'a, 'e) stm \<Rightarrow> (nat \<Rightarrow> 'v env \<times> 'v heap) \<Rightarrow> nat \<Rightarrow> (('e + 'a) \<times> 'v heap) option" where
  "commit_loop m world k =
     (case attempt_commit m (fst (world k)) (snd (world k)) of
        Some x \<Rightarrow> Some x
      | None \<Rightarrow> commit_loop m world (Suc k))"

definition commit ::
  "('v, 'a, 'e) stm \<Rightarrow> (nat \<Rightarrow> 'v env \<times> 'v heap) \<Rightarrow> (('e + 'a) \<times> 'v heap) option" where
  "commit m world = commit_loop m world 0"

definition atomically ::
  "('v, 'a, 'e) stm \<Rightarrow> (nat \<Rightarrow> 'v env \<times> 'v heap) \<Rightarrow> (('e + 'a) \<times> 'v heap) option" where
  "atomically m world = commit m world"

text \<open>A transaction that runs alone: nothing else changes the heap.\<close>

definition alone :: "('v, 'a, 'e) stm \<Rightarrow> 'v heap \<Rightarrow> (('e + 'a) \<times> 'v heap) option" where
  "alone m h = attempt_commit m (\<lambda>_. h) h"

section \<open>Transactional containers\<close>

record 'a queue_state =
  buf :: "'a list"
  cap :: "nat option"

definition tqueue_bounded :: "nat \<Rightarrow> nat \<Rightarrow> 'a queue_state heap \<Rightarrow> nat \<times> 'a queue_state heap" where
  "tqueue_bounded new_addr capacity h = tref_make new_addr \<lparr>buf = [], cap = Some capacity\<rparr> h"

definition tqueue_unbounded :: "nat \<Rightarrow> 'a queue_state heap \<Rightarrow> nat \<times> 'a queue_state heap" where
  "tqueue_unbounded new_addr h = tref_make new_addr \<lparr>buf = [], cap = None\<rparr> h"

text \<open>The \<open>None\<close> branch of \<open>read_txn\<close> is \<open>unreachable!()\<close>; lemma \<open>read_txn_total\<close> below.\<close>

definition tqueue_offer :: "nat \<Rightarrow> 'a \<Rightarrow> ('a queue_state, bool, 'e) stm" where
  "tqueue_offer q v = (\<lambda>env st. case read_txn q env st of
       None \<Rightarrow> (Retry, st)
     | Some (qs, st') \<Rightarrow>
         (if (case cap qs of Some c \<Rightarrow> c \<le> length (buf qs) | None \<Rightarrow> False)
          then (Done False, st')
          else (Done True, set_txn q (qs\<lparr>buf := buf qs @ [v]\<rparr>) env st')))"

definition tqueue_take :: "nat \<Rightarrow> ('a queue_state, 'a, 'e) stm" where
  "tqueue_take q = (\<lambda>env st. case read_txn q env st of
       None \<Rightarrow> (Retry, st)
     | Some (qs, st') \<Rightarrow>
         (case buf qs of
            x # xs \<Rightarrow> (Done x, set_txn q (qs\<lparr>buf := xs\<rparr>) env st')
          | [] \<Rightarrow> (Retry, st')))"

definition tmap_make :: "nat \<Rightarrow> ('k \<rightharpoonup> 'x) heap \<Rightarrow> nat \<times> ('k \<rightharpoonup> 'x) heap" where
  "tmap_make new_addr h = tref_make new_addr Map.empty h"

definition tmap_get :: "nat \<Rightarrow> 'k \<Rightarrow> ('k \<rightharpoonup> 'x, 'x option, 'e) stm" where
  "tmap_get m k = (\<lambda>env st. case read_txn m env st of
       None \<Rightarrow> (Retry, st)
     | Some (mp, st') \<Rightarrow> (Done (mp k), st'))"

definition tmap_set :: "nat \<Rightarrow> 'k \<Rightarrow> 'x \<Rightarrow> ('k \<rightharpoonup> 'x, unit, 'e) stm" where
  "tmap_set m k x = (\<lambda>env st. case read_txn m env st of
       None \<Rightarrow> (Retry, st)
     | Some (mp, st') \<Rightarrow> (Done (), set_txn m (mp(k \<mapsto> x)) env st'))"

definition tmap_delete :: "nat \<Rightarrow> 'k \<Rightarrow> ('k \<rightharpoonup> 'x, unit, 'e) stm" where
  "tmap_delete m k = (\<lambda>env st. case read_txn m env st of
       None \<Rightarrow> (Retry, st)
     | Some (mp, st') \<Rightarrow> (Done (), set_txn m (mp(k := None)) env st'))"

definition tsemaphore_make :: "nat \<Rightarrow> u64 \<Rightarrow> u64 heap \<Rightarrow> nat \<times> u64 heap" where
  "tsemaphore_make new_addr permits h = tref_make new_addr permits h"

definition tsemaphore_acquire :: "nat \<Rightarrow> (u64, unit, 'e) stm" where
  "tsemaphore_acquire s = (\<lambda>env st. case read_txn s env st of
       None \<Rightarrow> (Retry, st)
     | Some (n, st') \<Rightarrow>
         (if n = 0 then (Retry, st') else (Done (), set_txn s (n - 1) env st')))"

definition tsemaphore_release :: "nat \<Rightarrow> (u64, unit, 'e) stm" where
  "tsemaphore_release s = (\<lambda>env st. case read_txn s env st of
       None \<Rightarrow> (Retry, st)
     | Some (n, st') \<Rightarrow> (Done (), set_txn s (n + 1) env st'))"

section \<open>Bodies covered by validation\<close>

text \<open>
  A transaction log is well formed when exactly the cells with a snapshot have a validator and no
  cell has two pending writes. A body is \<open>tracked\<close> when, started from a well-formed log, it only
  adds validators for versions it met, and, whenever
  all validators it leaves behind hold at a heap whose versions identify the contents the body
  met, the body would have done the same on that one heap alone.
\<close>

definition wf_txn :: "'v txn \<Rightarrow> bool" where
  "wf_txn txn \<longleftrightarrow> validated txn = dom (shadow txn) \<and> distinct (map fst (commit_writes txn))"

definition recorded :: "'v env \<Rightarrow> (nat \<times> u64) list \<Rightarrow> bool" where
  "recorded env vs \<longleftrightarrow> (\<forall>(i, v) \<in> set vs. \<exists>t. v = ver (env t i))"

definition identifies :: "'v env \<Rightarrow> 'v heap \<Rightarrow> bool" where
  "identifies env h \<longleftrightarrow> (\<forall>t i. ver (env t i) = ver (h i) \<longrightarrow> env t i = h i)"

definition replays :: "('v, 'a, 'e) stm \<Rightarrow> 'v heap \<Rightarrow> 'v txn \<Rightarrow> ('a, 'e) outcome \<Rightarrow> 'v txn \<Rightarrow> bool" where
  "replays m h txn out txn' \<longleftrightarrow> (\<forall>t. \<exists>t'. m (\<lambda>_. h) (t, txn) = (out, (t', txn')))"

definition tracked :: "('v, 'a, 'e) stm \<Rightarrow> bool" where
  "tracked m \<longleftrightarrow> (\<forall>env t txn out t' txn'.
     wf_txn txn \<longrightarrow> m env (t, txn) = (out, (t', txn')) \<longrightarrow>
       wf_txn txn' \<and>
       (\<exists>vs. read_validators txn' = read_validators txn @ vs \<and> recorded env vs) \<and>
       (\<forall>h. identifies env h \<longrightarrow> validates h (read_validators txn') \<longrightarrow> replays m h txn out txn'))"

lemma trackedI:
  assumes "\<And>env t txn out t' txn'. wf_txn txn \<Longrightarrow> m env (t, txn) = (out, (t', txn')) \<Longrightarrow> wf_txn txn'"
    and "\<And>env t txn out t' txn'. wf_txn txn \<Longrightarrow> m env (t, txn) = (out, (t', txn')) \<Longrightarrow>
      \<exists>vs. read_validators txn' = read_validators txn @ vs \<and> recorded env vs"
    and "\<And>env t txn out t' txn' h. wf_txn txn \<Longrightarrow> m env (t, txn) = (out, (t', txn')) \<Longrightarrow>
      identifies env h \<Longrightarrow> validates h (read_validators txn') \<Longrightarrow> replays m h txn out txn'"
  shows "tracked m"
  unfolding tracked_def using assms by blast

lemma trackedD:
  assumes "tracked m" "wf_txn txn" "m env (t, txn) = (out, (t', txn'))"
  shows "wf_txn txn'"
    and "\<exists>vs. read_validators txn' = read_validators txn @ vs \<and> recorded env vs"
    and "identifies env h \<Longrightarrow> validates h (read_validators txn') \<Longrightarrow> replays m h txn out txn'"
  using assms unfolding tracked_def by blast+

lemma validates_append [simp]: "validates h (vs @ ws) \<longleftrightarrow> validates h vs \<and> validates h ws"
  by (auto simp: validates_def)

lemma validates_simps [simp]:
  "validates h []" "validates h ((i, v) # vs) \<longleftrightarrow> ver (h i) = v \<and> validates h vs"
  by (auto simp: validates_def)

lemma wf_txn_new [simp]: "wf_txn txn_new"
  by (simp add: wf_txn_def txn_new_def)

lemma recorded_simps [simp]:
  "recorded env []" "recorded env ((i, v) # vs) \<longleftrightarrow> (\<exists>t. v = ver (env t i)) \<and> recorded env vs"
  by (auto simp: recorded_def)

lemma fst_put_write: "set (map fst (put_write i v ws)) = insert i (set (map fst ws))"
  by (induction i v ws rule: put_write.induct) auto

lemma distinct_put_write: "distinct (map fst ws) \<Longrightarrow> distinct (map fst (put_write i v ws))"
proof (induction i v ws rule: put_write.induct)
  case (2 i v j u ws)
  then show ?case using fst_put_write [of i v ws] by auto
qed simp

lemma map_of_put_write [simp]: "map_of (put_write i v ws) = (map_of ws)(i \<mapsto> v)"
  by (induction i v ws rule: put_write.induct) (auto simp: fun_eq_iff)

lemma tracked_silent:
  assumes "\<And>env st. m env st = (out, st)"
  shows "tracked m"
  by (rule trackedI) (auto simp: assms replays_def)

lemma tracked_succeed [txn_intros]: "tracked (stm_succeed a)"
  by (rule tracked_silent [where out = "Done a"]) (simp add: stm_succeed_def)

lemma tracked_fail [txn_intros]: "tracked (stm_fail e)"
  by (rule tracked_silent [where out = "Failed e"]) (simp add: stm_fail_def)

lemma tracked_retry [txn_intros]: "tracked stm_retry"
  by (rule tracked_silent [where out = Retry]) (simp add: stm_retry_def)

lemma tracked_check [txn_intros]: "tracked (stm_check c)"
  by (simp add: stm_check_def tracked_succeed tracked_retry)

text \<open>Every combinator is a continuation on the outcome of its first body.\<close>

definition continue_with ::
  "('v, 'a, 'e) stm \<Rightarrow> (('a, 'e) outcome \<Rightarrow> ('v, 'b, 'f) stm) \<Rightarrow> ('v, 'b, 'f) stm" where
  "continue_with m k = (\<lambda>env st. case m env st of (out, st') \<Rightarrow> k out env st')"

lemma tracked_continue:
  assumes m: "tracked m" and k: "\<And>out. tracked (k out)"
  shows "tracked (continue_with m k)"
proof (rule trackedI)
  fix env t txn out t' txn'
  assume wf: "wf_txn txn" and eq: "continue_with m k env (t, txn) = (out, (t', txn'))"
  obtain o1 t1 txn1 where m_eq: "m env (t, txn) = (o1, (t1, txn1))" by (metis prod_cases3)
  with eq have k_eq: "k o1 env (t1, txn1) = (out, (t', txn'))" by (simp add: continue_with_def)
  note m1 = trackedD [OF m wf m_eq]
  note k1 = trackedD [OF k m1(1) k_eq]
  show "wf_txn txn'" by (rule k1(1))
  show "\<exists>vs. read_validators txn' = read_validators txn @ vs \<and> recorded env vs"
    using m1(2) k1(2) by (auto simp: recorded_def)
  fix h
  assume h: "identifies env h" "validates h (read_validators txn')"
  then have "validates h (read_validators txn1)" using k1(2) by auto
  with h have "replays m h txn o1 txn1" "replays (k o1) h txn1 out txn'" using m1(3) k1(3) by auto
  then show "replays (continue_with m k) h txn out txn'"
    unfolding replays_def continue_with_def by (metis case_prod_conv)
qed

lemma stm_map_continue:
  "stm_map m f = continue_with m (\<lambda>out. case out of
     Done a \<Rightarrow> stm_succeed (f a) | Failed e \<Rightarrow> stm_fail e | Retry \<Rightarrow> stm_retry)"
  by (auto simp: fun_eq_iff stm_map_def continue_with_def run_on_def stm_succeed_def stm_fail_def
      stm_retry_def split: prod.split outcome.split)

lemma stm_flat_map_continue:
  "stm_flat_map m f = continue_with m (\<lambda>out. case out of
     Done a \<Rightarrow> f a | Failed e \<Rightarrow> stm_fail e | Retry \<Rightarrow> stm_retry)"
  by (auto simp: fun_eq_iff stm_flat_map_def continue_with_def run_on_def stm_fail_def stm_retry_def
      split: prod.split outcome.split)

lemma stm_or_else_continue:
  "stm_or_else m that = continue_with m (\<lambda>out. case out of
     Done a \<Rightarrow> stm_succeed a | Failed e \<Rightarrow> stm_fail e | Retry \<Rightarrow> that)"
  by (auto simp: fun_eq_iff stm_or_else_def continue_with_def run_on_def stm_succeed_def
      stm_fail_def split: prod.split outcome.split)

lemma tracked_map [txn_intros]: "tracked m \<Longrightarrow> tracked (stm_map m f)"
  unfolding stm_map_continue
  by (rule tracked_continue) (auto intro: txn_intros split: outcome.split)

lemma tracked_flat_map [txn_intros]:
  "tracked m \<Longrightarrow> (\<And>a. tracked (f a)) \<Longrightarrow> tracked (stm_flat_map m f)"
  unfolding stm_flat_map_continue
  by (rule tracked_continue) (auto intro: txn_intros split: outcome.split)

lemma tracked_or_else [txn_intros]:
  "tracked m \<Longrightarrow> tracked that \<Longrightarrow> tracked (stm_or_else m that)"
  unfolding stm_or_else_continue
  by (rule tracked_continue) (auto intro: txn_intros split: outcome.split)

lemma identifiesD: "identifies env h \<Longrightarrow> ver (h i) = ver (env t i) \<Longrightarrow> env t i = h i"
  by (auto simp: identifies_def)

lemma read_stm_cases:
  "shadow txn i = Some v \<Longrightarrow> read_stm i env (t, txn) = (Done v, (t, txn))"
  "wf_txn txn \<Longrightarrow> shadow txn i = None \<Longrightarrow> read_stm i env (t, txn) =
     (Done (data (env t i)), (Suc t, txn\<lparr>shadow := (shadow txn)(i \<mapsto> data (env t i)),
        validated := insert i (validated txn),
        read_validators := read_validators txn @ [(i, ver (env t i))]\<rparr>))"
  by (auto simp: read_stm_def wf_txn_def Let_def domIff)

lemma tracked_read [txn_intros]: "tracked (read_stm i)"
proof (rule trackedI)
  fix env t txn out t' txn'
  assume wf: "wf_txn txn" and eq: "read_stm i env (t, txn) = (out, (t', txn'))"
  show "wf_txn txn'"
    using wf eq by (cases "shadow txn i") (auto simp: read_stm_cases wf_txn_def)
  show "\<exists>vs. read_validators txn' = read_validators txn @ vs \<and> recorded env vs"
    using wf eq by (cases "shadow txn i") (auto simp: read_stm_cases)
  fix h
  assume h: "identifies env h" "validates h (read_validators txn')"
  show "replays (read_stm i) h txn out txn'"
  proof (cases "shadow txn i")
    case None
    note eq [unfolded read_stm_cases(2) [OF wf None]]
    moreover with h have "env t i = h i" by (auto intro: identifiesD)
    ultimately show ?thesis by (auto simp: replays_def read_stm_cases(2) [OF wf None])
  next
    case (Some v)
    with eq show ?thesis by (auto simp: replays_def read_stm_cases(1))
  qed
qed

lemma write_stm_cases:
  "i \<in> validated txn \<Longrightarrow> write_stm i v env (t, txn) =
     (Done (), (t, txn\<lparr>shadow := (shadow txn)(i \<mapsto> v),
        commit_writes := put_write i v (commit_writes txn)\<rparr>))"
  "i \<notin> validated txn \<Longrightarrow> write_stm i v env (t, txn) =
     (Done (), (Suc t, txn\<lparr>shadow := (shadow txn)(i \<mapsto> v),
        validated := insert i (validated txn),
        read_validators := read_validators txn @ [(i, ver (env t i))],
        commit_writes := put_write i v (commit_writes txn)\<rparr>))"
  by (auto simp: write_stm_def ensure_validated_def)

lemma tracked_write [txn_intros]: "tracked (write_stm i v)"
proof (rule trackedI)
  fix env t txn out t' txn'
  assume wf: "wf_txn txn" and eq: "write_stm i v env (t, txn) = (out, (t', txn'))"
  show "wf_txn txn'"
    using wf eq
    by (cases "i \<in> validated txn") (auto simp: write_stm_cases wf_txn_def distinct_put_write split: if_splits)
  show "\<exists>vs. read_validators txn' = read_validators txn @ vs \<and> recorded env vs"
    using wf eq by (cases "i \<in> validated txn") (auto simp: write_stm_cases)
  fix h
  assume "identifies env h" "validates h (read_validators txn')"
  then show "replays (write_stm i v) h txn out txn'"
    using wf eq by (cases "i \<in> validated txn") (auto simp: write_stm_cases replays_def)
qed

lemma read_stm_done: "\<exists>v st'. read_stm i env st = (Done v, st')"
  by (cases st; cases "shadow (snd st) i") (auto simp: read_stm_def Let_def)

lemma read_txn_done:
  fixes env :: "'v env"
  assumes "(read_stm i :: ('v, 'v, 'e) stm) env st = (Done v, st')"
  shows "read_txn i env st = Some (v, st')"
  using assms
  by (cases st; cases "shadow (snd st) i") (auto simp: read_txn_def run_on_def read_stm_def Let_def)

lemma read_txn_total: "\<exists>v st'. read_txn i env st = Some (v, st')"
  using read_stm_done read_txn_done by metis

text \<open>The containers read their cell, then decide and possibly write it.\<close>

definition read_then ::
  "nat \<Rightarrow> ('v \<Rightarrow> ('a, 'e) outcome \<times> 'v option) \<Rightarrow> ('v, 'a, 'e) stm" where
  "read_then i k = (\<lambda>env st. case read_txn i env st of
       None \<Rightarrow> (Retry, st)
     | Some (x, st') \<Rightarrow>
         (case k x of (out, None) \<Rightarrow> (out, st') | (out, Some y) \<Rightarrow> (out, set_txn i y env st')))"

lemma set_txn_write:
  "set_txn i y env st = snd ((write_stm i y :: ('v, unit, 'e) stm) env st)"
  by (simp add: set_txn_def run_on_def write_stm_def split: prod.split)

lemma write_stm_done: "fst (write_stm i y env st) = Done ()"
  by (simp add: write_stm_def split: prod.split)

lemma read_then_continue:
  fixes k :: "'v \<Rightarrow> ('a, 'e) outcome \<times> 'v option"
  shows "read_then i k = continue_with (read_stm i :: ('v, 'v, 'e) stm) (\<lambda>o1. case o1 of
     Done x \<Rightarrow> (case k x of
        (out, None) \<Rightarrow> (\<lambda>env st. (out, st))
      | (out, Some y) \<Rightarrow>
          continue_with (write_stm i y :: ('v, unit, 'e) stm) (\<lambda>_ env st. (out, st)))
   | Failed e \<Rightarrow> stm_fail e | Retry \<Rightarrow> stm_retry)" (is "_ = ?rhs")
proof (intro ext)
  fix env st
  obtain v st' where r: "(read_stm i :: ('v, 'v, 'e) stm) env st = (Done v, st')"
    using read_stm_done [of i env st] by blast
  then have "read_txn i env st = Some (v, st')" by (rule read_txn_done)
  with r show "read_then i k env st = ?rhs env st"
    by (auto simp: read_then_def continue_with_def set_txn_write [where 'e = 'e]
        write_stm_done split: prod.split option.split)
qed

lemma tracked_read_then [txn_intros]:
  fixes k :: "'v \<Rightarrow> ('b, 'e) outcome \<times> 'v option"
  shows "tracked (read_then i k)"
proof -
  have silent: "tracked (\<lambda>env st. (out, st))" for out :: "('b, 'e) outcome"
    by (rule tracked_silent) simp
  have "tracked (case k x of (out, None) \<Rightarrow> (\<lambda>env st. (out, st))
      | (out, Some y) \<Rightarrow>
          continue_with (write_stm i y :: ('v, unit, 'e) stm) (\<lambda>_ env st. (out, st)))" for x
    by (auto intro!: silent tracked_continue tracked_write split: prod.split option.split)
  then show ?thesis
    unfolding read_then_continue
    by (intro tracked_continue tracked_read)
      (auto intro: tracked_fail tracked_retry split: outcome.split)
qed

lemma container_read_then:
  "tqueue_offer q v = read_then q (\<lambda>qs.
     if (case cap qs of Some c \<Rightarrow> c \<le> length (buf qs) | None \<Rightarrow> False) then (Done False, None)
     else (Done True, Some (qs\<lparr>buf := buf qs @ [v]\<rparr>)))"
  "tqueue_take q = read_then q (\<lambda>qs. case buf qs of
     x # xs \<Rightarrow> (Done x, Some (qs\<lparr>buf := xs\<rparr>)) | [] \<Rightarrow> (Retry, None))"
  "tmap_get m k = read_then m (\<lambda>mp. (Done (mp k), None))"
  "tmap_set m k x = read_then m (\<lambda>mp. (Done (), Some (mp(k \<mapsto> x))))"
  "tmap_delete m k = read_then m (\<lambda>mp. (Done (), Some (mp(k := None))))"
  "tsemaphore_acquire s = read_then s (\<lambda>n. if n = 0 then (Retry, None) else (Done (), Some (n - 1)))"
  "tsemaphore_release s = read_then s (\<lambda>n. (Done (), Some (n + 1)))"
  by (simp_all add: fun_eq_iff read_then_def tqueue_offer_def tqueue_take_def tmap_get_def
      tmap_set_def tmap_delete_def tsemaphore_acquire_def tsemaphore_release_def
      split: option.split prod.split list.split)

lemma tracked_containers [txn_intros]:
  "tracked (tqueue_offer q v)" "tracked (tqueue_take q)"
  "tracked (tmap_get m k)" "tracked (tmap_set m k x)" "tracked (tmap_delete m k)"
  "tracked (tsemaphore_acquire s)" "tracked (tsemaphore_release s)"
  unfolding container_read_then by (rule tracked_read_then)+

lemma update_stm_flat_map: "update_stm i f = stm_flat_map (read_stm i) (\<lambda>cur. write_stm i (f cur))"
  by (simp add: fun_eq_iff update_stm_def stm_flat_map_def)

lemma modify_stm_flat_map:
  "modify_stm i f = stm_flat_map (read_stm i) (\<lambda>cur.
     stm_map (write_stm i (snd (f cur))) (\<lambda>_. fst (f cur)))"
  by (simp add: fun_eq_iff modify_stm_def stm_flat_map_def stm_map_def run_on_def case_prod_unfold
      split: outcome.split prod.split)

lemma tracked_update [txn_intros]: "tracked (update_stm i f)"
  unfolding update_stm_flat_map by (intro txn_intros)

lemma tracked_modify [txn_intros]: "tracked (modify_stm i f)"
  unfolding modify_stm_flat_map by (intro txn_intros)

interpretation stm_seq: sequencing "stm_succeed :: 'a \<Rightarrow> ('v, 'a, 'e) stm" stm_flat_map
  by unfold_locales
    (auto simp: fun_eq_iff stm_flat_map_def stm_succeed_def run_on_def split: prod.split outcome.split)

section \<open>Histories and serialisability\<close>

text \<open>
  A history is the sequence of heaps the shared state goes through: every store of a commit adds
  one. Between two heaps of a history with fewer than \<open>2 ^ 64\<close> stores in between, equal versions
  of a cell mean the cell was not written.
\<close>

inductive history :: "'v heap list \<Rightarrow> bool" where
  start: "history [h]"
| store: "history hs \<Longrightarrow> history (hs @ [write_cell i v (last hs)])"

lemma history_nonempty [simp]: "history hs \<Longrightarrow> hs \<noteq> []"
  by (induction rule: history.induct) auto

lemma history_append_pass:
  "history hs \<Longrightarrow> last hs = h \<Longrightarrow> history (hs @ write_pass ws is h)"
proof (induction ws "is" h arbitrary: hs rule: write_pass.induct)
  case (2 ws i "is" h)
  then show ?case
  proof (cases "map_of ws i")
    case (Some v)
    have "history (hs @ [write_cell i v h])" using "2.prems" history.store [of hs i v] by simp
    with "2.IH"(2) [OF Some refl this] Some show ?thesis by (simp add: Let_def)
  qed simp
qed simp

text \<open>How often cell \<open>i\<close> was stored since position \<open>m\<close>.\<close>

lemma history_versions:
  assumes "history hs" "m < length hs"
  shows "\<exists>c \<le> length hs - Suc m. ver (last hs i) = ver ((hs ! m) i) + of_nat c \<and>
           (c = 0 \<longrightarrow> last hs i = (hs ! m) i)"
  using assms
proof (induction rule: history.induct)
  case (start h)
  then show ?case by simp
next
  case (store hs j v)
  show ?case
  proof (cases "m = length hs")
    case True
    then show ?thesis by simp
  next
    case False
    with store.prems have m: "m < length hs" by simp
    with store.IH obtain c where c: "c \<le> length hs - Suc m"
      "ver (last hs i) = ver ((hs ! m) i) + of_nat c" "c = 0 \<longrightarrow> last hs i = (hs ! m) i" by blast
    show ?thesis
    proof (cases "i = j")
      case True
      with c m show ?thesis
        by (intro exI [of _ "Suc c"]) (auto simp: write_cell_def nth_append)
    next
      case neq: False
      with c m show ?thesis
        by (intro exI [of _ c]) (auto simp: write_cell_def nth_append)
    qed
  qed
qed

lemma history_identifies:
  assumes hs: "history hs" "length hs \<le> 2 ^ 64" and env: "\<forall>t. env t \<in> set hs"
  shows "identifies env (last hs)"
  unfolding identifies_def
proof (intro allI impI)
  fix t i
  assume eq: "ver (env t i) = ver (last hs i)"
  from env obtain m where m: "m < length hs" "env t = hs ! m" by (metis in_set_conv_nth)
  with history_versions [OF hs(1) m(1), of i] obtain c where c: "c \<le> length hs - Suc m"
    "ver (last hs i) = ver ((hs ! m) i) + of_nat c" "c = 0 \<longrightarrow> last hs i = (hs ! m) i" by blast
  have "(of_nat c :: u64) = 0" using eq m(2) c(2) by simp
  moreover have "c < 2 ^ 64" using c(1) hs(2) m(1) by linarith
  ultimately have "c = 0" using word_of_nat_eq_0_iff [of c, where 'a = 64]
    by (auto dest: dvd_imp_le)
  with c(3) m(2) show "env t i = last hs i" by simp
qed

text \<open>
  A run of concurrent transactions from the heap \<open>h0\<close>: \<open>hs\<close> are the heaps so far and \<open>log\<close> the
  committed transactions with their results, in commit order. A body may have met, at each of its
  accesses, any heap of the past, also one in the middle of another commit; only its commit is
  atomic. Attempts that fail, retry or do not validate leave the shared heap alone.
\<close>

inductive concurrent ::
  "'v heap \<Rightarrow> 'v heap list \<Rightarrow> (('v, 'a, 'e) stm \<times> 'a) list \<Rightarrow> bool" for h0 where
  started: "concurrent h0 [h0] []"
| commits: "concurrent h0 hs log \<Longrightarrow> tracked m \<Longrightarrow> (\<forall>t. env t \<in> set hs) \<Longrightarrow>
     run_on m env (0, txn_new) = (Done a, (t, txn)) \<Longrightarrow> try_commit txn (last hs) = Ok h' \<Longrightarrow>
     concurrent h0 (hs @ commit_heaps txn (last hs)) (log @ [(m, a)])"

text \<open>The same transactions one after the other, each alone.\<close>

primrec serial :: "(('v, 'a, 'e) stm \<times> 'a) list \<Rightarrow> 'v heap \<Rightarrow> 'v heap \<Rightarrow> bool" where
  "serial [] h h' \<longleftrightarrow> h = h'"
| "serial (c # cs) h h' \<longleftrightarrow> (\<exists>h1. alone (fst c) h = Some (Ok (snd c), h1) \<and> serial cs h1 h')"

lemma serial_append: "serial (cs @ ds) h h' \<longleftrightarrow> (\<exists>h1. serial cs h h1 \<and> serial ds h1 h')"
  by (induction cs arbitrary: h) auto

lemma alone_commit:
  assumes m: "tracked m" and ident: "identifies env h"
    and body: "run_on m env (0, txn_new) = (Done a, (t, txn))" and ok: "try_commit txn h = Ok h'"
  shows "alone m h = Some (Ok a, h')" and "h' = last (h # commit_heaps txn h)"
proof -
  have valid: "validates h (read_validators txn)" using ok by (auto simp: try_commit_def split: if_splits)
  have "replays m h txn_new (Done a) txn"
    using trackedD(3) [OF m wf_txn_new body [unfolded run_on_def] ident valid] .
  then obtain t' where "m (\<lambda>_. h) (0, txn_new) = (Done a, (t', txn))" by (auto simp: replays_def)
  with ok show "alone m h = Some (Ok a, h')" by (simp add: alone_def attempt_commit_def run_on_def)
  show "h' = last (h # commit_heaps txn h)" using ok by (auto simp: try_commit_def split: if_splits)
qed

lemma concurrent_history: "concurrent h0 hs log \<Longrightarrow> history hs"
proof (induction rule: concurrent.induct)
  case started
  show ?case by (rule history.start)
next
  case commits
  then show ?case by (simp add: commit_heaps_def history_append_pass)
qed

lemma concurrent_serial:
  assumes "concurrent h0 hs log" "length hs \<le> 2 ^ 64"
  shows "serial log h0 (last hs)"
  using assms
proof (induction rule: concurrent.induct)
  case started
  show ?case by simp
next
  case (commits hs log m env a t txn h')
  have hist: "history hs" using commits.hyps(1) by (rule concurrent_history)
  have len: "length hs \<le> 2 ^ 64" using commits.prems by simp
  have ident: "identifies env (last hs)"
    using history_identifies [OF hist len commits.hyps(3)] .
  note step = alone_commit [OF commits.hyps(2) ident commits.hyps(4) commits.hyps(5)]
  have "last (hs @ commit_heaps txn (last hs)) = h'"
    using step(2) hist by (simp add: last_append)
  then show ?case using commits.IH [OF len] step(1) by (auto simp: serial_append)
qed

section \<open>One commit\<close>

lemma write_pass_last:
  assumes "distinct is"
  shows "last (h # write_pass ws is h) =
    (\<lambda>j. if j \<in> set is then (case map_of ws j of Some v \<Rightarrow> \<lparr>data = v, ver = ver (h j) + 1\<rparr> | None \<Rightarrow> h j)
         else h j)"
  using assms
proof (induction ws "is" h rule: write_pass.induct)
  case (2 ws i "is" h)
  show ?case
  proof (cases "map_of ws i")
    case None
    with 2 show ?thesis by (auto simp: fun_eq_iff)
  next
    case (Some v)
    have "last (write_cell i v h # write_pass ws is (write_cell i v h)) = (\<lambda>j. if j \<in> set is
      then (case map_of ws j of Some v' \<Rightarrow> \<lparr>data = v', ver = ver (write_cell i v h j) + 1\<rparr>
            | None \<Rightarrow> write_cell i v h j) else write_cell i v h j)"
      using "2.prems" by (intro "2.IH"(2) [OF Some refl]) simp
    moreover have "i \<notin> set is" using "2.prems" by simp
    ultimately show ?thesis
      using Some by (auto simp: Let_def fun_eq_iff write_cell_def split: option.split)
  qed
qed simp

text \<open>The whole effect of a commit: every pending write is stored once, every other cell stays.\<close>

definition apply_writes :: "'v txn \<Rightarrow> 'v heap \<Rightarrow> 'v heap" where
  "apply_writes txn h = (\<lambda>j. case map_of (commit_writes txn) j of
     Some v \<Rightarrow> \<lparr>data = v, ver = ver (h j) + 1\<rparr> | None \<Rightarrow> h j)"

lemma try_commit_apply:
  assumes "wf_txn txn"
  shows "try_commit txn h =
    (if validates h (read_validators txn) then Ok (apply_writes txn h) else Err ())"
proof -
  have "distinct (sort (map fst (commit_writes txn)))" using assms by (simp add: wf_txn_def)
  note write_pass_last [OF this, of h "commit_writes txn"]
  moreover have "j \<notin> fst ` set (commit_writes txn) \<Longrightarrow> map_of (commit_writes txn) j = None" for j
    by (simp add: map_of_eq_None_iff)
  ultimately have "last (h # commit_heaps txn h) = apply_writes txn h"
    by (auto simp: commit_heaps_def apply_writes_def fun_eq_iff split: option.split)
  then show ?thesis by (simp add: try_commit_def)
qed

text \<open>A body that meets one heap only always validates there: without contention a commit needs one pass.\<close>

lemma recorded_validates: "recorded (\<lambda>_. h) vs \<Longrightarrow> validates h vs"
  by (induction vs) auto

lemma alone_done:
  assumes "tracked m" "run_on m (\<lambda>_. h) (0, txn_new) = (Done a, (t, txn))"
  shows "alone m h = Some (Ok a, apply_writes txn h)"
proof -
  note t = trackedD [OF assms(1) wf_txn_new assms(2) [unfolded run_on_def]]
  have "validates h (read_validators txn)"
    using t(2) recorded_validates by (auto simp: txn_new_def)
  then show ?thesis
    using assms(2) by (simp add: alone_def attempt_commit_def try_commit_apply [OF t(1)])
qed

lemma alone_total:
  assumes "tracked m" "fst (run_on m (\<lambda>_. h) (0, txn_new)) \<noteq> Retry"
  shows "alone m h \<noteq> None"
proof -
  obtain out t txn where body: "run_on m (\<lambda>_. h) (0, txn_new) = (out, (t, txn))" by (metis prod_cases3)
  show ?thesis
  proof (cases out)
    case (Done a)
    with alone_done [OF assms(1)] body show ?thesis by simp
  next
    case (Failed e)
    with body show ?thesis by (simp add: alone_def attempt_commit_def)
  next
    case Retry
    with body assms(2) show ?thesis by simp
  qed
qed

lemma commit_loop_skip:
  assumes "\<forall>k < n. attempt_commit m (fst (world k)) (snd (world k)) = None"
    "attempt_commit m (fst (world n)) (snd (world n)) = Some x"
  shows "commit m world = Some x"
proof -
  have "commit_loop m world k = Some x" if "k \<le> n" for k
    using that
  proof (induction rule: inc_induct)
    case base
    show ?case by (subst commit_loop.simps) (simp add: assms(2))
  next
    case (step k)
    then show ?case by (subst commit_loop.simps) (simp add: assms(1))
  qed
  then show ?thesis by (simp add: commit_def)
qed

lemma alone_read_then:
  fixes k :: "'v \<Rightarrow> ('b, 'e) outcome \<times> 'v option"
  shows "alone (read_then i k) h = (case k (data (h i)) of
     (Done b, None) \<Rightarrow> Some (Ok b, h)
   | (Done b, Some y) \<Rightarrow> Some (Ok b, write_cell i y h)
   | (Failed e, _) \<Rightarrow> Some (Err e, h)
   | (Retry, _) \<Rightarrow> None)"
proof -
  have r: "read_txn i (\<lambda>_. h) (0, txn_new) = Some (data (h i), (1, \<lparr>shadow = [i \<mapsto> data (h i)],
      validated = {i}, read_validators = [(i, ver (h i))], commit_writes = []\<rparr>))"
    by (simp add: read_txn_def run_on_def read_stm_def txn_new_def Let_def)
  show ?thesis
    by (auto simp: alone_def attempt_commit_def run_on_def read_then_def r set_txn_def write_stm_def
        ensure_validated_def try_commit_def commit_heaps_def Let_def
        split: prod.split outcome.split option.split)
qed

lemma concurrent_commitI:
  assumes "concurrent h0 hs log" "tracked m" "\<forall>t. env t \<in> set hs"
    "run_on m env (0, txn_new) = (Done a, (t, txn))" "validates (last hs) (read_validators txn)"
    "hs' = hs @ commit_heaps txn (last hs)" "log' = log @ [(m, a)]"
  shows "concurrent h0 hs' log'"
  using concurrent.commits [OF assms(1-4)] assms(5-7) by (simp add: try_commit_def)

lemma commit_returns:
  assumes "attempt_commit m (fst (world n)) (snd (world n)) \<noteq> None"
  shows "\<exists>k \<le> n. \<exists>x. attempt_commit m (fst (world k)) (snd (world k)) = Some x \<and> commit m world = Some x"
proof -
  let ?ok = "\<lambda>k. attempt_commit m (fst (world k)) (snd (world k)) \<noteq> None"
  define k where "k = (LEAST k. ?ok k)"
  have "?ok k" unfolding k_def by (rule LeastI) (rule assms)
  moreover have "\<not> ?ok j" if "j < k" for j using that unfolding k_def by (rule not_less_Least)
  moreover have "k \<le> n" unfolding k_def by (rule Least_le) (rule assms)
  ultimately show ?thesis using commit_loop_skip [of k m world] by blast
qed

lemma alone_containers:
  "alone (tqueue_offer q v) h =
     (if (case cap (data (h q)) of Some c \<Rightarrow> c \<le> length (buf (data (h q))) | None \<Rightarrow> False)
      then Some (Ok False, h)
      else Some (Ok True, write_cell q ((data (h q))\<lparr>buf := buf (data (h q)) @ [v]\<rparr>) h))"
  "alone (tqueue_take q) h = (case buf (data (h q)) of
      [] \<Rightarrow> None | x # xs \<Rightarrow> Some (Ok x, write_cell q ((data (h q))\<lparr>buf := xs\<rparr>) h))"
  "alone (tmap_get m k) h' = Some (Ok (data (h' m) k), h')"
  "alone (tmap_set m k x) h' = Some (Ok (), write_cell m ((data (h' m))(k \<mapsto> x)) h')"
  "alone (tmap_delete m k) h' = Some (Ok (), write_cell m ((data (h' m))(k := None)) h')"
  "alone (tsemaphore_acquire s) hs =
     (if data (hs s) = 0 then None else Some (Ok (), write_cell s (data (hs s) - 1) hs))"
  "alone (tsemaphore_release s) hs = Some (Ok (), write_cell s (data (hs s) + 1) hs)"
  by (simp_all add: container_read_then alone_read_then split: option.split list.split)

lemma data_write_cell [simp]: "data (write_cell i v h j) = (if i = j then v else data (h j))"
  by (simp add: write_cell_def)

text \<open>Acquisitions (\<open>True\<close>) and releases (\<open>False\<close>) of one semaphore, in commit order.\<close>

definition permit_ops :: "nat \<Rightarrow> bool list \<Rightarrow> ((u64, unit, 'e) stm \<times> unit) list" where
  "permit_ops s bs = map (\<lambda>b. (if b then tsemaphore_acquire s else tsemaphore_release s, ())) bs"

lemma serial_permits:
  assumes "serial (permit_ops s bs :: ((u64, unit, 'e) stm \<times> unit) list) h h'"
    "unat (data (h s)) + length (filter Not bs) < 2 ^ 64"
  shows "unat (data (h' s)) + length (filter id bs) = unat (data (h s)) + length (filter Not bs)"
  using assms
proof (induction bs arbitrary: h)
  case Nil
  then show ?case by (simp add: permit_ops_def)
next
  case (Cons b bs)
  then obtain h1 where
    h1: "alone (if b then tsemaphore_acquire s else tsemaphore_release s :: (u64, unit, 'e) stm) h =
      Some (Ok (), h1)" and rest: "serial (permit_ops s bs :: ((u64, unit, 'e) stm \<times> unit) list) h1 h'"
    by (simp add: permit_ops_def) blast
  show ?case
  proof (cases b)
    case True
    with h1 have nz: "data (h s) \<noteq> 0" and h1': "h1 = write_cell s (data (h s) - 1) h"
      by (auto simp: alone_containers split: if_splits)
    have "unat (data (h s) - 1) = unat (data (h s)) - 1" using nz by (simp add: unat_minus_one)
    moreover have "unat (data (h s)) > 0" using nz by (simp add: unat_gt_0)
    ultimately show ?thesis using Cons.IH [OF rest] Cons.prems(2) True h1' by simp
  next
    case False
    with h1 have h1': "h1 = write_cell s (data (h s) + 1) h" by (auto simp: alone_containers)
    have "unat (data (h s) + 1) = unat (data (h s)) + 1"
      using Cons.prems(2) False by (simp add: unat_word_ariths)
    then show ?thesis using Cons.IH [OF rest] Cons.prems(2) False h1' by simp
  qed
qed

section \<open>Properties\<close>

text \<open>
  C1. Serialisability: in every concurrent run of fewer than \<open>2 ^ 64\<close> stores, the committed
  transactions return what they return when they run one after the other in commit order, each
  alone, and the shared heap ends up the same.
\<close>

theorem stm_serialisable:
  assumes "concurrent h0 hs log" "length hs \<le> 2 ^ 64"
  shows "serial log h0 (last hs)"
  using assms by (rule concurrent_serial)

lemma stm_serialisable_witness:
  "serial [(write_stm 0 5 :: (nat, unit, unit) stm, ()), (update_stm 1 Suc, ())]
     (\<lambda>_. \<lparr>data = 7, ver = 0\<rparr>)
     (write_cell 1 8 (write_cell 0 5 (\<lambda>_. \<lparr>data = 7, ver = 0\<rparr>)))"
proof -
  let ?h = "(\<lambda>_. \<lparr>data = 7, ver = 0\<rparr>) :: nat heap"
  let ?w = "write_stm 0 5 :: (nat, unit, unit) stm"
  have a: "concurrent ?h [?h, write_cell 0 5 ?h] [(?w, ())]"
    by (rule concurrent_commitI [OF concurrent.started tracked_write, where env = "\<lambda>_. ?h" and t = 1 and
          txn = "\<lparr>shadow = [0 \<mapsto> 5], validated = {0}, read_validators = [(0, 0)], commit_writes = [(0, 5)]\<rparr>"])
      (simp_all add: run_on_def write_stm_def ensure_validated_def txn_new_def
        commit_heaps_def Let_def)
  have b: "concurrent ?h [?h, write_cell 0 5 ?h, write_cell 1 8 (write_cell 0 5 ?h)]
      [(?w, ()), (update_stm 1 Suc, ())]"
    by (rule concurrent_commitI [OF a tracked_update, where env = "\<lambda>_. ?h" and t = 1 and
          txn = "\<lparr>shadow = [1 \<mapsto> 8], validated = {1}, read_validators = [(1, 0)], commit_writes = [(1, 8)]\<rparr>"])
      (simp_all add: run_on_def update_stm_def write_stm_def read_stm_def
        ensure_validated_def txn_new_def commit_heaps_def Let_def write_cell_def)
  from stm_serialisable [OF b] show ?thesis by simp
qed

text \<open>
  C2. What one commit does to the heap: if a validator fails nothing is stored; otherwise each
  cell with a pending write gets the last value written and its version goes up by one, however
  often the body wrote it, and every other cell keeps data and version.
\<close>

theorem try_commit_effect:
  assumes "tracked m" "run_on m env (0, txn_new) = (out, (t, txn))"
  shows "try_commit txn h = (if validates h (read_validators txn)
    then Ok (\<lambda>j. case map_of (commit_writes txn) j of
               Some v \<Rightarrow> \<lparr>data = v, ver = ver (h j) + 1\<rparr> | None \<Rightarrow> h j)
    else Err ())"
  using try_commit_apply [OF trackedD(1) [OF assms(1) wf_txn_new assms(2) [unfolded run_on_def]]]
  by (simp add: apply_writes_def)

lemma try_commit_effect_witness:
  "\<exists>t txn. run_on (stm_flat_map (write_stm 0 1) (\<lambda>_. write_stm 0 2) :: (nat, unit, unit) stm)
      (\<lambda>_ _. \<lparr>data = 0, ver = 3\<rparr>) (0, txn_new) = (Done (), (t, txn)) \<and>
    try_commit txn (\<lambda>_. \<lparr>data = 0, ver = 3\<rparr>) =
      Ok (\<lambda>j. if j = 0 then \<lparr>data = 2, ver = 4\<rparr> else \<lparr>data = 0, ver = 3\<rparr>)"
proof -
  let ?m = "stm_flat_map (write_stm 0 1) (\<lambda>_. write_stm 0 2) :: (nat, unit, unit) stm"
  let ?h = "(\<lambda>_. \<lparr>data = 0, ver = 3\<rparr>) :: nat heap"
  obtain out t txn where r: "run_on ?m (\<lambda>_. ?h) (0, txn_new) = (out, (t, txn))" by (metis prod_cases3)
  have "tracked ?m" by (intro txn_intros)
  from try_commit_effect [OF this r, of ?h] r show ?thesis
    by (auto simp: run_on_def stm_flat_map_def write_stm_def ensure_validated_def txn_new_def
        fun_eq_iff)
qed

text \<open>
  C3. Progress: as soon as one pass of \<open>commit\<close> runs undisturbed (its body and its commit meet the
  same heap) and the body, in that pass, does not ask to retry, \<open>commit\<close> returns. It returns the
  result of the first pass that completes, which is that pass or an earlier one. A take from a queue
  that is empty at first returns once the queue has an element.
\<close>

theorem commit_undisturbed_returns:
  assumes "tracked m" "world n = (\<lambda>_. h, h)" "fst (run_on m (\<lambda>_. h) (0, txn_new)) \<noteq> Retry"
  shows "\<exists>k \<le> n. \<exists>x. attempt_commit m (fst (world k)) (snd (world k)) = Some x \<and> commit m world = Some x"
  using commit_returns [of m world n] alone_total [OF assms(1,3)] assms(2) by (simp add: alone_def)

lemma commit_undisturbed_returns_witness:
  "\<exists>x. commit (tqueue_take 0 :: (nat queue_state, nat, unit) stm)
     (\<lambda>k. let h = (\<lambda>_. \<lparr>data = \<lparr>buf = if k < 3 then [] else [7], cap = None\<rparr>, ver = of_nat k\<rparr>) in (\<lambda>_. h, h)) = Some x"
  using commit_undisturbed_returns [where m = "tqueue_take 0 :: (nat queue_state, nat, unit) stm" and n = 3
      and h = "\<lambda>_. \<lparr>data = \<lparr>buf = [7], cap = None\<rparr>, ver = 3\<rparr>"
      and world = "\<lambda>k. let h = (\<lambda>_. \<lparr>data = \<lparr>buf = if k < 3 then [] else [7], cap = None\<rparr>, ver = of_nat k\<rparr>) in (\<lambda>_. h, h)"]
    tracked_containers(2) [of 0]
  by (fastforce simp: Let_def run_on_def tqueue_take_def read_txn_def read_stm_def txn_new_def)

text \<open>
  The transactional queue, run alone, is a bounded FIFO buffer: an offer appends unless the
  buffer holds \<open>cap\<close> elements, and then changes nothing; a take removes the oldest element, and
  blocks (never commits) on an empty buffer.
\<close>

theorem tqueue_fifo:
  "alone (tqueue_offer q v) h =
     (if (case cap (data (h q)) of Some c \<Rightarrow> c \<le> length (buf (data (h q))) | None \<Rightarrow> False)
      then Some (Ok False, h)
      else Some (Ok True, write_cell q ((data (h q))\<lparr>buf := buf (data (h q)) @ [v]\<rparr>) h)) \<and>
   alone (tqueue_take q) h = (case buf (data (h q)) of
      [] \<Rightarrow> None | x # xs \<Rightarrow> Some (Ok x, write_cell q ((data (h q))\<lparr>buf := xs\<rparr>) h))"
  by (simp add: alone_containers)

text \<open>
  Permits of a transactional semaphore are conserved in every concurrent run of acquisitions
  and releases that cannot overflow \<open>usize\<close>: permits left plus permits taken equal the permits
  there were plus the permits given back, so the semaphore never hands out one too many.
\<close>

theorem tsemaphore_conserves:
  assumes "concurrent h0 hs (permit_ops s bs)" "length hs \<le> 2 ^ 64"
    "unat (data (h0 s)) + length (filter Not bs) < 2 ^ 64"
  shows "unat (data (last hs s)) + length (filter id bs) =
    unat (data (h0 s)) + length (filter Not bs)"
  using serial_permits [OF concurrent_serial [OF assms(1,2)] assms(3)] .

lemma tsemaphore_conserves_witness:
  "unat (data (last [\<lambda>_. \<lparr>data = 2, ver = 0\<rparr>, write_cell 0 (1 :: u64) (\<lambda>_. \<lparr>data = 2, ver = 0\<rparr>)] 0)) +
    length (filter id [True]) = unat (data ((\<lambda>_. \<lparr>data = 2 :: u64, ver = 0\<rparr>) (0 :: nat))) + length (filter Not [True])"
proof -
  let ?h = "(\<lambda>_. \<lparr>data = 2, ver = 0\<rparr>) :: u64 heap"
  let ?m = "tsemaphore_acquire 0 :: (u64, unit, unit) stm"
  have "concurrent ?h [?h, write_cell 0 1 ?h] [(?m, ())]"
    by (rule concurrent_commitI [OF concurrent.started tracked_containers(6), where env = "\<lambda>_. ?h" and t = 1 and
          txn = "\<lparr>shadow = [0 \<mapsto> 1], validated = {0}, read_validators = [(0, 0)], commit_writes = [(0, 1)]\<rparr>"])
      (simp_all add: tsemaphore_acquire_def run_on_def read_txn_def read_stm_def set_txn_def
        write_stm_def ensure_validated_def txn_new_def try_commit_def commit_heaps_def Let_def)
  then have "concurrent ?h [?h, write_cell 0 1 ?h] (permit_ops 0 [True] :: ((u64, unit, unit) stm \<times> unit) list)"
    by (simp add: permit_ops_def)
  from tsemaphore_conserves [OF this] show ?thesis by simp
qed

text \<open>
  \<open>or_else\<close> does not undo the left branch: what the left branch wrote before it asked to retry
  stays in the transaction log and is committed with the right branch.
\<close>

theorem or_else_commits_left_writes:
  "alone (stm_or_else (stm_flat_map (write_stm i v) (\<lambda>_. stm_retry)) (stm_succeed ())) h =
     Some (Ok (), write_cell i v h)"
  by (simp add: alone_def attempt_commit_def run_on_def stm_or_else_def stm_flat_map_def
      write_stm_def ensure_validated_def txn_new_def stm_retry_def stm_succeed_def try_commit_def
      commit_heaps_def Let_def)

text \<open>A body that fails when it reads different values from two cells.\<close>

definition differ :: "nat \<Rightarrow> nat \<Rightarrow> (nat, unit, unit) stm" where
  "differ i j = stm_flat_map (read_stm i) (\<lambda>x. stm_flat_map (read_stm j) (\<lambda>y.
     if x = y then stm_succeed () else stm_fail ()))"

text \<open>
  A failing body is not validated: a body that fails only when two cells differ fails against
  a run in which the cells are equal before and after the one concurrent commit, although it
  succeeds at either of these heaps when it runs alone.
\<close>

theorem stale_failure_escapes:
  "let h0 = (\<lambda>_. \<lparr>data = 0, ver = 0\<rparr>);
       h1 = write_cell 1 7 (write_cell 0 7 h0);
       env = (\<lambda>t. if t = 0 then h0 else h1)
   in alone (stm_flat_map (write_stm 0 7) (\<lambda>_. write_stm 1 7) :: (nat, unit, unit) stm) h0 = Some (Ok (), h1) \<and>
      alone (differ 0 1) h0 = Some (Ok (), h0) \<and> alone (differ 0 1) h1 = Some (Ok (), h1) \<and>
      attempt_commit (differ 0 1) env h1 = Some (Err (), h1)"
  by (simp add: Let_def differ_def alone_def attempt_commit_def run_on_def stm_flat_map_def
      write_stm_def read_stm_def ensure_validated_def txn_new_def stm_fail_def stm_succeed_def
      try_commit_def commit_heaps_def write_cell_def)

end
