(* ===== verification/Collections.thy ===== *)
theory Collections
  imports Prelude
begin

text \<open>
  \<open>crates/id_effect/src/collections\<close>: the module functions over persistent hash maps
  (\<open>hash_map.rs\<close>), the mutable list (\<open>mutable_list.rs\<close>) and the mutable queue
  (\<open>mutable_queue.rs\<close>).

  \<open>im::HashMap\<close> is code of another package: it is the argument \<open>im\<close> of the definitions below, a
  record of the operations the repository calls, and \<open>hash_map_laws\<close> states what its documentation
  says of them. The mutex-guarded \<open>VecDeque\<close>s are lists, front first; each operation holds the
  mutex throughout and is one atomic state change.
\<close>

section \<open>Persistent hash maps\<close>

record ('k, 'v, 'm) im_hash_map =
  im_new :: 'm
  im_get :: "'m \<Rightarrow> 'k \<rightharpoonup> 'v"
  im_update :: "'m \<Rightarrow> 'k \<Rightarrow> 'v \<Rightarrow> 'm"
  im_without :: "'m \<Rightarrow> 'k \<Rightarrow> 'm"
  im_alter :: "('v option \<Rightarrow> 'v option) \<Rightarrow> 'k \<Rightarrow> 'm \<Rightarrow> 'm"
  im_union :: "'m \<Rightarrow> 'm \<Rightarrow> 'm"
  im_iter :: "'m \<Rightarrow> ('k \<times> 'v) list"

definition hash_map_laws :: "('k, 'v, 'm) im_hash_map \<Rightarrow> bool" where
  "hash_map_laws im \<longleftrightarrow>
     im_get im (im_new im) = Map.empty \<and>
     (\<forall>m k v. im_get im (im_update im m k v) = (im_get im m)(k \<mapsto> v)) \<and>
     (\<forall>m k. im_get im (im_without im m k) = (im_get im m)(k := None)) \<and>
     (\<forall>f k m. im_get im (im_alter im f k m) = (im_get im m)(k := f (im_get im m k))) \<and>
     (\<forall>l r. im_get im (im_union im l r) = im_get im r ++ im_get im l) \<and>
     (\<forall>m. distinct (map fst (im_iter im m)) \<and> map_of (im_iter im m) = im_get im m)"

definition hash_empty :: "('k, 'v, 'm) im_hash_map \<Rightarrow> 'm" where
  "hash_empty im = im_new im"

definition hash_from_iter :: "('k, 'v, 'm) im_hash_map \<Rightarrow> ('k \<times> 'v) list \<Rightarrow> 'm" where
  "hash_from_iter im kvs = foldl (\<lambda>m kv. im_update im m (fst kv) (snd kv)) (im_new im) kvs"

definition hash_get :: "('k, 'v, 'm) im_hash_map \<Rightarrow> 'm \<Rightarrow> 'k \<rightharpoonup> 'v" where
  "hash_get im m k = im_get im m k"

definition hash_has :: "('k, 'v, 'm) im_hash_map \<Rightarrow> 'm \<Rightarrow> 'k \<Rightarrow> bool" where
  "hash_has im m k \<longleftrightarrow> im_get im m k \<noteq> None"

definition hash_set :: "('k, 'v, 'm) im_hash_map \<Rightarrow> 'm \<Rightarrow> 'k \<Rightarrow> 'v \<Rightarrow> 'm" where
  "hash_set im m k v = im_update im m k v"

definition hash_remove :: "('k, 'v, 'm) im_hash_map \<Rightarrow> 'm \<Rightarrow> 'k \<Rightarrow> 'm" where
  "hash_remove im m k = im_without im m k"

definition hash_modify ::
  "('k, 'v, 'm) im_hash_map \<Rightarrow> 'm \<Rightarrow> 'k \<Rightarrow> ('v option \<Rightarrow> 'v option) \<Rightarrow> 'm" where
  "hash_modify im m k f = im_alter im f k m"

definition hash_modify_at :: "('k, 'v, 'm) im_hash_map \<Rightarrow> 'm \<Rightarrow> 'k \<Rightarrow> ('v \<Rightarrow> 'v) \<Rightarrow> 'm" where
  "hash_modify_at im m k f = (case im_get im m k of
     Some v \<Rightarrow> im_update im m k (f v) | None \<Rightarrow> m)"

definition hash_filter_serial ::
  "('k, 'v, 'm) im_hash_map \<Rightarrow> 'm \<Rightarrow> ('k \<Rightarrow> 'v \<Rightarrow> bool) \<Rightarrow> 'm" where
  "hash_filter_serial im m P = hash_from_iter im (filter (\<lambda>(k, v). P k v) (im_iter im m))"

definition hash_reduce ::
  "('k, 'v, 'm) im_hash_map \<Rightarrow> 'm \<Rightarrow> 'acc \<Rightarrow> ('acc \<Rightarrow> 'k \<times> 'v \<Rightarrow> 'acc) \<Rightarrow> 'acc" where
  "hash_reduce im m init f = foldl f init (im_iter im m)"

definition hash_union :: "('k, 'v, 'm) im_hash_map \<Rightarrow> 'm \<Rightarrow> 'm \<Rightarrow> 'm" where
  "hash_union im l r = im_union im l r"

definition hash_keys :: "('k, 'v, 'm) im_hash_map \<Rightarrow> 'm \<Rightarrow> 'k list" where
  "hash_keys im m = map fst (im_iter im m)"

definition hash_values :: "('k, 'v, 'm) im_hash_map \<Rightarrow> 'm \<Rightarrow> 'v list" where
  "hash_values im m = map snd (im_iter im m)"

lemma hash_map_lawsD:
  assumes "hash_map_laws im"
  shows "im_get im (im_new im) = Map.empty"
    and "im_get im (im_update im m k v) = (im_get im m)(k \<mapsto> v)"
    and "im_get im (im_without im m k) = (im_get im m)(k := None)"
    and "im_get im (im_alter im f k m) = (im_get im m)(k := f (im_get im m k))"
    and "im_get im (im_union im l r) = im_get im r ++ im_get im l"
    and "distinct (map fst (im_iter im m))"
    and "map_of (im_iter im m) = im_get im m"
  using assms unfolding hash_map_laws_def by blast+

lemma hash_from_iter_get:
  assumes "hash_map_laws im" "distinct (map fst kvs)"
  shows "hash_get im (hash_from_iter im kvs) = map_of kvs"
proof -
  have "im_get im (foldl (\<lambda>m kv. im_update im m (fst kv) (snd kv)) m kvs) = im_get im m ++ map_of kvs"
    if "distinct (map fst kvs)" for m kvs
    using that
  proof (induction kvs arbitrary: m)
    case (Cons kv kvs)
    then have "map_of kvs (fst kv) = None" by (simp add: map_of_eq_None_iff)
    with Cons show ?case
      by (auto simp: hash_map_lawsD [OF assms(1)] fun_eq_iff map_add_def split: option.split)
  qed simp
  then show ?thesis
    using assms by (simp add: hash_get_def fun_eq_iff hash_from_iter_def hash_map_lawsD)
qed

lemma map_of_filter_pairs:
  assumes "distinct (map fst kvs)"
  shows "map_of (filter (\<lambda>(k, v). P k v) kvs) k =
    (case map_of kvs k of Some v \<Rightarrow> if P k v then Some v else None | None \<Rightarrow> None)"
  using assms
proof (induction kvs)
  case (Cons kv kvs)
  then have "map_of kvs (fst kv) = None" by (simp add: map_of_eq_None_iff)
  with Cons show ?case by (cases kv) auto
qed simp

lemma hash_filter_get:
  assumes "hash_map_laws im"
  shows "hash_get im (hash_filter_serial im m P) k =
    (case hash_get im m k of Some v \<Rightarrow> if P k v then Some v else None | None \<Rightarrow> None)"
proof -
  let ?kvs = "im_iter im m"
  note d = hash_map_lawsD(6) [OF assms, of m]
  have "distinct (map fst (filter (\<lambda>(k, v). P k v) ?kvs))"
    using d by (rule distinct_map_filter)
  moreover have "map_of (filter (\<lambda>(k, v). P k v) ?kvs) k =
      (case map_of ?kvs k of Some v \<Rightarrow> if P k v then Some v else None | None \<Rightarrow> None)"
    using d by (rule map_of_filter_pairs)
  ultimately show ?thesis
    unfolding hash_filter_serial_def
    by (simp add: hash_from_iter_get [OF assms] hash_map_lawsD(7) [OF assms] hash_get_def)
qed

text \<open>Association lists satisfy the laws: the hypothesis can be met.\<close>

definition alist_map :: "('k, 'v, ('k \<times> 'v) list) im_hash_map" where
  "alist_map = \<lparr>im_new = [], im_get = map_of, im_update = (\<lambda>m k v. (k, v) # filter (\<lambda>kv. fst kv \<noteq> k) m),
     im_without = (\<lambda>m k. filter (\<lambda>kv. fst kv \<noteq> k) m),
     im_alter = (\<lambda>f k m. case f (map_of m k) of
        None \<Rightarrow> filter (\<lambda>kv. fst kv \<noteq> k) m | Some v \<Rightarrow> (k, v) # filter (\<lambda>kv. fst kv \<noteq> k) m),
     im_union = (\<lambda>l r. l @ r), im_iter = (\<lambda>m. map (\<lambda>k. (k, the (map_of m k))) (remdups (map fst m)))\<rparr>"

lemma map_of_filter_neq: "map_of (filter (\<lambda>kv. fst kv \<noteq> k) m) = (map_of m)(k := None)"
  by (induction m) (auto simp: fun_eq_iff)

lemma alist_map_laws: "hash_map_laws alist_map"
proof -
  have "map_of (map (\<lambda>k. (k, the (map_of m k))) (remdups (map fst m))) = map_of m" for m :: "('a \<times> 'b) list"
  proof
    fix k
    show "map_of (map (\<lambda>k. (k, the (map_of m k))) (remdups (map fst m))) k = map_of m k"
    proof (cases "map_of m k")
      case None
      then show ?thesis
        by (simp add: map_of_map_restrict restrict_map_def o_def) (simp add: map_of_eq_None_iff)
    next
      case (Some v)
      then have "k \<in> fst ` set m" by (metis domI dom_map_of_conv_image_fst)
      with Some show ?thesis by (simp add: map_of_map_restrict restrict_map_def o_def)
    qed
  qed
  then show ?thesis
    by (auto simp: hash_map_laws_def alist_map_def map_of_filter_neq fun_eq_iff o_def distinct_map
        inj_on_def split: option.split)
qed

section \<open>Mutable list\<close>

type_synonym 'a mutable_list = "'a list"

definition list_make :: "'a mutable_list" where "list_make = []"

definition list_append :: "'a mutable_list \<Rightarrow> 'a \<Rightarrow> 'a mutable_list" where
  "list_append l v = l @ [v]"

definition list_prepend :: "'a mutable_list \<Rightarrow> 'a \<Rightarrow> 'a mutable_list" where
  "list_prepend l v = v # l"

definition list_head :: "'a mutable_list \<Rightarrow> 'a option" where
  "list_head l = (case l of [] \<Rightarrow> None | x # _ \<Rightarrow> Some x)"

definition list_tail :: "'a mutable_list \<Rightarrow> 'a list" where
  "list_tail l = (if length l \<le> 1 then [] else drop 1 l)"

definition list_last :: "'a mutable_list \<Rightarrow> 'a option" where
  "list_last l = (if l = [] then None else Some (last l))"

definition list_pop :: "'a mutable_list \<Rightarrow> 'a option \<times> 'a mutable_list" where
  "list_pop l = (if l = [] then (None, l) else (Some (last l), butlast l))"

definition list_shift :: "'a mutable_list \<Rightarrow> 'a option \<times> 'a mutable_list" where
  "list_shift l = (case l of [] \<Rightarrow> (None, l) | x # xs \<Rightarrow> (Some x, xs))"

definition list_to_chunk :: "'a mutable_list \<Rightarrow> 'a list" where
  "list_to_chunk l = l"

definition list_length :: "'a mutable_list \<Rightarrow> nat" where
  "list_length l = length l"

section \<open>Mutable queue\<close>

record 'a mutable_queue =
  items :: "'a list"
  capacity :: "nat option"

definition queue_unbounded :: "'a mutable_queue" where
  "queue_unbounded = \<lparr>items = [], capacity = None\<rparr>"

definition queue_bounded :: "nat \<Rightarrow> 'a mutable_queue" where
  "queue_bounded c = \<lparr>items = [], capacity = Some c\<rparr>"

definition queue_length :: "'a mutable_queue \<Rightarrow> nat" where
  "queue_length q = length (items q)"

definition queue_is_empty :: "'a mutable_queue \<Rightarrow> bool" where
  "queue_is_empty q \<longleftrightarrow> queue_length q = 0"

definition queue_is_full :: "'a mutable_queue \<Rightarrow> bool" where
  "queue_is_full q = (case capacity q of Some c \<Rightarrow> c \<le> queue_length q | None \<Rightarrow> False)"

definition queue_offer :: "'a mutable_queue \<Rightarrow> 'a \<Rightarrow> bool \<times> 'a mutable_queue" where
  "queue_offer q v =
     (if (case capacity q of Some c \<Rightarrow> c \<le> length (items q) | None \<Rightarrow> False) then (False, q)
      else (True, q\<lparr>items := items q @ [v]\<rparr>))"

fun queue_offer_all :: "'a mutable_queue \<Rightarrow> 'a list \<Rightarrow> nat \<times> 'a mutable_queue" where
  "queue_offer_all q [] = (0, q)"
| "queue_offer_all q (v # vs) =
     (case queue_offer q v of
        (False, q') \<Rightarrow> (0, q')
      | (True, q') \<Rightarrow> (case queue_offer_all q' vs of (n, q'') \<Rightarrow> (Suc n, q'')))"

definition queue_poll :: "'a mutable_queue \<Rightarrow> 'a \<Rightarrow> 'a \<times> 'a mutable_queue" where
  "queue_poll q dflt = (case items q of
     [] \<Rightarrow> (dflt, q) | x # xs \<Rightarrow> (x, q\<lparr>items := xs\<rparr>))"

fun queue_poll_up_to :: "'a mutable_queue \<Rightarrow> nat \<Rightarrow> 'a list \<times> 'a mutable_queue" where
  "queue_poll_up_to q 0 = ([], q)"
| "queue_poll_up_to q (Suc n) = (case items q of
     [] \<Rightarrow> ([], q)
   | x # xs \<Rightarrow> (case queue_poll_up_to (q\<lparr>items := xs\<rparr>) n of (out, q') \<Rightarrow> (x # out, q')))"

section \<open>Bounded buffers\<close>

text \<open>
  The contract the queues of the workspace share: a sequence of contents and an optional bound;
  an offer appends unless the bound is reached, and then changes nothing.
\<close>

locale bounded_buffer =
  fixes content :: "'s \<Rightarrow> 'a list"
    and bound :: "'s \<Rightarrow> nat option"
    and offer :: "'s \<Rightarrow> 'a \<Rightarrow> bool \<times> 's"
  assumes offer_full: "bound s = Some c \<Longrightarrow> c \<le> length (content s) \<Longrightarrow> offer s a = (False, s)"
    and offer_room: "(case bound s of Some c \<Rightarrow> length (content s) < c | None \<Rightarrow> True) \<Longrightarrow>
      fst (offer s a) \<and> content (snd (offer s a)) = content s @ [a] \<and> bound (snd (offer s a)) = bound s"
begin

definition within :: "'s \<Rightarrow> bool" where
  "within s \<longleftrightarrow> (case bound s of Some c \<Rightarrow> length (content s) \<le> c | None \<Rightarrow> True)"

definition room :: "'s \<Rightarrow> nat \<Rightarrow> nat" where
  "room s n = (case bound s of Some c \<Rightarrow> min n (c - length (content s)) | None \<Rightarrow> n)"

definition offers :: "'s \<Rightarrow> 'a list \<Rightarrow> 's" where
  "offers = foldl (\<lambda>s a. snd (offer s a))"

lemma offer_bound: "bound (snd (offer s a)) = bound s"
proof (cases "bound s")
  case None
  then show ?thesis using offer_room [of s a] by simp
next
  case (Some c)
  then show ?thesis
    using offer_room [of s a] offer_full [of s c a] by (cases "c \<le> length (content s)") auto
qed

lemma offer_content:
  "content (snd (offer s a)) = (if 0 < room s 1 then content s @ [a] else content s)"
proof (cases "bound s")
  case None
  then show ?thesis using offer_room [of s a] by (simp add: room_def)
next
  case (Some c)
  then show ?thesis
    using offer_room [of s a] offer_full [of s c a]
    by (cases "c \<le> length (content s)") (auto simp: room_def)
qed

lemma offer_within: "within s \<Longrightarrow> within (snd (offer s a))"
  using offer_bound [of s a] offer_content [of s a]
  by (auto simp: within_def room_def split: option.splits if_splits)

lemma offers_content:
  "content (offers s xs) = content s @ take (room s (length xs)) xs"
proof (induction xs arbitrary: s)
  case Nil
  show ?case by (simp add: offers_def)
next
  case (Cons x xs)
  let ?s = "snd (offer s x)"
  have "content (offers s (x # xs)) = content ?s @ take (room ?s (length xs)) xs"
    using Cons.IH [of ?s] by (simp add: offers_def)
  then show ?case
    using offer_content [of s x] offer_bound [of s x]
    by (auto simp: room_def min_def take_Cons' split: option.splits if_splits)
qed

end

interpretation mutable_queue: bounded_buffer items capacity queue_offer
  by unfold_locales (auto simp: queue_offer_def split: option.splits)

lemma queue_offer_all_offers:
  "snd (queue_offer_all q vs) = mutable_queue.offers q vs \<and>
   fst (queue_offer_all q vs) = mutable_queue.room q (length vs)"
proof (induction q vs rule: queue_offer_all.induct)
  case (1 q)
  show ?case by (simp add: mutable_queue.offers_def mutable_queue.room_def split: option.split)
next
  case (2 q v vs)
  show ?case
  proof (cases "fst (queue_offer q v)")
    case False
    then obtain c where c: "capacity q = Some c" "c \<le> length (items q)"
      by (auto simp: queue_offer_def split: option.splits if_splits)
    then have full: "queue_offer q a = (False, q)" for a by (simp add: queue_offer_def)
    have "foldl (\<lambda>s a. snd (queue_offer s a)) q vs = q" for vs
      by (induction vs) (simp_all add: full)
    with c full show ?thesis by (simp add: mutable_queue.offers_def mutable_queue.room_def)
  next
    case True
    then have eq: "queue_offer q v = (True, q\<lparr>items := items q @ [v]\<rparr>)"
      by (auto simp: queue_offer_def split: option.splits if_splits)
    have room: "mutable_queue.room q (Suc (length vs)) =
        Suc (mutable_queue.room (q\<lparr>items := items q @ [v]\<rparr>) (length vs))"
      using True by (auto simp: queue_offer_def mutable_queue.room_def split: option.splits if_splits)
    show ?thesis
      using 2 [OF eq [symmetric] refl] eq room
      by (simp add: mutable_queue.offers_def case_prod_unfold)
  qed
qed

lemma queue_poll_up_to_take:
  "queue_poll_up_to q n = (take n (items q), q\<lparr>items := drop n (items q)\<rparr>)"
  by (induction q n rule: queue_poll_up_to.induct) (auto split: list.split)

end
