(* ===== verification/Graphs.thy ===== *)
theory Graphs
  imports Collections
begin

text \<open>
  \<open>crates/id_effect_graph\<close> (\<open>dag.rs\<close>, \<open>topological_sort.rs\<close>, \<open>error.rs\<close>): explicit dependency graphs
  and Kahn's topological sort.

  A \<open>BTreeSet\<close> of ids is the ascending list of its elements, a \<open>BTreeMap\<close> is a map that is iterated
  along that list. Node ids, \<open>String\<close>s in the code, are any linearly ordered type. \<open>None\<close> is a panic
  (an \<open>expect\<close> that fails, or \<open>usize\<close> underflow); the theorems show that it does not happen.
\<close>

datatype 'n graph_error =
    DuplicateNode 'n
  | MissingDependency 'n 'n
  | ConflictingProvider 'n 'n 'n
  | CycleDetected "'n list"
  | UnknownNode 'n

record 'n dag =
  nodes :: "'n list"
  edges :: "('n \<times> 'n) list"

definition dag_new :: "'n dag" where "dag_new = \<lparr>nodes = [], edges = []\<rparr>"

definition add_node :: "'n::linorder dag \<Rightarrow> 'n \<Rightarrow> (unit, 'n graph_error) result \<times> 'n dag" where
  "add_node g n = (if n \<in> set (nodes g) then (Err (DuplicateNode n), g)
     else (Ok (), g\<lparr>nodes := insort n (nodes g)\<rparr>))"

definition add_edge :: "'n dag \<Rightarrow> 'n \<Rightarrow> 'n \<Rightarrow> (unit, 'n graph_error) result \<times> 'n dag" where
  "add_edge g dependency dependent =
     (if dependency \<notin> set (nodes g) then (Err (UnknownNode dependency), g)
      else if dependent \<notin> set (nodes g) then (Err (UnknownNode dependent), g)
      else if dependency \<noteq> dependent
      then (Ok (), g\<lparr>edges := edges g @ [(dependency, dependent)]\<rparr>)
      else (Ok (), g))"

definition node_count :: "'n dag \<Rightarrow> nat" where "node_count g = length (nodes g)"
definition edge_count :: "'n dag \<Rightarrow> nat" where "edge_count g = length (edges g)"

section \<open>Kahn's algorithm\<close>

text \<open>The loop that fills \<open>adjacency\<close> and \<open>indegree\<close>.\<close>

fun add_edges ::
  "('n \<times> 'n) list \<Rightarrow> ('n \<rightharpoonup> 'n list) \<Rightarrow> ('n \<rightharpoonup> nat) \<Rightarrow> (('n \<rightharpoonup> 'n list) \<times> ('n \<rightharpoonup> nat)) option" where
  "add_edges [] adjacency indegree = Some (adjacency, indegree)"
| "add_edges ((from, to) # es) adjacency indegree =
     (case adjacency from of None \<Rightarrow> None
      | Some vs \<Rightarrow> (case indegree to of None \<Rightarrow> None
          | Some k \<Rightarrow> add_edges es (adjacency(from \<mapsto> vs @ [to])) (indegree(to \<mapsto> k + 1))))"

text \<open>The inner loop over the dependents of the node just emitted.\<close>

fun release :: "'n list \<Rightarrow> ('n \<rightharpoonup> nat) \<Rightarrow> 'n list \<Rightarrow> (('n \<rightharpoonup> nat) \<times> 'n list) option" where
  "release [] indegree queue = Some (indegree, queue)"
| "release (d # ds) indegree queue =
     (case indegree d of None \<Rightarrow> None
      | Some k \<Rightarrow>
          (if k = 0 then None
           else release ds (indegree(d \<mapsto> k - 1)) (if k - 1 = 0 then queue @ [d] else queue)))"

partial_function (option) kahn_loop ::
  "('n \<Rightarrow> 'n list) \<Rightarrow> ('n \<rightharpoonup> nat) \<Rightarrow> 'n list \<Rightarrow> 'n list \<Rightarrow> (('n \<rightharpoonup> nat) \<times> 'n list) option" where
  "kahn_loop dependents indegree queue order = (case queue of
     [] \<Rightarrow> Some (indegree, order)
   | x # queue' \<Rightarrow>
       (case release (dependents x) indegree queue' of
          None \<Rightarrow> None
        | Some (indegree', queue'') \<Rightarrow> kahn_loop dependents indegree' queue'' (order @ [x])))"

definition sort_explicit ::
  "'n list \<Rightarrow> ('n \<times> 'n) list \<Rightarrow> ('n list, 'n graph_error) result option" where
  "sort_explicit ns es =
     (case add_edges es (\<lambda>n. if n \<in> set ns then Some [] else None)
                        (\<lambda>n. if n \<in> set ns then Some 0 else None) of
        None \<Rightarrow> None
      | Some (adjacency, indegree) \<Rightarrow>
          (case kahn_loop (\<lambda>x. case adjacency x of Some vs \<Rightarrow> vs | None \<Rightarrow> []) indegree
                  (filter (\<lambda>n. indegree n = Some 0) ns) [] of
             None \<Rightarrow> None
           | Some (indegree', order) \<Rightarrow>
               (if length order \<noteq> length ns
                then Some (Err (CycleDetected
                       (filter (\<lambda>n. case indegree' n of Some d \<Rightarrow> 0 < d | None \<Rightarrow> False) ns)))
                else Some (Ok order))))"

definition dag_sort :: "'n dag \<Rightarrow> ('n list, 'n graph_error) result option" where
  "dag_sort g = sort_explicit (nodes g) (edges g)"

section \<open>Capability-style resolution\<close>

record 'n dependency_node =
  node_id :: 'n
  requires :: "'n list"
  provides :: 'n

definition dependency_node_new :: "'n \<Rightarrow> 'n list \<Rightarrow> 'n \<Rightarrow> 'n dependency_node" where
  "dependency_node_new i reqs prov = \<lparr>node_id = i, requires = reqs, provides = prov\<rparr>"

fun check_duplicates :: "'n set \<Rightarrow> 'n dependency_node list \<Rightarrow> (unit, 'n graph_error) result" where
  "check_duplicates ids [] = Ok ()"
| "check_duplicates ids (n # ns) =
     (if node_id n \<in> ids then Err (DuplicateNode (node_id n))
      else check_duplicates (insert (node_id n) ids) ns)"

fun provider_map ::
  "('n \<rightharpoonup> 'n) \<Rightarrow> 'n dependency_node list \<Rightarrow> ('n \<rightharpoonup> 'n, 'n graph_error) result" where
  "provider_map m [] = Ok m"
| "provider_map m (n # ns) = (case m (provides n) of
     Some existing \<Rightarrow> Err (ConflictingProvider (provides n) existing (node_id n))
   | None \<Rightarrow> provider_map (m(provides n \<mapsto> node_id n)) ns)"

fun required_edges ::
  "('n \<rightharpoonup> 'n) \<Rightarrow> 'n \<Rightarrow> 'n list \<Rightarrow> (('n \<times> 'n) list, 'n graph_error) result" where
  "required_edges m i [] = Ok []"
| "required_edges m i (r # rs) = (case m r of
     None \<Rightarrow> Err (MissingDependency i r)
   | Some p \<Rightarrow> result_map (\<lambda>es. if p \<noteq> i then (p, i) # es else es) (required_edges m i rs))"

fun dependency_edges ::
  "('n \<rightharpoonup> 'n) \<Rightarrow> 'n dependency_node list \<Rightarrow> (('n \<times> 'n) list, 'n graph_error) result" where
  "dependency_edges m [] = Ok []"
| "dependency_edges m (n # ns) =
     result_bind (required_edges m (node_id n) (requires n))
       (\<lambda>es. result_map (\<lambda>rest. es @ rest) (dependency_edges m ns))"

text \<open>\<open>None\<close> is a panic of the sort; the checks before it return early as in the code.\<close>

definition topological_sort ::
  "'n::linorder dependency_node list \<Rightarrow> ('n list, 'n graph_error) result option" where
  "topological_sort ns = (case check_duplicates {} ns of
     Inl e \<Rightarrow> Some (Err e)
   | Inr _ \<Rightarrow> (case provider_map Map.empty ns of
       Inl e \<Rightarrow> Some (Err e)
     | Inr m \<Rightarrow> (case dependency_edges m ns of
         Inl e \<Rightarrow> Some (Err e)
       | Inr es \<Rightarrow> sort_explicit (sort (map node_id ns)) es)))"

section \<open>The specification of a topological order\<close>

definition graph_ok :: "'n list \<Rightarrow> ('n \<times> 'n) list \<Rightarrow> bool" where
  "graph_ok ns es \<longleftrightarrow> distinct ns \<and> set es \<subseteq> set ns \<times> set ns"

definition precedes :: "'n list \<Rightarrow> 'n \<Rightarrow> 'n \<Rightarrow> bool" where
  "precedes xs a b \<longleftrightarrow> (\<exists>i j. i < j \<and> j < length xs \<and> xs ! i = a \<and> xs ! j = b)"

definition topological :: "'n list \<Rightarrow> ('n \<times> 'n) list \<Rightarrow> 'n list \<Rightarrow> bool" where
  "topological ns es order \<longleftrightarrow>
     distinct order \<and> set order = set ns \<and> (\<forall>(a, b) \<in> set es. precedes order a b)"

text \<open>The nodes on a cycle or reachable from one.\<close>

definition behind_cycle :: "('n \<times> 'n) list \<Rightarrow> 'n set" where
  "behind_cycle es = {v. \<exists>c. (c, c) \<in> (set es)\<^sup>+ \<and> (c, v) \<in> (set es)\<^sup>*}"

section \<open>Correctness of the loop\<close>

definition indeg :: "('n \<times> 'n) list \<Rightarrow> 'n set \<Rightarrow> 'n \<Rightarrow> nat" where
  "indeg es emitted v = length (filter (\<lambda>e. snd e = v \<and> fst e \<notin> emitted) es)"

definition succs :: "('n \<times> 'n) list \<Rightarrow> 'n \<Rightarrow> 'n list" where
  "succs es x = map snd (filter (\<lambda>e. fst e = x) es)"

definition indegree_map :: "'n set \<Rightarrow> ('n \<Rightarrow> nat) \<Rightarrow> 'n \<rightharpoonup> nat" where
  "indegree_map N f = (\<lambda>v. if v \<in> N then Some (f v) else None)"

lemma add_edges_ok:
  assumes "set es \<subseteq> N \<times> N"
  shows "add_edges es (\<lambda>v. if v \<in> N then Some (g v) else None) (indegree_map N f) =
    Some (\<lambda>v. if v \<in> N then Some (g v @ succs es v) else None, indegree_map N (\<lambda>v. f v + indeg es {} v))"
  using assms
proof (induction es arbitrary: f g)
  case Nil
  show ?case by (auto simp: succs_def indeg_def indegree_map_def fun_eq_iff)
next
  case (Cons e es)
  obtain a b where e: "e = (a, b)" by fastforce
  with Cons.prems have N: "a \<in> N" "b \<in> N" by auto
  have adj: "(\<lambda>v. if v \<in> N then Some (g v) else None)(a \<mapsto> g a @ [b]) =
      (\<lambda>v. if v \<in> N then Some ((g(a := g a @ [b])) v) else None)" using N by auto
  have ind: "(indegree_map N f)(b \<mapsto> f b + 1) = indegree_map N (f(b := f b + 1))"
    using N by (auto simp: indegree_map_def)
  have "add_edges (e # es) (\<lambda>v. if v \<in> N then Some (g v) else None) (indegree_map N f) =
      add_edges es (\<lambda>v. if v \<in> N then Some ((g(a := g a @ [b])) v) else None)
        (indegree_map N (f(b := f b + 1)))"
    using N adj ind by (simp add: e indegree_map_def)
  also have "\<dots> = Some (\<lambda>v. if v \<in> N then Some ((g(a := g a @ [b])) v @ succs es v) else None,
      indegree_map N (\<lambda>v. (f(b := f b + 1)) v + indeg es {} v))"
    using Cons.prems by (intro Cons.IH) simp
  also have "(\<lambda>v. if v \<in> N then Some ((g(a := g a @ [b])) v @ succs es v) else None) =
      (\<lambda>v. if v \<in> N then Some (g v @ succs (e # es) v) else None)"
    by (auto simp: e succs_def fun_eq_iff)
  also have "(\<lambda>v. (f(b := f b + 1)) v + indeg es {} v) = (\<lambda>v. f v + indeg (e # es) {} v)"
    by (auto simp: e indeg_def fun_eq_iff)
  finally show ?case .
qed

lemma release_ok:
  assumes "set ds \<subseteq> N" "\<forall>v. count_list ds v \<le> f v"
  shows "\<exists>new. release ds (indegree_map N f) q =
      Some (indegree_map N (\<lambda>v. f v - count_list ds v), q @ new) \<and>
    distinct new \<and> set new = {v \<in> set ds. f v = count_list ds v}"
  using assms
proof (induction ds arbitrary: f q)
  case Nil
  then show ?case by simp
next
  case (Cons d ds)
  let ?f = "f(d := f d - 1)"
  have d: "d \<in> N" "0 < f d" using Cons.prems by (auto dest: spec [of _ d])
  have upd: "(indegree_map N f)(d \<mapsto> f d - 1) = indegree_map N ?f"
    using d by (auto simp: indegree_map_def)
  have le: "\<forall>v. count_list ds v \<le> ?f v"
    using Cons.prems(2) by (auto dest: spec split: if_splits)
  have sub: "set ds \<subseteq> N" using Cons.prems(1) by simp
  let ?q = "if f d - 1 = 0 then q @ [d] else q"
  from Cons.IH [OF sub le, of ?q] obtain new where
    new: "release ds (indegree_map N ?f) ?q =
        Some (indegree_map N (\<lambda>v. ?f v - count_list ds v), ?q @ new)"
      "distinct new" "set new = {v \<in> set ds. ?f v = count_list ds v}" by blast
  have ind: "indegree_map N (\<lambda>v. ?f v - count_list ds v) =
      indegree_map N (\<lambda>v. f v - count_list (d # ds) v)"
    by (auto simp: indegree_map_def fun_eq_iff)
  have rel: "release (d # ds) (indegree_map N f) q =
      Some (indegree_map N (\<lambda>v. f v - count_list (d # ds) v), ?q @ new)"
    using d new(1) upd ind by (simp add: indegree_map_def)
  show ?case
  proof (cases "f d = 1")
    case True
    then have "d \<notin> set ds"
      using le by (auto dest: spec [of _ d] simp: count_list_0_iff)
    then have "d \<notin> set new" "count_list ds d = 0" using new(3) by (auto simp: count_list_0_iff)
    with True new rel show ?thesis by (intro exI [of _ "d # new"]) auto
  next
    case False
    with d have "f d - 1 \<noteq> 0" by simp
    moreover have "count_list ds d + 1 = f d \<Longrightarrow> d \<in> set ds"
      using False by (metis count_notin add_0)
    then have "{v \<in> set ds. ?f v = count_list ds v} = {v \<in> set (d # ds). f v = count_list (d # ds) v}"
      using d by auto
    ultimately show ?thesis
      using new(2,3) rel by (intro exI [of _ new]) simp
  qed
qed

definition kahn_inv :: "'n set \<Rightarrow> ('n \<times> 'n) list \<Rightarrow> 'n list \<Rightarrow> 'n list \<Rightarrow> bool" where
  "kahn_inv N es queue order \<longleftrightarrow>
     distinct (order @ queue) \<and> set (order @ queue) = {v \<in> N. indeg es (set order) v = 0} \<and>
     (\<forall>i < length order. \<forall>a. (a, order ! i) \<in> set es \<longrightarrow> a \<in> set (take i order))"

lemma indeg_insert:
  assumes "x \<notin> emitted"
  shows "indeg es (insert x emitted) v = indeg es emitted v - count_list (succs es x) v"
    and "count_list (succs es x) v \<le> indeg es emitted v"
proof -
  have "indeg es emitted v = indeg es (insert x emitted) v + count_list (succs es x) v"
    using assms by (induction es) (auto simp: indeg_def succs_def)
  then show "indeg es (insert x emitted) v = indeg es emitted v - count_list (succs es x) v"
    and "count_list (succs es x) v \<le> indeg es emitted v" by simp_all
qed

lemma indeg_0_iff: "indeg es emitted v = 0 \<longleftrightarrow> (\<forall>a. (a, v) \<in> set es \<longrightarrow> a \<in> emitted)"
  by (auto simp: indeg_def filter_empty_conv)

lemma kahn_step:
  assumes inv: "kahn_inv N es (x # q) order" and es: "set es \<subseteq> N \<times> N"
  shows "\<exists>new. release (succs es x) (indegree_map N (indeg es (set order))) q =
      Some (indegree_map N (indeg es (set (order @ [x]))), q @ new) \<and>
    kahn_inv N es (q @ new) (order @ [x])"
proof -
  let ?f = "indeg es (set order)"
  have x: "x \<notin> set order" "x \<in> N" "?f x = 0" using inv by (auto simp: kahn_inv_def)
  have sub: "set (succs es x) \<subseteq> N" using es by (auto simp: succs_def)
  have le: "\<forall>v. count_list (succs es x) v \<le> ?f v" using indeg_insert(2) [OF x(1)] by blast
  from release_ok [OF sub le, of q] obtain new where
    new: "release (succs es x) (indegree_map N ?f) q =
        Some (indegree_map N (\<lambda>v. ?f v - count_list (succs es x) v), q @ new)"
      "distinct new" "set new = {v \<in> set (succs es x). ?f v = count_list (succs es x) v}" by blast
  have f': "indeg es (set (order @ [x])) v = ?f v - count_list (succs es x) v" for v
    using indeg_insert(1) [OF x(1)] by simp
  have pos: "v \<in> set (succs es x) \<Longrightarrow> 0 < ?f v" for v
    using le by (metis bot_nat_0.not_eq_extremum count_list_0_iff le_zero_eq)
  have set_new: "set new = {v \<in> N. indeg es (set (order @ [x])) v = 0 \<and> 0 < ?f v}"
    unfolding new(3) f' using sub pos le
    by (auto simp: le_antisym count_list_0_iff) (metis count_notin le_zero_eq not_less_zero)
  have old: "set (order @ x # q) = {v \<in> N. ?f v = 0}" using inv by (simp add: kahn_inv_def)
  have mono: "?f v = 0 \<Longrightarrow> indeg es (set (order @ [x])) v = 0" for v using f' by simp
  have d: "distinct ((order @ [x]) @ q @ new)"
    using inv new(2) set_new old by (auto simp: kahn_inv_def)
  have s: "set ((order @ [x]) @ q @ new) = {v \<in> N. indeg es (set (order @ [x])) v = 0}"
    using old set_new mono by auto
  have o: "\<forall>i < length (order @ [x]). \<forall>a. (a, (order @ [x]) ! i) \<in> set es \<longrightarrow> a \<in> set (take i (order @ [x]))"
  proof (intro allI impI)
    fix i a
    assume i: "i < length (order @ [x])" and e: "(a, (order @ [x]) ! i) \<in> set es"
    show "a \<in> set (take i (order @ [x]))"
    proof (cases "i < length order")
      case True
      with inv e show ?thesis by (simp add: kahn_inv_def nth_append)
    next
      case False
      with i have "i = length order" by simp
      with e x(3) show ?thesis by (simp add: indeg_0_iff)
    qed
  qed
  have "kahn_inv N es (q @ new) (order @ [x])" using d s o unfolding kahn_inv_def by blast
  moreover have "indegree_map N (\<lambda>v. ?f v - count_list (succs es x) v) =
      indegree_map N (indeg es (set (order @ [x])))" using f' by presburger
  ultimately show ?thesis using new(1) by auto
qed

lemma kahn_inv_length: "kahn_inv N es q order \<Longrightarrow> finite N \<Longrightarrow> length order + length q \<le> card N"
proof -
  assume a: "kahn_inv N es q order" "finite N"
  then have "card (set (order @ q)) \<le> card N" by (intro card_mono) (auto simp: kahn_inv_def)
  with a show ?thesis by (metis distinct_card kahn_inv_def length_append)
qed

lemma kahn_loop_ok:
  assumes "finite N" "set es \<subseteq> N \<times> N" "\<And>x. x \<in> N \<Longrightarrow> deps x = succs es x"
    "kahn_inv N es q order"
  shows "\<exists>order'. kahn_loop deps (indegree_map N (indeg es (set order))) q order =
      Some (indegree_map N (indeg es (set order')), order') \<and> kahn_inv N es [] order'"
  using assms(4)
proof (induction "card N - length order" arbitrary: q order rule: less_induct)
  case less
  show ?case
  proof (cases q)
    case Nil
    with less.prems show ?thesis by (subst kahn_loop.simps) auto
  next
    case (Cons x q')
    from kahn_step [OF less.prems [unfolded Cons] assms(2)] obtain new where
      new: "release (succs es x) (indegree_map N (indeg es (set order))) q' =
        Some (indegree_map N (indeg es (set (order @ [x]))), q' @ new)"
        "kahn_inv N es (q' @ new) (order @ [x])" by blast
    have x: "x \<in> N" using less.prems Cons by (auto simp: kahn_inv_def)
    have "card N - length (order @ [x]) < card N - length order"
      using kahn_inv_length [OF less.prems assms(1)] Cons by simp
    from less.hyps [OF this new(2)] show ?thesis
      using new(1) Cons x assms(3) by (subst kahn_loop.simps) simp
  qed
qed

lemma kahn_inv_init:
  "distinct q \<Longrightarrow> set q = {v \<in> N. indeg es {} v = 0} \<Longrightarrow> kahn_inv N es q []"
  by (simp add: kahn_inv_def)

section \<open>What the loop leaves behind\<close>

lemma behind_cycle_pred:
  assumes "v \<in> behind_cycle es"
  shows "\<exists>p \<in> behind_cycle es. (p, v) \<in> set es"
proof -
  from assms obtain c where c: "(c, c) \<in> (set es)\<^sup>+" "(c, v) \<in> (set es)\<^sup>*"
    by (auto simp: behind_cycle_def)
  from c(2) show ?thesis
  proof (cases rule: rtranclE)
    case base
    from c(1) obtain p where "(c, p) \<in> (set es)\<^sup>*" "(p, c) \<in> set es" by (metis tranclD2)
    with base c(1) show ?thesis by (auto simp: behind_cycle_def)
  next
    case (step p)
    with c(1) show ?thesis by (auto simp: behind_cycle_def)
  qed
qed

lemma behind_cycle_succ: "p \<in> behind_cycle es \<Longrightarrow> (p, v) \<in> set es \<Longrightarrow> v \<in> behind_cycle es"
  by (auto simp: behind_cycle_def intro: rtrancl_into_rtrancl)

lemma behind_cycle_empty: "behind_cycle es = {} \<longleftrightarrow> acyclic (set es)"
  by (auto simp: behind_cycle_def acyclic_def)

lemma kahn_done:
  assumes inv: "kahn_inv N es [] order" and es: "set es \<subseteq> N \<times> N" and fin: "finite N"
  shows "set order = N - behind_cycle es"
proof
  have "order ! i \<notin> behind_cycle es" if "i < length order" for i
    using that
  proof (induction i rule: less_induct)
    case (less i)
    show ?case
    proof
      assume "order ! i \<in> behind_cycle es"
      then obtain p where p: "p \<in> behind_cycle es" "(p, order ! i) \<in> set es"
        by (blast dest: behind_cycle_pred)
      with inv less.prems have "p \<in> set (take i order)" by (simp add: kahn_inv_def)
      then obtain j where "j < i" "order ! j = p" using less.prems by (auto simp: in_set_conv_nth)
      with less.IH [of j] less.prems p(1) show False by simp
    qed
  qed
  moreover have "set order \<subseteq> N" using inv by (auto simp: kahn_inv_def)
  ultimately show "set order \<subseteq> N - behind_cycle es" by (auto simp: in_set_conv_nth)
  show "N - behind_cycle es \<subseteq> set order"
  proof (rule ccontr)
    assume "\<not> N - behind_cycle es \<subseteq> set order"
    define R where "R = N - behind_cycle es - set order"
    have R: "R \<noteq> {}" using \<open>\<not> N - behind_cycle es \<subseteq> set order\<close> by (auto simp: R_def)
    have pred: "\<exists>p \<in> R. (p, v) \<in> set es" if v: "v \<in> R" for v
    proof -
      have "indeg es (set order) v \<noteq> 0" using inv v by (auto simp: kahn_inv_def R_def)
      then obtain p where p: "(p, v) \<in> set es" "p \<notin> set order" by (auto simp: indeg_0_iff)
      have "p \<in> N" using p(1) es by auto
      moreover have "p \<notin> behind_cycle es" using behind_cycle_succ [OF _ p(1)] v by (auto simp: R_def)
      ultimately have "p \<in> R" using p(2) by (simp add: R_def)
      with p show ?thesis by blast
    qed
    let ?r = "set es \<inter> R \<times> R"
    have "acyclic ?r"
    proof (rule acyclicI, intro allI notI)
      fix c
      assume c: "(c, c) \<in> ?r\<^sup>+"
      then have "(c, c) \<in> (set es)\<^sup>+" by (rule trancl_mono) auto
      then have "c \<in> behind_cycle es" by (auto simp: behind_cycle_def)
      moreover from c have "c \<in> R" by (metis IntD2 SigmaD1 converse_tranclE)
      ultimately show False by (simp add: R_def)
    qed
    then have "wf ?r" by (intro finite_acyclic_wf) auto
    then obtain m where "m \<in> R" "\<forall>y. (y, m) \<in> ?r \<longrightarrow> y \<notin> R" using R by (metis wfE_min ex_in_conv)
    with pred [of m] show False by blast
  qed
qed

lemma kahn_topological:
  assumes inv: "kahn_inv N es [] order" and es: "set es \<subseteq> N \<times> N" and all: "set order = N"
  shows "\<forall>(a, b) \<in> set es. precedes order a b"
proof (clarify)
  fix a b
  assume e: "(a, b) \<in> set es"
  then have "b \<in> set order" using es all by auto
  then obtain j where j: "j < length order" "order ! j = b" by (auto simp: in_set_conv_nth)
  with inv e have "a \<in> set (take j order)" by (auto simp: kahn_inv_def)
  then obtain i where "i < j" "order ! i = a" using j by (auto simp: in_set_conv_nth)
  with j show "precedes order a b" unfolding precedes_def by blast
qed

section \<open>Sorters\<close>

text \<open>
  The contract of a topological sorter: on a graph with distinct nodes and known endpoints it
  always answers; without a cycle with a topological order, otherwise with the error that names
  the nodes on a cycle and those behind one.
\<close>

locale topological_sorter =
  fixes sorter :: "'n list \<Rightarrow> ('n \<times> 'n) list \<Rightarrow> ('n list, 'err) result option"
    and cycle_error :: "'n list \<Rightarrow> 'err"
  assumes sorts: "graph_ok ns es \<Longrightarrow> acyclic (set es) \<Longrightarrow>
      \<exists>order. sorter ns es = Some (Ok order) \<and> topological ns es order"
    and reports: "graph_ok ns es \<Longrightarrow> \<not> acyclic (set es) \<Longrightarrow>
      \<exists>bad. sorter ns es = Some (Err (cycle_error bad)) \<and> distinct bad \<and>
        set bad = set ns \<inter> behind_cycle es"
begin

lemma total: "graph_ok ns es \<Longrightarrow> sorter ns es \<noteq> None"
  using sorts [of ns es] reports [of ns es] by (cases "acyclic (set es)") auto

lemma ok_topological:
  assumes "graph_ok ns es" "sorter ns es = Some (Ok order)"
  shows "acyclic (set es)" "topological ns es order"
  using sorts [OF assms(1)] reports [OF assms(1)] assms(2) by auto

lemma ok_iff_acyclic:
  "graph_ok ns es \<Longrightarrow> (\<exists>order. sorter ns es = Some (Ok order)) \<longleftrightarrow> acyclic (set es)"
  using sorts [of ns es] ok_topological(1) [of ns es] by blast

lemma err_names_cycle:
  assumes "graph_ok ns es" "sorter ns es = Some (Err e)"
  shows "\<exists>bad. e = cycle_error bad \<and> bad \<noteq> [] \<and> set bad = set ns \<inter> behind_cycle es"
proof -
  have cyc: "\<not> acyclic (set es)" using sorts [OF assms(1)] assms(2) by auto
  then obtain c where c: "(c, c) \<in> (set es)\<^sup>+" by (auto simp: acyclic_def)
  then have "c \<in> behind_cycle es" by (auto simp: behind_cycle_def)
  moreover obtain d where "(c, d) \<in> set es" using c by (meson converse_tranclE)
  then have "c \<in> set ns" using assms(1) by (auto simp: graph_ok_def)
  moreover obtain bad where "e = cycle_error bad" "set bad = set ns \<inter> behind_cycle es"
    using reports [OF assms(1) cyc] assms(2) by auto
  ultimately show ?thesis by (metis IntI empty_iff list.set(1))
qed

end

lemma sort_explicit_loop:
  assumes ok: "graph_ok ns es"
  shows "\<exists>order. kahn_inv (set ns) es [] order \<and> sort_explicit ns es =
     (if length order \<noteq> length ns
      then Some (Err (CycleDetected (filter (\<lambda>n. 0 < indeg es (set order) n) ns)))
      else Some (Ok order))"
proof -
  let ?N = "set ns" and ?deps = "\<lambda>x. case if x \<in> set ns then Some ([] @ succs es x) else None of Some vs \<Rightarrow> vs | None \<Rightarrow> []"
  let ?q = "filter (\<lambda>n. indegree_map ?N (indeg es {}) n = Some 0) ns"
  have es: "set es \<subseteq> ?N \<times> ?N" and d: "distinct ns" using ok by (auto simp: graph_ok_def)
  have zero: "(\<lambda>n. if n \<in> ?N then Some 0 else None) = indegree_map ?N (\<lambda>_. 0)"
    by (simp add: indegree_map_def)
  have "kahn_inv ?N es ?q []"
    using d by (intro kahn_inv_init) (auto simp: indegree_map_def)
  with kahn_loop_ok [OF finite_set es, of ?deps ?q "[]"] obtain order where
    order: "kahn_loop ?deps (indegree_map ?N (indeg es {})) ?q [] =
      Some (indegree_map ?N (indeg es (set order)), order)" "kahn_inv ?N es [] order" by auto
  have bad: "filter (\<lambda>n. case indegree_map ?N (indeg es (set order)) n of Some d \<Rightarrow> 0 < d | None \<Rightarrow> False) ns =
      filter (\<lambda>n. 0 < indeg es (set order) n) ns"
    by (rule filter_cong) (simp_all add: indegree_map_def)
  show ?thesis
    using order bad
    by (intro exI [of _ order])
      (simp add: sort_explicit_def zero add_edges_ok [OF es, of "\<lambda>_. []" "\<lambda>_. 0"])
qed

lemma kahn_result:
  assumes ok: "graph_ok ns es" and inv: "kahn_inv (set ns) es [] order"
  shows "acyclic (set es) \<Longrightarrow> length order = length ns \<and> topological ns es order"
    and "\<not> acyclic (set es) \<Longrightarrow> length order \<noteq> length ns"
    and "n \<in> set ns \<Longrightarrow> 0 < indeg es (set order) n \<longleftrightarrow> n \<in> behind_cycle es"
proof -
  have es: "set es \<subseteq> set ns \<times> set ns" and d: "distinct ns" using ok by (auto simp: graph_ok_def)
  have so: "set order = set ns - behind_cycle es" using kahn_done [OF inv es] by simp
  have dist: "distinct order" using inv by (simp add: kahn_inv_def)
  have len: "length order = length ns \<longleftrightarrow> set order = set ns"
    using dist d so by (metis Diff_subset List.finite_set card_subset_eq distinct_card)
  show "length order = length ns \<and> topological ns es order" if "acyclic (set es)"
  proof -
    have "set order = set ns" using so that by (simp add: behind_cycle_empty [symmetric])
    with len dist kahn_topological [OF inv es this] show ?thesis by (auto simp: topological_def)
  qed
  have "behind_cycle es \<subseteq> set ns" using es behind_cycle_pred by fastforce
  then show "length order \<noteq> length ns" if "\<not> acyclic (set es)"
    using so len that by (auto simp: behind_cycle_empty [symmetric])
  show "0 < indeg es (set order) n \<longleftrightarrow> n \<in> behind_cycle es" if "n \<in> set ns"
  proof -
    have "n \<in> set order \<longleftrightarrow> indeg es (set order) n = 0" using inv that by (auto simp: kahn_inv_def)
    then show ?thesis using so that by (metis DiffD2 DiffI neq0_conv)
  qed
qed

lemma sort_explicit_correct:
  assumes ok: "graph_ok ns es"
  shows "acyclic (set es) \<Longrightarrow> \<exists>order. sort_explicit ns es = Some (Ok order) \<and> topological ns es order"
    and "\<not> acyclic (set es) \<Longrightarrow>
      sort_explicit ns es = Some (Err (CycleDetected (filter (\<lambda>n. n \<in> behind_cycle es) ns)))"
proof -
  obtain order where order: "kahn_inv (set ns) es [] order"
    "sort_explicit ns es = (if length order \<noteq> length ns
      then Some (Err (CycleDetected (filter (\<lambda>n. 0 < indeg es (set order) n) ns)))
      else Some (Ok order))" using sort_explicit_loop [OF ok] by blast
  note res = kahn_result [OF ok order(1)]
  show "\<exists>order. sort_explicit ns es = Some (Ok order) \<and> topological ns es order" if "acyclic (set es)"
    using res(1) [OF that] order(2) by simp
  have "filter (\<lambda>n. 0 < indeg es (set order) n) ns = filter (\<lambda>n. n \<in> behind_cycle es) ns"
    using res(3) by (intro filter_cong) simp_all
  then show "sort_explicit ns es = Some (Err (CycleDetected (filter (\<lambda>n. n \<in> behind_cycle es) ns)))"
    if "\<not> acyclic (set es)" using res(2) [OF that] order(2) by simp
qed

interpretation explicit: topological_sorter sort_explicit CycleDetected
proof
  fix ns :: "'a list" and es
  assume ok: "graph_ok ns es"
  show "\<exists>order. sort_explicit ns es = Some (Ok order) \<and> topological ns es order" if "acyclic (set es)"
    using sort_explicit_correct(1) [OF ok that] .
  show "\<exists>bad. sort_explicit ns es = Some (Err (CycleDetected bad)) \<and> distinct bad \<and>
      set bad = set ns \<inter> behind_cycle es" if "\<not> acyclic (set es)"
    using sort_explicit_correct(2) [OF ok that] ok by (auto simp: graph_ok_def)
qed

section \<open>Graphs built through the API\<close>

definition dag_ok :: "'n::linorder dag \<Rightarrow> bool" where
  "dag_ok g \<longleftrightarrow> sorted (nodes g) \<and> graph_ok (nodes g) (edges g) \<and> (\<forall>(a, b) \<in> set (edges g). a \<noteq> b)"

lemma dag_ok_new: "dag_ok dag_new"
  by (simp add: dag_ok_def dag_new_def graph_ok_def)

lemma dag_ok_add_node: "dag_ok g \<Longrightarrow> dag_ok (snd (add_node g n))"
  by (auto simp: dag_ok_def add_node_def graph_ok_def sorted_insort distinct_insort set_insort_key)

lemma dag_ok_add_edge: "dag_ok g \<Longrightarrow> dag_ok (snd (add_edge g a b))"
  by (auto simp: dag_ok_def add_edge_def graph_ok_def)

section \<open>Resolution\<close>

lemma check_duplicates_ok:
  "check_duplicates ids ns = Ok u \<longleftrightarrow> distinct (map node_id ns) \<and> ids \<inter> node_id ` set ns = {}"
  by (induction ids ns rule: check_duplicates.induct) auto

definition providers :: "'n dependency_node list \<Rightarrow> 'n \<rightharpoonup> 'n" where
  "providers ns = map_of (map (\<lambda>n. (provides n, node_id n)) ns)"

lemma provider_map_ok:
  "provider_map m ns = Ok m' \<longleftrightarrow>
     distinct (map provides ns) \<and> dom m \<inter> provides ` set ns = {} \<and> m' = m ++ providers ns"
proof (induction ns arbitrary: m)
  case Nil
  show ?case by (auto simp: providers_def)
next
  case (Cons n ns)
  show ?case
  proof (cases "m (provides n)")
    case None
    let ?P = "provides ` set ns"
    have upd: "m(provides n \<mapsto> node_id n) ++ providers ns = m ++ providers (n # ns)" if "provides n \<notin> ?P"
      using that by (auto simp: providers_def dom_map_of_conv_image_fst image_image map_add_upd_left)
    have "provider_map m (n # ns) = Ok m' \<longleftrightarrow> distinct (map provides ns) \<and>
        dom (m(provides n \<mapsto> node_id n)) \<inter> ?P = {} \<and> m' = m(provides n \<mapsto> node_id n) ++ providers ns"
    proof -
      have "provider_map m (n # ns) = provider_map (m(provides n \<mapsto> node_id n)) ns"
        using None by (simp add: fun_upd_def)
      with Cons.IH [of "m(provides n \<mapsto> node_id n)"] show ?thesis by (simp only:)
    qed
    also have "dom (m(provides n \<mapsto> node_id n)) \<inter> ?P = {} \<longleftrightarrow> provides n \<notin> ?P \<and> dom m \<inter> ?P = {}" by auto
    also have "(distinct (map provides ns) \<and> (provides n \<notin> ?P \<and> dom m \<inter> ?P = {}) \<and>
        m' = m(provides n \<mapsto> node_id n) ++ providers ns) \<longleftrightarrow> (provides n \<notin> ?P \<and> distinct (map provides ns)) \<and>
        dom m \<inter> ?P = {} \<and> m' = m ++ providers (n # ns)"
      using upd by metis
    also have "dom m \<inter> ?P = {} \<longleftrightarrow> dom m \<inter> provides ` set (n # ns) = {}" using None by auto
    finally show ?thesis by simp
  next
    case (Some p)
    then show ?thesis by auto
  qed
qed

lemma providers_iff:
  "distinct (map provides ns) \<Longrightarrow>
    providers ns c = Some p \<longleftrightarrow> (\<exists>n \<in> set ns. provides n = c \<and> node_id n = p)"
  by (auto simp: providers_def o_def distinct_map inj_on_def)

lemma required_edges_ok:
  "required_edges m i rs = Ok es \<Longrightarrow>
    set rs \<subseteq> dom m \<and> set es = {(p, i) | p r. r \<in> set rs \<and> m r = Some p \<and> p \<noteq> i}"
proof (induction m i rs arbitrary: es rule: required_edges.induct)
  case (2 m i r rs)
  then obtain p es' where p: "m r = Some p" "required_edges m i rs = Ok es'"
    "es = (if p \<noteq> i then (p, i) # es' else es')"
    by (auto simp: result_map_def split: option.splits sum.splits)
  with "2.IH" [OF p(1,2)] show ?case by auto
qed simp

lemma dependency_edges_ok:
  "dependency_edges m ns = Ok es \<Longrightarrow>
    (\<forall>n \<in> set ns. set (requires n) \<subseteq> dom m) \<and>
    set es = {(p, node_id n) | p n r. n \<in> set ns \<and> r \<in> set (requires n) \<and> m r = Some p \<and> p \<noteq> node_id n}"
proof (induction m ns arbitrary: es rule: dependency_edges.induct)
  case (2 m n ns)
  then obtain es1 es2 where e: "required_edges m (node_id n) (requires n) = Ok es1"
    "dependency_edges m ns = Ok es2" "es = es1 @ es2"
    by (auto simp: result_map_def result_bind_def split: sum.splits)
  with "2.IH" [OF e(2)] required_edges_ok [OF e(1)] show ?case by auto
qed simp

lemma resolved_graph_ok:
  assumes "check_duplicates {} ns = Ok ()" "provider_map Map.empty ns = Ok m" "dependency_edges m ns = Ok es"
  shows "graph_ok (map node_id ns) es"
proof -
  have d: "distinct (map node_id ns)" using assms(1) by (simp add: check_duplicates_ok)
  have m: "m = providers ns" "distinct (map provides ns)" using assms(2) by (auto simp: provider_map_ok)
  have "set es \<subseteq> node_id ` set ns \<times> node_id ` set ns"
  proof
    fix x
    assume "x \<in> set es"
    then obtain p n r where x: "x = (p, node_id n)" "n \<in> set ns" "m r = Some p"
      using dependency_edges_ok [OF assms(3)] by auto
    then show "x \<in> node_id ` set ns \<times> node_id ` set ns" using providers_iff [OF m(2)] m(1) by auto
  qed
  then show ?thesis using d by (simp add: graph_ok_def)
qed

lemma topological_sort_edges_ok:
  assumes "check_duplicates {} ns = Ok ()" "provider_map Map.empty ns = Ok m" "dependency_edges m ns = Ok es"
  shows "graph_ok (sort (map node_id ns)) es"
  using resolved_graph_ok [OF assms] by (simp add: graph_ok_def)

lemma requirement_first:
  assumes ok: "check_duplicates {} ns = Ok ()" "provider_map Map.empty ns = Ok m" "dependency_edges m ns = Ok es"
    and order: "\<forall>(a, b) \<in> set es. precedes order a b"
    and n: "n \<in> set ns" "r \<in> set (requires n)"
  shows "\<exists>p \<in> set ns. provides p = r \<and> (p = n \<or> precedes order (node_id p) (node_id n))"
proof -
  have d: "distinct (map node_id ns)" using ok(1) by (simp add: check_duplicates_ok)
  have m: "m = providers ns" "distinct (map provides ns)" using ok(2) by (auto simp: provider_map_ok)
  note e = dependency_edges_ok [OF ok(3)]
  obtain p where p: "m r = Some p" using e n by blast
  then obtain q where q: "q \<in> set ns" "provides q = r" "node_id q = p"
    using providers_iff [OF m(2)] m(1) by auto
  show ?thesis
  proof (cases "node_id q = node_id n")
    case True
    then have "q = n" using d q(1) n(1) by (auto simp: distinct_map inj_on_def)
    with q show ?thesis by auto
  next
    case False
    with e n p q have "(node_id q, node_id n) \<in> set es" by auto
    with order q show ?thesis by auto
  qed
qed

lemma topological_sort_ok:
  assumes "topological_sort ns = Some (Ok order)"
  shows "distinct order" "set order = node_id ` set ns"
    and "\<And>n r. n \<in> set ns \<Longrightarrow> r \<in> set (requires n) \<Longrightarrow>
      \<exists>p \<in> set ns. provides p = r \<and> (p = n \<or> precedes order (node_id p) (node_id n))"
proof -
  from assms obtain m es where
    c: "check_duplicates {} ns = Ok ()" "provider_map Map.empty ns = Ok m" "dependency_edges m ns = Ok es"
      "sort_explicit (sort (map node_id ns)) es = Some (Ok order)"
    by (auto simp: topological_sort_def split: sum.splits)
  have t: "topological (sort (map node_id ns)) es order"
    using explicit.ok_topological(2) [OF topological_sort_edges_ok [OF c(1-3)] c(4)] .
  then show "distinct order" "set order = node_id ` set ns" by (auto simp: topological_def)
  show "\<exists>p \<in> set ns. provides p = r \<and> (p = n \<or> precedes order (node_id p) (node_id n))"
    if "n \<in> set ns" "r \<in> set (requires n)" for n r
    using requirement_first [OF c(1-3) _ that] t by (simp add: topological_def)
qed

lemma refused_keeps:
  "fst (add_node g n) = Err e \<Longrightarrow> snd (add_node g n) = g"
  "fst (add_edge g' a b) = Err e \<Longrightarrow> snd (add_edge g' a b) = g'"
  by (auto simp: add_node_def add_edge_def split: if_splits)

section \<open>Properties\<close>

text \<open>
  C4. \<open>sort_explicit\<close> on a graph whose edges join known nodes: without a cycle it returns every node
  exactly once with each dependency before its dependents; with a cycle it returns the error whose
  list, in node order, is exactly the nodes on a cycle or reachable from one. It never panics and
  its work-list loop always ends.
\<close>

theorem sort_explicit_spec:
  assumes "graph_ok ns es"
  shows "(if acyclic (set es)
     then \<exists>order. sort_explicit ns es = Some (Ok order) \<and> topological ns es order
     else sort_explicit ns es = Some (Err (CycleDetected (filter (\<lambda>n. n \<in> behind_cycle es) ns))))"
  using sort_explicit_correct [OF assms] by simp

lemma sort_explicit_spec_witness:
  "\<exists>order. sort_explicit [1, 2, 3 :: nat] [(1, 2), (1, 3), (2, 3)] = Some (Ok order) \<and>
     topological [1, 2, 3] [(1, 2), (1, 3), (2, 3)] order"
proof -
  have "acyclic {(x, y). x < (y :: nat)}" using wf_acyclic [OF wf_less] .
  then have "acyclic (set [(1, 2), (1, 3), (2, 3 :: nat)])" by (rule acyclic_subset) auto
  with sort_explicit_spec [of "[1, 2, 3 :: nat]" "[(1, 2), (1, 3), (2, 3)]"] show ?thesis
    by (simp add: graph_ok_def)
qed

text \<open>
  \<open>topological_sort\<close> is total, and an order it returns lists every node id once and puts the
  provider of each required capability before the node that requires it, unless the node provides
  it itself.
\<close>

theorem topological_sort_spec:
  "topological_sort ns \<noteq> None \<and>
   (\<forall>order. topological_sort ns = Some (Ok order) \<longrightarrow>
      distinct order \<and> set order = node_id ` set ns \<and>
      (\<forall>n \<in> set ns. \<forall>r \<in> set (requires n).
         \<exists>p \<in> set ns. provides p = r \<and> (p = n \<or> precedes order (node_id p) (node_id n))))"
proof
  show "topological_sort ns \<noteq> None"
    using explicit.total [OF topological_sort_edges_ok]
    by (fastforce simp: topological_sort_def split: sum.split)
qed (use topological_sort_ok in blast)

lemma topological_sort_spec_witness:
  "distinct [1, 2 :: nat] \<and> set [1, 2 :: nat] = {1, 2} \<and>
   (\<exists>p \<in> {\<lparr>node_id = 2, requires = [10], provides = 20\<rparr>, \<lparr>node_id = 1, requires = [], provides = 10\<rparr>}.
      provides p = 10 \<and> (p = \<lparr>node_id = 2, requires = [10], provides = 20\<rparr> \<or> precedes [1, 2 :: nat] (node_id p) 2))"
proof -
  let ?ns = "[\<lparr>node_id = 2, requires = [10], provides = 20\<rparr>, \<lparr>node_id = 1, requires = [], provides = 10 :: nat\<rparr>]"
  have "topological_sort ?ns = Some (Ok [1, 2])"
    by (simp add: topological_sort_def sort_explicit_def kahn_loop.simps)
  with topological_sort_spec [of ?ns] show ?thesis by simp
qed

text \<open>
  Every graph built with \<open>Dag::new\<close>, \<open>add_node\<close> and \<open>add_edge\<close> keeps its node list ascending
  and free of duplicates, its edges between known different nodes, and can be sorted without a panic;
  a refused operation leaves it as it was.
\<close>

theorem dag_invariant:
  "dag_ok (dag_new :: 'n::linorder dag) \<and>
   (dag_ok g \<longrightarrow> dag_ok (snd (add_node g n)) \<and> dag_ok (snd (add_edge g a b)) \<and> dag_sort g \<noteq> None) \<and>
   (\<forall>e. fst (add_node g n) = Err e \<longrightarrow> snd (add_node g n) = g) \<and>
   (\<forall>e. fst (add_edge g a b) = Err e \<longrightarrow> snd (add_edge g a b) = g)" for g :: "'n::linorder dag"
proof (intro conjI impI allI)
  show "dag_sort g \<noteq> None" if "dag_ok g"
    using that explicit.total [of "nodes g" "edges g"] by (simp add: dag_sort_def dag_ok_def)
qed (auto intro: dag_ok_new dag_ok_add_node dag_ok_add_edge simp: refused_keeps)

lemma dag_invariant_witness:
  "dag_ok (snd (add_edge (snd (add_node (snd (add_node dag_new (2 :: nat))) 1)) 1 2)) \<and>
   fst (add_edge (snd (add_node dag_new (2 :: nat))) 1 2) = Err (UnknownNode 1) \<and>
   snd (add_edge (snd (add_node dag_new (2 :: nat))) 1 2) = snd (add_node dag_new 2)"
proof -
  have "fst (add_edge (snd (add_node dag_new (2 :: nat))) 1 2) = Err (UnknownNode 1)"
    by (simp add: add_edge_def add_node_def dag_new_def)
  then show ?thesis
    using dag_invariant [of dag_new 2] dag_invariant [of "snd (add_node dag_new (2 :: nat))" 1 1 2]
      dag_invariant [of "snd (add_node (snd (add_node dag_new (2 :: nat))) 1)" 1 1 2] by metis
qed

text \<open>
  The list of a \<open>CycleDetected\<close> error is not limited to nodes on a cycle: node 3 below depends on
  the cycle between 1 and 2, lies on no cycle itself, and is reported.
\<close>

theorem cycle_report_names_dependents:
  "sort_explicit [1, 2, 3] [(1, 2), (2, 1), (2, 3 :: nat)] = Some (Err (CycleDetected [1, 2, 3])) \<and>
   (3, 3) \<notin> (set [(1, 2), (2, 1), (2, 3 :: nat)])\<^sup>+"
proof
  show "sort_explicit [1, 2, 3] [(1, 2), (2, 1), (2, 3 :: nat)] = Some (Err (CycleDetected [1, 2, 3]))"
    by (simp add: sort_explicit_def kahn_loop.simps)
  show "(3, 3) \<notin> (set [(1, 2), (2, 1), (2, 3 :: nat)])\<^sup>+"
    by (auto dest!: tranclD)
qed

end
