(* ===== verification/Planner.thy ===== *)
theory Planner
  imports Graphs
begin

text \<open>
  \<open>crates/id_effect/src/capability/planner.rs\<close> and \<open>error.rs\<close>: the topological planner of the
  provider graph. It is a second implementation of Kahn's algorithm, over persistent hash maps of
  the \<open>im\<close> package; the three maps it uses are arguments, and the order in which \<open>indegree\<close> is
  iterated is whatever \<open>im_iter\<close> gives. Planner nodes have the fields of \<open>dependency_node\<close>.
  Ids and capability names, \<open>String\<close>s in the code, are any type.
\<close>

datatype 'n planner_error =
    DuplicateProviderId 'n
  | PlannerConflict 'n 'n 'n
  | MissingProvider 'n 'n
  | PlannerCycle "'n list"

record ('n, 'p, 'd, 'e) planner_maps =
  prov_map :: "('n, 'n, 'p) im_hash_map"
  deg_map :: "('n, nat, 'd) im_hash_map"
  adj_map :: "('n, 'n list, 'e) im_hash_map"

definition planner_maps_laws :: "('n, 'p, 'd, 'e) planner_maps \<Rightarrow> bool" where
  "planner_maps_laws pm \<longleftrightarrow>
     hash_map_laws (prov_map pm) \<and> hash_map_laws (deg_map pm) \<and> hash_map_laws (adj_map pm)"

fun plan_duplicates :: "'n set \<Rightarrow> 'n dependency_node list \<Rightarrow> (unit, 'n planner_error) result" where
  "plan_duplicates ids [] = Ok ()"
| "plan_duplicates ids (n # ns) =
     (if node_id n \<in> ids then Err (DuplicateProviderId (node_id n))
      else plan_duplicates (insert (node_id n) ids) ns)"

fun plan_providers ::
  "('n, 'n, 'p) im_hash_map \<Rightarrow> 'p \<Rightarrow> 'n dependency_node list \<Rightarrow> ('p, 'n planner_error) result" where
  "plan_providers im m [] = Ok m"
| "plan_providers im m (n # ns) =
     (if hash_has im m (provides n)
      then Err (PlannerConflict (provides n) (the (hash_get im m (provides n))) (node_id n))
      else plan_providers im (hash_set im m (provides n) (node_id n)) ns)"

text \<open>Every node gets an entry in \<open>indegree\<close> and \<open>edges\<close>.\<close>

fun plan_init ::
  "('n, 'p, 'd, 'e) planner_maps \<Rightarrow> 'd \<times> 'e \<Rightarrow> 'n dependency_node list \<Rightarrow> 'd \<times> 'e" where
  "plan_init pm (d, e) [] = (d, e)"
| "plan_init pm (d, e) (n # ns) =
     plan_init pm
       (hash_modify (deg_map pm) d (node_id n) (\<lambda>opt. Some (case opt of Some k \<Rightarrow> k | None \<Rightarrow> 0)),
        hash_modify (adj_map pm) e (node_id n) (\<lambda>opt. Some (case opt of Some vs \<Rightarrow> vs | None \<Rightarrow> []))) ns"

fun plan_requires ::
  "('n, 'p, 'd, 'e) planner_maps \<Rightarrow> 'p \<Rightarrow> 'n \<Rightarrow> 'n list \<Rightarrow> 'd \<times> 'e \<Rightarrow> ('d \<times> 'e, 'n planner_error) result" where
  "plan_requires pm prov i [] (d, e) = Ok (d, e)"
| "plan_requires pm prov i (r # rs) (d, e) = (case hash_get (prov_map pm) prov r of
     None \<Rightarrow> Err (MissingProvider i r)
   | Some p \<Rightarrow>
       (if p = i then plan_requires pm prov i rs (d, e)
        else plan_requires pm prov i rs
          (hash_modify (deg_map pm) d i (\<lambda>opt. Some ((case opt of Some k \<Rightarrow> k | None \<Rightarrow> 0) + 1)),
           hash_modify (adj_map pm) e p (\<lambda>opt. Some ((case opt of Some vs \<Rightarrow> vs | None \<Rightarrow> []) @ [i])))))"

fun plan_wire ::
  "('n, 'p, 'd, 'e) planner_maps \<Rightarrow> 'p \<Rightarrow> 'n dependency_node list \<Rightarrow> 'd \<times> 'e \<Rightarrow> ('d \<times> 'e, 'n planner_error) result" where
  "plan_wire pm prov [] de = Ok de"
| "plan_wire pm prov (n # ns) de =
     result_bind (plan_requires pm prov (node_id n) (requires n) de) (\<lambda>de'. plan_wire pm prov ns de')"

text \<open>The inner loop; \<open>None\<close> is the panic of \<open>expect\<close> or of \<open>d -= 1\<close> at zero.\<close>

fun plan_release ::
  "('n, nat, 'd) im_hash_map \<Rightarrow> 'n list \<Rightarrow> 'd \<Rightarrow> 'n list \<Rightarrow> ('d \<times> 'n list) option" where
  "plan_release im [] d queue = Some (d, queue)"
| "plan_release im (x # xs) d queue = (case hash_get im d x of
     None \<Rightarrow> None
   | Some k \<Rightarrow>
       (if k = 0 then None
        else (let d' = hash_modify im d x (\<lambda>opt. case opt of None \<Rightarrow> None | Some j \<Rightarrow> Some (j - 1))
              in plan_release im xs d'
                   (if hash_get im d' x = Some 0 then list_append queue x else queue))))"

partial_function (option) plan_loop ::
  "('n, 'p, 'd, 'e) planner_maps \<Rightarrow> 'e \<Rightarrow> 'd \<Rightarrow> 'n list \<Rightarrow> 'n list \<Rightarrow> ('d \<times> 'n list) option" where
  "plan_loop pm e d queue order = (case list_shift queue of
     (None, _) \<Rightarrow> Some (d, order)
   | (Some x, queue') \<Rightarrow>
       (case plan_release (deg_map pm)
               (case hash_get (adj_map pm) e x of Some vs \<Rightarrow> vs | None \<Rightarrow> []) d queue' of
          None \<Rightarrow> None
        | Some (d', queue'') \<Rightarrow> plan_loop pm e d' queue'' (list_append order x)))"

definition plan_topological ::
  "('n, 'p, 'd, 'e) planner_maps \<Rightarrow> 'n dependency_node list \<Rightarrow> ('n list, 'n planner_error) result option" where
  "plan_topological pm ns = (case plan_duplicates {} ns of
     Inl err \<Rightarrow> Some (Err err)
   | Inr _ \<Rightarrow> (case plan_providers (prov_map pm) (hash_empty (prov_map pm)) ns of
       Inl err \<Rightarrow> Some (Err err)
     | Inr prov \<Rightarrow>
       (case plan_wire pm prov ns
               (plan_init pm (hash_empty (deg_map pm), hash_empty (adj_map pm)) ns) of
          Inl err \<Rightarrow> Some (Err err)
        | Inr (d, e) \<Rightarrow>
          (case plan_loop pm e d (map fst (filter (\<lambda>(i, deg). deg = 0) (im_iter (deg_map pm) d))) [] of
             None \<Rightarrow> None
           | Some (d', order) \<Rightarrow>
             (if length order \<noteq> length ns
              then Some (Err (PlannerCycle
                     (map fst (filter (\<lambda>(i, deg). 0 < deg) (im_iter (deg_map pm) d')))))
              else Some (Ok order))))))"

definition error_code :: "'n planner_error \<Rightarrow> string" where
  "error_code e = (case e of
     DuplicateProviderId _ \<Rightarrow> ''duplicate-provider-id''
   | PlannerConflict _ _ _ \<Rightarrow> ''conflicting-provider''
   | MissingProvider _ _ \<Rightarrow> ''missing-provider''
   | PlannerCycle _ \<Rightarrow> ''cycle-detected'')"

section \<open>Simulation by the map-level algorithm\<close>

definition planner_error_of :: "'n graph_error \<Rightarrow> 'n planner_error" where
  "planner_error_of e = (case e of
     DuplicateNode i \<Rightarrow> DuplicateProviderId i
   | ConflictingProvider c a b \<Rightarrow> PlannerConflict c a b
   | MissingDependency i r \<Rightarrow> MissingProvider i r
   | CycleDetected ns \<Rightarrow> PlannerCycle ns
   | UnknownNode i \<Rightarrow> DuplicateProviderId i)"

lemma plan_duplicates_sim:
  "plan_duplicates ids ns = result_map_err planner_error_of (check_duplicates ids ns)"
  by (induction ids ns rule: plan_duplicates.induct) (auto simp: planner_error_of_def)

lemma plan_providers_sim:
  assumes "hash_map_laws im"
  shows "(case provider_map (im_get im m) ns of
     Inl e \<Rightarrow> plan_providers im m ns = Err (planner_error_of e)
   | Inr pm \<Rightarrow> \<exists>m'. plan_providers im m ns = Ok m' \<and> im_get im m' = pm)"
proof (induction ns arbitrary: m)
  case Nil
  show ?case by simp
next
  case (Cons n ns)
  have upd: "im_get im (im_update im m (provides n) (node_id n)) =
      (im_get im m)(provides n \<mapsto> node_id n)"
    using assms by (simp add: hash_map_lawsD)
  show ?case
  proof (cases "im_get im m (provides n)")
    case None
    then have "plan_providers im m (n # ns) = plan_providers im (im_update im m (provides n) (node_id n)) ns"
      "provider_map (im_get im m) (n # ns) = provider_map ((im_get im m)(provides n \<mapsto> node_id n)) ns"
      by (simp_all add: hash_has_def hash_set_def fun_upd_def)
    with Cons.IH [of "im_update im m (provides n) (node_id n)", unfolded upd] show ?thesis
      by (simp only:)
  next
    case (Some p)
    then show ?thesis by (simp add: hash_has_def hash_get_def planner_error_of_def)
  qed
qed

lemma plan_release_sim:
  assumes "hash_map_laws im" "release xs (im_get im d) q = Some (ind', q')"
  shows "\<exists>d'. plan_release im xs d q = Some (d', q') \<and> im_get im d' = ind'"
  using assms(2)
proof (induction xs arbitrary: d q)
  case Nil
  then show ?case by simp
next
  case (Cons x xs)
  then obtain k where k: "im_get im d x = Some k" "k \<noteq> 0"
    "release xs ((im_get im d)(x \<mapsto> k - 1)) (if k - 1 = 0 then q @ [x] else q) = Some (ind', q')"
    by (auto split: option.splits if_splits)
  let ?d = "im_alter im (\<lambda>opt. case opt of None \<Rightarrow> None | Some j \<Rightarrow> Some (j - 1)) x d"
  have d: "im_get im ?d = (im_get im d)(x \<mapsto> k - 1)"
    using assms(1) k(1) by (simp add: hash_map_lawsD)
  from Cons.IH [of ?d, unfolded d, OF k(3)] obtain d' where
    d': "plan_release im xs ?d (if k - 1 = 0 then q @ [x] else q) = Some (d', q')" "im_get im d' = ind'"
    by blast
  have "hash_get im ?d x = Some (k - 1)" by (simp add: hash_get_def d)
  with d' k(1,2) show ?case
    by (simp add: hash_get_def hash_modify_def list_append_def Let_def split: if_splits
        del: One_nat_def)
qed

lemma plan_init_sim:
  assumes "planner_maps_laws pm" "distinct (map node_id ns)"
    "\<forall>n \<in> set ns. im_get (deg_map pm) d (node_id n) = None \<and> im_get (adj_map pm) e (node_id n) = None"
    "plan_init pm (d, e) ns = (d', e')"
  shows "im_get (deg_map pm) d' = (\<lambda>v. if v \<in> node_id ` set ns then Some 0 else im_get (deg_map pm) d v) \<and>
    im_get (adj_map pm) e' = (\<lambda>v. if v \<in> node_id ` set ns then Some [] else im_get (adj_map pm) e v)"
  using assms(2-)
proof (induction ns arbitrary: d e)
  case Nil
  then show ?case by simp
next
  case (Cons n ns)
  have laws: "hash_map_laws (deg_map pm)" "hash_map_laws (adj_map pm)"
    using assms(1) by (auto simp: planner_maps_laws_def)
  let ?d = "hash_modify (deg_map pm) d (node_id n) (\<lambda>opt. Some (case opt of Some k \<Rightarrow> k | None \<Rightarrow> 0))"
  let ?e = "hash_modify (adj_map pm) e (node_id n) (\<lambda>opt. Some (case opt of Some vs \<Rightarrow> vs | None \<Rightarrow> []))"
  have d: "im_get (deg_map pm) ?d = (im_get (deg_map pm) d)(node_id n \<mapsto> 0)"
    and e: "im_get (adj_map pm) ?e = (im_get (adj_map pm) e)(node_id n \<mapsto> [])"
    using Cons.prems(2) laws by (simp_all add: hash_modify_def hash_map_lawsD)
  have "im_get (deg_map pm) d' = (\<lambda>v. if v \<in> node_id ` set ns then Some 0 else im_get (deg_map pm) ?d v) \<and>
    im_get (adj_map pm) e' = (\<lambda>v. if v \<in> node_id ` set ns then Some [] else im_get (adj_map pm) ?e v)"
  proof (rule Cons.IH)
    show "\<forall>m \<in> set ns. im_get (deg_map pm) ?d (node_id m) = None \<and> im_get (adj_map pm) ?e (node_id m) = None"
      using Cons.prems(1,2) by (auto simp: d e) (metis imageI)+
  qed (use Cons.prems in auto)
  then show ?case by (auto simp: d e fun_eq_iff)
qed

text \<open>Wiring the requirements is \<open>add_edges\<close> over the edges of the map-level algorithm.\<close>

lemma plan_requires_sim:
  assumes laws: "planner_maps_laws pm" and prov: "im_get (prov_map pm) prov = m"
    and adj: "im_get (adj_map pm) e = (\<lambda>v. if v \<in> N then Some (g v) else None)"
    and deg: "im_get (deg_map pm) d = indegree_map N f"
    and N: "i \<in> N" "ran m \<subseteq> N"
  shows "case required_edges m i rs of
      Inl err \<Rightarrow> plan_requires pm prov i rs (d, e) = Err (planner_error_of err)
    | Inr es \<Rightarrow> \<exists>d' e'. plan_requires pm prov i rs (d, e) = Ok (d', e') \<and>
        im_get (adj_map pm) e' = (\<lambda>v. if v \<in> N then Some (g v @ succs es v) else None) \<and>
        im_get (deg_map pm) d' = indegree_map N (\<lambda>v. f v + indeg es {} v)"
  using adj deg
proof (induction rs arbitrary: d e f g)
  case Nil
  then show ?case by (auto simp: succs_def indeg_def)
next
  case (Cons r rs)
  have l: "hash_map_laws (deg_map pm)" "hash_map_laws (adj_map pm)"
    using laws by (auto simp: planner_maps_laws_def)
  show ?case
  proof (cases "m r")
    case None
    with prov show ?thesis by (simp add: hash_get_def planner_error_of_def)
  next
    case (Some p)
    then have p: "p \<in> N" using N(2) by (blast intro: ranI)
    show ?thesis
    proof (cases "p = i")
      case True
      with Some prov Cons.IH [OF Cons.prems] show ?thesis
        by (simp add: hash_get_def split: sum.splits)
    next
      case False
      let ?d = "hash_modify (deg_map pm) d i (\<lambda>opt. Some ((case opt of Some k \<Rightarrow> k | None \<Rightarrow> 0) + 1))"
      let ?e = "hash_modify (adj_map pm) e p (\<lambda>opt. Some ((case opt of Some vs \<Rightarrow> vs | None \<Rightarrow> []) @ [i]))"
      have d: "im_get (deg_map pm) ?d = indegree_map N (f(i := f i + 1))"
        using l N(1) by (auto simp: hash_modify_def hash_map_lawsD Cons.prems indegree_map_def fun_eq_iff)
      have e: "im_get (adj_map pm) ?e = (\<lambda>v. if v \<in> N then Some ((g(p := g p @ [i])) v) else None)"
        using l p by (auto simp: hash_modify_def hash_map_lawsD Cons.prems fun_eq_iff)
      have step: "plan_requires pm prov i (r # rs) (d, e) = plan_requires pm prov i rs (?d, ?e)"
        using Some prov False by (simp add: hash_get_def)
      show ?thesis
      proof (cases "required_edges m i rs")
        case (Inl err)
        with Cons.IH [OF e d] Some False show ?thesis by (simp add: step del: plan_requires.simps)
      next
        case (Inr es)
        with Cons.IH [OF e d] obtain d' e' where
          ih: "plan_requires pm prov i rs (?d, ?e) = Ok (d', e')"
            "im_get (adj_map pm) e' = (\<lambda>v. if v \<in> N then Some ((g(p := g p @ [i])) v @ succs es v) else None)"
            "im_get (deg_map pm) d' = indegree_map N (\<lambda>v. (f(i := f i + 1)) v + indeg es {} v)" by auto
        have "im_get (adj_map pm) e' = (\<lambda>v. if v \<in> N then Some (g v @ succs ((p, i) # es) v) else None)"
          by (auto simp: ih(2) succs_def fun_eq_iff)
        moreover have "(\<lambda>v. (f(i := f i + 1)) v + indeg es {} v) = (\<lambda>v. f v + indeg ((p, i) # es) {} v)"
          by (auto simp: indeg_def fun_eq_iff)
        ultimately show ?thesis using ih step Some False Inr by (simp del: plan_requires.simps)
      qed
    qed
  qed
qed

lemma indeg_append: "indeg (xs @ ys) S v = indeg xs S v + indeg ys S v"
  by (simp add: indeg_def)

lemma succs_append: "succs (xs @ ys) v = succs xs v @ succs ys v"
  by (simp add: succs_def)

lemma plan_wire_sim:
  assumes laws: "planner_maps_laws pm" and prov: "im_get (prov_map pm) prov = m"
    and adj: "im_get (adj_map pm) e = (\<lambda>v. if v \<in> N then Some (g v) else None)"
    and deg: "im_get (deg_map pm) d = indegree_map N f"
    and N: "node_id ` set ns \<subseteq> N" "ran m \<subseteq> N"
  shows "case dependency_edges m ns of
      Inl err \<Rightarrow> plan_wire pm prov ns (d, e) = Err (planner_error_of err)
    | Inr es \<Rightarrow> \<exists>d' e'. plan_wire pm prov ns (d, e) = Ok (d', e') \<and>
        im_get (adj_map pm) e' = (\<lambda>v. if v \<in> N then Some (g v @ succs es v) else None) \<and>
        im_get (deg_map pm) d' = indegree_map N (\<lambda>v. f v + indeg es {} v)"
  using adj deg N(1)
proof (induction ns arbitrary: d e f g)
  case Nil
  then show ?case by (auto simp: succs_def indeg_def)
next
  case (Cons n ns)
  have i: "node_id n \<in> N" using Cons.prems(3) by simp
  note req = plan_requires_sim [OF laws prov Cons.prems(1,2) i N(2), where rs = "requires n"]
  show ?case
  proof (cases "required_edges m (node_id n) (requires n)")
    case (Inl err)
    with req show ?thesis by simp
  next
    case (Inr es1)
    with req obtain d1 e1 where r: "plan_requires pm prov (node_id n) (requires n) (d, e) = Ok (d1, e1)"
      "im_get (adj_map pm) e1 = (\<lambda>v. if v \<in> N then Some (g v @ succs es1 v) else None)"
      "im_get (deg_map pm) d1 = indegree_map N (\<lambda>v. f v + indeg es1 {} v)" by auto
    note ih = Cons.IH [OF r(2,3)]
    show ?thesis
    proof (cases "dependency_edges m ns")
      case (Inl err)
      with Inr ih r Cons.prems(3) show ?thesis by simp
    next
      case Inr2: (Inr es2)
      with ih Cons.prems(3) obtain d' e' where "plan_wire pm prov ns (d1, e1) = Ok (d', e')"
        "im_get (adj_map pm) e' = (\<lambda>v. if v \<in> N then Some ((g v @ succs es1 v) @ succs es2 v) else None)"
        "im_get (deg_map pm) d' = indegree_map N (\<lambda>v. (f v + indeg es1 {} v) + indeg es2 {} v)" by auto
      with Inr Inr2 r show ?thesis by (simp add: indeg_append succs_append add.assoc cong: if_cong)
    qed
  qed
qed

lemma plan_loop_ok:
  assumes laws: "planner_maps_laws pm" and N: "finite N" "set es \<subseteq> N \<times> N"
    and adj: "im_get (adj_map pm) e = (\<lambda>v. if v \<in> N then Some (succs es v) else None)"
    and inv: "kahn_inv N es q order" and deg: "im_get (deg_map pm) d = indegree_map N (indeg es (set order))"
  shows "\<exists>d' order'. plan_loop pm e d q order = Some (d', order') \<and> kahn_inv N es [] order' \<and>
      im_get (deg_map pm) d' = indegree_map N (indeg es (set order'))"
  using inv deg
proof (induction "card N - length order" arbitrary: q order d rule: less_induct)
  case less
  have l: "hash_map_laws (deg_map pm)" using laws by (simp add: planner_maps_laws_def)
  show ?case
  proof (cases q)
    case Nil
    with less.prems show ?thesis by (subst plan_loop.simps) (auto simp: list_shift_def)
  next
    case (Cons x q')
    from kahn_step [OF less.prems(1) [unfolded Cons] N(2)] obtain new where
      new: "release (succs es x) (im_get (deg_map pm) d) q' =
        Some (indegree_map N (indeg es (set (order @ [x]))), q' @ new)"
        "kahn_inv N es (q' @ new) (order @ [x])" using less.prems(2) by auto
    from plan_release_sim [OF l new(1)] obtain d' where
      d': "plan_release (deg_map pm) (succs es x) d q' = Some (d', q' @ new)"
        "im_get (deg_map pm) d' = indegree_map N (indeg es (set (order @ [x])))" by blast
    have x: "x \<in> N" using less.prems(1) Cons by (auto simp: kahn_inv_def)
    have "card N - length (order @ [x]) < card N - length order"
      using kahn_inv_length [OF less.prems(1) N(1)] Cons by simp
    from less.hyps [OF this new(2) d'(2)] show ?thesis
      using d'(1) Cons x adj
      by (subst plan_loop.simps) (simp add: list_shift_def list_append_def hash_get_def)
  qed
qed

section \<open>What the planner returns\<close>

lemma plan_providers_empty:
  assumes "hash_map_laws im"
  shows "provider_map Map.empty ns = Err e \<Longrightarrow>
      plan_providers im (hash_empty im) ns = Err (planner_error_of e)"
    and "provider_map Map.empty ns = Ok m \<Longrightarrow>
      \<exists>p. plan_providers im (hash_empty im) ns = Ok p \<and> im_get im p = m"
  using plan_providers_sim [OF assms, of "im_new im" ns]
  by (simp_all add: hash_empty_def hash_map_lawsD(1) [OF assms])

lemma plan_setup:
  assumes laws: "planner_maps_laws pm"
    and ok: "check_duplicates {} ns = Ok ()" "provider_map Map.empty ns = Ok m"
  shows "\<exists>p d e. plan_providers (prov_map pm) (hash_empty (prov_map pm)) ns = Ok p \<and>
    plan_init pm (hash_empty (deg_map pm), hash_empty (adj_map pm)) ns = (d, e) \<and>
    (case dependency_edges m ns of
       Inl err \<Rightarrow> plan_wire pm p ns (d, e) = Err (planner_error_of err)
     | Inr es \<Rightarrow> \<exists>d' e'. plan_wire pm p ns (d, e) = Ok (d', e') \<and>
         im_get (adj_map pm) e' = (\<lambda>v. if v \<in> node_id ` set ns then Some (succs es v) else None) \<and>
         im_get (deg_map pm) d' = indegree_map (node_id ` set ns) (indeg es {}))"
proof -
  let ?N = "node_id ` set ns"
  have l: "hash_map_laws (prov_map pm)" "hash_map_laws (deg_map pm)" "hash_map_laws (adj_map pm)"
    using laws by (auto simp: planner_maps_laws_def)
  have d: "distinct (map node_id ns)" using ok(1) by (simp add: check_duplicates_ok)
  have m: "m = providers ns" "distinct (map provides ns)" using ok(2) by (simp_all add: provider_map_ok)
  have ran: "ran m \<subseteq> ?N" using providers_iff [OF m(2)] by (auto simp: m(1) ran_def)
  obtain p where p: "plan_providers (prov_map pm) (hash_empty (prov_map pm)) ns = Ok p"
    "im_get (prov_map pm) p = m" using plan_providers_empty(2) [OF l(1) ok(2)] by blast
  obtain d0 e0 where init: "plan_init pm (hash_empty (deg_map pm), hash_empty (adj_map pm)) ns = (d0, e0)"
    by fastforce
  from plan_init_sim [OF laws d _ init] have
    "im_get (deg_map pm) d0 = indegree_map ?N (\<lambda>_. 0)"
    "im_get (adj_map pm) e0 = (\<lambda>v. if v \<in> ?N then Some [] else None)"
    by (simp_all add: hash_empty_def hash_map_lawsD(1) [OF l(2)] hash_map_lawsD(1) [OF l(3)] indegree_map_def
        cong: if_cong)
  from plan_wire_sim [OF laws p(2) this(2,1) _ ran, of ns] p(1) init show ?thesis
    by (auto cong: if_cong split: sum.splits)
qed

lemma plan_topological_sorted:
  assumes laws: "planner_maps_laws pm"
    and ok: "check_duplicates {} ns = Ok ()" "provider_map Map.empty ns = Ok m" "dependency_edges m ns = Ok es"
  shows "graph_ok (map node_id ns) es"
    and "acyclic (set es) \<Longrightarrow>
      \<exists>order. plan_topological pm ns = Some (Ok order) \<and> topological (map node_id ns) es order"
    and "\<not> acyclic (set es) \<Longrightarrow>
      \<exists>bad. plan_topological pm ns = Some (Err (PlannerCycle bad)) \<and> distinct bad \<and>
        set bad = node_id ` set ns \<inter> behind_cycle es"
proof -
  let ?N = "set (map node_id ns)" and ?deg = "deg_map pm"
  have l: "hash_map_laws (prov_map pm)" "hash_map_laws ?deg" "hash_map_laws (adj_map pm)"
    using laws by (auto simp: planner_maps_laws_def)
  show g: "graph_ok (map node_id ns) es" by (rule resolved_graph_ok [OF ok])
  then have es: "set es \<subseteq> ?N \<times> ?N" by (simp add: graph_ok_def)
  from plan_setup [OF laws ok(1,2)] ok(3) obtain p d0 e0 d1 e1 where
    prov: "plan_providers (prov_map pm) (hash_empty (prov_map pm)) ns = Ok p"
    and init: "plan_init pm (hash_empty ?deg, hash_empty (adj_map pm)) ns = (d0, e0)"
    and wire: "plan_wire pm p ns (d0, e0) = Ok (d1, e1)"
      "im_get (adj_map pm) e1 = (\<lambda>v. if v \<in> ?N then Some (succs es v) else None)"
      "im_get ?deg d1 = indegree_map ?N (indeg es {})" by auto
  let ?q = "map fst (filter (\<lambda>(i, deg). deg = 0) (im_iter ?deg d1))"
  have iter: "distinct (map fst (im_iter ?deg dd))" "(i, k) \<in> set (im_iter ?deg dd) \<longleftrightarrow> im_get ?deg dd i = Some k"
    for dd i k
    using hash_map_lawsD(6,7) [OF l(2), of dd] by (auto simp: map_of_eq_Some_iff [symmetric])
  have "kahn_inv ?N es ?q []"
  proof (rule kahn_inv_init)
    show "distinct ?q" using iter(1) by (rule distinct_map_filter)
    show "set ?q = {v \<in> ?N. indeg es {} v = 0}"
      by (auto simp: iter(2) wire(3) indegree_map_def image_iff split: if_splits)
  qed
  from plan_loop_ok [OF laws finite_set es wire(2) this, of d1] wire(3) obtain d2 order where
    loop: "plan_loop pm e1 d1 ?q [] = Some (d2, order)" "kahn_inv ?N es [] order"
      "im_get ?deg d2 = indegree_map ?N (indeg es (set order))" by auto
  let ?bad = "map fst (filter (\<lambda>(i, deg). 0 < deg) (im_iter ?deg d2))"
  have plan: "plan_topological pm ns =
      (if length order \<noteq> length ns then Some (Err (PlannerCycle ?bad)) else Some (Ok order))"
    using ok(1) prov init wire(1) loop(1)
    by (simp add: plan_topological_def plan_duplicates_sim)
  note res = kahn_result [OF g loop(2)]
  show "\<exists>order. plan_topological pm ns = Some (Ok order) \<and> topological (map node_id ns) es order"
    if "acyclic (set es)" using res(1) [OF that] plan by simp
  have "distinct ?bad" using iter(1) by (rule distinct_map_filter)
  moreover have "set ?bad = {v \<in> ?N. 0 < indeg es (set order) v}"
    by (auto simp: iter(2) loop(3) indegree_map_def image_iff split: if_splits)
  then have "set ?bad = node_id ` set ns \<inter> behind_cycle es" using res(3) by auto
  ultimately show "\<exists>bad. plan_topological pm ns = Some (Err (PlannerCycle bad)) \<and> distinct bad \<and>
        set bad = node_id ` set ns \<inter> behind_cycle es"
    if "\<not> acyclic (set es)" using res(2) [OF that] plan by simp
qed

lemma plan_topological_early:
  assumes laws: "planner_maps_laws pm"
  shows "check_duplicates {} ns = Err e \<Longrightarrow> plan_topological pm ns = Some (Err (planner_error_of e))"
    and "check_duplicates {} ns = Ok () \<Longrightarrow> provider_map Map.empty ns = Err e \<Longrightarrow>
      plan_topological pm ns = Some (Err (planner_error_of e))"
    and "check_duplicates {} ns = Ok () \<Longrightarrow> provider_map Map.empty ns = Ok m \<Longrightarrow>
      dependency_edges m ns = Err e \<Longrightarrow> plan_topological pm ns = Some (Err (planner_error_of e))"
proof -
  have l: "hash_map_laws (prov_map pm)" "hash_map_laws (deg_map pm)" "hash_map_laws (adj_map pm)"
    using laws by (auto simp: planner_maps_laws_def)
  show "check_duplicates {} ns = Err e \<Longrightarrow> plan_topological pm ns = Some (Err (planner_error_of e))"
    by (simp add: plan_topological_def plan_duplicates_sim)
  show "check_duplicates {} ns = Ok () \<Longrightarrow> provider_map Map.empty ns = Err e \<Longrightarrow>
      plan_topological pm ns = Some (Err (planner_error_of e))"
    using plan_providers_empty(1) [OF l(1)] by (simp add: plan_topological_def plan_duplicates_sim)
  assume ok: "check_duplicates {} ns = Ok ()" "provider_map Map.empty ns = Ok m" "dependency_edges m ns = Err e"
  with plan_setup [OF laws ok(1,2)] show "plan_topological pm ns = Some (Err (planner_error_of e))"
    by (auto simp: plan_topological_def plan_duplicates_sim)
qed

lemma plan_resolved:
  assumes laws: "planner_maps_laws pm" and plan: "plan_topological pm ns = Some (Ok order)"
  shows "\<exists>m es. check_duplicates {} ns = Ok () \<and> provider_map Map.empty ns = Ok m \<and>
    dependency_edges m ns = Ok es \<and> topological (map node_id ns) es order"
proof -
  note early = plan_topological_early [OF laws, of ns]
  have dup: "check_duplicates {} ns = Ok ()"
    using early(1) plan by (cases "check_duplicates {} ns") auto
  moreover obtain m where m: "provider_map Map.empty ns = Ok m"
    using early(2) [OF dup] plan by (cases "provider_map Map.empty ns") auto
  moreover obtain es where es: "dependency_edges m ns = Ok es"
    using early(3) [OF dup m] plan by (cases "dependency_edges m ns") auto
  moreover note plan_topological_sorted [OF laws dup m es]
  ultimately show ?thesis using plan by (cases "acyclic (set es)") auto
qed

lemma plan_topological_total:
  assumes laws: "planner_maps_laws pm"
  shows "plan_topological pm ns \<noteq> None"
proof (cases "check_duplicates {} ns")
  case (Inl e)
  with plan_topological_early(1) [OF laws] show ?thesis by simp
next
  case dup: (Inr u)
  then have dup: "check_duplicates {} ns = Ok ()" by simp
  show ?thesis
  proof (cases "provider_map Map.empty ns")
    case (Inl e)
    with plan_topological_early(2) [OF laws dup] show ?thesis by simp
  next
    case m: (Inr m)
    show ?thesis
    proof (cases "dependency_edges m ns")
      case (Inl e)
      with plan_topological_early(3) [OF laws dup m] show ?thesis by simp
    next
      case (Inr es)
      from plan_topological_sorted(2,3) [OF laws dup m Inr] show ?thesis
        by (cases "acyclic (set es)") auto
    qed
  qed
qed

lemma early_errors:
  "check_duplicates ids ns = Err e \<Longrightarrow> \<exists>i. e = DuplicateNode i"
  "provider_map m ns = Err e \<Longrightarrow> \<exists>c a b. e = ConflictingProvider c a b"
  "required_edges m i rs = Err e \<Longrightarrow> \<exists>i r. e = MissingDependency i r"
  "dependency_edges m ns = Err e \<Longrightarrow> \<exists>i r. e = MissingDependency i r"
proof -
  show "check_duplicates ids ns = Err e \<Longrightarrow> \<exists>i. e = DuplicateNode i"
    by (induction ids ns rule: check_duplicates.induct) (auto split: if_splits)
  show "provider_map m ns = Err e \<Longrightarrow> \<exists>c a b. e = ConflictingProvider c a b"
    by (induction m ns rule: provider_map.induct) (auto split: option.splits)
  have req: "required_edges m i rs = Err e \<Longrightarrow> \<exists>i r. e = MissingDependency i r" for i rs
    by (induction rs) (auto simp: result_map_def split: option.splits sum.splits)
  then show "required_edges m i rs = Err e \<Longrightarrow> \<exists>i r. e = MissingDependency i r" .
  show "dependency_edges m ns = Err e \<Longrightarrow> \<exists>i r. e = MissingDependency i r"
    by (induction ns) (auto simp: result_map_def result_bind_def dest: req split: sum.splits)
qed

text \<open>Association lists for the three maps.\<close>

definition alist_maps :: "('n, ('n \<times> 'n) list, ('n \<times> nat) list, ('n \<times> 'n list) list) planner_maps" where
  "alist_maps = \<lparr>prov_map = alist_map, deg_map = alist_map, adj_map = alist_map\<rparr>"

lemma alist_maps_laws: "planner_maps_laws alist_maps"
  by (simp add: planner_maps_laws_def alist_maps_def alist_map_laws)

section \<open>Properties\<close>

text \<open>
  The capability planner always answers, whatever the iteration order of the hash maps is; an
  order it returns lists every provider once and puts the provider of each required capability
  before the provider that requires it.
\<close>

theorem plan_topological_spec:
  assumes "planner_maps_laws pm"
  shows "plan_topological pm ns \<noteq> None \<and>
    (\<forall>order. plan_topological pm ns = Some (Ok order) \<longrightarrow>
      distinct order \<and> set order = node_id ` set ns \<and>
      (\<forall>n \<in> set ns. \<forall>r \<in> set (requires n).
         \<exists>p \<in> set ns. provides p = r \<and> (p = n \<or> precedes order (node_id p) (node_id n))))"
proof (intro conjI allI impI plan_topological_total [OF assms])
  fix order
  assume "plan_topological pm ns = Some (Ok order)"
  with plan_resolved [OF assms] obtain m es where
    r: "check_duplicates {} ns = Ok ()" "provider_map Map.empty ns = Ok m" "dependency_edges m ns = Ok es"
    and t: "topological (map node_id ns) es order" by blast
  from t show "distinct order" "set order = node_id ` set ns" by (auto simp: topological_def)
  show "\<forall>n \<in> set ns. \<forall>r \<in> set (requires n).
      \<exists>p \<in> set ns. provides p = r \<and> (p = n \<or> precedes order (node_id p) (node_id n))"
    using requirement_first [OF r] t by (simp add: topological_def)
qed

lemma plan_topological_spec_witness:
  "plan_topological alist_maps
      [\<lparr>node_id = 2, requires = [10], provides = 20\<rparr>, \<lparr>node_id = 1, requires = [], provides = 10 :: nat\<rparr>] =
    Some (Ok [1, 2]) \<and> distinct [1, 2 :: nat] \<and> precedes [1, 2 :: nat] 1 2"
proof -
  let ?ns = "[\<lparr>node_id = 2, requires = [10], provides = 20\<rparr>, \<lparr>node_id = 1, requires = [], provides = 10 :: nat\<rparr>]"
  have p: "plan_topological alist_maps ?ns = Some (Ok [1, 2])"
    by (simp add: plan_topological_def alist_maps_def alist_map_def hash_empty_def hash_has_def
        hash_get_def hash_set_def hash_modify_def plan_loop.simps list_shift_def list_append_def Let_def)
  with plan_topological_spec [OF alist_maps_laws, of ?ns] show ?thesis by auto
qed

text \<open>
  C7. The two topological planners of the workspace agree: on every input the capability planner
  and \<open>topological_sort\<close> of the graph crate report the same duplicate, conflicting and missing
  providers, both find an order or both find a cycle, and they name the same nodes.
\<close>

theorem planner_agrees:
  assumes "planner_maps_laws pm"
  shows "case topological_sort ns of
      None \<Rightarrow> False
    | Some (Inr order) \<Rightarrow> \<exists>order'. plan_topological pm ns = Some (Ok order') \<and> set order' = set order
    | Some (Inl (CycleDetected bad)) \<Rightarrow>
        \<exists>bad'. plan_topological pm ns = Some (Err (PlannerCycle bad')) \<and> set bad' = set bad
    | Some (Inl e) \<Rightarrow> plan_topological pm ns = Some (Err (planner_error_of e))"
proof (cases "check_duplicates {} ns")
  case (Inl e)
  with plan_topological_early(1) [OF assms Inl] early_errors(1) [OF Inl] show ?thesis
    by (auto simp: topological_sort_def)
next
  case (Inr u)
  then have dup: "check_duplicates {} ns = Ok ()" by simp
  show ?thesis
  proof (cases "provider_map Map.empty ns")
    case (Inl e)
    with plan_topological_early(2) [OF assms dup Inl] early_errors(2) [OF Inl] dup show ?thesis
      by (auto simp: topological_sort_def)
  next
    case m: (Inr m)
    show ?thesis
    proof (cases "dependency_edges m ns")
      case (Inl e)
      with plan_topological_early(3) [OF assms dup m Inl] early_errors(4) [OF Inl] dup m show ?thesis
        by (auto simp: topological_sort_def)
    next
      case es: (Inr es)
      have ts: "topological_sort ns = sort_explicit (sort (map node_id ns)) es"
        using dup m es by (simp add: topological_sort_def)
      note plan = plan_topological_sorted [OF assms dup m es]
      note sorted = sort_explicit_correct [OF topological_sort_edges_ok [OF dup m es]]
      show ?thesis
      proof (cases "acyclic (set es)")
        case True
        with plan(2) sorted(1) show ?thesis by (fastforce simp: ts topological_def)
      next
        case False
        with plan(3) sorted(2) show ?thesis by (fastforce simp: ts)
      qed
    qed
  qed
qed

lemma planner_agrees_witness:
  "case topological_sort [\<lparr>node_id = 2, requires = [10], provides = 20\<rparr>, \<lparr>node_id = 1, requires = [20], provides = 10 :: nat\<rparr>] of
      None \<Rightarrow> False
    | Some (Inr order) \<Rightarrow> False
    | Some (Inl (CycleDetected bad)) \<Rightarrow> bad = [1, 2] \<and>
        (\<exists>bad'. plan_topological alist_maps
          [\<lparr>node_id = 2, requires = [10], provides = 20\<rparr>, \<lparr>node_id = 1, requires = [20], provides = 10 :: nat\<rparr>] =
          Some (Err (PlannerCycle bad')) \<and> set bad' = {1, 2})
    | Some (Inl e) \<Rightarrow> False"
proof -
  let ?ns = "[\<lparr>node_id = 2, requires = [10], provides = 20\<rparr>, \<lparr>node_id = 1, requires = [20], provides = 10 :: nat\<rparr>]"
  have "topological_sort ?ns = Some (Err (CycleDetected [1, 2]))"
    by (simp add: topological_sort_def sort_explicit_def kahn_loop.simps)
  with planner_agrees [OF alist_maps_laws, of ?ns] show ?thesis by simp
qed

end
