(* ===== verification/Capability.thy ===== *)
theory Capability
  imports Planner Effects
begin

text \<open>
  \<open>crates/id_effect/src/capability\<close>: capability ids (\<open>id.rs\<close>), the environment (\<open>env.rs\<close>),
  providers (\<open>provider.rs\<close>), the provider graph (\<open>graph.rs\<close>) and the entry points (\<open>run.rs\<close>).

  \<open>TypeId\<close>s are values of a type \<open>'t\<close>, service values (\<open>Arc<dyn Any>\<close>) of one type \<open>'v\<close>; the type
  of a key determines the type of its value, so the downcasts of \<open>try_get\<close> succeed. The \<open>Debug\<close>
  text of a capability id is an argument \<open>dbg\<close>. \<open>run_blocking\<close> on an effect of this crate is \<open>run\<close>
  with the environment it leaves behind dropped; a future that never resolves is \<open>None\<close>.
\<close>

section \<open>Capability ids and the environment\<close>

record 't capability_id =
  type_id :: 't
  variant :: "string option"

definition cap_of :: "'t \<Rightarrow> 't capability_id" where
  "cap_of t = \<lparr>type_id = t, variant = None\<rparr>"

definition with_variant :: "'t capability_id \<Rightarrow> string option \<Rightarrow> 't capability_id" where
  "with_variant c v = \<lparr>type_id = type_id c, variant = v\<rparr>"

type_synonym ('t, 'v) env = "'t \<rightharpoonup> 'v"

definition env_new :: "('t, 'v) env" where "env_new = Map.empty"

definition env_insert :: "('t, 'v) env \<Rightarrow> 't \<Rightarrow> 'v \<Rightarrow> ('t, 'v) env" where
  "env_insert env key value = env(type_id (cap_of key) \<mapsto> value)"

datatype 't capability_error =
    Missing "'t capability_id"
  | Conflicting "'t capability_id" string string

definition try_get :: "('t, 'v) env \<Rightarrow> 't \<Rightarrow> ('v, 't capability_error) result" where
  "try_get env key = (case env (type_id (cap_of key)) of
     None \<Rightarrow> Err (Missing (cap_of key)) | Some v \<Rightarrow> Ok v)"

definition env_has :: "('t, 'v) env \<Rightarrow> 't \<Rightarrow> bool" where
  "env_has env key \<longleftrightarrow> env (type_id (cap_of key)) \<noteq> None"

text \<open>\<open>CapKeys::verify_all\<close> over a tuple of keys.\<close>

fun verify_all :: "('t, 'v) env \<Rightarrow> 't list \<Rightarrow> (unit, 't capability_error) result" where
  "verify_all env [] = Ok ()"
| "verify_all env (k # ks) = result_bind (try_get env k) (\<lambda>_. verify_all env ks)"

section \<open>Providers\<close>

record provider_error =
  provider :: string
  message :: string

text \<open>\<open>ProviderNode\<close>, the erased provider the graph works with.\<close>

record ('t, 'v, 'w) provider_node =
  n_id :: string
  n_requires :: "'t capability_id list"
  n_optional :: "'t capability_id list"
  n_provides :: "'t capability_id"
  n_cap_name :: string
  n_effectful :: bool
  n_build :: "('t, 'v) env \<Rightarrow> (('t, 'v) env, provider_error) result"
  n_build_effect :: "('t, 'v) env \<Rightarrow> (('t, 'v) env, provider_error, ('t, 'v) env, 'w) effect"

text \<open>\<open>ProviderSpec\<close>, what an author of a provider writes.\<close>

record ('t, 'v, 'w) provider_spec =
  s_id :: string
  s_key :: 't
  s_variant :: "string option"
  s_requires :: "'t capability_id list"
  s_optional :: "'t capability_id list"
  s_name :: string
  s_shared :: bool
  s_effectful :: bool
  s_provide :: "('t, 'v) env \<Rightarrow> ('v, provider_error) result"
  s_provide_effect :: "('t, 'v) env \<Rightarrow> ('v, provider_error, ('t, 'v) env, 'w) effect"

definition s_provides :: "('t, 'v, 'w) provider_spec \<Rightarrow> 't capability_id" where
  "s_provides s = with_variant (cap_of (s_key s)) (s_variant s)"

text \<open>The cells of \<open>Provider<P>\<close>: the last output and the shared instance.\<close>

record 'v provider_cells =
  last_output :: "'v option"
  shared_cell :: "'v option"

definition provider_default :: "'v provider_cells" where
  "provider_default = \<lparr>last_output = None, shared_cell = None\<rparr>"

definition provider_build ::
  "('t, 'v, 'w) provider_spec \<Rightarrow> 'v provider_cells \<Rightarrow> ('t, 'v) env \<Rightarrow>
    (('t, 'v) env, provider_error) result \<times> 'v provider_cells" where
  "provider_build s st deps =
     (case (if s_shared s
            then (case shared_cell st of
                    Some v \<Rightarrow> (Ok v, st)
                  | None \<Rightarrow> (case s_provide s deps of
                      Inl e \<Rightarrow> (Err e, st) | Inr built \<Rightarrow> (Ok built, st\<lparr>shared_cell := Some built\<rparr>)))
            else (s_provide s deps, st)) of
        (Inl e, st') \<Rightarrow> (Err e, st')
      | (Inr value, st') \<Rightarrow> (Ok (env_insert deps (s_key s) value), st'\<lparr>last_output := Some value\<rparr>))"

definition provider_build_effect ::
  "('t, 'v, 'w) provider_spec \<Rightarrow> ('t, 'v) env \<Rightarrow> (('t, 'v) env, provider_error, ('t, 'v) env, 'w) effect" where
  "provider_build_effect s deps =
     flat_map (s_provide_effect s deps) (\<lambda>value. succeed (env_insert deps (s_key s) value))"

text \<open>The node of a provider whose cells hold \<open>st\<close>, as the graph sees it during one build.\<close>

definition provider_node_of :: "('t, 'v, 'w) provider_spec \<Rightarrow> 'v provider_cells \<Rightarrow> ('t, 'v, 'w) provider_node" where
  "provider_node_of s st = \<lparr>n_id = s_id s, n_requires = s_requires s, n_optional = s_optional s,
     n_provides = s_provides s, n_cap_name = s_name s, n_effectful = s_effectful s,
     n_build = (\<lambda>deps. fst (provider_build s st deps)), n_build_effect = provider_build_effect s\<rparr>"

section \<open>The provider graph\<close>

type_synonym ('t, 'v, 'w) capability_graph = "('t, 'v, 'w) provider_node list"

definition planner_cap_key :: "'t capability_id \<Rightarrow> string \<Rightarrow> string" where
  "planner_cap_key cap name = (case variant cap of Some v \<Rightarrow> name @ '':'' @ v | None \<Rightarrow> name)"

text \<open>The maps of \<open>plan\<close> and \<open>check_provider_conflicts\<close>, beside those of the planner.\<close>

record ('t, 'p, 'd, 'e, 'c, 'm) graph_maps =
  plan_maps :: "(string, 'p, 'd, 'e) planner_maps"
  conflict_map :: "('t capability_id, string \<times> string, 'c) im_hash_map"
  name_map :: "('t capability_id, string, 'm) im_hash_map"

fun check_provider_conflicts ::
  "('t capability_id, string \<times> string, 'c) im_hash_map \<Rightarrow> 'c \<Rightarrow> ('t, 'v, 'w) capability_graph \<Rightarrow>
    (unit, string planner_error) result" where
  "check_provider_conflicts im m [] = Ok ()"
| "check_provider_conflicts im m (n # ns) = (case hash_get im m (n_provides n) of
     Some (first_id, first_name) \<Rightarrow> Err (PlannerConflict first_name first_id (n_id n))
   | None \<Rightarrow> check_provider_conflicts im (hash_set im m (n_provides n) (n_id n, n_cap_name n)) ns)"

definition cap_names ::
  "('t capability_id, string, 'm) im_hash_map \<Rightarrow> ('t, 'v, 'w) capability_graph \<Rightarrow> 'm" where
  "cap_names im ns = foldl (\<lambda>m n. hash_set im m (n_provides n) (planner_cap_key (n_provides n) (n_cap_name n)))
     (hash_empty im) ns"

definition planner_node ::
  "('t capability_id \<Rightarrow> string) \<Rightarrow> ('t capability_id, string, 'm) im_hash_map \<Rightarrow>
    ('t, 'v, 'w) capability_graph \<Rightarrow> ('t, 'v, 'w) provider_node \<Rightarrow> string dependency_node" where
  "planner_node dbg im ns n = dependency_node_new (n_id n)
     (map (\<lambda>cap. case hash_get im (cap_names im ns) cap of
             Some k \<Rightarrow> k | None \<Rightarrow> planner_cap_key cap (dbg cap))
        (filter (\<lambda>cap. cap \<in> n_provides ` set ns \<or> cap \<notin> set (n_optional n)) (n_requires n)))
     (planner_cap_key (n_provides n) (n_cap_name n))"

text \<open>\<open>position(..).expect(..)\<close>: the index of the first node with the id.\<close>

fun position :: "('a \<Rightarrow> bool) \<Rightarrow> 'a list \<Rightarrow> nat option" where
  "position P [] = None"
| "position P (x # xs) = (if P x then Some 0 else map_option Suc (position P xs))"

fun indices_of :: "('t, 'v, 'w) capability_graph \<Rightarrow> string list \<Rightarrow> nat list option" where
  "indices_of ns [] = Some []"
| "indices_of ns (i # is) = (case position (\<lambda>n. n_id n = i) ns of
     None \<Rightarrow> None
   | Some idx \<Rightarrow> map_option (\<lambda>rest. idx # rest) (indices_of ns is))"

definition plan ::
  "('t capability_id \<Rightarrow> string) \<Rightarrow> ('t, 'p, 'd, 'e, 'c, 'm) graph_maps \<Rightarrow> ('t, 'v, 'w) capability_graph \<Rightarrow>
    (nat list, string planner_error) result option" where
  "plan dbg gm ns = (case check_provider_conflicts (conflict_map gm) (hash_empty (conflict_map gm)) ns of
     Inl e \<Rightarrow> Some (Err e)
   | Inr _ \<Rightarrow>
     (case plan_topological (plan_maps gm) (map (planner_node dbg (name_map gm) ns) ns) of
        None \<Rightarrow> None
      | Some (Inl e) \<Rightarrow> Some (Err e)
      | Some (Inr order) \<Rightarrow> map_option Ok (indices_of ns order)))"

definition map_provider_err :: "string \<Rightarrow> provider_error \<Rightarrow> string planner_error" where
  "map_provider_err p e = MissingProvider p (message e)"

text \<open>
  The loop of \<open>build_from\<close> over the planned order. The outer \<open>None\<close> is an index out of range or an
  effectful build that never resolves; the world \<open>w\<close> is threaded through the effectful builds.
\<close>

fun build_order ::
  "('t, 'v, 'w) capability_graph \<Rightarrow> nat list \<Rightarrow> ('t, 'v) env \<Rightarrow> 'w \<Rightarrow>
    ((('t, 'v) env, string planner_error) result \<times> 'w) option" where
  "build_order ns [] env w = Some (Ok env, w)"
| "build_order ns (i # is) env w =
     (if length ns \<le> i then None
      else if n_effectful (ns ! i)
      then (case run (n_build_effect (ns ! i) env) env w of
              None \<Rightarrow> None
            | Some (Inl e, _, w') \<Rightarrow> Some (Err (map_provider_err (n_id (ns ! i)) e), w')
            | Some (Inr env', _, w') \<Rightarrow> build_order ns is env' w')
      else (case n_build (ns ! i) env of
              Inl e \<Rightarrow> Some (Err (map_provider_err (n_id (ns ! i)) e), w)
            | Inr env' \<Rightarrow> build_order ns is env' w))"

definition build_from ::
  "('t capability_id \<Rightarrow> string) \<Rightarrow> ('t, 'p, 'd, 'e, 'c, 'm) graph_maps \<Rightarrow> ('t, 'v, 'w) capability_graph \<Rightarrow>
    ('t, 'v) env \<Rightarrow> 'w \<Rightarrow> ((('t, 'v) env, string planner_error) result \<times> 'w) option" where
  "build_from dbg gm ns env w = (case plan dbg gm ns of
     None \<Rightarrow> None
   | Some (Inl e) \<Rightarrow> Some (Err e, w)
   | Some (Inr order) \<Rightarrow> build_order ns order env w)"

definition build ::
  "('t capability_id \<Rightarrow> string) \<Rightarrow> ('t, 'p, 'd, 'e, 'c, 'm) graph_maps \<Rightarrow> ('t, 'v, 'w) capability_graph \<Rightarrow>
    'w \<Rightarrow> ((('t, 'v) env, string planner_error) result \<times> 'w) option" where
  "build dbg gm ns w = build_from dbg gm ns env_new w"

section \<open>Entry point\<close>

datatype ('t, 'e) run_error =
    CapabilityFailure "'t capability_error"
  | PlannerFailure "string planner_error"
  | EffectFailure 'e

text \<open>
  \<open>run_with\<close> with the shutdown hooks as the ids of their providers: the third component lists the
  providers that are shut down, in the order in which they are.
\<close>

definition run_with ::
  "('t capability_id \<Rightarrow> string) \<Rightarrow> ('t, 'p, 'd, 'e, 'c, 'm) graph_maps \<Rightarrow> ('t, 'v, 'w) capability_graph \<Rightarrow>
    't list \<Rightarrow> ('a, 'err, ('t, 'v) env, 'w) effect \<Rightarrow> 'w \<Rightarrow>
    (('a, ('t, 'err) run_error) result \<times> 'w \<times> string list) option" where
  "run_with dbg gm provs keys app w =
     (let hooks = map n_id provs in
      case build dbg gm provs w of
        None \<Rightarrow> None
      | Some (Inl e, w1) \<Rightarrow> Some (Err (PlannerFailure e), w1, [])
      | Some (Inr env, w1) \<Rightarrow>
          (case verify_all env keys of
             Inl e \<Rightarrow> Some (Err (CapabilityFailure e), w1, [])
           | Inr _ \<Rightarrow>
               (case run app env w1 of
                  None \<Rightarrow> None
                | Some (res, _, w2) \<Rightarrow> Some (result_map_err EffectFailure res, w2, rev hooks))))"

section \<open>Planning\<close>

definition graph_maps_laws :: "('t, 'p, 'd, 'e, 'c, 'm) graph_maps \<Rightarrow> bool" where
  "graph_maps_laws gm \<longleftrightarrow> planner_maps_laws (plan_maps gm) \<and> hash_map_laws (conflict_map gm) \<and>
     hash_map_laws (name_map gm)"

lemma check_provider_conflicts_ok:
  assumes "hash_map_laws im"
  shows "check_provider_conflicts im m ns = Ok u \<longleftrightarrow>
    distinct (map n_provides ns) \<and> dom (im_get im m) \<inter> n_provides ` set ns = {}"
  by (induction ns arbitrary: m)
    (auto simp: hash_get_def hash_set_def hash_map_lawsD [OF assms] split: option.splits)

lemma cap_names_get:
  assumes laws: "hash_map_laws im" and d: "distinct (map n_provides ns)" and n: "n \<in> set ns"
  shows "hash_get im (cap_names im ns) (n_provides n) = Some (planner_cap_key (n_provides n) (n_cap_name n))"
proof -
  let ?f = "\<lambda>m n. hash_set im m (n_provides n) (planner_cap_key (n_provides n) (n_cap_name n))"
  have keep: "c \<notin> n_provides ` set ns \<Longrightarrow> im_get im (foldl ?f m ns) c = im_get im m c" for c m ns
    by (induction ns arbitrary: m) (auto simp: hash_set_def hash_map_lawsD [OF laws])
  have "im_get im (foldl ?f m ns) (n_provides n) = Some (planner_cap_key (n_provides n) (n_cap_name n))" for m
    using d n
  proof (induction ns arbitrary: m)
    case (Cons x xs)
    then show ?case
      by (cases "n = x") (auto simp: keep [unfolded hash_set_def] hash_set_def hash_map_lawsD [OF laws])
  qed simp
  then show ?thesis by (simp add: hash_get_def cap_names_def)
qed

lemma position_Some:
  "position P xs = Some i \<Longrightarrow> i < length xs \<and> P (xs ! i)"
  by (induction xs arbitrary: i) (auto split: if_splits)

lemma position_None: "position P xs = None \<longleftrightarrow> (\<forall>x \<in> set xs. \<not> P x)"
  by (induction xs) auto

lemma indices_of_ids:
  "indices_of ns is = Some idx \<Longrightarrow> map (\<lambda>x. n_id (ns ! x)) idx = is \<and> set idx \<subseteq> {..<length ns}"
  by (induction "is" arbitrary: idx) (auto dest: position_Some split: option.splits)

lemma indices_of_total:
  "set is \<subseteq> n_id ` set ns \<Longrightarrow> indices_of ns is \<noteq> None"
  by (induction "is") (auto simp: position_None split: option.split)

lemma precedes_map_inj:
  assumes "inj_on f A" "set xs \<subseteq> A" "a \<in> A" "b \<in> A" "precedes (map f xs) (f a) (f b)"
  shows "precedes xs a b"
proof -
  from assms(5) obtain i j where ij: "i < j" "j < length xs" "f (xs ! i) = f a" "f (xs ! j) = f b"
    by (auto simp: precedes_def)
  moreover have "xs ! i \<in> A" "xs ! j \<in> A" using assms(2) ij(1,2) by (simp_all add: subset_iff)
  ultimately have "xs ! i = a" "xs ! j = b" using assms(1,3,4) by (auto dest: inj_onD)
  with ij show ?thesis unfolding precedes_def by blast
qed

lemma node_id_planner_node [simp]: "node_id (planner_node dbg im ns n) = n_id n"
  by (simp add: planner_node_def dependency_node_new_def)

lemma plan_total:
  assumes "graph_maps_laws gm"
  shows "plan dbg gm ns \<noteq> None"
proof -
  have laws: "planner_maps_laws (plan_maps gm)" using assms by (simp add: graph_maps_laws_def)
  let ?pns = "map (planner_node dbg (name_map gm) ns) ns"
  have "indices_of ns order \<noteq> None" if "plan_topological (plan_maps gm) ?pns = Some (Ok order)" for order
    using plan_resolved [OF laws that] by (intro indices_of_total) (auto simp: topological_def image_image)
  with plan_topological_total [OF laws, of ?pns] show ?thesis
    by (auto simp: plan_def split: option.split sum.split)
qed

lemma plan_ok:
  assumes laws: "graph_maps_laws gm" and plan: "plan dbg gm ns = Some (Ok idx)"
  shows "distinct idx" "set idx = {..<length ns}"
    and "\<And>i j. i < length ns \<Longrightarrow> j < length ns \<Longrightarrow> n_provides (ns ! j) \<in> set (n_requires (ns ! i)) \<Longrightarrow>
      i = j \<or> precedes idx j i"
proof -
  have pl: "planner_maps_laws (plan_maps gm)" and cl: "hash_map_laws (conflict_map gm)"
    and nl: "hash_map_laws (name_map gm)" using laws by (auto simp: graph_maps_laws_def)
  let ?pn = "planner_node dbg (name_map gm) ns" and ?id = "\<lambda>x. n_id (ns ! x)"
  let ?pns = "map ?pn ns"
  from plan obtain order where
    conf: "check_provider_conflicts (conflict_map gm) (hash_empty (conflict_map gm)) ns = Ok ()"
    and order: "plan_topological (plan_maps gm) ?pns = Some (Ok order)"
    and idx: "indices_of ns order = Some idx"
    by (auto simp: plan_def split: sum.splits option.splits)
  have dp: "distinct (map n_provides ns)" using conf by (simp add: check_provider_conflicts_ok [OF cl])
  from plan_resolved [OF pl order] obtain m es where
    r: "check_duplicates {} ?pns = Ok ()" "provider_map Map.empty ?pns = Ok m" "dependency_edges m ?pns = Ok es"
    and t: "topological (map node_id ?pns) es order" by blast
  have did: "distinct (map n_id ns)" using r(1) by (simp add: check_duplicates_ok o_def)
  have ids: "map ?id idx = order" "set idx \<subseteq> {..<length ns}" using indices_of_ids [OF idx] by auto
  show d: "distinct idx" using t ids(1) by (auto simp: topological_def distinct_map)
  have inj: "inj_on ?id {..<length ns}" using did by (auto simp: inj_on_def distinct_conv_nth)
  have "?id ` set idx = ?id ` {..<length ns}"
  proof -
    have "?id ` set idx = n_id ` set ns" using t ids(1) by (auto simp: topological_def image_image)
    then show ?thesis by (auto simp: set_conv_nth image_iff)
  qed
  then show "set idx = {..<length ns}" using inj ids(2) by (simp add: inj_on_image_eq_iff)
  fix i j
  assume i: "i < length ns" and j: "j < length ns" and req: "n_provides (ns ! j) \<in> set (n_requires (ns ! i))"
  let ?key = "planner_cap_key (n_provides (ns ! j)) (n_cap_name (ns ! j))"
  have key: "?key \<in> set (requires (?pn (ns ! i)))"
    using req j cap_names_get [OF nl dp nth_mem [OF j]]
    by (force simp: planner_node_def dependency_node_new_def image_iff)
  have mem: "?pn (ns ! i) \<in> set ?pns" "?pn (ns ! j) \<in> set ?pns" using i j by auto
  have "\<forall>(a, b) \<in> set es. precedes order a b" using t by (simp add: topological_def)
  from requirement_first [OF r this mem(1) key] obtain p where
    p: "p \<in> set ?pns" "provides p = ?key" "p = ?pn (ns ! i) \<or> precedes order (node_id p) (?id i)"
    unfolding node_id_planner_node by blast
  have "provides (?pn (ns ! j)) = ?key" by (simp add: planner_node_def dependency_node_new_def)
  moreover have "distinct (map provides ?pns)" using r(2) by (simp add: provider_map_ok)
  then have "inj_on provides (set ?pns)" by (rule distinct_map [THEN iffD1, THEN conjunct2])
  ultimately have pj: "p = ?pn (ns ! j)" using p(1,2) mem(2) by (metis inj_onD)
  show "i = j \<or> precedes idx j i"
  proof (cases "p = ?pn (ns ! i)")
    case True
    with pj have "?id i = ?id j" by (metis node_id_planner_node)
    with inj i j show ?thesis by (auto dest: inj_onD)
  next
    case False
    with p(3) pj have "precedes (map ?id idx) (?id j) (?id i)" by (simp add: ids(1))
    from precedes_map_inj [OF inj ids(2) _ _ this] i j show ?thesis by simp
  qed
qed


section \<open>Building\<close>

lemma build_order_append:
  "build_order ns (xs @ ys) env w = (case build_order ns xs env w of
     None \<Rightarrow> None
   | Some (Inl e, w') \<Rightarrow> Some (Err e, w')
   | Some (Inr env', w') \<Rightarrow> build_order ns ys env' w')"
  by (induction xs arbitrary: env w) (auto split: option.split sum.split prod.split)

text \<open>A graph of the library's own \<open>Provider<P>\<close> nodes.\<close>

definition provider_graph :: "(('t, 'v, 'w) provider_spec \<times> 'v provider_cells) list \<Rightarrow> ('t, 'v, 'w) capability_graph" where
  "provider_graph ps = map (\<lambda>(s, st). provider_node_of s st) ps"

lemma provider_build_dom:
  assumes "fst (provider_build s st deps) = Ok env'"
  shows "dom env' = insert (s_key s) (dom deps)"
  using assms
  by (auto simp: provider_build_def env_insert_def cap_of_def split: prod.splits sum.splits if_splits)

lemma provider_build_effect_dom:
  assumes "run (provider_build_effect s deps) r w = Some (Ok env', r', w')"
  shows "dom env' = insert (s_key s) (dom deps)"
  using assms
  by (auto simp: provider_build_effect_def flat_map_def new_async_def run_def succeed_def new_sync_def
      env_insert_def cap_of_def split: sum.splits elim!: Option.bind_eq_Some_conv [THEN iffD1, elim_format])

lemma build_order_dom:
  assumes "build_order (provider_graph ps) is env w = Some (Ok env', w')"
  shows "dom env' = dom env \<union> (\<lambda>i. s_key (fst (ps ! i))) ` set is"
  using assms
proof (induction "is" arbitrary: env w)
  case Nil
  then show ?case by simp
next
  case (Cons i "is")
  let ?n = "provider_graph ps ! i"
  have i: "i < length ps" using Cons.prems by (auto simp: provider_graph_def split: if_splits)
  then have n: "?n = provider_node_of (fst (ps ! i)) (snd (ps ! i))"
    by (simp add: provider_graph_def case_prod_unfold)
  have len: "length (provider_graph ps) = length ps" by (simp add: provider_graph_def)
  have "\<exists>env1 w1. dom env1 = insert (s_key (fst (ps ! i))) (dom env) \<and>
      build_order (provider_graph ps) is env1 w1 = Some (Ok env', w')"
  proof (cases "n_effectful ?n")
    case True
    with Cons.prems i len obtain env1 r1 w1 where
      "run (n_build_effect ?n env) env w = Some (Ok env1, r1, w1)"
      "build_order (provider_graph ps) is env1 w1 = Some (Ok env', w')"
      by (simp split: option.splits sum.splits prod.splits)
    moreover from this(1) have "dom env1 = insert (s_key (fst (ps ! i))) (dom env)"
      by (intro provider_build_effect_dom) (simp add: n provider_node_of_def)
    ultimately show ?thesis by blast
  next
    case False
    with Cons.prems i len obtain env1 where "n_build ?n env = Ok env1"
      "build_order (provider_graph ps) is env1 w = Some (Ok env', w')"
      by (auto split: sum.splits)
    moreover from this(1) have "dom env1 = insert (s_key (fst (ps ! i))) (dom env)"
      by (intro provider_build_dom) (simp add: n provider_node_of_def)
    ultimately show ?thesis by blast
  qed
  then obtain env1 w1 where e1: "dom env1 = insert (s_key (fst (ps ! i))) (dom env)"
    "build_order (provider_graph ps) is env1 w1 = Some (Ok env', w')" by blast
  show ?case using Cons.IH [OF e1(2)] e1(1) by simp
qed


text \<open>Association lists for all maps, and providers for the witnesses.\<close>

definition alist_graph_maps ::
  "('t, (string \<times> string) list, (string \<times> nat) list, (string \<times> string list) list,
    ('t capability_id \<times> (string \<times> string)) list, ('t capability_id \<times> string) list) graph_maps" where
  "alist_graph_maps = \<lparr>plan_maps = alist_maps, conflict_map = alist_map, name_map = alist_map\<rparr>"

lemma alist_graph_maps_laws: "graph_maps_laws alist_graph_maps"
  by (simp add: graph_maps_laws_def alist_graph_maps_def alist_maps_laws alist_map_laws)

definition static_provider ::
  "string \<Rightarrow> nat \<Rightarrow> string option \<Rightarrow> nat list \<Rightarrow> string \<Rightarrow> (nat, string, unit) provider_spec" where
  "static_provider i key var reqs url = \<lparr>s_id = i, s_key = key, s_variant = var, s_requires = map cap_of reqs,
     s_optional = [], s_name = show_nat key, s_shared = False, s_effectful = False,
     s_provide = (\<lambda>_. Ok url), s_provide_effect = (\<lambda>_. succeed url)\<rparr>"

definition static_graph :: "(nat, string, unit) provider_spec list \<Rightarrow> (nat, string, unit) capability_graph" where
  "static_graph ss = provider_graph (map (\<lambda>s. (s, provider_default)) ss)"

lemmas plan_evaluation =
  static_graph_def provider_graph_def static_provider_def provider_node_of_def provider_default_def
  s_provides_def with_variant_def cap_of_def plan_def alist_graph_maps_def alist_maps_def alist_map_def
  cap_names_def planner_node_def dependency_node_new_def planner_cap_key_def plan_topological_def
  hash_empty_def hash_has_def hash_get_def hash_set_def hash_modify_def plan_loop.simps list_shift_def
  list_append_def Let_def show_nat.simps digit_char_def

section \<open>Properties\<close>

text \<open>
  C5. Planning a provider graph never panics, and a plan is a permutation of all provider indices in
  which the provider of every capability another provider requires, optional or not, comes first.
\<close>

theorem plan_spec:
  assumes "graph_maps_laws gm"
  shows "plan dbg gm ns \<noteq> None \<and>
    (\<forall>idx. plan dbg gm ns = Some (Ok idx) \<longrightarrow>
      distinct idx \<and> set idx = {..<length ns} \<and>
      (\<forall>i < length ns. \<forall>j < length ns. n_provides (ns ! j) \<in> set (n_requires (ns ! i)) \<longrightarrow>
         i = j \<or> precedes idx j i))"
  using plan_total [OF assms] plan_ok [OF assms] by blast

lemma plan_spec_witness:
  "plan (\<lambda>_. ''?'') alist_graph_maps
     (static_graph [static_provider ''a'' 1 None [2] ''x'', static_provider ''b'' 2 None [] ''y'']) = Some (Ok [1, 0]) \<and>
   precedes [1, 0 :: nat] 1 0"
proof -
  let ?g = "static_graph [static_provider ''a'' 1 None [2] ''x'', static_provider ''b'' 2 None [] ''y'']"
  have "plan (\<lambda>_. ''?'') alist_graph_maps ?g = Some (Ok [1, 0])"
    by (simp add: plan_evaluation)
  moreover have "length ?g = 2" "n_provides (?g ! 1) \<in> set (n_requires (?g ! 0))"
    by (simp_all add: plan_evaluation)
  ultimately show ?thesis
    using plan_spec [OF alist_graph_maps_laws, of "\<lambda>_. ''?''" ?g] by auto
qed

text \<open>
  C6. Dependencies are there when a provider is built: in a build of \<open>Provider\<close> nodes that follows a
  plan, the environment a provider receives holds a value for each capability it requires that
  another provider of the graph supplies.
\<close>

theorem build_sees_requirements:
  assumes "graph_maps_laws gm" "plan dbg gm (provider_graph ps) = Some (Ok (xs @ i # ys))"
    "build_order (provider_graph ps) xs env w = Some (Ok env1, w1)"
    "j < length ps" "j \<noteq> i" "s_provides (fst (ps ! j)) \<in> set (s_requires (fst (ps ! i)))"
  shows "env_has env1 (s_key (fst (ps ! j)))"
proof -
  let ?g = "provider_graph ps"
  note ok = plan_ok [OF assms(1,2)]
  have len: "length ?g = length ps" by (simp add: provider_graph_def)
  have "i \<in> set (xs @ i # ys)" by simp
  then have i: "i < length ps" by (simp only: ok(2) len lessThan_iff)
  have n: "?g ! k = provider_node_of (fst (ps ! k)) (snd (ps ! k))" if "k < length ps" for k
    using that by (simp add: provider_graph_def case_prod_unfold)
  have "i = j \<or> precedes (xs @ i # ys) j i"
    using assms(4,6) i len by (intro ok(3)) (simp_all add: n provider_node_of_def)
  with assms(5) obtain a b where ab: "a < b" "b < length (xs @ i # ys)" "(xs @ i # ys) ! a = j"
    "(xs @ i # ys) ! b = i" by (auto simp: precedes_def)
  have "(xs @ i # ys) ! length xs = i" by simp
  then have "b = length xs" using ok(1) ab(2,4) by (metis length_append length_Cons less_add_Suc1 nth_eq_iff_index_eq add_Suc_right)
  with ab have "j \<in> set xs" by (auto simp: nth_append)
  with build_order_dom [OF assms(3)] show ?thesis by (auto simp: env_has_def cap_of_def)
qed

lemma build_sees_requirements_witness:
  "env_has (env_insert env_new 2 ''y'') (s_key (static_provider ''b'' 2 None [] ''y''))"
proof -
  let ?ps = "[(static_provider ''a'' 1 None [2] ''x'', provider_default), (static_provider ''b'' 2 None [] ''y'', provider_default)]"
  have p: "plan (\<lambda>_. ''?'') alist_graph_maps (provider_graph ?ps) = Some (Ok ([1] @ 0 # []))"
    by (simp add: plan_evaluation)
  have b: "build_order (provider_graph ?ps) [1] env_new () = Some (Ok (env_insert env_new 2 ''y''), ())"
    by (simp add: plan_evaluation provider_build_def)
  show ?thesis
    using build_sees_requirements [OF alist_graph_maps_laws p b, of 1]
    by (simp add: static_provider_def s_provides_def with_variant_def cap_of_def)
qed

text \<open>
  Named variants share one slot of the environment: the graph accepts a primary and a replica
  provider of the same key as two capabilities and builds both, but only the value built last is
  left in the environment.
\<close>

theorem named_variants_overwrite:
  "build (\<lambda>_. ''?'') alist_graph_maps
     (static_graph [static_provider ''p'' 1 (Some ''primary'') [] ''pg-primary'',
                    static_provider ''r'' 1 (Some ''replica'') [] ''pg-replica'']) () =
   Some (Ok [1 \<mapsto> ''pg-primary''], ())"
  by (simp add: build_def build_from_def plan_evaluation provider_build_def env_new_def env_insert_def)

text \<open>
  Shutdown hooks run in reverse order of registration, not in reverse build order: here the
  provider \<open>a\<close> requires the capability of \<open>b\<close>, \<open>b\<close> is built first, and yet \<open>b\<close> is shut down first.
\<close>

theorem shutdown_ignores_build_order:
  "let g = static_graph [static_provider ''a'' 1 None [2] ''x'', static_provider ''b'' 2 None [] ''y''] in
   plan (\<lambda>_. ''?'') alist_graph_maps g = Some (Ok [1, 0]) \<and>
   run_with (\<lambda>_. ''?'') alist_graph_maps g [1] (succeed () :: (unit, unit, nat \<rightharpoonup> string, unit) effect) () =
     Some (Ok (), (), [''b'', ''a''])"
  by (simp add: run_with_def build_def build_from_def plan_evaluation provider_build_def env_new_def
      env_insert_def try_get_def run_def succeed_def new_sync_def)

end
