(* ===== verification/Cascades.thy ===== *)
theory Cascades
  imports Prelude
begin

text \<open>
  The traversal that \<open>Scope::close_with_exit\<close> and \<open>CancellationToken::cancel\<close> share: set the node's
  flag and return \<open>false\<close> if it was set already; visit the children in list order; then finish the
  node. Nodes are addresses (the \<open>Arc\<close> a handle points to), the state \<open>'s\<close> is whatever the nodes
  hold. The recursion depth is bounded by fuel; lemma \<open>cascade_total\<close> shows that more fuel than
  there are unmarked nodes is always enough, so the code's recursion ends.
\<close>

primrec each :: "(nat \<Rightarrow> 's \<Rightarrow> (bool \<times> 's) option) \<Rightarrow> nat list \<Rightarrow> 's \<Rightarrow> 's option" where
  "each f [] s = Some s"
| "each f (c # cs) s = (case f c s of None \<Rightarrow> None | Some (_, s') \<Rightarrow> each f cs s')"

primrec cascade ::
  "('s \<Rightarrow> nat \<Rightarrow> bool) \<Rightarrow> ('s \<Rightarrow> nat \<Rightarrow> nat list) \<Rightarrow> (nat \<Rightarrow> 's \<Rightarrow> 's) \<Rightarrow> (nat \<Rightarrow> 's \<Rightarrow> 's) \<Rightarrow>
    nat \<Rightarrow> nat \<Rightarrow> 's \<Rightarrow> (bool \<times> 's) option" where
  "cascade marked kids mark finish 0 = (\<lambda>i s. None)"
| "cascade marked kids mark finish (Suc n) = (\<lambda>i s.
     if marked s i then Some (False, s)
     else (case each (cascade marked kids mark finish n) (kids (mark i s) i) (mark i s) of
             None \<Rightarrow> None
           | Some s' \<Rightarrow> Some (True, finish i s')))"

text \<open>What a traversal does to the state, as a sequence of visits.\<close>

datatype visit = Enter nat | Leave nat

definition apply_visit :: "(nat \<Rightarrow> 's \<Rightarrow> 's) \<Rightarrow> (nat \<Rightarrow> 's \<Rightarrow> 's) \<Rightarrow> 's \<Rightarrow> visit \<Rightarrow> 's" where
  "apply_visit mark finish s v = (case v of Enter i \<Rightarrow> mark i s | Leave i \<Rightarrow> finish i s)"

primrec enters :: "visit list \<Rightarrow> nat list" where
  "enters [] = []"
| "enters (v # vs) = (case v of Enter i \<Rightarrow> i # enters vs | Leave _ \<Rightarrow> enters vs)"

primrec leaves :: "visit list \<Rightarrow> nat list" where
  "leaves [] = []"
| "leaves (v # vs) = (case v of Enter _ \<Rightarrow> leaves vs | Leave i \<Rightarrow> i # leaves vs)"

lemma visits_append [simp]:
  "enters (vs @ ws) = enters vs @ enters ws" "leaves (vs @ ws) = leaves vs @ leaves ws"
  by (induction vs) (auto split: visit.split)

text \<open>
  The contract of the pieces: marking sets one flag, finishing sets none, and neither changes
  the children.
\<close>

locale cascading =
  fixes marked :: "'s \<Rightarrow> nat \<Rightarrow> bool"
    and kids :: "'s \<Rightarrow> nat \<Rightarrow> nat list"
    and mark :: "nat \<Rightarrow> 's \<Rightarrow> 's"
    and finish :: "nat \<Rightarrow> 's \<Rightarrow> 's"
  assumes marked_mark: "marked (mark i s) j \<longleftrightarrow> j = i \<or> marked s j"
    and marked_finish: "marked (finish i s) j \<longleftrightarrow> marked s j"
    and kids_mark: "kids (mark i s) j = kids s j"
    and kids_finish: "kids (finish i s) j = kids s j"
begin

definition step :: "nat \<Rightarrow> nat \<Rightarrow> 's \<Rightarrow> (bool \<times> 's) option" where
  "step = cascade marked kids mark finish"

lemma step_simps:
  "step 0 i s = None"
  "step (Suc n) i s = (if marked s i then Some (False, s)
     else (case each (step n) (kids s i) (mark i s) of
             None \<Rightarrow> None | Some s' \<Rightarrow> Some (True, finish i s')))"
  by (simp_all add: step_def kids_mark)

text \<open>Outside the nodes being visited, a marked node has only marked children.\<close>

definition settled :: "nat set \<Rightarrow> 's \<Rightarrow> bool" where
  "settled S s \<longleftrightarrow> (\<forall>i. marked s i \<longrightarrow> i \<notin> S \<longrightarrow> (\<forall>c \<in> set (kids s i). marked s c))"

definition newly :: "'s \<Rightarrow> 's \<Rightarrow> nat set" where
  "newly s s' = {i. marked s' i \<and> \<not> marked s i}"

text \<open>Flags only get set, children stay, and every newly marked node is entered and left once.\<close>

definition visits :: "'s \<Rightarrow> visit list \<Rightarrow> 's \<Rightarrow> bool" where
  "visits s vs s' \<longleftrightarrow> s' = foldl (apply_visit mark finish) s vs \<and>
     (\<forall>j. kids s' j = kids s j) \<and> (\<forall>j. marked s j \<longrightarrow> marked s' j) \<and>
     distinct (enters vs) \<and> set (enters vs) = newly s s' \<and>
     distinct (leaves vs) \<and> set (leaves vs) = newly s s'"

lemma visits_refl: "visits s [] s"
  by (simp add: visits_def newly_def)

lemma visits_trans:
  assumes "visits s vs s1" "visits s1 ws s2"
  shows "visits s (vs @ ws) s2"
proof -
  have "newly s s2 = newly s s1 \<union> newly s1 s2" "newly s s1 \<inter> newly s1 s2 = {}"
    using assms by (auto simp: newly_def visits_def)
  with assms show ?thesis unfolding visits_def by auto
qed

lemma each_visits:
  assumes "\<And>i s b s'. f i s = Some (b, s') \<Longrightarrow> (\<exists>vs. visits s vs s') \<and> marked s' i"
  shows "each f cs s = Some s' \<Longrightarrow> (\<exists>vs. visits s vs s') \<and> (\<forall>c \<in> set cs. marked s' c)"
proof (induction cs arbitrary: s)
  case Nil
  then show ?case using visits_refl by auto
next
  case (Cons c cs)
  then obtain b s1 where s1: "f c s = Some (b, s1)" "each f cs s1 = Some s'"
    by (auto split: option.splits)
  note f = assms [OF s1(1)] and rest = Cons.IH [OF s1(2)]
  have "\<exists>vs. visits s vs s'" using f rest visits_trans by blast
  moreover have "marked s' c" using f rest by (auto simp: visits_def)
  ultimately show ?case using rest by simp
qed

lemma step_visits:
  assumes "step n i s = Some (b, s')"
  shows "b \<longleftrightarrow> \<not> marked s i" and "marked s' i" and "marked s i \<Longrightarrow> s' = s"
    and "\<exists>vs. visits s vs s' \<and> (b \<longrightarrow> (\<exists>ws. vs = Enter i # ws @ [Leave i]))"
proof -
  have "(b \<longleftrightarrow> \<not> marked s i) \<and> marked s' i \<and> (marked s i \<longrightarrow> s' = s) \<and>
      (\<exists>vs. visits s vs s' \<and> (b \<longrightarrow> (\<exists>ws. vs = Enter i # ws @ [Leave i])))"
    using assms
  proof (induction n arbitrary: i s b s')
    case 0
    then show ?case by (simp add: step_simps)
  next
    case (Suc n)
    show ?case
    proof (cases "marked s i")
      case True
      with Suc.prems visits_refl show ?thesis by (auto simp: step_simps)
    next
      case False
      with Suc.prems obtain s1 where s1: "each (step n) (kids s i) (mark i s) = Some s1"
        "s' = finish i s1" "b" by (auto simp: step_simps split: option.splits)
      obtain ws where ws: "visits (mark i s) ws s1" using each_visits [OF _ s1(1)] Suc.IH by blast
      then have mi: "marked s1 i" unfolding visits_def using marked_mark by blast
      have "newly s s' = insert i (newly (mark i s) s1)" "i \<notin> newly (mark i s) s1"
        using False mi by (auto simp: newly_def s1(2) marked_finish marked_mark)
      with ws have "visits s (Enter i # ws @ [Leave i]) s'"
        by (auto simp: visits_def s1(2) apply_visit_def marked_finish kids_finish marked_mark kids_mark)
      with False s1 mi show ?thesis by (auto simp: marked_finish)
    qed
  qed
  then show "b \<longleftrightarrow> \<not> marked s i" "marked s' i" "marked s i \<Longrightarrow> s' = s"
    "\<exists>vs. visits s vs s' \<and> (b \<longrightarrow> (\<exists>ws. vs = Enter i # ws @ [Leave i]))" by blast+
qed

lemma step_frame:
  assumes "step n i s = Some (b, s')"
  shows "kids s' j = kids s j" and "marked s j \<Longrightarrow> marked s' j"
  using step_visits(4) [OF assms] by (auto simp: visits_def)

lemma each_settled:
  assumes f: "\<And>i s b s'. f i s = Some (b, s') \<Longrightarrow> settled S s \<Longrightarrow> settled S s'"
  shows "each f cs s = Some s' \<Longrightarrow> settled S s \<Longrightarrow> settled S s'"
proof (induction cs arbitrary: s)
  case (Cons c cs)
  then obtain b s1 where "f c s = Some (b, s1)" "each f cs s1 = Some s'"
    by (auto split: option.splits)
  with f Cons show ?case by blast
qed simp

lemma step_settled:
  "step n i s = Some (b, s') \<Longrightarrow> settled S s \<Longrightarrow> settled S s'"
proof (induction n arbitrary: i s b s' S)
  case 0
  then show ?case by (simp add: step_simps)
next
  case (Suc n)
  show ?case
  proof (cases "marked s i")
    case True
    with Suc.prems show ?thesis by (simp add: step_simps)
  next
    case False
    with Suc.prems(1) obtain s1 where s1: "each (step n) (kids s i) (mark i s) = Some s1"
      "s' = finish i s1" by (auto simp: step_simps split: option.splits)
    have ex: "\<exists>vs. visits (mark i s) vs s1" "\<forall>c \<in> set (kids s i). marked s1 c"
      using each_visits [OF _ s1(1)] step_visits(2,4) by blast+
    have "settled (insert i S) (mark i s)"
      using Suc.prems(2) by (auto simp: settled_def marked_mark kids_mark)
    then have "settled (insert i S) s1" using each_settled [OF _ s1(1)] Suc.IH by blast
    moreover have "kids s1 i = kids s i" using ex(1) by (auto simp: visits_def kids_mark)
    ultimately show ?thesis
      using ex(2) by (auto simp: settled_def s1(2) marked_finish kids_finish)
  qed
qed

text \<open>Reachability through children.\<close>

inductive reaches :: "'s \<Rightarrow> nat \<Rightarrow> nat \<Rightarrow> bool" for s where
  here: "reaches s i i"
| down: "reaches s i j \<Longrightarrow> c \<in> set (kids s j) \<Longrightarrow> reaches s i c"

lemma settled_reaches:
  "reaches s i j \<Longrightarrow> settled {} s \<Longrightarrow> marked s i \<Longrightarrow> marked s j"
  by (induction rule: reaches.induct) (auto simp: settled_def)

lemma step_marks_descendants:
  assumes "step n i s = Some (b, s')" "settled {} s" "reaches s i j"
  shows "marked s' j"
proof -
  have "reaches s' i j" using assms(3)
    by (induction rule: reaches.induct) (auto intro: reaches.intros simp: step_frame(1) [OF assms(1)])
  with step_settled [OF assms(1,2)] step_visits(2) [OF assms(1)] show ?thesis
    by (rule settled_reaches [rotated 1])
qed

text \<open>
  The order of the finishes. \<open>children_first s D vs\<close>: whenever the visits \<open>vs\<close> leave a node, each of its
  children is in \<open>D\<close>, or was left before, or is a node above it (a cycle).
\<close>

primrec children_first :: "'s \<Rightarrow> nat set \<Rightarrow> visit list \<Rightarrow> bool" where
  "children_first s D [] \<longleftrightarrow> True"
| "children_first s D (v # vs) \<longleftrightarrow> (case v of
     Enter _ \<Rightarrow> children_first s D vs
   | Leave j \<Rightarrow> (\<forall>c \<in> set (kids s j). c \<in> D \<or> reaches s c j) \<and> children_first s (insert j D) vs)"

lemma children_first_append:
  "children_first s D (vs @ ws) \<longleftrightarrow> children_first s D vs \<and> children_first s (D \<union> set (leaves vs)) ws"
  by (induction vs arbitrary: D) (auto split: visit.split)

lemma children_first_drop:
  "children_first s (insert i D) vs \<Longrightarrow> \<forall>j \<in> set (leaves vs). reaches s i j \<Longrightarrow> children_first s D vs"
  by (induction vs arbitrary: D) (auto simp: insert_commute split: visit.splits)

lemma children_first_order:
  "children_first s D vs \<Longrightarrow> leaves vs = xs @ j # zs \<Longrightarrow> c \<in> set (kids s j) \<Longrightarrow> c \<in> D \<or> c \<in> set xs \<or> reaches s c j"
proof (induction vs arbitrary: D xs)
  case (Cons v vs)
  then show ?case by (cases xs) (fastforce split: visit.splits)+
qed simp

lemma reaches_cong:
  assumes "\<And>j. kids s' j = kids s j"
  shows "reaches s' = reaches s"
proof -
  have "reaches b i j" if "reaches a i j" "\<And>j. kids b j = kids a j" for a b i j
    using that by (induction rule: reaches.induct) (auto intro: reaches.intros)
  with assms show ?thesis by (fastforce simp: fun_eq_iff)
qed

lemma children_first_cong:
  assumes "\<And>j. kids s' j = kids s j"
  shows "children_first s' D vs = children_first s D vs"
  by (induction vs arbitrary: D) (auto simp: reaches_cong [OF assms] assms split: visit.split)

lemma reaches_child: "reaches s c j \<Longrightarrow> c \<in> set (kids s i) \<Longrightarrow> reaches s i j"
  by (induction rule: reaches.induct) (auto intro: reaches.intros)

text \<open>A traversal from \<open>cs\<close>: visits of nodes below \<open>cs\<close> that finish children first.\<close>

definition traverses :: "nat list \<Rightarrow> 's \<Rightarrow> visit list \<Rightarrow> 's \<Rightarrow> bool" where
  "traverses cs s vs s' \<longleftrightarrow> visits s vs s' \<and> (\<forall>j \<in> set (leaves vs). \<exists>c \<in> set cs. reaches s c j) \<and>
     children_first s {c. marked s c} vs"

lemma traverses_append:
  assumes "traverses [c] s vs s1" "traverses cs s1 ws s2"
  shows "traverses (c # cs) s (vs @ ws) s2"
proof -
  have k: "\<And>j. kids s1 j = kids s j" and l: "set (leaves vs) = newly s s1" "\<And>j. marked s j \<Longrightarrow> marked s1 j"
    using assms(1) by (auto simp: traverses_def visits_def)
  have "{c. marked s1 c} = {c. marked s c} \<union> set (leaves vs)" using l by (auto simp: newly_def)
  with assms show ?thesis
    using visits_trans [of s vs s1 ws s2] reaches_cong [of s1 s, OF k] children_first_cong [of s1 s, OF k]
    by (auto simp: traverses_def children_first_append)
qed

lemma each_traverses:
  assumes "\<And>i s b s'. f i s = Some (b, s') \<Longrightarrow> \<exists>vs. traverses [i] s vs s'"
  shows "each f cs s = Some s' \<Longrightarrow> \<exists>vs. traverses cs s vs s'"
proof (induction cs arbitrary: s)
  case Nil
  then show ?case by (intro exI [of _ "[]"]) (simp add: traverses_def visits_refl)
next
  case (Cons c cs)
  then obtain b s1 where "f c s = Some (b, s1)" "each f cs s1 = Some s'" by (auto split: option.splits)
  with assms Cons.IH traverses_append show ?case by blast
qed

lemma step_traverses:
  assumes "step n i s = Some (b, s')"
  shows "\<exists>vs. traverses [i] s vs s' \<and> (b \<longrightarrow> (\<exists>ws. vs = Enter i # ws @ [Leave i]))"
  using assms
proof (induction n arbitrary: i s b s')
  case 0
  then show ?case by (simp add: step_simps)
next
  case (Suc n)
  show ?case
  proof (cases "marked s i")
    case True
    with Suc.prems show ?thesis
      by (intro exI [of _ "[]"]) (auto simp: step_simps traverses_def visits_refl)
  next
    case False
    with Suc.prems obtain s1 where s1: "each (step n) (kids s i) (mark i s) = Some s1" "s' = finish i s1" "b"
      by (auto simp: step_simps split: option.splits)
    have reach: "reaches (mark i s) = reaches s" by (rule reaches_cong) (rule kids_mark)
    obtain ws where ws: "traverses (kids s i) (mark i s) ws s1" using each_traverses [OF _ s1(1)] Suc.IH by blast
    then have v: "visits (mark i s) ws s1" by (simp add: traverses_def)
    then have mi: "marked s1 i" unfolding visits_def using marked_mark by blast
    have "newly s s' = insert i (newly (mark i s) s1)" "i \<notin> newly (mark i s) s1"
      using False mi by (auto simp: newly_def s1(2) marked_finish marked_mark)
    with v have vs: "visits s (Enter i # ws @ [Leave i]) s'"
      by (auto simp: visits_def s1(2) apply_visit_def marked_finish kids_finish marked_mark kids_mark)
    have below: "\<forall>j \<in> set (leaves ws). reaches s i j"
      using ws reaches_child by (auto simp: traverses_def reach)
    have "{c. marked (mark i s) c} = insert i {c. marked s c}" by (auto simp: marked_mark)
    with ws have "children_first s (insert i {c. marked s c}) ws"
      using children_first_cong [of "mark i s" s, OF kids_mark] by (simp add: traverses_def)
    then have first: "children_first s {c. marked s c} ws" using below by (rule children_first_drop)
    have "c \<in> {c. marked s c} \<union> set (leaves ws) \<or> reaches s c i" if "c \<in> set (kids s i)" for c
    proof -
      have "marked s1 c" using each_visits [OF _ s1(1)] step_visits(2,4) that by blast
      with v reaches.here show ?thesis by (auto simp: visits_def newly_def marked_mark)
    qed
    with first have "children_first s {c. marked s c} (Enter i # ws @ [Leave i])"
      by (auto simp: children_first_append)
    with vs below show ?thesis
      by (intro exI [of _ "Enter i # ws @ [Leave i]"]) (auto simp: traverses_def reaches.here)
  qed
qed

text \<open>Termination: with more fuel than unmarked nodes the traversal returns.\<close>

definition todo :: "nat set \<Rightarrow> 's \<Rightarrow> nat set" where
  "todo U s = {i \<in> U. \<not> marked s i}"

lemma each_total:
  assumes f: "\<And>i s. i \<in> U \<Longrightarrow> P s \<Longrightarrow> \<exists>b s'. f i s = Some (b, s') \<and> P s'"
  shows "set cs \<subseteq> U \<Longrightarrow> P s \<Longrightarrow> \<exists>s'. each f cs s = Some s'"
proof (induction cs arbitrary: s)
  case (Cons c cs)
  with f obtain b s1 where "f c s = Some (b, s1)" "P s1" by (metis insert_subset list.simps(15))
  with Cons show ?case by auto
qed simp

lemma cascade_total:
  assumes "finite U" "\<And>i. i \<in> U \<Longrightarrow> set (kids s i) \<subseteq> U" "i \<in> U" "card (todo U s) < n"
  shows "\<exists>b s'. step n i s = Some (b, s')"
  using assms(2-4)
proof (induction n arbitrary: i s)
  case 0
  then show ?case by simp
next
  case (Suc n)
  show ?case
  proof (cases "marked s i")
    case True
    then show ?thesis by (auto simp: step_simps)
  next
    case False
    let ?P = "\<lambda>t. (\<forall>i \<in> U. set (kids t i) \<subseteq> U) \<and> card (todo U t) < n"
    have "todo U (mark i s) = todo U s - {i}" "i \<in> todo U s"
      using Suc.prems(2) False by (auto simp: todo_def marked_mark)
    moreover have "finite (todo U s)" using assms(1) by (simp add: todo_def)
    ultimately have "card (todo U (mark i s)) < n"
      using Suc.prems(3) by (metis card_Suc_Diff1 Suc_less_SucD)
    then have P: "?P (mark i s)" using Suc.prems(1) by (simp add: kids_mark)
    have "\<exists>s1. each (step n) (kids s i) (mark i s) = Some s1"
    proof (rule each_total [where U = U and P = ?P])
      fix j t
      assume j: "j \<in> U" and t: "?P t"
      with Suc.IH obtain b t' where t': "step n j t = Some (b, t')" by blast
      have "card (todo U t') \<le> card (todo U t)"
        using step_frame(2) [OF t'] assms(1) by (intro card_mono) (auto simp: todo_def)
      with t t' step_frame(1) [OF t'] show "\<exists>b s'. step n j t = Some (b, s') \<and> ?P s'" by auto
    qed (use P Suc.prems in auto)
    with False show ?thesis by (auto simp: step_simps)
  qed
qed

end

end
