(* ===== verification/Scopes.thy ===== *)
theory Scopes
  imports Cascades Effects
begin

text \<open>
  \<open>crates/id_effect/src/resource/scope.rs\<close>, the scope combinators of \<open>kernel/effect.rs\<close>, and
  \<open>concurrency/cancel.rs\<close>.

  Scopes and tokens are addresses into a store; all handles are kept, so every \<open>Weak\<close> upgrades.
  A finalizer is an identifier \<open>'f\<close>, and running it is an entry of \<open>log\<close> with its scope and the
  exit it received; what finalizers do to other scopes is not modelled. \<open>signalled\<close> lists the
  scopes whose close latch has been opened, in that order. The finalizer bucket is read and
  replaced by STM transactions; here they run without contention, and section \<open>Draining under
  contention\<close> looks at the drain transaction by itself.
\<close>

section \<open>Scopes\<close>

record 'f scope =
  closed :: bool
  parent :: "nat option"
  children :: "nat list"
  bucket :: "'f list"

record 'f scopes =
  scope_at :: "nat \<Rightarrow> 'f scope"
  used :: nat
  log :: "(nat \<times> 'f \<times> (unit, unit) exit) list"
  signalled :: "nat list"

definition open_scope :: "nat option \<Rightarrow> 'f scope" where
  "open_scope p = \<lparr>closed = False, parent = p, children = [], bucket = []\<rparr>"

definition put_scope :: "nat \<Rightarrow> 'f scope \<Rightarrow> 'f scopes \<Rightarrow> 'f scopes" where
  "put_scope i x s = s\<lparr>scope_at := (scope_at s)(i := x)\<rparr>"

definition scope_make :: "'f scopes \<Rightarrow> nat \<times> 'f scopes" where
  "scope_make s = (used s, (put_scope (used s) (open_scope None) s)\<lparr>used := Suc (used s)\<rparr>)"

definition scope_marked :: "'f scopes \<Rightarrow> nat \<Rightarrow> bool" where
  "scope_marked s i \<longleftrightarrow> closed (scope_at s i)"

definition scope_kids :: "'f scopes \<Rightarrow> nat \<Rightarrow> nat list" where
  "scope_kids s i = children (scope_at s i)"

definition scope_mark :: "nat \<Rightarrow> 'f scopes \<Rightarrow> 'f scopes" where
  "scope_mark i s = put_scope i ((scope_at s i)\<lparr>closed := True\<rparr>) s"

text \<open>After the children: drain the bucket, run the finalizers newest first, open the latch.\<close>

definition scope_finish :: "(unit, unit) exit \<Rightarrow> nat \<Rightarrow> 'f scopes \<Rightarrow> 'f scopes" where
  "scope_finish exit i s =
     (let drained = bucket (scope_at s i);
          s1 = put_scope i ((scope_at s i)\<lparr>bucket := []\<rparr>) s;
          s2 = s1\<lparr>log := log s1 @ map (\<lambda>f. (i, f, exit)) (rev drained)\<rparr>
      in s2\<lparr>signalled := signalled s2 @ [i]\<rparr>)"

definition close_with_exit ::
  "nat \<Rightarrow> (unit, unit) exit \<Rightarrow> 'f scopes \<Rightarrow> (bool \<times> 'f scopes) option" where
  "close_with_exit i exit s =
     cascade scope_marked scope_kids scope_mark (scope_finish exit) (Suc (used s)) i s"

definition scope_close :: "nat \<Rightarrow> 'f scopes \<Rightarrow> (bool \<times> 'f scopes) option" where
  "scope_close i s = close_with_exit i (exit_succeed ()) s"

text \<open>\<open>None\<close> is the recursion along the parents that never ends.\<close>

partial_function (option) is_closed :: "'f scopes \<Rightarrow> nat \<Rightarrow> bool option" where
  "is_closed s i = (if closed (scope_at s i) then Some True
     else (case parent (scope_at s i) of None \<Rightarrow> Some False | Some p \<Rightarrow> is_closed s p))"

definition add_child :: "nat \<Rightarrow> nat \<Rightarrow> 'f scopes \<Rightarrow> 'f scopes" where
  "add_child i c s = put_scope i ((scope_at s i)\<lparr>children := children (scope_at s i) @ [c]\<rparr>) s"

definition scope_fork :: "nat \<Rightarrow> 'f scopes \<Rightarrow> (nat \<times> 'f scopes) option" where
  "scope_fork i s =
     (let c = used s;
          s1 = (put_scope c (open_scope (Some i)) s)\<lparr>used := Suc (used s)\<rparr>;
          s2 = add_child i c s1
      in case is_closed s2 i of
           None \<Rightarrow> None
         | Some True \<Rightarrow> map_option (\<lambda>(_, s3). (c, s3)) (close_with_exit c (exit_succeed ()) s2)
         | Some False \<Rightarrow> Some (c, s2))"

definition scope_extend :: "nat \<Rightarrow> nat \<Rightarrow> 'f scopes \<Rightarrow> (bool \<times> 'f scopes) option" where
  "scope_extend i other s = (case is_closed s i of
     None \<Rightarrow> None
   | Some True \<Rightarrow> Some (False, s)
   | Some False \<Rightarrow> (case is_closed s other of
       None \<Rightarrow> None
     | Some True \<Rightarrow> Some (False, s)
     | Some False \<Rightarrow>
         Some (True, add_child i other (put_scope other ((scope_at s other)\<lparr>parent := Some i\<rparr>) s))))"

text \<open>The cell of a new finalizer is fresh, so the pointer test of the code never finds it.\<close>

definition add_finalizer :: "nat \<Rightarrow> 'f \<Rightarrow> 'f scopes \<Rightarrow> (bool \<times> 'f scopes) option" where
  "add_finalizer i f s = (case is_closed s i of
     None \<Rightarrow> None
   | Some True \<Rightarrow> Some (False, s)
   | Some False \<Rightarrow>
       Some (True, put_scope i ((scope_at s i)\<lparr>bucket := bucket (scope_at s i) @ [f]\<rparr>) s))"

definition close_signalled :: "nat \<Rightarrow> 'f scopes \<Rightarrow> bool" where
  "close_signalled i s \<longleftrightarrow> i \<in> set (signalled s)"

section \<open>Scoped effects\<close>

text \<open>\<open>None\<close> is an effect that never resolves; the closing itself always returns.\<close>

definition scope_with :: "(nat \<Rightarrow> ('a, 'e, 'r, 'f scopes) effect) \<Rightarrow> ('a, 'e, 'r, 'f scopes) effect" where
  "scope_with f = new_async (\<lambda>r w. case scope_make w of (scope, w1) \<Rightarrow>
     (case run (f scope) r w1 of
        None \<Rightarrow> None
      | Some (Inr value, r', w2) \<Rightarrow>
          map_option (\<lambda>(_, w3). (Ok value, r', w3)) (close_with_exit scope (exit_succeed ()) w2)
      | Some (Inl error, r', w2) \<Rightarrow>
          map_option (\<lambda>(_, w3). (Err error, r', w3))
            (close_with_exit scope (exit_die ''scope_with effect failed'') w2)))"

definition scoped :: "('a, 'e, 'r, 'f scopes) effect \<Rightarrow> ('a, 'e, 'r, 'f scopes) effect" where
  "scoped eff = new_async (\<lambda>r w. case scope_make w of (scope, w1) \<Rightarrow>
     (case run eff r w1 of
        None \<Rightarrow> None
      | Some (Inr value, r', w2) \<Rightarrow>
          map_option (\<lambda>(_, w3). (Ok value, r', w3)) (close_with_exit scope (exit_succeed ()) w2)
      | Some (Inl error, r', w2) \<Rightarrow>
          map_option (\<lambda>(_, w3). (Err error, r', w3))
            (close_with_exit scope (exit_die ''scoped effect failed'') w2)))"

section \<open>Cancellation tokens\<close>

record token =
  cancelled :: bool
  token_children :: "nat list"

record tokens =
  token_at :: "nat \<Rightarrow> token"
  token_used :: nat
  notified :: "nat list"

definition token_new :: "tokens \<Rightarrow> nat \<times> tokens" where
  "token_new t = (token_used t,
     t\<lparr>token_at := (token_at t)(token_used t := \<lparr>cancelled = False, token_children = []\<rparr>),
       token_used := Suc (token_used t)\<rparr>)"

definition is_cancelled :: "tokens \<Rightarrow> nat \<Rightarrow> bool" where
  "is_cancelled t i \<longleftrightarrow> cancelled (token_at t i)"

definition token_kids :: "tokens \<Rightarrow> nat \<Rightarrow> nat list" where
  "token_kids t i = token_children (token_at t i)"

text \<open>Set the flag and notify the waiters, before any child.\<close>

definition token_mark :: "nat \<Rightarrow> tokens \<Rightarrow> tokens" where
  "token_mark i t = t\<lparr>token_at := (token_at t)(i := (token_at t i)\<lparr>cancelled := True\<rparr>),
     notified := notified t @ [i]\<rparr>"

definition cancel :: "nat \<Rightarrow> tokens \<Rightarrow> (bool \<times> tokens) option" where
  "cancel i t = cascade is_cancelled token_kids token_mark (\<lambda>_ t. t) (Suc (token_used t)) i t"

definition child_token :: "nat \<Rightarrow> tokens \<Rightarrow> (nat \<times> tokens) option" where
  "child_token i t = (case token_new t of (c, t1) \<Rightarrow>
     (let t2 = t1\<lparr>token_at := (token_at t1)(i := (token_at t1 i)\<lparr>token_children := token_children (token_at t1 i) @ [c]\<rparr>)\<rparr>
      in if is_cancelled t2 i then map_option (\<lambda>(_, t3). (c, t3)) (cancel c t2) else Some (c, t2)))"

definition check_interrupt :: "nat \<Rightarrow> tokens \<Rightarrow> (bool, 'n, 'r, 'w) effect" where
  "check_interrupt i t = (let c = is_cancelled t i in new_sync (\<lambda>r w. (Ok c, r, w)))"

section \<open>The traversal on scopes and on tokens\<close>

interpretation scope_tree: cascading scope_marked scope_kids scope_mark "scope_finish exit"
  by unfold_locales
    (auto simp: scope_marked_def scope_kids_def scope_mark_def scope_finish_def put_scope_def Let_def)

interpretation token_tree: cascading is_cancelled token_kids token_mark "\<lambda>_ t. t"
  by unfold_locales (auto simp: is_cancelled_def token_kids_def token_mark_def)

abbreviation below :: "'f scopes \<Rightarrow> nat \<Rightarrow> nat \<Rightarrow> bool" where
  "below \<equiv> cascading.reaches scope_kids"

definition scopes_ok :: "'f scopes \<Rightarrow> bool" where
  "scopes_ok s \<longleftrightarrow> (\<forall>i. set (children (scope_at s i)) \<subseteq> {..<used s}) \<and>
     (\<forall>i. closed (scope_at s i) \<longrightarrow> (\<forall>c \<in> set (children (scope_at s i)). closed (scope_at s c)))"

lemma scopes_ok_settled:
  "scopes_ok s \<longleftrightarrow> (\<forall>i. set (scope_kids s i) \<subseteq> {..<used s}) \<and> cascading.settled scope_marked scope_kids {} s"
  by (simp add: scopes_ok_def scope_tree.settled_def scope_kids_def scope_marked_def)

text \<open>What a sequence of visits does to buckets, log and latches.\<close>

definition finalizations :: "'f scopes \<Rightarrow> (unit, unit) exit \<Rightarrow> nat \<Rightarrow> (nat \<times> 'f \<times> (unit, unit) exit) list" where
  "finalizations s exit k = map (\<lambda>f. (k, f, exit)) (rev (bucket (scope_at s k)))"

lemma visits_effect:
  assumes "distinct (leaves vs)" "s' = foldl (apply_visit scope_mark (scope_finish exit)) s vs"
  shows "used s' = used s \<and> signalled s' = signalled s @ leaves vs \<and>
    log s' = log s @ concat (map (finalizations s exit) (leaves vs)) \<and>
    (\<forall>k. bucket (scope_at s' k) = (if k \<in> set (leaves vs) then [] else bucket (scope_at s k)))"
  using assms(1) unfolding assms(2)
proof (induction vs arbitrary: s)
  case Nil
  then show ?case by simp
next
  case (Cons v vs)
  show ?case
  proof (cases v)
    case (Enter i)
    let ?s = "scope_mark i s"
    have "bucket (scope_at ?s k) = bucket (scope_at s k)" for k
      by (simp add: scope_mark_def put_scope_def)
    moreover from this have "finalizations ?s exit = finalizations s exit"
      by (simp add: finalizations_def fun_eq_iff)
    moreover have "used ?s = used s" "signalled ?s = signalled s" "log ?s = log s"
      by (simp_all add: scope_mark_def put_scope_def)
    ultimately show ?thesis using Cons.IH [of ?s] Cons.prems Enter by (simp add: apply_visit_def)
  next
    case (Leave i)
    let ?s = "scope_finish exit i s"
    have b: "bucket (scope_at ?s k) = (if k = i then [] else bucket (scope_at s k))" for k
      by (simp add: scope_finish_def put_scope_def Let_def)
    have "used ?s = used s" "signalled ?s = signalled s @ [i]" "log ?s = log s @ finalizations s exit i"
      by (simp_all add: scope_finish_def put_scope_def Let_def finalizations_def)
    moreover have "concat (map (finalizations ?s exit) (leaves vs)) = concat (map (finalizations s exit) (leaves vs))"
      using Cons.prems Leave by (intro arg_cong [where f = concat] map_cong) (auto simp: finalizations_def b)
    ultimately show ?thesis using Cons.IH [of ?s] Cons.prems Leave by (simp add: apply_visit_def b)
  qed
qed

lemma close_step: "close_with_exit i exit s = cascading.step scope_marked scope_kids scope_mark (scope_finish exit) (Suc (used s)) i s"
  by (simp add: close_with_exit_def scope_tree.step_def)

lemma close_total:
  assumes "scopes_ok s" "i < used s"
  shows "\<exists>b s'. close_with_exit i exit s = Some (b, s')"
  unfolding close_step
proof (rule scope_tree.cascade_total [where U = "{..<used s}"])
  show "card (scope_tree.todo {..<used s} s) < Suc (used s)"
    using card_mono [of "{..<used s}" "scope_tree.todo {..<used s} s"]
    by (simp add: scope_tree.todo_def subset_iff less_Suc_eq_le)
qed (use assms in \<open>auto simp: scopes_ok_settled\<close>)

lemma close_result:
  assumes "close_with_exit i exit s = Some (b, s')"
  shows "b \<longleftrightarrow> \<not> closed (scope_at s i)" "closed (scope_at s' i)" "\<not> b \<Longrightarrow> s' = s"
    and "used s' = used s" "children (scope_at s' j) = children (scope_at s j)"
    and "closed (scope_at s j) \<Longrightarrow> closed (scope_at s' j)"
    and "scopes_ok s \<Longrightarrow> scopes_ok s'"
    and "scopes_ok s \<Longrightarrow> below s i j \<Longrightarrow> closed (scope_at s' j)"
proof -
  note st = assms [unfolded close_step]
  note v = scope_tree.step_visits [OF st]
  show "b \<longleftrightarrow> \<not> closed (scope_at s i)" "closed (scope_at s' i)" using v(1,2) by (auto simp: scope_marked_def)
  show "\<not> b \<Longrightarrow> s' = s" using v(1,3) by simp
  obtain vs where "scope_tree.visits exit s vs s'" using v(4) by blast
  then show used: "used s' = used s" using visits_effect [of vs s' exit s] by (simp add: scope_tree.visits_def)
  show kids: "children (scope_at s' j) = children (scope_at s j)" for j
    using scope_tree.step_frame(1) [OF st] by (simp add: scope_kids_def)
  show "closed (scope_at s j) \<Longrightarrow> closed (scope_at s' j)" for j
    using scope_tree.step_frame(2) [OF st] by (simp add: scope_marked_def)
  show "scopes_ok s'" if "scopes_ok s"
    using that scope_tree.step_settled [OF st] scope_tree.step_frame(1) [OF st] used
    by (simp add: scopes_ok_settled)
  show "closed (scope_at s' j)" if "scopes_ok s" "below s i j"
    using scope_tree.step_marks_descendants [OF st _ that(2)] that(1)
    by (simp add: scopes_ok_settled scope_marked_def)
qed

lemma close_log:
  assumes "close_with_exit i exit s = Some (True, s')"
  shows "\<exists>ks. distinct (ks @ [i]) \<and>
    set (ks @ [i]) = {k. closed (scope_at s' k) \<and> \<not> closed (scope_at s k)} \<and>
    signalled s' = signalled s @ ks @ [i] \<and>
    log s' = log s @ concat (map (finalizations s exit) (ks @ [i])) \<and>
    (\<forall>k. bucket (scope_at s' k) = (if k \<in> set (ks @ [i]) then [] else bucket (scope_at s k))) \<and>
    (\<forall>xs j zs. ks @ [i] = xs @ j # zs \<longrightarrow>
       (\<forall>c \<in> set (children (scope_at s j)). closed (scope_at s c) \<or> c \<in> set xs \<or> below s c j))"
proof -
  from scope_tree.step_traverses [OF assms [unfolded close_step]] obtain ws where
    t: "scope_tree.traverses exit [i] s (Enter i # ws @ [Leave i]) s'" by auto
  let ?vs = "Enter i # ws @ [Leave i]"
  have l: "leaves ?vs = leaves ws @ [i]" by simp
  from t have d: "distinct (leaves ?vs)" and set: "set (leaves ?vs) = scope_tree.newly s s'"
    and s': "s' = foldl (apply_visit scope_mark (scope_finish exit)) s ?vs"
    and first: "scope_tree.children_first s {c. scope_marked s c} ?vs"
    by (simp_all add: scope_tree.traverses_def scope_tree.visits_def del: leaves.simps visits_append scope_tree.children_first.simps)
  have "\<forall>xs j zs. leaves ws @ [i] = xs @ j # zs \<longrightarrow>
      (\<forall>c \<in> set (children (scope_at s j)). closed (scope_at s c) \<or> c \<in> set xs \<or> below s c j)"
    using scope_tree.children_first_order [OF first, unfolded l] by (auto simp: scope_marked_def scope_kids_def)
  with visits_effect [OF d s', unfolded l] d set show ?thesis
    unfolding l scope_tree.newly_def scope_marked_def by (intro exI [of _ "leaves ws"]) auto
qed

lemma is_closed_SomeD: "is_closed s i = Some False \<Longrightarrow> \<not> closed (scope_at s i)"
  by (subst (asm) is_closed.simps) (auto split: if_splits)

lemma is_closed_closed: "closed (scope_at s i) \<Longrightarrow> is_closed s i = Some True"
  by (subst is_closed.simps) simp

lemma scopes_ok_make:
  assumes "scopes_ok s"
  shows "scopes_ok (snd (scope_make s))"
proof -
  have *: "set (children (scope_at s i)) \<subseteq> {..<Suc (used s)}" for i
    using assms lessThan_subset_iff [of "used s" "Suc (used s)"] unfolding scopes_ok_def by fastforce
  have "used s \<notin> set (children (scope_at s i))" for i
    using assms unfolding scopes_ok_def by fastforce
  with assms * show ?thesis
    by (auto simp: scopes_ok_def scope_make_def put_scope_def open_scope_def)
qed

lemma scopes_ok_add_child:
  assumes "scopes_ok s" "c < used s" "\<not> closed (scope_at s i) \<or> closed (scope_at s c)"
  shows "scopes_ok (add_child i c s)"
  using assms by (auto simp: scopes_ok_def add_child_def put_scope_def)

lemma scopes_ok_put:
  assumes "scopes_ok s" "children x = children (scope_at s i)" "closed x = closed (scope_at s i)"
  shows "scopes_ok (put_scope i x s)"
  using assms by (auto simp: scopes_ok_def put_scope_def)

lemma scopes_ok_extend:
  assumes "scopes_ok s" "other < used s" "scope_extend i other s = Some (b, s')"
  shows "scopes_ok s'" "used s' = used s"
proof -
  let ?s1 = "put_scope other ((scope_at s other)\<lparr>parent := Some i\<rparr>) s"
  have u: "used (add_child i other ?s1) = used s" by (simp add: add_child_def put_scope_def)
  have "scopes_ok ?s1" using assms(1) by (rule scopes_ok_put) simp_all
  moreover have "\<not> closed (scope_at ?s1 i)" if "is_closed s i = Some False"
    using is_closed_SomeD [OF that] by (auto simp: put_scope_def)
  moreover have "other < used ?s1" using assms(2) by (simp add: put_scope_def)
  ultimately have "is_closed s i = Some False \<Longrightarrow> scopes_ok (add_child i other ?s1)"
    by (blast intro: scopes_ok_add_child)
  with assms(1,3) u show "scopes_ok s'" "used s' = used s"
    by (auto simp: scope_extend_def split: option.splits bool.splits)
qed

lemma scopes_ok_add_finalizer:
  assumes "scopes_ok s" "add_finalizer i f s = Some (b, s')"
  shows "scopes_ok s'" "used s' = used s"
  using assms scopes_ok_put [OF assms(1)]
  by (auto simp: add_finalizer_def put_scope_def split: option.splits bool.splits)

lemma close_leaf:
  assumes "children (scope_at s c) = []" "\<not> closed (scope_at s c)"
  shows "close_with_exit c exit s = Some (True, scope_finish exit c (scope_mark c s))"
  using assms by (simp add: close_with_exit_def scope_marked_def scope_kids_def scope_mark_def put_scope_def)

text \<open>A forked child of a closed scope is closed before it is returned.\<close>

lemma scope_fork_spec:
  assumes ok: "scopes_ok s" "i < used s" and fork: "scope_fork i s = Some (c, s')"
  shows "c = used s \<and> used s' = Suc (used s) \<and> scopes_ok s' \<and> c \<in> set (children (scope_at s' i)) \<and>
    (closed (scope_at s i) \<longrightarrow> closed (scope_at s' c))"
proof -
  let ?s1 = "(put_scope (used s) (open_scope (Some i)) s)\<lparr>used := Suc (used s)\<rparr>"
  let ?s2 = "add_child i (used s) ?s1"
  let ?s3 = "scope_finish (exit_succeed ()) (used s) (scope_mark (used s) ?s2)"
  have lt: "k < used s" if "k \<in> set (children (scope_at s j))" for k j
    using ok(1) that unfolding scopes_ok_def by fastforce
  then have old: "used s \<notin> set (children (scope_at s j))" for j by fastforce
  have leaf: "close_with_exit (used s) (exit_succeed ()) ?s2 = Some (True, ?s3)"
    using ok(2) by (intro close_leaf) (simp_all add: add_child_def put_scope_def open_scope_def)
  have s2: "scopes_ok ?s2" if "\<not> closed (scope_at s i)"
    using ok old lt that less_Suc_eq
    by (fastforce simp: scopes_ok_def add_child_def put_scope_def open_scope_def subset_iff)
  have s3: "scopes_ok ?s3"
    using ok old lt less_Suc_eq
    by (fastforce simp: scopes_ok_def add_child_def put_scope_def open_scope_def subset_iff
        scope_finish_def scope_mark_def Let_def)
  have "closed (scope_at ?s2 i) = closed (scope_at s i)" using ok(2) by (simp add: add_child_def put_scope_def)
  then have tt: "closed (scope_at s i) \<Longrightarrow> is_closed ?s2 i = Some True" by (auto intro: is_closed_closed)
  show ?thesis
  proof (cases "is_closed ?s2 i")
    case None
    with fork show ?thesis by (simp add: scope_fork_def Let_def)
  next
    case (Some b)
    show ?thesis
    proof (cases b)
      case True
      then have "c = used s" "s' = ?s3" using fork Some leaf by (auto simp: scope_fork_def Let_def)
      with s3 ok(2) show ?thesis
        by (auto simp: scope_finish_def scope_mark_def Let_def add_child_def put_scope_def)
    next
      case False
      then have "c = used s" "s' = ?s2" "\<not> closed (scope_at s i)"
        using fork Some tt by (auto simp: scope_fork_def Let_def)
      with s2 show ?thesis by (simp add: add_child_def put_scope_def)
    qed
  qed
qed

text \<open>\<open>is_closed\<close> reads only the flags and the parents.\<close>

lemma is_closed_cong:
  fixes s s' :: "'f scopes"
  assumes "is_closed s i = Some b" "\<And>k. closed (scope_at s' k) = closed (scope_at s k)" "\<And>k. parent (scope_at s' k) = parent (scope_at s k)"
  shows "is_closed s' i = Some b"
proof -
  let ?same = "\<lambda>s s' :: 'f scopes. \<forall>k. closed (scope_at s' k) = closed (scope_at s k) \<and> parent (scope_at s' k) = parent (scope_at s k)"
  have all: "\<forall>s'. ?same s s' \<longrightarrow> is_closed s' i = Some b"
  proof (rule is_closed.raw_induct [where P = "\<lambda>s i b. \<forall>s'. ?same s s' \<longrightarrow> is_closed s' i = Some b", OF _ assms(1)], intro allI impI)
    fix f :: "'f scopes \<Rightarrow> nat \<Rightarrow> bool option" and s i y s'
    assume IH: "\<And>s i y. f s i = Some y \<Longrightarrow> \<forall>s'. ?same s s' \<longrightarrow> is_closed s' i = Some y"
      and eq: "(if closed (scope_at s i) then Some True else case parent (scope_at s i) of None \<Rightarrow> Some False | Some x \<Rightarrow> f s x) = Some y"
      and same: "?same s s'"
    have i: "closed (scope_at s' i) = closed (scope_at s i)" "parent (scope_at s' i) = parent (scope_at s i)" using same by simp_all
    have up: "is_closed s' p = Some y" if "f s p = Some y" for p using IH [OF that] same by blast
    show "is_closed s' i = Some y"
    proof (cases "closed (scope_at s i)")
      case True
      with eq i is_closed_closed [of s' i] show ?thesis by simp
    next
      case False
      with eq i up show ?thesis by (subst is_closed.simps) (cases "parent (scope_at s i)"; simp)
    qed
  qed
  show ?thesis by (rule all [rule_format]) (simp add: assms(2,3))
qed

lemma is_closed_loop:
  assumes "\<not> closed (scope_at s i)" "parent (scope_at s i) = Some i"
  shows "is_closed s i = None"
proof (rule ccontr)
  assume "is_closed s i \<noteq> None"
  then obtain b where "is_closed s i = Some b" by blast
  then have "\<not> (\<not> closed (scope_at s i) \<and> parent (scope_at s i) = Some i)"
    by (rule is_closed.raw_induct [where P = "\<lambda>(s :: 'a scopes) (i :: nat) (b :: bool).
          \<not> (\<not> closed (scope_at s i) \<and> parent (scope_at s i) = Some i)", rotated])
      (auto split: if_splits option.splits)
  with assms show False by blast
qed

section \<open>Draining under contention\<close>

text \<open>
  One pass of the drain transaction over the cells of the bucket it read: each cell's finalizer is
  taken out of the cell while the body runs, before the commit is validated. \<open>drain_attempts\<close> runs
  the body once per bucket met; all attempts but the last fail validation and only the last one's
  result is kept.
\<close>

fun drain_pass :: "nat list \<Rightarrow> (nat \<rightharpoonup> 'f) \<Rightarrow> 'f list \<times> (nat \<rightharpoonup> 'f)" where
  "drain_pass [] cells = ([], cells)"
| "drain_pass (c # cs) cells = (case cells c of
     None \<Rightarrow> drain_pass cs cells
   | Some f \<Rightarrow> (case drain_pass cs (cells(c := None)) of (fs, cells') \<Rightarrow> (f # fs, cells')))"

fun drain_attempts :: "nat list list \<Rightarrow> (nat \<rightharpoonup> 'f) \<Rightarrow> 'f list \<times> (nat \<rightharpoonup> 'f)" where
  "drain_attempts [] cells = ([], cells)"
| "drain_attempts [entries] cells = drain_pass entries cells"
| "drain_attempts (entries # rest) cells = drain_attempts rest (snd (drain_pass entries cells))"

lemma drain_pass_all:
  "distinct cs \<Longrightarrow> \<forall>c \<in> set cs. cells c \<noteq> None \<Longrightarrow>
    drain_pass cs cells = (map (\<lambda>c. the (cells c)) cs, cells |` (- set cs))"
proof (induction cs arbitrary: cells)
  case (Cons c cs)
  then obtain f where f: "cells c = Some f" by auto
  have "drain_pass cs (cells(c := None)) = (map (\<lambda>c. the (cells c)) cs, (cells(c := None)) |` (- set cs))"
    using Cons by (subst Cons.IH) auto
  with f show ?case by (auto simp: restrict_map_def fun_eq_iff)
qed (auto simp: restrict_map_def fun_eq_iff)

lemma drain_pass_skip: "\<forall>c \<in> set xs. cells c = None \<Longrightarrow> drain_pass (xs @ ys) cells = drain_pass ys cells"
  by (induction xs) auto

section \<open>Token stores\<close>

definition tokens_ok :: "tokens \<Rightarrow> bool" where
  "tokens_ok t \<longleftrightarrow> (\<forall>i. set (token_kids t i) \<subseteq> {..<token_used t}) \<and>
     (\<forall>i. is_cancelled t i \<longrightarrow> (\<forall>c \<in> set (token_kids t i). is_cancelled t c))"

lemma tokens_ok_settled:
  "tokens_ok t \<longleftrightarrow> (\<forall>i. set (token_kids t i) \<subseteq> {..<token_used t}) \<and> token_tree.settled {} t"
  by (simp add: tokens_ok_def token_tree.settled_def)

lemma token_visits_effect:
  "token_used (foldl (apply_visit token_mark (\<lambda>_ t. t)) t vs) = token_used t \<and>
   notified (foldl (apply_visit token_mark (\<lambda>_ t. t)) t vs) = notified t @ enters vs"
  by (induction vs arbitrary: t) (auto simp: apply_visit_def token_mark_def split: visit.split)

lemma cancel_step: "cancel i t = token_tree.step (Suc (token_used t)) i t"
  by (simp add: cancel_def token_tree.step_def)

lemma cancel_total:
  assumes "tokens_ok t" "i < token_used t"
  shows "\<exists>b t'. cancel i t = Some (b, t')"
  unfolding cancel_step
proof (rule token_tree.cascade_total [where U = "{..<token_used t}"])
  show "card (token_tree.todo {..<token_used t} t) < Suc (token_used t)"
    using card_mono [of "{..<token_used t}" "token_tree.todo {..<token_used t} t"]
    by (simp add: token_tree.todo_def subset_iff less_Suc_eq_le)
qed (use assms in \<open>auto simp: tokens_ok_settled\<close>)

lemma cancel_result:
  assumes "cancel i t = Some (b, t')"
  shows "b \<longleftrightarrow> \<not> is_cancelled t i" "\<not> b \<Longrightarrow> t' = t" "tokens_ok t \<Longrightarrow> tokens_ok t'"
    and "tokens_ok t \<Longrightarrow> token_tree.reaches t i j \<Longrightarrow> is_cancelled t' j"
    and "\<exists>new. notified t' = notified t @ new \<and> distinct new \<and>
      set new = {k. is_cancelled t' k \<and> \<not> is_cancelled t k}"
proof -
  note st = assms [unfolded cancel_step]
  note v = token_tree.step_visits [OF st]
  show "b \<longleftrightarrow> \<not> is_cancelled t i" "\<not> b \<Longrightarrow> t' = t" using v(1,3) by auto
  obtain vs where vs: "token_tree.visits t vs t'" using v(4) by blast
  then show "\<exists>new. notified t' = notified t @ new \<and> distinct new \<and>
      set new = {k. is_cancelled t' k \<and> \<not> is_cancelled t k}"
    using token_visits_effect [of t vs] by (auto simp: token_tree.visits_def token_tree.newly_def)
  have "token_used t' = token_used t" using vs token_visits_effect [of t vs] by (simp add: token_tree.visits_def)
  then show "tokens_ok t'" if "tokens_ok t"
    using that token_tree.step_settled [OF st] token_tree.step_frame(1) [OF st] by (simp add: tokens_ok_settled)
  show "is_cancelled t' j" if "tokens_ok t" "token_tree.reaches t i j"
    using token_tree.step_marks_descendants [OF st _ that(2)] that(1) by (simp add: tokens_ok_settled)
qed


text \<open>A store with one open root scope.\<close>

definition root_store :: "'f scopes" where
  "root_store = snd (scope_make \<lparr>scope_at = (\<lambda>_. open_scope None), used = 0, log = [], signalled = []\<rparr>)"

lemma root_store_ok: "scopes_ok root_store"
  by (simp add: root_store_def scopes_ok_def scope_make_def put_scope_def open_scope_def)

lemma root_store_simps:
  "used root_store = 1" "scope_at root_store = (\<lambda>_. open_scope None)" "log root_store = []"
  "signalled root_store = []"
  by (simp_all add: root_store_def scope_make_def put_scope_def fun_eq_iff)

lemma root_store_open: "is_closed root_store i = Some False"
  by (subst is_closed.simps) (simp add: root_store_simps open_scope_def)

section \<open>Properties\<close>

text \<open>
  C9. Closing a scope always returns, whatever cycles the children form; it reports \<open>true\<close> exactly
  on the first close; afterwards the scope and everything below it is closed, and a second close
  changes nothing.
\<close>

theorem close_cascades:
  assumes "scopes_ok s" "i < used s"
  shows "\<exists>b s'. close_with_exit i exit s = Some (b, s') \<and> (b \<longleftrightarrow> \<not> closed (scope_at s i)) \<and> scopes_ok s' \<and>
    (\<forall>j. below s i j \<longrightarrow> closed (scope_at s' j)) \<and> close_with_exit i exit' s' = Some (False, s')"
proof -
  from close_total [OF assms] obtain b s' where c: "close_with_exit i exit s = Some (b, s')" by blast
  note r = close_result [OF c]
  have "i < used s'" using assms(2) r(4) by simp
  from close_total [OF r(7) [OF assms(1)] this] obtain b2 s2 where
    c2: "close_with_exit i exit' s' = Some (b2, s2)" by blast
  note r2 = close_result [OF c2]
  have "b2 = False" "s2 = s'" using r(2) r2(1,3) by auto
  with c c2 r assms(1) show ?thesis by blast
qed

lemma close_cascades_witness:
  "\<exists>b s'. close_with_exit 0 (exit_succeed ()) (root_store :: nat scopes) = Some (b, s') \<and> b \<and> closed (scope_at s' 0)"
  using close_cascades [OF root_store_ok, of 0 "exit_succeed ()" "exit_succeed ()", where 'a = nat]
    scope_tree.reaches.here [of root_store 0]
  by (auto simp: root_store_simps open_scope_def)

text \<open>
  C8. Closing an open scope returns, and while no other transaction touches a bucket during its
  drain, each finalizer of each scope that this close closes runs exactly once, with the given exit:
  newest first within a scope, and a child's before its parent's at every level (a child that was open
  comes earlier in the order \<open>ks\<close> of the scopes, unless \<open>extend\<close> has made a cycle and the parent is
  also below it). The closed scope comes last, no other finalizer runs, and the buckets are empty
  afterwards.
\<close>

theorem finalizers_once_lifo:
  assumes "scopes_ok s" "i < used s" "\<not> closed (scope_at s i)"
  shows "\<exists>s' ks. close_with_exit i exit s = Some (True, s') \<and> distinct (ks @ [i]) \<and>
    set (ks @ [i]) = {k. closed (scope_at s' k) \<and> \<not> closed (scope_at s k)} \<and>
    log s' = log s @ concat (map (\<lambda>k. map (\<lambda>f. (k, f, exit)) (rev (bucket (scope_at s k)))) (ks @ [i])) \<and>
    (\<forall>k \<in> set (ks @ [i]). bucket (scope_at s' k) = []) \<and>
    (\<forall>xs j zs. ks @ [i] = xs @ j # zs \<longrightarrow>
       (\<forall>c \<in> set (children (scope_at s j)). closed (scope_at s c) \<or> c \<in> set xs \<or> below s c j))"
proof -
  obtain b s' where c: "close_with_exit i exit s = Some (b, s')" using close_total [OF assms(1,2)] by blast
  with close_result(1) [OF c] assms(3) have c: "close_with_exit i exit s = Some (True, s')" by simp
  from close_log [OF c] obtain ks where "distinct (ks @ [i])" "set (ks @ [i]) = {k. closed (scope_at s' k) \<and> \<not> closed (scope_at s k)}"
    "log s' = log s @ concat (map (finalizations s exit) (ks @ [i]))"
    "\<And>k. bucket (scope_at s' k) = (if k \<in> set (ks @ [i]) then [] else bucket (scope_at s k))"
    "\<forall>xs j zs. ks @ [i] = xs @ j # zs \<longrightarrow>
       (\<forall>c \<in> set (children (scope_at s j)). closed (scope_at s c) \<or> c \<in> set xs \<or> below s c j)" by blast
  with c show ?thesis by (intro exI [of _ s'] exI [of _ ks]) (simp add: finalizations_def [abs_def])
qed

definition nested_store :: "string scopes" where
  "nested_store = \<lparr>scope_at = (\<lambda>i. if i = 0 then \<lparr>closed = False, parent = None, children = [1], bucket = [''a'', ''b'']\<rparr>
       else if i = 1 then \<lparr>closed = False, parent = Some 0, children = [], bucket = [''c'']\<rparr> else open_scope None),
     used = 2, log = [], signalled = []\<rparr>"

lemma finalizers_once_lifo_witness:
  "\<exists>s'. close_with_exit 0 (exit_succeed ()) nested_store = Some (True, s') \<and>
     (\<exists>as bs. log s' = as @ (1, ''c'', exit_succeed ()) # bs @ [(0, ''b'', exit_succeed ()), (0, ''a'', exit_succeed ())])"
proof -
  have ok: "scopes_ok nested_store" "0 < used nested_store" "\<not> closed (scope_at nested_store 0)"
    by (auto simp: scopes_ok_def nested_store_def open_scope_def)
  obtain s' ks where c: "close_with_exit 0 (exit_succeed ()) nested_store = Some (True, s')"
    and l: "log s' = log nested_store @ concat (map (\<lambda>k. map (\<lambda>f. (k, f, exit_succeed ())) (rev (bucket (scope_at nested_store k)))) (ks @ [0]))"
    and ord: "\<forall>xs j zs. ks @ [0] = xs @ j # zs \<longrightarrow> (\<forall>c \<in> set (children (scope_at nested_store j)).
       closed (scope_at nested_store c) \<or> c \<in> set xs \<or> below nested_store c j)"
    using finalizers_once_lifo [OF ok, of "exit_succeed ()"] by blast
  have "j = 1" if "below nested_store i j" "i = 1" for i j
    using that by (induction rule: scope_tree.reaches.induct) (auto simp: scope_kids_def nested_store_def open_scope_def)
  moreover have "1 \<in> set ks \<or> below nested_store 1 0"
    using ord [rule_format, of ks 0 "[]" 1] by (simp add: nested_store_def)
  ultimately have "1 \<in> set ks" by fastforce
  then obtain xs ys where "ks = xs @ 1 # ys" by (auto simp: in_set_conv_decomp)
  with l have "log s' = concat (map (\<lambda>k. map (\<lambda>f. (k, f, exit_succeed ())) (rev (bucket (scope_at nested_store k)))) xs)
      @ (1, ''c'', exit_succeed ()) # concat (map (\<lambda>k. map (\<lambda>f. (k, f, exit_succeed ())) (rev (bucket (scope_at nested_store k)))) ys)
      @ [(0, ''b'', exit_succeed ()), (0, ''a'', exit_succeed ())]"
    by (simp add: nested_store_def)
  with c show ?thesis by blast
qed

text \<open>
  Invariant of the scope tree under every operation: children are known scopes and a closed scope
  has only closed children; in particular a child forked from a closed scope is closed at once.
\<close>

theorem scope_operations_invariant:
  assumes "scopes_ok s" "i < used s" "j < used s"
  shows "scopes_ok (snd (scope_make s)) \<and>
    (\<forall>b s'. close_with_exit i exit s = Some (b, s') \<longrightarrow> scopes_ok s') \<and>
    (\<forall>c s'. scope_fork i s = Some (c, s') \<longrightarrow>
       scopes_ok s' \<and> c \<in> set (children (scope_at s' i)) \<and> (closed (scope_at s i) \<longrightarrow> closed (scope_at s' c))) \<and>
    (\<forall>b s'. scope_extend i j s = Some (b, s') \<longrightarrow> scopes_ok s') \<and>
    (\<forall>b s'. add_finalizer i f s = Some (b, s') \<longrightarrow> scopes_ok s')"
  using scopes_ok_make [OF assms(1)] close_result(7) [OF _ assms(1)] scope_fork_spec [OF assms(1,2)]
    scopes_ok_extend(1) [OF assms(1,3)] scopes_ok_add_finalizer(1) [OF assms(1)] by blast

lemma scope_operations_invariant_witness:
  "\<exists>s'. add_finalizer 0 ''a'' root_store = Some (True, s') \<and> scopes_ok s'"
proof -
  have "add_finalizer 0 ''a'' root_store =
      Some (True, put_scope 0 ((scope_at root_store 0)\<lparr>bucket := bucket (scope_at root_store 0) @ [''a'']\<rparr>) root_store)"
    by (simp add: add_finalizer_def root_store_open)
  with scope_operations_invariant [OF root_store_ok, where i = 0 and j = 0 and f = "''a''" and 'a = string]
  show ?thesis by (auto simp: root_store_simps)
qed

text \<open>
  Extending a scope by itself is accepted and makes \<open>is_closed\<close> run forever: \<open>extend\<close> does not
  check that the new parent is not below the scope it reparents.
\<close>

theorem extend_self_diverges:
  assumes "is_closed s i = Some False"
  shows "\<exists>s'. scope_extend i i s = Some (True, s') \<and> is_closed s' i = None \<and> add_finalizer i f s' = None"
proof -
  let ?s = "add_child i i (put_scope i ((scope_at s i)\<lparr>parent := Some i\<rparr>) s)"
  have "scope_extend i i s = Some (True, ?s)" using assms by (simp add: scope_extend_def)
  moreover have "is_closed ?s i = None"
    using is_closed_SomeD [OF assms] by (intro is_closed_loop) (simp_all add: add_child_def put_scope_def)
  ultimately show ?thesis by (simp add: add_finalizer_def)
qed

lemma extend_self_diverges_witness:
  "\<exists>s'. scope_extend 0 0 (root_store :: nat scopes) = Some (True, s') \<and> is_closed s' 0 = None \<and>
     add_finalizer 0 (7 :: nat) s' = None"
  by (rule extend_self_diverges) (rule root_store_open)

text \<open>
  \<open>extend\<close> does not take the scope away from its old parent: a scope \<open>c\<close> under \<open>p\<close> that has been
  moved under \<open>q\<close> is still closed when \<open>p\<close> closes.
\<close>

theorem reparented_scope_follows_old_parent:
  assumes "scopes_ok s" "p < used s" "c \<in> set (children (scope_at s p))" "scope_extend q c s = Some (True, s1)"
  shows "\<exists>b s2. close_with_exit p exit s1 = Some (b, s2) \<and> closed (scope_at s2 c)"
proof -
  have c: "c < used s" using assms(1,3) unfolding scopes_ok_def by fastforce
  note e = scopes_ok_extend [OF assms(1) c assms(4)]
  have "s1 = add_child q c (put_scope c ((scope_at s c)\<lparr>parent := Some q\<rparr>) s)"
    using assms(4) by (auto simp: scope_extend_def split: option.splits bool.splits)
  then have "c \<in> set (scope_kids s1 p)"
    using assms(3) by (auto simp: add_child_def put_scope_def scope_kids_def)
  then have "below s1 p c" using scope_tree.reaches.intros by blast
  moreover have "p < used s1" using assms(2) e(2) by simp
  from close_total [OF e(1) this] obtain b s2 where "close_with_exit p exit s1 = Some (b, s2)" by blast
  ultimately show ?thesis using close_result(8) [OF _ e(1)] by blast
qed

lemma reparented_scope_follows_old_parent_witness:
  "\<exists>(s :: nat scopes) b s2. scopes_ok s \<and> close_with_exit 0 (exit_succeed ()) s = Some (b, s2) \<and> closed (scope_at s2 2)"
proof -
  let ?s = "\<lparr>scope_at = (\<lambda>_. open_scope None)(0 := (open_scope None)\<lparr>children := [2]\<rparr>, 2 := open_scope (Some 0)),
    used = 3, log = [], signalled = []\<rparr> :: nat scopes"
  have ok: "scopes_ok ?s" by (auto simp: scopes_ok_def open_scope_def)
  have open0: "is_closed ?s 0 = Some False" by (subst is_closed.simps) (simp add: open_scope_def)
  have "is_closed ?s 1 = Some False" "is_closed ?s 2 = Some False"
    by (subst is_closed.simps, simp add: open_scope_def open0)+
  then obtain s1 where e: "scope_extend 1 2 ?s = Some (True, s1)" by (simp add: scope_extend_def)
  have "scopes_ok s1" using scopes_ok_extend(1) [OF ok _ e] by simp
  with reparented_scope_follows_old_parent [OF ok _ _ e, of 0 "exit_succeed ()"] show ?thesis
    by (intro exI [of _ s1]) auto
qed

text \<open>
  A close that loses the race against \<open>add_finalizer\<close> drops finalizers: the first attempt of the
  drain transaction empties the cells it read; when it fails validation and runs again, only the
  finalizers registered in between are returned, although an undisturbed drain returns all.
\<close>

theorem drain_retry_loses_finalizers:
  assumes "distinct (old @ new)" "\<forall>c \<in> set (old @ new). cells c \<noteq> None"
  shows "fst (drain_attempts [old @ new] cells) = map (\<lambda>c. the (cells c)) (old @ new) \<and>
    fst (drain_attempts [old, old @ new] cells) = map (\<lambda>c. the (cells c)) new"
proof
  show "fst (drain_attempts [old @ new] cells) = map (\<lambda>c. the (cells c)) (old @ new)"
    using drain_pass_all [OF assms] by simp
  let ?m = "cells |` (- set old)"
  have "drain_pass old cells = (map (\<lambda>c. the (cells c)) old, ?m)"
    using assms by (intro drain_pass_all) auto
  moreover have "drain_pass (old @ new) ?m = drain_pass new ?m" by (rule drain_pass_skip) simp
  moreover have "drain_pass new ?m = (map (\<lambda>c. the (?m c)) new, ?m |` (- set new))"
    using assms by (intro drain_pass_all) (auto simp: restrict_map_def)
  ultimately show "fst (drain_attempts [old, old @ new] cells) = map (\<lambda>c. the (cells c)) new"
    using assms by (auto simp: restrict_map_def)
qed

lemma drain_retry_loses_finalizers_witness:
  "fst (drain_attempts [[1], [1, 2]] [1 \<mapsto> ''first'', 2 \<mapsto> ''second'']) = [''second'']"
  using drain_retry_loses_finalizers [of "[1]" "[2]" "[1 \<mapsto> ''first'', 2 \<mapsto> ''second'']"] by simp

text \<open>
  A scoped effect closes its scope on both paths: when the body resolves, \<open>scope_with\<close> resolves
  with the same result, its scope is closed, and unless the body closed it before, its finalizers
  have received \<open>Exit::Success\<close> after a success and a \<open>Die\<close> after an error.
\<close>

theorem scope_with_closes:
  assumes "run (f (used w)) r (snd (scope_make w)) = Some (res, r', w2)" "scopes_ok w2" "used w < used w2"
  shows "\<exists>b w3. run (scope_with f) r w = Some (res, r', w3) \<and> closed (scope_at w3 (used w)) \<and>
    close_with_exit (used w) (case res of Inr _ \<Rightarrow> exit_succeed () | Inl _ \<Rightarrow> exit_die ''scope_with effect failed'') w2 =
      Some (b, w3)"
proof -
  let ?exit = "case res of Inr _ \<Rightarrow> exit_succeed () | Inl _ \<Rightarrow> exit_die ''scope_with effect failed''"
  from close_total [OF assms(2,3)] obtain b w3 where
    c: "close_with_exit (used w) ?exit w2 = Some (b, w3)" by blast
  obtain w1 where w1: "scope_make w = (used w, w1)" by (simp add: scope_make_def)
  with assms(1) c have "run (scope_with f) r w = Some (res, r', w3)"
    by (cases res) (simp_all add: scope_with_def new_async_def run_def)
  with c close_result(2) [OF c] show ?thesis by blast
qed

lemma scope_with_closes_witness:
  "\<exists>b w3. run (scope_with (\<lambda>_. fail ''e'' :: (unit, string, unit, nat scopes) effect)) () root_store =
      Some (Err ''e'', (), w3) \<and> closed (scope_at w3 1) \<and>
    close_with_exit 1 (exit_die ''scope_with effect failed'') (snd (scope_make root_store)) = Some (b, w3)"
  using scope_with_closes [of "\<lambda>_. fail ''e'' :: (unit, string, unit, nat scopes) effect" root_store "()"
      "Err ''e''" "()" "snd (scope_make root_store)"] scopes_ok_make [OF root_store_ok]
  by (auto simp: root_store_simps run_def fail_def new_sync_def scope_make_def put_scope_def)

text \<open>
  C30. Cancelling a token always returns, reports \<open>true\<close> exactly the first time, cancels every token
  below it, and notifies the waiters of each newly cancelled token exactly once.
\<close>

theorem cancel_cascades:
  assumes "tokens_ok t" "i < token_used t"
  shows "\<exists>b t' new. cancel i t = Some (b, t') \<and> (b \<longleftrightarrow> \<not> is_cancelled t i) \<and> tokens_ok t' \<and>
    (\<forall>j. cascading.reaches token_kids t i j \<longrightarrow> is_cancelled t' j) \<and>
    notified t' = notified t @ new \<and> distinct new \<and> set new = {k. is_cancelled t' k \<and> \<not> is_cancelled t k}"
proof -
  from cancel_total [OF assms] obtain b t' where c: "cancel i t = Some (b, t')" by blast
  note r = cancel_result [OF c]
  from r(5) obtain new where "notified t' = notified t @ new" "distinct new"
    "set new = {k. is_cancelled t' k \<and> \<not> is_cancelled t k}" by blast
  with c r assms(1) show ?thesis by blast
qed

lemma cancel_cascades_witness:
  "\<exists>b t' new. cancel 0 \<lparr>token_at = (\<lambda>_. \<lparr>cancelled = False, token_children = []\<rparr>)(0 := \<lparr>cancelled = False, token_children = [1]\<rparr>),
      token_used = 2, notified = []\<rparr> = Some (b, t') \<and> is_cancelled t' 1 \<and> notified t' = new \<and> distinct new"
proof -
  let ?t = "\<lparr>token_at = (\<lambda>_. \<lparr>cancelled = False, token_children = []\<rparr>)(0 := \<lparr>cancelled = False, token_children = [1]\<rparr>),
      token_used = 2, notified = []\<rparr>"
  have ok: "tokens_ok ?t" by (auto simp: tokens_ok_def token_kids_def is_cancelled_def)
  have "token_tree.reaches ?t 0 1"
    by (rule token_tree.reaches.down [OF token_tree.reaches.here]) (simp add: token_kids_def)
  with cancel_cascades [OF ok, of 0] show ?thesis by auto
qed

end
