(* ===== verification/Queues.thy ===== *)
theory Queues
  imports Prelude
begin

text \<open>
  \<open>crates/id_effect/src/coordination/queue.rs\<close>: the multi-producer multi-consumer queue with its
  sliding, bounded, unbounded and dropping modes.

  An operation is run by itself: it takes the queue and gives its result and the queue afterwards;
  \<open>None\<close> is a receive that blocks because nothing is queued and the queue is open. The mutex
  sections of the code are atomic; that \<open>blocking_lock\<close>, which some of them take, panics when it is
  called on a thread of an async runtime is not modelled. The channel of the \<open>flume\<close> package is the argument \<open>fl\<close>: a
  record of the operations the code calls on a channel state \<open>'c\<close>, with \<open>flume_laws\<close> for what its
  documentation promises. The receiver half is never dropped by this code; the sender half is
  dropped by \<open>shutdown\<close>, which is the \<open>False\<close> of \<open>tx_open\<close>.
\<close>

datatype queue_error = Disconnected

datatype flume_kind = Bounded | Unbounded | Dropping

record ('a, 'c) flume =
  fl_try_send :: "'c \<Rightarrow> 'a \<Rightarrow> 'c option"
  fl_try_recv :: "'c \<Rightarrow> ('a \<times> 'c) option"
  fl_len :: "'c \<Rightarrow> nat"
  fl_is_full :: "'c \<Rightarrow> bool"

text \<open>\<open>content\<close> is the sequence of buffered values and \<open>bound\<close> the capacity of a bounded channel.\<close>

definition flume_laws :: "('a, 'c) flume \<Rightarrow> ('c \<Rightarrow> 'a list) \<Rightarrow> ('c \<Rightarrow> nat option) \<Rightarrow> bool" where
  "flume_laws fl content bound \<longleftrightarrow>
     (\<forall>c. fl_is_full fl c \<longleftrightarrow> (\<exists>n. bound c = Some n \<and> n \<le> length (content c))) \<and>
     (\<forall>c v. fl_is_full fl c \<longrightarrow> fl_try_send fl c v = None) \<and>
     (\<forall>c v. \<not> fl_is_full fl c \<longrightarrow>
        (\<exists>c'. fl_try_send fl c v = Some c' \<and> content c' = content c @ [v] \<and> bound c' = bound c)) \<and>
     (\<forall>c. content c = [] \<longrightarrow> fl_try_recv fl c = None) \<and>
     (\<forall>c x xs. content c = x # xs \<longrightarrow>
        (\<exists>c'. fl_try_recv fl c = Some (x, c') \<and> content c' = xs \<and> bound c' = bound c)) \<and>
     (\<forall>c. fl_len fl c = length (content c))"

record 'c flume_shared =
  kind :: flume_kind
  tx_open :: bool
  chan :: 'c
  fl_shutdown :: bool

record 'a sliding_shared =
  deque :: "'a list"
  is_open :: bool
  sl_capacity :: nat
  sl_shutdown :: bool

datatype ('a, 'c) queue = Flume "'c flume_shared" | Sliding "'a sliding_shared"

section \<open>The flume side\<close>

definition flume_offer :: "('a, 'c) flume \<Rightarrow> 'c flume_shared \<Rightarrow> 'a \<Rightarrow> bool \<times> 'c flume_shared" where
  "flume_offer fl f v =
     (if \<not> tx_open f then (False, f)
      else (case fl_try_send fl (chan f) v of
              Some c \<Rightarrow> (True, f\<lparr>chan := c\<rparr>) | None \<Rightarrow> (False, f)))"

definition flume_offer_or_retain ::
  "('a, 'c) flume \<Rightarrow> 'c flume_shared \<Rightarrow> 'a \<Rightarrow> (unit, 'a) result \<times> 'c flume_shared" where
  "flume_offer_or_retain fl f v =
     (if \<not> tx_open f then (Ok (), f)
      else (case fl_try_send fl (chan f) v of
              Some c \<Rightarrow> (Ok (), f\<lparr>chan := c\<rparr>)
            | None \<Rightarrow> (case kind f of
                Bounded \<Rightarrow> (Err v, f) | Unbounded \<Rightarrow> (Ok (), f) | Dropping \<Rightarrow> (Ok (), f))))"

definition flume_recv ::
  "('a, 'c) flume \<Rightarrow> 'c flume_shared \<Rightarrow> (('a, queue_error) result \<times> 'c flume_shared) option" where
  "flume_recv fl f = (case fl_try_recv fl (chan f) of
     Some (v, c) \<Rightarrow> Some (Ok v, f\<lparr>chan := c\<rparr>)
   | None \<Rightarrow> if tx_open f then None else Some (Err Disconnected, f))"

definition flume_try_recv ::
  "('a, 'c) flume \<Rightarrow> 'c flume_shared \<Rightarrow> ('a option, queue_error) result \<times> 'c flume_shared" where
  "flume_try_recv fl f = (case fl_try_recv fl (chan f) of
     Some (v, c) \<Rightarrow> (Ok (Some v), f\<lparr>chan := c\<rparr>)
   | None \<Rightarrow> if tx_open f then (Ok None, f) else (Err Disconnected, f))"

definition flume_shut :: "'c flume_shared \<Rightarrow> 'c flume_shared" where
  "flume_shut f = f\<lparr>tx_open := False, fl_shutdown := True\<rparr>"

section \<open>The sliding side\<close>

definition sliding_new :: "nat \<Rightarrow> 'a sliding_shared" where
  "sliding_new capacity = \<lparr>deque = [], is_open = True, sl_capacity = max capacity 1, sl_shutdown = False\<rparr>"

fun trim :: "nat \<Rightarrow> 'a list \<Rightarrow> 'a list" where
  "trim cap xs = (if cap < length xs then trim cap (tl xs) else xs)"

declare trim.simps [simp del]

definition sliding_offer_or_retain ::
  "'a sliding_shared \<Rightarrow> 'a \<Rightarrow> (unit, 'a) result \<times> 'a sliding_shared" where
  "sliding_offer_or_retain s v =
     (if \<not> is_open s then (Err v, s)
      else (Ok (), s\<lparr>deque := trim (sl_capacity s) (deque s @ [v])\<rparr>))"

definition sliding_offer :: "'a sliding_shared \<Rightarrow> 'a \<Rightarrow> bool \<times> 'a sliding_shared" where
  "sliding_offer s v = (case sliding_offer_or_retain s v of (r, s') \<Rightarrow>
     (case r of Inr _ \<Rightarrow> True | Inl _ \<Rightarrow> False, s'))"

definition sliding_recv ::
  "'a sliding_shared \<Rightarrow> (('a, queue_error) result \<times> 'a sliding_shared) option" where
  "sliding_recv s = (case deque s of
     x # xs \<Rightarrow> Some (Ok x, s\<lparr>deque := xs\<rparr>)
   | [] \<Rightarrow> if \<not> is_open s then Some (Err Disconnected, s) else None)"

definition sliding_try_recv ::
  "'a sliding_shared \<Rightarrow> ('a option, queue_error) result \<times> 'a sliding_shared" where
  "sliding_try_recv s = (case deque s of
     x # xs \<Rightarrow> (Ok (Some x), s\<lparr>deque := xs\<rparr>)
   | [] \<Rightarrow> if \<not> is_open s then (Err Disconnected, s) else (Ok None, s))"

definition sliding_shut :: "'a sliding_shared \<Rightarrow> 'a sliding_shared" where
  "sliding_shut s = s\<lparr>is_open := False, sl_shutdown := True\<rparr>"

section \<open>The queue\<close>

definition from_flume :: "flume_kind \<Rightarrow> 'c \<Rightarrow> ('a, 'c) queue" where
  "from_flume k c = Flume \<lparr>kind = k, tx_open = True, chan = c, fl_shutdown = False\<rparr>"

definition q_sliding :: "nat \<Rightarrow> ('a, 'c) queue" where
  "q_sliding capacity = Sliding (sliding_new capacity)"

text \<open>\<open>new_bounded\<close> and \<open>new_unbounded\<close> stand for \<open>flume::bounded\<close> and \<open>flume::unbounded\<close>.\<close>

definition q_bounded :: "(nat \<Rightarrow> 'c) \<Rightarrow> nat \<Rightarrow> ('a, 'c) queue" where
  "q_bounded new_bounded capacity = from_flume Bounded (new_bounded (max capacity 1))"

definition q_unbounded :: "'c \<Rightarrow> ('a, 'c) queue" where
  "q_unbounded new_unbounded = from_flume Unbounded new_unbounded"

definition q_dropping :: "(nat \<Rightarrow> 'c) \<Rightarrow> nat \<Rightarrow> ('a, 'c) queue" where
  "q_dropping new_bounded capacity = from_flume Dropping (new_bounded (max capacity 1))"

definition q_offer :: "('a, 'c) flume \<Rightarrow> ('a, 'c) queue \<Rightarrow> 'a \<Rightarrow> bool \<times> ('a, 'c) queue" where
  "q_offer fl q v = (case q of
     Flume f \<Rightarrow> (case flume_offer fl f v of (b, f') \<Rightarrow> (b, Flume f'))
   | Sliding s \<Rightarrow> (case sliding_offer s v of (b, s') \<Rightarrow> (b, Sliding s')))"

definition q_offer_or_retain ::
  "('a, 'c) flume \<Rightarrow> ('a, 'c) queue \<Rightarrow> 'a \<Rightarrow> (unit, 'a) result \<times> ('a, 'c) queue" where
  "q_offer_or_retain fl q v = (case q of
     Flume f \<Rightarrow> (case flume_offer_or_retain fl f v of (b, f') \<Rightarrow> (b, Flume f'))
   | Sliding s \<Rightarrow> (case sliding_offer_or_retain s v of (b, s') \<Rightarrow> (b, Sliding s')))"

primrec q_offer_all :: "('a, 'c) flume \<Rightarrow> 'a list \<Rightarrow> ('a, 'c) queue \<Rightarrow> 'a list \<times> ('a, 'c) queue" where
  "q_offer_all fl [] q = ([], q)"
| "q_offer_all fl (v # vs) q = (case q_offer_or_retain fl q v of
     (Inr _, q') \<Rightarrow> q_offer_all fl vs q'
   | (Inl w, q') \<Rightarrow> (case q_offer_all fl vs q' of (left, q'') \<Rightarrow> (w # left, q'')))"

definition q_recv ::
  "('a, 'c) flume \<Rightarrow> ('a, 'c) queue \<Rightarrow> (('a, queue_error) result \<times> ('a, 'c) queue) option" where
  "q_recv fl q = (case q of
     Flume f \<Rightarrow> map_option (\<lambda>(r, f'). (r, Flume f')) (flume_recv fl f)
   | Sliding s \<Rightarrow> map_option (\<lambda>(r, s'). (r, Sliding s')) (sliding_recv s))"

definition q_try_recv ::
  "('a, 'c) flume \<Rightarrow> ('a, 'c) queue \<Rightarrow> ('a option, queue_error) result \<times> ('a, 'c) queue" where
  "q_try_recv fl q = (case q of
     Flume f \<Rightarrow> (case flume_try_recv fl f of (r, f') \<Rightarrow> (r, Flume f'))
   | Sliding s \<Rightarrow> (case sliding_try_recv s of (r, s') \<Rightarrow> (r, Sliding s')))"

definition q_take ::
  "('a, 'c) flume \<Rightarrow> ('a, 'c) queue \<Rightarrow> (('a, queue_error) result \<times> ('a, 'c) queue) option" where
  "q_take fl q = q_recv fl q"

text \<open>
  The loops after the blocking receives: receive without waiting while fewer than \<open>limit\<close>
  elements are collected (\<open>None\<close>: no limit); an error drops what was collected.
\<close>

partial_function (option) drain_loop ::
  "('a, 'c) flume \<Rightarrow> nat option \<Rightarrow> 'a list \<Rightarrow> ('a, 'c) queue \<Rightarrow>
    (('a list, queue_error) result \<times> ('a, 'c) queue) option" where
  "drain_loop fl limit out q =
     (if (case limit of Some n \<Rightarrow> n \<le> length out | None \<Rightarrow> False) then Some (Ok out, q)
      else (case q_try_recv fl q of
              (Inl e, q') \<Rightarrow> Some (Err e, q')
            | (Inr None, q') \<Rightarrow> Some (Ok out, q')
            | (Inr (Some v), q') \<Rightarrow> drain_loop fl limit (out @ [v]) q'))"

primrec recv_n ::
  "('a, 'c) flume \<Rightarrow> nat \<Rightarrow> 'a list \<Rightarrow> ('a, 'c) queue \<Rightarrow>
    (('a list, queue_error) result \<times> ('a, 'c) queue) option" where
  "recv_n fl 0 out q = Some (Ok out, q)"
| "recv_n fl (Suc n) out q = (case q_recv fl q of
     None \<Rightarrow> None
   | Some (Inl e, q') \<Rightarrow> Some (Err e, q')
   | Some (Inr v, q') \<Rightarrow> recv_n fl n (out @ [v]) q')"

definition then_drain ::
  "('a, 'c) flume \<Rightarrow> nat option \<Rightarrow> (('a list, queue_error) result \<times> ('a, 'c) queue) option \<Rightarrow>
    (('a list, queue_error) result \<times> ('a, 'c) queue) option" where
  "then_drain fl limit x = (case x of
     None \<Rightarrow> None
   | Some (Inl e, q') \<Rightarrow> Some (Err e, q')
   | Some (Inr out, q') \<Rightarrow> drain_loop fl limit out q')"

definition q_take_all ::
  "('a, 'c) flume \<Rightarrow> ('a, 'c) queue \<Rightarrow> (('a list, queue_error) result \<times> ('a, 'c) queue) option" where
  "q_take_all fl q = then_drain fl None (recv_n fl 1 [] q)"

definition q_take_up_to ::
  "('a, 'c) flume \<Rightarrow> nat \<Rightarrow> ('a, 'c) queue \<Rightarrow> (('a list, queue_error) result \<times> ('a, 'c) queue) option" where
  "q_take_up_to fl n q =
     (if n = 0 then Some (Ok [], q) else then_drain fl (Some n) (recv_n fl 1 [] q))"

definition q_take_n ::
  "('a, 'c) flume \<Rightarrow> nat \<Rightarrow> ('a, 'c) queue \<Rightarrow> (('a list, queue_error) result \<times> ('a, 'c) queue) option" where
  "q_take_n fl n q = (if n = 0 then Some (Ok [], q) else recv_n fl n [] q)"

definition q_take_between ::
  "('a, 'c) flume \<Rightarrow> nat \<Rightarrow> nat \<Rightarrow> ('a, 'c) queue \<Rightarrow> (('a list, queue_error) result \<times> ('a, 'c) queue) option" where
  "q_take_between fl mn mx q =
     (if mx < mn then Some (Ok [], q)
      else if mn = 0 \<and> mx = 0 then Some (Ok [], q)
      else then_drain fl (Some mx) (recv_n fl mn [] q))"

definition q_poll ::
  "('a, 'c) flume \<Rightarrow> ('a, 'c) queue \<Rightarrow> ('a option, queue_error) result \<times> ('a, 'c) queue" where
  "q_poll fl q = q_try_recv fl q"

definition q_size :: "('a, 'c) flume \<Rightarrow> ('a, 'c) queue \<Rightarrow> nat" where
  "q_size fl q = (case q of Flume f \<Rightarrow> fl_len fl (chan f) | Sliding s \<Rightarrow> length (deque s))"

definition q_is_empty :: "('a, 'c) flume \<Rightarrow> ('a, 'c) queue \<Rightarrow> bool" where
  "q_is_empty fl q = (case q of Flume f \<Rightarrow> fl_len fl (chan f) = 0 | Sliding s \<Rightarrow> deque s = [])"

definition q_is_full :: "('a, 'c) flume \<Rightarrow> ('a, 'c) queue \<Rightarrow> bool" where
  "q_is_full fl q = (case q of
     Flume f \<Rightarrow> if \<not> tx_open f then True else fl_is_full fl (chan f)
   | Sliding s \<Rightarrow> sl_capacity s \<le> length (deque s))"

definition q_shutdown :: "('a, 'c) queue \<Rightarrow> ('a, 'c) queue" where
  "q_shutdown q = (case q of Flume f \<Rightarrow> Flume (flume_shut f) | Sliding s \<Rightarrow> Sliding (sliding_shut s))"

definition q_is_shutdown :: "('a, 'c) queue \<Rightarrow> bool" where
  "q_is_shutdown q = (case q of Flume f \<Rightarrow> fl_shutdown f | Sliding s \<Rightarrow> sl_shutdown s)"

definition q_await_shutdown :: "('a, 'c) queue \<Rightarrow> unit option" where
  "q_await_shutdown q = (if q_is_shutdown q then Some () else None)"

section \<open>One view of both sides\<close>

text \<open>What is buffered, and whether producers can still add to it.\<close>

definition buffered :: "('c \<Rightarrow> 'a list) \<Rightarrow> ('a, 'c) queue \<Rightarrow> 'a list" where
  "buffered content q = (case q of Flume f \<Rightarrow> content (chan f) | Sliding s \<Rightarrow> deque s)"

definition accepting :: "('a, 'c) queue \<Rightarrow> bool" where
  "accepting q = (case q of Flume f \<Rightarrow> tx_open f | Sliding s \<Rightarrow> is_open s)"

lemma trim_drop: "trim cap xs = drop (length xs - cap) xs"
proof (induction cap xs rule: trim.induct)
  case (1 cap xs)
  show ?case
  proof (cases "cap < length xs")
    case True
    then obtain y ys where "xs = y # ys" by (cases xs) auto
    with 1 True show ?thesis by (subst trim.simps) (simp add: Suc_diff_le)
  qed (subst trim.simps, simp)
qed

lemma try_recv_view:
  assumes "flume_laws fl content bound"
  shows "buffered content q = [] \<Longrightarrow> accepting q \<Longrightarrow> q_try_recv fl q = (Ok None, q)"
    and "buffered content q = [] \<Longrightarrow> \<not> accepting q \<Longrightarrow> q_try_recv fl q = (Err Disconnected, q)"
    and "buffered content q = x # xs \<Longrightarrow> \<exists>q'. q_try_recv fl q = (Ok (Some x), q') \<and>
      buffered content q' = xs \<and> accepting q' = accepting q \<and> q_is_shutdown q' = q_is_shutdown q"
proof -
  note laws = assms [unfolded flume_laws_def]
  show "buffered content q = [] \<Longrightarrow> accepting q \<Longrightarrow> q_try_recv fl q = (Ok None, q)"
    "buffered content q = [] \<Longrightarrow> \<not> accepting q \<Longrightarrow> q_try_recv fl q = (Err Disconnected, q)"
    using laws by (cases q; simp add: buffered_def accepting_def q_try_recv_def flume_try_recv_def sliding_try_recv_def)+
  assume b: "buffered content q = x # xs"
  show "\<exists>q'. q_try_recv fl q = (Ok (Some x), q') \<and> buffered content q' = xs \<and>
      accepting q' = accepting q \<and> q_is_shutdown q' = q_is_shutdown q"
  proof (cases q)
    case (Flume f)
    with b have "content (chan f) = x # xs" by (simp add: buffered_def)
    with laws obtain c' where "fl_try_recv fl (chan f) = Some (x, c')" "content c' = xs"
      by blast
    with Flume show ?thesis
      by (simp add: q_try_recv_def flume_try_recv_def buffered_def accepting_def q_is_shutdown_def)
  next
    case (Sliding s)
    with b show ?thesis
      by (simp add: q_try_recv_def sliding_try_recv_def buffered_def accepting_def q_is_shutdown_def)
  qed
qed

lemma recv_view:
  "q_recv fl q = (case q_try_recv fl q of
     (Inl e, q') \<Rightarrow> Some (Err e, q')
   | (Inr None, q') \<Rightarrow> None
   | (Inr (Some v), q') \<Rightarrow> Some (Ok v, q'))"
  by (cases q) (simp_all add: q_recv_def q_try_recv_def flume_recv_def flume_try_recv_def
    sliding_recv_def sliding_try_recv_def split: option.splits list.splits)

lemma drain_loop_open:
  assumes laws: "flume_laws fl content bound" and open_q: "accepting q"
  shows "\<exists>q'. drain_loop fl None out q = Some (Ok (out @ buffered content q), q') \<and>
    buffered content q' = [] \<and> accepting q'"
  using open_q
proof (induction "buffered content q" arbitrary: out q)
  case Nil
  then show ?case
    by (subst drain_loop.simps) (simp add: try_recv_view(1) [OF laws])
next
  case (Cons x xs)
  have b: "buffered content q = x # xs" using Cons.hyps(2) by simp
  obtain q' where q': "q_try_recv fl q = (Ok (Some x), q')" "buffered content q' = xs" "accepting q'"
    using try_recv_view(3) [OF laws b] Cons.prems by auto
  have "\<exists>q''. drain_loop fl None (out @ [x]) q' = Some (Ok ((out @ [x]) @ buffered content q'), q'') \<and>
      buffered content q'' = [] \<and> accepting q''"
    by (rule Cons.hyps(1)) (use q' in simp_all)
  with q' b show ?case by (subst drain_loop.simps) simp
qed

lemma drain_loop_closed:
  assumes laws: "flume_laws fl content bound" and closed_q: "\<not> accepting q"
    and room: "\<And>n. limit = Some n \<Longrightarrow> length out + length (buffered content q) < n"
  shows "\<exists>q'. drain_loop fl limit out q = Some (Err Disconnected, q') \<and>
    buffered content q' = [] \<and> \<not> accepting q'"
  using closed_q room
proof (induction "buffered content q" arbitrary: out q)
  case Nil
  then show ?case
    by (subst drain_loop.simps) (auto simp: try_recv_view(2) [OF laws] split: option.splits)
next
  case (Cons x xs)
  have b: "buffered content q = x # xs" using Cons.hyps(2) by simp
  obtain q' where q': "q_try_recv fl q = (Ok (Some x), q')" "buffered content q' = xs" "\<not> accepting q'"
    using try_recv_view(3) [OF laws b] Cons.prems(1) by auto
  have "\<not> (case limit of Some n \<Rightarrow> n \<le> length out | None \<Rightarrow> False)"
    using Cons.prems(2) by (auto split: option.splits)
  moreover have "\<exists>q''. drain_loop fl limit (out @ [x]) q' = Some (Err Disconnected, q'') \<and>
      buffered content q'' = [] \<and> \<not> accepting q''"
    by (rule Cons.hyps(1)) (use q' b Cons.prems(2) in simp_all)
  ultimately show ?case using q'(1) by (subst drain_loop.simps) simp
qed

lemma take_all_nonempty:
  assumes "flume_laws fl content bound" "buffered content q = x # xs"
  shows "\<exists>q'. q_take_all fl q = drain_loop fl None [x] q' \<and> buffered content q' = xs \<and>
    accepting q' = accepting q"
  using try_recv_view(3) [OF assms]
  by (auto simp: q_take_all_def recv_view then_drain_def)

section \<open>What each mode keeps\<close>

text \<open>
  The elements of \<open>vs\<close> that are given back and the buffer after offering them to an open queue: a
  sliding queue keeps the latest elements, the others the earliest, and only the bounded one
  gives back what it had no room for.
\<close>

definition offer_outcome ::
  "('c \<Rightarrow> 'a list) \<Rightarrow> ('c \<Rightarrow> nat option) \<Rightarrow> ('a, 'c) queue \<Rightarrow> 'a list \<Rightarrow> 'a list \<times> 'a list" where
  "offer_outcome content bound q vs = (case q of
     Sliding s \<Rightarrow> ([], drop (length (deque s @ vs) - sl_capacity s) (deque s @ vs))
   | Flume f \<Rightarrow> (case bound (chan f) of
       None \<Rightarrow> ([], content (chan f) @ vs)
     | Some n \<Rightarrow>
         (if kind f = Bounded then drop (n - length (content (chan f))) vs else [],
          content (chan f) @ take (n - length (content (chan f))) vs)))"

fun within_capacity :: "('a, 'c) queue \<Rightarrow> bool" where
  "within_capacity (Sliding s) \<longleftrightarrow> length (deque s) \<le> sl_capacity s \<and> 0 < sl_capacity s"
| "within_capacity (Flume f) \<longleftrightarrow> True"

lemma offer_all_sliding:
  assumes "is_open s" "within_capacity (Sliding s :: ('a, 'c) queue)"
  shows "q_offer_all fl vs (Sliding s :: ('a, 'c) queue) =
    ([], Sliding (s\<lparr>deque := drop (length (deque s @ vs) - sl_capacity s) (deque s @ vs)\<rparr>))"
  using assms
proof (induction vs arbitrary: s)
  case Nil
  then show ?case by simp
next
  case (Cons v vs)
  let ?s = "s\<lparr>deque := drop (Suc (length (deque s)) - sl_capacity s) (deque s @ [v])\<rparr>"
  have "q_offer_or_retain fl (Sliding s :: ('a, 'c) queue) v = (Ok (), Sliding ?s)"
    using Cons.prems by (simp add: q_offer_or_retain_def sliding_offer_or_retain_def trim_drop)
  moreover have "q_offer_all fl vs (Sliding ?s :: ('a, 'c) queue) =
      ([], Sliding (?s\<lparr>deque := drop (length (deque ?s @ vs) - sl_capacity ?s) (deque ?s @ vs)\<rparr>))"
    by (rule Cons.IH) (use Cons.prems in auto)
  moreover have "drop (length (deque ?s @ vs) - sl_capacity ?s) (deque ?s @ vs) =
      drop (length (deque s @ v # vs) - sl_capacity s) (deque s @ v # vs)"
    using Cons.prems by (cases "length (deque s) < sl_capacity s") (auto simp: Suc_diff_le)
  ultimately show ?case by simp
qed

lemma offer_all_flume:
  assumes laws: "flume_laws fl content bound" and "tx_open f" "kind f = Unbounded \<longrightarrow> bound (chan f) = None"
  shows "\<exists>c. q_offer_all fl vs (Flume f) =
    (fst (offer_outcome content bound (Flume f) vs), Flume (f\<lparr>chan := c\<rparr>)) \<and>
    content c = snd (offer_outcome content bound (Flume f) vs)"
  using assms(2,3)
proof (induction vs arbitrary: f)
  case Nil
  then show ?case by (intro exI [of _ "chan f"]) (auto simp: offer_outcome_def split: option.splits)
next
  case (Cons v vs)
  note L = laws [unfolded flume_laws_def]
  show ?case
  proof (cases "fl_is_full fl (chan f)")
    case True
    with L obtain n where n: "bound (chan f) = Some n" "n \<le> length (content (chan f))" by blast
    from True L have "fl_try_send fl (chan f) v = None" by blast
    with Cons.prems n have "q_offer_or_retain fl (Flume f) v =
        (if kind f = Bounded then Err v else Ok (), Flume f)"
      by (cases "kind f") (simp_all add: q_offer_or_retain_def flume_offer_or_retain_def)
    moreover obtain c where "q_offer_all fl vs (Flume f) =
        (if kind f = Bounded then vs else [], Flume (f\<lparr>chan := c\<rparr>))" "content c = content (chan f)"
      using Cons.IH [of f] Cons.prems n by (auto simp: offer_outcome_def)
    ultimately show ?thesis using n
      by (intro exI [of _ c]) (simp add: offer_outcome_def)
  next
    case False
    with L obtain c where c: "fl_try_send fl (chan f) v = Some c"
      "content c = content (chan f) @ [v]" "bound c = bound (chan f)" by blast
    from False L have room: "\<And>n. bound (chan f) = Some n \<Longrightarrow> length (content (chan f)) < n"
      by (meson not_le)
    have "q_offer_or_retain fl (Flume f) v = (Ok (), Flume (f\<lparr>chan := c\<rparr>))"
      using Cons.prems c by (simp add: q_offer_or_retain_def flume_offer_or_retain_def)
    moreover have "offer_outcome content bound (Flume (f\<lparr>chan := c\<rparr>) :: ('a, 'b) queue) vs =
        offer_outcome content bound (Flume f) (v # vs)"
      using c room by (auto simp: offer_outcome_def take_Cons' drop_Cons' Suc_diff_Suc split: option.splits)
    moreover obtain c' where "q_offer_all fl vs (Flume (f\<lparr>chan := c\<rparr>)) =
        (fst (offer_outcome content bound (Flume (f\<lparr>chan := c\<rparr>)) vs), Flume (f\<lparr>chan := c\<rparr>\<lparr>chan := c'\<rparr>))"
       "content c' = snd (offer_outcome content bound (Flume (f\<lparr>chan := c\<rparr>)) vs)"
      using Cons.IH [of "f\<lparr>chan := c\<rparr>"] Cons.prems c by auto
    ultimately show ?thesis by auto
  qed
qed


fun kind_matches :: "('c \<Rightarrow> nat option) \<Rightarrow> ('a, 'c) queue \<Rightarrow> bool" where
  "kind_matches bound (Flume f) \<longleftrightarrow> (kind f = Unbounded \<longleftrightarrow> bound (chan f) = None)"
| "kind_matches bound (Sliding s) \<longleftrightarrow> True"

lemma take_all_open:
  assumes "flume_laws fl content bound" "accepting q" "buffered content q \<noteq> []"
  shows "\<exists>q'. q_take_all fl q = Some (Ok (buffered content q), q') \<and> buffered content q' = []"
proof -
  from assms(3) obtain x xs where b: "buffered content q = x # xs" by (cases "buffered content q") auto
  from take_all_nonempty [OF assms(1) b] assms(2) obtain q' where
    "q_take_all fl q = drain_loop fl None [x] q'" "buffered content q' = xs" "accepting q'" by auto
  with drain_loop_open [OF assms(1), of q' "[x]"] b show ?thesis by auto
qed

lemma shutdown_view [simp]:
  "buffered content (q_shutdown q) = buffered content q" "\<not> accepting (q_shutdown q)"
  "q_is_shutdown (q_shutdown q)"
  by (cases q; simp add: buffered_def accepting_def q_is_shutdown_def q_shutdown_def flume_shut_def
    sliding_shut_def)+

text \<open>The channel as a list with a capacity, one way to meet \<open>flume_laws\<close>.\<close>

definition list_channel :: "('a, nat option \<times> 'a list) flume" where
  "list_channel = \<lparr>
     fl_try_send = \<lambda>(b, xs) v. if (case b of Some n \<Rightarrow> n \<le> length xs | None \<Rightarrow> False) then None
       else Some (b, xs @ [v]),
     fl_try_recv = \<lambda>(b, xs). (case xs of [] \<Rightarrow> None | x # ys \<Rightarrow> Some (x, (b, ys))),
     fl_len = \<lambda>(b, xs). length xs,
     fl_is_full = \<lambda>(b, xs). (case b of Some n \<Rightarrow> n \<le> length xs | None \<Rightarrow> False)\<rparr>"

lemma list_channel_laws: "flume_laws list_channel snd fst"
  by (auto simp: flume_laws_def list_channel_def split: option.splits)

section \<open>Properties\<close>

text \<open>
  C31. Offering any sequence of values to an open queue leaves the buffer its mode promises and
  gives back exactly what a bounded queue had no room for: a sliding queue keeps the latest
  \<open>capacity\<close> elements in order, an unbounded queue everything, a bounded and a dropping queue the
  earliest ones that fit. A \<open>take_all\<close> that follows returns, and returns that buffer in order.
\<close>

theorem queue_modes:
  assumes "flume_laws fl content bound" "kind_matches bound q" "accepting q" "within_capacity q"
  shows "\<exists>q'. q_offer_all fl vs q = (fst (offer_outcome content bound q vs), q') \<and>
    buffered content q' = snd (offer_outcome content bound q vs) \<and>
    (buffered content q' \<noteq> [] \<longrightarrow> (\<exists>q''. q_take_all fl q' =
       Some (Ok (snd (offer_outcome content bound q vs)), q'') \<and> buffered content q'' = []))"
proof -
  have "\<exists>q'. q_offer_all fl vs q = (fst (offer_outcome content bound q vs), q') \<and>
    buffered content q' = snd (offer_outcome content bound q vs) \<and> accepting q'"
  proof (cases q)
    case (Flume f)
    with assms offer_all_flume [OF assms(1), of f vs] show ?thesis
      by (auto simp: accepting_def buffered_def)
  next
    case (Sliding s)
    with assms show ?thesis
      by (simp add: accepting_def buffered_def offer_outcome_def offer_all_sliding)
  qed
  then show ?thesis using take_all_open [OF assms(1)] by metis
qed

lemma queue_modes_witness:
  "\<exists>q'. q_offer_all list_channel [1, 2, 3] (q_sliding 2) = ([], q') \<and>
     buffered snd q' = [2, 3 :: nat] \<and> (\<exists>q''. q_take_all list_channel q' = Some (Ok [2, 3], q''))"
  using queue_modes [OF list_channel_laws, of "q_sliding 2" "[1, 2, 3 :: nat]"]
  by (auto simp: q_sliding_def sliding_new_def offer_outcome_def accepting_def)

text \<open>
  After \<open>shutdown\<close> a single \<open>take\<close> still delivers the oldest buffered value, but \<open>take_all\<close>, and
  \<open>take_up_to\<close> with room for more than is buffered, return \<open>Disconnected\<close> and leave the buffer
  empty: every value they had drained is lost.
\<close>

theorem bulk_take_after_shutdown_loses_values:
  assumes "flume_laws fl content bound" "buffered content q = x # xs" "Suc (length xs) < n"
  shows "(\<exists>q'. q_take fl (q_shutdown q) = Some (Ok x, q') \<and> buffered content q' = xs) \<and>
    (\<exists>q'. q_take_all fl (q_shutdown q) = Some (Err Disconnected, q') \<and> buffered content q' = []) \<and>
    (\<exists>q'. q_take_up_to fl n (q_shutdown q) = Some (Err Disconnected, q') \<and> buffered content q' = [])"
proof -
  from try_recv_view(3) [OF assms(1), of "q_shutdown q" x xs] assms(2) obtain q' where
    q': "q_try_recv fl (q_shutdown q) = (Ok (Some x), q')" "buffered content q' = xs" "\<not> accepting q'"
    by auto
  with drain_loop_closed [OF assms(1) q'(3), of None "[x]"]
    drain_loop_closed [OF assms(1) q'(3), of "Some n" "[x]"] assms(3) show ?thesis
    by (auto simp: q_take_def q_take_all_def q_take_up_to_def then_drain_def recv_view)
qed

lemma bulk_take_after_shutdown_loses_values_witness:
  "\<exists>q'. q_take_all list_channel (q_shutdown (from_flume Unbounded (None, [1, 2 :: nat]))) =
     Some (Err Disconnected, q') \<and> buffered snd q' = []"
  using bulk_take_after_shutdown_loses_values
    [OF list_channel_laws, of "from_flume Unbounded (None, [1, 2 :: nat])" 1 "[2]" 3]
  by (simp add: buffered_def from_flume_def)

text \<open>
  \<open>offer_all\<close> on a shut-down queue stores nothing. The sliding queue gives every value back; the
  flume-backed modes give back none, so that the caller is told that all were stored.
\<close>

theorem offer_all_after_shutdown:
  "q_offer_all fl vs (q_shutdown (Flume f)) = ([], q_shutdown (Flume f)) \<and>
   q_offer_all fl vs (q_shutdown (Sliding s)) = (vs, q_shutdown (Sliding s))"
proof (induction vs)
  case (Cons v vs)
  have "q_offer_or_retain fl (q_shutdown (Flume f)) v = (Ok (), q_shutdown (Flume f))"
    "q_offer_or_retain fl (q_shutdown (Sliding s)) v = (Err v, q_shutdown (Sliding s))"
    by (simp_all add: q_offer_or_retain_def q_shutdown_def flume_offer_or_retain_def flume_shut_def
      sliding_offer_or_retain_def sliding_shut_def)
  with Cons.IH show ?case by simp
qed simp

end
