(* ===== verification/Ordered_Maps.thy ===== *)
theory Ordered_Maps
  imports Prelude "HOL-Library.List_Lexorder" "HOL-Library.Char_ord"
begin

text \<open>
  \<open>std::collections::BTreeMap\<close> as the list of its entries in iteration order, which is ascending in
  the key: the operations the workspace calls and their laws. \<open>String\<close> keys are compared as the
  lists of their characters.
\<close>

type_synonym ('k, 'v) btree_map = "('k \<times> 'v) list"

definition bt_ok :: "('k::linorder, 'v) btree_map \<Rightarrow> bool" where
  "bt_ok m \<longleftrightarrow> sorted_wrt (<) (map fst m)"

definition bt_get :: "('k, 'v) btree_map \<Rightarrow> 'k \<Rightarrow> 'v option" where
  "bt_get m k = map_of m k"

fun bt_insert :: "'k::linorder \<Rightarrow> 'v \<Rightarrow> ('k, 'v) btree_map \<Rightarrow> ('k, 'v) btree_map" where
  "bt_insert k v [] = [(k, v)]"
| "bt_insert k v ((j, u) # m) =
     (if k < j then (k, v) # (j, u) # m
      else if k = j then (k, v) # m
      else (j, u) # bt_insert k v m)"

definition bt_remove :: "'k \<Rightarrow> ('k, 'v) btree_map \<Rightarrow> ('k, 'v) btree_map" where
  "bt_remove k m = filter (\<lambda>(j, _). j \<noteq> k) m"

definition bt_from_list :: "('k::linorder \<times> 'v) list \<Rightarrow> ('k, 'v) btree_map" where
  "bt_from_list kvs = foldl (\<lambda>m (k, v). bt_insert k v m) [] kvs"

definition bt_keys :: "('k, 'v) btree_map \<Rightarrow> 'k list" where
  "bt_keys m = map fst m"

section \<open>Laws\<close>

text \<open>
  The contract of an ordered map: lookups after an insertion and a removal, and an invariant that
  both keep.
\<close>

locale map_interface =
  fixes lookup :: "'m \<Rightarrow> 'k \<Rightarrow> 'v option"
    and store :: "'k \<Rightarrow> 'v \<Rightarrow> 'm \<Rightarrow> 'm"
    and erase :: "'k \<Rightarrow> 'm \<Rightarrow> 'm"
    and nothing :: 'm
    and invar :: "'m \<Rightarrow> bool"
  assumes lookup_nothing: "lookup nothing k = None"
    and lookup_store: "invar m \<Longrightarrow> lookup (store k v m) j = (if j = k then Some v else lookup m j)"
    and lookup_erase: "invar m \<Longrightarrow> lookup (erase k m) j = (if j = k then None else lookup m j)"
    and invar_nothing: "invar nothing"
    and invar_store: "invar m \<Longrightarrow> invar (store k v m)"
    and invar_erase: "invar m \<Longrightarrow> invar (erase k m)"
begin

definition stores :: "('k \<times> 'v) list \<Rightarrow> 'm \<Rightarrow> 'm" where
  "stores kvs m = foldl (\<lambda>m (k, v). store k v m) m kvs"

lemma invar_stores: "invar m \<Longrightarrow> invar (stores kvs m)"
  by (induction kvs arbitrary: m) (auto simp: stores_def invar_store)

lemma lookup_stores: "invar m \<Longrightarrow> lookup (stores kvs m) k = ((\<lambda>k. lookup m k) ++ map_of (rev kvs)) k"
proof (induction kvs arbitrary: m)
  case (Cons kv kvs)
  have "lookup (stores (kv # kvs) m) k = lookup (stores kvs (store (fst kv) (snd kv) m)) k"
    by (simp add: stores_def case_prod_unfold)
  also have "\<dots> = ((\<lambda>k. lookup (store (fst kv) (snd kv) m) k) ++ map_of (rev kvs)) k"
    using Cons.prems by (intro Cons.IH invar_store)
  also have "(\<lambda>k. lookup (store (fst kv) (snd kv) m) k) = (\<lambda>k. lookup m k)(fst kv \<mapsto> snd kv)"
    using Cons.prems by (auto simp: lookup_store)
  finally show ?case by (simp add: map_add_def case_prod_unfold split: option.split)
qed (simp add: stores_def)

end

lemma bt_insert_keys: "set (map fst (bt_insert k v m)) = insert k (set (map fst m))"
  by (induction k v m rule: bt_insert.induct) auto

lemma bt_insert_ok: "bt_ok m \<Longrightarrow> bt_ok (bt_insert k v m)"
proof (induction k v m rule: bt_insert.induct)
  case (2 k v j u m)
  have "set (map fst (bt_insert k v m)) = insert k (set (map fst m))" by (rule bt_insert_keys)
  with 2 show ?case by (auto simp: bt_ok_def)
qed (simp add: bt_ok_def)

lemma bt_get_insert: "bt_get (bt_insert k v m) j = (if j = k then Some v else bt_get m j)"
  by (induction k v m rule: bt_insert.induct) (auto simp: bt_get_def)

lemma bt_insert_same: "bt_ok m \<Longrightarrow> bt_get m k = Some v \<Longrightarrow> bt_insert k v m = m"
  by (induction k v m rule: bt_insert.induct)
    (auto simp: bt_ok_def bt_get_def dest!: map_of_SomeD split: if_splits)

lemma bt_insert_values: "snd ` set (bt_insert k v m) \<subseteq> insert v (snd ` set m)"
  by (induction k v m rule: bt_insert.induct) auto

lemma bt_get_remove: "bt_get (bt_remove k m) j = (if j = k then None else bt_get m j)"
  by (induction m) (auto simp: bt_get_def bt_remove_def)

lemma bt_remove_ok: "bt_ok m \<Longrightarrow> bt_ok (bt_remove k m)"
  by (induction m) (auto simp: bt_ok_def bt_remove_def)

interpretation btree: map_interface bt_get bt_insert bt_remove "[]" bt_ok
proof
  show "bt_get [] k = None" for k :: 'a by (simp add: bt_get_def)
  show "bt_ok []" by (simp add: bt_ok_def)
qed (simp_all add: bt_get_insert bt_insert_ok bt_get_remove bt_remove_ok)

lemma bt_ok_distinct: "bt_ok m \<Longrightarrow> distinct (map fst m)"
  by (simp add: bt_ok_def strict_sorted_iff)

lemma bt_from_list_ok: "bt_ok (bt_from_list kvs)"
  using btree.invar_stores [OF btree.invar_nothing, of kvs]
  by (simp add: bt_from_list_def btree.stores_def)

lemma bt_insert_append: "bt_ok (m @ [(k, v)]) \<Longrightarrow> bt_insert k v m = m @ [(k, v)]"
  by (induction k v m rule: bt_insert.induct) (auto simp: bt_ok_def)

lemma bt_from_list_sorted: "bt_ok m \<Longrightarrow> bt_from_list m = m"
proof (induction m rule: rev_induct)
  case (snoc kv m)
  have "bt_ok m" using snoc.prems by (auto simp: bt_ok_def sorted_wrt_append)
  with snoc show ?case
    by (cases kv) (simp add: bt_from_list_def bt_insert_append [where m = m])
qed (simp add: bt_from_list_def)

end
