(* ===== verification/Tries.thy ===== *)
theory Tries
  imports Ordered_Maps "HOL-Library.Sublist"
begin

text \<open>
  \<open>crates/id_effect/src/collections/trie.rs\<close>: the prefix map. A node keeps an optional value and its
  children by character in a \<open>BTreeMap\<close>; a key is the list of its characters, over any ordered
  alphabet. The count is the serial one: \<open>count_nodes_par\<close> adds the same numbers in another order.
\<close>

datatype ('c, 'v) node = Node (node_value: "'v option") (node_children: "('c, ('c, 'v) node) btree_map")

definition default_node :: "('c, 'v) node" where
  "default_node = Node None []"

type_synonym ('c, 'v) trie = "('c, 'v) node"

definition trie_empty :: "('c, 'v) trie" where
  "trie_empty = default_node"

section \<open>Operations\<close>

text \<open>
  \<open>navigate_mut\<close> returns a mutable reference; here the change \<open>f\<close> made through it is an argument,
  and the result is the whole trie.
\<close>

fun navigate_mut ::
  "('c::linorder, 'v) node \<Rightarrow> 'c list \<Rightarrow> (('c, 'v) node \<Rightarrow> ('c, 'v) node) \<Rightarrow> ('c, 'v) node" where
  "navigate_mut n [] f = f n"
| "navigate_mut (Node v cs) (c # key) f =
     Node v (bt_insert c (navigate_mut (case bt_get cs c of Some child \<Rightarrow> child | None \<Rightarrow> default_node) key f) cs)"

fun navigate_ref :: "('c, 'v) node \<Rightarrow> 'c list \<Rightarrow> ('c, 'v) node option" where
  "navigate_ref n [] = Some n"
| "navigate_ref (Node v cs) (c # key) = (case bt_get cs c of
     Some child \<Rightarrow> navigate_ref child key | None \<Rightarrow> None)"

definition trie_get :: "('c, 'v) trie \<Rightarrow> 'c list \<Rightarrow> 'v option" where
  "trie_get t key = Option.bind (navigate_ref t key) node_value"

definition trie_has :: "('c, 'v) trie \<Rightarrow> 'c list \<Rightarrow> bool" where
  "trie_has t key \<longleftrightarrow> trie_get t key \<noteq> None"

definition set_node_value :: "'v option \<Rightarrow> ('c, 'v) node \<Rightarrow> ('c, 'v) node" where
  "set_node_value v n = Node v (node_children n)"

definition trie_insert :: "('c::linorder, 'v) trie \<Rightarrow> 'c list \<Rightarrow> 'v \<Rightarrow> 'v option \<times> ('c, 'v) trie" where
  "trie_insert t key value =
     (Option.bind (navigate_ref t key) node_value, navigate_mut t key (set_node_value (Some value)))"

definition trie_remove :: "('c::linorder, 'v) trie \<Rightarrow> 'c list \<Rightarrow> 'v option \<times> ('c, 'v) trie" where
  "trie_remove t key = (case navigate_ref t key of
     None \<Rightarrow> (None, t)
   | Some n \<Rightarrow> (node_value n, navigate_mut t key (set_node_value None)))"

text \<open>The walk of \<open>longest_prefix_of\<close>: \<open>pos\<close> characters are behind, \<open>found\<close> is the last stored end.\<close>

fun prefix_walk :: "('c, 'v) node \<Rightarrow> nat \<Rightarrow> nat option \<Rightarrow> 'c list \<Rightarrow> nat option" where
  "prefix_walk n pos found [] = found"
| "prefix_walk (Node v cs) pos found (c # key) = (case bt_get cs c of
     None \<Rightarrow> found
   | Some child \<Rightarrow>
       prefix_walk child (Suc pos) (if node_value child \<noteq> None then Some (Suc pos) else found) key)"

definition longest_prefix_of :: "('c, 'v) trie \<Rightarrow> 'c list \<Rightarrow> 'c list option" where
  "longest_prefix_of t key =
     map_option (\<lambda>e. take e key) (prefix_walk t 0 (if node_value t \<noteq> None then Some 0 else None) key)"

fun count_nodes :: "('c, 'v) node \<Rightarrow> nat"
  and count_children :: "('c, ('c, 'v) node) btree_map \<Rightarrow> nat" where
  "count_nodes (Node v cs) = (if v \<noteq> None then 1 else 0) + count_children cs"
| "count_children [] = 0"
| "count_children ((_, n) # cs) = count_nodes n + count_children cs"

definition size_serial :: "('c, 'v) trie \<Rightarrow> nat" where
  "size_serial t = count_nodes t"

fun collect_entries :: "('c, 'v) node \<Rightarrow> 'c list \<Rightarrow> ('c list \<times> 'v) list"
  and collect_children :: "('c, ('c, 'v) node) btree_map \<Rightarrow> 'c list \<Rightarrow> ('c list \<times> 'v) list" where
  "collect_entries (Node v cs) pre =
     (case v of Some x \<Rightarrow> [(pre, x)] | None \<Rightarrow> []) @ collect_children cs pre"
| "collect_children [] pre = []"
| "collect_children ((c, n) # cs) pre = collect_entries n (pre @ [c]) @ collect_children cs pre"

fun collect_keys :: "('c, 'v) node \<Rightarrow> 'c list \<Rightarrow> 'c list list"
  and collect_child_keys :: "('c, ('c, 'v) node) btree_map \<Rightarrow> 'c list \<Rightarrow> 'c list list" where
  "collect_keys (Node v cs) pre =
     (if v \<noteq> None then [pre] else []) @ collect_child_keys cs pre"
| "collect_child_keys [] pre = []"
| "collect_child_keys ((c, n) # cs) pre = collect_keys n (pre @ [c]) @ collect_child_keys cs pre"

definition keys_with_prefix :: "('c, 'v) trie \<Rightarrow> 'c list \<Rightarrow> 'c list list" where
  "keys_with_prefix t pre = (case navigate_ref t pre of
     None \<Rightarrow> [] | Some start \<Rightarrow> collect_keys start pre)"

definition entries_with_prefix :: "('c, 'v) trie \<Rightarrow> 'c list \<Rightarrow> ('c list \<times> 'v) list" where
  "entries_with_prefix t pre = (case navigate_ref t pre of
     None \<Rightarrow> [] | Some start \<Rightarrow> collect_entries start pre)"

section \<open>The trie as a map\<close>

text \<open>The children of every node are in ascending order.\<close>

fun trie_ok :: "('c::linorder, 'v) node \<Rightarrow> bool" where
  "trie_ok (Node v cs) \<longleftrightarrow> bt_ok cs \<and> (\<forall>n \<in> snd ` set cs. trie_ok n)"

lemma trie_get_simps [simp]:
  "trie_get (Node v cs) [] = v"
  "trie_get (Node v cs) (c # key) = (case bt_get cs c of Some child \<Rightarrow> trie_get child key | None \<Rightarrow> None)"
  by (simp_all add: trie_get_def split: option.split)

lemma trie_get_default [simp]: "trie_get default_node key = None"
  by (cases key) (simp_all add: default_node_def bt_get_def)

lemma trie_ok_child: "trie_ok (Node v cs) \<Longrightarrow> bt_get cs c = Some n \<Longrightarrow> trie_ok n"
  by (force simp: bt_get_def dest: map_of_SomeD)

lemma trie_ok_default [simp]: "trie_ok default_node"
  by (simp add: default_node_def bt_ok_def)

lemma trie_get_navigate:
  "trie_get (navigate_mut n key (set_node_value w)) key' = (if key' = key then w else trie_get n key')"
proof (induction key arbitrary: n key')
  case Nil
  show ?case by (cases n; cases key') (simp_all add: set_node_value_def)
next
  case (Cons c key)
  then show ?case by (cases n; cases key') (auto simp: bt_get_insert split: option.split)
qed

lemma trie_ok_insert_child: "trie_ok (Node v cs) \<Longrightarrow> trie_ok n \<Longrightarrow> trie_ok (Node v (bt_insert c n cs))"
  using bt_insert_values [of c n cs] by (force simp: bt_insert_ok)

lemma trie_ok_navigate: "trie_ok n \<Longrightarrow> trie_ok (navigate_mut n key (set_node_value w))"
proof (induction key arbitrary: n)
  case Nil
  then show ?case by (cases n) (simp add: set_node_value_def)
next
  case (Cons c key)
  obtain v cs where n: "n = Node v cs" by (cases n)
  have "trie_ok (case bt_get cs c of Some child \<Rightarrow> child | None \<Rightarrow> default_node)"
    using Cons.prems by (auto simp: n simp del: trie_ok.simps intro: trie_ok_child split: option.split)
  from Cons.IH [OF this] Cons.prems show ?case
    by (simp add: n trie_ok_insert_child del: trie_ok.simps)
qed

interpretation trie_map: map_interface trie_get "\<lambda>k v t. snd (trie_insert t k v)" "\<lambda>k t. snd (trie_remove t k)"
  trie_empty trie_ok
proof
  fix t :: "('a, 'b) trie" and k j :: "'a list" and v :: 'b
  show "trie_get trie_empty k = (None :: 'b option)" by (simp add: trie_empty_def)
  show "trie_get (snd (trie_insert t k v)) j = (if j = k then Some v else trie_get t j)"
    by (simp add: trie_insert_def trie_get_navigate)
  show "trie_get (snd (trie_remove t k)) j = (if j = k then None else trie_get t j)"
    by (cases "navigate_ref t k") (auto simp: trie_remove_def trie_get_navigate, simp add: trie_get_def)
  show "trie_ok (trie_empty :: ('a, 'b) trie)" by (simp add: trie_empty_def)
  show "trie_ok t \<Longrightarrow> trie_ok (snd (trie_insert t k v))" by (simp add: trie_insert_def trie_ok_navigate)
  show "trie_ok t \<Longrightarrow> trie_ok (snd (trie_remove t k))"
    by (simp add: trie_remove_def trie_ok_navigate split: option.split)
qed

section \<open>Listings\<close>

lemma collect_keys_entries:
  fixes n :: "('c, 'v) node" and cs :: "('c, ('c, 'v) node) btree_map"
  shows "collect_keys n pre = map fst (collect_entries n pre)"
    and "collect_child_keys cs pre = map fst (collect_children cs pre)"
  by (induction n pre and cs pre rule: collect_keys_collect_child_keys.induct) (auto split: option.split)

lemma count_entries:
  fixes n :: "('c, 'v) node" and cs :: "('c, ('c, 'v) node) btree_map"
  shows "count_nodes n = length (collect_entries n pre)"
    and "count_children cs = length (collect_children cs pre)"
  by (induction n and cs arbitrary: pre and pre rule: count_nodes_count_children.induct)
    (auto split: option.split)

lemma collected:
  fixes n :: "('c::linorder, 'v) node" and cs :: "('c, ('c, 'v) node) btree_map"
  shows "trie_ok n \<Longrightarrow> (key, v) \<in> set (collect_entries n pre) \<longleftrightarrow> (\<exists>k. key = pre @ k \<and> trie_get n k = Some v)"
    and "bt_ok cs \<Longrightarrow> \<forall>n \<in> snd ` set cs. trie_ok n \<Longrightarrow> (key, v) \<in> set (collect_children cs pre) \<longleftrightarrow>
      (\<exists>c k n. key = pre @ c # k \<and> bt_get cs c = Some n \<and> trie_get n k = Some v)"
proof (induction n pre and cs pre rule: collect_entries_collect_children.induct)
  case (1 x cs pre)
  have children: "(key, v) \<in> set (collect_children cs pre) \<longleftrightarrow>
      (\<exists>c k n. key = pre @ c # k \<and> bt_get cs c = Some n \<and> trie_get n k = Some v)"
    using 1 by simp
  have "(\<exists>k. key = pre @ k \<and> trie_get (Node x cs) k = Some v) \<longleftrightarrow>
      key = pre \<and> x = Some v \<or> (\<exists>c k n. key = pre @ c # k \<and> bt_get cs c = Some n \<and> trie_get n k = Some v)"
    (is "?l \<longleftrightarrow> ?r")
  proof
    assume ?l
    then obtain k where k: "key = pre @ k" "trie_get (Node x cs) k = Some v" by blast
    then show ?r by (cases k) (auto split: option.splits)
  next
    assume ?r
    then show ?l
    proof
      assume "key = pre \<and> x = Some v"
      then show ?l by (intro exI [of _ "[]"]) simp
    next
      assume "\<exists>c k n. key = pre @ c # k \<and> bt_get cs c = Some n \<and> trie_get n k = Some v"
      then obtain c k n where "key = pre @ c # k" "bt_get cs c = Some n" "trie_get n k = Some v" by blast
      then show ?l by (intro exI [of _ "c # k"]) simp
    qed
  qed
  with children show ?case by (auto split: option.split)
next
  case (2 pre)
  then show ?case by (simp add: bt_get_def)
next
  case (3 c n cs pre)
  have ok: "bt_ok cs" "\<forall>n \<in> snd ` set cs. trie_ok n" "trie_ok n" "bt_get cs c = None"
    using "3.prems" by (auto simp: bt_ok_def bt_get_def map_of_eq_None_iff)
  have get: "bt_get ((c, n) # cs) d = Some m \<longleftrightarrow> d = c \<and> m = n \<or> bt_get cs d = Some m" for d m
    using ok(4) by (auto simp: bt_get_def)
  have "(key, v) \<in> set (collect_entries n (pre @ [c])) \<longleftrightarrow> (\<exists>k. key = pre @ c # k \<and> trie_get n k = Some v)"
    using "3.IH"(1) [OF ok(3)] by simp
  then show ?case
    using "3.IH"(2) [OF ok(1,2)] unfolding get collect_children.simps set_append Un_iff by blast
qed

lemma append_less_append: "pre @ xs < pre @ ys \<longleftrightarrow> xs < ys"
  for pre :: "'c::linorder list"
  by (induction pre) auto

lemma collected_sorted:
  fixes n :: "('c::linorder, 'v) node" and cs :: "('c, ('c, 'v) node) btree_map"
  shows "trie_ok n \<Longrightarrow> sorted_wrt (<) (map fst (collect_entries n pre))"
    and "bt_ok cs \<Longrightarrow> \<forall>n \<in> snd ` set cs. trie_ok n \<Longrightarrow> sorted_wrt (<) (map fst (collect_children cs pre))"
proof (induction n pre and cs pre rule: collect_entries_collect_children.induct)
  case (1 x cs pre)
  have "pre < fst e" if "e \<in> set (collect_children cs pre)" for e
  proof -
    obtain key v where e: "e = (key, v)" by (cases e)
    with that have "(key, v) \<in> set (collect_children cs pre)" by simp
    then obtain c k where "key = pre @ c # k"
      using collected(2) [of cs key v pre] "1.prems" by auto
    then show ?thesis using append_less_append [of pre "[]" "c # k"] by (simp add: e)
  qed
  with 1 show ?case by (auto split: option.split)
next
  case (2 pre)
  show ?case by simp
next
  case (3 c n cs pre)
  have ok: "bt_ok cs" "\<forall>n \<in> snd ` set cs. trie_ok n" "trie_ok n" "\<forall>d \<in> fst ` set cs. c < d"
    using "3.prems" by (auto simp: bt_ok_def)
  have "fst e < fst e'" if e: "e \<in> set (collect_entries n (pre @ [c]))"
    and e': "e' \<in> set (collect_children cs pre)" for e e'
  proof -
    obtain k where "fst e = (pre @ [c]) @ k"
      using collected(1) [OF ok(3), of "fst e" "snd e" "pre @ [c]"] e
      unfolding prod.collapse by blast
    moreover obtain d k' m where "fst e' = pre @ d # k'" "bt_get cs d = Some m"
      using collected(2) [OF ok(1,2), of "fst e'" "snd e'" pre] e'
      unfolding prod.collapse by blast
    moreover have "c < d" using ok(4) calculation(3) by (force simp: bt_get_def dest: map_of_SomeD)
    ultimately show ?thesis by (simp add: append_less_append)
  qed
  with 3 ok show ?case by (auto simp: sorted_wrt_append)
qed

lemma trie_get_below: "navigate_ref t pre = Some n \<Longrightarrow> trie_get t (pre @ k) = trie_get n k"
  by (induction t pre rule: navigate_ref.induct) (auto split: option.splits)

lemma trie_get_nowhere: "navigate_ref t pre = None \<Longrightarrow> trie_get t (pre @ k) = None"
  by (induction t pre rule: navigate_ref.induct) (auto split: option.splits)

lemma trie_ok_below: "trie_ok t \<Longrightarrow> navigate_ref t pre = Some n \<Longrightarrow> trie_ok n"
proof (induction t pre rule: navigate_ref.induct)
  case (2 v cs c key)
  then show ?case
    by (auto simp del: trie_ok.simps dest: trie_ok_child split: option.splits)
qed simp

section \<open>Prefixes\<close>

lemma trie_has_Cons: "trie_has (Node v cs) (c # key)
    \<longleftrightarrow> (case bt_get cs c of Some n \<Rightarrow> trie_has n key | None \<Rightarrow> False)"
  by (simp add: trie_has_def split: option.split)

lemma trie_has_Nil: "trie_has n [] \<longleftrightarrow> node_value n \<noteq> None"
  by (cases n) (simp add: trie_has_def)

text \<open>The walk ends at the longest stored prefix that is not empty, or keeps \<open>found\<close>.\<close>

lemma prefix_walk_spec:
  "(\<exists>e \<in> {1..length key}. prefix_walk n pos found key = Some (pos + e) \<and> trie_has n (take e key)
      \<and> (\<forall>j \<in> {e<..length key}. \<not> trie_has n (take j key)))
   \<or> prefix_walk n pos found key = found \<and> (\<forall>j \<in> {1..length key}. \<not> trie_has n (take j key))"
proof (induction n pos found key rule: prefix_walk.induct)
  case (1 n pos found)
  show ?case by simp
next
  case (2 v cs pos found c key)
  have shift: "(\<forall>j \<in> {Suc e<..length (c # key)}. \<not> trie_has (Node v cs) (take j (c # key)))
      \<longleftrightarrow> (\<forall>j \<in> {e<..length key}. \<not> trie_has (Node v cs) (c # take j key))" for e
  proof (intro iffI ballI)
    fix j
    assume "\<forall>j \<in> {Suc e<..length (c # key)}. \<not> trie_has (Node v cs) (take j (c # key))" "j \<in> {e<..length key}"
    then have "\<not> trie_has (Node v cs) (take (Suc j) (c # key))" by fastforce
    then show "\<not> trie_has (Node v cs) (c # take j key)" by simp
  next
    fix j
    assume "\<forall>j \<in> {e<..length key}. \<not> trie_has (Node v cs) (c # take j key)" "j \<in> {Suc e<..length (c # key)}"
    then show "\<not> trie_has (Node v cs) (take j (c # key))" by (cases j) auto
  qed
  show ?case
  proof (cases "bt_get cs c")
    case None
    have "\<not> trie_has (Node v cs) (take j (c # key))" if "j \<in> {1..length (c # key)}" for j
      using that None by (cases j) (auto simp: trie_has_Cons)
    with None show ?thesis by simp
  next
    case (Some child)
    let ?found = "if node_value child \<noteq> None then Some (Suc pos) else found"
    have walk: "prefix_walk (Node v cs) pos found (c # key) = prefix_walk child (Suc pos) ?found key"
      using Some by simp
    have has: "trie_has (Node v cs) (c # k) \<longleftrightarrow> trie_has child k" for k
      using Some by (simp add: trie_has_Cons)
    from "2.IH" [OF Some] show ?thesis
    proof
      assume "\<exists>e \<in> {1..length key}. prefix_walk child (Suc pos) ?found key = Some (Suc pos + e)
        \<and> trie_has child (take e key) \<and> (\<forall>j \<in> {e<..length key}. \<not> trie_has child (take j key))"
      then obtain e where e: "e \<in> {1..length key}" "prefix_walk child (Suc pos) ?found key = Some (Suc pos + e)"
        "trie_has child (take e key)" "\<forall>j \<in> {e<..length key}. \<not> trie_has child (take j key)" by blast
      then show ?thesis
        by (intro disjI1 bexI [of _ "Suc e"]) (simp_all only: walk shift has take_Suc_Cons, auto)
    next
      assume rest: "prefix_walk child (Suc pos) ?found key = ?found
        \<and> (\<forall>j \<in> {1..length key}. \<not> trie_has child (take j key))"
      have none: "\<forall>j \<in> {0<..length key}. \<not> trie_has (Node v cs) (c # take j key)"
        using rest has by auto
      show ?thesis
      proof (cases "node_value child")
        case None
        have "\<not> trie_has (Node v cs) (take j (c # key))" if "j \<in> {1..length (c # key)}" for j
        proof (cases j)
          case (Suc i)
          with that rest None show ?thesis
            by (cases "i = 0") (auto simp: has trie_has_Nil)
        qed (use that in simp)
        with None rest walk show ?thesis by simp
      next
        case (Some x)
        then show ?thesis
          using rest shift [of 0] none
          by (intro disjI1 bexI [of _ 1]) (simp_all add: walk has trie_has_Nil del: prefix_walk.simps)
      qed
    qed
  qed
qed

section \<open>Properties\<close>

text \<open>
  C33. The trie behaves as a finite map with ordered keys: \<open>insert\<close> and \<open>remove\<close> report the previous
  value, change their key alone and keep the trie well formed; the entries below a prefix are
  exactly the stored ones with that prefix, in ascending order of the key; the keys are theirs and
  the size is their number.
\<close>

theorem trie_is_ordered_map:
  fixes t :: "('c::linorder, 'v) trie"
  assumes "trie_ok t"
  shows "trie_insert t key v = (trie_get t key, snd (trie_insert t key v))
    \<and> trie_ok (snd (trie_insert t key v))
    \<and> trie_get (snd (trie_insert t key v)) = (trie_get t)(key \<mapsto> v)
    \<and> trie_remove t key = (trie_get t key, snd (trie_remove t key))
    \<and> trie_ok (snd (trie_remove t key))
    \<and> trie_get (snd (trie_remove t key)) = (trie_get t)(key := None)
    \<and> set (entries_with_prefix t pre) = {(k, x). prefix pre k \<and> trie_get t k = Some x}
    \<and> sorted_wrt (<) (map fst (entries_with_prefix t pre))
    \<and> keys_with_prefix t pre = map fst (entries_with_prefix t pre)
    \<and> size_serial t = length (entries_with_prefix t [])"
proof -
  have "set (entries_with_prefix t pre) = {(k, x). prefix pre k \<and> trie_get t k = Some x}
      \<and> sorted_wrt (<) (map fst (entries_with_prefix t pre))"
  proof (cases "navigate_ref t pre")
    case None
    then show ?thesis by (auto simp: entries_with_prefix_def prefix_def trie_get_nowhere)
  next
    case (Some n)
    note n = trie_ok_below [OF assms Some]
    have "(k, x) \<in> set (collect_entries n pre) \<longleftrightarrow> prefix pre k \<and> trie_get t k = Some x" for k x
      using collected(1) [OF n, of k x pre] trie_get_below [OF Some] by (auto simp: prefix_def)
    with Some collected_sorted(1) [OF n, of pre] show ?thesis
      by (auto simp: entries_with_prefix_def)
  qed
  moreover have "keys_with_prefix t pre = map fst (entries_with_prefix t pre)"
    by (simp add: keys_with_prefix_def entries_with_prefix_def collect_keys_entries split: option.split)
  moreover have "size_serial t = length (entries_with_prefix t [])"
    by (simp add: size_serial_def entries_with_prefix_def count_entries(1) [of t "[]"])
  moreover have "fst (trie_remove t key) = trie_get t key"
    by (simp add: trie_remove_def trie_get_def split: option.split)
  moreover have "fst (trie_insert t key v) = trie_get t key"
    by (simp add: trie_insert_def trie_get_def)
  ultimately show ?thesis
    using trie_map.invar_store [OF assms, of key v] trie_map.invar_erase [OF assms, of key]
      trie_map.lookup_store [OF assms] trie_map.lookup_erase [OF assms]
    by (simp add: fun_eq_iff prod_eq_iff)
qed

lemma trie_is_ordered_map_witness:
  "entries_with_prefix (snd (trie_insert (snd (trie_insert trie_empty ''ab'' (1 :: nat))) ''a'' 2)) ''a''
     = [(''a'', 2), (''ab'', 1)]
   \<and> trie_get (snd (trie_remove (snd (trie_insert trie_empty ''ab'' (1 :: nat))) ''ab'')) ''ab'' = None"
proof
  let ?t = "snd (trie_insert trie_empty ''ab'' (1 :: nat))"
  have t: "trie_ok ?t"
    using trie_is_ordered_map [of "trie_empty :: (char, nat) trie" "''ab''" 1 "[]"]
    by (simp add: trie_empty_def)
  show "trie_get (snd (trie_remove ?t ''ab'')) ''ab'' = None"
    using trie_is_ordered_map [OF t, of "''ab''" 1 "[]"] by simp
  show "entries_with_prefix (snd (trie_insert ?t ''a'' 2)) ''a'' = [(''a'', 2), (''ab'', 1)]"
    by (simp add: trie_insert_def trie_empty_def default_node_def set_node_value_def bt_get_def
        entries_with_prefix_def)
qed

text \<open>
  \<open>longest_prefix_of\<close> returns a stored key that is a prefix of the argument and at least as long as
  every other such key, and nothing exactly when there is none.
\<close>

theorem longest_prefix_correct:
  "case longest_prefix_of t key of
     None \<Rightarrow> \<not> (\<exists>p. prefix p key \<and> trie_has t p)
   | Some p \<Rightarrow> prefix p key \<and> trie_has t p \<and> \<not> (\<exists>q. prefix q key \<and> trie_has t q \<and> length p < length q)"
proof -
  let ?start = "if node_value t \<noteq> None then Some 0 else None"
  have all: "(\<exists>q. prefix q key \<and> P q) \<longleftrightarrow> (\<exists>j \<in> {0..length key}. P (take j key))" for P
  proof
    assume "\<exists>q. prefix q key \<and> P q"
    then obtain q r where "key = q @ r" "P q" by (auto simp: prefix_def)
    then show "\<exists>j \<in> {0..length key}. P (take j key)" by (intro bexI [of _ "length q"]) auto
  qed (auto intro: take_is_prefix)
  from prefix_walk_spec [of key t 0 ?start] show ?thesis
  proof
    assume "\<exists>e \<in> {1..length key}. prefix_walk t 0 ?start key = Some (0 + e) \<and> trie_has t (take e key)
      \<and> (\<forall>j \<in> {e<..length key}. \<not> trie_has t (take j key))"
    then obtain e where "e \<le> length key" "prefix_walk t 0 ?start key = Some e" "trie_has t (take e key)"
      "\<forall>j \<in> {e<..length key}. \<not> trie_has t (take j key)" by auto
    then show ?thesis
      by (auto simp: longest_prefix_of_def all take_is_prefix)
  next
    assume rest: "prefix_walk t 0 ?start key = ?start \<and> (\<forall>j \<in> {1..length key}. \<not> trie_has t (take j key))"
    then have none: "\<not> trie_has t (take j key)" if "j \<in> {0<..length key}" for j
      using that by auto
    show ?thesis
    proof (cases "node_value t")
      case None
      then have "\<not> trie_has t (take j key)" if "j \<in> {0..length key}" for j
        using none [of j] that by (cases "j = 0") (auto simp: trie_has_Nil)
      with None rest show ?thesis by (simp add: longest_prefix_of_def all)
    next
      case (Some x)
      then have "longest_prefix_of t key = Some []" using rest by (simp add: longest_prefix_of_def)
      with Some none show ?thesis by (fastforce simp: all trie_has_Nil)
    qed
  qed
qed

end
