(* ===== verification/Texts.thy ===== *)
theory Texts
  imports Prelude
begin

text \<open>
  What the workspace uses of \<open>std\<close> on text: white space, and integers the way \<open>std\<close> prints and
  reads them (\<open>i64\<close> as a 64-bit word read as a signed number, the decimal digits, \<open>i64::from_str\<close>
  with its error texts, and the round trip between them). A \<open>String\<close> is the list of its characters,
  which are the code points below 256.
\<close>

section \<open>White space\<close>

text \<open>\<open>char::is_whitespace\<close>, and \<open>trim().is_empty()\<close>.\<close>

definition is_whitespace :: "char \<Rightarrow> bool" where
  "is_whitespace c = (let n = (of_char c :: nat) in 9 \<le> n \<and> n \<le> 13 \<or> n \<in> {32, 133, 160})"

definition blank :: "string \<Rightarrow> bool" where
  "blank s = list_all is_whitespace s"

text \<open>\<open>char::is_ascii_whitespace\<close>: tab, line feed, form feed, carriage return and space.\<close>

definition is_ascii_whitespace :: "char \<Rightarrow> bool" where
  "is_ascii_whitespace c = ((of_char c :: nat) \<in> {9, 10, 12, 13, 32})"

text \<open>\<open>str::strip_prefix\<close>.\<close>

fun strip_prefix :: "string \<Rightarrow> string \<Rightarrow> string option" where
  "strip_prefix [] s = Some s"
| "strip_prefix (p # ps) [] = None"
| "strip_prefix (p # ps) (c # s) = (if p = c then strip_prefix ps s else None)"

section \<open>Integers\<close>

definition digit_value :: "char \<Rightarrow> nat option" where
  "digit_value c = (let n = of_char c :: nat in if 48 \<le> n \<and> n \<le> 57 then Some (n - 48) else None)"

fun digits_value :: "nat \<Rightarrow> string \<Rightarrow> nat option" where
  "digits_value acc [] = Some acc"
| "digits_value acc (c # cs) = (case digit_value c of
     None \<Rightarrow> None | Some d \<Rightarrow> digits_value (10 * acc + d) cs)"

type_synonym i64 = "64 word"

definition show_i64 :: "i64 \<Rightarrow> string" where
  "show_i64 n = (if sint n < 0 then ''-'' @ show_nat (nat (- sint n)) else show_nat (nat (sint n)))"

text \<open>\<open>i64::from_str\<close> on an optional sign followed by digits, the texts the parsers give it.\<close>

definition parse_i64 :: "string \<Rightarrow> string + i64" where
  "parse_i64 s = (if s = [] then Err ''cannot parse integer from empty string''
     else let neg = (hd s = CHR ''-'');
              ds = (if hd s = CHR ''-'' \<or> hd s = CHR ''+'' then tl s else s) in
       if ds = [] then Err ''invalid digit found in string''
       else (case digits_value 0 ds of
         None \<Rightarrow> Err ''invalid digit found in string''
       | Some n \<Rightarrow>
           if neg then if n \<le> 2 ^ 63 then Ok (word_of_int (- int n))
             else Err ''number too small to fit in target type''
           else if n < 2 ^ 63 then Ok (of_nat n)
             else Err ''number too large to fit in target type''))"

section \<open>Laws\<close>

lemma strip_prefix_append [simp]: "strip_prefix p (p @ s) = Some s"
  by (induction p) auto

lemma strip_prefix_Some: "strip_prefix p s = Some r \<longleftrightarrow> s = p @ r"
  by (induction p s rule: strip_prefix.induct) auto

lemma digit_value_char: "d < 10 \<Longrightarrow> digit_value (digit_char d) = Some d"
  by (simp add: digit_value_def digit_char_def of_char_of)

lemma digits_value_append: "digits_value acc (xs @ ys) = Option.bind (digits_value acc xs) (\<lambda>a. digits_value a ys)"
  by (induction xs arbitrary: acc) (auto split: option.split)

lemma digits_value_show: "digits_value 0 (show_nat n) = Some n"
proof (induction n rule: show_nat.induct)
  case (1 n)
  show ?case
  proof (cases "n < 10")
    case True
    then show ?thesis by (subst show_nat.simps) (simp add: digit_value_char)
  next
    case False
    then show ?thesis using 1
      by (subst show_nat.simps) (simp add: digits_value_append digit_value_char)
  qed
qed

lemma show_nat_digits_only: "c \<in> set (show_nat n) \<Longrightarrow> \<exists>d < 10. c = digit_char d"
proof (induction n rule: show_nat.induct)
  case (1 n)
  show ?case
  proof (cases "n < 10")
    case True
    with 1(2) show ?thesis by (subst (asm) show_nat.simps) auto
  next
    case False
    have "show_nat n = show_nat (n div 10) @ [digit_char (n mod 10)]" using False by (subst show_nat.simps) simp
    with 1(2) have "c \<in> set (show_nat (n div 10)) \<or> c = digit_char (n mod 10)" by auto
    moreover have "n mod 10 < 10" by simp
    ultimately show ?thesis using 1(1) [OF False] by blast
  qed
qed

lemma digit_char_not: "d < 10 \<Longrightarrow> digit_char d \<notin> {CHR ''+'', CHR ''.'', CHR ''-'', CHR ''/''}"
  by (auto simp: digit_char_def char_of_eq_iff take_bit_nat_eq_self)

lemma show_nat_chars: "{CHR ''+'', CHR ''.'', CHR ''-'', CHR ''/''} \<inter> set (show_nat n) = {}"
proof -
  have "c \<notin> {CHR ''+'', CHR ''.'', CHR ''-'', CHR ''/''}" if "c \<in> set (show_nat n)" for c
    using show_nat_digits_only [OF that] digit_char_not by auto
  then show ?thesis by blast
qed

lemma digits_value_digits: "(digits_value acc s \<noteq> None) = list_all (\<lambda>c. digit_value c \<noteq> None) s"
  by (induction s arbitrary: acc) (auto split: option.splits)

lemma show_nat_all_digits: "list_all (\<lambda>c. digit_value c \<noteq> None) (show_nat n)"
  using digits_value_show [of n] digits_value_digits [of 0 "show_nat n"] by simp

lemma show_nat_hd: "hd (show_nat n) \<noteq> CHR ''-''" "hd (show_nat n) \<noteq> CHR ''+''"
  using show_nat_chars [of n] hd_in_set [of "show_nat n"] show_nat_nonempty [of n] by fastforce+

lemma parse_i64_show: "parse_i64 (show_i64 n) = Ok n"
proof (cases "sint n < 0")
  case True
  have "- (2 ^ 63) \<le> sint n" using sint_ge [of n] by simp
  then have "nat (- sint n) \<le> 2 ^ 63" by simp
  moreover have "word_of_int (- int (nat (- sint n))) = n" using True by simp
  ultimately show ?thesis using True
    by (simp add: parse_i64_def show_i64_def digits_value_show)
next
  case False
  have "sint n < 2 ^ 63" using sint_lt [of n] by simp
  then have "nat (sint n) < 2 ^ 63" using False by simp
  moreover have "of_nat (nat (sint n)) = n"
  proof -
    have "of_nat (nat (sint n)) = (of_int (int (nat (sint n))) :: i64)" by (rule of_int_of_nat_eq [symmetric])
    also have "\<dots> = n" using False by simp
    finally show ?thesis .
  qed
  ultimately show ?thesis using False
    by (simp add: parse_i64_def show_i64_def digits_value_show show_nat_hd)
qed

end
