(* ===== verification/Schemas.thy ===== *)
theory Schemas
  imports Ordered_Maps Texts
begin

text \<open>
  \<open>crates/id_effect/src/schema/parse.rs\<close> and \<open>schema/extra.rs\<close>: bidirectional codecs with
  path-aware parse errors.

  \<open>Unknown\<close> keeps its constructors; \<open>f64\<close> values are an opaque type \<open>'f\<close> and the cast
  \<open>as f64\<close> is an argument. \<open>i64\<close> is a 64-bit word read as a signed number. A \<open>Schema\<close> is the
  record of its three closures. \<open>dbg\<close> is the \<open>Debug\<close> instance of strings. The assertion
  of \<open>union_chain\<close> is the value \<open>None\<close>.
\<close>

section \<open>Errors and dynamic values\<close>

record parse_error =
  err_path :: string
  err_message :: string

definition parse_error_new :: "string \<Rightarrow> string \<Rightarrow> parse_error" where
  "parse_error_new p m = \<lparr>err_path = p, err_message = m\<rparr>"

definition prefix_segment :: "parse_error \<Rightarrow> string \<Rightarrow> parse_error" where
  "prefix_segment e segment =
     \<lparr>err_path = (if err_path e = [] then segment else segment @ ''.'' @ err_path e),
      err_message = err_message e\<rparr>"

definition prefix_index :: "parse_error \<Rightarrow> nat \<Rightarrow> parse_error" where
  "prefix_index e idx = prefix_segment e (show_nat idx)"

datatype 'f unknown =
    Null
  | Bool bool
  | I64 i64
  | F64 'f
  | String string
  | Array "'f unknown list"
  | Object "(string, 'f unknown) btree_map"

section \<open>Schemas\<close>

record ('a, 'i, 'f) schema =
  decode_fn :: "'i \<Rightarrow> ('a, parse_error) result"
  encode_fn :: "'a \<Rightarrow> 'i"
  unknown_fn :: "'f unknown \<Rightarrow> ('a, parse_error) result"

definition decode :: "('a, 'i, 'f) schema \<Rightarrow> 'i \<Rightarrow> ('a, parse_error) result" where
  "decode s i = decode_fn s i"

definition encode :: "('a, 'i, 'f) schema \<Rightarrow> 'a \<Rightarrow> 'i" where
  "encode s a = encode_fn s a"

definition decode_unknown :: "('a, 'i, 'f) schema \<Rightarrow> 'f unknown \<Rightarrow> ('a, parse_error) result" where
  "decode_unknown s u = unknown_fn s u"

definition schema_make ::
  "('i \<Rightarrow> ('a, parse_error) result) \<Rightarrow> ('a \<Rightarrow> 'i) \<Rightarrow> ('f unknown \<Rightarrow> ('a, parse_error) result)
    \<Rightarrow> ('a, 'i, 'f) schema" where
  "schema_make d e du = \<lparr>decode_fn = d, encode_fn = e, unknown_fn = du\<rparr>"

subsection \<open>Primitives\<close>

definition i64_of_unknown :: "'f unknown \<Rightarrow> (i64, parse_error) result" where
  "i64_of_unknown u = (case u of
     I64 n \<Rightarrow> Ok n
   | Null \<Rightarrow> Err (parse_error_new [] ''expected i64, got null'')
   | _ \<Rightarrow> Err (parse_error_new [] ''expected i64''))"

definition i64_schema :: "(i64, i64, 'f) schema" where
  "i64_schema = schema_make Ok (\<lambda>n. n) i64_of_unknown"

definition i64_unknown_wire :: "(i64, 'f unknown, 'f) schema" where
  "i64_unknown_wire = schema_make i64_of_unknown I64 i64_of_unknown"

definition string_schema :: "(string, string, 'f) schema" where
  "string_schema = schema_make Ok (\<lambda>s. s) (\<lambda>u. case u of
     String s \<Rightarrow> Ok s
   | Null \<Rightarrow> Err (parse_error_new [] ''expected string, got null'')
   | _ \<Rightarrow> Err (parse_error_new [] ''expected string''))"

definition bool_schema :: "(bool, bool, 'f) schema" where
  "bool_schema = schema_make Ok (\<lambda>b. b) (\<lambda>u. case u of
     Bool b \<Rightarrow> Ok b
   | Null \<Rightarrow> Err (parse_error_new [] ''expected bool, got null'')
   | _ \<Rightarrow> Err (parse_error_new [] ''expected bool''))"

definition f64_schema :: "(i64 \<Rightarrow> 'f) \<Rightarrow> ('f, 'f, 'f) schema" where
  "f64_schema as_f64 = schema_make Ok (\<lambda>x. x) (\<lambda>u. case u of
     F64 x \<Rightarrow> Ok x
   | I64 n \<Rightarrow> Ok (as_f64 n)
   | Null \<Rightarrow> Err (parse_error_new [] ''expected f64, got null'')
   | _ \<Rightarrow> Err (parse_error_new [] ''expected f64''))"

subsection \<open>Combinators\<close>

definition transform ::
  "('a, 'i, 'f) schema \<Rightarrow> ('a \<Rightarrow> ('b, parse_error) result) \<Rightarrow> ('b \<Rightarrow> 'a) \<Rightarrow> ('b, 'i, 'f) schema" where
  "transform s d e = schema_make
     (\<lambda>i. result_bind (decode_fn s i) d)
     (\<lambda>b. encode_fn s (e b))
     (\<lambda>u. result_bind (unknown_fn s u) d)"

definition schema_filter ::
  "('a, 'i, 'f) schema \<Rightarrow> ('a \<Rightarrow> bool) \<Rightarrow> string \<Rightarrow> ('a, 'i, 'f) schema" where
  "schema_filter s p msg = schema_make
     (\<lambda>i. result_bind (decode_fn s i) (\<lambda>a. if p a then Ok a else Err (parse_error_new [] msg)))
     (\<lambda>a. encode_fn s a)
     (\<lambda>u. result_bind (unknown_fn s u) (\<lambda>a. if p a then Ok a else Err (parse_error_new [] msg)))"

definition refine :: "('a, 'i, 'f) schema \<Rightarrow> ('a \<Rightarrow> bool) \<Rightarrow> string \<Rightarrow> ('a, 'i, 'f) schema" where
  "refine s p msg = schema_filter s p msg"

definition optional :: "('a, 'i, 'f) schema \<Rightarrow> ('a option, 'i option, 'f) schema" where
  "optional s = schema_make
     (\<lambda>oi. case oi of None \<Rightarrow> Ok None | Some i \<Rightarrow> result_map Some (decode s i))
     (\<lambda>oa. map_option (encode s) oa)
     (\<lambda>u. case u of Null \<Rightarrow> Ok None | other \<Rightarrow> result_map Some (decode_unknown s other))"

fun decode_items ::
  "('i \<Rightarrow> ('a, parse_error) result) \<Rightarrow> nat \<Rightarrow> 'i list \<Rightarrow> ('a list, parse_error) result" where
  "decode_items f idx [] = Ok []"
| "decode_items f idx (item # items) = (case f item of
     Inr a \<Rightarrow> result_map (\<lambda>rest. a # rest) (decode_items f (Suc idx) items)
   | Inl e \<Rightarrow> Err (prefix_index e idx))"

definition array :: "('a, 'i, 'f) schema \<Rightarrow> ('a list, 'i list, 'f) schema" where
  "array s = schema_make
     (\<lambda>items. decode_items (decode s) 0 items)
     (\<lambda>values. map (encode s) values)
     (\<lambda>u. case u of
        Array items \<Rightarrow> decode_items (decode_unknown s) 0 items
      | _ \<Rightarrow> Err (parse_error_new [] ''expected array''))"

text \<open>One \<open>decode(..).map_err(|e| e.prefix(name))?\<close> line of the fixed-size combinators.\<close>

definition field_as ::
  "string \<Rightarrow> ('a, parse_error) result \<Rightarrow> ('a \<Rightarrow> ('b, parse_error) result) \<Rightarrow> ('b, parse_error) result" where
  "field_as name x k = result_bind (result_map_err (\<lambda>e. prefix_segment e name) x) k"

definition tuple ::
  "('a0, 'i0, 'f) schema \<Rightarrow> ('a1, 'i1, 'f) schema \<Rightarrow> ('a0 \<times> 'a1, 'i0 \<times> 'i1, 'f) schema" where
  "tuple s0 s1 = schema_make
     (\<lambda>(i0, i1). field_as ''0'' (decode s0 i0) (\<lambda>a0. field_as ''1'' (decode s1 i1) (\<lambda>a1. Ok (a0, a1))))
     (\<lambda>(a0, a1). (encode s0 a0, encode s1 a1))
     (\<lambda>u. case u of
        Array [u0, u1] \<Rightarrow>
          field_as ''0'' (decode_unknown s0 u0) (\<lambda>a0.
          field_as ''1'' (decode_unknown s1 u1) (\<lambda>a1. Ok (a0, a1)))
      | _ \<Rightarrow> Err (parse_error_new [] ''expected array of length 2''))"

definition tuple3 ::
  "('a0, 'i0, 'f) schema \<Rightarrow> ('a1, 'i1, 'f) schema \<Rightarrow> ('a2, 'i2, 'f) schema
    \<Rightarrow> ('a0 \<times> 'a1 \<times> 'a2, 'i0 \<times> 'i1 \<times> 'i2, 'f) schema" where
  "tuple3 s0 s1 s2 = schema_make
     (\<lambda>(i0, i1, i2). field_as ''0'' (decode s0 i0) (\<lambda>a0. field_as ''1'' (decode s1 i1) (\<lambda>a1.
        field_as ''2'' (decode s2 i2) (\<lambda>a2. Ok (a0, a1, a2)))))
     (\<lambda>(a0, a1, a2). (encode s0 a0, encode s1 a1, encode s2 a2))
     (\<lambda>u. case u of
        Array [u0, u1, u2] \<Rightarrow>
          field_as ''0'' (decode_unknown s0 u0) (\<lambda>a0.
          field_as ''1'' (decode_unknown s1 u1) (\<lambda>a1.
          field_as ''2'' (decode_unknown s2 u2) (\<lambda>a2. Ok (a0, a1, a2))))
      | _ \<Rightarrow> Err (parse_error_new [] ''expected array of length 3''))"

definition tuple4 ::
  "('a0, 'i0, 'f) schema \<Rightarrow> ('a1, 'i1, 'f) schema \<Rightarrow> ('a2, 'i2, 'f) schema \<Rightarrow> ('a3, 'i3, 'f) schema
    \<Rightarrow> ('a0 \<times> 'a1 \<times> 'a2 \<times> 'a3, 'i0 \<times> 'i1 \<times> 'i2 \<times> 'i3, 'f) schema" where
  "tuple4 s0 s1 s2 s3 = schema_make
     (\<lambda>(i0, i1, i2, i3). field_as ''0'' (decode s0 i0) (\<lambda>a0. field_as ''1'' (decode s1 i1) (\<lambda>a1.
        field_as ''2'' (decode s2 i2) (\<lambda>a2. field_as ''3'' (decode s3 i3) (\<lambda>a3. Ok (a0, a1, a2, a3))))))
     (\<lambda>(a0, a1, a2, a3). (encode s0 a0, encode s1 a1, encode s2 a2, encode s3 a3))
     (\<lambda>u. case u of
        Array [u0, u1, u2, u3] \<Rightarrow>
          field_as ''0'' (decode_unknown s0 u0) (\<lambda>a0.
          field_as ''1'' (decode_unknown s1 u1) (\<lambda>a1.
          field_as ''2'' (decode_unknown s2 u2) (\<lambda>a2.
          field_as ''3'' (decode_unknown s3 u3) (\<lambda>a3. Ok (a0, a1, a2, a3)))))
      | _ \<Rightarrow> Err (parse_error_new [] ''expected array of length 4''))"

text \<open>One field of an object: look it up, decode it, prefix its errors.\<close>

definition object_field ::
  "(string, 'f unknown) btree_map \<Rightarrow> string \<Rightarrow> ('a, 'i, 'f) schema
    \<Rightarrow> ('a \<Rightarrow> ('b, parse_error) result) \<Rightarrow> ('b, parse_error) result" where
  "object_field obj name s k = (case bt_get obj name of
     None \<Rightarrow> Err (parse_error_new name (''missing field '' @ name))
   | Some u \<Rightarrow> field_as name (decode_unknown s u) k)"

definition struct2 ::
  "string \<Rightarrow> ('a0, 'i0, 'f) schema \<Rightarrow> string \<Rightarrow> ('a1, 'i1, 'f) schema
    \<Rightarrow> ('a0 \<times> 'a1, 'i0 \<times> 'i1, 'f) schema" where
  "struct2 name0 s0 name1 s1 = schema_make
     (\<lambda>(i0, i1). field_as name0 (decode s0 i0) (\<lambda>a0. field_as name1 (decode s1 i1) (\<lambda>a1. Ok (a0, a1))))
     (\<lambda>(a0, a1). (encode s0 a0, encode s1 a1))
     (\<lambda>u. case u of
        Object obj \<Rightarrow> object_field obj name0 s0 (\<lambda>a0. object_field obj name1 s1 (\<lambda>a1. Ok (a0, a1)))
      | _ \<Rightarrow> Err (parse_error_new [] ''expected object''))"

definition struct3 ::
  "string \<Rightarrow> ('a0, 'i0, 'f) schema \<Rightarrow> string \<Rightarrow> ('a1, 'i1, 'f) schema \<Rightarrow> string \<Rightarrow> ('a2, 'i2, 'f) schema
    \<Rightarrow> ('a0 \<times> 'a1 \<times> 'a2, 'i0 \<times> 'i1 \<times> 'i2, 'f) schema" where
  "struct3 name0 s0 name1 s1 name2 s2 = schema_make
     (\<lambda>(i0, i1, i2). field_as name0 (decode s0 i0) (\<lambda>a0. field_as name1 (decode s1 i1) (\<lambda>a1.
        field_as name2 (decode s2 i2) (\<lambda>a2. Ok (a0, a1, a2)))))
     (\<lambda>(a0, a1, a2). (encode s0 a0, encode s1 a1, encode s2 a2))
     (\<lambda>u. case u of
        Object obj \<Rightarrow> object_field obj name0 s0 (\<lambda>a0. object_field obj name1 s1 (\<lambda>a1.
          object_field obj name2 s2 (\<lambda>a2. Ok (a0, a1, a2))))
      | _ \<Rightarrow> Err (parse_error_new [] ''expected object''))"

definition struct4 ::
  "string \<Rightarrow> ('a0, 'i0, 'f) schema \<Rightarrow> string \<Rightarrow> ('a1, 'i1, 'f) schema \<Rightarrow> string \<Rightarrow> ('a2, 'i2, 'f) schema
    \<Rightarrow> string \<Rightarrow> ('a3, 'i3, 'f) schema
    \<Rightarrow> ('a0 \<times> 'a1 \<times> 'a2 \<times> 'a3, 'i0 \<times> 'i1 \<times> 'i2 \<times> 'i3, 'f) schema" where
  "struct4 name0 s0 name1 s1 name2 s2 name3 s3 = schema_make
     (\<lambda>(i0, i1, i2, i3). field_as name0 (decode s0 i0) (\<lambda>a0. field_as name1 (decode s1 i1) (\<lambda>a1.
        field_as name2 (decode s2 i2) (\<lambda>a2. field_as name3 (decode s3 i3) (\<lambda>a3. Ok (a0, a1, a2, a3))))))
     (\<lambda>(a0, a1, a2, a3). (encode s0 a0, encode s1 a1, encode s2 a2, encode s3 a3))
     (\<lambda>u. case u of
        Object obj \<Rightarrow> object_field obj name0 s0 (\<lambda>a0. object_field obj name1 s1 (\<lambda>a1.
          object_field obj name2 s2 (\<lambda>a2. object_field obj name3 s3 (\<lambda>a3. Ok (a0, a1, a2, a3)))))
      | _ \<Rightarrow> Err (parse_error_new [] ''expected object''))"

definition result_or_else :: "('a, 'e) result \<Rightarrow> ('a, 'e2) result \<Rightarrow> ('a, 'e2) result" where
  "result_or_else x y = (case x of Inr a \<Rightarrow> Ok a | Inl _ \<Rightarrow> y)"

definition schema_union :: "('a, 'f unknown, 'f) schema \<Rightarrow> ('a, 'f unknown, 'f) schema \<Rightarrow> ('a, 'f unknown, 'f) schema" where
  "schema_union primary fallback = schema_make
     (\<lambda>u. result_or_else (decode primary u) (decode fallback u))
     (\<lambda>a. encode primary a)
     (\<lambda>u. result_or_else (decode_unknown primary u) (decode_unknown fallback u))"

subsection \<open>Extra combinators\<close>

fun decode_entries ::
  "('i \<Rightarrow> ('a, parse_error) result) \<Rightarrow> (string \<times> 'i) list \<Rightarrow> (string, 'a) btree_map
    \<Rightarrow> ((string, 'a) btree_map, parse_error) result" where
  "decode_entries f [] out = Ok out"
| "decode_entries f ((k, i) # m) out =
     field_as k (f i) (\<lambda>a. decode_entries f m (bt_insert k a out))"

definition schema_record ::
  "('a, 'i, 'f) schema \<Rightarrow> ((string, 'a) btree_map, (string, 'i) btree_map, 'f) schema" where
  "schema_record value = schema_make
     (\<lambda>m. decode_entries (decode value) m [])
     (\<lambda>m. bt_from_list (map (\<lambda>(k, a). (k, encode value a)) m))
     (\<lambda>u. case u of
        Object obj \<Rightarrow> decode_entries (decode_unknown value) obj []
      | _ \<Rightarrow> Err (parse_error_new [] ''expected object for record''))"

definition literal_string :: "(string \<Rightarrow> string) \<Rightarrow> string \<Rightarrow> (string, string, 'f) schema" where
  "literal_string dbg s = schema_make
     (\<lambda>w. if w = s then Ok s else Err (parse_error_new [] (''expected literal '' @ dbg s)))
     (\<lambda>a. a)
     (\<lambda>u. case u of
        String t \<Rightarrow> (if t = s then Ok s
          else Err (parse_error_new [] (''expected literal string '' @ dbg s)))
      | Null \<Rightarrow> Err (parse_error_new [] ''expected literal string, got null'')
      | _ \<Rightarrow> Err (parse_error_new [] (''expected literal string '' @ dbg s)))"

definition literal_i64 :: "i64 \<Rightarrow> (i64, i64, 'f) schema" where
  "literal_i64 n = schema_make
     (\<lambda>w. if w = n then Ok n else Err (parse_error_new [] (''expected literal '' @ show_i64 n)))
     (\<lambda>a. a)
     (\<lambda>u. case u of
        I64 x \<Rightarrow> (if x = n then Ok n
          else Err (parse_error_new [] (''expected literal i64 '' @ show_i64 n)))
      | Null \<Rightarrow> Err (parse_error_new [] ''expected literal i64, got null'')
      | _ \<Rightarrow> Err (parse_error_new [] (''expected literal i64 '' @ show_i64 n)))"

definition null_or :: "('a, 'i, 'f) schema \<Rightarrow> ('a option, 'i option, 'f) schema" where
  "null_or s = optional s"

text \<open>The cell holds the schema of the thunk's first call, which all three closures use.\<close>

definition suspend :: "(unit \<Rightarrow> ('a, 'i, 'f) schema) \<Rightarrow> ('a, 'i, 'f) schema" where
  "suspend thunk = schema_make (\<lambda>i. decode (thunk ()) i) (\<lambda>a. encode (thunk ()) a)
     (\<lambda>u. decode_unknown (thunk ()) u)"

fun first_ok :: "('x \<Rightarrow> ('a, 'e) result) \<Rightarrow> 'x list \<Rightarrow> 'e \<Rightarrow> ('a, 'e) result" where
  "first_ok f [] e = Err e"
| "first_ok f (s # ss) e = (case f s of Inr a \<Rightarrow> Ok a | Inl _ \<Rightarrow> first_ok f ss e)"

definition union_chain ::
  "('a, 'f unknown, 'f) schema list \<Rightarrow> ('a, 'f unknown, 'f) schema option" where
  "union_chain schemas = (case schemas of
     [] \<Rightarrow> None
   | s # _ \<Rightarrow> Some (schema_make
       (\<lambda>u. first_ok (\<lambda>s. decode s u) schemas
          (parse_error_new [] ''no arm of union_chain accepted the wire value''))
       (\<lambda>a. encode s a)
       (\<lambda>u. first_ok (\<lambda>s. decode_unknown s u) schemas
          (parse_error_new [] ''no arm of union_chain accepted the unknown value''))))"

definition wire_equal :: "('a, 'i, 'f) schema \<Rightarrow> 'a \<Rightarrow> 'a \<Rightarrow> bool" where
  "wire_equal s x y \<longleftrightarrow> encode s x = encode s y"

section \<open>Wire values as dynamic values\<close>

text \<open>
  How the wire value of a combinator is written as an \<open>Unknown\<close>, given how those of its parts are: an
  absent value is null, a list or a tuple an array, a struct an object with the names of its fields,
  a record an object with its keys.
\<close>

definition option_repr :: "('i \<Rightarrow> 'f unknown) \<Rightarrow> 'i option \<Rightarrow> 'f unknown" where
  "option_repr r oi = (case oi of None \<Rightarrow> Null | Some i \<Rightarrow> r i)"

definition list_repr :: "('i \<Rightarrow> 'f unknown) \<Rightarrow> 'i list \<Rightarrow> 'f unknown" where
  "list_repr r is = Array (map r is)"

definition map_repr :: "('i \<Rightarrow> 'f unknown) \<Rightarrow> (string, 'i) btree_map \<Rightarrow> 'f unknown" where
  "map_repr r m = Object (map (\<lambda>(k, i). (k, r i)) m)"

definition pair_repr :: "('i \<Rightarrow> 'f unknown) \<Rightarrow> ('j \<Rightarrow> 'f unknown) \<Rightarrow> 'i \<times> 'j \<Rightarrow> 'f unknown" where
  "pair_repr r0 r1 = (\<lambda>(i0, i1). Array [r0 i0, r1 i1])"

definition triple_repr ::
  "('i \<Rightarrow> 'f unknown) \<Rightarrow> ('j \<Rightarrow> 'f unknown) \<Rightarrow> ('k \<Rightarrow> 'f unknown) \<Rightarrow> 'i \<times> 'j \<times> 'k \<Rightarrow> 'f unknown" where
  "triple_repr r0 r1 r2 = (\<lambda>(i0, i1, i2). Array [r0 i0, r1 i1, r2 i2])"

definition quad_repr ::
  "('i \<Rightarrow> 'f unknown) \<Rightarrow> ('j \<Rightarrow> 'f unknown) \<Rightarrow> ('k \<Rightarrow> 'f unknown) \<Rightarrow> ('l \<Rightarrow> 'f unknown) \<Rightarrow> 'i \<times> 'j \<times> 'k \<times> 'l \<Rightarrow> 'f unknown" where
  "quad_repr r0 r1 r2 r3 = (\<lambda>(i0, i1, i2, i3). Array [r0 i0, r1 i1, r2 i2, r3 i3])"

text \<open>The elements of an array, under the names of the fields.\<close>

fun named :: "string list \<Rightarrow> 'f unknown \<Rightarrow> 'f unknown" where
  "named names (Array us) = Object (bt_from_list (zip names us))"
| "named names u = u"

lemmas repr_defs = option_repr_def list_repr_def map_repr_def pair_repr_def triple_repr_def quad_repr_def

section \<open>Codecs\<close>

text \<open>
  The contract of a schema over a set \<open>D\<close> of semantic values, where \<open>repr\<close> writes a wire value as
  an \<open>Unknown\<close>: what it decodes lies in \<open>D\<close>, and a value of \<open>D\<close> survives encoding and decoding, from
  the wire value itself and from its representation as an \<open>Unknown\<close>.
\<close>

locale codec =
  fixes s :: "('a, 'i, 'f) schema"
    and D :: "'a set"
    and repr :: "'i \<Rightarrow> 'f unknown"
  assumes decode_encode: "a \<in> D \<Longrightarrow> decode s (encode s a) = Ok a"
    and unknown_encode: "a \<in> D \<Longrightarrow> decode_unknown s (repr (encode s a)) = Ok a"
    and decode_in: "decode s i = Ok a \<Longrightarrow> a \<in> D"
    and unknown_in: "decode_unknown s u = Ok a \<Longrightarrow> a \<in> D"
begin

lemma encode_inj: "inj_on (encode s) D"
  by (rule inj_onI) (metis decode_encode sum.inject(2))

lemma wire_equal_iff: "x \<in> D \<Longrightarrow> y \<in> D \<Longrightarrow> wire_equal s x y \<longleftrightarrow> x = y"
  using encode_inj by (auto simp: wire_equal_def inj_on_def)

lemma decode_normalises: "decode s i = Ok a \<Longrightarrow> decode s (encode s a) = Ok a"
  by (rule decode_encode [OF decode_in])

lemma unknown_normalises: "decode_unknown s u = Ok a \<Longrightarrow> decode_unknown s (repr (encode s a)) = Ok a"
  by (rule unknown_encode [OF unknown_in])

end

lemmas schema_access = schema_make_def decode_def encode_def decode_unknown_def

lemma schema_make_simps [simp]:
  "decode (schema_make d e du) = d" "encode (schema_make d e du) = e"
  "decode_unknown (schema_make d e du) = du"
  "decode_fn s = decode s" "encode_fn s = encode s" "unknown_fn s = decode_unknown s"
  by (simp_all add: schema_access fun_eq_iff)

interpretation i64_codec: codec "i64_schema :: (i64, i64, 'f) schema" UNIV I64
  by unfold_locales (simp_all add: i64_schema_def i64_of_unknown_def)

interpretation i64_wire_codec: codec "i64_unknown_wire :: (i64, 'f unknown, 'f) schema" UNIV "\<lambda>u. u"
  by unfold_locales (simp_all add: i64_unknown_wire_def i64_of_unknown_def)

interpretation string_codec: codec "string_schema :: (string, string, 'f) schema" UNIV String
  by unfold_locales (simp_all add: string_schema_def)

interpretation bool_codec: codec "bool_schema :: (bool, bool, 'f) schema" UNIV Bool
  by unfold_locales (simp_all add: bool_schema_def)

interpretation f64_codec: codec "f64_schema as_f64" UNIV F64 for as_f64
  by unfold_locales (simp_all add: f64_schema_def)

interpretation literal_i64_codec: codec "literal_i64 n" "{n}" I64 for n
  by unfold_locales (auto simp: literal_i64_def split: if_splits unknown.splits)

interpretation literal_string_codec: codec "literal_string dbg t" "{t}" String for dbg t
  by unfold_locales (auto simp: literal_string_def split: if_splits unknown.splits)

lemma result_bind_Ok: "result_bind x f = Ok b \<longleftrightarrow> (\<exists>a. x = Ok a \<and> f a = Ok b)"
  by (cases x) auto

lemma result_map_Ok: "result_map f x = Ok b \<longleftrightarrow> (\<exists>a. x = Ok a \<and> b = f a)"
  by (cases x) auto

lemma field_as_Ok [simp]: "field_as name x k = Ok b \<longleftrightarrow> (\<exists>a. x = Ok a \<and> k a = Ok b)"
  by (cases x) (auto simp: field_as_def)

lemma field_as_ret [simp]: "field_as name (Ok a) k = k a"
  by (simp add: field_as_def)

lemma object_field_Ok:
  "object_field obj name s k = Ok b \<longleftrightarrow>
     (\<exists>u a. bt_get obj name = Some u \<and> decode_unknown s u = Ok a \<and> k a = Ok b)"
  by (auto simp: object_field_def split: option.split)

lemma decode_items_Ok:
  "decode_items f idx items = Ok out \<longleftrightarrow> list_all2 (\<lambda>i a. f i = Ok a) items out"
  by (induction f idx items arbitrary: out rule: decode_items.induct)
    (auto simp: result_map_Ok list_all2_Cons1 split: sum.split)

context codec
begin

lemma transform_codec:
  assumes "\<And>b. b \<in> E \<Longrightarrow> e b \<in> D \<and> d (e b) = Ok b" "\<And>a b. a \<in> D \<Longrightarrow> d a = Ok b \<Longrightarrow> b \<in> E"
  shows "codec (transform s d e) E repr"
  by unfold_locales (use assms in \<open>auto simp: transform_def decode_encode unknown_encode result_bind_Ok dest: decode_in unknown_in\<close>)

lemma filter_codec: "codec (schema_filter s p msg) {a \<in> D. p a} repr"
  by unfold_locales
    (auto simp: schema_filter_def decode_encode unknown_encode result_bind_Ok dest: decode_in unknown_in split: if_splits)

text \<open>A value that is written as null would be read back as an absent one.\<close>

lemma optional_codec:
  assumes "\<And>a. a \<in> D \<Longrightarrow> repr (encode s a) \<noteq> Null"
  shows "codec (optional s) {oa. \<forall>a. oa = Some a \<longrightarrow> a \<in> D} (option_repr repr)"
proof
  fix oa assume "oa \<in> {oa. \<forall>a. oa = Some a \<longrightarrow> a \<in> D}"
  then show "decode_unknown (optional s) (option_repr repr (encode (optional s) oa)) = Ok oa"
    using assms unknown_encode by (cases oa) (force simp: optional_def option_repr_def split: unknown.split)+
qed (auto simp: optional_def decode_encode result_map_Ok dest: decode_in unknown_in split: option.splits unknown.splits)

lemma decoded_list_in:
  assumes "\<And>i a. f i = Ok a \<Longrightarrow> a \<in> D"
  shows "list_all2 (\<lambda>i a. f i = Ok a) items as \<Longrightarrow> set as \<subseteq> D"
  by (induction rule: list_all2_induct) (auto dest: assms)

lemma array_codec: "codec (array s) {as. set as \<subseteq> D} (list_repr repr)"
proof
  fix as items u
  show "as \<in> {as. set as \<subseteq> D} \<Longrightarrow> decode (array s) (encode (array s) as) = Ok as"
    by (auto simp: array_def decode_items_Ok list_all2_map1 list.rel_refl_strong decode_encode subset_iff)
  show "as \<in> {as. set as \<subseteq> D} \<Longrightarrow> decode_unknown (array s) (list_repr repr (encode (array s) as)) = Ok as"
    by (auto simp: array_def list_repr_def decode_items_Ok list_all2_map1 list.rel_refl_strong unknown_encode subset_iff)
  show "decode (array s) items = Ok as \<Longrightarrow> as \<in> {as. set as \<subseteq> D}"
    using decoded_list_in [of "decode s" items as] decode_in by (simp add: array_def decode_items_Ok)
  show "decode_unknown (array s) u = Ok as \<Longrightarrow> as \<in> {as. set as \<subseteq> D}"
    using decoded_list_in [of "decode_unknown s" _ as] unknown_in
    by (auto simp: array_def decode_items_Ok split: unknown.splits)
qed

end

lemma suspend_codec: "codec (thunk ()) D r \<Longrightarrow> codec (suspend thunk) D r"
  by (simp add: codec_def suspend_def)

lemma tuple_codec:
  "codec s0 D0 r0 \<Longrightarrow> codec s1 D1 r1 \<Longrightarrow> codec (tuple s0 s1) (D0 \<times> D1) (pair_repr r0 r1)"
  by (auto simp: codec_def tuple_def pair_repr_def split: unknown.splits list.splits)

lemma tuple3_codec:
  "codec s0 D0 r0 \<Longrightarrow> codec s1 D1 r1 \<Longrightarrow> codec s2 D2 r2 \<Longrightarrow>
   codec (tuple3 s0 s1 s2) (D0 \<times> D1 \<times> D2) (triple_repr r0 r1 r2)"
  by (auto simp: codec_def tuple3_def triple_repr_def split: unknown.splits list.splits)

lemma tuple4_codec:
  "codec s0 D0 r0 \<Longrightarrow> codec s1 D1 r1 \<Longrightarrow> codec s2 D2 r2 \<Longrightarrow> codec s3 D3 r3 \<Longrightarrow>
   codec (tuple4 s0 s1 s2 s3) (D0 \<times> D1 \<times> D2 \<times> D3) (quad_repr r0 r1 r2 r3)"
  by (auto simp: codec_def tuple4_def quad_repr_def split: unknown.splits list.splits)

text \<open>Two fields of one name would both be read from the second.\<close>

lemma bt_get_from_list: "bt_get (bt_from_list kvs) = map_of (rev kvs)"
proof (induction kvs rule: rev_induct)
  case (snoc kv kvs)
  then show ?case by (cases kv) (auto simp: bt_from_list_def bt_get_insert fun_eq_iff)
qed (simp add: bt_from_list_def bt_get_def)

lemma struct2_codec:
  "n0 \<noteq> n1 \<Longrightarrow> codec s0 D0 r0 \<Longrightarrow> codec s1 D1 r1 \<Longrightarrow>
   codec (struct2 n0 s0 n1 s1) (D0 \<times> D1) (\<lambda>i. named [n0, n1] (pair_repr r0 r1 i))"
  by (auto simp: codec_def struct2_def object_field_Ok pair_repr_def bt_get_from_list split: unknown.splits)

lemma struct3_codec:
  "distinct [n0, n1, n2] \<Longrightarrow> codec s0 D0 r0 \<Longrightarrow> codec s1 D1 r1 \<Longrightarrow> codec s2 D2 r2 \<Longrightarrow>
   codec (struct3 n0 s0 n1 s1 n2 s2) (D0 \<times> D1 \<times> D2) (\<lambda>i. named [n0, n1, n2] (triple_repr r0 r1 r2 i))"
  by (auto simp: codec_def struct3_def object_field_Ok triple_repr_def bt_get_from_list split: unknown.splits)

lemma struct4_codec:
  "distinct [n0, n1, n2, n3] \<Longrightarrow> codec s0 D0 r0 \<Longrightarrow> codec s1 D1 r1 \<Longrightarrow> codec s2 D2 r2 \<Longrightarrow> codec s3 D3 r3 \<Longrightarrow>
   codec (struct4 n0 s0 n1 s1 n2 s2 n3 s3) (D0 \<times> D1 \<times> D2 \<times> D3) (\<lambda>i. named [n0, n1, n2, n3] (quad_repr r0 r1 r2 r3 i))"
  by (auto simp: codec_def struct4_def object_field_Ok quad_repr_def bt_get_from_list split: unknown.splits)

text \<open>
  A union encodes with its first arm only, so it is a codec for the values of that arm when the
  other arms decode no others.
\<close>

lemma union_codec:
  assumes "codec s D r" "codec t E q" "E \<subseteq> D"
  shows "codec (schema_union s t) D r"
  using assms by (auto simp: schema_union_def result_or_else_def codec_def split: sum.splits)

lemma first_ok_Ok: "first_ok f ss e = Ok a \<Longrightarrow> \<exists>s \<in> set ss. f s = Ok a"
  by (induction ss) (auto split: sum.splits)

lemma union_chain_codec:
  assumes "codec s D r" "\<forall>t \<in> set ts. \<exists>E q. codec t E q \<and> E \<subseteq> D"
  shows "\<exists>c. union_chain (s # ts) = Some c \<and> codec c D r"
proof -
  have arm: "t \<in> set ts \<Longrightarrow> decode t u = Ok a \<Longrightarrow> a \<in> D" "t \<in> set ts \<Longrightarrow> decode_unknown t u = Ok a \<Longrightarrow> a \<in> D" for t u a
    using assms(2) by (fastforce simp: codec_def)+
  obtain c where c: "union_chain (s # ts) = Some c" by (simp add: union_chain_def)
  have "codec c D r"
    using c assms(1) by (auto simp: union_chain_def codec_def dest!: first_ok_Ok dest: arm split: sum.splits)
  with c show ?thesis by blast
qed

lemma decode_entries_spec:
  "bt_ok (out @ m) \<Longrightarrow> (\<And>k i. (k, i) \<in> set m \<Longrightarrow> f (g i) = Ok i) \<Longrightarrow>
   decode_entries f (map (\<lambda>(k, i). (k, g i)) m) out = Ok (out @ m)"
proof (induction m arbitrary: out)
  case (Cons ki m)
  obtain k i where ki: "ki = (k, i)" by fastforce
  from Cons.prems(1) have ok: "bt_ok (out @ [(k, i)])"
    by (auto simp: ki bt_ok_def sorted_wrt_append)
  have "f (g i) = Ok i" using Cons.prems(2) [of k i] by (simp add: ki)
  moreover have "decode_entries f (map (\<lambda>(k, i). (k, g i)) m) (out @ [(k, i)]) = Ok ((out @ [(k, i)]) @ m)"
    by (rule Cons.IH) (use Cons.prems in \<open>auto simp: ki\<close>)
  ultimately show ?case by (simp add: ki bt_insert_append [OF ok])
qed simp

lemma decode_entries_in:
  assumes f: "\<And>i a. f i = Ok a \<Longrightarrow> a \<in> D"
  shows "decode_entries f m out = Ok m' \<Longrightarrow> bt_ok out \<Longrightarrow> snd ` set out \<subseteq> D \<Longrightarrow>
    bt_ok m' \<and> snd ` set m' \<subseteq> D"
proof (induction m arbitrary: out)
  case (Cons ki m)
  obtain k i where ki: "ki = (k, i)" by fastforce
  with Cons.prems(1) obtain a where a: "f i = Ok a" "decode_entries f m (bt_insert k a out) = Ok m'"
    by auto
  have "snd ` set (bt_insert k a out) \<subseteq> insert a (snd ` set out)"
    by (induction k a out rule: bt_insert.induct) auto
  then have "snd ` set (bt_insert k a out) \<subseteq> D" using f [OF a(1)] Cons.prems(3) by blast
  with Cons.IH [OF a(2)] Cons.prems(2) show ?case by (simp add: bt_insert_ok)
qed simp

lemma record_codec:
  assumes "codec s D r"
  shows "codec (schema_record s) {m. bt_ok m \<and> snd ` set m \<subseteq> D} (map_repr r)"
proof
  fix m :: "(string, 'a) btree_map"
  assume m: "m \<in> {m. bt_ok m \<and> snd ` set m \<subseteq> D}"
  let ?e = "map (\<lambda>(k, a). (k, encode s a)) m"
  have "bt_ok ?e" using m by (simp add: bt_ok_def o_def case_prod_unfold)
  then have e: "encode (schema_record s) m = ?e" by (simp add: schema_record_def bt_from_list_sorted)
  have "decode_entries (decode s) ?e [] = Ok ([] @ m)"
    by (rule decode_entries_spec) (use m assms in \<open>force simp: codec_def\<close>)+
  with e show "decode (schema_record s) (encode (schema_record s) m) = Ok m"
    by (simp add: schema_record_def)
  have "decode_entries (decode_unknown s) (map (\<lambda>(k, a). (k, r (encode s a))) m) [] = Ok ([] @ m)"
    by (rule decode_entries_spec) (use m assms in \<open>force simp: codec_def\<close>)+
  then show "decode_unknown (schema_record s) (map_repr r (encode (schema_record s) m)) = Ok m"
    unfolding e by (simp add: schema_record_def map_repr_def o_def case_prod_unfold)
next
  fix i and m :: "(string, 'a) btree_map"
  assume "decode (schema_record s) i = Ok m"
  then show "m \<in> {m. bt_ok m \<and> snd ` set m \<subseteq> D}"
    using decode_entries_in [of "decode s" D i "[]" m] assms
    by (auto simp: schema_record_def codec_def bt_ok_def)
next
  fix u and m :: "(string, 'a) btree_map"
  assume "decode_unknown (schema_record s) u = Ok m"
  then obtain obj where "decode_entries (decode_unknown s) obj [] = Ok m"
    by (auto simp: schema_record_def split: unknown.splits)
  then show "m \<in> {m. bt_ok m \<and> snd ` set m \<subseteq> D}"
    using decode_entries_in [of "decode_unknown s" D obj "[]" m] assms
    by (auto simp: codec_def bt_ok_def)
qed

section \<open>Where errors point\<close>

text \<open>
  \<open>resolves u names\<close>: following the names, a field name in an object and a decimal index in an
  array, leads to a part of \<open>u\<close>, or to a field that is missing from the last object.
\<close>

fun resolves :: "'f unknown \<Rightarrow> string list \<Rightarrow> bool" where
  "resolves u [] = True"
| "resolves (Object obj) (n # ns) = (case bt_get obj n of None \<Rightarrow> ns = [] | Some v \<Rightarrow> resolves v ns)"
| "resolves (Array us) (n # ns) = (\<exists>i < length us. n = show_nat i \<and> resolves (us ! i) ns)"
| "resolves _ (_ # _) = False"

definition points_into :: "'f unknown \<Rightarrow> parse_error \<Rightarrow> bool" where
  "points_into u e \<longleftrightarrow> (\<exists>names. err_path e = join ''.'' names \<and> resolves u names)"

definition located :: "('a, 'i, 'f) schema \<Rightarrow> bool" where
  "located s \<longleftrightarrow> (\<forall>u e. decode_unknown s u = Err e \<longrightarrow> points_into u e)"

lemma points_into_root [simp]: "points_into u (parse_error_new [] msg)"
  unfolding points_into_def parse_error_new_def by (rule exI [of _ "[]"]) simp

lemma join_Cons: "names \<noteq> [] \<Longrightarrow> join sep (n # names) = n @ sep @ join sep names"
  by (cases names) auto

lemma points_into_prefix:
  assumes "points_into v e" "\<And>ns. resolves v ns \<Longrightarrow> resolves u (n # ns)"
  shows "points_into u (prefix_segment e n)"
proof (cases "err_path e = []")
  case True
  then have "err_path (prefix_segment e n) = join ''.'' [n]" by (simp add: prefix_segment_def)
  moreover have "resolves u [n]" by (rule assms(2)) simp
  ultimately show ?thesis unfolding points_into_def by blast
next
  case False
  from assms(1) obtain ns where ns: "err_path e = join ''.'' ns" "resolves v ns"
    by (auto simp: points_into_def)
  with False have "ns \<noteq> []" by auto
  with ns False have "err_path (prefix_segment e n) = join ''.'' (n # ns)"
    by (simp add: prefix_segment_def join_Cons)
  with assms(2) [OF ns(2)] show ?thesis unfolding points_into_def by blast
qed

lemma points_into_field: "bt_get obj n = Some v \<Longrightarrow> points_into v e \<Longrightarrow> points_into (Object obj) (prefix_segment e n)"
  by (erule points_into_prefix) simp

lemma points_into_item: "i < length us \<Longrightarrow> points_into (us ! i) e \<Longrightarrow> points_into (Array us) (prefix_index e i)"
  unfolding prefix_index_def by (erule points_into_prefix) auto

lemma object_field_points:
  assumes "object_field obj n s k = Err e" "located s" "\<And>a. k a = Err e \<Longrightarrow> points_into (Object obj) e"
  shows "points_into (Object obj) e"
proof (cases "bt_get obj n")
  case None
  with assms(1) have "e = parse_error_new n (''missing field '' @ n)" by (simp add: object_field_def)
  moreover have "resolves (Object obj) [n]" using None by simp
  ultimately show ?thesis
    unfolding points_into_def by (metis join.simps(2) parse_error.select_convs(1) parse_error_new_def)
next
  case (Some u)
  show ?thesis
  proof (cases "decode_unknown s u")
    case (Inl e')
    with Some assms(1) have "e = prefix_segment e' n" by (simp add: object_field_def field_as_def)
    with Some Inl assms(2) show ?thesis by (simp add: points_into_field located_def)
  next
    case (Inr a)
    with Some assms(1,3) show ?thesis by (simp add: object_field_def field_as_def)
  qed
qed

lemma item_field_points:
  assumes "field_as (show_nat i) (decode_unknown s (us ! i)) k = Err e" "i < length us" "located s"
    and "\<And>a. k a = Err e \<Longrightarrow> points_into (Array us) e"
  shows "points_into (Array us) e"
proof (cases "decode_unknown s (us ! i)")
  case (Inl e')
  with assms(1) have "e = prefix_index e' i" by (simp add: field_as_def prefix_index_def)
  with Inl assms(2,3) show ?thesis by (simp add: points_into_item located_def)
next
  case (Inr a)
  with assms(1,4) show ?thesis by simp
qed

lemma decode_items_points:
  assumes "located s"
  shows "decode_items (decode_unknown s) k us = Err e \<Longrightarrow>
    \<exists>i < length us. \<exists>e'. points_into (us ! i) e' \<and> e = prefix_index e' (k + i)"
proof (induction us arbitrary: k)
  case (Cons u us)
  show ?case
  proof (cases "decode_unknown s u")
    case (Inl e')
    with Cons.prems assms show ?thesis by (intro exI [of _ 0]) (auto simp: located_def)
  next
    case (Inr a)
    with Cons.prems have "decode_items (decode_unknown s) (Suc k) us = Err e"
      by (cases "decode_items (decode_unknown s) (Suc k) us") auto
    from Cons.IH [OF this] obtain i e' where "i < length us" "points_into (us ! i) e'" "e = prefix_index e' (Suc k + i)"
      by blast
    then show ?thesis by (intro exI [of _ "Suc i"]) auto
  qed
qed simp

lemma located_primitives:
  "located (i64_schema :: (i64, i64, 'f) schema)" "located (string_schema :: (string, string, 'f) schema)"
  "located (bool_schema :: (bool, bool, 'f) schema)" "located (f64_schema as_f64)"
  "located (literal_i64 n :: (i64, i64, 'f) schema)" "located (literal_string dbg t :: (string, string, 'f) schema)"
  "located (i64_unknown_wire :: (i64, 'f unknown, 'f) schema)"
  by (auto simp: located_def i64_schema_def string_schema_def bool_schema_def f64_schema_def
    literal_i64_def literal_string_def i64_unknown_wire_def i64_of_unknown_def split: unknown.splits if_splits)

lemma located_array: "located s \<Longrightarrow> located (array s)"
  unfolding located_def [of "array s"]
  by (auto simp: array_def points_into_item dest!: decode_items_points split: unknown.splits)

lemma located_optional: "located s \<Longrightarrow> located (optional s)"
  unfolding located_def [of "optional s"]
  by (auto simp: optional_def located_def result_map_def split: unknown.splits sum.splits)

lemma located_filter: "located s \<Longrightarrow> located (schema_filter s p msg)"
  by (auto simp: schema_filter_def located_def result_bind_def split: sum.splits if_splits)

lemma located_union: "located t \<Longrightarrow> located (schema_union s t)"
  by (auto simp: schema_union_def located_def result_or_else_def split: sum.splits)

lemma located_struct2: "located s0 \<Longrightarrow> located s1 \<Longrightarrow> located (struct2 n0 s0 n1 s1)"
  unfolding located_def [of "struct2 n0 s0 n1 s1"]
  by (auto simp: struct2_def split: unknown.splits elim!: object_field_points)

lemma located_struct3: "located s0 \<Longrightarrow> located s1 \<Longrightarrow> located s2 \<Longrightarrow> located (struct3 n0 s0 n1 s1 n2 s2)"
  unfolding located_def [of "struct3 n0 s0 n1 s1 n2 s2"]
  by (auto simp: struct3_def split: unknown.splits elim!: object_field_points)

lemma located_struct4:
  "located s0 \<Longrightarrow> located s1 \<Longrightarrow> located s2 \<Longrightarrow> located s3 \<Longrightarrow> located (struct4 n0 s0 n1 s1 n2 s2 n3 s3)"
  unfolding located_def [of "struct4 n0 s0 n1 s1 n2 s2 n3 s3"]
  by (auto simp: struct4_def split: unknown.splits elim!: object_field_points)

lemma show_nat_digits: "show_nat 0 = ''0''" "show_nat 1 = ''1''" "show_nat 2 = ''2''" "show_nat 3 = ''3''"
  by code_simp+

lemma item_points:
  "field_as ''0'' (decode_unknown s u0) k = Err e \<Longrightarrow> located s \<Longrightarrow>
    (\<And>a. k a = Err e \<Longrightarrow> points_into (Array (u0 # us)) e) \<Longrightarrow> points_into (Array (u0 # us)) e"
  "field_as ''1'' (decode_unknown s u1) k = Err e \<Longrightarrow> located s \<Longrightarrow>
    (\<And>a. k a = Err e \<Longrightarrow> points_into (Array (u0 # u1 # us)) e) \<Longrightarrow> points_into (Array (u0 # u1 # us)) e"
  "field_as ''2'' (decode_unknown s u2) k = Err e \<Longrightarrow> located s \<Longrightarrow>
    (\<And>a. k a = Err e \<Longrightarrow> points_into (Array (u0 # u1 # u2 # us)) e) \<Longrightarrow>
    points_into (Array (u0 # u1 # u2 # us)) e"
  "field_as ''3'' (decode_unknown s u3) k = Err e \<Longrightarrow> located s \<Longrightarrow>
    (\<And>a. k a = Err e \<Longrightarrow> points_into (Array (u0 # u1 # u2 # u3 # us)) e) \<Longrightarrow>
    points_into (Array (u0 # u1 # u2 # u3 # us)) e"
  using item_field_points [of 0 s "u0 # us" k e] item_field_points [of 1 s "u0 # u1 # us" k e]
    item_field_points [of 2 s "u0 # u1 # u2 # us" k e] item_field_points [of 3 s "u0 # u1 # u2 # u3 # us" k e]
  by (simp_all add: show_nat_digits [unfolded One_nat_def])

lemma located_tuple: "located s0 \<Longrightarrow> located s1 \<Longrightarrow> located (tuple s0 s1)"
  unfolding located_def [of "tuple s0 s1"]
  by (auto simp: tuple_def split: unknown.splits list.splits elim!: item_points)

lemma located_tuple3: "located s0 \<Longrightarrow> located s1 \<Longrightarrow> located s2 \<Longrightarrow> located (tuple3 s0 s1 s2)"
  unfolding located_def [of "tuple3 s0 s1 s2"]
  by (auto simp: tuple3_def split: unknown.splits list.splits elim!: item_points)

lemma located_tuple4:
  "located s0 \<Longrightarrow> located s1 \<Longrightarrow> located s2 \<Longrightarrow> located s3 \<Longrightarrow> located (tuple4 s0 s1 s2 s3)"
  unfolding located_def [of "tuple4 s0 s1 s2 s3"]
  by (auto simp: tuple4_def split: unknown.splits list.splits elim!: item_points)

lemma decode_entries_points:
  assumes "located s"
  shows "decode_entries (decode_unknown s) m out = Err e \<Longrightarrow>
    \<exists>k u e'. (k, u) \<in> set m \<and> points_into u e' \<and> e = prefix_segment e' k"
proof (induction m arbitrary: out)
  case (Cons ku m)
  obtain k u where ku: "ku = (k, u)" by fastforce
  show ?case
  proof (cases "decode_unknown s u")
    case (Inl e')
    then have "e = prefix_segment e' k" "points_into u e'"
      using Cons.prems ku assms by (auto simp: field_as_def located_def)
    then show ?thesis using ku by (intro exI [of _ k] exI [of _ u] exI [of _ e']) simp
  next
    case (Inr a)
    with Cons.prems ku have "decode_entries (decode_unknown s) m (bt_insert k a out) = Err e" by simp
    from Cons.IH [OF this] show ?thesis by auto
  qed
qed simp

lemma located_record:
  assumes "located s" "decode_unknown (schema_record s) u = Err e" "\<And>obj. u = Object obj \<Longrightarrow> bt_ok obj"
  shows "points_into u e"
proof (cases u)
  case (Object obj)
  with assms(2) have "decode_entries (decode_unknown s) obj [] = Err e" by (simp add: schema_record_def)
  from decode_entries_points [OF assms(1) this] obtain k v e' where
    k: "(k, v) \<in> set obj" "points_into v e'" "e = prefix_segment e' k" by blast
  have "bt_get obj k = Some v"
    using assms(3) [OF Object] k(1) by (auto simp: bt_get_def dest: bt_ok_distinct)
  with k Object show ?thesis by (simp add: points_into_field)
qed (use assms(2) in \<open>auto simp: schema_record_def\<close>)

section \<open>Properties\<close>

text \<open>
  C26. Round trips. The contract \<open>codec s D repr\<close> says that each value of \<open>D\<close> survives encoding and
  decoding, and also encoding, writing the wire value as an \<open>Unknown\<close> by \<open>repr\<close>, and decoding that
  with \<open>decode_unknown\<close>; and that both decoders give values of \<open>D\<close> only. The primitive and the literal
  schemas satisfy it, and it is kept by these combinators: filters (and \<open>refine\<close>) for the values that pass;
  optional values (and \<open>null_or\<close>) when no value is itself written as null; arrays; records; tuples of
  two, three and four; structs of two, three and four fields of different names; suspended schemas;
  unions and chains of them for the values of the first arm, when the others decode no further
  values; and a transformed schema when the two functions are inverse.
\<close>

theorem schemas_round_trip:
  fixes s :: "('a, 'i, 'f) schema" and t :: "('b, 'j, 'f) schema" and v :: "('c, 'k, 'f) schema" and w :: "('d, 'l, 'f) schema"
    and x y :: "('z, 'f unknown, 'f) schema" and as_f64 :: "i64 \<Rightarrow> 'f"
  assumes codecs: "codec s D r" "codec t E q" "codec v F u" "codec w G h" "codec x X rx" "codec y Y ry"
  shows "codec (i64_schema :: (i64, i64, 'f) schema) UNIV I64 \<and> codec (string_schema :: (string, string, 'f) schema) UNIV String \<and>
    codec (bool_schema :: (bool, bool, 'f) schema) UNIV Bool \<and> codec (f64_schema as_f64) UNIV F64 \<and>
    codec (i64_unknown_wire :: (i64, 'f unknown, 'f) schema) UNIV (\<lambda>u. u) \<and>
    codec (literal_i64 n :: (i64, i64, 'f) schema) {n} I64 \<and> codec (literal_string dbg l :: (string, string, 'f) schema) {l} String \<and>
    codec (schema_filter s p msg) {a \<in> D. p a} r \<and> codec (refine s p msg) {a \<in> D. p a} r \<and>
    ((\<forall>a \<in> D. r (encode s a) \<noteq> Null) \<longrightarrow>
      codec (optional s) {oa. \<forall>a. oa = Some a \<longrightarrow> a \<in> D} (option_repr r) \<and> null_or s = optional s) \<and>
    codec (array s) {as. set as \<subseteq> D} (list_repr r) \<and>
    codec (schema_record s) {m. bt_ok m \<and> snd ` set m \<subseteq> D} (map_repr r) \<and>
    codec (tuple s t) (D \<times> E) (pair_repr r q) \<and> codec (tuple3 s t v) (D \<times> E \<times> F) (triple_repr r q u) \<and>
    codec (tuple4 s t v w) (D \<times> E \<times> F \<times> G) (quad_repr r q u h) \<and>
    (distinct [n0, n1, n2, n3] \<longrightarrow>
      codec (struct2 n0 s n1 t) (D \<times> E) (\<lambda>i. named [n0, n1] (pair_repr r q i)) \<and>
      codec (struct3 n0 s n1 t n2 v) (D \<times> E \<times> F) (\<lambda>i. named [n0, n1, n2] (triple_repr r q u i)) \<and>
      codec (struct4 n0 s n1 t n2 v n3 w) (D \<times> E \<times> F \<times> G) (\<lambda>i. named [n0, n1, n2, n3] (quad_repr r q u h i))) \<and>
    (thunk () = s \<longrightarrow> codec (suspend thunk) D r) \<and>
    (Y \<subseteq> X \<longrightarrow> codec (schema_union x y) X rx) \<and>
    ((\<forall>z \<in> set zs. \<exists>Z rz. codec z Z rz \<and> Z \<subseteq> X) \<longrightarrow> (\<exists>c. union_chain (x # zs) = Some c \<and> codec c X rx)) \<and>
    ((\<forall>b \<in> B. e b \<in> D \<and> d (e b) = Ok b) \<and> (\<forall>a b. a \<in> D \<longrightarrow> d a = Ok b \<longrightarrow> b \<in> B) \<longrightarrow>
      codec (transform s d e) B r)"
proof (intro conjI impI)
  show "null_or s = optional s" by (simp add: null_or_def)
  show "codec (optional s) {oa. \<forall>a. oa = Some a \<longrightarrow> a \<in> D} (option_repr r)" if "\<forall>a \<in> D. r (encode s a) \<noteq> Null"
    using that by (intro codec.optional_codec [OF codecs(1)]) blast
  show "codec (refine s p msg) {a \<in> D. p a} r" unfolding refine_def by (rule codec.filter_codec [OF codecs(1)])
  show "codec (transform s d e) B r"
    if "(\<forall>b \<in> B. e b \<in> D \<and> d (e b) = Ok b) \<and> (\<forall>a b. a \<in> D \<longrightarrow> d a = Ok b \<longrightarrow> b \<in> B)"
    using that by (intro codec.transform_codec [OF codecs(1)]) auto
  show "codec (suspend thunk) D r" if "thunk () = s" using that codecs(1) by (intro suspend_codec) simp
  show "codec (struct2 n0 s n1 t) (D \<times> E) (\<lambda>i. named [n0, n1] (pair_repr r q i))" if "distinct [n0, n1, n2, n3]"
    using that by (intro struct2_codec codecs) simp
  show "codec (struct3 n0 s n1 t n2 v) (D \<times> E \<times> F) (\<lambda>i. named [n0, n1, n2] (triple_repr r q u i))" if "distinct [n0, n1, n2, n3]"
    using that by (intro struct3_codec codecs) auto
qed (fact i64_codec.codec_axioms string_codec.codec_axioms bool_codec.codec_axioms f64_codec.codec_axioms
    i64_wire_codec.codec_axioms literal_i64_codec.codec_axioms literal_string_codec.codec_axioms
    codec.filter_codec [OF codecs(1)] codec.array_codec [OF codecs(1)] record_codec [OF codecs(1)]
    tuple_codec [OF codecs(1,2)] tuple3_codec [OF codecs(1-3)] tuple4_codec [OF codecs(1-4)]
  | (erule struct4_codec [OF _ codecs(1-4)] union_codec [OF codecs(5,6)] union_chain_codec [OF codecs(5)]))+

text \<open>Structs, arrays and optional values, with the object that is read back.\<close>

lemma schemas_round_trip_witness:
  "decode_unknown (array (struct2 ''id'' i64_schema ''tag'' (optional (string_schema :: (string, string, unit) schema))))
     (Array [Object [(''id'', I64 3), (''tag'', Null)], Object [(''id'', I64 4), (''tag'', String ''x'')]]) = Ok [(3, None), (4, Some ''x'')]"
proof -
  let ?i = "i64_schema :: (i64, i64, unit) schema" and ?t = "string_schema :: (string, string, unit) schema"
    and ?u = "i64_unknown_wire :: (i64, unit unknown, unit) schema"
  note ax = i64_codec.codec_axioms i64_wire_codec.codec_axioms string_codec.codec_axioms
  note law = schemas_round_trip [where ?as_f64.0 = "\<lambda>_. ()" and n = 0 and dbg = "\<lambda>t. t" and l = "[]" and p = "\<lambda>_. True" and msg = "[]"
    and ?n0.0 = "''id''" and ?n1.0 = "''tag''" and ?n2.0 = "''b''" and ?n3.0 = "''a''" and zs = "[]" and B = "{}"]
  have opt: "codec (optional ?t) UNIV (option_repr String)"
    using law [OF ax(3) ax(1) ax(1) ax(1) ax(2) ax(2), where thunk = "\<lambda>_. ?t" and e = "\<lambda>_. []" and d = "\<lambda>_. Ok ()"] by simp
  have "codec (struct2 ''id'' ?i ''tag'' (optional ?t)) UNIV (\<lambda>i. named [''id'', ''tag''] (pair_repr I64 (option_repr String) i))"
    using law [OF ax(1) opt ax(1) ax(1) ax(2) ax(2), where thunk = "\<lambda>_. ?i" and e = "\<lambda>_. 0" and d = "\<lambda>_. Ok ()"] by simp
  from codec.array_codec [OF this]
  have "codec (array (struct2 ''id'' ?i ''tag'' (optional ?t))) {as. set as \<subseteq> UNIV}
      (list_repr (\<lambda>i. named [''id'', ''tag''] (pair_repr I64 (option_repr String) i)))" .
  from codec.unknown_encode [OF this, of "[(3, None), (4, Some ''x'')]"] show ?thesis
    by (simp add: array_def struct2_def optional_def i64_schema_def string_schema_def repr_defs bt_from_list_def)
qed

text \<open>
  The path of every error of \<open>decode_unknown\<close> leads into the value that was decoded: following its
  names and indices reaches a part of the input, or a field that its object lacks. This holds for
  the primitive schemas and is kept by every combinator.
\<close>

theorem error_paths_resolve:
  fixes s :: "('a, 'i, 'f) schema" and t :: "('b, 'j, 'f) schema" and v :: "('c, 'k, 'f) schema"
    and w :: "('d, 'l, 'f) schema" and x y :: "('a, 'f unknown, 'f) schema"
  assumes "located s" "located t" "located v" "located w" "located y"
  shows "located (array s) \<and> located (optional s) \<and> located (schema_filter s p msg) \<and>
    located (tuple s t) \<and> located (tuple3 s t v) \<and> located (tuple4 s t v w) \<and>
    located (struct2 n0 s n1 t) \<and> located (struct3 n0 s n1 t n2 v) \<and>
    located (struct4 n0 s n1 t n2 v n3 w) \<and> located (schema_union x y) \<and>
    (\<forall>obj e. bt_ok obj \<and> decode_unknown (schema_record s) (Object obj) = Err e \<longrightarrow> points_into (Object obj) e)"
  using located_array [OF assms(1)] located_optional [OF assms(1)] located_filter [OF assms(1)]
    located_tuple [OF assms(1,2)] located_tuple3 [OF assms(1-3)] located_tuple4 [OF assms(1-4)]
    located_struct2 [OF assms(1,2)] located_struct3 [OF assms(1-3)] located_struct4 [OF assms(1-4)]
    located_union [OF assms(5)] located_record [OF assms(1)]
  by blast

lemma error_paths_resolve_witness:
  "located (array (i64_schema :: (i64, i64, unit) schema)) \<and>
   decode_unknown (array (i64_schema :: (i64, i64, unit) schema)) (Array [I64 1, Null]) =
     Err \<lparr>err_path = ''1'', err_message = ''expected i64, got null''\<rparr>"
proof -
  note l = located_primitives
  have "located (array (i64_schema :: (i64, i64, unit) schema))"
    using error_paths_resolve [OF l(1) l(1) l(1) l(1) l(7)] by blast
  moreover have "decode_unknown (array (i64_schema :: (i64, i64, unit) schema)) (Array [I64 1, Null]) =
     Err \<lparr>err_path = ''1'', err_message = ''expected i64, got null''\<rparr>"
    by (simp add: array_def i64_schema_def i64_of_unknown_def prefix_index_def prefix_segment_def
      parse_error_new_def show_nat_digits [unfolded One_nat_def])
  ultimately show ?thesis ..
qed

end
