(* ===== verification/Documents.thy ===== *)
theory Documents
  imports Schemas
begin

text \<open>
  \<open>crates/id_effect_optics/src/\<close> \<open>path.rs\<close>, \<open>schema_bridge.rs\<close> and \<open>json_patch.rs\<close>: document paths,
  reading and writing parts of an \<open>Unknown\<close>, and JSON Patch.

  The \<open>Debug\<close> texts that error messages quote are the two functions of the record \<open>debug\<close>;
  equality of \<open>f64\<close> values, which is not reflexive, is the argument \<open>f_eq\<close>.
\<close>

record path_error =
  bad_path :: string
  bad_reason :: string

definition path_error_new :: "string \<Rightarrow> string \<Rightarrow> path_error" where
  "path_error_new p m = \<lparr>bad_path = p, bad_reason = m\<rparr>"

datatype path_segment = Field string | Index nat | Append

record 'f debug =
  dbg_value :: "'f unknown \<Rightarrow> string"
  dbg_segment :: "path_segment \<Rightarrow> string"

section \<open>Strings\<close>

text \<open>\<open>str::split\<close> by one character, \<open>str::replace\<close> of a two-character pattern, \<open>usize::from_str\<close>.\<close>

fun split_on :: "char \<Rightarrow> string \<Rightarrow> string list" where
  "split_on c [] = [[]]"
| "split_on c (x # xs) =
     (if x = c then [] # split_on c xs
      else (case split_on c xs of [] \<Rightarrow> [[x]] | p # ps \<Rightarrow> (x # p) # ps))"

fun replace_pair :: "char \<Rightarrow> char \<Rightarrow> char \<Rightarrow> string \<Rightarrow> string" where
  "replace_pair a b r (x # y # xs) =
     (if x = a \<and> y = b then r # replace_pair a b r xs else x # replace_pair a b r (y # xs))"
| "replace_pair a b r xs = xs"

definition parse_usize :: "string \<Rightarrow> nat option" where
  "parse_usize s =
     (let ds = (case s of c # cs \<Rightarrow> if c = CHR ''+'' then cs else s | [] \<Rightarrow> s) in
      if ds = [] then None
      else (case digits_value 0 ds of
              Some n \<Rightarrow> if n \<le> u64_max then Some n else None | None \<Rightarrow> None))"

section \<open>Paths\<close>

definition parse_segment :: "string \<Rightarrow> path_segment" where
  "parse_segment segment =
     (if segment = ''-'' then Append
      else (case parse_usize segment of Some i \<Rightarrow> Index i | None \<Rightarrow> Field segment))"

definition decode_json_pointer_segment :: "string \<Rightarrow> string" where
  "decode_json_pointer_segment segment =
     replace_pair (CHR ''~'') (CHR ''0'') (CHR ''~'') (replace_pair (CHR ''~'') (CHR ''1'') (CHR ''/'') segment)"

definition parse_dot_path :: "string \<Rightarrow> (path_segment list, path_error) result" where
  "parse_dot_path path = Ok (map parse_segment (split_on (CHR ''.'') path))"

definition parse_json_pointer :: "string \<Rightarrow> (path_segment list, path_error) result" where
  "parse_json_pointer path =
     (if path = ''/'' then Ok []
      else Ok (map (\<lambda>segment. parse_segment (decode_json_pointer_segment segment))
             (split_on (CHR ''/'') (dropWhile (\<lambda>c. c = CHR ''/'') path))))"

definition parse_path :: "string \<Rightarrow> (path_segment list, path_error) result" where
  "parse_path path =
     (if path = [] then Ok []
      else if hd path = CHR ''/'' then parse_json_pointer path
      else parse_dot_path path)"

fun segment_text :: "path_segment \<Rightarrow> string" where
  "segment_text (Field name) = name"
| "segment_text (Index i) = show_nat i"
| "segment_text Append = ''-''"

definition segments_to_dot :: "path_segment list \<Rightarrow> string" where
  "segments_to_dot segments = join ''.'' (map segment_text segments)"

section \<open>Reading and writing\<close>

text \<open>\<open>seen\<close> holds the segments already followed; messages show them with the current one.\<close>

fun get_segments_from ::
  "'f debug \<Rightarrow> string \<Rightarrow> path_segment list \<Rightarrow> 'f unknown \<Rightarrow> path_segment list
    \<Rightarrow> ('f unknown, path_error) result" where
  "get_segments_from dbg path seen current [] = Ok current"
| "get_segments_from dbg path seen current (segment # rest) =
     (let partial = segments_to_dot (seen @ [segment]);
          onward = (\<lambda>v. get_segments_from dbg path (seen @ [segment]) v rest)
      in case (current, segment) of
           (Object m, Field name) \<Rightarrow> (case bt_get m name of
              Some v \<Rightarrow> onward v
            | None \<Rightarrow> Err (path_error_new partial (''missing field `'' @ name @ ''`'')))
         | (Array items, Index i) \<Rightarrow>
             (if i < length items then onward (items ! i)
              else Err (path_error_new partial (''index '' @ show_nat i @ '' out of bounds'')))
         | (Array _, Append) \<Rightarrow> Err (path_error_new path ''append segment is not readable'')
         | (other, Field name) \<Rightarrow> Err (path_error_new partial
             (''cannot traverse '' @ dbg_value dbg other @ '' for field `'' @ name @ ''`''))
         | (other, Index i) \<Rightarrow> Err (path_error_new partial
             (''cannot traverse '' @ dbg_value dbg other @ '' at index '' @ show_nat i))
         | (other, Append) \<Rightarrow> Err (path_error_new partial
             (''cannot traverse '' @ dbg_value dbg other @ '' for append segment'')))"

definition get_at_segments ::
  "'f debug \<Rightarrow> 'f unknown \<Rightarrow> path_segment list \<Rightarrow> string \<Rightarrow> ('f unknown, path_error) result" where
  "get_at_segments dbg value segments path = get_segments_from dbg path [] value segments"

definition get_at_path :: "'f debug \<Rightarrow> 'f unknown \<Rightarrow> string \<Rightarrow> ('f unknown, path_error) result" where
  "get_at_path dbg value path =
     (if path = [] then Ok value
      else result_bind (parse_path path) (\<lambda>segments. get_at_segments dbg value segments path))"

definition assign_segment ::
  "'f debug \<Rightarrow> 'f unknown \<Rightarrow> path_segment \<Rightarrow> 'f unknown \<Rightarrow> string \<Rightarrow> bool
    \<Rightarrow> ('f unknown, path_error) result" where
  "assign_segment dbg parent segment new_value path allow_append = (case (parent, segment) of
     (Object m, Field name) \<Rightarrow> Ok (Object (bt_insert name new_value m))
   | (Array items, Index i) \<Rightarrow>
       (if length items < i \<or> (\<not> allow_append \<and> length items \<le> i)
        then Err (path_error_new path (''index '' @ show_nat i @ '' out of bounds''))
        else if i = length items then Ok (Array (items @ [new_value]))
        else Ok (Array (items[i := new_value])))
   | (Array items, Append) \<Rightarrow>
       (if \<not> allow_append then Err (path_error_new path ''append segment is not settable'')
        else Ok (Array (items @ [new_value])))
   | (other, segment) \<Rightarrow> Err (path_error_new path
       (''cannot set '' @ dbg_segment dbg segment @ '' on '' @ dbg_value dbg other)))"

definition default_container_for :: "path_segment \<Rightarrow> 'f unknown" where
  "default_container_for segment = (case segment of
     Field _ \<Rightarrow> Object [] | Index _ \<Rightarrow> Array [] | Append \<Rightarrow> Array [])"

function set_at_segments ::
  "'f debug \<Rightarrow> 'f unknown \<Rightarrow> path_segment list \<Rightarrow> 'f unknown \<Rightarrow> string
    \<Rightarrow> ('f unknown, path_error) result" where
  "set_at_segments dbg value segments new_value path =
     (if segments = [] then Ok new_value
      else let parents = butlast segments in
        result_bind (if parents = [] then Ok value else get_at_segments dbg value parents path) (\<lambda>parent.
        result_bind (assign_segment dbg parent (last segments) new_value path False) (\<lambda>updated.
        if parents = [] then Ok updated else set_at_segments dbg value parents updated path)))"
  by auto

termination set_at_segments
  by (relation "measure (\<lambda>(dbg, value, segments, new_value, path). length segments)") auto

function create_at_segments ::
  "'f debug \<Rightarrow> 'f unknown \<Rightarrow> path_segment list \<Rightarrow> 'f unknown \<Rightarrow> string
    \<Rightarrow> ('f unknown, path_error) result" where
  "create_at_segments dbg value segments new_value path =
     (if segments = [] then Ok new_value
      else let parents = butlast segments in
        result_bind
          (if parents = [] then Ok value
           else (case get_at_segments dbg value parents path of
                   Inr parent \<Rightarrow> Ok parent
                 | Inl _ \<Rightarrow>
                     result_bind (create_at_segments dbg value parents
                         (default_container_for (last segments)) path)
                       (\<lambda>ensured. get_at_segments dbg ensured parents path))) (\<lambda>parent.
        result_bind (assign_segment dbg parent (last segments) new_value path True) (\<lambda>updated.
        if parents = [] then Ok updated else create_at_segments dbg value parents updated path)))"
  by auto

termination create_at_segments
  by (relation "measure (\<lambda>(dbg, value, segments, new_value, path). length segments)") auto

declare set_at_segments.simps [simp del] create_at_segments.simps [simp del]

definition set_at_path ::
  "'f debug \<Rightarrow> 'f unknown \<Rightarrow> string \<Rightarrow> 'f unknown \<Rightarrow> ('f unknown, path_error) result" where
  "set_at_path dbg value path new_value =
     (if path = [] then Ok new_value
      else result_bind (parse_path path) (\<lambda>segments. set_at_segments dbg value segments new_value path))"

definition create_at_path ::
  "'f debug \<Rightarrow> 'f unknown \<Rightarrow> string \<Rightarrow> 'f unknown \<Rightarrow> ('f unknown, path_error) result" where
  "create_at_path dbg value path new_value =
     (if path = [] then Ok new_value
      else result_bind (parse_path path) (\<lambda>segments. create_at_segments dbg value segments new_value path))"

definition object :: "(string \<times> 'f unknown) list \<Rightarrow> 'f unknown" where
  "object kvs = Object (bt_from_list kvs)"

section \<open>JSON Patch\<close>

datatype 'f patch_op =
    Add string "'f unknown"
  | Replace string "'f unknown"
  | Remove string
  | Move string string
  | Copy string string
  | Test string "'f unknown"

datatype patch_error = Path path_error | Missing string string

definition path_result :: "('a, path_error) result \<Rightarrow> ('a, patch_error) result" where
  "path_result x = result_map_err Path x"

text \<open>The derived \<open>PartialEq\<close> of \<open>Unknown\<close>.\<close>

fun unknown_eq :: "('f \<Rightarrow> 'f \<Rightarrow> bool) \<Rightarrow> 'f unknown \<Rightarrow> 'f unknown \<Rightarrow> bool"
  and unknowns_eq :: "('f \<Rightarrow> 'f \<Rightarrow> bool) \<Rightarrow> 'f unknown list \<Rightarrow> 'f unknown list \<Rightarrow> bool"
  and entries_eq :: "('f \<Rightarrow> 'f \<Rightarrow> bool) \<Rightarrow> (string \<times> 'f unknown) list \<Rightarrow> (string \<times> 'f unknown) list \<Rightarrow> bool" where
  "unknown_eq f_eq Null Null = True"
| "unknown_eq f_eq (Bool a) (Bool b) = (a = b)"
| "unknown_eq f_eq (I64 a) (I64 b) = (a = b)"
| "unknown_eq f_eq (F64 a) (F64 b) = f_eq a b"
| "unknown_eq f_eq (String a) (String b) = (a = b)"
| "unknown_eq f_eq (Array a) (Array b) = unknowns_eq f_eq a b"
| "unknown_eq f_eq (Object a) (Object b) = entries_eq f_eq a b"
| "unknown_eq f_eq _ _ = False"
| "unknowns_eq f_eq [] [] = True"
| "unknowns_eq f_eq (a # as) (b # bs) = (unknown_eq f_eq a b \<and> unknowns_eq f_eq as bs)"
| "unknowns_eq f_eq _ _ = False"
| "entries_eq f_eq [] [] = True"
| "entries_eq f_eq ((k, a) # as) ((j, b) # bs) = (k = j \<and> unknown_eq f_eq a b \<and> entries_eq f_eq as bs)"
| "entries_eq f_eq _ _ = False"

definition apply_replace ::
  "'f debug \<Rightarrow> 'f unknown \<Rightarrow> string \<Rightarrow> 'f unknown \<Rightarrow> ('f unknown, patch_error) result" where
  "apply_replace dbg doc path value =
     result_bind (path_result (get_at_path dbg doc path)) (\<lambda>_.
     path_result (set_at_path dbg doc path value))"

definition apply_add ::
  "'f debug \<Rightarrow> 'f unknown \<Rightarrow> string \<Rightarrow> 'f unknown \<Rightarrow> ('f unknown, patch_error) result" where
  "apply_add dbg doc path value =
     (if path = [] then Ok value
      else (case get_at_path dbg doc path of
              Inr _ \<Rightarrow> apply_replace dbg doc path value
            | Inl _ \<Rightarrow> path_result (create_at_path dbg doc path value)))"

definition remove_index :: "nat \<Rightarrow> 'a list \<Rightarrow> 'a list" where
  "remove_index i xs = take i xs @ drop (Suc i) xs"

definition remove_segment ::
  "'f debug \<Rightarrow> string \<Rightarrow> 'f unknown \<Rightarrow> path_segment \<Rightarrow> ('f unknown, patch_error) result" where
  "remove_segment dbg path parent segment = (case (parent, segment) of
     (Object m, Field name) \<Rightarrow>
       (if bt_get m name = None then Err (Missing path (''missing field `'' @ name @ ''`''))
        else Ok (Object (bt_remove name m)))
   | (Array items, Index i) \<Rightarrow>
       (if length items \<le> i then Err (Missing path (''index '' @ show_nat i @ '' out of bounds''))
        else Ok (Array (remove_index i items)))
   | (other, segment) \<Rightarrow> Err (Missing path
       (''cannot remove '' @ dbg_segment dbg segment @ '' from '' @ dbg_value dbg other)))"

definition apply_remove :: "'f debug \<Rightarrow> 'f unknown \<Rightarrow> string \<Rightarrow> ('f unknown, patch_error) result" where
  "apply_remove dbg doc path =
     (if path = [] then Err (Missing path ''cannot remove document root'')
      else result_bind (path_result (parse_path path)) (\<lambda>segments.
        if segments = [] then Err (Missing path ''cannot remove document root'')
        else let parents = butlast segments; parent_path = segments_to_dot parents in
          result_bind (if parents = [] then Ok doc else path_result (get_at_path dbg doc parent_path)) (\<lambda>parent.
          result_bind (remove_segment dbg path parent (last segments)) (\<lambda>updated.
          if parents = [] then Ok updated else path_result (set_at_path dbg doc parent_path updated)))))"

definition apply_move :: "'f debug \<Rightarrow> 'f unknown \<Rightarrow> string \<Rightarrow> string \<Rightarrow> ('f unknown, patch_error) result" where
  "apply_move dbg doc from path =
     result_bind (path_result (get_at_path dbg doc from)) (\<lambda>value.
     result_bind (apply_remove dbg doc from) (\<lambda>without. apply_add dbg without path value))"

definition apply_copy :: "'f debug \<Rightarrow> 'f unknown \<Rightarrow> string \<Rightarrow> string \<Rightarrow> ('f unknown, patch_error) result" where
  "apply_copy dbg doc from path =
     result_bind (path_result (get_at_path dbg doc from)) (\<lambda>value. apply_add dbg doc path value)"

definition apply_test ::
  "'f debug \<Rightarrow> ('f \<Rightarrow> 'f \<Rightarrow> bool) \<Rightarrow> 'f unknown \<Rightarrow> string \<Rightarrow> 'f unknown \<Rightarrow> ('f unknown, patch_error) result" where
  "apply_test dbg f_eq doc path value =
     result_bind (path_result (get_at_path dbg doc path)) (\<lambda>current.
     if \<not> unknown_eq f_eq current value then Err (Missing path ''test value mismatch'') else Ok doc)"

fun apply_patch ::
  "'f debug \<Rightarrow> ('f \<Rightarrow> 'f \<Rightarrow> bool) \<Rightarrow> 'f unknown \<Rightarrow> 'f patch_op \<Rightarrow> ('f unknown, patch_error) result" where
  "apply_patch dbg f_eq doc (Add path value) = apply_add dbg doc path value"
| "apply_patch dbg f_eq doc (Replace path value) = apply_replace dbg doc path value"
| "apply_patch dbg f_eq doc (Remove path) = apply_remove dbg doc path"
| "apply_patch dbg f_eq doc (Move from path) = apply_move dbg doc from path"
| "apply_patch dbg f_eq doc (Copy from path) = apply_copy dbg doc from path"
| "apply_patch dbg f_eq doc (Test path value) = apply_test dbg f_eq doc path value"

fun apply_patches ::
  "'f debug \<Rightarrow> ('f \<Rightarrow> 'f \<Rightarrow> bool) \<Rightarrow> 'f unknown \<Rightarrow> 'f patch_op list \<Rightarrow> ('f unknown, patch_error) result" where
  "apply_patches dbg f_eq doc [] = Ok doc"
| "apply_patches dbg f_eq doc (op # ops) =
     result_bind (apply_patch dbg f_eq doc op) (\<lambda>doc'. apply_patches dbg f_eq doc' ops)"

section \<open>References\<close>

text \<open>
  The part of a document at a path, and two ways of writing there, by recursion on the path:
  \<open>update\<close> needs every container on the way, \<open>grow\<close> makes the missing ones.
\<close>

fun lookup :: "'f unknown \<Rightarrow> path_segment list \<Rightarrow> 'f unknown option" where
  "lookup v [] = Some v"
| "lookup (Object m) (Field n # r) = Option.bind (bt_get m n) (\<lambda>c. lookup c r)"
| "lookup (Array xs) (Index i # r) = (if i < length xs then lookup (xs ! i) r else None)"
| "lookup _ (_ # _) = None"

fun update :: "'f unknown \<Rightarrow> path_segment list \<Rightarrow> 'f unknown \<Rightarrow> 'f unknown option" where
  "update v [] x = Some x"
| "update (Object m) (Field n # r) x = map_option (\<lambda>c. Object (bt_insert n c m))
     (if r = [] then Some x else Option.bind (bt_get m n) (\<lambda>c. update c r x))"
| "update (Array xs) (Index i # r) x =
     (if i < length xs then map_option (\<lambda>c. Array (xs[i := c])) (update (xs ! i) r x) else None)"
| "update _ (_ # _) x = None"

function grow :: "'f unknown \<Rightarrow> path_segment list \<Rightarrow> 'f unknown \<Rightarrow> 'f unknown option" where
  "grow v [] x = Some x"
| "grow (Object m) (Field n # r) x = map_option (\<lambda>c. Object (bt_insert n c m))
     (case bt_get m n of
        Some c \<Rightarrow> grow c r x
      | None \<Rightarrow> grow (if r = [] then Null else default_container_for (hd r)) r x)"
| "grow (Array xs) (Index i # r) x =
     (if i < length xs then map_option (\<lambda>c. Array (xs[i := c])) (grow (xs ! i) r x)
      else if i = length xs
      then map_option (\<lambda>c. Array (xs @ [c])) (grow (if r = [] then Null else default_container_for (hd r)) r x)
      else None)"
| "grow (Array xs) (Append # r) x = (if r = [] then Some (Array (xs @ [x])) else None)"
| "grow (Object m) (Index i # r) x = None"
| "grow (Object m) (Append # r) x = None"
| "grow (Array xs) (Field n # r) x = None"
| "grow Null (_ # _) x = None"
| "grow (Bool _) (_ # _) x = None"
| "grow (I64 _) (_ # _) x = None"
| "grow (F64 _) (_ # _) x = None"
| "grow (String _) (_ # _) x = None"
  by pat_completeness auto

termination grow
  by (relation "measure (\<lambda>(v, segs, x). length segs)") auto

definition assigned :: "'f unknown \<Rightarrow> path_segment \<Rightarrow> 'f unknown \<Rightarrow> bool \<Rightarrow> 'f unknown option" where
  "assigned parent segment x ext = (case (parent, segment) of
     (Object m, Field n) \<Rightarrow> Some (Object (bt_insert n x m))
   | (Array xs, Index i) \<Rightarrow>
       (if i < length xs then Some (Array (xs[i := x]))
        else if ext \<and> i = length xs then Some (Array (xs @ [x])) else None)
   | (Array xs, Append) \<Rightarrow> if ext then Some (Array (xs @ [x])) else None
   | _ \<Rightarrow> None)"

definition ok_of :: "('a, 'e) result \<Rightarrow> 'a option" where
  "ok_of x = (case x of Inr a \<Rightarrow> Some a | Inl _ \<Rightarrow> None)"

lemma ok_of_simps [simp]:
  "ok_of (Ok a) = Some a" "ok_of (Err e) = None" "ok_of (result_bind x f) = Option.bind (ok_of x) (\<lambda>a. ok_of (f a))"
  by (simp_all add: ok_of_def result_bind_def split: sum.split)

lemma ok_of_Some: "ok_of x = Some a \<longleftrightarrow> x = Ok a"
  by (cases x) auto

lemma ok_of_get: "ok_of (get_segments_from dbg path seen v segs) = lookup v segs"
proof (induction v segs arbitrary: seen rule: lookup.induct)
  case (2 m n r)
  then show ?case by (cases "bt_get m n") simp_all
qed (auto simp: Let_def split: path_segment.split unknown.split)

lemma ok_of_get_at [simp]: "ok_of (get_at_segments dbg v segs path) = lookup v segs"
  by (simp add: get_at_segments_def ok_of_get)

lemma ok_of_assign [simp]: "ok_of (assign_segment dbg p seg x path ext) = assigned p seg x ext"
  by (auto simp: assign_segment_def assigned_def split: unknown.split path_segment.split)

lemma ok_of_if [simp]: "ok_of (if b then x else y) = (if b then ok_of x else ok_of y)"
  by simp

lemma set_snoc:
  "ok_of (set_at_segments dbg v (segs @ [seg]) x path) =
     Option.bind (lookup v segs) (\<lambda>p. Option.bind (assigned p seg x False) (\<lambda>u. ok_of (set_at_segments dbg v segs u path)))"
  by (subst set_at_segments.simps) (auto simp: Let_def set_at_segments.simps [of dbg v "[]"])

lemma create_snoc:
  "ok_of (create_at_segments dbg v (segs @ [seg]) x path) =
     Option.bind (case lookup v segs of Some p \<Rightarrow> Some p | None \<Rightarrow>
        Option.bind (ok_of (create_at_segments dbg v segs (default_container_for seg) path)) (\<lambda>e. lookup e segs))
      (\<lambda>p. Option.bind (assigned p seg x True) (\<lambda>u. ok_of (create_at_segments dbg v segs u path)))"
proof (cases "segs = []")
  case True
  then show ?thesis
    by (subst create_at_segments.simps) (simp add: Let_def create_at_segments.simps [of dbg v "[]"])
next
  case False
  have "ok_of (case get_at_segments dbg v segs path of Inr parent \<Rightarrow> Ok parent
      | Inl _ \<Rightarrow> result_bind (create_at_segments dbg v segs (default_container_for seg) path)
           (\<lambda>ensured. get_at_segments dbg ensured segs path)) =
    (case lookup v segs of Some p \<Rightarrow> Some p | None \<Rightarrow>
        Option.bind (ok_of (create_at_segments dbg v segs (default_container_for seg) path)) (\<lambda>e. lookup e segs))"
    using ok_of_get_at [of dbg v segs path] by (cases "get_at_segments dbg v segs path") (auto split: option.split)
  with False show ?thesis by (subst create_at_segments.simps) (simp add: Let_def cong: sum.case_cong)
qed

lemma update_single: "update v [seg] x = assigned v seg x False"
  by (cases v; cases seg) (auto simp: assigned_def)

lemma update_snoc:
  "update v (segs @ [seg]) x =
     Option.bind (lookup v segs) (\<lambda>p. Option.bind (assigned p seg x False) (\<lambda>u. update v segs u))"
proof (induction v segs x rule: update.induct)
  case (2 m n r x)
  show ?case
  proof (cases "bt_get m n")
    case (Some c)
    then show ?thesis
      using 2 [of c] by (cases "r = []") (auto simp: update_single assigned_def [of "Object m"] split: bind_split option.split)
  qed simp
next
  case (3 xs i r x)
  then show ?case by (auto split: bind_split)
qed (simp_all add: update_single)

lemma set_reference: "ok_of (set_at_segments dbg v segs x path) = update v segs x"
proof (induction segs arbitrary: x rule: rev_induct)
  case Nil
  show ?case by (simp add: set_at_segments.simps)
next
  case (snoc seg segs)
  show ?case by (simp add: set_snoc update_snoc snoc.IH)
qed

lemma grow_single: "grow v [seg] x = assigned v seg x True"
  by (cases v; cases seg) (auto simp: assigned_def split: option.split)

lemma lookup_default: "segs \<noteq> [] \<Longrightarrow> lookup (default_container_for (hd segs)) segs = None"
  by (cases segs; cases "hd segs") (simp_all add: default_container_for_def bt_get_def)

definition parent_of :: "'f unknown \<Rightarrow> path_segment list \<Rightarrow> path_segment \<Rightarrow> 'f unknown option" where
  "parent_of v segs seg = (case lookup v segs of Some p \<Rightarrow> Some p | None \<Rightarrow>
     Option.bind (grow v segs (default_container_for seg)) (\<lambda>e. lookup e segs))"

lemma parent_of_fresh:
  "segs \<noteq> [] \<Longrightarrow> parent_of (default_container_for (hd segs)) segs seg =
     Option.bind (grow (default_container_for (hd segs)) segs (default_container_for seg)) (\<lambda>e. lookup e segs)"
  by (simp add: parent_of_def lookup_default)

lemma bind_map_option: "Option.bind (map_option f x) g = Option.bind x (\<lambda>a. g (f a))"
  by (cases x) auto

lemma map_option_bind: "map_option f (Option.bind x g) = Option.bind x (\<lambda>a. map_option f (g a))"
  by (cases x) auto

lemma grow_snoc:
  "grow v (segs @ [seg]) x =
     Option.bind (parent_of v segs seg) (\<lambda>p. Option.bind (assigned p seg x True) (\<lambda>u. grow v segs u))"
proof (induction v segs x rule: grow.induct)
  case (1 v x)
  show ?case by (simp add: grow_single parent_of_def)
next
  case (2 m n r x)
  show ?case
  proof (cases "bt_get m n")
    case (Some c)
    have "parent_of (Object m) (Field n # r) seg = parent_of c r seg"
      using Some by (simp add: parent_of_def bind_map_option bt_get_insert cong: option.case_cong)
    with Some 2(2) [OF Some] show ?thesis by (simp add: map_option_bind)
  next
    case None
    show ?thesis
    proof (cases "r = []")
      case True
      with None show ?thesis
        by (cases "assigned (default_container_for seg) seg x True")
          (simp_all add: parent_of_def bind_map_option bt_get_insert grow_single assigned_def [of "Object m"])
    next
      case False
      have "parent_of (Object m) (Field n # r) seg = parent_of (default_container_for (hd r)) r seg"
        using None False by (simp add: parent_of_fresh) (simp add: parent_of_def bind_map_option bt_get_insert)
      with None False 2(1) [OF None] show ?thesis by (simp add: map_option_bind)
    qed
  qed
next
  case (3 xs i r x)
  consider "i < length xs" | "i = length xs" | "length xs < i" by linarith
  then show ?case
  proof cases
    case 1
    then have "parent_of (Array xs) (Index i # r) seg = parent_of (xs ! i) r seg"
      by (simp add: parent_of_def bind_map_option cong: option.case_cong)
    with 1 3(1) [OF 1] show ?thesis by (simp add: map_option_bind)
  next
    case 2
    show ?thesis
    proof (cases "r = []")
      case True
      with 2 show ?thesis
        by (cases "assigned (default_container_for seg) seg x True")
          (simp_all add: parent_of_def bind_map_option grow_single assigned_def [of "Array xs"])
    next
      case False
      have "parent_of (Array xs) (Index i # r) seg = parent_of (default_container_for (hd r)) r seg"
        using 2 False by (simp add: parent_of_fresh) (simp add: parent_of_def bind_map_option)
      with 2 False 3(2) show ?thesis by (simp add: map_option_bind)
    qed
  qed (simp add: parent_of_def)
next
  case (4 xs r x)
  show ?case by (simp add: parent_of_def)
qed (simp_all add: parent_of_def)

lemma create_reference: "ok_of (create_at_segments dbg v segs x path) = grow v segs x"
proof (induction segs arbitrary: x rule: rev_induct)
  case Nil
  show ?case by (simp add: create_at_segments.simps)
next
  case (snoc seg segs)
  show ?case by (simp add: create_snoc grow_snoc parent_of_def snoc.IH cong: option.case_cong)
qed

section \<open>Laws of reading and writing\<close>

text \<open>Every object of the document has its keys in order.\<close>

fun doc_ok :: "'f unknown \<Rightarrow> bool" where
  "doc_ok (Array us) \<longleftrightarrow> (\<forall>u \<in> set us. doc_ok u)"
| "doc_ok (Object m) \<longleftrightarrow> bt_ok m \<and> (\<forall>u \<in> snd ` set m. doc_ok u)"
| "doc_ok _ \<longleftrightarrow> True"

lemma doc_ok_get: "doc_ok (Object m) \<Longrightarrow> bt_get m n = Some c \<Longrightarrow> doc_ok c"
  by (force simp: bt_get_def dest: map_of_SomeD)

lemma doc_ok_insert: "doc_ok (Object m) \<Longrightarrow> doc_ok c \<Longrightarrow> doc_ok (Object (bt_insert n c m))"
  using bt_insert_values [of n c m] by (auto simp: bt_insert_ok subset_iff) force

lemma doc_ok_update_list: "doc_ok (Array xs) \<Longrightarrow> doc_ok c \<Longrightarrow> doc_ok (Array (xs[i := c]))"
  using set_update_subset_insert [of xs i c] by auto

lemma doc_ok_default [simp]: "doc_ok (default_container_for seg)"
  by (cases seg) (simp_all add: default_container_for_def bt_ok_def)

text \<open>Paths that part at some segment.\<close>

fun independent :: "path_segment list \<Rightarrow> path_segment list \<Rightarrow> bool" where
  "independent (a # p) (b # q) \<longleftrightarrow> a \<noteq> b \<or> independent p q"
| "independent _ _ \<longleftrightarrow> False"

lemma update_get: "update v segs x = Some v' \<Longrightarrow> lookup v' segs = Some x"
  by (induction v segs x arbitrary: v' rule: update.induct)
    (auto simp: bt_get_insert bind_eq_Some_conv split: if_splits)

lemma update_same: "doc_ok v \<Longrightarrow> lookup v segs = Some x \<Longrightarrow> update v segs x = Some v"
proof (induction v segs x rule: update.induct)
  case (2 m n r x)
  then obtain c where c: "bt_get m n = Some c" "lookup c r = Some x" by (auto simp: bind_eq_Some_conv)
  have "bt_insert n c m = m" using 2(2) c(1) by (simp add: bt_insert_same)
  moreover have "r \<noteq> [] \<Longrightarrow> update c r x = Some c"
    using 2(1) [OF _ c(1) doc_ok_get [OF 2(2) c(1)] c(2)] .
  ultimately show ?case using c by (cases "r = []") simp_all
next
  case (3 xs i r x)
  then show ?case by (auto split: if_splits)
qed simp_all

lemma update_defined: "lookup v segs \<noteq> None \<Longrightarrow> update v segs x \<noteq> None"
  by (induction v segs x rule: update.induct) (auto simp: bind_eq_Some_conv split: if_splits)

lemma update_frame: "update v segs x = Some v' \<Longrightarrow> independent segs q \<Longrightarrow> lookup v' q = lookup v q"
proof (induction v segs x arbitrary: v' q rule: update.induct)
  case (2 m n r x)
  then show ?case
    by (cases q; cases "hd q") (auto simp: bt_get_insert bind_eq_Some_conv split: if_splits)
next
  case (3 xs i r x)
  then show ?case
    by (cases q; cases "hd q") (auto simp: nth_list_update split: if_splits)
qed simp_all

lemma update_ok: "update v segs x = Some v' \<Longrightarrow> doc_ok v \<Longrightarrow> doc_ok x \<Longrightarrow> doc_ok v'"
proof (induction v segs x arbitrary: v' rule: update.induct)
  case (2 m n r x)
  show ?case
  proof (cases "r = []")
    case True
    with 2(2-) show ?thesis by (auto intro!: doc_ok_insert simp del: doc_ok.simps)
  next
    case False
    with 2(2-) obtain c c' where "bt_get m n = Some c" "update c r x = Some c'" "v' = Object (bt_insert n c' m)"
      by (auto simp: bind_eq_Some_conv)
    with 2(1) [OF False _ _ doc_ok_get [OF 2(3)]] 2(3,4) show ?thesis
      by (auto intro!: doc_ok_insert simp del: doc_ok.simps)
  qed
next
  case (3 xs i r x)
  then show ?case
    by (auto intro!: doc_ok_update_list simp del: doc_ok.simps(1) split: if_splits) auto
qed simp_all

lemma grow_get: "grow v segs x = Some v' \<Longrightarrow> Append \<notin> set segs \<Longrightarrow> lookup v' segs = Some x"
  by (induction v segs x arbitrary: v' rule: grow.induct)
    (auto simp: bt_get_insert bind_eq_Some_conv split: if_splits option.splits)

lemma lookup_empty: "q \<noteq> [] \<Longrightarrow> lookup Null q = None" "q \<noteq> [] \<Longrightarrow> lookup (default_container_for s) q = None"
  by (cases q; cases s; cases "hd q"; simp add: default_container_for_def bt_get_def)+

lemma grow_frame:
  "grow v segs x = Some v' \<Longrightarrow> Append \<notin> set segs \<Longrightarrow> independent segs q \<Longrightarrow> lookup v' q = lookup v q"
proof (induction v segs x arbitrary: v' q rule: grow.induct)
  case (2 m n r x)
  obtain s q' where q: "q = s # q'" using 2(5) by (cases q) auto
  obtain c where c: "v' = Object (bt_insert n c m)"
    and g: "(case bt_get m n of Some c \<Rightarrow> grow c r x
      | None \<Rightarrow> grow (if r = [] then Null else default_container_for (hd r)) r x) = Some c"
    using 2(3) by auto
  show ?case
  proof (cases "s = Field n")
    case True
    with 2(5) q have ind: "independent r q'" by auto
    then have "q' \<noteq> []" "r \<noteq> []" by auto
    with True q c g 2(1,2,4) ind lookup_empty show ?thesis
      by (cases "bt_get m n") (auto simp: bt_get_insert)
  next
    case False
    with q c show ?thesis by (cases s) (auto simp: bt_get_insert)
  qed
next
  case (3 xs i r x)
  obtain s q' where q: "q = s # q'" using 3(5) by (cases q) auto
  show ?case
  proof (cases "s = Index i")
    case True
    with 3(5) q have ind: "independent r q'" by auto
    then have ne: "q' \<noteq> []" "r \<noteq> []" by auto
    show ?thesis
    proof (cases "i < length xs")
      case lt: True
      with 3(3) obtain c where "grow (xs ! i) r x = Some c" "v' = Array (xs[i := c])" by auto
      with 3(1) [OF lt] 3(4) ind lt q True show ?thesis by auto
    next
      case False
      with 3(3) obtain c where i: "i = length xs" "v' = Array (xs @ [c])"
        "grow (if r = [] then Null else default_container_for (hd r)) r x = Some c"
        by (auto split: if_splits)
      with 3(2) [OF False i(1)] 3(4) ind ne q True lookup_empty show ?thesis by auto
    qed
  next
    case False
    with 3(3) q show ?thesis
      by (cases s) (auto simp: nth_list_update nth_append split: if_splits)
  qed
qed simp_all

lemma grow_ok: "grow v segs x = Some v' \<Longrightarrow> doc_ok v \<Longrightarrow> doc_ok x \<Longrightarrow> doc_ok v'"
proof (induction v segs x arbitrary: v' rule: grow.induct)
  case (2 m n r x)
  obtain c where c: "v' = Object (bt_insert n c m)"
    and g: "(case bt_get m n of Some c \<Rightarrow> grow c r x
      | None \<Rightarrow> grow (if r = [] then Null else default_container_for (hd r)) r x) = Some c"
    using 2(3) by auto
  have "doc_ok c"
  proof (cases "bt_get m n")
    case None
    with 2(1) [OF None, of c] g 2(5) show ?thesis by (simp split: if_splits)
  next
    case (Some d)
    with 2(2) [OF Some, of c] g 2(5) doc_ok_get [OF 2(4) Some] show ?thesis by simp
  qed
  with c 2(4) show ?case by (auto intro!: doc_ok_insert simp del: doc_ok.simps)
next
  case (3 xs i r x)
  consider c where "i < length xs" "grow (xs ! i) r x = Some c" "v' = Array (xs[i := c])"
    | c where "\<not> i < length xs" "i = length xs" "v' = Array (xs @ [c])"
        "grow (if r = [] then Null else default_container_for (hd r)) r x = Some c"
    using 3(3) by (auto split: if_splits)
  then show ?case
  proof cases
    case (1 c)
    with 3(1) [OF 1(1,2)] 3(4,5) show ?thesis
      by (auto intro!: doc_ok_update_list simp del: doc_ok.simps(1)) auto
  next
    case (2 c)
    with 3(2) [OF 2(1,2,4)] 3(4,5) show ?thesis by (auto split: if_splits)
  qed
qed (auto split: if_splits)

lemma lookup_ok: "doc_ok v \<Longrightarrow> lookup v segs = Some x \<Longrightarrow> doc_ok x"
proof (induction v segs rule: lookup.induct)
  case (2 m n r)
  then show ?case using doc_ok_get [OF 2(2)] by (auto simp: bind_eq_Some_conv)
qed (auto split: if_splits)

section \<open>Paths as text\<close>

lemma parse_usize_show: "n \<le> u64_max \<Longrightarrow> parse_usize (show_nat n) = Some n"
proof -
  assume "n \<le> u64_max"
  obtain c cs where c: "show_nat n = c # cs" using show_nat_nonempty by (metis list.exhaust)
  then have "c \<noteq> CHR ''+''" using show_nat_chars [of n] by auto
  with c digits_value_show [of n] \<open>n \<le> u64_max\<close> show ?thesis by (simp add: parse_usize_def)
qed

lemma split_on_no_sep: "c \<notin> set s \<Longrightarrow> split_on c s = [s]"
  by (induction s) auto

lemma split_on_append: "c \<notin> set s \<Longrightarrow> split_on c (s @ c # t) = s # split_on c t"
  by (induction s) auto

lemma split_join:
  "names \<noteq> [] \<Longrightarrow> \<forall>n \<in> set names. c \<notin> set n \<Longrightarrow> split_on c (join [c] names) = names"
  by (induction "[c]" names rule: join.induct) (auto simp: split_on_no_sep split_on_append)

text \<open>Segments whose text stands for themselves.\<close>

fun plain_segment :: "path_segment \<Rightarrow> bool" where
  "plain_segment (Field n) \<longleftrightarrow> CHR ''.'' \<notin> set n \<and> n \<noteq> ''-'' \<and> parse_usize n = None"
| "plain_segment (Index i) \<longleftrightarrow> i \<le> u64_max"
| "plain_segment Append \<longleftrightarrow> True"

definition plain_path :: "path_segment list \<Rightarrow> bool" where
  "plain_path segs \<longleftrightarrow> (\<forall>s \<in> set segs. plain_segment s) \<and>
     (segs \<noteq> [] \<longrightarrow> segs \<noteq> [Field []] \<and> (\<forall>n. segment_text (hd segs) \<noteq> CHR ''/'' # n))"

lemma parse_segment_text: "plain_segment s \<Longrightarrow> parse_segment (segment_text s) = s"
proof (cases s)
  case (Index i)
  then have "segment_text s \<noteq> ''-''" using show_nat_chars [of i] by (auto simp del: insert_iff)
  moreover assume "plain_segment s"
  ultimately show ?thesis using Index by (simp add: parse_segment_def parse_usize_show)
qed (simp_all add: parse_segment_def)


lemma segment_text_no_dot: "plain_segment s \<Longrightarrow> CHR ''.'' \<notin> set (segment_text s)"
  using show_nat_chars by (cases s) auto

lemma parse_segments_to_dot:
  assumes "plain_path segs"
  shows "parse_path (segments_to_dot segs) = Ok segs"
proof (cases segs)
  case Nil
  then show ?thesis by (simp add: parse_path_def segments_to_dot_def)
next
  case (Cons s ss)
  let ?names = "map segment_text segs"
  have split: "split_on (CHR ''.'') (segments_to_dot segs) = ?names"
    unfolding segments_to_dot_def
    by (rule split_join) (use assms Cons in \<open>auto simp: plain_path_def segment_text_no_dot\<close>)
  have texts: "map parse_segment ?names = segs"
    using assms by (simp add: plain_path_def parse_segment_text map_idI)
  have "segments_to_dot segs \<noteq> []"
  proof
    assume empty: "segments_to_dot segs = []"
    with split have "?names = [[]]" by simp
    with texts have "segs = [parse_segment []]" by (metis list.simps(8,9))
    then show False using assms by (simp add: parse_segment_def parse_usize_def plain_path_def)
  qed
  moreover have "hd (segments_to_dot segs) \<noteq> CHR ''/''"
  proof -
    have "segment_text s = [] \<or> hd (segment_text s) \<noteq> CHR ''/''"
      using assms Cons by (cases "segment_text s") (auto simp: plain_path_def)
    moreover have "segments_to_dot segs = segment_text s @ (if ss = [] then [] else ''.'' @ segments_to_dot ss)"
      using Cons by (cases ss) (simp_all add: segments_to_dot_def)
    ultimately show ?thesis using \<open>segments_to_dot segs \<noteq> []\<close>
      by (cases "segment_text s") (auto split: if_splits)
  qed
  ultimately show ?thesis using split texts by (simp add: parse_path_def parse_dot_path_def)
qed

definition path_segments :: "string \<Rightarrow> path_segment list" where
  "path_segments path = (case parse_path path of Inr segs \<Rightarrow> segs | Inl _ \<Rightarrow> [])"

lemma parse_path_total: "parse_path path = Ok (path_segments path)"
  by (simp add: path_segments_def parse_path_def parse_json_pointer_def parse_dot_path_def)

lemma path_segments_Nil [simp]: "path_segments [] = []"
  by (simp add: path_segments_def parse_path_def)

lemma ok_of_paths [simp]:
  "ok_of (get_at_path dbg v path) = lookup v (path_segments path)"
  "ok_of (set_at_path dbg v path x) = update v (path_segments path) x"
  "ok_of (create_at_path dbg v path x) = grow v (path_segments path) x"
  by (simp_all add: get_at_path_def set_at_path_def create_at_path_def parse_path_total set_reference
    create_reference)

lemma ok_of_path_result [simp]: "ok_of (path_result x) = ok_of x"
  by (cases x) (simp_all add: path_result_def)

lemma ok_of_replace [simp]:
  "ok_of (apply_replace dbg doc path x) =
     (if lookup doc (path_segments path) = None then None else update doc (path_segments path) x)"
  by (auto simp: apply_replace_def split: bind_split)

lemma ok_of_add [simp]:
  "ok_of (apply_add dbg doc path x) =
     (if lookup doc (path_segments path) = None then grow doc (path_segments path) x
      else update doc (path_segments path) x)"
proof (cases "path = []")
  case False
  have g: "ok_of (get_at_path dbg doc path) = lookup doc (path_segments path)" by simp
  show ?thesis
  proof (cases "get_at_path dbg doc path")
    case (Inl e)
    with g False show ?thesis by (simp add: apply_add_def)
  next
    case (Inr v)
    with g have "lookup doc (path_segments path) = Some v" by simp
    with Inr False show ?thesis by (simp add: apply_add_def)
  qed
qed (simp add: apply_add_def)

section \<open>Patches\<close>

definition removed :: "'f unknown \<Rightarrow> path_segment \<Rightarrow> 'f unknown option" where
  "removed parent segment = (case (parent, segment) of
     (Object m, Field n) \<Rightarrow> if bt_get m n = None then None else Some (Object (bt_remove n m))
   | (Array xs, Index i) \<Rightarrow> if i < length xs then Some (Array (remove_index i xs)) else None
   | _ \<Rightarrow> None)"

lemma ok_of_remove_segment [simp]: "ok_of (remove_segment dbg path p seg) = removed p seg"
  by (auto simp: remove_segment_def removed_def split: unknown.split path_segment.split)

lemma ok_of_remove [simp]:
  "ok_of (apply_remove dbg doc path) =
     (let segs = path_segments path; parents = path_segments (segments_to_dot (butlast segs)) in
      if segs = [] then None
      else if butlast segs = [] then removed doc (last segs)
      else Option.bind (lookup doc parents) (\<lambda>p. Option.bind (removed p (last segs)) (\<lambda>u. update doc parents u)))"
proof -
  have "path_result (parse_path path) = Ok (path_segments path)"
    by (simp add: parse_path_total path_result_def)
  then show ?thesis by (simp add: apply_remove_def Let_def)
qed

lemma removed_ok: "removed p seg = Some u \<Longrightarrow> doc_ok p \<Longrightarrow> doc_ok u"
proof (cases p; cases seg)
  fix m n
  assume "removed p seg = Some u" "doc_ok p" "p = Object m" "seg = Field n"
  then show "doc_ok u"
    by (auto simp: removed_def bt_remove_ok split: if_splits) (auto simp: bt_remove_def)
next
  fix xs i
  assume "removed p seg = Some u" "doc_ok p" "p = Array xs" "seg = Index i"
  then show "doc_ok u"
    by (auto simp: removed_def remove_index_def split: if_splits) (meson in_set_takeD in_set_dropD)+
qed (simp_all add: removed_def)

lemma apply_remove_ok: "apply_remove dbg doc path = Ok d \<Longrightarrow> doc_ok doc \<Longrightarrow> doc_ok d"
proof -
  assume r: "apply_remove dbg doc path = Ok d" and ok: "doc_ok doc"
  define segs where "segs = path_segments path"
  define parents where "parents = path_segments (segments_to_dot (butlast segs))"
  have eq: "ok_of (apply_remove dbg doc path) = (if segs = [] then None
      else if butlast segs = [] then removed doc (last segs)
      else Option.bind (lookup doc parents) (\<lambda>p. Option.bind (removed p (last segs)) (\<lambda>u. update doc parents u)))"
    unfolding segs_def parents_def ok_of_remove Let_def by (rule refl)
  note trans [OF eq [symmetric], of "Some d"]
  then have "segs \<noteq> []" "if butlast segs = [] then removed doc (last segs) = Some d
      else \<exists>p u. lookup doc parents = Some p \<and> removed p (last segs) = Some u \<and> update doc parents u = Some d"
    using r by (simp_all add: bind_eq_Some_conv split: if_splits)
  then consider "removed doc (last segs) = Some d"
    | p u where "lookup doc parents = Some p" "removed p (last segs) = Some u" "update doc parents u = Some d"
    by (metis (full_types))
  then show "doc_ok d"
  proof cases
    case 1
    then show ?thesis using ok by (rule removed_ok)
  next
    case (2 p u)
    from removed_ok [OF 2(2) lookup_ok [OF ok 2(1)]] show ?thesis by (rule update_ok [OF 2(3) ok])
  qed
qed

lemma apply_add_ok: "apply_add dbg doc path x = Ok d \<Longrightarrow> doc_ok doc \<Longrightarrow> doc_ok x \<Longrightarrow> doc_ok d"
  using ok_of_add [of dbg doc path x] by (auto intro: update_ok grow_ok split: if_splits)

lemma apply_replace_ok: "apply_replace dbg doc path x = Ok d \<Longrightarrow> doc_ok doc \<Longrightarrow> doc_ok x \<Longrightarrow> doc_ok d"
  using ok_of_replace [of dbg doc path x] by (auto intro: update_ok split: if_splits)

lemma get_at_path_ok: "get_at_path dbg doc path = Ok x \<Longrightarrow> doc_ok doc \<Longrightarrow> doc_ok x"
  using ok_of_paths(1) [of dbg doc path] by (auto intro: lookup_ok)

fun op_ok :: "'f patch_op \<Rightarrow> bool" where
  "op_ok (Add _ x) \<longleftrightarrow> doc_ok x"
| "op_ok (Replace _ x) \<longleftrightarrow> doc_ok x"
| "op_ok _ \<longleftrightarrow> True"

lemma path_result_Ok [simp]: "path_result x = Ok y \<longleftrightarrow> x = Ok y"
  by (cases x) (simp_all add: path_result_def)

lemma apply_patch_ok: "apply_patch dbg f_eq doc op = Ok d \<Longrightarrow> doc_ok doc \<Longrightarrow> op_ok op \<Longrightarrow> doc_ok d"
  by (cases op)
    (auto simp: apply_move_def apply_copy_def apply_test_def result_bind_Ok split: if_splits
      intro: apply_add_ok apply_replace_ok apply_remove_ok get_at_path_ok)

lemma apply_patches_ok:
  "apply_patches dbg f_eq doc ops = Ok d \<Longrightarrow> doc_ok doc \<Longrightarrow> \<forall>op \<in> set ops. op_ok op \<Longrightarrow> doc_ok d"
  by (induction dbg f_eq doc ops rule: apply_patches.induct) (auto simp: result_bind_Ok intro: apply_patch_ok)

lemma digits_value_dot: "CHR ''.'' \<in> set s \<Longrightarrow> digits_value acc s = None"
  by (induction s arbitrary: acc) (auto simp: digit_value_def split: option.split)

lemma parse_usize_dot: "CHR ''.'' \<in> set s \<Longrightarrow> parse_usize s = None"
proof -
  assume dot: "CHR ''.'' \<in> set s"
  let ?ds = "case s of c # cs \<Rightarrow> if c = CHR ''+'' then cs else s | [] \<Rightarrow> s"
  have "CHR ''.'' \<in> set ?ds" using dot by (cases s) auto
  then show ?thesis by (simp add: parse_usize_def digits_value_dot Let_def)
qed

lemma split_on_pieces: "p \<in> set (split_on c s) \<Longrightarrow> c \<notin> set p"
  by (induction s arbitrary: p) (auto split: if_splits list.splits)

lemma replace_pair_id: "a \<notin> set s \<Longrightarrow> replace_pair a b r s = s"
  by (induction a b r s rule: replace_pair.induct) auto

section \<open>Properties\<close>

text \<open>
  Writing at a path, which walks to the parent, updates it and rewrites every ancestor in turn,
  does what a single descent does: \<open>set_at_segments\<close> succeeds exactly when every container on the
  way is there and then replaces that part alone; \<open>create_at_segments\<close> in addition makes the
  missing objects and arrays, of the kind the next segment asks for.
\<close>

theorem document_writes_by_descent:
  "ok_of (set_at_segments dbg v segs x path) = update v segs x \<and>
   ok_of (create_at_segments dbg v segs x path) = grow v segs x"
  by (simp add: set_reference create_reference)

text \<open>
  Laws of document access. After a successful \<open>set_at_path\<close> the path reads back the new value
  and every path that parts from it reads what it read before; writing back what was read changes
  nothing. The order of object keys is kept.
\<close>

theorem document_access_laws:
  assumes "doc_ok v" "doc_ok x" "set_at_path dbg v path x = Ok v'"
  shows "get_at_path dbg v' path = Ok x \<and> doc_ok v' \<and>
    (\<forall>q y. independent (path_segments path) (path_segments q) \<longrightarrow>
       get_at_path dbg v' q = Ok y \<longleftrightarrow> get_at_path dbg v q = Ok y) \<and>
    (\<forall>y. get_at_path dbg v path = Ok y \<longrightarrow> set_at_path dbg v path y = Ok v)"
proof -
  have u: "update v (path_segments path) x = Some v'"
    using assms(3) ok_of_paths(2) [of dbg v path x] by (simp add: ok_of_Some)
  have get: "get_at_path dbg w q = Ok y \<longleftrightarrow> lookup w (path_segments q) = Some y" for w q y
    by (simp flip: ok_of_Some)
  show ?thesis
    using update_get [OF u] update_ok [OF u assms(1,2)] update_frame [OF u] update_same [OF assms(1)]
    by (simp add: get) (simp flip: ok_of_Some)
qed

text \<open>A debug rendering for the examples.\<close>

definition no_debug :: "'f debug" where
  "no_debug = \<lparr>dbg_value = \<lambda>_. [], dbg_segment = \<lambda>_. []\<rparr>"

lemma document_access_laws_witness:
  "get_at_path no_debug (Object [(''a'', Bool True)]) ''a'' = Ok (Bool True :: unit unknown)"
proof -
  have segs: "path_segments ''a'' = [Field ''a'']" by code_simp
  have "set_at_path no_debug (Object [(''a'', Null)]) ''a'' (Bool True :: unit unknown) =
      Ok (Object [(''a'', Bool True)])"
    unfolding ok_of_Some [symmetric] ok_of_paths segs by simp
  from document_access_laws [OF _ _ this] show ?thesis by (simp add: bt_ok_def)
qed

text \<open>
  A path printed in the dotted notation parses back to its segments, whenever the segments are
  ones the notation can express: field names without a dot that are not a number or a dash, indices
  that fit a \<open>usize\<close>, and a first segment that does not look like a pointer.
\<close>

theorem dotted_path_round_trip:
  assumes "plain_path segs"
  shows "parse_path (segments_to_dot segs) = Ok segs"
  using assms by (rule parse_segments_to_dot)

lemma dotted_path_round_trip_witness:
  "parse_path (segments_to_dot [Field ''user'', Field ''tags'', Index 12, Append]) =
     Ok [Field ''user'', Field ''tags'', Index 12, Append]"
proof (rule dotted_path_round_trip)
  have "parse_usize ''user'' = None" "parse_usize ''tags'' = None" by code_simp+
  then show "plain_path [Field ''user'', Field ''tags'', Index 12, Append]"
    by (simp add: plain_path_def u64_max_def)
qed

text \<open>
  A sequence of patches that applies keeps the document well-formed, and what an \<open>Add\<close> put at a
  readable path is what a following \<open>Test\<close> of that path finds, whether the value replaced an
  existing one or containers had to be created for it.
\<close>

theorem patched_documents:
  assumes "doc_ok doc" "\<forall>op \<in> set ops. op_ok op" "doc_ok x" "apply_patches dbg f_eq doc ops = Ok d"
    and "apply_patch dbg f_eq d (Add path x) = Ok d'" "Append \<notin> set (path_segments path)" "unknown_eq f_eq x x"
  shows "doc_ok d \<and> doc_ok d' \<and> apply_patch dbg f_eq d' (Test path x) = Ok d'"
proof -
  have d: "doc_ok d" using apply_patches_ok assms(1,2,4) by blast
  have "ok_of (apply_add dbg d path x) = Some d'" using assms(5) by simp
  then have "lookup d' (path_segments path) = Some x"
    using assms(6) by (simp add: update_get grow_get split: if_splits)
  then have "get_at_path dbg d' path = Ok x" by (simp flip: ok_of_Some)
  with d assms(3,5,7) show ?thesis by (simp add: apply_test_def path_result_def apply_add_ok)
qed

lemma patched_documents_witness:
  "apply_patch no_debug (\<lambda>_ _. True) (Object [(''a'', Array [Null])]) (Test ''a.0'' Null) =
     Ok (Object [(''a'', Array [Null :: unit unknown])])"
proof -
  have "parse_usize ''a'' = None" by code_simp
  then have "plain_path [Field ''a'', Index 0]" by (simp add: plain_path_def)
  from parse_segments_to_dot [OF this] have segs: "path_segments ''a.0'' = [Field ''a'', Index 0]"
    by (simp add: path_segments_def segments_to_dot_def show_nat_digits)
  have "apply_add no_debug (Object []) ''a.0'' (Null :: unit unknown) = Ok (Object [(''a'', Array [Null])])"
    unfolding ok_of_Some [symmetric] ok_of_add segs by (simp add: bt_get_def default_container_for_def)
  then show ?thesis
    using patched_documents [of "Object []" "[]" "Null :: unit unknown" no_debug "\<lambda>_ _. True" "Object []"
        "''a.0''" "Object [(''a'', Array [Null])]"]
    by (simp add: bt_ok_def segs)
qed

text \<open>
  \<open>Remove\<close> turns the parents of a pointer into a dotted path and parses that again, so a pointer
  through a key that contains a dot can be read but not removed.
\<close>

theorem remove_misses_dotted_keys:
  assumes "CHR ''.'' \<in> set k" "CHR ''/'' \<notin> set (k @ f)" "CHR ''~'' \<notin> set (k @ f)" "plain_segment (Field f)"
  shows "get_at_path dbg (Object [(k, Object [(f, x)])]) (''/'' @ k @ ''/'' @ f) = Ok x \<and>
    (\<exists>e. apply_remove dbg (Object [(k, Object [(f, x)])]) (''/'' @ k @ ''/'' @ f) = Err e)"
proof -
  let ?doc = "Object [(k, Object [(f, x)])]" and ?path = "''/'' @ k @ ''/'' @ f"
  have k: "parse_segment k = Field k"
    using assms(1) parse_usize_dot [OF assms(1)] by (auto simp: parse_segment_def)
  have f: "parse_segment f = Field f" using assms(4) by (simp add: parse_segment_def)
  have "k \<noteq> []" using assms(1) by auto
  with assms(2) have "dropWhile (\<lambda>c. c = CHR ''/'') ?path = k @ CHR ''/'' # f"
    by (cases k) auto
  then have "split_on (CHR ''/'') (dropWhile (\<lambda>c. c = CHR ''/'') ?path) = [k, f]"
    using assms(2) by (simp add: split_on_append split_on_no_sep)
  then have segs: "path_segments ?path = [Field k, Field f]"
    using assms(3) \<open>k \<noteq> []\<close> k f
    by (simp add: path_segments_def parse_path_def parse_json_pointer_def decode_json_pointer_segment_def
      replace_pair_id)
  have "lookup ?doc (path_segments k) = None"
  proof -
    obtain p ps where ps: "split_on (CHR ''.'') k = p # ps" by (cases "split_on (CHR ''.'') k") (cases k, auto split: list.splits if_splits)
    then have "p \<noteq> k" using split_on_pieces [of p "CHR ''.''" k] assms(1) by auto
    moreover have "hd k \<noteq> CHR ''/''" using assms(2) \<open>k \<noteq> []\<close> by (cases k) auto
    ultimately show ?thesis using ps \<open>k \<noteq> []\<close>
      by (auto simp: path_segments_def parse_path_def parse_dot_path_def parse_segment_def bt_get_def split: option.split)
  qed
  then have "ok_of (apply_remove dbg ?doc ?path) = None"
    by (simp add: segs Let_def segments_to_dot_def del: append_Cons append_Nil)
  then have "\<exists>e. apply_remove dbg ?doc ?path = Err e"
    unfolding ok_of_def by (cases "apply_remove dbg ?doc ?path") simp_all
  moreover have "get_at_path dbg ?doc ?path = Ok x"
    unfolding ok_of_Some [symmetric] ok_of_paths segs by (simp add: bt_get_def)
  ultimately show ?thesis by blast
qed

lemma remove_misses_dotted_keys_witness:
  "\<exists>e. apply_remove no_debug (Object [(''a.b'', Object [(''c'', Null :: unit unknown)])]) ''/a.b/c'' = Err e"
  using remove_misses_dotted_keys [of "''a.b''" "''c''" no_debug "Null :: unit unknown"]
  by (simp add: parse_usize_def digit_value_def)

text \<open>
  \<open>Add\<close> at an index that exists overwrites the element; RFC 6902 inserts before it.
\<close>

theorem add_overwrites_elements:
  assumes "i < length xs" "i \<le> u64_max"
  shows "apply_add dbg (Array xs) (show_nat i) x = Ok (Array (xs[i := x]))"
proof -
  have "segments_to_dot [Index i] = show_nat i" by (simp add: segments_to_dot_def)
  moreover have "plain_path [Index i]"
    using assms(2) show_nat_chars [of i] by (auto simp: plain_path_def)
  ultimately have "path_segments (show_nat i) = [Index i]"
    using parse_segments_to_dot [of "[Index i]"] by (simp add: path_segments_def)
  then show ?thesis using assms(1) by (simp flip: ok_of_Some)
qed

end
