(* ===== verification/Optics.thy ===== *)
theory Optics
  imports Prelude
begin

text \<open>
  \<open>crates/id_effect_optics/src/\<close> \<open>lens.rs\<close>, \<open>prism.rs\<close>, \<open>iso.rs\<close>, \<open>optional.rs\<close>, \<open>traversal.rs\<close>,
  \<open>transducer.rs\<close> and \<open>zipper.rs\<close>.

  An optic is the record of its closures. The \<open>FnMut\<close> arguments of traversals and reducers carry
  a state of type \<open>'st\<close> that is threaded through the calls; the counter of the \<open>take\<close>
  transducer, which lives in the transducer and not in a run, is a cell of an explicit store. The
  children of a zipper's trie node, an \<open>im::HashMap\<close>, are a finite map.
\<close>

section \<open>Lenses\<close>

record ('s, 'a) lens =
  lens_get :: "'s \<Rightarrow> 'a"
  lens_set :: "'s \<Rightarrow> 'a \<Rightarrow> 's"

definition lens_new :: "('s \<Rightarrow> 'a) \<Rightarrow> ('s \<Rightarrow> 'a \<Rightarrow> 's) \<Rightarrow> ('s, 'a) lens" where
  "lens_new g s = \<lparr>lens_get = g, lens_set = s\<rparr>"

definition lens_modify :: "('s, 'a) lens \<Rightarrow> 's \<Rightarrow> ('a \<Rightarrow> 'a) \<Rightarrow> 's" where
  "lens_modify l source f = (let value = lens_get l source in lens_set l source (f value))"

definition lens_compose :: "('s, 'a) lens \<Rightarrow> ('a, 'b) lens \<Rightarrow> ('s, 'b) lens" where
  "lens_compose outer inner = lens_new
     (\<lambda>s. lens_get inner (lens_get outer s))
     (\<lambda>s b. let a = lens_get outer s; a' = lens_set inner a b in lens_set outer s a')"

definition identity_lens :: "('s, 's) lens" where
  "identity_lens = lens_new (\<lambda>s. s) (\<lambda>_ a. a)"

definition lens_field :: "('s \<Rightarrow> 'a) \<Rightarrow> ('s \<Rightarrow> 'a \<Rightarrow> 's) \<Rightarrow> ('s, 'a) lens" where
  "lens_field g s = lens_new (\<lambda>x. g x) s"

section \<open>Prisms\<close>

record ('s, 'a) prism =
  prism_preview :: "'s \<Rightarrow> 'a option"
  prism_review :: "'a \<Rightarrow> 's"

definition prism_new :: "('s \<Rightarrow> 'a option) \<Rightarrow> ('a \<Rightarrow> 's) \<Rightarrow> ('s, 'a) prism" where
  "prism_new p r = \<lparr>prism_preview = p, prism_review = r\<rparr>"

definition prism_modify :: "('s, 'a) prism \<Rightarrow> 's \<Rightarrow> ('a \<Rightarrow> 'a) \<Rightarrow> 's" where
  "prism_modify p source f = (case prism_preview p source of
     Some a \<Rightarrow> prism_review p (f a) | None \<Rightarrow> source)"

definition prism_compose :: "('s, 'a) prism \<Rightarrow> ('a, 'b) prism \<Rightarrow> ('s, 'b) prism" where
  "prism_compose outer inner = prism_new
     (\<lambda>s. Option.bind (prism_preview outer s) (prism_preview inner))
     (\<lambda>b. prism_review outer (prism_review inner b))"

definition some_prism :: "('t option, 't) prism" where
  "some_prism = prism_new (\<lambda>opt. opt) Some"

section \<open>Isomorphisms\<close>

record ('s, 'a) iso =
  iso_to :: "'s \<Rightarrow> 'a"
  iso_from :: "'a \<Rightarrow> 's"

definition iso_new :: "('s \<Rightarrow> 'a) \<Rightarrow> ('a \<Rightarrow> 's) \<Rightarrow> ('s, 'a) iso" where
  "iso_new t f = \<lparr>iso_to = t, iso_from = f\<rparr>"

definition iso_as_lens :: "('s, 'a) iso \<Rightarrow> ('s, 'a) lens" where
  "iso_as_lens i = lens_new (\<lambda>s. iso_to i s) (\<lambda>_ a. iso_from i a)"

definition iso_compose :: "('s, 'a) iso \<Rightarrow> ('a, 'b) iso \<Rightarrow> ('s, 'b) iso" where
  "iso_compose outer inner = iso_new
     (\<lambda>s. iso_to inner (iso_to outer s)) (\<lambda>b. iso_from outer (iso_from inner b))"

definition identity_iso :: "('s, 's) iso" where
  "identity_iso = iso_new (\<lambda>s. s) (\<lambda>s. s)"

section \<open>Optionals\<close>

record ('s, 't) optional =
  opt_lens :: "('s, 't option) lens"

definition optional_new :: "('s, 't option) lens \<Rightarrow> ('s, 't) optional" where
  "optional_new l = \<lparr>opt_lens = l\<rparr>"

definition optional_get :: "('s, 't) optional \<Rightarrow> 's \<Rightarrow> 't option" where
  "optional_get opt source = lens_get (opt_lens opt) source"

definition set_some :: "('s, 't) optional \<Rightarrow> 's \<Rightarrow> 't \<Rightarrow> 's" where
  "set_some opt source value = lens_set (opt_lens opt) source (Some value)"

definition set_none :: "('s, 't) optional \<Rightarrow> 's \<Rightarrow> 's" where
  "set_none opt source = lens_set (opt_lens opt) source None"

definition optional_modify :: "('s, 't) optional \<Rightarrow> 's \<Rightarrow> ('t \<Rightarrow> 't) \<Rightarrow> 's" where
  "optional_modify opt source f = lens_modify (opt_lens opt) source (map_option f)"

definition optional_set :: "('s, 't) optional \<Rightarrow> 's \<Rightarrow> 't option \<Rightarrow> 's" where
  "optional_set opt source value = lens_set (opt_lens opt) source value"

definition optional_compose :: "('s, 't) optional \<Rightarrow> ('t, 'u) lens \<Rightarrow> ('s, 'u) optional" where
  "optional_compose opt inner = optional_new (lens_new
     (\<lambda>s. case lens_get (opt_lens opt) s of None \<Rightarrow> None | Some value \<Rightarrow> Some (lens_get inner value))
     (\<lambda>s value. case value of
        None \<Rightarrow> lens_set (opt_lens opt) s None
      | Some inner_value \<Rightarrow>
          lens_modify (opt_lens opt) s (map_option (\<lambda>item. lens_set inner item inner_value))))"

section \<open>Traversals\<close>

record ('s, 'a, 'st) traversal =
  trav_modify :: "'s \<Rightarrow> ('a \<Rightarrow> 'st \<Rightarrow> 'a \<times> 'st) \<Rightarrow> 'st \<Rightarrow> 's \<times> 'st"
  trav_fold :: "'s \<Rightarrow> ('a \<Rightarrow> 'st \<Rightarrow> 'st) \<Rightarrow> 'st \<Rightarrow> 'st"

definition traversal_new ::
  "('s \<Rightarrow> ('a \<Rightarrow> 'st \<Rightarrow> 'a \<times> 'st) \<Rightarrow> 'st \<Rightarrow> 's \<times> 'st) \<Rightarrow> ('s \<Rightarrow> ('a \<Rightarrow> 'st \<Rightarrow> 'st) \<Rightarrow> 'st \<Rightarrow> 'st)
    \<Rightarrow> ('s, 'a, 'st) traversal" where
  "traversal_new m f = \<lparr>trav_modify = m, trav_fold = f\<rparr>"

definition over :: "('s, 'a, 'st) traversal \<Rightarrow> 's \<Rightarrow> ('a \<Rightarrow> 'st \<Rightarrow> 'a \<times> 'st) \<Rightarrow> 'st \<Rightarrow> 's \<times> 'st" where
  "over t source f st = trav_modify t source f st"

definition fold_each :: "('s, 'a, 'st) traversal \<Rightarrow> 's \<Rightarrow> ('a \<Rightarrow> 'st \<Rightarrow> 'st) \<Rightarrow> 'st \<Rightarrow> 'st" where
  "fold_each t source visit st = trav_fold t source visit st"

definition to_vec :: "('s, 'a, 'a list) traversal \<Rightarrow> 's \<Rightarrow> 'a list" where
  "to_vec t source = fold_each t source (\<lambda>a out. out @ [a]) []"

fun map_items :: "('a \<Rightarrow> 'st \<Rightarrow> 'a \<times> 'st) \<Rightarrow> 'a list \<Rightarrow> 'st \<Rightarrow> 'a list \<times> 'st" where
  "map_items f [] st = ([], st)"
| "map_items f (x # xs) st =
     (case f x st of (y, st1) \<Rightarrow> case map_items f xs st1 of (ys, st2) \<Rightarrow> (y # ys, st2))"

fun visit_items :: "('a \<Rightarrow> 'st \<Rightarrow> 'st) \<Rightarrow> 'a list \<Rightarrow> 'st \<Rightarrow> 'st" where
  "visit_items visit [] st = st"
| "visit_items visit (x # xs) st = visit_items visit xs (visit x st)"

definition vector_each :: "('a list, 'a, 'st) traversal" where
  "vector_each = traversal_new (\<lambda>vec f st. map_items f vec st) (\<lambda>vec visit st. visit_items visit vec st)"

text \<open>A state-passing change of the focus of a lens.\<close>

definition modify_through ::
  "('s, 'a) lens \<Rightarrow> 's \<Rightarrow> ('a \<Rightarrow> 'st \<Rightarrow> 'a \<times> 'st) \<Rightarrow> 'st \<Rightarrow> 's \<times> 'st" where
  "modify_through l s f st = (case f (lens_get l s) st of (a, st') \<Rightarrow> (lens_set l s a, st'))"

definition at_vec :: "('s, 'a list) lens \<Rightarrow> ('s, 'a, 'st) traversal" where
  "at_vec l = traversal_new
     (\<lambda>s f st. modify_through l s (\<lambda>vec st. map_items f vec st) st)
     (\<lambda>s visit st. visit_items visit (lens_get l s) st)"

definition at_option :: "('s, 't option) lens \<Rightarrow> ('s, 't, 'st) traversal" where
  "at_option l = traversal_new
     (\<lambda>s f st. modify_through l s (\<lambda>opt st. case opt of
        None \<Rightarrow> (None, st) | Some t \<Rightarrow> (case f t st of (t', st') \<Rightarrow> (Some t', st'))) st)
     (\<lambda>s visit st. case lens_get l s of Some value \<Rightarrow> visit value st | None \<Rightarrow> st)"

definition lens_as_traversal :: "('s, 'a) lens \<Rightarrow> ('s, 'a, 'st) traversal" where
  "lens_as_traversal l = traversal_new
     (\<lambda>s f st. modify_through l s f st) (\<lambda>s visit st. visit (lens_get l s) st)"

definition compose_traversal ::
  "('s, 'a) lens \<Rightarrow> ('a, 'b, 'st) traversal \<Rightarrow> ('s, 'b, 'st) traversal" where
  "compose_traversal l inner = traversal_new
     (\<lambda>s f st. let focused = lens_get l s in
        case over inner focused f st of (updated, st') \<Rightarrow> (lens_set l s updated, st'))
     (\<lambda>s visit st. fold_each inner (lens_get l s) visit st)"

section \<open>Transducers\<close>

record cells =
  cell_count :: nat
  cell_value :: "nat \<Rightarrow> nat"

type_synonym ('a, 'acc) reducer = "'acc \<Rightarrow> 'a \<Rightarrow> cells \<Rightarrow> 'acc \<times> cells"

record ('a, 'acc) transducer =
  trans_step :: "('a, 'acc) reducer \<Rightarrow> ('a, 'acc) reducer"

definition transducer_new :: "(('a, 'acc) reducer \<Rightarrow> ('a, 'acc) reducer) \<Rightarrow> ('a, 'acc) transducer" where
  "transducer_new step = \<lparr>trans_step = step\<rparr>"

definition transducer_compose ::
  "('a, 'acc) transducer \<Rightarrow> ('a, 'acc) transducer \<Rightarrow> ('a, 'acc) transducer" where
  "transducer_compose self inner = transducer_new (\<lambda>rf. trans_step self (trans_step inner rf))"

fun reduce_items :: "('a, 'acc) reducer \<Rightarrow> 'a list \<Rightarrow> 'acc \<Rightarrow> cells \<Rightarrow> 'acc \<times> cells" where
  "reduce_items rf [] acc w = (acc, w)"
| "reduce_items rf (item # items) acc w = (case rf acc item w of (acc', w') \<Rightarrow> reduce_items rf items acc' w')"

definition transduce ::
  "('a, 'acc) transducer \<Rightarrow> 'a list \<Rightarrow> ('a, 'acc) reducer \<Rightarrow> 'acc \<Rightarrow> cells \<Rightarrow> 'acc \<times> cells" where
  "transduce xf items rf init w = reduce_items (trans_step xf rf) items init w"

definition map_transducer :: "('a \<Rightarrow> 'a) \<Rightarrow> ('a, 'acc) transducer" where
  "map_transducer f = transducer_new (\<lambda>rf acc item. rf acc (f item))"

definition filter_transducer :: "('a \<Rightarrow> bool) \<Rightarrow> ('a, 'acc) transducer" where
  "filter_transducer p = transducer_new (\<lambda>rf acc item w. if p item then rf acc item w else (acc, w))"

text \<open>\<open>take\<close> allocates its counter when the transducer is made.\<close>

definition take_transducer :: "nat \<Rightarrow> cells \<Rightarrow> ('a, 'acc) transducer \<times> cells" where
  "take_transducer count w =
     (let c = cell_count w in
      (transducer_new (\<lambda>rf acc item w.
         let left = cell_value w c in
         if left = 0 then (acc, w)
         else rf acc item (w\<lparr>cell_value := (cell_value w)(c := left - 1)\<rparr>)),
       w\<lparr>cell_count := Suc c, cell_value := (cell_value w)(c := count)\<rparr>))"

section \<open>Zippers\<close>

datatype 'v trie_node = TrieNode (tn_value: "'v option") (tn_children: "char \<Rightarrow> 'v trie_node option")

definition trie_node_new :: "'v trie_node" where
  "trie_node_new = TrieNode None (\<lambda>_. None)"

definition trie_node_leaf :: "'v \<Rightarrow> 'v trie_node" where
  "trie_node_leaf value = TrieNode (Some value) (\<lambda>_. None)"

definition trie_node_child :: "'v trie_node \<Rightarrow> char \<Rightarrow> 'v trie_node option" where
  "trie_node_child n key = tn_children n key"

definition with_child :: "'v trie_node \<Rightarrow> char \<Rightarrow> 'v trie_node \<Rightarrow> 'v trie_node" where
  "with_child n key child = TrieNode (tn_value n) ((tn_children n)(key := Some child))"

definition without_child :: "'v trie_node \<Rightarrow> char \<Rightarrow> 'v trie_node option" where
  "without_child n key = (case tn_children n key of
     None \<Rightarrow> None | Some _ \<Rightarrow> Some (TrieNode (tn_value n) ((tn_children n)(key := None))))"

record 'v zipper =
  focus :: "'v trie_node"
  crumbs :: "(char \<times> 'v trie_node) list"

definition zipper_new :: "'v trie_node \<Rightarrow> 'v zipper" where
  "zipper_new root = \<lparr>focus = root, crumbs = []\<rparr>"

definition descend :: "'v zipper \<Rightarrow> char \<Rightarrow> 'v zipper option" where
  "descend z key = map_option (\<lambda>child. \<lparr>focus = child, crumbs = crumbs z @ [(key, focus z)]\<rparr>)
     (trie_node_child (focus z) key)"

definition ascend :: "'v zipper \<Rightarrow> 'v zipper option" where
  "ascend z = (if crumbs z = [] then None
     else Some \<lparr>focus = snd (last (crumbs z)), crumbs = butlast (crumbs z)\<rparr>)"

definition rebuild :: "'v zipper \<Rightarrow> 'v trie_node" where
  "rebuild z = foldl (\<lambda>child (key, parent). with_child parent key child) (focus z) (rev (crumbs z))"

definition zipper_set_value :: "'v zipper \<Rightarrow> 'v \<Rightarrow> 'v zipper" where
  "zipper_set_value z value = z\<lparr>focus := TrieNode (Some value) (tn_children (focus z))\<rparr>"

definition insert_child :: "'v zipper \<Rightarrow> char \<Rightarrow> 'v trie_node \<Rightarrow> 'v zipper" where
  "insert_child z key child = z\<lparr>focus := with_child (focus z) key child\<rparr>"

definition remove_child :: "'v zipper \<Rightarrow> char \<Rightarrow> 'v zipper option" where
  "remove_child z key = map_option (\<lambda>n. z\<lparr>focus := n\<rparr>) (without_child (focus z) key)"

lemmas optic_defs = lens_new_def lens_modify_def lens_compose_def identity_lens_def lens_field_def
  prism_new_def prism_modify_def prism_compose_def some_prism_def
  iso_new_def iso_as_lens_def iso_compose_def identity_iso_def

lemmas optional_defs = optional_new_def optional_get_def set_some_def set_none_def
  optional_modify_def optional_set_def optional_compose_def

lemmas traversal_defs = traversal_new_def over_def fold_each_def vector_each_def modify_through_def
  at_vec_def at_option_def lens_as_traversal_def compose_traversal_def

section \<open>Contracts\<close>

locale lawful_lens =
  fixes l :: "('s, 'a) lens"
  assumes get_set: "lens_get l (lens_set l s a) = a"
    and set_get: "lens_set l s (lens_get l s) = s"
    and set_set: "lens_set l (lens_set l s a) b = lens_set l s b"
begin

lemma modify_modify: "lens_modify l (lens_modify l s f) g = lens_modify l s (g \<circ> f)"
  by (simp add: lens_modify_def get_set set_set)

lemma modify_unchanged: "f (lens_get l s) = lens_get l s \<Longrightarrow> lens_modify l s f = s"
  by (simp add: lens_modify_def set_get)

lemma get_modify: "lens_get l (lens_modify l s f) = f (lens_get l s)"
  by (simp add: lens_modify_def get_set)

end

locale lawful_prism =
  fixes p :: "('s, 'a) prism"
  assumes preview_review: "prism_preview p (prism_review p a) = Some a"
    and review_preview: "prism_preview p s = Some a \<Longrightarrow> prism_review p a = s"
begin

lemma prism_modify_modify: "prism_modify p (prism_modify p s f) g = prism_modify p s (g \<circ> f)"
  by (auto simp: prism_modify_def preview_review split: option.splits)

lemma prism_modify_id: "prism_modify p s (\<lambda>a. a) = s"
  by (auto simp: prism_modify_def review_preview split: option.splits)

lemma review_inj: "prism_review p a = prism_review p b \<Longrightarrow> a = b"
  by (metis preview_review option.inject)

end

locale lawful_iso =
  fixes i :: "('s, 'a) iso"
  assumes from_to: "iso_from i (iso_to i s) = s"
    and to_from: "iso_to i (iso_from i a) = a"

sublocale lawful_iso \<subseteq> as_lens: lawful_lens "iso_as_lens i"
  by unfold_locales (simp_all add: iso_as_lens_def lens_new_def from_to to_from)

interpretation identity_lens: lawful_lens identity_lens
  by unfold_locales (simp_all add: optic_defs)

interpretation some_prism: lawful_prism some_prism
  by unfold_locales (simp_all add: optic_defs)

interpretation identity_iso: lawful_iso identity_iso
  by unfold_locales (simp_all add: optic_defs)

lemma lens_compose_lawful:
  assumes "lawful_lens outer" "lawful_lens inner"
  shows "lawful_lens (lens_compose outer inner)"
proof -
  note o = lawful_lens.get_set [OF assms(1)] lawful_lens.set_get [OF assms(1)]
    lawful_lens.set_set [OF assms(1)]
  note i = lawful_lens.get_set [OF assms(2)] lawful_lens.set_get [OF assms(2)]
    lawful_lens.set_set [OF assms(2)]
  show ?thesis
    by unfold_locales (simp_all add: optic_defs o i)
qed

lemma prism_compose_lawful:
  assumes "lawful_prism outer" "lawful_prism inner"
  shows "lawful_prism (prism_compose outer inner)"
proof -
  note o = lawful_prism.preview_review [OF assms(1)] lawful_prism.review_preview [OF assms(1)]
  note i = lawful_prism.preview_review [OF assms(2)] lawful_prism.review_preview [OF assms(2)]
  show ?thesis
    by unfold_locales (auto simp: optic_defs o i Option.bind_eq_Some_conv)
qed

lemma iso_compose_lawful:
  assumes "lawful_iso outer" "lawful_iso inner"
  shows "lawful_iso (iso_compose outer inner)"
  using assms by (auto simp: lawful_iso_def optic_defs)

text \<open>
  A lawful traversal lists the elements it focuses, visits them in that order, and changes each of
  them and nothing else.
\<close>

locale lawful_traversal =
  fixes t :: "('s, 'a, 'st) traversal" and elements :: "'s \<Rightarrow> 'a list"
  assumes folds: "trav_fold t s visit st = visit_items visit (elements s) st"
    and changes: "elements (fst (trav_modify t s f st)) = fst (map_items f (elements s) st)"
    and threads: "snd (trav_modify t s f st) = snd (map_items f (elements s) st)"
begin

lemma fold_over: "fold_each t (fst (over t s f st)) visit st'
    = visit_items visit (fst (map_items f (elements s) st)) st'"
  by (simp add: fold_each_def over_def folds changes)

end

lemma visit_items_fold: "visit_items visit xs st = fold visit xs st"
  by (induction xs arbitrary: st) auto

lemma map_items_pure: "map_items (\<lambda>a st. (f a, st)) xs st = (map f xs, st)"
  by (induction xs arbitrary: st) auto

lemma to_vec_elements:
  assumes "lawful_traversal t elements"
  shows "to_vec t s = elements s"
proof -
  have "visit_items (\<lambda>a out. out @ [a]) xs acc = acc @ xs" for xs acc :: "'b list"
    by (induction xs arbitrary: acc) auto
  then show ?thesis
    by (simp add: to_vec_def fold_each_def lawful_traversal.folds [OF assms])
qed

interpretation vector_each: lawful_traversal vector_each "\<lambda>vec. vec"
  by unfold_locales (simp_all add: traversal_defs)

lemma compose_traversal_lawful:
  assumes "lawful_lens l" "lawful_traversal inner elements"
  shows "lawful_traversal (compose_traversal l inner) (\<lambda>s. elements (lens_get l s))"
proof -
  note i = lawful_traversal.folds [OF assms(2)] lawful_traversal.changes [OF assms(2)]
    lawful_traversal.threads [OF assms(2)]
  show ?thesis
  proof
    show "trav_fold (compose_traversal l inner) s visit st
        = visit_items visit (elements (lens_get l s)) st" for s visit st
      by (simp add: traversal_defs i)
    show "elements (lens_get l (fst (trav_modify (compose_traversal l inner) s f st)))
        = fst (map_items f (elements (lens_get l s)) st)" for s f st
      using i(2) [of "lens_get l s" f st]
      by (simp add: traversal_defs split_beta Let_def lawful_lens.get_set [OF assms(1)])
    show "snd (trav_modify (compose_traversal l inner) s f st)
        = snd (map_items f (elements (lens_get l s)) st)" for s f st
      using i(3) [of "lens_get l s" f st] by (simp add: traversal_defs split_beta Let_def)
  qed
qed

lemma at_vec_lawful:
  assumes "lawful_lens l"
  shows "lawful_traversal (at_vec l) (lens_get l)"
  by unfold_locales (simp_all add: traversal_defs split_beta lawful_lens.get_set [OF assms])

lemma at_option_lawful:
  assumes "lawful_lens l"
  shows "lawful_traversal (at_option l) (\<lambda>s. case lens_get l s of None \<Rightarrow> [] | Some a \<Rightarrow> [a])"
  by unfold_locales
    (auto simp: traversal_defs split_beta lawful_lens.get_set [OF assms] split: option.splits)

lemma lens_as_traversal_lawful:
  assumes "lawful_lens l"
  shows "lawful_traversal (lens_as_traversal l) (\<lambda>s. [lens_get l s])"
  by unfold_locales (simp_all add: traversal_defs split_beta lawful_lens.get_set [OF assms])

section \<open>Transducers as list functions\<close>

lemma reduce_items_filter:
  "reduce_items (trans_step (filter_transducer p) rf) items acc w
    = reduce_items rf (filter p items) acc w"
  by (induction items arbitrary: acc w) (auto simp: filter_transducer_def transducer_new_def split: prod.splits)

lemma reduce_items_map:
  "reduce_items (trans_step (map_transducer f) rf) items acc w = reduce_items rf (map f items) acc w"
  by (induction items arbitrary: acc w)
    (auto simp: map_transducer_def transducer_new_def split: prod.splits)

lemma trans_step_compose [simp]:
  "trans_step (transducer_compose a b) rf = trans_step a (trans_step b rf)"
  by (simp add: transducer_compose_def transducer_new_def)

text \<open>A reducer that leaves the store alone.\<close>

definition pure_reducer :: "('acc \<Rightarrow> 'a \<Rightarrow> 'acc) \<Rightarrow> ('a, 'acc) reducer" where
  "pure_reducer g acc item w = (g acc item, w)"

lemma reduce_items_pure: "reduce_items (pure_reducer g) items acc w = (foldl g acc items, w)"
  by (induction items arbitrary: acc) (simp_all add: pure_reducer_def)

lemma reduce_items_take:
  assumes "take_transducer count w0 = (xf, w1)"
  shows "reduce_items (trans_step xf (pure_reducer g)) items acc w
    = (foldl g acc (take (cell_value w (cell_count w0)) items),
       w\<lparr>cell_value := (cell_value w)(cell_count w0 := cell_value w (cell_count w0) - length items)\<rparr>)"
  using assms unfolding take_transducer_def transducer_new_def Let_def
  by (induction items arbitrary: acc w)
    (auto simp: pure_reducer_def take_Cons split: nat.splits)

section \<open>Zipper positions\<close>

fun descend_all :: "'v zipper \<Rightarrow> string \<Rightarrow> 'v zipper option" where
  "descend_all z [] = Some z"
| "descend_all z (c # cs) = (case descend z c of None \<Rightarrow> None | Some z' \<Rightarrow> descend_all z' cs)"

fun node_at :: "'v trie_node \<Rightarrow> string \<Rightarrow> 'v trie_node option" where
  "node_at n [] = Some n"
| "node_at n (c # cs) = (case trie_node_child n c of None \<Rightarrow> None | Some n' \<Rightarrow> node_at n' cs)"

fun graft :: "'v trie_node \<Rightarrow> string \<Rightarrow> 'v trie_node \<Rightarrow> 'v trie_node" where
  "graft n [] m = m"
| "graft n (c # cs) m = (case trie_node_child n c of
     None \<Rightarrow> n | Some n' \<Rightarrow> with_child n c (graft n' cs m))"

lemma rebuild_snoc: "rebuild \<lparr>focus = n, crumbs = cs @ [(key, parent)]\<rparr>
    = rebuild \<lparr>focus = with_child parent key n, crumbs = cs\<rparr>"
  by (simp add: rebuild_def)

lemma with_child_same: "trie_node_child n key = Some child \<Longrightarrow> with_child n key child = n"
  by (cases n) (auto simp: with_child_def trie_node_child_def fun_upd_idem)

lemma descend_all_focus:
  "descend_all z cs = Some z' \<Longrightarrow> node_at (focus z) cs = Some (focus z')"
proof (induction cs arbitrary: z)
  case (Cons c cs)
  then show ?case by (fastforce simp: descend_def split: option.splits)
qed simp

lemma descend_all_defined: "(descend_all z cs = None) = (node_at (focus z) cs = None)"
  by (induction cs arbitrary: z) (auto simp: descend_def split: option.splits)

lemma rebuild_graft:
  "descend_all z cs = Some z' \<Longrightarrow> rebuild (z'\<lparr>focus := m\<rparr>) = rebuild (z\<lparr>focus := graft (focus z) cs m\<rparr>)"
proof (induction cs arbitrary: z)
  case (Cons c cs)
  then obtain n where n: "trie_node_child (focus z) c = Some n"
    and z': "descend_all \<lparr>focus = n, crumbs = crumbs z @ [(c, focus z)]\<rparr> cs = Some z'"
    by (auto simp: descend_def split: option.splits)
  show ?case using Cons.IH [OF z'] n by (cases z) (simp add: rebuild_snoc)
qed simp

lemma graft_same: "node_at n cs = Some m \<Longrightarrow> graft n cs m = n"
  by (induction n cs m rule: graft.induct) (auto simp: with_child_same split: option.splits)

lemma node_at_graft:
  "node_at n cs \<noteq> None \<Longrightarrow> node_at (graft n cs m) cs = Some m"
  by (induction n cs m rule: graft.induct)
    (auto simp: with_child_def trie_node_child_def split: option.splits)

text \<open>Edits of the value alone.\<close>

definition value_at :: "'v trie_node \<Rightarrow> string \<Rightarrow> 'v option" where
  "value_at n cs = Option.bind (node_at n cs) tn_value"

lemma value_at_graft:
  assumes "node_at n cs = Some m" "tn_children m' = tn_children m"
  shows "value_at (graft n cs m') ds = (if ds = cs then tn_value m' else value_at n ds)"
  using assms
proof (induction n cs m' arbitrary: ds rule: graft.induct)
  case (1 n m')
  then show ?case by (cases ds) (auto simp: value_at_def trie_node_child_def)
next
  case (2 n c cs m')
  then obtain n' where "trie_node_child n c = Some n'" by (auto split: option.splits)
  with 2 show ?case
    by (cases ds) (auto simp: value_at_def with_child_def trie_node_child_def)
qed


section \<open>Properties\<close>

text \<open>
  Composition keeps the optics lawful: reading back what a composed lens or prism wrote, and
  writing back what it read, behave as for its two parts; an isomorphism used as a lens is lawful;
  and the traversal of a list behind a composed lens lists exactly the elements, changes each of
  them in order with the state threaded from one to the next, and touches nothing the lens does not
  focus.
\<close>

theorem optics_compose_lawfully:
  fixes outer :: "('s, 'b) lens" and inner :: "('b, 'a list) lens"
  assumes "lawful_lens outer" "lawful_lens inner"
    and "lawful_prism po" "lawful_prism pi" and "lawful_iso io" "lawful_iso ii"
  shows "lawful_lens (lens_compose outer inner) \<and> lawful_prism (prism_compose po pi)
    \<and> lawful_lens (iso_as_lens (iso_compose io ii))
    \<and> to_vec (at_vec (lens_compose outer inner)) (fst (over (at_vec (lens_compose outer inner)) s g st))
      = fst (map_items g (lens_get inner (lens_get outer s)) st)
    \<and> snd (over (at_vec (lens_compose outer inner)) s g st)
      = snd (map_items g (lens_get inner (lens_get outer s)) st)
    \<and> (\<forall>vec. lens_set (lens_compose outer inner)
               (fst (over (at_vec (lens_compose outer inner)) s g st)) vec
             = lens_set (lens_compose outer inner) s vec)"
proof -
  let ?l = "lens_compose outer inner"
  have l: "lawful_lens ?l" using assms lens_compose_lawful by blast
  have get: "lens_get ?l s' = lens_get inner (lens_get outer s')" for s'
    by (simp add: optic_defs)
  have "lens_set ?l (fst (over (at_vec ?l) s g st)) vec = lens_set ?l s vec" for vec
    by (simp add: traversal_defs split_beta lawful_lens.set_set [OF l])
  moreover have "to_vec (at_vec ?l) (fst (over (at_vec ?l) s g st))
      = fst (map_items g (lens_get inner (lens_get outer s)) st)"
    using lawful_traversal.changes [OF at_vec_lawful [OF l], of s g st]
    by (simp add: to_vec_elements [OF at_vec_lawful [OF l]] over_def get)
  moreover have "snd (over (at_vec ?l) s g st) = snd (map_items g (lens_get inner (lens_get outer s)) st)"
    by (simp add: over_def lawful_traversal.threads [OF at_vec_lawful [OF l]] get)
  moreover have "lawful_lens (iso_as_lens (iso_compose io ii))"
    using iso_compose_lawful [OF assms(5,6)]
    by (simp add: lawful_iso_def lawful_lens_def optic_defs)
  ultimately show ?thesis using l assms prism_compose_lawful by blast
qed

definition fst_lens :: "('x \<times> 'y, 'x) lens" where
  "fst_lens = lens_field fst (\<lambda>p x. (x, snd p))"

lemma fst_lens_lawful: "lawful_lens fst_lens"
  by unfold_locales (auto simp: fst_lens_def optic_defs)

lemma optics_compose_lawfully_witness:
  "to_vec (at_vec (lens_compose fst_lens fst_lens))
     (fst (over (at_vec (lens_compose fst_lens fst_lens)) (([1 :: nat, 2], True), CHR ''x'')
        (\<lambda>a n. (a + n, n + 1)) (10 :: nat))) = [11, 13]"
proof -
  have "map_items (\<lambda>a n. (a + n, n + 1)) [1, 2] 10 = ([11 :: nat, 13], 12 :: nat)" by simp
  moreover have "lens_get fst_lens (lens_get fst_lens (([1 :: nat, 2], True), CHR ''x'')) = [1, 2]"
    by (simp add: fst_lens_def optic_defs)
  ultimately show ?thesis
    using optics_compose_lawfully [of fst_lens fst_lens
        "some_prism :: (bool option option, bool option) prism" some_prism
        "identity_iso :: (bool, bool) iso" identity_iso
        "(([1 :: nat, 2], True), CHR ''x'')" "\<lambda>a n. (a + n, n + 1)" 10,
        OF fst_lens_lawful fst_lens_lawful
        some_prism.lawful_prism_axioms some_prism.lawful_prism_axioms
        identity_iso.lawful_iso_axioms identity_iso.lawful_iso_axioms]
    by simp
qed

text \<open>
  Descending a zipper along a path reaches the node at that path, exactly when there is one;
  rebuilding without an edit gives the trie back; and rebuilding after an edit of the focus
  gives the trie whose subtree at the path is the edited focus: for a new value, every other
  position keeps the value it had.
\<close>

theorem zipper_edits_reach_root:
  assumes "descend_all (zipper_new root) cs = Some z"
  shows "node_at root cs = Some (focus z) \<and> rebuild z = root
    \<and> value_at (rebuild (zipper_set_value z v)) ds = (if ds = cs then Some v else value_at root ds)
    \<and> node_at (rebuild (insert_child z key child)) cs = Some (with_child (focus z) key child)
    \<and> map_option (\<lambda>z'. node_at (rebuild z') cs) (remove_child z key)
      = map_option Some (without_child (focus z) key)"
proof -
  have at: "node_at root cs = Some (focus z)"
    using descend_all_focus [OF assms] by (simp add: zipper_new_def)
  have edit: "rebuild (z\<lparr>focus := m\<rparr>) = graft root cs m" for m
    using rebuild_graft [OF assms, of m] by (simp add: zipper_new_def rebuild_def)
  have "rebuild z = root"
    using edit [of "focus z"] graft_same [OF at] by simp
  moreover have "value_at (rebuild (zipper_set_value z v)) ds = (if ds = cs then Some v else value_at root ds)"
    by (simp add: zipper_set_value_def edit value_at_graft [OF at])
  moreover have here: "node_at (graft root cs m) cs = Some m" for m
    by (simp add: node_at_graft at)
  ultimately show ?thesis
    by (simp add: at insert_child_def remove_child_def edit option.map_comp comp_def)
qed

lemma zipper_edits_reach_root_witness:
  "value_at (rebuild (zipper_set_value
      \<lparr>focus = trie_node_leaf (1 :: nat), crumbs = [(CHR ''a'', with_child trie_node_new CHR ''a'' (trie_node_leaf 1))]\<rparr>
      7)) ''a'' = Some 7"
proof -
  have "descend_all (zipper_new (with_child trie_node_new CHR ''a'' (trie_node_leaf 1))) ''a''
      = Some \<lparr>focus = trie_node_leaf (1 :: nat), crumbs = [(CHR ''a'', with_child trie_node_new CHR ''a'' (trie_node_leaf 1))]\<rparr>"
    by (simp add: zipper_new_def descend_def trie_node_child_def with_child_def)
  from zipper_edits_reach_root [OF this, of 7 "''a''" "CHR ''b''" trie_node_new] show ?thesis by simp
qed

text \<open>
  Moving up with \<open>ascend\<close> restores the parent as it was before the descent: an edit of the focus is
  lost, although \<open>rebuild\<close> from the same zipper would have kept it.
\<close>

theorem ascend_discards_edits:
  assumes "descend z key = Some child"
  shows "ascend (zipper_set_value child v) = Some z"
  using assms by (cases z) (auto simp: descend_def ascend_def zipper_set_value_def)

text \<open>
  Writing through a composed optional whose outer value is absent changes nothing, so the value is
  not there afterwards.
\<close>

theorem composed_optional_drops_writes:
  assumes "lawful_lens (opt_lens opt)" "optional_get opt s = None"
  shows "set_some (optional_compose opt inner) s u = s
    \<and> optional_get (optional_compose opt inner) (set_some (optional_compose opt inner) s u) = None"
proof -
  have "lens_modify (opt_lens opt) s (map_option h) = s" for h
    using assms by (intro lawful_lens.modify_unchanged) (simp_all add: optional_get_def)
  then show ?thesis using assms by (simp add: optional_defs optic_defs)
qed

text \<open>
  The transducers are the list functions of the same names, \<open>a.compose(b)\<close> is \<open>a\<close> first and then
  \<open>b\<close>, and a \<open>take\<close> that was run on at least \<open>count\<close> items yields nothing in its next run.
\<close>

theorem transducers_as_list_functions:
  assumes "take_transducer count w0 = (xf, w1)" "count \<le> length items"
  shows "fst (transduce (transducer_compose (filter_transducer p) (map_transducer f)) items
           (pure_reducer g) init w) = foldl g init (map f (filter p items))
    \<and> fst (transduce xf items (pure_reducer g) init w1) = foldl g init (take count items)
    \<and> fst (transduce xf again (pure_reducer g) init' (snd (transduce xf items (pure_reducer g) init w1)))
      = init'"
proof -
  have "cell_value w1 (cell_count w0) = count"
    using assms(1) by (auto simp: take_transducer_def Let_def)
  then show ?thesis using assms(2)
    by (simp add: transduce_def reduce_items_filter reduce_items_map reduce_items_pure
        reduce_items_take [OF assms(1)])
qed

end
