(* ===== verification/Runtime.thy ===== *)
theory Runtime
  imports Effects
begin

text \<open>
  \<open>crates/id_effect/src/runtime/execute.rs\<close>: the two drivers that run an effect with an environment
  of their own. Both discard the environment the effect leaves behind. \<open>None\<close> is a driver that never
  returns. The refresh of the thread-local adaptive context before the first poll is not modelled;
  no effect of the development reads it.
\<close>

definition run_blocking :: "('a, 'e, 'r, 'w) effect \<Rightarrow> 'r \<Rightarrow> 'w \<Rightarrow> (('e + 'a) \<times> 'w) option" where
  "run_blocking eff env w = map_option (\<lambda>(out, _, w'). (out, w')) (run eff env w)"

definition run_async :: "('a, 'e, 'r, 'w) effect \<Rightarrow> 'r \<Rightarrow> 'w \<Rightarrow> (('e + 'a) \<times> 'w) option" where
  "run_async eff env w = map_option (\<lambda>(out, _, w'). (out, w')) (run eff env w)"

lemma run_blocking_new_sync:
  "run_blocking (new_sync f) env w = Some (fst (f env w), snd (snd (f env w)))"
  by (simp add: run_blocking_def run_def new_sync_def split_beta)

lemma run_blocking_async: "run_blocking eff env w = run_async eff env w"
  by (simp add: run_blocking_def run_async_def)

end
