(* ===== verification/Journals.thy ===== *)
theory Journals
  imports Texts "HOL-Library.AList"
begin

text \<open>
  \<open>crates/id_effect_workflow/src/journal.rs\<close> and \<open>error.rs\<close>: the \<open>StepJournal\<close> trait and its
  in-memory implementation \<open>NetworkJournalStub\<close>.

  A value of the trait is the record of its methods, so that code generic in \<open>J: StepJournal\<close> takes
  that record. The laws the clients rely on are the locale \<open>durable_journal\<close>, interpreted on the
  stub. \<open>serde_json\<close> is the pair \<open>to_json\<close>, \<open>from_json\<close>; the step body \<open>compute\<close> acts on a world
  \<open>'w\<close>. Sequence numbers are \<open>u32\<close> words; the hash maps are association lists with distinct keys. A
  poisoned lock cannot occur: no code panics while it holds one.
\<close>

section \<open>The trait\<close>

datatype 'x workflow_error =
    Sqlite 'x
  | Postgres string
  | Json 'x
  | InvalidWorkflowId
  | WorkflowAlreadyExists string
  | UnknownWorkflow string

record ('j, 't, 'x, 'w) step_journal =
  register_workflow :: "'j \<Rightarrow> string \<Rightarrow> ('x workflow_error + unit) \<times> 'j"
  has_workflow :: "'j \<Rightarrow> string \<Rightarrow> 'x workflow_error + bool"
  completed_json :: "'j \<Rightarrow> string \<Rightarrow> u32 \<Rightarrow> 'x workflow_error + string option"
  run_step_typed :: "'j \<Rightarrow> string \<Rightarrow> u32 \<Rightarrow> string \<Rightarrow> ('w \<Rightarrow> ('x workflow_error + 't) \<times> 'w) \<Rightarrow> 'w
    \<Rightarrow> ('x workflow_error + 't) \<times> 'j \<times> 'w"
  completed_step_count :: "'j \<Rightarrow> string \<Rightarrow> 'x workflow_error + u32"

section \<open>The in-memory journal\<close>

record distributed_journal_config =
  endpoint :: string
  require_tls :: bool

definition default_config :: distributed_journal_config where
  "default_config = \<lparr>endpoint = ''http://127.0.0.1:8090'', require_tls = False\<rparr>"

record network_journal_stub =
  config :: distributed_journal_config
  inner :: "(string \<times> (u32 \<times> string) list) list"
  registered :: "(string \<times> unit) list"

definition with_config :: "distributed_journal_config \<Rightarrow> network_journal_stub" where
  "with_config c = \<lparr>config = c, inner = [], registered = []\<rparr>"

definition stub_new :: network_journal_stub where
  "stub_new = with_config default_config"

definition stub_endpoint :: "network_journal_stub \<Rightarrow> string" where
  "stub_endpoint s = endpoint (config s)"

definition stub_register ::
  "network_journal_stub \<Rightarrow> string \<Rightarrow> ('x workflow_error + unit) \<times> network_journal_stub" where
  "stub_register s wid =
     (if blank wid then (Err InvalidWorkflowId, s)
      else if map_of (registered s) wid \<noteq> None then (Err (WorkflowAlreadyExists wid), s)
      else (Ok (), s\<lparr>registered := AList.update wid () (registered s)\<rparr>))"

definition stub_has :: "network_journal_stub \<Rightarrow> string \<Rightarrow> 'x workflow_error + bool" where
  "stub_has s wid = Ok (map_of (registered s) wid \<noteq> None)"

definition stub_completed ::
  "network_journal_stub \<Rightarrow> string \<Rightarrow> u32 \<Rightarrow> 'x workflow_error + string option" where
  "stub_completed s wid seq = (case stub_has s wid of
     Inl e \<Rightarrow> Err e
   | Inr known \<Rightarrow>
       if \<not> known then Err (UnknownWorkflow wid)
       else Ok (Option.bind (map_of (inner s) wid) (\<lambda>m. map_of m seq)))"

definition stub_run_step ::
  "('t \<Rightarrow> 'x + string) \<Rightarrow> (string \<Rightarrow> 'x + 't) \<Rightarrow> network_journal_stub \<Rightarrow> string \<Rightarrow> u32 \<Rightarrow> string
    \<Rightarrow> ('w \<Rightarrow> ('x workflow_error + 't) \<times> 'w) \<Rightarrow> 'w
    \<Rightarrow> ('x workflow_error + 't) \<times> network_journal_stub \<times> 'w" where
  "stub_run_step to_json from_json s wid seq step_name compute w = (case stub_has s wid of
     Inl e \<Rightarrow> (Err e, s, w)
   | Inr known \<Rightarrow>
       if \<not> known then (Err (UnknownWorkflow wid), s, w)
       else (case stub_completed s wid seq of
         Inl e \<Rightarrow> (Err e, s, w)
       | Inr (Some json) \<Rightarrow> (result_map_err Json (from_json json), s, w)
       | Inr None \<Rightarrow> (case compute w of
           (Inl e, w') \<Rightarrow> (Err e, s, w')
         | (Inr value, w') \<Rightarrow> (case to_json value of
             Inl e \<Rightarrow> (Err (Json e), s, w')
           | Inr json \<Rightarrow>
               let steps = (case map_of (inner s) wid of None \<Rightarrow> [] | Some m \<Rightarrow> m) in
               (Ok value, s\<lparr>inner := AList.update wid (AList.update seq json steps) (inner s)\<rparr>, w')))))"

definition stub_count :: "network_journal_stub \<Rightarrow> string \<Rightarrow> 'x workflow_error + u32" where
  "stub_count s wid = (case stub_has s wid of
     Inl e \<Rightarrow> Err e
   | Inr known \<Rightarrow>
       if \<not> known then Err (UnknownWorkflow wid)
       else Ok (case map_of (inner s) wid of None \<Rightarrow> 0 | Some m \<Rightarrow> of_nat (length m)))"

definition network_journal ::
  "('t \<Rightarrow> 'x + string) \<Rightarrow> (string \<Rightarrow> 'x + 't) \<Rightarrow> (network_journal_stub, 't, 'x, 'w) step_journal" where
  "network_journal to_json from_json = \<lparr>register_workflow = stub_register, has_workflow = stub_has,
     completed_json = stub_completed, run_step_typed = stub_run_step to_json from_json,
     completed_step_count = stub_count\<rparr>"

section \<open>The contract of a journal\<close>

text \<open>
  \<open>log j wid\<close> is what the journal holds for a workflow: \<open>None\<close> when it is not registered, otherwise
  the stored text of each completed step.
\<close>

locale durable_journal =
  fixes J :: "('j, 't, 'x, 'w) step_journal"
    and to_json :: "'t \<Rightarrow> 'x + string" and from_json :: "string \<Rightarrow> 'x + 't"
    and valid :: "'j \<Rightarrow> bool" and log :: "'j \<Rightarrow> string \<Rightarrow> (u32 \<Rightarrow> string option) option"
  assumes finite_log: "valid j \<Longrightarrow> log j wid = Some m \<Longrightarrow> finite (dom m)"
    and has: "valid j \<Longrightarrow> has_workflow J j wid = Ok (log j wid \<noteq> None)"
    and completed_unknown: "valid j \<Longrightarrow> log j wid = None
      \<Longrightarrow> completed_json J j wid seq = Err (UnknownWorkflow wid)"
    and completed_known: "valid j \<Longrightarrow> log j wid = Some m \<Longrightarrow> completed_json J j wid seq = Ok (m seq)"
    and count_unknown: "valid j \<Longrightarrow> log j wid = None
      \<Longrightarrow> completed_step_count J j wid = Err (UnknownWorkflow wid)"
    and count_known: "valid j \<Longrightarrow> log j wid = Some m
      \<Longrightarrow> completed_step_count J j wid = Ok (of_nat (card (dom m)))"
    and register_blank: "valid j \<Longrightarrow> blank wid \<Longrightarrow> register_workflow J j wid = (Err InvalidWorkflowId, j)"
    and register_twice: "valid j \<Longrightarrow> \<not> blank wid \<Longrightarrow> log j wid \<noteq> None
      \<Longrightarrow> register_workflow J j wid = (Err (WorkflowAlreadyExists wid), j)"
    and register_fresh: "valid j \<Longrightarrow> \<not> blank wid \<Longrightarrow> log j wid = None
      \<Longrightarrow> \<exists>j'. register_workflow J j wid = (Ok (), j') \<and> valid j' \<and> log j' = (log j)(wid \<mapsto> Map.empty)"
    and step_unknown: "valid j \<Longrightarrow> log j wid = None
      \<Longrightarrow> run_step_typed J j wid seq name c w = (Err (UnknownWorkflow wid), j, w)"
    and step_cached: "valid j \<Longrightarrow> log j wid = Some m \<Longrightarrow> m seq = Some s
      \<Longrightarrow> run_step_typed J j wid seq name c w = (result_map_err Json (from_json s), j, w)"
    and step_failed: "valid j \<Longrightarrow> log j wid = Some m \<Longrightarrow> m seq = None \<Longrightarrow> c w = (Err e, w')
      \<Longrightarrow> run_step_typed J j wid seq name c w = (Err e, j, w')"
    and step_unserialised: "valid j \<Longrightarrow> log j wid = Some m \<Longrightarrow> m seq = None \<Longrightarrow> c w = (Ok v, w')
      \<Longrightarrow> to_json v = Err x \<Longrightarrow> run_step_typed J j wid seq name c w = (Err (Json x), j, w')"
    and step_done: "valid j \<Longrightarrow> log j wid = Some m \<Longrightarrow> m seq = None \<Longrightarrow> c w = (Ok v, w')
      \<Longrightarrow> to_json v = Ok s \<Longrightarrow> \<exists>j'. run_step_typed J j wid seq name c w = (Ok v, j', w')
        \<and> valid j' \<and> log j' = (log j)(wid \<mapsto> m(seq \<mapsto> s))"
begin

text \<open>A step that succeeded is not executed again: any later body is skipped.\<close>

lemma step_resumes:
  assumes "valid j" "run_step_typed J j wid seq name c w = (Ok v, j', w')"
    and round_trip: "\<And>s. to_json v = Ok s \<Longrightarrow> from_json s = Ok v"
  shows "run_step_typed J j' wid seq name' c' u = (Ok v, j', u)"
proof (cases "log j wid")
  case None
  with step_unknown [OF assms(1) None] assms(2) show ?thesis by simp
next
  case (Some m)
  show ?thesis
  proof (cases "m seq")
    case (Some s)
    with step_cached [OF assms(1) \<open>log j wid = Some m\<close> Some] assms(2)
    have "result_map_err Json (from_json s) = Ok v" "j' = j" by auto
    with step_cached [OF assms(1) \<open>log j wid = Some m\<close> Some] show ?thesis by simp
  next
    case None
    obtain r u' where c: "c w = (r, u')" by fastforce
    show ?thesis
    proof (cases r)
      case (Inl e)
      with step_failed [OF assms(1) Some None] c assms(2) show ?thesis by simp
    next
      case (Inr v')
      show ?thesis
      proof (cases "to_json v'")
        case (Inl x)
        with step_unserialised [OF assms(1) Some None] c Inr assms(2) show ?thesis by simp
      next
        case (Inr s)
        obtain j'' where "run_step_typed J j wid seq name c w = (Ok v', j'', u')"
          and j'': "valid j''" "log j'' = (log j)(wid \<mapsto> m(seq \<mapsto> s))"
          using step_done [OF assms(1) Some None] c \<open>r = Ok v'\<close> Inr by blast
        with assms(2) have "v' = v" "j'' = j'" by auto
        with j'' round_trip Inr step_cached [of j' wid "m(seq \<mapsto> s)" seq s]
        show ?thesis by simp
      qed
    qed
  qed
qed

end

section \<open>The stub honours the contract\<close>

definition stub_valid :: "network_journal_stub \<Rightarrow> bool" where
  "stub_valid s = (distinct (map fst (inner s)) \<and> distinct (map fst (registered s))
     \<and> list_all (\<lambda>(_, m). distinct (map fst m)) (inner s)
     \<and> fst ` set (inner s) \<subseteq> fst ` set (registered s))"

definition stub_log :: "network_journal_stub \<Rightarrow> string \<Rightarrow> (u32 \<Rightarrow> string option) option" where
  "stub_log s wid = (if map_of (registered s) wid = None then None
     else Some (case map_of (inner s) wid of None \<Rightarrow> Map.empty | Some m \<Rightarrow> map_of m))"

lemma stub_valid_new: "stub_valid (with_config c)"
  by (simp add: stub_valid_def with_config_def)

lemma stub_steps_distinct:
  "stub_valid s \<Longrightarrow> map_of (inner s) wid = Some m \<Longrightarrow> distinct (map fst m)"
  by (auto simp: stub_valid_def list_all_iff dest: map_of_SomeD)

lemma stub_unregistered_empty:
  "stub_valid s \<Longrightarrow> map_of (registered s) wid = None \<Longrightarrow> map_of (inner s) wid = None"
  by (auto simp: stub_valid_def map_of_eq_None_iff)

lemma card_dom_map_of: "distinct (map fst m) \<Longrightarrow> card (dom (map_of m)) = length m"
  by (metis card_image distinct_map dom_map_of_conv_image_fst length_map distinct_card
      list.set_map)

lemma map_of_update: "map_of (AList.update k v al) = (map_of al)(k \<mapsto> v)"
  by (simp add: update_conv')

lemma fst_set_update: "fst ` set (AList.update k v al) = insert k (fst ` set al)"
  by (metis dom_map_of_conv_image_fst dom_fun_upd map_of_update option.distinct(1))

lemma list_all_update:
  "list_all P al \<Longrightarrow> P (k, v) \<Longrightarrow> list_all P (AList.update k v al)"
  by (induction al) auto

lemma stub_register_fresh:
  assumes "stub_valid s" "\<not> blank wid" "stub_log s wid = None"
  shows "\<exists>s'. stub_register s wid = (Ok (), s') \<and> stub_valid s' \<and> stub_log s' = (stub_log s)(wid \<mapsto> Map.empty)"
proof -
  let ?s = "s\<lparr>registered := AList.update wid () (registered s)\<rparr>"
  have fresh: "map_of (registered s) wid = None"
    using assms(3) by (auto simp: stub_log_def split: if_splits)
  have "stub_valid ?s"
    using assms(1) by (auto simp: stub_valid_def distinct_update fst_set_update)
  moreover have "stub_log ?s = (stub_log s)(wid \<mapsto> Map.empty)"
    using stub_unregistered_empty [OF assms(1) fresh]
    by (auto simp: stub_log_def map_of_update fun_eq_iff)
  ultimately show ?thesis using assms(2) fresh by (simp add: stub_register_def)
qed

lemma stub_store:
  assumes "stub_valid s" "stub_log s wid = Some m"
    and steps: "steps = (case map_of (inner s) wid of None \<Rightarrow> [] | Some m \<Rightarrow> m)"
    and s': "s' = s\<lparr>inner := AList.update wid (AList.update seq json steps) (inner s)\<rparr>"
  shows "stub_valid s' \<and> stub_log s' = (stub_log s)(wid \<mapsto> m(seq \<mapsto> json))"
proof
  have known: "map_of (registered s) wid \<noteq> None" and m: "m = map_of steps"
    using assms by (auto simp: stub_log_def split: if_splits option.splits)
  have "distinct (map fst steps)"
    using stub_steps_distinct [OF assms(1)] steps by (auto split: option.splits)
  moreover have "wid \<in> fst ` set (registered s)"
    using known by (auto simp: map_of_eq_None_iff)
  ultimately show "stub_valid s'"
    using assms(1) unfolding stub_valid_def s'
    by (auto simp: distinct_update fst_set_update intro!: list_all_update)
  show "stub_log s' = (stub_log s)(wid \<mapsto> m(seq \<mapsto> json))"
    using known by (auto simp: stub_log_def s' m map_of_update fun_eq_iff)
qed

lemmas stub_defs = stub_has_def stub_completed_def stub_count_def

interpretation stub: durable_journal
  "network_journal to_json from_json :: (network_journal_stub, 't, 'x, 'w) step_journal"
  to_json from_json stub_valid stub_log
  for to_json :: "'t \<Rightarrow> 'x + string" and from_json
proof
  fix s wid and m :: "u32 \<Rightarrow> string option" and seq json name w w'
    and c :: "'w \<Rightarrow> ('x workflow_error + 't) \<times> 'w" and v e x
  assume ok: "stub_valid s"
  let ?J = "network_journal to_json from_json :: (network_journal_stub, 't, 'x, 'w) step_journal"
  have J [simp]: "has_workflow ?J = stub_has" "completed_json ?J = stub_completed"
    "completed_step_count ?J = stub_count" "register_workflow ?J = stub_register"
    "run_step_typed ?J = stub_run_step to_json from_json"
    by (simp_all add: network_journal_def)
  have unknown: "map_of (registered s) wid = None" if "stub_log s wid = None"
    using that by (auto simp: stub_log_def split: if_splits)
  have known: "map_of (registered s) wid \<noteq> None"
    "Option.bind (map_of (inner s) wid) (\<lambda>m. map_of m seq) = m seq" if "stub_log s wid = Some m" for m seq
    using that by (auto simp: stub_log_def split: if_splits option.splits)
  show "has_workflow ?J s wid = Ok (stub_log s wid \<noteq> None)"
    by (simp add: stub_has_def stub_log_def)
  show "finite (dom m)" if "stub_log s wid = Some m"
    using that by (auto simp: stub_log_def finite_dom_map_of split: if_splits option.splits)
  show "completed_json ?J s wid seq = Err (UnknownWorkflow wid)" if "stub_log s wid = None"
    using unknown [OF that] by (simp add: stub_defs)
  show "completed_json ?J s wid seq = Ok (m seq)" if "stub_log s wid = Some m"
    using known [OF that] by (simp add: stub_defs)
  show "completed_step_count ?J s wid = Err (UnknownWorkflow wid)" if "stub_log s wid = None"
    using unknown [OF that] by (simp add: stub_defs)
  show "completed_step_count ?J s wid = Ok (of_nat (card (dom m)))" if "stub_log s wid = Some m"
    using that stub_steps_distinct [OF ok]
    by (auto simp: stub_defs stub_log_def card_dom_map_of split: if_splits option.splits)
  show "register_workflow ?J s wid = (Err InvalidWorkflowId, s)" if "blank wid"
    using that by (simp add: stub_register_def)
  show "register_workflow ?J s wid = (Err (WorkflowAlreadyExists wid), s)"
    if "\<not> blank wid" "stub_log s wid \<noteq> None"
    using that by (auto simp: stub_register_def stub_log_def split: if_splits)
  show "\<exists>j'. register_workflow ?J s wid = (Ok (), j') \<and> stub_valid j'
      \<and> stub_log j' = (stub_log s)(wid \<mapsto> Map.empty)" if "\<not> blank wid" "stub_log s wid = None"
    using stub_register_fresh [OF ok that] by simp
  show "run_step_typed ?J s wid seq name c w = (Err (UnknownWorkflow wid), s, w)"
    if "stub_log s wid = None"
    using unknown [OF that] by (simp add: stub_run_step_def stub_defs)
  show "run_step_typed ?J s wid seq name c w = (result_map_err Json (from_json json), s, w)"
    if "stub_log s wid = Some m" "m seq = Some json"
    using known(1) [OF that(1)] known(2) [OF that(1), of seq] that(2)
    by (simp add: stub_run_step_def stub_defs)
  show "run_step_typed ?J s wid seq name c w = (Err e, s, w')"
    if "stub_log s wid = Some m" "m seq = None" "c w = (Err e, w')"
    using known(1) [OF that(1)] known(2) [OF that(1), of seq] that
    by (simp add: stub_run_step_def stub_defs)
  show "run_step_typed ?J s wid seq name c w = (Err (Json x), s, w')"
    if "stub_log s wid = Some m" "m seq = None" "c w = (Ok v, w')" "to_json v = Err x"
    using known(1) [OF that(1)] known(2) [OF that(1), of seq] that
    by (simp add: stub_run_step_def stub_defs)
  show "\<exists>j'. run_step_typed ?J s wid seq name c w = (Ok v, j', w') \<and> stub_valid j'
      \<and> stub_log j' = (stub_log s)(wid \<mapsto> m(seq \<mapsto> json))"
    if "stub_log s wid = Some m" "m seq = None" "c w = (Ok v, w')" "to_json v = Ok json"
    using known(1) [OF that(1)] known(2) [OF that(1), of seq] that
      stub_store [OF ok that(1) refl refl, of seq json]
    by (auto simp: stub_run_step_def stub_defs Let_def)
qed

section \<open>Properties\<close>

text \<open>
  A step of a workflow that completed is durable: running the same step again, with any body, gives
  the recorded value, does not execute the body and leaves the journal as it is. The condition is
  that the value survives \<open>serde_json\<close>.
\<close>

theorem completed_steps_are_not_repeated:
  fixes c c' :: "'w \<Rightarrow> ('x workflow_error + 't) \<times> 'w"
  assumes "stub_valid s" and "stub_run_step to_json from_json s wid seq name c w = (Ok v, s', w')"
    and "\<And>text. to_json v = Ok text \<Longrightarrow> from_json text = Ok v"
  shows "stub_run_step to_json from_json s' wid seq name' c' u = (Ok v, s', u)"
  using stub.step_resumes [of s to_json from_json wid seq name c w v s' w' name' c' u] assms
  by (simp add: network_journal_def)

definition number_to_json :: "nat \<Rightarrow> unit + string" where
  "number_to_json n = Ok (replicate n CHR ''1'')"

definition number_from_json :: "string \<Rightarrow> unit + nat" where
  "number_from_json text = Ok (length text)"

lemma completed_steps_are_not_repeated_witness:
  "stub_run_step number_to_json number_from_json
     \<lparr>config = default_config, inner = [(''w'', [(0, ''11'')])], registered = [(''w'', ())]\<rparr>
     ''w'' 0 ''again'' (\<lambda>n. (Ok 5, n + 1)) (1 :: nat)
   = (Ok 2, \<lparr>config = default_config, inner = [(''w'', [(0, ''11'')])], registered = [(''w'', ())]\<rparr>, 1)"
proof -
  have "stub_run_step number_to_json number_from_json
     \<lparr>config = default_config, inner = [], registered = [(''w'', ())]\<rparr>
     ''w'' 0 ''first'' (\<lambda>n. (Ok 2, n + 1)) (0 :: nat)
   = (Ok 2, \<lparr>config = default_config, inner = [(''w'', [(0, ''11'')])], registered = [(''w'', ())]\<rparr>, 1)"
    by (simp add: stub_run_step_def stub_defs number_to_json_def numeral_2_eq_2)
  from completed_steps_are_not_repeated [OF _ this] show ?thesis
    by (simp add: stub_valid_def number_to_json_def number_from_json_def)
qed

end
