(* ===== verification/Machines.thy ===== *)
theory Machines
  imports Runtime Journals Matching
begin

text \<open>
  \<open>crates/id_effect_fsm/src/\<close> \<open>machine.rs\<close>, \<open>interpreter.rs\<close>, \<open>saga.rs\<close>, \<open>workflow.rs\<close>,
  \<open>matcher.rs\<close> and \<open>error.rs\<close>.

  Transition tables and action tables are hash maps, here association lists with distinct keys.
  Effect factories give an effect on a world \<open>'w\<close>; running one that never completes is \<open>None\<close>.
\<close>

section \<open>Errors\<close>

datatype ('s, 'e) fsm_error = NoTransition 's 'e

datatype 'e saga_error = Forward 'e | Compensate 'e

datatype ('s, 'e, 'err) run_error = Transition "('s, 'e) fsm_error" | EffectError 'err

section \<open>Transition tables and machines\<close>

record ('s, 'e) transition_table =
  edges :: "(('s \<times> 'e) \<times> 's) list"

definition table_new :: "('s, 'e) transition_table" where
  "table_new = \<lparr>edges = []\<rparr>"

definition on_event ::
  "('s, 'e) transition_table \<Rightarrow> 's \<Rightarrow> 'e \<Rightarrow> 's \<Rightarrow> ('s, 'e) transition_table" where
  "on_event t src ev dst = t\<lparr>edges := AList.update (src, ev) dst (edges t)\<rparr>"

definition next_state :: "('s, 'e) transition_table \<Rightarrow> 's \<Rightarrow> 'e \<Rightarrow> 's option" where
  "next_state t src ev = map_of (edges t) (src, ev)"

definition table_edges :: "('s, 'e) transition_table \<Rightarrow> ('s \<times> 'e \<times> 's) list" where
  "table_edges t = map (\<lambda>((src, ev), dst). (src, ev, dst)) (edges t)"

definition table_len :: "('s, 'e) transition_table \<Rightarrow> nat" where
  "table_len t = length (edges t)"

definition table_is_empty :: "('s, 'e) transition_table \<Rightarrow> bool" where
  "table_is_empty t = (edges t = [])"

record ('s, 'e) state_machine =
  initial :: 's
  current :: 's
  table :: "('s, 'e) transition_table"

definition machine_new :: "'s \<Rightarrow> ('s, 'e) transition_table \<Rightarrow> ('s, 'e) state_machine" where
  "machine_new s t = \<lparr>initial = s, current = s, table = t\<rparr>"

definition machine_state :: "('s, 'e) state_machine \<Rightarrow> 's" where
  "machine_state m = current m"

definition machine_reset :: "('s, 'e) state_machine \<Rightarrow> ('s, 'e) state_machine" where
  "machine_reset m = m\<lparr>current := initial m\<rparr>"

definition set_state :: "('s, 'e) state_machine \<Rightarrow> 's \<Rightarrow> ('s, 'e) state_machine" where
  "set_state m s = m\<lparr>current := s\<rparr>"

definition machine_step ::
  "('s, 'e) state_machine \<Rightarrow> 'e \<Rightarrow> (('s, 'e) fsm_error + 's) \<times> ('s, 'e) state_machine" where
  "machine_step m ev = (let src = current m in
     case next_state (table m) src ev of
       Some dst \<Rightarrow> (Ok dst, m\<lparr>current := dst\<rparr>)
     | None \<Rightarrow> (Err (NoTransition src ev), m))"

section \<open>Effects on transitions\<close>

record ('s, 'e, 'a, 'err, 'r, 'w) interpreter =
  actions :: "(('s \<times> 'e) \<times> ('a, 'err, 'r, 'w) effect) list"

definition interpreter_new :: "('s, 'e, 'a, 'err, 'r, 'w) interpreter" where
  "interpreter_new = \<lparr>actions = []\<rparr>"

definition on_transition ::
  "('s, 'e, 'a, 'err, 'r, 'w) interpreter \<Rightarrow> 's \<Rightarrow> 'e \<Rightarrow> ('a, 'err, 'r, 'w) effect
    \<Rightarrow> ('s, 'e, 'a, 'err, 'r, 'w) interpreter" where
  "on_transition i src ev eff = i\<lparr>actions := AList.update (src, ev) eff (actions i)\<rparr>"

definition interpreter_step ::
  "('s, 'e, 'a, 'err, 'r, 'w) interpreter \<Rightarrow> ('s, 'e) state_machine \<Rightarrow> 'e \<Rightarrow> 'r \<Rightarrow> 'w
    \<Rightarrow> ((('s, 'e, 'err) run_error + 's) \<times> ('s, 'e) state_machine \<times> 'w) option" where
  "interpreter_step i m ev env w =
     (let src = machine_state m;
          go = (\<lambda>w'. case machine_step m ev of (out, m') \<Rightarrow> Some (result_map_err Transition out, m', w')) in
      case map_of (actions i) (src, ev) of
        None \<Rightarrow> go w
      | Some eff \<Rightarrow> Option.bind (run_blocking eff env w) (\<lambda>(out, w').
          case out of Inl e \<Rightarrow> Some (Err (EffectError e), m, w') | Inr _ \<Rightarrow> go w'))"

fun interpreter_run ::
  "('s, 'e, 'a, 'err, 'r, 'w) interpreter \<Rightarrow> ('s, 'e) state_machine \<Rightarrow> 'e list \<Rightarrow> 'r \<Rightarrow> 'w
    \<Rightarrow> ((('s, 'e, 'err) run_error + 's) \<times> ('s, 'e) state_machine \<times> 'w) option" where
  "interpreter_run i m [] env w = Some (Ok (machine_state m), m, w)"
| "interpreter_run i m (ev # evs) env w =
     Option.bind (interpreter_step i m ev env w) (\<lambda>(out, m', w').
       case out of Inl e \<Rightarrow> Some (Err e, m', w') | Inr _ \<Rightarrow> interpreter_run i m' evs env w')"

section \<open>Sagas\<close>

record ('a, 'c, 'err, 'r, 'w) saga_step =
  step_name :: string
  forward :: "('a, 'err, 'r, 'w) effect"
  compensate :: "('c, 'err, 'r, 'w) effect option"

definition forward_step :: "string \<Rightarrow> ('a, 'err, 'r, 'w) effect \<Rightarrow> ('a, 'c, 'err, 'r, 'w) saga_step" where
  "forward_step name mk = \<lparr>step_name = name, forward = mk, compensate = None\<rparr>"

definition with_compensate ::
  "string \<Rightarrow> ('a, 'err, 'r, 'w) effect \<Rightarrow> ('c, 'err, 'r, 'w) effect \<Rightarrow> ('a, 'c, 'err, 'r, 'w) saga_step"
where
  "with_compensate name mk undo = \<lparr>step_name = name, forward = mk, compensate = Some undo\<rparr>"

type_synonym ('a, 'c, 'err, 'r, 'w) saga = "('a, 'c, 'err, 'r, 'w) saga_step list"

definition saga_new :: "('a, 'c, 'err, 'r, 'w) saga" where
  "saga_new = []"

definition saga_add ::
  "('a, 'c, 'err, 'r, 'w) saga \<Rightarrow> ('a, 'c, 'err, 'r, 'w) saga_step \<Rightarrow> ('a, 'c, 'err, 'r, 'w) saga" where
  "saga_add steps s = steps @ [s]"

text \<open>The loop of \<open>compensate_indices\<close> over the indices, already reversed.\<close>

fun compensate_loop ::
  "('a, 'c, 'err, 'r, 'w) saga \<Rightarrow> nat list \<Rightarrow> 'r \<Rightarrow> 'w \<Rightarrow> (('err saga_error + unit) \<times> 'w) option" where
  "compensate_loop steps [] env w = Some (Ok (), w)"
| "compensate_loop steps (idx # rest) env w = (case compensate (steps ! idx) of
     None \<Rightarrow> compensate_loop steps rest env w
   | Some undo \<Rightarrow> Option.bind (run_blocking undo env w) (\<lambda>(out, w').
       case out of Inl e \<Rightarrow> Some (Err (Compensate e), w') | Inr _ \<Rightarrow> compensate_loop steps rest env w'))"

definition compensate_indices ::
  "('a, 'c, 'err, 'r, 'w) saga \<Rightarrow> nat list \<Rightarrow> 'r \<Rightarrow> 'w \<Rightarrow> (('err saga_error + unit) \<times> 'w) option" where
  "compensate_indices steps indices env w = compensate_loop steps (rev indices) env w"

fun saga_loop ::
  "('a, 'c, 'err, 'r, 'w) saga \<Rightarrow> (nat \<times> ('a, 'c, 'err, 'r, 'w) saga_step) list \<Rightarrow> nat list \<Rightarrow> 'r \<Rightarrow> 'w
    \<Rightarrow> (('err saga_error + unit) \<times> 'w) option" where
  "saga_loop steps [] completed env w = Some (Ok (), w)"
| "saga_loop steps ((idx, s) # rest) completed env w =
     Option.bind (run_blocking (forward s) env w) (\<lambda>(out, w'). case out of
       Inr _ \<Rightarrow> saga_loop steps rest (completed @ [idx]) env w'
     | Inl err \<Rightarrow> Option.bind (compensate_indices steps completed env w') (\<lambda>(undo, w'').
         case undo of Inl e \<Rightarrow> Some (Err e, w'') | Inr _ \<Rightarrow> Some (Err (Forward err), w'')))"

definition saga_run ::
  "('a, 'c, 'err, 'r, 'w) saga \<Rightarrow> 'r \<Rightarrow> 'w \<Rightarrow> (('err saga_error + unit) \<times> 'w) option" where
  "saga_run steps env w = saga_loop steps (enumerate 0 steps) [] env w"

definition saga_len :: "('a, 'c, 'err, 'r, 'w) saga \<Rightarrow> nat" where
  "saga_len steps = length steps"

section \<open>Durable machines\<close>

record 's fsm_snapshot =
  snap_state :: 's
  snap_seq :: u32

datatype ('s, 'e, 'x) workflow_fsm_error =
    WorkflowFailed "'x workflow_error" | TransitionFailed "('s, 'e) fsm_error"

definition register_fsm ::
  "('j, 's fsm_snapshot, 'x, unit) step_journal \<Rightarrow> 'j \<Rightarrow> string \<Rightarrow> ('s, 'e) state_machine
    \<Rightarrow> (('s, 'e, 'x) workflow_fsm_error + 's fsm_snapshot) \<times> 'j" where
  "register_fsm J log wid m = (case register_workflow J log wid of
     (Inl e, log') \<Rightarrow> (Err (WorkflowFailed e), log')
   | (Inr _, log') \<Rightarrow>
       let snapshot = \<lparr>snap_state = machine_state m, snap_seq = 0\<rparr> in
       (case run_step_typed J log' wid 0 ''fsm_init'' (\<lambda>u. (Ok snapshot, u)) () of
          (Inl e, log'', _) \<Rightarrow> (Err (WorkflowFailed e), log'')
        | (Inr _, log'', _) \<Rightarrow> (Ok snapshot, log'')))"

definition step_durable ::
  "('j, 's fsm_snapshot, 'x, unit) step_journal \<Rightarrow> 'j \<Rightarrow> string \<Rightarrow> ('s, 'e) state_machine \<Rightarrow> 'e \<Rightarrow> string
    \<Rightarrow> (('s, 'e, 'x) workflow_fsm_error + 's fsm_snapshot) \<times> 'j \<times> ('s, 'e) state_machine" where
  "step_durable J log wid m ev event_name = (case has_workflow J log wid of
     Inl e \<Rightarrow> (Err (WorkflowFailed e), log, m)
   | Inr known \<Rightarrow>
       if \<not> known then (Err (WorkflowFailed (UnknownWorkflow wid)), log, m)
       else (case completed_step_count J log wid of
         Inl e \<Rightarrow> (Err (WorkflowFailed e), log, m)
       | Inr next_seq \<Rightarrow>
           let name = ''fsm_'' @ event_name; src = machine_state m in
           (case next_state (table m) src ev of
              None \<Rightarrow> (Err (TransitionFailed (NoTransition src ev)), log, m)
            | Some pending \<Rightarrow>
                (case run_step_typed J log wid next_seq name
                   (\<lambda>u. (Ok \<lparr>snap_state = pending, snap_seq = next_seq\<rparr>, u)) () of
                   (Inl e, log', _) \<Rightarrow> (Err (WorkflowFailed e), log', m)
                 | (Inr snapshot, log', _) \<Rightarrow> (Ok snapshot, log', set_state m (snap_state snapshot))))))"

definition restore_state ::
  "('j, 's fsm_snapshot, 'x, unit) step_journal \<Rightarrow> (string \<Rightarrow> 'x + 's fsm_snapshot) \<Rightarrow> 'j \<Rightarrow> string
    \<Rightarrow> ('s, 'e) state_machine
    \<Rightarrow> (('s, 'e, 'x) workflow_fsm_error + 's fsm_snapshot) \<times> ('s, 'e) state_machine" where
  "restore_state J from_json log wid m = (case completed_step_count J log wid of
     Inl e \<Rightarrow> (Err (WorkflowFailed e), m)
   | Inr count \<Rightarrow>
       if count = 0 then (Err (WorkflowFailed (UnknownWorkflow wid)), m)
       else let latest_seq = count - 1 in
         (case completed_json J log wid latest_seq of
            Inl e \<Rightarrow> (Err (WorkflowFailed e), m)
          | Inr None \<Rightarrow> (Err (WorkflowFailed InvalidWorkflowId), m)
          | Inr (Some json) \<Rightarrow> (case from_json json of
              Inl e \<Rightarrow> (Err (WorkflowFailed (Json e)), m)
            | Inr snap \<Rightarrow> (Ok snap, set_state m (snap_state snap)))))"

section \<open>Tagged events\<close>

record 'e tagged_event =
  event_tag :: string
  event_payload :: 'e

definition tagged_event_new :: "string \<Rightarrow> 'e \<Rightarrow> 'e tagged_event" where
  "tagged_event_new t e = \<lparr>event_tag = t, event_payload = e\<rparr>"

definition event_matcher :: "('e tagged_event, 'a) matcher" where
  "event_matcher = matcher_new"

definition classify_event :: "('e tagged_event, 'a) matcher \<Rightarrow> string \<Rightarrow> 'e \<Rightarrow> 'a option" where
  "classify_event m t e = exhaustive m (tagged_event_new t e)"

section \<open>Runs of a machine\<close>

fun step_all :: "('s, 'e) state_machine \<Rightarrow> 'e list \<Rightarrow> (('s, 'e) fsm_error + unit) \<times> ('s, 'e) state_machine" where
  "step_all m [] = (Ok (), m)"
| "step_all m (ev # evs) = (case machine_step m ev of
     (Inl e, m') \<Rightarrow> (Err e, m') | (Inr _, m') \<Rightarrow> step_all m' evs)"

lemma machine_step_table [simp]: "table (snd (machine_step m ev)) = table m"
  by (auto simp: machine_step_def Let_def split: option.splits)

lemma next_state_on_event:
  "next_state (on_event t src ev dst) src' ev' = (if (src', ev') = (src, ev) then Some dst else next_state t src' ev')"
  by (auto simp: next_state_def on_event_def map_of_update)

lemma interpreter_run_states:
  assumes "interpreter_run i m evs env w = Some (out, m', w')"
  shows "\<exists>k \<le> length evs. m' = snd (step_all m (take k evs))
    \<and> (case out of Inr s \<Rightarrow> k = length evs \<and> s = machine_state m' \<and> fst (step_all m evs) = Ok ()
       | Inl _ \<Rightarrow> fst (step_all m (take k evs)) = Ok () \<and> k < length evs)"
  using assms
proof (induction evs arbitrary: m w)
  case Nil
  then show ?case by (auto simp: machine_state_def)
next
  case (Cons ev evs)
  then obtain o1 m1 w1 where s: "interpreter_step i m ev env w = Some (o1, m1, w1)"
    and rest: "(case o1 of Inl e \<Rightarrow> Some (Err e, m1, w1) | Inr _ \<Rightarrow> interpreter_run i m1 evs env w1)
      = Some (out, m', w')"
    by (auto simp: Option.bind_eq_Some_conv)
  show ?case
  proof (cases o1)
    case (Inl e)
    then have "m1 = m"
      using s by (auto simp: interpreter_step_def Let_def machine_step_def machine_state_def
          Option.bind_eq_Some_conv split: option.splits sum.splits) (metis sumE)+
    with Inl rest show ?thesis by (intro exI [of _ 0]) auto
  next
    case (Inr d)
    then have step: "machine_step m ev = (Ok d, m1)"
      using s by (auto simp: interpreter_step_def Let_def machine_step_def machine_state_def
          Option.bind_eq_Some_conv split: option.splits sum.splits) (metis sumE)+
    from Inr rest have "interpreter_run i m1 evs env w1 = Some (out, m', w')" by simp
    from Cons.IH [OF this] obtain k where "k \<le> length evs" "m' = snd (step_all m1 (take k evs))"
      "case out of Inr s \<Rightarrow> k = length evs \<and> s = machine_state m' \<and> fst (step_all m1 evs) = Ok ()
       | Inl _ \<Rightarrow> fst (step_all m1 (take k evs)) = Ok () \<and> k < length evs"
      by blast
    with step show ?thesis by (intro exI [of _ "Suc k"]) (auto split: sum.splits)
  qed
qed

section \<open>Sagas as two sequences of effects\<close>

text \<open>Run effects in order up to the first error; count the ones that succeeded.\<close>

fun run_all :: "('a, 'err, 'r, 'w) effect list \<Rightarrow> 'r \<Rightarrow> 'w \<Rightarrow> (nat \<times> 'err option \<times> 'w) option" where
  "run_all [] env w = Some (0, None, w)"
| "run_all (eff # effs) env w = Option.bind (run_blocking eff env w) (\<lambda>(out, w').
     case out of
       Inl e \<Rightarrow> Some (0, Some e, w')
     | Inr _ \<Rightarrow> map_option (\<lambda>(k, e, w''). (Suc k, e, w'')) (run_all effs env w'))"

definition undo_outcome :: "(nat \<times> 'err option \<times> 'w) option \<Rightarrow> (('err saga_error + unit) \<times> 'w) option" where
  "undo_outcome x = map_option (\<lambda>(_, e, w).
     (case e of None \<Rightarrow> Ok () | Some e \<Rightarrow> Err (Compensate e), w)) x"

lemma compensate_loop_run_all:
  "compensate_loop steps idxs env w
    = undo_outcome (run_all (List.map_filter (\<lambda>i. compensate (steps ! i)) idxs) env w)"
proof (induction idxs arbitrary: w)
  case Nil
  show ?case by (simp add: undo_outcome_def map_filter_simps)
next
  case (Cons i idxs)
  show ?case
  proof (cases "compensate (steps ! i)")
    case None
    with Cons show ?thesis by (simp add: map_filter_simps)
  next
    case (Some u)
    with Cons show ?thesis
      by (cases "run_blocking u env w")
        (auto simp: map_filter_simps undo_outcome_def option.map_comp comp_def case_prod_unfold
          split: sum.splits)
  qed
qed

lemma map_filter_rev: "List.map_filter f (rev xs) = rev (List.map_filter f xs)"
  by (simp add: List.map_filter_def rev_map rev_filter)

lemma map_filter_upt: "k \<le> length xs
    \<Longrightarrow> List.map_filter (\<lambda>i. f (xs ! i)) [0..<k] = List.map_filter f (take k xs)"
  by (induction k) (auto simp: take_Suc_conv_app_nth List.map_filter_def)

definition saga_spec :: "('a, 'c, 'err, 'r, 'w) saga \<Rightarrow> 'r \<Rightarrow> 'w \<Rightarrow> (('err saga_error + unit) \<times> 'w) option" where
  "saga_spec steps env w = Option.bind (run_all (map forward steps) env w) (\<lambda>(k, failure, w').
     case failure of
       None \<Rightarrow> Some (Ok (), w')
     | Some e \<Rightarrow> Option.bind (run_all (rev (List.map_filter compensate (take k steps))) env w')
         (\<lambda>(_, failure', w''). case failure' of
            None \<Rightarrow> Some (Err (Forward e), w'') | Some c \<Rightarrow> Some (Err (Compensate c), w'')))"

lemma saga_loop_run_all:
  "saga_loop (pre @ rest) (enumerate (length pre) rest) [0..<length pre] env w
    = Option.bind (run_all (map forward rest) env w) (\<lambda>(k, failure, w').
       case failure of
         None \<Rightarrow> Some (Ok (), w')
       | Some e \<Rightarrow> Option.bind
           (run_all (rev (List.map_filter compensate (take (length pre + k) (pre @ rest)))) env w')
           (\<lambda>(_, failure', w''). case failure' of
              None \<Rightarrow> Some (Err (Forward e), w'') | Some c \<Rightarrow> Some (Err (Compensate c), w'')))"
proof (induction rest arbitrary: pre w)
  case Nil
  show ?case by simp
next
  case (Cons s rest)
  show ?case
  proof (cases "run_blocking (forward s) env w")
    case None
    then show ?thesis by simp
  next
    case (Some r)
    obtain out w1 where r: "r = (out, w1)" by fastforce
    show ?thesis
    proof (cases out)
      case (Inr a)
      have "saga_loop (pre @ s # rest) (enumerate (Suc (length pre)) rest)
          ([0..<length pre] @ [length pre]) env w1
        = saga_loop ((pre @ [s]) @ rest) (enumerate (length (pre @ [s])) rest)
            [0..<length (pre @ [s])] env w1"
        by simp
      with Some r Inr show ?thesis
        unfolding Cons.IH [of "pre @ [s]" w1]
        by (simp add: Option.bind_map_option comp_def case_prod_unfold cong: option.case_cong)
    next
      case (Inl e)
      with Some r show ?thesis
        by (simp add: compensate_indices_def compensate_loop_run_all map_filter_rev
            map_filter_upt [of "length pre" "pre @ s # rest"] undo_outcome_def
            Option.bind_map_option comp_def case_prod_unfold)
          (auto intro!: bind_option_cong split: option.splits)
    qed
  qed
qed

section \<open>Properties\<close>

text \<open>
  C12. A saga runs its forward effects in order up to the first failure. If none fails it succeeds.
  Otherwise the compensations of exactly the completed steps that have one run in reverse order, up
  to the first of them that fails; the result is the forward error, or the compensation's error,
  which then hides the forward one and leaves the earlier steps uncompensated. If an effect never
  completes, neither does the saga.
\<close>

theorem saga_runs_forward_then_back: "saga_run steps env w = saga_spec steps env w"
  using saga_loop_run_all [of "[]" steps env w, unfolded list.size add_0 append_Nil upt_0]
  by (simp add: saga_run_def saga_spec_def)

text \<open>
  The effect registered for a transition runs before the table is consulted: with no such
  transition the step fails after the effect has happened, and a failing effect keeps the machine
  where it is.
\<close>

theorem interpreter_effects_precede_transitions:
  assumes "map_of (actions i) (machine_state m, ev) = Some eff"
  shows "(run_blocking eff env w = Some (Ok a, w') \<longrightarrow> next_state (table m) (machine_state m) ev = None
      \<longrightarrow> interpreter_step i m ev env w
        = Some (Err (Transition (NoTransition (machine_state m) ev)), m, w'))
    \<and> (run_blocking eff env w = Some (Err e, w')
      \<longrightarrow> interpreter_step i m ev env w = Some (Err (EffectError e), m, w'))"
  using assms by (simp add: interpreter_step_def machine_step_def machine_state_def)

section \<open>Durable runs\<close>

fun durable_all ::
  "('j, 's fsm_snapshot, 'x, unit) step_journal \<Rightarrow> 'j \<Rightarrow> string \<Rightarrow> ('s, 'e) state_machine
    \<Rightarrow> ('e \<times> string) list \<Rightarrow> (('s, 'e, 'x) workflow_fsm_error + unit) \<times> 'j \<times> ('s, 'e) state_machine" where
  "durable_all J log wid m [] = (Ok (), log, m)"
| "durable_all J log wid m ((ev, name) # evs) = (case step_durable J log wid m ev name of
     (Inl e, log', m') \<Rightarrow> (Err e, log', m') | (Inr _, log', m') \<Rightarrow> durable_all J log' wid m' evs)"

lemma card_first_words:
  assumes "k \<le> 2 ^ 32"
  shows "card {q :: u32. unat q < k} = k"
proof -
  have "{q :: u32. unat q < k} = of_nat ` {..<k}"
  proof (intro equalityI subsetI)
    fix q :: u32
    assume "q \<in> {q. unat q < k}"
    then show "q \<in> of_nat ` {..<k}" by (intro image_eqI [of _ _ "unat q"]) auto
  next
    fix q :: u32
    assume "q \<in> of_nat ` {..<k}"
    then show "q \<in> {q. unat q < k}" using assms by (auto simp: unat_of_nat take_bit_eq_mod)
  qed
  moreover have "inj_on (of_nat :: nat \<Rightarrow> u32) {..<k}"
    using assms by (auto simp: inj_on_def word_of_nat_eq_iff take_bit_eq_mod)
  ultimately show ?thesis by (simp add: card_image)
qed

context durable_journal
begin

text \<open>The journal holds the snapshots \<open>0 .. k\<close> of the workflow, the last one being the state \<open>s\<close>.\<close>

definition holds :: "'j \<Rightarrow> string \<Rightarrow> nat \<Rightarrow> 't \<Rightarrow> bool" where
  "holds j wid k snap = (valid j \<and> (\<exists>m text. log j wid = Some m \<and> dom m = {q. unat q \<le> k}
     \<and> m (of_nat k) = Some text \<and> from_json text = Ok snap))"

lemma holds_count:
  assumes "holds j wid k snap" "Suc k < 2 ^ 32"
  shows "completed_step_count J j wid = Ok (of_nat (Suc k))"
proof -
  obtain m where j: "valid j" "log j wid = Some m" "dom m = {q. unat q < Suc k}"
    using assms(1) by (auto simp: holds_def less_Suc_eq_le)
  show ?thesis
    using count_known [OF j(1,2)] card_first_words [of "Suc k"] j(3) assms(2) by simp
qed

lemma holds_step:
  assumes "holds j wid k snap" "Suc k < 2 ^ 32" "to_json v = Ok text" "from_json text = Ok v"
    and "c w = (Ok v, w')"
  shows "\<exists>j'. run_step_typed J j wid (of_nat (Suc k)) name c w = (Ok v, j', w') \<and> holds j' wid (Suc k) v"
proof -
  obtain m where j: "valid j" "log j wid = Some m" "dom m = {q. unat q \<le> k}"
    using assms(1) by (auto simp: holds_def)
  have u: "unat (of_nat (Suc k) :: u32) = Suc k"
    using assms(2) by (simp only: unat_of_nat take_bit_eq_mod) simp
  then have "(of_nat (Suc k) :: u32) \<notin> dom m" using j(3) by auto
  then have none: "m (of_nat (Suc k)) = None" by blast
  obtain j' where j': "run_step_typed J j wid (of_nat (Suc k)) name c w = (Ok v, j', w')"
    "valid j'" "log j' = (log j)(wid \<mapsto> m(of_nat (Suc k) \<mapsto> text))"
    using step_done [where c = c and w = w, OF j(1,2) none assms(5,3)] by blast
  have "dom (m(of_nat (Suc k) \<mapsto> text)) = {q. unat q \<le> Suc k}"
  proof -
    have "unat q = Suc k \<longleftrightarrow> q = of_nat (Suc k)" for q :: u32
      using u by (metis word_unat_eq_iff)
    then show ?thesis using j(3) by (auto simp: le_Suc_eq simp del: of_nat_Suc)
  qed
  with j' assms(4) show ?thesis
    by (auto simp: holds_def simp del: of_nat_Suc)
qed

end

text \<open>The durable run follows the machine, and the journal always ends with the state reached.\<close>

lemma durable_all_follows:
  fixes J :: "('j, 's fsm_snapshot, 'x, unit) step_journal"
  assumes J: "durable_journal J to_json from_json valid log"
    and serde: "\<And>snap. \<exists>text. to_json snap = Ok text \<and> from_json text = Ok snap"
    and "durable_journal.holds from_json valid log j wid k snap" "snap_state snap = machine_state m"
    and "k + length evs < 2 ^ 32 - 1"
  shows "\<exists>j' k' snap'. durable_all J j wid m evs
      = (result_map_err TransitionFailed (fst (step_all m (map fst evs))), j', snd (step_all m (map fst evs)))
    \<and> durable_journal.holds from_json valid log j' wid k' snap'
    \<and> snap_state snap' = machine_state (snd (step_all m (map fst evs))) \<and> k' \<le> k + length evs"
  using assms(3-)
proof (induction evs arbitrary: j k m snap)
  case Nil
  then show ?case by fastforce
next
  case (Cons e evs)
  obtain ev name where e: "e = (ev, name)" by fastforce
  have valid: "valid j" "log j wid \<noteq> None"
    using Cons.prems(1) by (auto simp: durable_journal.holds_def [OF J])
  have count: "completed_step_count J j wid = Ok (of_nat (Suc k))"
    using durable_journal.holds_count [OF J Cons.prems(1)] Cons.prems(3) by simp
  have has: "has_workflow J j wid = Ok True"
    using durable_journal.has [OF J valid(1)] valid(2) by simp
  show ?case
  proof (cases "next_state (table m) (machine_state m) ev")
    case None
    then have "step_durable J j wid m ev name
        = (Err (TransitionFailed (NoTransition (machine_state m) ev)), j, m)"
      by (simp add: step_durable_def has count Let_def del: of_nat_Suc)
    moreover have "machine_step m ev = (Err (NoTransition (machine_state m) ev), m)"
      using None by (simp add: machine_step_def machine_state_def)
    ultimately show ?thesis using Cons.prems(1,2) by (auto simp: e intro!: exI [of _ k] exI [of _ snap])
  next
    case (Some dst)
    let ?snap = "\<lparr>snap_state = dst, snap_seq = of_nat (Suc k)\<rparr>"
    obtain js where js: "to_json ?snap = Ok js" "from_json js = Ok ?snap"
      using serde by blast
    obtain j' where run: "run_step_typed J j wid (of_nat (Suc k)) (''fsm_'' @ name) (\<lambda>u. (Ok ?snap, u)) ()
        = (Ok ?snap, j', ())"
      and j': "durable_journal.holds from_json valid log j' wid (Suc k) ?snap"
      using durable_journal.holds_step [OF J Cons.prems(1) _ js, where c = "\<lambda>u. (Ok ?snap, u)"
          and w = "()" and w' = "()" and name = "''fsm_'' @ name"] Cons.prems(3)
      by auto
    let ?m = "set_state m dst"
    have "step_durable J j wid m ev name = (Ok ?snap, j', ?m)"
      using run by (simp add: step_durable_def has count Some Let_def del: of_nat_Suc)
    moreover have "machine_step m ev = (Ok dst, ?m)"
      using Some by (simp add: machine_step_def machine_state_def set_state_def)
    moreover have "snap_state ?snap = machine_state ?m"
      by (simp add: machine_state_def set_state_def)
    ultimately show ?thesis
      using Cons.IH [OF j', of ?m] Cons.prems(3) by (fastforce simp: e)
  qed
qed


lemma restore_holds:
  fixes J :: "('j, 's fsm_snapshot, 'x, unit) step_journal"
  assumes J: "durable_journal J to_json from_json valid log"
    and "durable_journal.holds from_json valid log j wid k snap" "Suc k < 2 ^ 32"
  shows "restore_state J from_json j wid m = (Ok snap, set_state m (snap_state snap))"
proof -
  obtain L js where L: "valid j" "log j wid = Some L" "L (of_nat k) = Some js" "from_json js = Ok snap"
    using assms(2) by (auto simp: durable_journal.holds_def [OF J])
  have "(of_nat (Suc k) :: u32) \<noteq> 0"
    using assms(3) by (simp only: word_of_nat_eq_0_iff) (auto dest: dvd_imp_le)
  moreover have "(of_nat (Suc k) :: u32) - 1 = of_nat k" by simp
  ultimately show ?thesis
    using durable_journal.holds_count [OF J assms(2,3)] durable_journal.completed_known [OF J L(1,2)] L
    by (simp add: restore_state_def Let_def del: of_nat_Suc)
qed

lemma register_holds:
  fixes J :: "('j, 's fsm_snapshot, 'x, unit) step_journal" and m :: "('s, 'e) state_machine"
  assumes J: "durable_journal J to_json from_json valid log"
    and serde: "\<And>snap. \<exists>text. to_json snap = Ok text \<and> from_json text = Ok snap"
    and j: "valid j" "\<not> blank wid" "log j wid = None"
  shows "\<exists>j'. register_fsm J j wid m = (Ok \<lparr>snap_state = machine_state m, snap_seq = 0\<rparr>, j')
    \<and> durable_journal.holds from_json valid log j' wid 0 \<lparr>snap_state = machine_state m, snap_seq = 0\<rparr>"
proof -
  let ?snap = "\<lparr>snap_state = machine_state m, snap_seq = 0\<rparr>"
  obtain js where js: "to_json ?snap = Ok js" "from_json js = Ok ?snap"
    using serde by blast
  obtain j1 where j1: "register_workflow J j wid = (Ok (), j1)" "valid j1" "log j1 wid = Some Map.empty"
    using durable_journal.register_fresh [OF J j] by auto
  obtain j2 where j2: "run_step_typed J j1 wid 0 ''fsm_init'' (\<lambda>u. (Ok ?snap, u)) () = (Ok ?snap, j2, ())"
    "valid j2" "log j2 wid = Some [0 \<mapsto> js]"
    using durable_journal.step_done [OF J j1(2,3), where seq = 0 and c = "\<lambda>u. (Ok ?snap, u)" and v = ?snap
        and s = js and w = "()" and w' = "()" and name = "''fsm_init''"] js(1) by auto
  have "{q :: u32. unat q \<le> 0} = {0}" by (auto simp: unat_eq_zero)
  with j1 j2 js show ?thesis
    by (simp add: register_fsm_def Let_def durable_journal.holds_def [OF J])
qed

text \<open>
  C11. A state machine whose steps are recorded in a journal survives a restart. Registering a fresh
  workflow records the initial state; running any events then gives the results and the states
  of the machine without the journal, up to the first event that has no transition; and
  restoring any machine from the journal afterwards puts it in the last state reached. The
  conditions are that snapshots survive \<open>serde_json\<close> and that the sequence numbers fit in
  \<open>u32\<close>.
\<close>

theorem durable_machine_recovers:
  fixes to_json :: "'s fsm_snapshot \<Rightarrow> 'x + string" and m m' :: "('s, 'e) state_machine"
  assumes "stub_valid s" "\<not> blank wid" "stub_log s wid = None"
    and serde: "\<And>snap. \<exists>text. to_json snap = Ok text \<and> from_json text = Ok snap"
    and "length evs < 2 ^ 32 - 1"
  shows "\<exists>s1 s2 snap.
      register_fsm (network_journal to_json from_json) s wid m
        = (Ok \<lparr>snap_state = machine_state m, snap_seq = 0\<rparr>, s1)
    \<and> durable_all (network_journal to_json from_json) s1 wid m evs
        = (result_map_err TransitionFailed (fst (step_all m (map fst evs))), s2,
           snd (step_all m (map fst evs)))
    \<and> snap_state snap = machine_state (snd (step_all m (map fst evs)))
    \<and> restore_state (network_journal to_json from_json) from_json s2 wid m'
        = (Ok snap, set_state m' (snap_state snap))"
proof -
  let ?J = "network_journal to_json from_json :: (network_journal_stub, 's fsm_snapshot, 'x, unit) step_journal"
  note J = stub.durable_journal_axioms [of to_json from_json]
  obtain s1 where s1: "register_fsm ?J s wid m = (Ok \<lparr>snap_state = machine_state m, snap_seq = 0\<rparr>, s1)"
    "durable_journal.holds from_json stub_valid stub_log s1 wid 0 \<lparr>snap_state = machine_state m, snap_seq = 0\<rparr>"
    using register_holds [OF J serde assms(1-3)] by blast
  obtain s2 k snap where s2: "durable_all ?J s1 wid m evs
      = (result_map_err TransitionFailed (fst (step_all m (map fst evs))), s2, snd (step_all m (map fst evs)))"
    and hold: "durable_journal.holds from_json stub_valid stub_log s2 wid k snap"
    and snap: "snap_state snap = machine_state (snd (step_all m (map fst evs)))" "k \<le> length evs"
    using durable_all_follows [OF J serde s1(2), of m evs] assms(5) by auto
  have "Suc k < 2 ^ 32" using snap(2) assms(5) by linarith
  from restore_holds [OF J hold this] s1(1) s2 snap(1) show ?thesis by blast
qed


definition flag_to_json :: "bool fsm_snapshot \<Rightarrow> unit + string" where
  "flag_to_json snap = Ok ((if snap_state snap then CHR ''t'' else CHR ''f'')
     # replicate (unat (snap_seq snap)) CHR ''1'')"

definition flag_from_json :: "string \<Rightarrow> unit + bool fsm_snapshot" where
  "flag_from_json s = (case s of [] \<Rightarrow> Err ()
     | c # cs \<Rightarrow> Ok \<lparr>snap_state = (c = CHR ''t''), snap_seq = of_nat (length cs)\<rparr>)"

definition switch :: "(bool, unit) state_machine" where
  "switch = machine_new False (on_event table_new False () True)"

lemma durable_machine_recovers_witness:
  "\<exists>s1 s2 snap.
      register_fsm (network_journal flag_to_json flag_from_json) stub_new ''w'' switch
        = (Ok \<lparr>snap_state = False, snap_seq = 0\<rparr>, s1)
    \<and> durable_all (network_journal flag_to_json flag_from_json) s1 ''w'' switch [((), ''go''), ((), ''go'')]
        = (Err (TransitionFailed (NoTransition True ())), s2, set_state switch True)
    \<and> snap_state snap
    \<and> restore_state (network_journal flag_to_json flag_from_json) flag_from_json s2 ''w'' switch
        = (Ok snap, set_state switch True)"
proof -
  have run: "step_all switch [(), ()] = (Err (NoTransition True ()), set_state switch True)"
    by (simp add: switch_def machine_step_def machine_new_def next_state_def on_event_def
        table_new_def set_state_def Let_def)
  have serde: "\<exists>js. flag_to_json snap = Ok js \<and> flag_from_json js = Ok snap" for snap
    by (cases snap) (simp add: flag_to_json_def flag_from_json_def)
  have fresh: "stub_valid stub_new" "\<not> blank ''w''" "stub_log stub_new ''w'' = None"
    by (simp_all add: stub_new_def stub_valid_def blank_def is_whitespace_def stub_log_def with_config_def)
  have start: "machine_state switch = False" "machine_state (set_state switch True) = True"
    by (simp_all add: machine_state_def set_state_def switch_def machine_new_def)
  from durable_machine_recovers [OF fresh serde, of "[((), ''go''), ((), ''go'')]" switch switch]
  show ?thesis
    by (simp add: run start del: durable_all.simps step_all.simps) metis
qed

end
