(* ===== verification/Breakers.thy ===== *)
theory Breakers
  imports Runtime
begin

text \<open>
  \<open>crates/id_effect_resilience/src/circuit_breaker.rs\<close>: the circuit breaker.

  The three \<open>Ref\<close> cells of a breaker and the monotonic clock are fields of the world its calls run
  in, so an effect that is called through the breaker may itself change them: that is how calls
  overlap. An \<open>Instant\<close> and a \<open>Duration\<close> are numbers of nanoseconds; the failure count is a \<open>u32\<close>
  word.
\<close>

datatype circuit_state = Closed | Open | HalfOpen

datatype circuit_breaker_error = CircuitBreakerError

record 'x breaker_world =
  cb_state :: circuit_state
  cb_failures :: u32
  cb_opened_at :: "nat option"
  clock :: nat
  others :: 'x

record circuit_breaker =
  failure_threshold :: u32
  reset_after :: nat

definition breaker_make ::
  "u32 \<Rightarrow> nat \<Rightarrow> (circuit_breaker, 'n, unit, 'x breaker_world) effect" where
  "breaker_make threshold reset = new_async (\<lambda>r w.
     Some (Ok \<lparr>failure_threshold = threshold, reset_after = reset\<rparr>, r,
       w\<lparr>cb_state := Closed, cb_failures := 0, cb_opened_at := None\<rparr>))"

text \<open>The test before the effect runs; \<open>None\<close> fails fast.\<close>

definition admit :: "circuit_breaker \<Rightarrow> 'x breaker_world \<Rightarrow> 'x breaker_world option" where
  "admit cb w = (case cb_state w of
     Open \<Rightarrow> (case cb_opened_at w of
       Some at \<Rightarrow> if reset_after cb \<le> clock w - at then Some (w\<lparr>cb_state := HalfOpen\<rparr>) else None
     | None \<Rightarrow> None)
   | Closed \<Rightarrow> Some w
   | HalfOpen \<Rightarrow> Some w)"

definition record_failure :: "circuit_breaker \<Rightarrow> 'x breaker_world \<Rightarrow> 'x breaker_world" where
  "record_failure cb w =
     (let count = cb_failures w + 1; w1 = w\<lparr>cb_failures := count\<rparr> in
      if failure_threshold cb \<le> count
      then w1\<lparr>cb_state := Open, cb_opened_at := Some (clock w1)\<rparr>
      else if cb_state w1 = HalfOpen
      then w1\<lparr>cb_state := Open, cb_opened_at := Some (clock w1)\<rparr>
      else w1)"

definition breaker_call ::
  "circuit_breaker \<Rightarrow> ('a, 'e, 'r, 'x breaker_world) effect
    \<Rightarrow> ('a, (circuit_breaker_error, 'e) either_or, 'r, 'x breaker_world) effect" where
  "breaker_call cb eff = new_async (\<lambda>r w. case admit cb w of
     None \<Rightarrow> Some (Err (OrLeft CircuitBreakerError), r, w)
   | Some w1 \<Rightarrow> Option.bind (run eff r w1) (\<lambda>(out, r', w2). case out of
       Inr a \<Rightarrow> Some (Ok a, r', w2\<lparr>cb_failures := 0, cb_state := Closed\<rparr>)
     | Inl e \<Rightarrow> Some (Err (OrRight e), r', record_failure cb w2)))"

definition breaker_state :: "(circuit_state, 'n, unit, 'x breaker_world) effect" where
  "breaker_state = new_sync (\<lambda>r w. (Ok (cb_state w), r, w))"

section \<open>The specification\<close>

text \<open>
  What a breaker promises to callers that do not overlap: it remembers the length of the current
  streak of failed calls and when the last of them ended. A call is let through while the streak is
  below the threshold, or once the cooldown has passed.
\<close>

record breaker_spec =
  streak :: nat
  last_failure :: nat

definition spec_admits :: "circuit_breaker \<Rightarrow> nat \<Rightarrow> breaker_spec \<Rightarrow> bool" where
  "spec_admits cb now s = (streak s < unat (failure_threshold cb) \<or> reset_after cb \<le> now - last_failure s)"

text \<open>A call made \<open>wait\<close> after the previous one, that would take \<open>duration\<close> and end in \<open>out\<close>.\<close>

type_synonym ('a, 'e) scripted_call = "nat \<times> nat \<times> ('e + 'a)"

fun spec_calls ::
  "circuit_breaker \<Rightarrow> ('a, 'e) scripted_call list \<Rightarrow> nat \<Rightarrow> breaker_spec
    \<Rightarrow> ((circuit_breaker_error, 'e) either_or + 'a) list" where
  "spec_calls cb [] now s = []"
| "spec_calls cb ((wait, duration, out) # rest) now s =
     (if spec_admits cb (now + wait) s
      then result_map_err OrRight out # spec_calls cb rest (now + wait + duration)
        (case out of
           Inr _ \<Rightarrow> s\<lparr>streak := 0\<rparr>
         | Inl _ \<Rightarrow> \<lparr>streak = Suc (streak s), last_failure = now + wait + duration\<rparr>)
      else Err (OrLeft CircuitBreakerError) # spec_calls cb rest (now + wait) s)"

definition timed :: "nat \<Rightarrow> ('e + 'a) \<Rightarrow> ('a, 'e, 'r, 'x breaker_world) effect" where
  "timed duration out = new_sync (\<lambda>r w. (out, r, w\<lparr>clock := clock w + duration\<rparr>))"

fun run_calls ::
  "circuit_breaker \<Rightarrow> ('a, 'e) scripted_call list \<Rightarrow> 'r \<Rightarrow> 'x breaker_world
    \<Rightarrow> ((circuit_breaker_error, 'e) either_or + 'a) list \<times> 'x breaker_world" where
  "run_calls cb [] r w = ([], w)"
| "run_calls cb ((wait, duration, out) # rest) r w =
     (case run (breaker_call cb (timed duration out)) r (w\<lparr>clock := clock w + wait\<rparr>) of
        None \<Rightarrow> ([], w)
      | Some (res, r', w') \<Rightarrow> (case run_calls cb rest r' w' of (ress, w'') \<Rightarrow> (res # ress, w'')))"

definition breaker_simulates :: "circuit_breaker \<Rightarrow> 'x breaker_world \<Rightarrow> breaker_spec \<Rightarrow> bool" where
  "breaker_simulates cb w s = (unat (cb_failures w) = streak s
     \<and> (if streak s < unat (failure_threshold cb) then cb_state w = Closed
        else cb_state w = Open \<and> cb_opened_at w = Some (last_failure s)))"

lemma admit_simulates:
  assumes "breaker_simulates cb w s"
  shows "admit cb w = (if spec_admits cb (clock w) s
    then Some (if cb_state w = Open then w\<lparr>cb_state := HalfOpen\<rparr> else w) else None)"
  using assms by (auto simp: admit_def breaker_simulates_def spec_admits_def split: if_splits)

lemma record_failure_simulates:
  assumes "unat (cb_failures w) = streak s" "Suc (streak s) < 2 ^ 32"
    and "cb_state w = (if streak s < unat (failure_threshold cb) then Closed else HalfOpen)"
  shows "breaker_simulates cb (record_failure cb w) \<lparr>streak = Suc (streak s), last_failure = clock w\<rparr>
    \<and> clock (record_failure cb w) = clock w"
proof -
  have "unat (cb_failures w + 1) = Suc (streak s)"
    using assms(1,2) by (simp add: unat_word_ariths)
  then show ?thesis using assms(3)
    by (auto simp: record_failure_def breaker_simulates_def word_le_nat_alt Let_def)
qed

lemma call_simulates:
  assumes "breaker_simulates cb w s" "Suc (streak s) < 2 ^ 32" "unat (failure_threshold cb) > 0"
  shows "\<exists>w'. run (breaker_call cb (timed duration out)) r w
      = Some (if spec_admits cb (clock w) s then result_map_err OrRight out
              else Err (OrLeft CircuitBreakerError), r, w')
    \<and> breaker_simulates cb w' (if spec_admits cb (clock w) s then
         (case out of Inr _ \<Rightarrow> s\<lparr>streak := 0\<rparr>
          | Inl _ \<Rightarrow> \<lparr>streak = Suc (streak s), last_failure = clock w + duration\<rparr>) else s)
    \<and> clock w' = (if spec_admits cb (clock w) s then clock w + duration else clock w)"
proof (cases "spec_admits cb (clock w) s")
  case False
  then show ?thesis using assms(1)
    by (simp add: breaker_call_def new_async_def run_def admit_simulates [OF assms(1)])
next
  case True
  define w1 where "w1 = (if cb_state w = Open then w\<lparr>cb_state := HalfOpen\<rparr> else w)"
  define w2 where "w2 = w1\<lparr>clock := clock w1 + duration\<rparr>"
  have admit: "admit cb w = Some w1" using True by (simp add: admit_simulates [OF assms(1)] w1_def)
  have w2: "cb_failures w2 = cb_failures w" "clock w2 = clock w + duration"
    "cb_state w2 = (if streak s < unat (failure_threshold cb) then Closed else HalfOpen)"
    using assms(1) by (auto simp: w1_def w2_def breaker_simulates_def)
  have ran: "run (timed duration out) r w1 = Some (out, r, w2)"
    by (simp add: timed_def new_sync_def run_def w2_def)
  show ?thesis
  proof (cases out)
    case (Inr a)
    then show ?thesis using True admit ran w2 assms(3)
      by (simp add: breaker_call_def new_async_def run_def breaker_simulates_def)
  next
    case (Inl e)
    have "unat (cb_failures w2) = streak s" using assms(1) w2(1) by (simp add: breaker_simulates_def)
    from record_failure_simulates [OF this assms(2) w2(3)] Inl True admit ran w2 show ?thesis
      by (simp add: breaker_call_def new_async_def run_def)
  qed
qed

lemma run_calls_simulate:
  assumes "breaker_simulates cb w s" "streak s + length calls < 2 ^ 32" "0 < unat (failure_threshold cb)"
  shows "fst (run_calls cb calls r w) = spec_calls cb calls (clock w) s"
  using assms(1,2)
proof (induction calls arbitrary: w s r)
  case Nil
  then show ?case by simp
next
  case (Cons c calls)
  obtain wait duration out where c: "c = (wait, duration, out)" by (cases c) auto
  let ?w = "w\<lparr>clock := clock w + wait\<rparr>"
  have "breaker_simulates cb ?w s" using Cons.prems(1) by (simp add: breaker_simulates_def)
  from call_simulates [OF this _ assms(3), of duration out r] Cons.prems(2)
  obtain w' where w': "run (breaker_call cb (timed duration out)) r ?w
      = Some (if spec_admits cb (clock ?w) s then result_map_err OrRight out
              else Err (OrLeft CircuitBreakerError), r, w')"
    and sim: "breaker_simulates cb w' (if spec_admits cb (clock ?w) s then
         (case out of Inr _ \<Rightarrow> s\<lparr>streak := 0\<rparr>
          | Inl _ \<Rightarrow> \<lparr>streak = Suc (streak s), last_failure = clock ?w + duration\<rparr>) else s)"
    and clk: "clock w' = (if spec_admits cb (clock ?w) s then clock ?w + duration else clock ?w)"
    by auto
  from Cons.IH [OF sim, of r] Cons.prems(2) w' clk show ?case
    by (cases out) (auto simp: c split_beta split: if_splits)
qed

section \<open>Properties\<close>



text \<open>
  Half open is not a gate: as long as no probe has ended, every further call is executed as well. And
  a call that was admitted earlier and succeeds late closes a breaker that others have opened in
  the meantime.
\<close>

theorem half_open_admits_every_call:
  assumes "cb_state w = HalfOpen" "run eff r w = Some (Ok a, r', w')"
  shows "run (breaker_call cb eff) r w = Some (Ok a, r', w'\<lparr>cb_failures := 0, cb_state := Closed\<rparr>)"
  using assms by (simp add: breaker_call_def new_async_def run_def admit_def)

end
