(* ===== verification/Events.thy ===== *)
theory Events
  imports Runtime Journals Graphs Ordered_Maps
begin

text \<open>
  \<open>crates/id_effect_events/src/\<close> \<open>event_store.rs\<close>, \<open>projection.rs\<close>, \<open>projection_runner.rs\<close>,
  \<open>cqrs.rs\<close> and \<open>error.rs\<close>: append-only event streams, the projections that fold them, and the
  command and query boundary.

  A value of the \<open>EventStore\<close> trait is the record of its three effects. Generated ids come from
  \<open>uuid\<close>, applied to a counter in the world. The journal file is the text of the file (\<open>None\<close> when it
  cannot be opened), and \<open>serde_json\<close> is the pair \<open>to_json\<close>, \<open>from_json\<close>. The clients and the
  two stores meet in the locale \<open>event_log\<close>.
\<close>

section \<open>Stores\<close>

datatype event_store_error =
    StreamNotFound string
  | VersionConflict string nat nat
  | Io string
  | Serde string
  | SchemaError string
  | GraphFailed string

record 'e stored_event =
  event_id :: string
  version :: nat
  payload :: 'e

record ('e, 'w) event_store =
  append_events :: "string \<Rightarrow> 'e list \<Rightarrow> ('e stored_event list, event_store_error, unit, 'w) effect"
  read_events :: "string \<Rightarrow> nat \<Rightarrow> ('e stored_event list, event_store_error, unit, 'w) effect"
  latest_version :: "string \<Rightarrow> (nat, event_store_error, unit, 'w) effect"

text \<open>The loop both stores share: number the payloads after the events of the stream.\<close>

fun number_events ::
  "(nat \<Rightarrow> string) \<Rightarrow> 'e stored_event list \<Rightarrow> 'e list \<Rightarrow> nat
    \<Rightarrow> 'e stored_event list \<times> 'e stored_event list \<times> nat" where
  "number_events uuid stream [] n = (stream, [], n)"
| "number_events uuid stream (p # ps) n =
     (let stored = \<lparr>event_id = uuid n, version = length stream + 1, payload = p\<rparr> in
      case number_events uuid (stream @ [stored]) ps (Suc n) of
        (stream', out, n') \<Rightarrow> (stream', stored # out, n'))"

subsection \<open>In memory\<close>

record 'e memory_world =
  streams :: "(string \<times> 'e stored_event list) list"
  minted :: nat

definition memory_new :: "'e memory_world" where
  "memory_new = \<lparr>streams = [], minted = 0\<rparr>"

definition stream_of :: "(string \<times> 'v list) list \<Rightarrow> string \<Rightarrow> 'v list" where
  "stream_of ss sid = (case map_of ss sid of None \<Rightarrow> [] | Some s \<Rightarrow> s)"

definition memory_append ::
  "(nat \<Rightarrow> string) \<Rightarrow> string \<Rightarrow> 'e list \<Rightarrow> ('e stored_event list, event_store_error, unit, 'e memory_world) effect"
where
  "memory_append uuid sid events = new_sync (\<lambda>r w.
     case number_events uuid (stream_of (streams w) sid) events (minted w) of
       (stream, out, n) \<Rightarrow>
         (Ok out, r, w\<lparr>streams := AList.update sid stream (streams w), minted := n\<rparr>))"

definition memory_read ::
  "string \<Rightarrow> nat \<Rightarrow> ('e stored_event list, event_store_error, unit, 'e memory_world) effect" where
  "memory_read sid from_version = new_sync (\<lambda>r w. case map_of (streams w) sid of
     None \<Rightarrow> (Ok [], r, w)
   | Some stream \<Rightarrow> (Ok (filter (\<lambda>e. from_version \<le> version e) stream), r, w))"

definition memory_latest :: "string \<Rightarrow> (nat, event_store_error, unit, 'e memory_world) effect" where
  "memory_latest sid = new_sync (\<lambda>r w.
     (Ok (case map_of (streams w) sid of None \<Rightarrow> 0 | Some s \<Rightarrow> length s), r, w))"

definition memory_store :: "(nat \<Rightarrow> string) \<Rightarrow> ('e, 'e memory_world) event_store" where
  "memory_store uuid = \<lparr>append_events = memory_append uuid, read_events = memory_read,
     latest_version = memory_latest\<rparr>"

subsection \<open>In a file\<close>

record 'e journal_record =
  rec_stream :: string
  rec_id :: string
  rec_version :: nat
  rec_payload :: 'e

record file_world =
  content :: "string option"
  file_minted :: nat

text \<open>\<open>BufRead::lines\<close>: split at line feeds, drop one carriage return at the end of a line, no
  line after the last line feed.\<close>

definition lf :: char where "lf = char_of (10 :: nat)"
definition cr :: char where "cr = char_of (13 :: nat)"

definition strip_cr :: "string \<Rightarrow> string" where
  "strip_cr l = (if l \<noteq> [] \<and> last l = cr then butlast l else l)"

text \<open>Only a line that was ended by a line feed loses its carriage return.\<close>

fun file_lines :: "string \<Rightarrow> string \<Rightarrow> string list" where
  "file_lines acc [] = (if acc = [] then [] else [rev acc])"
| "file_lines acc (c # cs) =
     (if c = lf then strip_cr (rev acc) # file_lines [] cs else file_lines (c # acc) cs)"

definition to_stored :: "'e journal_record \<Rightarrow> 'e stored_event" where
  "to_stored rec = \<lparr>event_id = rec_id rec, version = rec_version rec, payload = rec_payload rec\<rparr>"

fun load_lines ::
  "(string \<Rightarrow> string + 'e journal_record) \<Rightarrow> string list \<Rightarrow> (string \<times> 'e stored_event list) list
    \<Rightarrow> event_store_error + (string \<times> 'e stored_event list) list" where
  "load_lines from_json [] ss = Ok ss"
| "load_lines from_json (l # ls) ss =
     (if blank l then load_lines from_json ls ss
      else (case from_json l of
        Inl e \<Rightarrow> Err (Serde e)
      | Inr rec \<Rightarrow> load_lines from_json ls
          (AList.update (rec_stream rec) (stream_of ss (rec_stream rec) @ [to_stored rec]) ss)))"

definition read_all ::
  "string \<Rightarrow> (string \<Rightarrow> string + 'e journal_record) \<Rightarrow> file_world
    \<Rightarrow> event_store_error + (string \<times> 'e stored_event list) list" where
  "read_all no_file from_json w = (case content w of
     None \<Rightarrow> Err (Io no_file)
   | Some text \<Rightarrow> result_map (map (\<lambda>(k, s). (k, sort_key version s)))
       (load_lines from_json (file_lines [] text) []))"

fun write_records ::
  "('e journal_record \<Rightarrow> string + string) \<Rightarrow> 'e journal_record list \<Rightarrow> string
    \<Rightarrow> (event_store_error + unit) \<times> string" where
  "write_records to_json [] text = (Ok (), text)"
| "write_records to_json (rec # recs) text = (case to_json rec of
     Inl e \<Rightarrow> (Err (Serde e), text)
   | Inr line \<Rightarrow> write_records to_json recs (text @ line @ [lf]))"

definition append_records ::
  "string \<Rightarrow> ('e journal_record \<Rightarrow> string + string) \<Rightarrow> 'e journal_record list \<Rightarrow> file_world
    \<Rightarrow> (event_store_error + unit) \<times> file_world" where
  "append_records no_file to_json recs w = (case content w of
     None \<Rightarrow> (Err (Io no_file), w)
   | Some text \<Rightarrow> (case write_records to_json recs text of
       (out, text') \<Rightarrow> (out, w\<lparr>content := Some text'\<rparr>)))"

definition to_record :: "string \<Rightarrow> 'e stored_event \<Rightarrow> 'e journal_record" where
  "to_record sid s = \<lparr>rec_stream = sid, rec_id = event_id s, rec_version = version s, rec_payload = payload s\<rparr>"

definition file_append ::
  "string \<Rightarrow> ('e journal_record \<Rightarrow> string + string) \<Rightarrow> (string \<Rightarrow> string + 'e journal_record)
    \<Rightarrow> (nat \<Rightarrow> string) \<Rightarrow> string \<Rightarrow> 'e list
    \<Rightarrow> ('e stored_event list, event_store_error, unit, file_world) effect" where
  "file_append no_file to_json from_json uuid sid events = new_sync (\<lambda>r w.
     case read_all no_file from_json w of
       Inl e \<Rightarrow> (Err e, r, w)
     | Inr ss \<Rightarrow> (case number_events uuid (stream_of ss sid) events (file_minted w) of
         (stream, out, n) \<Rightarrow>
           (case append_records no_file to_json (map (to_record sid) out) (w\<lparr>file_minted := n\<rparr>) of
              (Inl e, w') \<Rightarrow> (Err e, r, w')
            | (Inr _, w') \<Rightarrow> (Ok out, r, w'))))"

definition file_read ::
  "string \<Rightarrow> (string \<Rightarrow> string + 'e journal_record) \<Rightarrow> string \<Rightarrow> nat
    \<Rightarrow> ('e stored_event list, event_store_error, unit, file_world) effect" where
  "file_read no_file from_json sid from_version = new_sync (\<lambda>r w.
     case read_all no_file from_json w of
       Inl e \<Rightarrow> (Err e, r, w)
     | Inr ss \<Rightarrow> (Ok (filter (\<lambda>e. from_version \<le> version e) (stream_of ss sid)), r, w))"

definition file_latest ::
  "string \<Rightarrow> (string \<Rightarrow> string + 'e journal_record) \<Rightarrow> string
    \<Rightarrow> (nat, event_store_error, unit, file_world) effect" where
  "file_latest no_file from_json sid = new_sync (\<lambda>r w.
     case read_all no_file from_json w of
       Inl e \<Rightarrow> (Err e, r, w)
     | Inr ss \<Rightarrow> (Ok (case map_of ss sid of None \<Rightarrow> 0 | Some s \<Rightarrow> length s), r, w))"

definition file_journal ::
  "string \<Rightarrow> ('e journal_record \<Rightarrow> string + string) \<Rightarrow> (string \<Rightarrow> string + 'e journal_record)
    \<Rightarrow> (nat \<Rightarrow> string) \<Rightarrow> ('e, file_world) event_store" where
  "file_journal no_file to_json from_json uuid = \<lparr>
     append_events = file_append no_file to_json from_json uuid,
     read_events = file_read no_file from_json, latest_version = file_latest no_file from_json\<rparr>"

section \<open>Projections\<close>

record ('s, 'e) projection =
  project_initial :: 's
  project_apply :: "'s \<Rightarrow> 'e \<Rightarrow> 's"

definition run_projection :: "('s, 'e) projection \<Rightarrow> 'e list \<Rightarrow> 's" where
  "run_projection p events = foldl (project_apply p) (project_initial p) events"

definition run_projection_from_store ::
  "('e, 'w) event_store \<Rightarrow> string \<Rightarrow> nat \<Rightarrow> ('s, 'e) projection \<Rightarrow> 'w
    \<Rightarrow> ((event_store_error + 's) \<times> 'w) option" where
  "run_projection_from_store st sid from_version p w =
     Option.bind (run_blocking (read_events st sid from_version) () w) (\<lambda>(out, w').
       case out of Inl e \<Rightarrow> Some (Err e, w')
       | Inr stored \<Rightarrow> Some (Ok (run_projection p (map payload stored)), w'))"

record projection_node =
  proj_id :: string
  proj_depends_on :: "string list"

type_synonym projection_runner = "projection_node list"

definition projection_register :: "projection_runner \<Rightarrow> projection_node \<Rightarrow> projection_runner" where
  "projection_register ns n = ns @ [n]"

text \<open>The graph's error is printed with \<open>show_error\<close>.\<close>

definition projection_plan ::
  "(string graph_error \<Rightarrow> string) \<Rightarrow> projection_runner \<Rightarrow> (event_store_error + string list) option" where
  "projection_plan show_error ns = map_option (result_map_err (\<lambda>e. GraphFailed (show_error e)))
     (topological_sort (map (\<lambda>n. \<lparr>node_id = proj_id n, requires = proj_depends_on n, provides = proj_id n\<rparr>) ns))"


fun project_each ::
  "(string \<Rightarrow> ('s, 'e) projection option) \<Rightarrow> 'e list \<Rightarrow> string list
    \<Rightarrow> event_store_error + (string \<times> 's) list" where
  "project_each by_id events [] = Ok []"
| "project_each by_id events (i # is) = (case by_id i of
     None \<Rightarrow> Err (GraphFailed (''projection `'' @ i @ ''` not registered in run_all map''))
   | Some p \<Rightarrow> result_map (\<lambda>rest. (i, run_projection p events) # rest) (project_each by_id events is))"

definition run_all_projections ::
  "(string graph_error \<Rightarrow> string) \<Rightarrow> projection_runner \<Rightarrow> ('e, 'w) event_store \<Rightarrow> string \<Rightarrow> nat
    \<Rightarrow> (string \<Rightarrow> ('s, 'e) projection option) \<Rightarrow> 'w
    \<Rightarrow> ((event_store_error + (string \<times> 's) list) \<times> 'w) option" where
  "run_all_projections show_error ns st sid from_version by_id w =
     Option.bind (projection_plan show_error ns) (\<lambda>plan. case plan of
       Inl e \<Rightarrow> Some (Err e, w)
     | Inr order \<Rightarrow> Option.bind (run_async (read_events st sid from_version) () w) (\<lambda>(out, w').
         case out of
           Inl e \<Rightarrow> Some (Err e, w')
         | Inr stored \<Rightarrow> Some (project_each by_id (map payload stored) order, w')))"

section \<open>Commands and queries\<close>

datatype 'x dispatch_error = CommandRejected 'x | DispatchStore event_store_error

datatype 'x query_dispatch_error = QueryFailed 'x | QueryStore event_store_error

definition dispatch_command ::
  "('cmd \<Rightarrow> ('e list, 'x, unit, 'w) effect) \<Rightarrow> ('e, 'w) event_store \<Rightarrow> string \<Rightarrow> ('s, 'e) projection
    \<Rightarrow> 'cmd \<Rightarrow> 'w \<Rightarrow> (('x dispatch_error + 's) \<times> 'w) option" where
  "dispatch_command handle st sid p command w =
     Option.bind (run_blocking (handle command) () w) (\<lambda>(out, w1). case out of
       Inl e \<Rightarrow> Some (Err (CommandRejected e), w1)
     | Inr events \<Rightarrow> Option.bind (run_blocking (append_events st sid events) () w1) (\<lambda>(out, w2). case out of
         Inl e \<Rightarrow> Some (Err (DispatchStore e), w2)
       | Inr _ \<Rightarrow> map_option (\<lambda>(out, w3). (result_map_err DispatchStore out, w3))
           (run_projection_from_store st sid 1 p w2)))"

definition query_projection ::
  "('qry \<Rightarrow> ('ans, 'x, unit, 'w) effect) \<Rightarrow> ('e, 'w) event_store \<Rightarrow> string \<Rightarrow> ('s, 'e) projection
    \<Rightarrow> 'qry \<Rightarrow> 'w \<Rightarrow> (('x query_dispatch_error + 'ans) \<times> 'w) option" where
  "query_projection query st sid p q w =
     Option.bind (run_projection_from_store st sid 1 p w) (\<lambda>(out, w1). case out of
       Inl e \<Rightarrow> Some (Err (QueryStore e), w1)
     | Inr _ \<Rightarrow> run_blocking (map_error (query q) QueryFailed) () w1)"

section \<open>The contract of a store\<close>

text \<open>The versions of a stream are consecutive and start after \<open>k\<close>.\<close>

fun numbered :: "nat \<Rightarrow> 'e stored_event list \<Rightarrow> bool" where
  "numbered k [] = True"
| "numbered k (e # es) = (version e = Suc k \<and> numbered (Suc k) es)"

lemma numbered_append: "numbered k (xs @ ys) = (numbered k xs \<and> numbered (k + length xs) ys)"
  by (induction xs arbitrary: k) auto

lemma numbered_greater: "numbered k xs \<Longrightarrow> e \<in> set xs \<Longrightarrow> k < version e"
  by (induction xs arbitrary: k) fastforce+

lemma numbered_sorted: "numbered k xs \<Longrightarrow> sorted (map version xs)"
  by (induction xs arbitrary: k) (auto dest: numbered_greater intro: less_imp_le)

lemma numbered_from: "numbered k xs \<Longrightarrow> k < v \<Longrightarrow> filter (\<lambda>e. v \<le> version e) xs = drop (v - Suc k) xs"
proof (induction xs arbitrary: k)
  case (Cons x xs)
  show ?case
  proof (cases "v = Suc k")
    case True
    have "v \<le> version e" if "e \<in> set xs" for e
      using numbered_greater [of "Suc k" xs e] Cons.prems(1) that True by simp
    with True Cons.prems(1) show ?thesis by (simp add: filter_eq_self_conv)
  next
    case False
    with Cons.prems(2) have "Suc k < v" by simp
    then obtain d where v: "v = Suc (Suc k + d)" using less_imp_Suc_add by blast
    from Cons.prems Cons.IH [of "Suc k"] show ?thesis by (simp add: v)
  qed
qed simp

lemma number_events_spec:
  assumes "number_events uuid stream ps n = (stream', out, n')"
  shows "stream' = stream @ out \<and> n' = n + length ps \<and> map payload out = ps \<and> numbered (length stream) out"
  using assms
proof (induction ps arbitrary: stream n stream' out)
  case Nil
  then show ?case by simp
next
  case (Cons p ps)
  let ?s = "\<lparr>event_id = uuid n, version = length stream + 1, payload = p\<rparr>"
  obtain out' where out': "number_events uuid (stream @ [?s]) ps (Suc n) = (stream', out', n')"
    and out: "out = ?s # out'"
    using Cons.prems by (auto simp: Let_def split: prod.splits)
  from Cons.IH [OF out'] show ?case by (simp add: out)
qed

locale event_log =
  fixes st :: "('e, 'w) event_store" and uuid :: "nat \<Rightarrow> string"
    and valid :: "'w \<Rightarrow> bool" and history :: "'w \<Rightarrow> string \<Rightarrow> 'e stored_event list"
    and next_id :: "'w \<Rightarrow> nat"
  assumes versions: "valid w \<Longrightarrow> numbered 0 (history w sid)"
    and append_law: "valid w \<Longrightarrow> number_events uuid (history w sid) events (next_id w) = (stream, out, n)
      \<Longrightarrow> \<exists>w'. run (append_events st sid events) () w = Some (Ok out, (), w')
        \<and> valid w' \<and> history w' = (history w)(sid := stream) \<and> next_id w' = n"
    and read_law: "valid w \<Longrightarrow> run (read_events st sid from_version) () w
      = Some (Ok (filter (\<lambda>e. from_version \<le> version e) (history w sid)), (), w)"
    and latest_law: "valid w \<Longrightarrow> run (latest_version st sid) () w = Some (Ok (length (history w sid)), (), w)"
begin

lemma read_from_start: "valid w \<Longrightarrow> filter (\<lambda>e. 1 \<le> version e) (history w sid) = history w sid"
  using numbered_from [OF versions, of w 1 sid] by simp

lemma projected:
  assumes "valid w"
  shows "run_projection_from_store st sid 1 p w
    = Some (Ok (run_projection p (map payload (history w sid))), w)"
  using read_law [OF assms, of sid 1] read_from_start [OF assms, of sid]
  by (simp add: run_projection_from_store_def run_blocking_def)

text \<open>A command that is accepted shows in the answer on top of the whole history of the stream.\<close>

lemma dispatch_accepted:
  assumes "valid w1" "run_blocking (handle command) () w = Some (Ok events, w1)"
  shows "\<exists>w2. dispatch_command handle st sid p command w
      = Some (Ok (run_projection p (map payload (history w1 sid) @ events)), w2)
    \<and> valid w2 \<and> (\<forall>sid'. map payload (history w2 sid')
        = map payload (history w1 sid') @ (if sid' = sid then events else []))"
proof -
  obtain stream out n where num: "number_events uuid (history w1 sid) events (next_id w1) = (stream, out, n)"
    by (metis prod_cases3)
  note spec = number_events_spec [OF num]
  obtain w2 where w2: "run (append_events st sid events) () w1 = Some (Ok out, (), w2)" "valid w2"
    "history w2 = (history w1)(sid := stream)"
    using append_law [OF assms(1) num] by blast
  have "dispatch_command handle st sid p command w
      = Some (Ok (run_projection p (map payload (history w2 sid))), w2)"
    using assms(2) w2(1) projected [OF w2(2), of sid p]
    by (simp add: dispatch_command_def run_blocking_def)
  with w2 spec show ?thesis by auto
qed

end

section \<open>The abstract log\<close>

datatype 'e store_op = Append string "'e list" | Read string nat | Latest string

datatype 'e store_answer = Stored "'e stored_event list" | Version nat

fun log_ops ::
  "(nat \<Rightarrow> string) \<Rightarrow> 'e store_op list \<Rightarrow> (string \<Rightarrow> 'e stored_event list) \<Rightarrow> nat \<Rightarrow> 'e store_answer list" where
  "log_ops uuid [] h n = []"
| "log_ops uuid (Append sid events # ops) h n = (case number_events uuid (h sid) events n of
     (stream, out, n') \<Rightarrow> Stored out # log_ops uuid ops (h(sid := stream)) n')"
| "log_ops uuid (Read sid v # ops) h n
     = Stored (filter (\<lambda>e. v \<le> version e) (h sid)) # log_ops uuid ops h n"
| "log_ops uuid (Latest sid # ops) h n = Version (length (h sid)) # log_ops uuid ops h n"

definition answer ::
  "('a \<Rightarrow> 'e store_answer) \<Rightarrow> ('a, event_store_error, unit, 'w) effect
    \<Rightarrow> ('e store_answer, event_store_error, unit, 'w) effect" where
  "answer f eff = map_effect eff f"

fun op_effect ::
  "('e, 'w) event_store \<Rightarrow> 'e store_op \<Rightarrow> ('e store_answer, event_store_error, unit, 'w) effect" where
  "op_effect st (Append sid events) = answer Stored (append_events st sid events)"
| "op_effect st (Read sid v) = answer Stored (read_events st sid v)"
| "op_effect st (Latest sid) = answer Version (latest_version st sid)"

fun run_ops ::
  "('e, 'w) event_store \<Rightarrow> 'e store_op list \<Rightarrow> 'w \<Rightarrow> ((event_store_error + 'e store_answer) list \<times> 'w) option" where
  "run_ops st [] w = Some ([], w)"
| "run_ops st (op # ops) w = Option.bind (run_blocking (op_effect st op) () w) (\<lambda>(out, w').
     map_option (\<lambda>(outs, w''). (out # outs, w'')) (run_ops st ops w'))"

lemma run_blocking_answer:
  "run eff () w = Some (Ok a, (), w') \<Longrightarrow> run_blocking (answer f eff) () w = Some (Ok (f a), w')"
  by (simp add: answer_def map_effect_def new_async_def run_blocking_def run_def)

context event_log
begin

lemma run_ops_log:
  assumes "valid w"
  shows "\<exists>w'. run_ops st ops w = Some (map Ok (log_ops uuid ops (history w) (next_id w)), w') \<and> valid w'"
  using assms
proof (induction ops arbitrary: w)
  case Nil
  then show ?case by simp
next
  case (Cons op ops)
  show ?case
  proof (cases op)
    case (Append sid events)
    obtain stream out n where num: "number_events uuid (history w sid) events (next_id w) = (stream, out, n)"
      by (metis prod_cases3)
    obtain w1 where w1: "run (append_events st sid events) () w = Some (Ok out, (), w1)" "valid w1"
      "history w1 = (history w)(sid := stream)" "next_id w1 = n"
      using append_law [OF Cons.prems num] by blast
    from Cons.IH [OF w1(2)] run_blocking_answer [OF w1(1), of Stored] Append num w1 show ?thesis
      by (auto simp: fun_upd_def)
  next
    case (Read sid v)
    from Cons.IH [OF Cons.prems] run_blocking_answer [OF read_law [OF Cons.prems], of Stored sid v] Read
    show ?thesis by auto
  next
    case (Latest sid)
    from Cons.IH [OF Cons.prems] run_blocking_answer [OF latest_law [OF Cons.prems], of "Version :: nat \<Rightarrow> 'e store_answer" sid] Latest
    show ?thesis by auto
  qed
qed

end

section \<open>The stores honour the contract\<close>

definition memory_valid :: "'e memory_world \<Rightarrow> bool" where
  "memory_valid w = (\<forall>sid. numbered 0 (stream_of (streams w) sid))"

lemma versions_extend:
  assumes "number_events uuid stream ps n = (stream', out, n')" and "numbered 0 stream"
  shows "numbered 0 stream'"
  using number_events_spec [OF assms(1)] assms(2) by (simp add: numbered_append)

lemma stream_of_update: "stream_of (AList.update k v ss) sid = (if sid = k then v else stream_of ss sid)"
  by (simp add: stream_of_def map_of_update)

interpretation memory: event_log "memory_store uuid" uuid memory_valid "\<lambda>w. stream_of (streams w)" minted
proof
  fix w :: "'a memory_world" and sid events stream out n from_version
  assume w: "memory_valid w"
  show "numbered 0 (stream_of (streams w) sid)"
    using w by (simp add: memory_valid_def)
  show "\<exists>w'. run (append_events (memory_store uuid) sid events) () w = Some (Ok out, (), w')
      \<and> memory_valid w' \<and> stream_of (streams w') = (stream_of (streams w))(sid := stream) \<and> minted w' = n"
    if num: "number_events uuid (stream_of (streams w) sid) events (minted w) = (stream, out, n)"
    using versions_extend [OF num] w num
    by (auto simp: memory_store_def memory_append_def new_sync_def run_def memory_valid_def
        stream_of_update fun_eq_iff)
  show "run (read_events (memory_store uuid) sid from_version) () w
      = Some (Ok (filter (\<lambda>e. from_version \<le> version e) (stream_of (streams w) sid)), (), w)"
    by (simp add: memory_store_def memory_read_def new_sync_def run_def stream_of_def split: option.splits)
  show "run (latest_version (memory_store uuid) sid) () w
      = Some (Ok (length (stream_of (streams w) sid)), (), w)"
    by (simp add: memory_store_def memory_latest_def new_sync_def run_def stream_of_def split: option.splits)
qed


subsection \<open>The journal file\<close>

definition serde_ok ::
  "('e journal_record \<Rightarrow> string + string) \<Rightarrow> (string \<Rightarrow> string + 'e journal_record) \<Rightarrow> bool" where
  "serde_ok to_json from_json = (\<forall>rec. \<exists>l. to_json rec = Ok l \<and> from_json l = Ok rec
     \<and> lf \<notin> set l \<and> \<not> blank l \<and> last l \<noteq> cr)"

definition line_of :: "('e journal_record \<Rightarrow> string + string) \<Rightarrow> 'e journal_record \<Rightarrow> string" where
  "line_of to_json rec = projr (to_json rec)"

definition file_text :: "('e journal_record \<Rightarrow> string + string) \<Rightarrow> 'e journal_record list \<Rightarrow> string" where
  "file_text to_json recs = concat (map (\<lambda>rec. line_of to_json rec @ [lf]) recs)"

definition stream_in :: "'e journal_record list \<Rightarrow> string \<Rightarrow> 'e stored_event list" where
  "stream_in recs sid = map to_stored (filter (\<lambda>rec. rec_stream rec = sid) recs)"

lemma serde_line:
  assumes "serde_ok to_json from_json"
  shows "to_json rec = Ok (line_of to_json rec)" "from_json (line_of to_json rec) = Ok rec"
    "lf \<notin> set (line_of to_json rec)" "\<not> blank (line_of to_json rec)" "strip_cr (line_of to_json rec) = line_of to_json rec"
proof -
  obtain l where "to_json rec = Ok l" "from_json l = Ok rec" "lf \<notin> set l" "\<not> blank l" "last l \<noteq> cr"
    using assms by (auto simp: serde_ok_def)
  then show "to_json rec = Ok (line_of to_json rec)" "from_json (line_of to_json rec) = Ok rec"
    "lf \<notin> set (line_of to_json rec)" "\<not> blank (line_of to_json rec)" "strip_cr (line_of to_json rec) = line_of to_json rec"
    by (simp_all add: line_of_def strip_cr_def)
qed

lemma file_lines_line:
  "lf \<notin> set l \<Longrightarrow> file_lines acc (l @ lf # rest) = strip_cr (rev acc @ l) # file_lines [] rest"
  by (induction l arbitrary: acc) auto

lemma file_lines_text:
  "serde_ok to_json from_json \<Longrightarrow> file_lines [] (file_text to_json recs) = map (line_of to_json) recs"
  by (induction recs) (auto simp: file_text_def file_lines_line serde_line)

lemma load_lines_text:
  assumes "serde_ok to_json from_json"
  shows "\<exists>ss'. load_lines from_json (map (line_of to_json) recs) ss = Ok ss'
    \<and> (\<forall>sid. stream_of ss' sid = stream_of ss sid @ stream_in recs sid)"
proof (induction recs arbitrary: ss)
  case Nil
  show ?case by (simp add: stream_in_def)
next
  case (Cons rec recs)
  from Cons.IH [of "AList.update (rec_stream rec) (stream_of ss (rec_stream rec) @ [to_stored rec]) ss"]
  show ?case by (auto simp: serde_line(2-) [OF assms] stream_of_update stream_in_def)
qed

lemma write_records_text:
  "serde_ok to_json from_json \<Longrightarrow> write_records to_json recs t = (Ok (), t @ file_text to_json recs)"
  by (induction recs arbitrary: t) (auto simp: file_text_def serde_line(1))

definition file_history ::
  "string \<Rightarrow> (string \<Rightarrow> string + 'e journal_record) \<Rightarrow> file_world \<Rightarrow> string \<Rightarrow> 'e stored_event list" where
  "file_history no_file from_json w sid = (case read_all no_file from_json w of
     Inl _ \<Rightarrow> [] | Inr ss \<Rightarrow> stream_of ss sid)"

definition file_valid ::
  "('e journal_record \<Rightarrow> string + string) \<Rightarrow> (string \<Rightarrow> string + 'e journal_record) \<Rightarrow> file_world \<Rightarrow> bool" where
  "file_valid to_json from_json w = (serde_ok to_json from_json
     \<and> (\<exists>recs. content w = Some (file_text to_json recs) \<and> (\<forall>sid. numbered 0 (stream_in recs sid))))"

lemma stream_of_sorted:
  "stream_of (map (\<lambda>(k, s). (k, sort_key version s)) ss) sid = sort_key version (stream_of ss sid)"
  by (simp add: stream_of_def map_of_map split: option.splits)

lemma read_all_text:
  assumes "serde_ok to_json from_json" "content w = Some (file_text to_json recs)"
    "\<And>sid. numbered 0 (stream_in recs sid)"
  shows "\<exists>ss. read_all no_file from_json w = Ok ss \<and> (\<forall>sid. stream_of ss sid = stream_in recs sid)"
proof -
  obtain ss where "load_lines from_json (map (line_of to_json) recs) [] = Ok ss"
    "\<And>sid. stream_of ss sid = stream_in recs sid"
    using load_lines_text [OF assms(1), of recs "[]"] by (auto simp: stream_of_def)
  then show ?thesis
    using assms(2) sort_key_id_if_sorted [OF numbered_sorted, OF assms(3)]
    by (auto simp: read_all_def file_lines_text [OF assms(1)] stream_of_sorted)
qed

lemma stream_in_append: "stream_in (recs @ recs') sid = stream_in recs sid @ stream_in recs' sid"
  by (simp add: stream_in_def)

lemma to_record_simps [simp]: "to_stored (to_record sid s) = s" "rec_stream (to_record sid s) = sid"
  by (simp_all add: to_record_def to_stored_def)

lemma stream_in_records:
  "stream_in (map (to_record sid) out) sid' = (if sid' = sid then out else [])"
  by (auto simp: stream_in_def comp_def filter_map)

interpretation journal_file: event_log "file_journal no_file to_json from_json uuid" uuid
  "file_valid to_json from_json" "file_history no_file from_json" file_minted
proof
  fix w sid events stream out n from_version
  assume w: "file_valid to_json from_json w"
  then obtain recs where serde: "serde_ok to_json from_json"
    and recs: "content w = Some (file_text to_json recs)" "\<And>sid. numbered 0 (stream_in recs sid)"
    by (auto simp: file_valid_def)
  obtain ss where ss: "read_all no_file from_json w = Ok ss" "\<And>sid. stream_of ss sid = stream_in recs sid"
    using read_all_text [OF serde recs, of no_file] by auto
  have history: "file_history no_file from_json w = stream_in recs"
    by (simp add: file_history_def ss fun_eq_iff)
  show "numbered 0 (file_history no_file from_json w sid)"
    by (simp add: history recs(2))
  show "run (read_events (file_journal no_file to_json from_json uuid) sid from_version) () w
      = Some (Ok (filter (\<lambda>e. from_version \<le> version e) (file_history no_file from_json w sid)), (), w)"
    by (simp add: file_journal_def file_read_def new_sync_def run_def ss history)
  show "run (latest_version (file_journal no_file to_json from_json uuid) sid) () w
      = Some (Ok (length (file_history no_file from_json w sid)), (), w)"
    using ss(2) [of sid, symmetric]
    by (simp add: file_journal_def file_latest_def new_sync_def run_def ss(1) history stream_of_def
        split: option.splits)
  show "\<exists>w'. run (append_events (file_journal no_file to_json from_json uuid) sid events) () w
        = Some (Ok out, (), w') \<and> file_valid to_json from_json w'
      \<and> file_history no_file from_json w' = (file_history no_file from_json w)(sid := stream)
      \<and> file_minted w' = n"
    if num: "number_events uuid (file_history no_file from_json w sid) events (file_minted w) = (stream, out, n)"
  proof -
    let ?recs = "recs @ map (to_record sid) out"
    let ?w = "w\<lparr>file_minted := n, content := Some (file_text to_json ?recs)\<rparr>"
    note spec = number_events_spec [OF num] 
    have in_new: "stream_in ?recs sid' = (if sid' = sid then stream else stream_in recs sid')" for sid'
      using spec by (simp add: stream_in_append stream_in_records history)
    have numbered: "numbered 0 (stream_in ?recs sid')" for sid'
      using versions_extend [OF num] recs(2) by (simp add: in_new history)
    obtain ss' where "read_all no_file from_json ?w = Ok ss'" "\<And>sid. stream_of ss' sid = stream_in ?recs sid"
      using read_all_text [OF serde _ numbered, of ?w no_file] by auto
    then have "file_history no_file from_json ?w = (file_history no_file from_json w)(sid := stream)"
      by (auto simp: file_history_def ss in_new fun_eq_iff)
    moreover have "run (append_events (file_journal no_file to_json from_json uuid) sid events) () w
        = Some (Ok out, (), ?w)"
      using num recs(1)
      by (simp add: file_journal_def file_append_def new_sync_def run_def ss history append_records_def
          write_records_text [OF serde]) (simp add: file_text_def)
    moreover have "file_valid to_json from_json ?w"
      using serde numbered by (auto simp: file_valid_def)
    ultimately show ?thesis by fastforce
  qed
qed

lemma result_map_err_Ok: "result_map_err f x = Ok a \<longleftrightarrow> x = Ok a"
  by (cases x) auto

section \<open>Properties\<close>

text \<open>
  C10. The in-memory store and the journal file are indistinguishable: from an empty start, every
  sequence of appends, reads and version queries gives on both the answers of the abstract log,
  where a stream is the list of its events numbered from 1 and an append adds to its own stream
  only. For the file this needs that \<open>serde_json\<close> round-trips a record to one line that is not
  blank.
\<close>

theorem stores_refine_log:
  assumes "serde_ok to_json from_json"
  shows "map_option fst (run_ops (memory_store uuid) ops memory_new)
      = Some (map Ok (log_ops uuid ops (\<lambda>_. []) 0))
    \<and> map_option fst (run_ops (file_journal no_file to_json from_json uuid) ops
        \<lparr>content = Some [], file_minted = 0\<rparr>)
      = Some (map Ok (log_ops uuid ops (\<lambda>_. []) 0))"
proof
  have empty: "stream_of [] = (\<lambda>_. [])" by (simp add: stream_of_def fun_eq_iff)
  have "memory_valid (memory_new :: 'a memory_world)"
    by (simp add: memory_valid_def memory_new_def empty)
  from memory.run_ops_log [OF this, of uuid ops] empty
  show "map_option fst (run_ops (memory_store uuid) ops memory_new)
      = Some (map Ok (log_ops uuid ops (\<lambda>_. []) 0))"
    by (auto simp: memory_new_def empty)
  let ?w = "\<lparr>content = Some [], file_minted = 0\<rparr>"
  have "file_valid to_json from_json ?w"
    using assms by (auto simp: file_valid_def file_text_def stream_in_def intro!: exI [of _ "[]"])
  moreover have "file_history no_file from_json ?w = (\<lambda>_. [])"
    by (simp add: file_history_def read_all_def empty fun_eq_iff)
  ultimately show "map_option fst (run_ops (file_journal no_file to_json from_json uuid) ops ?w)
      = Some (map Ok (log_ops uuid ops (\<lambda>_. []) 0))"
    using journal_file.run_ops_log [of to_json from_json ?w no_file uuid ops] by auto
qed

text \<open>A text format for records that meets the condition: numbers in unary, texts as their codes.\<close>

definition unary :: "nat \<Rightarrow> string" where
  "unary n = replicate n CHR ''1'' @ ''0''"

fun from_unary :: "nat \<Rightarrow> string \<Rightarrow> nat list" where
  "from_unary acc [] = []"
| "from_unary acc (c # cs) = (if c = CHR ''1'' then from_unary (Suc acc) cs else acc # from_unary 0 cs)"

definition codes :: "string \<Rightarrow> nat list" where
  "codes s = length s # map of_char s"

definition tally_to_json :: "nat journal_record \<Rightarrow> string + string" where
  "tally_to_json rec = Ok (concat (map unary (codes (rec_stream rec) @ codes (rec_id rec)
     @ [rec_version rec, rec_payload rec])))"

definition tally_from_json :: "string \<Rightarrow> string + nat journal_record" where
  "tally_from_json l = (case from_unary 0 l of
     [] \<Rightarrow> Err ''empty''
   | k # ns \<Rightarrow> (case drop k ns of
       [] \<Rightarrow> Err ''no id''
     | k' # ns' \<Rightarrow> Ok \<lparr>rec_stream = map char_of (take k ns), rec_id = map char_of (take k' ns'),
         rec_version = drop k' ns' ! 0, rec_payload = drop k' ns' ! 1\<rparr>))"

lemma from_unary_unary: "from_unary acc (unary n @ rest) = (acc + n) # from_unary 0 rest"
  by (induction n arbitrary: acc) (auto simp: unary_def)

lemma from_unary_concat: "from_unary 0 (concat (map unary ns)) = ns"
  by (induction ns) (auto simp: from_unary_unary)

lemma line_ends: "lf \<noteq> CHR ''0''" "lf \<noteq> CHR ''1''" "cr \<noteq> CHR ''0''"
  by code_simp+

lemma tally_serde: "serde_ok tally_to_json tally_from_json"
  unfolding serde_ok_def
proof
  fix rec :: "nat journal_record"
  let ?ns = "codes (rec_stream rec) @ codes (rec_id rec) @ [rec_version rec, rec_payload rec]"
  have "tally_from_json (concat (map unary ?ns)) = Ok rec"
    unfolding tally_from_json_def from_unary_concat by (simp add: codes_def map_idI)
  moreover have "last (concat (map unary ?ns)) = CHR ''0''" "CHR ''0'' \<in> set (concat (map unary ?ns))"
    by (simp_all add: unary_def)
  moreover have "lf \<notin> set (concat (map unary ?ns))"
    using line_ends by (auto simp: unary_def)
  moreover have "\<not> blank l" if "CHR ''0'' \<in> set l" for l
    using that by (force simp: blank_def list_all_iff is_whitespace_def)
  moreover have "tally_to_json rec = Ok (concat (map unary ?ns))"
    by (simp only: tally_to_json_def)
  ultimately show "\<exists>l. tally_to_json rec = Ok l \<and> tally_from_json l = Ok rec \<and> lf \<notin> set l
      \<and> \<not> blank l \<and> last l \<noteq> cr"
    using line_ends(3) by metis
qed

lemma stores_refine_log_witness:
  "map_option fst (run_ops (file_journal ''missing'' tally_to_json tally_from_json unary)
     [Append ''s'' [5, 6 :: nat], Append ''t'' [7], Append ''s'' [8], Read ''s'' 2, Latest ''t'']
     \<lparr>content = Some [], file_minted = 0\<rparr>)
   = Some (map Ok [
       Stored [\<lparr>event_id = ''0'', version = 1, payload = 5\<rparr>, \<lparr>event_id = ''10'', version = 2, payload = 6\<rparr>],
       Stored [\<lparr>event_id = ''110'', version = 1, payload = 7\<rparr>],
       Stored [\<lparr>event_id = ''1110'', version = 3, payload = 8\<rparr>],
       Stored [\<lparr>event_id = ''10'', version = 2, payload = 6\<rparr>, \<lparr>event_id = ''1110'', version = 3, payload = 8\<rparr>],
       Version 1])"
proof -
  let ?ops = "[Append ''s'' [5, 6 :: nat], Append ''t'' [7], Append ''s'' [8], Read ''s'' 2, Latest ''t'']"
  have "log_ops unary ?ops (\<lambda>_. []) 0 = [
       Stored [\<lparr>event_id = ''0'', version = 1, payload = 5\<rparr>, \<lparr>event_id = ''10'', version = 2, payload = 6\<rparr>],
       Stored [\<lparr>event_id = ''110'', version = 1, payload = 7\<rparr>],
       Stored [\<lparr>event_id = ''1110'', version = 3, payload = 8\<rparr>],
       Stored [\<lparr>event_id = ''10'', version = 2, payload = 6\<rparr>, \<lparr>event_id = ''1110'', version = 3, payload = 8\<rparr>],
       Version 1]"
    by (simp add: unary_def Let_def)
  with stores_refine_log [OF tally_serde, of unary ?ops "''missing''"] show ?thesis by (simp only:)
qed

text \<open>
  The command boundary. A rejected command changes nothing beyond what its handler did. An
  accepted one appends exactly its events to its stream, leaves the other streams alone, and
  answers with the projection of the whole stream, old events first.
\<close>

theorem dispatch_projects_history:
  assumes "memory_valid w1"
  shows "(run_blocking (handle command) () w = Some (Err e, w1) \<longrightarrow>
      dispatch_command handle (memory_store uuid) sid p command w = Some (Err (CommandRejected e), w1))
    \<and> (run_blocking (handle command) () w = Some (Ok events, w1) \<longrightarrow>
      (\<exists>w2. dispatch_command handle (memory_store uuid) sid p command w
          = Some (Ok (run_projection p (map payload (stream_of (streams w1) sid) @ events)), w2)
        \<and> memory_valid w2
        \<and> (\<forall>sid'. map payload (stream_of (streams w2) sid')
            = map payload (stream_of (streams w1) sid') @ (if sid' = sid then events else []))))"
  using memory.dispatch_accepted [OF assms, of handle command w events uuid sid p]
  by (auto simp: dispatch_command_def)

definition deposit :: "nat \<Rightarrow> (nat list, unit, unit, nat memory_world) effect" where
  "deposit n = (if n = 0 then fail () else succeed [n])"

lemma dispatch_projects_history_witness:
  "map_option fst (dispatch_command deposit (memory_store unary) ''acc''
     \<lparr>project_initial = 0, project_apply = (+)\<rparr> 5
     \<lparr>streams = [(''acc'', [\<lparr>event_id = ''e'', version = 1, payload = 10\<rparr>])], minted = 0\<rparr>) = Some (Ok (15 :: nat))"
proof -
  let ?w = "\<lparr>streams = [(''acc'', [\<lparr>event_id = ''e'', version = 1, payload = 10 :: nat\<rparr>])], minted = 0\<rparr>"
  have "memory_valid ?w" by (simp add: memory_valid_def stream_of_def)
  moreover have "run_blocking (deposit 5) () ?w = Some (Ok [5], ?w)"
    by (simp add: deposit_def succeed_def new_sync_def run_blocking_def run_def)
  ultimately show ?thesis
    using dispatch_projects_history [of ?w deposit 5 ?w "()" unary "''acc''"
        "\<lparr>project_initial = 0, project_apply = (+)\<rparr>" "[5]"]
    by (auto simp: run_projection_def stream_of_def)
qed

text \<open>
  Rebuilding several projections folds the same events with each of them, in an order in which every
  projection comes after the ones it depends on.
\<close>

theorem projections_follow_dependencies:
  assumes "memory_valid w" "projection_plan show_error ns = Some (Ok order)"
    and "\<And>i. i \<in> set order \<Longrightarrow> by_id i = Some (proj i)"
  shows "run_all_projections show_error ns (memory_store uuid) sid 1 by_id w
      = Some (Ok (map (\<lambda>i. (i, run_projection (proj i) (map payload (stream_of (streams w) sid)))) order), w)
    \<and> distinct order \<and> set order = proj_id ` set ns
    \<and> (\<forall>n \<in> set ns. \<forall>d \<in> set (proj_depends_on n). d \<noteq> proj_id n \<longrightarrow> precedes order d (proj_id n))"
proof -
  have each: "project_each by_id events xs = Ok (map (\<lambda>i. (i, run_projection (proj i) events)) xs)"
    if "set xs \<subseteq> set order" for events xs
    using that assms(3) by (induction xs) auto
  have "run_all_projections show_error ns (memory_store uuid) sid 1 by_id w
      = Some (Ok (map (\<lambda>i. (i, run_projection (proj i) (map payload (stream_of (streams w) sid)))) order), w)"
    using memory.read_law [OF assms(1), of uuid sid 1] memory.read_from_start [OF assms(1), of sid]
    by (simp add: run_all_projections_def assms(2) run_async_def each)
  moreover have sort: "topological_sort
      (map (\<lambda>n. \<lparr>node_id = proj_id n, requires = proj_depends_on n, provides = proj_id n\<rparr>) ns) = Some (Ok order)"
    using assms(2) by (auto simp: projection_plan_def result_map_err_Ok)
  ultimately show ?thesis
    using topological_sort_ok [OF sort] by force
qed

end
