(* ===== verification/Jobs.thy ===== *)
theory Jobs
  imports Runtime Ordered_Maps "HOL-Library.AList"
begin

text \<open>
  \<open>crates/id_effect_jobs/src/\<close> \<open>runner.rs\<close>, \<open>outbox.rs\<close>, \<open>broker.rs\<close> and \<open>error.rs\<close>: the in-memory
  job queue and its drain loop, the transactional outbox and its relay, the in-memory broker.

  Values of the traits \<open>JobRunner\<close> and \<open>OutboxTable\<close> are records of their effects. The id that
  \<open>Uuid::new_v4\<close> and the time that \<open>now_ms\<close> give to a constructor are its arguments \<open>new_id\<close> and
  \<open>now\<close>. A poisoned lock cannot occur: no code panics while it holds one.
\<close>

type_synonym bytes = "8 word list"

datatype job_error =
    JobLock string | JobNotFound string | AlreadyProcessed string | JobStorage string | Unsupported string

datatype outbox_error = OutboxLock string | OutboxNotFound string | OutboxStorage string

section \<open>Jobs\<close>

datatype job_state = Pending | Running | Completed | Failed

datatype work_profile = CpuIntensive | IoBound | MemoryHeavy | Remote | Mixed

fun work_profile_label :: "work_profile \<Rightarrow> string" where
  "work_profile_label CpuIntensive = ''cpu_intensive''"
| "work_profile_label IoBound = ''io_bound''"
| "work_profile_label MemoryHeavy = ''memory_heavy''"
| "work_profile_label Remote = ''remote''"
| "work_profile_label Mixed = ''mixed''"

record job_spec =
  job_id :: string
  job_name :: string
  job_payload :: bytes
  job_profile :: "string option"

record fabric_job_spec =
  fabric_name :: string
  fabric_payload :: bytes
  fabric_profile :: work_profile

definition job_spec_new :: "string \<Rightarrow> string \<Rightarrow> bytes \<Rightarrow> job_spec" where
  "job_spec_new new_id name p = \<lparr>job_id = new_id, job_name = name, job_payload = p, job_profile = None\<rparr>"

definition from_fabric :: "string \<Rightarrow> fabric_job_spec \<Rightarrow> job_spec" where
  "from_fabric new_id s = \<lparr>job_id = new_id, job_name = fabric_name s, job_payload = fabric_payload s,
     job_profile = Some (work_profile_label (fabric_profile s))\<rparr>"

record job_record =
  spec :: job_spec
  state :: job_state

record 'w job_runner =
  enqueue :: "string \<Rightarrow> job_spec \<Rightarrow> (job_record, job_error, unit, 'w) effect"
  dequeue :: "(job_record option, job_error, unit, 'w) effect"
  complete_job :: "string \<Rightarrow> (unit, job_error, unit, 'w) effect"
  fail_job :: "string \<Rightarrow> (unit, job_error, unit, 'w) effect"
  pending_count :: "(nat, job_error, unit, 'w) effect"

definition enqueue_fabric ::
  "'w job_runner \<Rightarrow> string \<Rightarrow> fabric_job_spec \<Rightarrow> (job_record, job_error, unit, 'w) effect" where
  "enqueue_fabric runner new_id s = enqueue runner new_id (from_fabric new_id s)"

text \<open>The state of \<open>MemoryJobRunner\<close>, beside what the handlers act on.\<close>

record 'x jobs_world =
  job_queue :: "job_record list"
  running :: "(string \<times> job_record) list"
  handled :: 'x

definition memory_enqueue ::
  "string \<Rightarrow> job_spec \<Rightarrow> (job_record, job_error, unit, 'x jobs_world) effect" where
  "memory_enqueue new_id s =
     (let s' = (if job_id s = [] then s\<lparr>job_id := new_id\<rparr> else s);
          rec = \<lparr>spec = s', state = Pending\<rparr> in
      new_sync (\<lambda>r w. (Ok rec, r, w\<lparr>job_queue := job_queue w @ [rec]\<rparr>)))"

definition memory_dequeue :: "(job_record option, job_error, unit, 'x jobs_world) effect" where
  "memory_dequeue = new_sync (\<lambda>r w. case job_queue w of
     [] \<Rightarrow> (Ok None, r, w)
   | rec # rest \<Rightarrow>
       let rec' = rec\<lparr>state := Running\<rparr> in
       (Ok (Some rec'), r,
        w\<lparr>job_queue := rest, running := AList.update (job_id (spec rec')) rec' (running w)\<rparr>))"

definition memory_complete :: "string \<Rightarrow> (unit, job_error, unit, 'x jobs_world) effect" where
  "memory_complete jid = new_sync (\<lambda>r w. case map_of (running w) jid of
     None \<Rightarrow> (Err (JobNotFound jid), r, w)
   | Some _ \<Rightarrow> (Ok (), r, w\<lparr>running := AList.delete jid (running w)\<rparr>))"

definition memory_fail :: "string \<Rightarrow> (unit, job_error, unit, 'x jobs_world) effect" where
  "memory_fail jid = new_sync (\<lambda>r w. case map_of (running w) jid of
     None \<Rightarrow> (Err (JobNotFound jid), r, w)
   | Some _ \<Rightarrow> (Ok (), r, w\<lparr>running := AList.delete jid (running w)\<rparr>))"

definition memory_pending_count :: "(nat, job_error, unit, 'x jobs_world) effect" where
  "memory_pending_count = new_sync (\<lambda>r w. (Ok (length (job_queue w)), r, w))"

definition memory_runner :: "'x jobs_world job_runner" where
  "memory_runner = \<lparr>enqueue = memory_enqueue, dequeue = memory_dequeue,
     complete_job = memory_complete, fail_job = memory_fail, pending_count = memory_pending_count\<rparr>"

fun drain_loop ::
  "'w job_runner \<Rightarrow> (job_spec \<Rightarrow> (unit, job_error, unit, 'w) effect) \<Rightarrow> nat \<Rightarrow> nat \<Rightarrow> 'w
    \<Rightarrow> ((job_error + nat) \<times> 'w) option" where
  "drain_loop runner handler 0 processed w = Some (Ok processed, w)"
| "drain_loop runner handler (Suc limit) processed w =
     Option.bind (run_blocking (dequeue runner) () w) (\<lambda>(out, w1). case out of
       Inl e \<Rightarrow> Some (Err e, w1)
     | Inr None \<Rightarrow> Some (Ok processed, w1)
     | Inr (Some rec) \<Rightarrow>
         Option.bind (run_blocking (handler (spec rec)) () w1) (\<lambda>(verdict, w2).
           Option.bind (case verdict of
               Inr _ \<Rightarrow> run_blocking (complete_job runner (job_id (spec rec))) () w2
             | Inl _ \<Rightarrow> run_blocking (fail_job runner (job_id (spec rec))) () w2)
             (\<lambda>(out, w3). case out of
                Inl e \<Rightarrow> Some (Err e, w3)
              | Inr _ \<Rightarrow> drain_loop runner handler limit (Suc processed) w3)))"

definition drain_jobs ::
  "'w job_runner \<Rightarrow> nat \<Rightarrow> (job_spec \<Rightarrow> (unit, job_error, unit, 'w) effect) \<Rightarrow> (nat, job_error, unit, 'w) effect"
where
  "drain_jobs runner limit handler = (\<lambda>r w.
     map_option (\<lambda>(out, w'). (out, r, w')) (drain_loop runner handler limit 0 w))"

section \<open>Outbox\<close>

record outbox_record =
  row_id :: string
  aggregate_id :: string
  event_type :: string
  row_payload :: bytes
  created_ms :: int
  published :: bool

definition outbox_record_new :: "string \<Rightarrow> int \<Rightarrow> string \<Rightarrow> string \<Rightarrow> bytes \<Rightarrow> outbox_record" where
  "outbox_record_new new_id now agg ev p = \<lparr>row_id = new_id, aggregate_id = agg, event_type = ev,
     row_payload = p, created_ms = now, published = False\<rparr>"

record 'w outbox_table =
  insert_row :: "outbox_record \<Rightarrow> (outbox_record, outbox_error, unit, 'w) effect"
  fetch_unpublished :: "nat \<Rightarrow> (outbox_record list, outbox_error, unit, 'w) effect"
  mark_published :: "string list \<Rightarrow> (unit, outbox_error, unit, 'w) effect"
  unpublished_count :: "(nat, outbox_error, unit, 'w) effect"

record 'x outbox_world =
  rows :: "(string, outbox_record) btree_map"
  sent :: 'x

definition memory_insert :: "outbox_record \<Rightarrow> (outbox_record, outbox_error, unit, 'x outbox_world) effect" where
  "memory_insert rec = new_sync (\<lambda>r w. (Ok rec, r, w\<lparr>rows := bt_insert (row_id rec) rec (rows w)\<rparr>))"

definition unpublished :: "(string, outbox_record) btree_map \<Rightarrow> outbox_record list" where
  "unpublished m = filter (\<lambda>rec. \<not> published rec) (map snd m)"

definition memory_fetch :: "nat \<Rightarrow> (outbox_record list, outbox_error, unit, 'x outbox_world) effect" where
  "memory_fetch limit = new_sync (\<lambda>r w. (Ok (take limit (sort_key created_ms (unpublished (rows w)))), r, w))"

fun mark_loop ::
  "string list \<Rightarrow> (string, outbox_record) btree_map \<Rightarrow> (outbox_error + unit) \<times> (string, outbox_record) btree_map" where
  "mark_loop [] m = (Ok (), m)"
| "mark_loop (i # is) m = (case bt_get m i of
     None \<Rightarrow> (Err (OutboxNotFound i), m)
   | Some row \<Rightarrow> mark_loop is (bt_insert i (row\<lparr>published := True\<rparr>) m))"

definition memory_mark :: "string list \<Rightarrow> (unit, outbox_error, unit, 'x outbox_world) effect" where
  "memory_mark ids = new_sync (\<lambda>r w. case mark_loop ids (rows w) of (out, m) \<Rightarrow> (out, r, w\<lparr>rows := m\<rparr>))"

definition memory_unpublished_count :: "(nat, outbox_error, unit, 'x outbox_world) effect" where
  "memory_unpublished_count = new_sync (\<lambda>r w. (Ok (length (unpublished (rows w))), r, w))"

definition memory_outbox :: "'x outbox_world outbox_table" where
  "memory_outbox = \<lparr>insert_row = memory_insert, fetch_unpublished = memory_fetch,
     mark_published = memory_mark, unpublished_count = memory_unpublished_count\<rparr>"

text \<open>The loop over the batch gives the ids that were published, or the first error.\<close>

fun publish_loop ::
  "(outbox_record \<Rightarrow> (unit, outbox_error, unit, 'w) effect) \<Rightarrow> outbox_record list \<Rightarrow> string list \<Rightarrow> 'w
    \<Rightarrow> ((outbox_error + string list) \<times> 'w) option" where
  "publish_loop publish [] ids w = Some (Ok ids, w)"
| "publish_loop publish (row # batch) ids w =
     Option.bind (run_blocking (publish row) () w) (\<lambda>(out, w'). case out of
       Inl e \<Rightarrow> Some (Err e, w')
     | Inr _ \<Rightarrow> publish_loop publish batch (ids @ [row_id row]) w')"

definition relay_outbox ::
  "'w outbox_table \<Rightarrow> nat \<Rightarrow> (outbox_record \<Rightarrow> (unit, outbox_error, unit, 'w) effect)
    \<Rightarrow> (nat, outbox_error, unit, 'w) effect" where
  "relay_outbox outbox limit publish = (\<lambda>r w. map_option (\<lambda>(out, w'). (out, r, w'))
     (Option.bind (run_blocking (fetch_unpublished outbox limit) () w) (\<lambda>(out, w1). case out of
        Inl e \<Rightarrow> Some (Err e, w1)
      | Inr batch \<Rightarrow>
          if batch = [] then Some (Ok 0, w1)
          else Option.bind (publish_loop publish batch [] w1) (\<lambda>(out, w2). case out of
            Inl e \<Rightarrow> Some (Err e, w2)
          | Inr ids \<Rightarrow> Option.bind (run_blocking (mark_published outbox ids) () w2) (\<lambda>(out, w3). case out of
              Inl e \<Rightarrow> Some (Err e, w3)
            | Inr _ \<Rightarrow> Some (Ok (length ids), w3))))))"

section \<open>Broker\<close>

type_synonym topics = "(string \<times> bytes list) list"

definition broker_publish :: "string \<Rightarrow> bytes \<Rightarrow> (unit, job_error, unit, topics) effect" where
  "broker_publish topic p = new_sync (\<lambda>r ts.
     (Ok (), r, AList.update topic ((case map_of ts topic of None \<Rightarrow> [] | Some q \<Rightarrow> q) @ [p]) ts))"

definition drain_topic :: "string \<Rightarrow> topics \<Rightarrow> bytes list \<times> topics" where
  "drain_topic topic ts = (case map_of ts topic of None \<Rightarrow> [] | Some q \<Rightarrow> q, AList.delete topic ts)"

section \<open>Laws\<close>

lemma run_blocking_sync [simp]: "run_blocking (new_sync f) () w = Some (fst (f () w), snd (snd (f () w)))"
  by (simp add: run_blocking_new_sync)

text \<open>A handler with verdict \<open>ok\<close> that records the specifications it was given.\<close>

definition logging :: "(job_spec \<Rightarrow> bool) \<Rightarrow> job_spec \<Rightarrow> (unit, job_error, unit, job_spec list jobs_world) effect" where
  "logging ok s = new_sync (\<lambda>r w. (if ok s then Ok () else Err (JobStorage []), r, w\<lparr>handled := handled w @ [s]\<rparr>))"

lemma memory_runner_sel [simp]:
  "dequeue memory_runner = memory_dequeue" "complete_job memory_runner = memory_complete"
  "fail_job memory_runner = memory_fail" "enqueue memory_runner = memory_enqueue"
  "pending_count memory_runner = memory_pending_count"
  by (simp_all add: memory_runner_def)

lemma run_dequeue:
  "job_queue w = [] \<Longrightarrow> run_blocking memory_dequeue () w = Some (Ok None, w)"
  "job_queue w = rec # rest \<Longrightarrow> run_blocking memory_dequeue () w
    = Some (Ok (Some (rec\<lparr>state := Running\<rparr>)), w\<lparr>job_queue := rest,
        running := AList.update (job_id (spec rec)) (rec\<lparr>state := Running\<rparr>) (running w)\<rparr>)"
  by (simp_all add: memory_dequeue_def Let_def)

lemma run_settle:
  assumes "map_of (running w) jid \<noteq> None"
  shows "run_blocking (memory_complete jid) () w = Some (Ok (), w\<lparr>running := AList.delete jid (running w)\<rparr>)"
    and "run_blocking (memory_fail jid) () w = Some (Ok (), w\<lparr>running := AList.delete jid (running w)\<rparr>)"
  using assms by (auto simp: memory_complete_def memory_fail_def)

lemma run_logging: "run_blocking (logging ok s) () w
    = Some (if ok s then Ok () else Err (JobStorage []), w\<lparr>handled := handled w @ [s]\<rparr>)"
  by (simp add: logging_def)

lemma drain_loop_logging:
  "drain_loop memory_runner (logging ok) limit processed w
   = Some (Ok (processed + min limit (length (job_queue w))),
       \<lparr>job_queue = drop limit (job_queue w),
        running = fold AList.delete (map (job_id \<circ> spec) (take limit (job_queue w))) (running w),
        handled = handled w @ map spec (take limit (job_queue w))\<rparr>)"
proof (induction limit arbitrary: processed w)
  case 0
  show ?case by simp
next
  case (Suc limit)
  show ?case
  proof (cases "job_queue w")
    case Nil
    then show ?thesis by (simp add: run_dequeue)
  next
    case (Cons rec rest)
    then show ?thesis
      by (simp add: Suc.IH run_dequeue run_logging run_settle update_conv' delete_update_same)
  qed
qed

text \<open>A publisher that fails as \<open>verdict\<close> says and records the rows it was given.\<close>

definition sending ::
  "(outbox_record \<Rightarrow> outbox_error option) \<Rightarrow> outbox_record
    \<Rightarrow> (unit, outbox_error, unit, outbox_record list outbox_world) effect" where
  "sending verdict row = new_sync (\<lambda>r w.
     (case verdict row of None \<Rightarrow> Ok () | Some e \<Rightarrow> Err e, r, w\<lparr>sent := sent w @ [row]\<rparr>))"

definition rows_ok :: "(string, outbox_record) btree_map \<Rightarrow> bool" where
  "rows_ok m = (bt_ok m \<and> list_all (\<lambda>(k, row). row_id row = k) m)"

definition mark_rows :: "string set \<Rightarrow> (string, outbox_record) btree_map \<Rightarrow> (string, outbox_record) btree_map" where
  "mark_rows ids m = map (\<lambda>(k, row). (k, if k \<in> ids then row\<lparr>published := True\<rparr> else row)) m"

lemma rows_ok_insert: "rows_ok m \<Longrightarrow> rows_ok (bt_insert (row_id rec) rec m)"
proof -
  have "list_all (\<lambda>(k, row). row_id row = k) m \<Longrightarrow> list_all (\<lambda>(k, row). row_id row = k) (bt_insert i rec m)"
    if "i = row_id rec" for i
    using that by (induction i rec m rule: bt_insert.induct) auto
  then show "rows_ok m \<Longrightarrow> rows_ok (bt_insert (row_id rec) rec m)"
    by (simp add: rows_ok_def bt_insert_ok)
qed

lemma rows_ok_mark: "rows_ok m \<Longrightarrow> rows_ok (mark_rows ids m)"
  by (auto simp: rows_ok_def mark_rows_def bt_ok_def list_all_iff comp_def case_prod_unfold)

lemma bt_insert_present:
  assumes "bt_ok m" "bt_get m i = Some u"
  shows "bt_insert i v m = map (\<lambda>(k, x). (k, if k = i then v else x)) m"
  using assms
proof (induction i v m rule: bt_insert.induct)
  case (2 i v j x m)
  have less: "\<forall>k \<in> set (map fst m). j < k" and ok: "bt_ok m"
    using "2.prems"(1) by (auto simp: bt_ok_def)
  show ?case
  proof (cases "i = j")
    case True
    have "map (\<lambda>(k, x). (k, if k = i then v else x)) m = m"
      using less True by (intro map_idI) auto
    with True show ?thesis by simp
  next
    case False
    with "2.prems"(2) have get: "bt_get m i = Some u" by (simp add: bt_get_def)
    then have "j < i" using less by (force simp: bt_get_def dest: map_of_SomeD)
    with False "2.IH" [OF _ _ ok get] show ?thesis by auto
  qed
qed (simp add: bt_get_def)

lemma bt_get_mark: "bt_get (mark_rows ids m) i
    = map_option (\<lambda>row. if i \<in> ids then row\<lparr>published := True\<rparr> else row) (bt_get m i)"
  by (induction m) (auto simp: bt_get_def mark_rows_def)

lemma mark_loop_rows:
  assumes "rows_ok m" "\<forall>i \<in> set ids. bt_get m i \<noteq> None"
  shows "mark_loop ids m = (Ok (), mark_rows (set ids) m)"
  using assms
proof (induction ids arbitrary: m)
  case Nil
  show ?case by (simp add: mark_rows_def case_prod_unfold)
next
  case (Cons i ids)
  obtain row where row: "bt_get m i = Some row" using Cons.prems(2) by auto
  have "bt_insert i (row\<lparr>published := True\<rparr>) m = map (\<lambda>(k, x). (k, if k = i then row\<lparr>published := True\<rparr> else x)) m"
    using bt_insert_present Cons.prems(1) row by (auto simp: rows_ok_def)
  also have "\<dots> = mark_rows {i} m"
    using row map_of_is_SomeI [OF bt_ok_distinct] Cons.prems(1)
    by (fastforce simp: mark_rows_def rows_ok_def bt_get_def)
  finally have step: "bt_insert i (row\<lparr>published := True\<rparr>) m = mark_rows {i} m" .
  have "mark_loop ids (mark_rows {i} m) = (Ok (), mark_rows (set ids) (mark_rows {i} m))"
    using Cons.prems by (intro Cons.IH) (auto simp: rows_ok_mark bt_get_mark)
  moreover have "mark_rows (set ids) (mark_rows {i} m) = mark_rows (set (i # ids)) m"
    by (auto simp: mark_rows_def)
  ultimately show ?case by (simp add: row step)
qed

lemma publish_loop_sending:
  "publish_loop (sending verdict) batch ids w = Some (case dropWhile (\<lambda>row. verdict row = None) batch of
     [] \<Rightarrow> (Ok (ids @ map row_id batch), w\<lparr>sent := sent w @ batch\<rparr>)
   | bad # _ \<Rightarrow> (Err (the (verdict bad)),
       w\<lparr>sent := sent w @ takeWhile (\<lambda>row. verdict row = None) batch @ [bad]\<rparr>))"
proof (induction batch arbitrary: ids w)
  case Nil
  show ?case by simp
next
  case (Cons row batch)
  have "run_blocking (sending verdict row) () w
      = Some (case verdict row of None \<Rightarrow> Ok () | Some e \<Rightarrow> Err e, w\<lparr>sent := sent w @ [row]\<rparr>)"
    by (simp add: sending_def)
  with Cons show ?case
    by (cases "verdict row"; cases "dropWhile (\<lambda>row. verdict row = None) batch")
      (simp_all del: dropWhile_eq_Nil_conv)
qed

lemma memory_outbox_sel [simp]:
  "fetch_unpublished memory_outbox = memory_fetch" "mark_published memory_outbox = memory_mark"
  by (simp_all add: memory_outbox_def)

lemma unpublished_mark:
  assumes "rows_ok m"
  shows "unpublished (mark_rows ids m) = filter (\<lambda>row. row_id row \<notin> ids) (unpublished m)"
  using assms unfolding rows_ok_def
  by (induction m) (auto simp: unpublished_def mark_rows_def bt_ok_def)

section \<open>Properties\<close>

text \<open>
  Draining takes jobs from the front of the queue in order, at most \<open>limit\<close> of them, gives each to
  the handler exactly once whether or not earlier ones failed, removes each from the running set,
  leaves the rest queued, and reports how many it processed.
\<close>

theorem drain_takes_jobs_in_order:
  "run_blocking (drain_jobs memory_runner limit (logging ok)) () w
   = Some (Ok (min limit (length (job_queue w))),
       \<lparr>job_queue = drop limit (job_queue w),
        running = fold AList.delete (map (job_id \<circ> spec) (take limit (job_queue w))) (running w),
        handled = handled w @ map spec (take limit (job_queue w))\<rparr>)"
  by (simp add: drain_jobs_def run_blocking_def run_def drain_loop_logging)

text \<open>
  C39. The relay publishes the unpublished rows oldest first, at most \<open>limit\<close> of them. If all succeed,
  exactly these rows are marked and the count is returned. If one fails, its error is returned and
  no row is marked, not even those published before it: they will be published again.
\<close>

theorem relay_publishes_at_least_once:
  assumes "rows_ok (rows w)"
    and "batch = take limit (sort_key created_ms (unpublished (rows w)))"
  shows "run_blocking (relay_outbox memory_outbox limit (sending verdict)) () w
      = Some (case dropWhile (\<lambda>row. verdict row = None) batch of
          [] \<Rightarrow> (Ok (length batch), w\<lparr>rows := mark_rows (row_id ` set batch) (rows w), sent := sent w @ batch\<rparr>)
        | bad # _ \<Rightarrow> (Err (the (verdict bad)),
            w\<lparr>sent := sent w @ takeWhile (\<lambda>row. verdict row = None) batch @ [bad]\<rparr>))
    \<and> unpublished (mark_rows (row_id ` set batch) (rows w))
      = filter (\<lambda>row. row_id row \<notin> row_id ` set batch) (unpublished (rows w))"
proof
  have fetch: "run_blocking (memory_fetch limit) () w = Some (Ok batch, w)"
    by (simp add: memory_fetch_def assms(2))
  have known: "\<forall>i \<in> set (map row_id batch). bt_get (rows w) i \<noteq> None"
  proof
    fix i assume "i \<in> set (map row_id batch)"
    then obtain row where row: "row \<in> set batch" "i = row_id row" by auto
    then have "row \<in> set (unpublished (rows w))" using assms(2) by (auto dest: in_set_takeD)
    then obtain k where "(k, row) \<in> set (rows w)" by (auto simp: unpublished_def)
    moreover from this have "k = i" using assms(1) row by (auto simp: rows_ok_def list_all_iff)
    ultimately show "bt_get (rows w) i \<noteq> None"
      using map_of_is_SomeI [OF bt_ok_distinct] assms(1) by (fastforce simp: rows_ok_def bt_get_def)
  qed
  have none: "mark_rows {} m = m" for m by (simp add: mark_rows_def case_prod_unfold)
  note mark = mark_loop_rows [OF assms(1) known]
  show "run_blocking (relay_outbox memory_outbox limit (sending verdict)) () w
      = Some (case dropWhile (\<lambda>row. verdict row = None) batch of
          [] \<Rightarrow> (Ok (length batch), w\<lparr>rows := mark_rows (row_id ` set batch) (rows w), sent := sent w @ batch\<rparr>)
        | bad # _ \<Rightarrow> (Err (the (verdict bad)),
            w\<lparr>sent := sent w @ takeWhile (\<lambda>row. verdict row = None) batch @ [bad]\<rparr>))"
  proof (cases "batch = []")
    case True
    then show ?thesis using fetch by (simp add: relay_outbox_def run_blocking_def run_def none)
  next
    case False
    with fetch show ?thesis
      by (cases "dropWhile (\<lambda>row. verdict row = None) batch")
        (simp_all add: relay_outbox_def run_blocking_def run_def publish_loop_sending memory_mark_def
          new_sync_def mark del: dropWhile_eq_Nil_conv)
  qed
  show "unpublished (mark_rows (row_id ` set batch) (rows w))
      = filter (\<lambda>row. row_id row \<notin> row_id ` set batch) (unpublished (rows w))"
    by (rule unpublished_mark [OF assms(1)])
qed

lemma relay_publishes_at_least_once_witness:
  "run_blocking (relay_outbox memory_outbox 5
       (sending (\<lambda>row. if row_id row = ''a'' then Some (OutboxLock ''down'') else None))) ()
     \<lparr>rows = [(''a'', outbox_record_new ''a'' 2 ''x'' ''E'' []), (''b'', outbox_record_new ''b'' 1 ''x'' ''E'' [])], sent = []\<rparr>
   = Some (Err (OutboxLock ''down''),
     \<lparr>rows = [(''a'', outbox_record_new ''a'' 2 ''x'' ''E'' []), (''b'', outbox_record_new ''b'' 1 ''x'' ''E'' [])],
      sent = [outbox_record_new ''b'' 1 ''x'' ''E'' [], outbox_record_new ''a'' 2 ''x'' ''E'' []]\<rparr>)"
proof -
  let ?m = "[(''a'', outbox_record_new ''a'' 2 ''x'' ''E'' []), (''b'', outbox_record_new ''b'' 1 ''x'' ''E'' [])]"
  let ?batch = "[outbox_record_new ''b'' 1 ''x'' ''E'' [], outbox_record_new ''a'' 2 ''x'' ''E'' []]"
  have "rows_ok (rows \<lparr>rows = ?m, sent = []\<rparr>)"
    by (simp add: rows_ok_def bt_ok_def outbox_record_new_def)
  moreover have "?batch = take 5 (sort_key created_ms (unpublished (rows \<lparr>rows = ?m, sent = []\<rparr>)))"
    by (simp add: unpublished_def outbox_record_new_def)
  ultimately have "run_blocking (relay_outbox memory_outbox 5
       (sending (\<lambda>row. if row_id row = ''a'' then Some (OutboxLock ''down'') else None))) ()
     \<lparr>rows = ?m, sent = []\<rparr> = Some (case dropWhile
        (\<lambda>row. (if row_id row = ''a'' then Some (OutboxLock ''down'') else None) = None) ?batch of
          [] \<Rightarrow> (Ok (length ?batch), \<lparr>rows = mark_rows (row_id ` set ?batch) ?m, sent = ?batch\<rparr>)
        | bad # _ \<Rightarrow> (Err (the (if row_id bad = ''a'' then Some (OutboxLock ''down'') else None)),
            \<lparr>rows = ?m, sent = takeWhile
              (\<lambda>row. (if row_id row = ''a'' then Some (OutboxLock ''down'') else None) = None) ?batch @ [bad]\<rparr>))"
    using relay_publishes_at_least_once by (fastforce simp only: append_Nil outbox_world.simps)
  then show ?thesis by (simp add: outbox_record_new_def)
qed

text \<open>
  Completing and failing a job are the same operation: the terminal state is written to a copy of the
  record that is dropped, so no job is ever observed in the state \<open>Completed\<close> or \<open>Failed\<close>.
\<close>

theorem terminal_states_are_not_kept: "memory_complete jid = memory_fail jid"
  by (simp add: memory_complete_def memory_fail_def)

end
