(* ===== verification/Parsers.thy ===== *)
theory Parsers
  imports Texts
begin

text \<open>
  \<open>crates/id_effect_parse\<close>: the parser combinators (\<open>parser.rs\<close>), the byte parsers (\<open>byte.rs\<close>), the
  invertible codecs (\<open>codec.rs\<close>), the diffs (\<open>diff.rs\<close>) and the pretty documents (\<open>pretty.rs\<close>).

  A \<open>Parser\<close> is its closure. The combinators \<open>many\<close>, \<open>many1\<close> and \<open>sep_by\<close> loop as long as their
  argument succeeds, so a parser is a function to \<open>option\<close> whose \<open>None\<close> is a run that does not
  return; the loops are \<open>partial_function (option)\<close>. Byte offsets into a string are offsets into the
  list of its characters. Not modelled: \<open>float\<close> and \<open>float_codec\<close>, which are \<open>f64::from_str\<close>.
\<close>

section \<open>Combinators\<close>

datatype parse_failure = ParseFailure (failure_message: string)

type_synonym ('i, 'o, 'e) parser = "'i \<Rightarrow> ('o \<times> 'i, 'e) result option"

definition parser_new :: "('i \<Rightarrow> ('o \<times> 'i, 'e) result) \<Rightarrow> ('i, 'o, 'e) parser" where
  "parser_new f input = Some (f input)"

definition parser_map :: "('i, 'o, 'e) parser \<Rightarrow> ('o \<Rightarrow> 'u) \<Rightarrow> ('i, 'u, 'e) parser" where
  "parser_map p f input = (case p input of
     None \<Rightarrow> None
   | Some r \<Rightarrow> Some (result_map (\<lambda>(out, rest). (f out, rest)) r))"

definition and_then :: "('i, 'o, 'e) parser \<Rightarrow> ('o \<Rightarrow> ('i, 'u, 'e) parser) \<Rightarrow> ('i, 'u, 'e) parser" where
  "and_then p f input = (case p input of
     None \<Rightarrow> None
   | Some (Inl e) \<Rightarrow> Some (Err e)
   | Some (Inr (out, rest)) \<Rightarrow> f out rest)"

definition alt :: "('i, 'o, 'e) parser \<Rightarrow> ('i, 'o, 'e) parser \<Rightarrow> ('i, 'o, 'e) parser" where
  "alt p q input = (case p input of
     None \<Rightarrow> None
   | Some (Inr parsed) \<Rightarrow> Some (Ok parsed)
   | Some (Inl e) \<Rightarrow> (case q input of
         None \<Rightarrow> None
       | Some r \<Rightarrow> Some (result_map_err (\<lambda>_. e) r)))"

partial_function (option) many_loop ::
  "('i, 'o, 'e) parser \<Rightarrow> 'o list \<Rightarrow> 'i \<Rightarrow> ('o list \<times> 'i, 'e) result option" where
  "many_loop p out input = (case p input of
     None \<Rightarrow> None
   | Some (Inr (item, rest)) \<Rightarrow> many_loop p (out @ [item]) rest
   | Some (Inl _) \<Rightarrow> Some (Ok (out, input)))"

definition many :: "('i, 'o, 'e) parser \<Rightarrow> ('i, 'o list, 'e) parser" where
  "many p input = many_loop p [] input"

definition parse_str :: "(string, 'o, 'e) parser \<Rightarrow> string \<Rightarrow> ('o \<times> string, 'e) result option" where
  "parse_str p input = p input"

definition char_lit :: "char \<Rightarrow> (string, char, parse_failure) parser" where
  "char_lit expected = parser_new (\<lambda>input. case input of
     found # rest \<Rightarrow>
       if found = expected then Ok (found, rest)
       else Err (ParseFailure (''expected '' @ [CHR 0x27, expected, CHR 0x27] @ '', found '' @ [CHR 0x27, found, CHR 0x27]))
   | [] \<Rightarrow> Err (ParseFailure (''expected '' @ [CHR 0x27, expected, CHR 0x27] @ '', found end of input'')))"

definition tag :: "string \<Rightarrow> (string, string, parse_failure) parser" where
  "tag literal = parser_new (\<lambda>input. case strip_prefix literal input of
     Some rest \<Rightarrow> Ok (literal, rest)
   | None \<Rightarrow> Err (ParseFailure (''expected '' @ [CHR 0x27] @ literal @ [CHR 0x27])))"

definition is_ascii_digit :: "char \<Rightarrow> bool" where
  "is_ascii_digit c \<longleftrightarrow> digit_value c \<noteq> None"

definition signed_int :: "(string, i64, parse_failure) parser" where
  "signed_int = parser_new (\<lambda>input.
     let start = (if input \<noteq> [] \<and> (hd input = CHR ''-'' \<or> hd input = CHR ''+'') then 1 else 0);
         idx = start + length (takeWhile is_ascii_digit (drop start input)) in
     if idx = start then Err (ParseFailure ''expected integer'')
     else (case parse_i64 (take idx input) of
         Inl err \<Rightarrow> Err (ParseFailure (''invalid integer: '' @ err))
       | Inr value \<Rightarrow> Ok (value, drop idx input)))"

definition int_parser :: "(string, i64, parse_failure) parser" where
  "int_parser = signed_int"

definition bool_lit :: "(string, bool, parse_failure) parser" where
  "bool_lit = alt (parser_map (tag ''true'') (\<lambda>_. True)) (parser_map (tag ''false'') (\<lambda>_. False))"

definition void :: "(string, 'o, 'e) parser \<Rightarrow> (string, unit, 'e) parser" where
  "void p = parser_map p (\<lambda>_. ())"

definition optional_p :: "(string, 'o, 'e) parser \<Rightarrow> (string, 'o option, 'e) parser" where
  "optional_p inner input = (case inner input of
     None \<Rightarrow> None
   | Some (Inr (v, rest)) \<Rightarrow> Some (Ok (Some v, rest))
   | Some (Inl _) \<Rightarrow> Some (Ok (None, input)))"

definition many1 :: "(string, 'o, 'e) parser \<Rightarrow> (string, 'o list, 'e) parser" where
  "many1 inner input = (case inner input of
     None \<Rightarrow> None
   | Some (Inl e) \<Rightarrow> Some (Err e)
   | Some (Inr (first, rest)) \<Rightarrow> many_loop inner [first] rest)"

partial_function (option) sep_loop ::
  "('i, 'o, 'e) parser \<Rightarrow> ('i, unit, 'e) parser \<Rightarrow> 'o list \<Rightarrow> 'i \<Rightarrow> ('o list \<times> 'i, 'e) result option" where
  "sep_loop val sep out rest = (case sep rest of
     None \<Rightarrow> None
   | Some (Inr (_, after_sep)) \<Rightarrow> (case val after_sep of
         None \<Rightarrow> None
       | Some (Inr (item, next)) \<Rightarrow> sep_loop val sep (out @ [item]) next
       | Some (Inl err) \<Rightarrow> Some (Err err))
   | Some (Inl _) \<Rightarrow> Some (Ok (out, rest)))"

definition sep_by :: "(string, 'o, 'e) parser \<Rightarrow> (string, unit, 'e) parser \<Rightarrow> (string, 'o list, 'e) parser" where
  "sep_by val sep input = (case val input of
     None \<Rightarrow> None
   | Some (Inl e) \<Rightarrow> Some (Err e)
   | Some (Inr (first, rest)) \<Rightarrow> sep_loop val sep [first] rest)"

definition between ::
  "(string, unit, 'e) parser \<Rightarrow> (string, unit, 'e) parser \<Rightarrow> (string, 'o, 'e) parser \<Rightarrow> (string, 'o, 'e) parser" where
  "between opening closing inner =
     and_then opening (\<lambda>_. and_then inner (\<lambda>out. and_then closing (\<lambda>_ rest. Some (Ok (out, rest)))))"

definition ws :: "(string, unit, parse_failure) parser" where
  "ws = parser_new (\<lambda>input. Ok ((), drop (length (takeWhile is_ascii_whitespace input)) input))"

definition parse_all :: "('i, 'o, 'e) parser \<Rightarrow> 'i \<Rightarrow> ('o, 'e) result option" where
  "parse_all p input = map_option (result_map fst) (p input)"

section \<open>Byte parsers\<close>

type_synonym u8 = "8 word"

definition byte :: "u8 \<Rightarrow> (u8 list, u8, parse_failure) parser" where
  "byte expected = parser_new (\<lambda>input. case input of
     found # rest \<Rightarrow>
       if found = expected then Ok (expected, rest)
       else Err (ParseFailure (''expected byte '' @ show_nat (unat expected) @ '', found '' @ show_nat (unat found)))
   | [] \<Rightarrow> Err (ParseFailure (''expected byte '' @ show_nat (unat expected) @ '', found end of input'')))"

text \<open>\<open>dbg\<close> is the \<open>Debug\<close> text of the lossily decoded literal in the message.\<close>

definition byte_tag :: "(u8 list \<Rightarrow> string) \<Rightarrow> u8 list \<Rightarrow> (u8 list, u8 list, parse_failure) parser" where
  "byte_tag dbg literal = parser_new (\<lambda>input.
     if take (length literal) input = literal then Ok (literal, drop (length literal) input)
     else Err (ParseFailure (''expected byte tag '' @ dbg literal)))"

definition byte_char :: "u8 \<Rightarrow> char" where
  "byte_char b = char_of (unat b)"

definition char_byte :: "char \<Rightarrow> u8" where
  "char_byte c = of_nat (of_char c)"

text \<open>ASCII digits are valid UTF-8, so \<open>from_utf8\<close> returns the characters of the bytes.\<close>

definition byte_int :: "(u8 list, i64, parse_failure) parser" where
  "byte_int = parser_new (\<lambda>input.
     let neg = (input \<noteq> [] \<and> hd input = char_byte (CHR ''-''));
         start = (if neg \<or> input \<noteq> [] \<and> hd input = char_byte (CHR ''+'') then 1 else 0);
         idx = start + length (takeWhile (\<lambda>b. is_ascii_digit (byte_char b)) (drop start input)) in
     if idx = start then Err (ParseFailure ''expected integer'')
     else (case parse_i64 (map byte_char (drop start (take idx input))) of
         Inl err \<Rightarrow> Err (ParseFailure (''invalid integer: '' @ err))
       | Inr value \<Rightarrow> Ok ((if neg then - 1 else 1) * value, drop idx input)))"

definition byte_ws :: "(u8 list, unit, parse_failure) parser" where
  "byte_ws = parser_new (\<lambda>input.
     Ok ((), drop (length (takeWhile (\<lambda>b. is_ascii_whitespace (byte_char b)) input)) input))"

definition parse_bytes :: "(u8 list, 'o, 'e) parser \<Rightarrow> u8 list \<Rightarrow> ('o \<times> u8 list, 'e) result option" where
  "parse_bytes p input = p input"

section \<open>Codecs\<close>

record ('i, 'o, 'e) text_codec =
  codec_parser :: "('i, 'o, 'e) parser"
  codec_print :: "'o \<Rightarrow> 'i"

definition codec_new :: "('i, 'o, 'e) parser \<Rightarrow> ('o \<Rightarrow> 'i) \<Rightarrow> ('i, 'o, 'e) text_codec" where
  "codec_new p pr = \<lparr>codec_parser = p, codec_print = pr\<rparr>"

definition codec_parse :: "('i, 'o, 'e) text_codec \<Rightarrow> 'i \<Rightarrow> ('o \<times> 'i, 'e) result option" where
  "codec_parse c input = codec_parser c input"

definition print_value :: "('i, 'o, 'e) text_codec \<Rightarrow> 'o \<Rightarrow> 'i" where
  "print_value c v = codec_print c v"

definition codec_map :: "('i, 'o, 'e) text_codec \<Rightarrow> ('o \<Rightarrow> 'u) \<Rightarrow> ('u \<Rightarrow> 'o) \<Rightarrow> ('i, 'u, 'e) text_codec" where
  "codec_map c to from = \<lparr>codec_parser = parser_map (codec_parser c) to, codec_print = (\<lambda>v. codec_print c (from v))\<rparr>"

text \<open>\<open>str::replace\<close> of a character by a string.\<close>

definition replace_char :: "char \<Rightarrow> string \<Rightarrow> string \<Rightarrow> string" where
  "replace_char c by s = concat (map (\<lambda>x. if x = c then by else [x]) s)"

abbreviation backslash :: char where "backslash \<equiv> CHR 0x5C"
abbreviation dquote :: char where "dquote \<equiv> CHR 0x22"
abbreviation newline :: char where "newline \<equiv> CHR 0x0A"
abbreviation tab :: char where "tab \<equiv> CHR 0x09"

definition escape :: "string \<Rightarrow> string" where
  "escape v =
     replace_char tab [backslash, CHR ''t'']
      (replace_char newline [backslash, CHR ''n'']
        (replace_char dquote [backslash, dquote]
          (replace_char backslash [backslash, backslash] v)))"

definition unescape_char :: "char \<Rightarrow> char" where
  "unescape_char c = (if c = CHR ''n'' then newline else if c = CHR ''t'' then tab else c)"

fun quoted_loop :: "string \<Rightarrow> bool \<Rightarrow> string \<Rightarrow> (string \<times> string, parse_failure) result" where
  "quoted_loop out escaped [] = Err (ParseFailure ''unterminated quoted string'')"
| "quoted_loop out escaped (c # cs) =
     (if escaped then quoted_loop (out @ [unescape_char c]) False cs
      else if c = backslash then quoted_loop out True cs
      else if c = dquote then Ok (out, cs)
      else quoted_loop (out @ [c]) False cs)"

definition quoted_string :: "(string, string, parse_failure) text_codec" where
  "quoted_string = codec_new
     (parser_new (\<lambda>input.
        if input = [] \<or> hd input \<noteq> dquote then Err (ParseFailure ''expected opening quote'')
        else quoted_loop [] False (tl input)))
     (\<lambda>v. [dquote] @ escape v @ [dquote])"

definition int_codec :: "(string, i64, parse_failure) text_codec" where
  "int_codec = codec_new signed_int show_i64"

definition bool_codec :: "(string, bool, parse_failure) text_codec" where
  "bool_codec = codec_new bool_lit (\<lambda>v. if v then ''true'' else ''false'')"

definition pair_codec :: "(string, 'a, 'e) text_codec \<Rightarrow> (string, 'b, 'e) text_codec \<Rightarrow> (string, 'a \<times> 'b, 'e) text_codec" where
  "pair_codec left right = codec_new
     (and_then (codec_parser left) (\<lambda>a. parser_map (codec_parser right) (\<lambda>b. (a, b))))
     (\<lambda>(a, b). codec_print left a @ codec_print right b)"

definition list_codec :: "(string, 'a, parse_failure) text_codec \<Rightarrow> (string, 'a list, parse_failure) text_codec" where
  "list_codec item = codec_new
     (sep_by (codec_parser item) (void (char_lit (CHR '',''))))
     (\<lambda>items. join '','' (map (codec_print item) items))"

section \<open>Diffs\<close>

datatype 'a diff = Unchanged 'a | Added 'a | Removed 'a | Changed 'a 'a

definition is_unchanged :: "'a diff \<Rightarrow> bool" where
  "is_unchanged d = (case d of Unchanged _ \<Rightarrow> True | _ \<Rightarrow> False)"

definition diff_values :: "'a \<Rightarrow> 'a \<Rightarrow> 'a diff" where
  "diff_values old new = (if old = new then Unchanged old else Changed old new)"

fun diff_option :: "'a option \<Rightarrow> 'a option \<Rightarrow> 'a diff option" where
  "diff_option None None = None"
| "diff_option (Some v) None = Some (Removed v)"
| "diff_option None (Some v) = Some (Added v)"
| "diff_option (Some old) (Some new) = (if old = new then Some (Unchanged old) else Some (Changed old new))"

definition apply_diff :: "'a option \<Rightarrow> 'a diff \<Rightarrow> 'a option" where
  "apply_diff base d = (case (case d of
       Unchanged v \<Rightarrow> Some v | Added v \<Rightarrow> Some v | Changed _ v \<Rightarrow> Some v | Removed _ \<Rightarrow> None) of
     Some v \<Rightarrow> Some v | None \<Rightarrow> base)"

section \<open>Pretty documents\<close>

text \<open>
  Indentations and widths are \<open>usize\<close>; the sum of the nested indentations is taken not to overflow,
  a text of that length cannot be allocated.
\<close>

datatype doc = Nil_doc | Text string | Line | Break | Cat doc doc | Nest nat doc | Group doc

datatype mode = Flat | Broken

definition usize_max :: nat where "usize_max = 2 ^ 64 - 1"

definition newline_indent :: "nat \<Rightarrow> string" where
  "newline_indent indent = newline # replicate indent (CHR '' '')"

primrec render_impl :: "doc \<Rightarrow> nat \<Rightarrow> nat \<Rightarrow> mode \<Rightarrow> string \<Rightarrow> string" where
  "render_impl Nil_doc width indent m out = out"
| "render_impl (Text t) width indent m out = out @ t"
| "render_impl Line width indent m out = out @ newline_indent indent"
| "render_impl Break width indent m out = (case m of
     Flat \<Rightarrow> out @ '' '' | Broken \<Rightarrow> out @ newline_indent indent)"
| "render_impl (Cat left right) width indent m out =
     render_impl right width indent m (render_impl left width indent m out)"
| "render_impl (Nest spaces inner) width indent m out = render_impl inner width (indent + spaces) m out"
| "render_impl (Group inner) width indent m out =
     (let flat = render_impl inner usize_max indent Flat [] in
      if newline \<in> set flat \<or> width < length flat then render_impl inner width indent Broken out
      else out @ flat)"

definition render :: "doc \<Rightarrow> nat \<Rightarrow> string" where
  "render d width = render_impl d width 0 Broken []"

definition fill :: "doc list \<Rightarrow> doc" where
  "fill docs = (case docs of
     [] \<Rightarrow> Nil_doc
   | first # rest \<Rightarrow> Group (foldl (\<lambda>d next. Cat (Cat d Break) next) first rest))"

definition pretty_i64 :: "i64 \<Rightarrow> doc" where
  "pretty_i64 n = Text (show_i64 n)"

fun pretty_items :: "('a \<Rightarrow> doc) \<Rightarrow> nat \<Rightarrow> 'a list \<Rightarrow> doc \<Rightarrow> doc" where
  "pretty_items pr idx [] d = d"
| "pretty_items pr idx (item # items) d = pretty_items pr (Suc idx) items
     (if 0 < idx then Cat (Cat d (Text '', '')) (pr item) else Cat d (pr item))"

definition pretty_slice :: "('a \<Rightarrow> doc) \<Rightarrow> 'a list \<Rightarrow> doc" where
  "pretty_slice pr items = Cat (pretty_items pr 0 items (Text ''['')) (Text '']'')"

definition doc_display :: "doc \<Rightarrow> string" where
  "doc_display d = render d 80"

section \<open>Repetition\<close>

text \<open>
  A parser makes progress when every run returns and a successful run leaves a shorter input;
  \<open>runs p items i rest\<close> says that \<open>p\<close> applied again and again to \<open>i\<close> yields \<open>items\<close> and leaves
  \<open>rest\<close>.
\<close>

definition consuming :: "('c list, 'o, 'e) parser \<Rightarrow> bool" where
  "consuming p \<longleftrightarrow> (\<forall>i. \<exists>r. p i = Some r \<and> (\<forall>out rest. r = Ok (out, rest) \<longrightarrow> length rest < length i))"

primrec runs :: "('i, 'o, 'e) parser \<Rightarrow> 'o list \<Rightarrow> 'i \<Rightarrow> 'i \<Rightarrow> bool" where
  "runs p [] i rest \<longleftrightarrow> i = rest"
| "runs p (x # xs) i rest \<longleftrightarrow> (\<exists>j. p i = Some (Ok (x, j)) \<and> runs p xs j rest)"

lemma many_loop_runs:
  "runs p items i rest \<Longrightarrow> p rest = Some (Err e) \<Longrightarrow> many_loop p out i = Some (Ok (out @ items, rest))"
proof (induction items arbitrary: i out)
  case Nil
  then show ?case by (simp add: many_loop.simps)
next
  case (Cons x xs)
  then obtain j where "p i = Some (Ok (x, j))" "runs p xs j rest" by auto
  with Cons.IH [of j "out @ [x]"] Cons.prems(2) show ?case by (simp add: many_loop.simps [of p out i])
qed

lemma consuming_runs:
  assumes "consuming p"
  shows "\<exists>items rest e. runs p items i rest \<and> p rest = Some (Err e)"
proof (induction "length i" arbitrary: i rule: less_induct)
  case less
  obtain r where r: "p i = Some r" "\<And>out rest. r = Ok (out, rest) \<Longrightarrow> length rest < length i"
    using assms unfolding consuming_def by metis
  show ?case
  proof (cases r)
    case (Inl e)
    with r(1) have "runs p [] i i \<and> p i = Some (Err e)" by simp
    then show ?thesis by blast
  next
    case (Inr parsed)
    obtain x j where "parsed = (x, j)" by fastforce
    with Inr r(2) have "length j < length i" by simp
    with less obtain items rest e where "runs p items j rest" "p rest = Some (Err e)" by blast
    moreover from this have "runs p (x # items) i rest" using Inr r(1) \<open>parsed = (x, j)\<close> by auto
    ultimately show ?thesis by blast
  qed
qed

lemma many_loop_stuck:
  assumes "many_loop p out i = Some y"
  shows "\<forall>x. p i \<noteq> Some (Ok (x, i))"
  by (rule many_loop.raw_induct [where P = "\<lambda>p _ i _. \<forall>x. p i \<noteq> Some (Ok (x, i))", OF _ assms])
    (auto split: option.splits sum.splits)

theorem many_diverges_without_progress: "p i = Some (Ok (x, i)) \<Longrightarrow> many p i = None"
  using many_loop_stuck [of p "[]" i] by (cases "many p i") (auto simp: many_def)

theorem many_ws_never_returns: "many ws '''' = None"
proof (rule many_diverges_without_progress)
  show "ws '''' = Some (Ok ((), ''''))" by (simp add: ws_def parser_new_def)
qed

lemma drop_takeWhile_append:
  "list_all P xs \<Longrightarrow> (rest = [] \<or> \<not> P (hd rest)) \<Longrightarrow> takeWhile P (xs @ rest) = xs"
  by (cases rest) (auto simp: list_all_iff takeWhile_append)

text \<open>
  \<open>many\<close> on a parser that makes progress always returns: the longest run of items, and the
  input at which the next attempt fails, untouched. It never fails.
\<close>

theorem many_is_greedy:
  assumes "consuming p"
  shows "\<exists>items rest e. many p i = Some (Ok (items, rest)) \<and> runs p items i rest \<and> p rest = Some (Err e)"
  using consuming_runs [OF assms, of i] many_loop_runs [of p _ i _ _ "[]"] by (fastforce simp: many_def)

lemma char_lit_consuming: "consuming (char_lit c)"
  by (auto simp: consuming_def char_lit_def parser_new_def split: list.split if_splits)

lemma signed_int_consuming: "consuming signed_int"
proof -
  have "length rest < length i" if "signed_int i = Some (Ok (n, rest))" for i n rest
    using that by (cases i) (auto simp: signed_int_def parser_new_def Let_def split: sum.splits if_splits)
  moreover have "\<exists>r. signed_int i = Some r" for i by (simp add: signed_int_def parser_new_def)
  ultimately show ?thesis unfolding consuming_def by metis
qed

theorem many_is_greedy_witness:
  "\<exists>items rest e. many (char_lit (CHR ''a'')) ''aab'' = Some (Ok (items, rest))
     \<and> runs (char_lit (CHR ''a'')) items ''aab'' rest \<and> char_lit (CHR ''a'') rest = Some (Err e)"
  by (rule many_is_greedy [OF char_lit_consuming])

section \<open>Codec laws\<close>

text \<open>
  The contract of a codec: a \<open>good\<close> value, printed in front of a text that may \<open>follow\<close> it, is
  parsed back and the text is left over.
\<close>

locale text_law =
  fixes c :: "(string, 'o, 'e) text_codec"
    and good :: "'o \<Rightarrow> bool"
    and follow :: "string \<Rightarrow> bool"
  assumes parse_print: "good v \<Longrightarrow> follow rest \<Longrightarrow> codec_parse c (print_value c v @ rest) = Some (Ok (v, rest))"
begin

lemma print_unambiguous:
  assumes "good v" "good w" "follow r" "follow s" "print_value c v @ r = print_value c w @ s"
  shows "v = w \<and> r = s"
proof -
  have "Some (Ok (v, r)) = Some (Ok (w, s) :: ('o \<times> string, 'e) result)"
    by (simp only: parse_print [OF assms(1,3), symmetric] parse_print [OF assms(2,4), symmetric] assms(5))
  then show ?thesis by simp
qed

lemma map_law:
  assumes "\<And>u. good' u \<Longrightarrow> good (from u) \<and> to (from u) = u"
  shows "text_law (codec_map c to from) good' follow"
  using parse_print assms
  by unfold_locales (simp add: codec_map_def codec_parse_def print_value_def parser_map_def)

end

lemma pair_law:
  assumes l: "text_law a good1 follow1" and r: "text_law b good2 follow2"
    and mid: "\<And>v rest. good2 v \<Longrightarrow> follow2 rest \<Longrightarrow> follow1 (print_value b v @ rest)"
  shows "text_law (pair_codec a b) (\<lambda>(v, w). good1 v \<and> good2 w) follow2"
proof
  fix vw rest
  assume "case vw of (v, w) \<Rightarrow> good1 v \<and> good2 w" and f: "follow2 rest"
  then obtain v w where vw: "vw = (v, w)" "good1 v" "good2 w" by auto
  have "codec_parser a (codec_print a v @ codec_print b w @ rest) = Some (Ok (v, codec_print b w @ rest))"
    using text_law.parse_print [OF l vw(2) mid [OF vw(3) f]] by (simp add: codec_parse_def print_value_def)
  moreover have "codec_parser b (codec_print b w @ rest) = Some (Ok (w, rest))"
    using text_law.parse_print [OF r vw(3) f] by (simp add: codec_parse_def print_value_def)
  ultimately show "codec_parse (pair_codec a b) (print_value (pair_codec a b) vw @ rest) = Some (Ok (vw, rest))"
    by (simp add: vw(1) pair_codec_def codec_parse_def print_value_def codec_new_def and_then_def parser_map_def)
qed

text \<open>A codec whose values may be followed by a comma can be the item of a list.\<close>

definition no_comma :: "string \<Rightarrow> bool" where
  "no_comma rest \<longleftrightarrow> rest = [] \<or> hd rest \<noteq> CHR '',''"

lemma comma_taken: "void (char_lit (CHR '','')) (CHR '','' # s) = Some (Ok ((), s))"
  by (simp add: void_def parser_map_def char_lit_def parser_new_def)

lemma comma_absent: "no_comma s \<Longrightarrow> \<exists>e. void (char_lit (CHR '','')) s = Some (Err e)"
  by (cases s) (simp_all add: no_comma_def void_def parser_map_def char_lit_def parser_new_def)

lemma join_items: "join '','' (map f (v # vs)) = f v @ concat (map (\<lambda>v. CHR '','' # f v) vs)"
  by (induction vs arbitrary: v) auto

locale item_law = text_law c good follow
  for c :: "(string, 'o, parse_failure) text_codec" and good follow +
  assumes follow_comma: "follow (CHR '','' # rest)"
begin

lemma sep_loop_items:
  assumes "list_all good vs" "follow rest" "no_comma rest"
  shows "sep_loop (codec_parser c) (void (char_lit (CHR '',''))) out
    (concat (map (\<lambda>v. CHR '','' # codec_print c v) vs) @ rest) = Some (Ok (out @ vs, rest))"
  using assms(1)
proof (induction vs arbitrary: out)
  case Nil
  then show ?case using comma_absent [OF assms(3)] by (subst sep_loop.simps) auto
next
  case (Cons v vs)
  let ?tl = "concat (map (\<lambda>v. CHR '','' # codec_print c v) vs) @ rest"
  have "follow ?tl" using assms(2) follow_comma by (cases vs) auto
  then have "codec_parser c (codec_print c v @ ?tl) = Some (Ok (v, ?tl))"
    using parse_print [of v ?tl] Cons.prems by (simp add: codec_parse_def print_value_def)
  then show ?case using Cons.IH [of "out @ [v]"] Cons.prems
    by (subst sep_loop.simps) (simp add: comma_taken)
qed

lemma list_law: "text_law (list_codec c) (\<lambda>vs. vs \<noteq> [] \<and> list_all good vs) (\<lambda>rest. follow rest \<and> no_comma rest)"
proof
  fix vs rest
  assume "vs \<noteq> [] \<and> list_all good vs" and f: "follow rest \<and> no_comma rest"
  then obtain v ws where vs: "vs = v # ws" "good v" "list_all good ws" by (cases vs) auto
  let ?tl = "concat (map (\<lambda>v. CHR '','' # codec_print c v) ws) @ rest"
  have "follow ?tl" using f follow_comma by (cases ws) auto
  then have "codec_parser c (codec_print c v @ ?tl) = Some (Ok (v, ?tl))"
    using parse_print [OF vs(2)] by (simp add: codec_parse_def print_value_def)
  then show "codec_parse (list_codec c) (print_value (list_codec c) vs @ rest) = Some (Ok (vs, rest))"
    using sep_loop_items [OF vs(3), of rest "[v]"] f
    by (simp add: vs(1) codec_parse_def print_value_def list_codec_def codec_new_def sep_by_def join_items del: join.simps list.map)
qed

end

subsection \<open>The codecs of the crate\<close>

lemma escape_Cons: "escape (x # xs) = escape [x] @ escape xs"
  by (simp add: escape_def replace_char_def)

lemma quoted_loop_escape: "quoted_loop out False (escape v @ dquote # rest) = Ok (out @ v, rest)"
proof (induction v arbitrary: out)
  case Nil
  show ?case by (simp add: escape_def replace_char_def)
next
  case (Cons x xs)
  have "quoted_loop out False (escape [x] @ tl) = quoted_loop (out @ [x]) False tl" for tl
    by (simp add: escape_def replace_char_def unescape_char_def)
  then show ?case by (simp add: escape_Cons [of x xs] Cons.IH)
qed

interpretation quoted: item_law quoted_string "\<lambda>_. True" "\<lambda>_. True"
  by unfold_locales
    (simp_all add: quoted_string_def codec_parse_def print_value_def codec_new_def parser_new_def quoted_loop_escape)

definition no_digit :: "string \<Rightarrow> bool" where
  "no_digit rest \<longleftrightarrow> rest = [] \<or> \<not> is_ascii_digit (hd rest)"

lemma digits_not_sign: "is_ascii_digit c \<Longrightarrow> c \<noteq> CHR ''-'' \<and> c \<noteq> CHR ''+''"
  by (auto simp: is_ascii_digit_def digit_value_def)

lemma show_nat_digit_list: "list_all is_ascii_digit (show_nat n)"
  using show_nat_all_digits [of n] by (simp add: is_ascii_digit_def list_all_iff)

lemma signed_int_show:
  assumes "no_digit rest"
  shows "signed_int (show_i64 n @ rest) = Some (Ok (n, rest))"
proof -
  have tw: "takeWhile is_ascii_digit (show_nat m @ rest) = show_nat m" for m
    by (rule drop_takeWhile_append [OF show_nat_digit_list]) (use assms in \<open>simp add: no_digit_def\<close>)
  have hd: "hd (show_nat m @ rest) \<noteq> CHR ''-''" "hd (show_nat m @ rest) \<noteq> CHR ''+''" for m
    using show_nat_hd [of m] by simp_all
  show ?thesis
  proof (cases "sint n < 0")
    case True
    then show ?thesis using parse_i64_show [of n]
      by (simp add: signed_int_def parser_new_def show_i64_def tw Let_def)
  next
    case False
    then show ?thesis using parse_i64_show [of n] hd
      by (simp add: signed_int_def parser_new_def show_i64_def tw Let_def)
  qed
qed

interpretation ints: item_law int_codec "\<lambda>_. True" no_digit
  by unfold_locales
    (simp_all add: int_codec_def codec_parse_def print_value_def codec_new_def signed_int_show,
     simp add: no_digit_def is_ascii_digit_def digit_value_def)

interpretation bools: item_law bool_codec "\<lambda>_. True" "\<lambda>_. True"
  by unfold_locales
    (auto simp: bool_codec_def codec_parse_def print_value_def codec_new_def bool_lit_def alt_def parser_map_def
      tag_def parser_new_def)


interpretation entries: item_law "pair_codec quoted_string int_codec" "\<lambda>(v, w). True \<and> True" no_digit
proof (rule item_law.intro)
  show "text_law (pair_codec quoted_string int_codec) (\<lambda>(v, w). True \<and> True) no_digit"
    by (rule pair_law [OF quoted.text_law_axioms ints.text_law_axioms]) simp
  show "item_law_axioms no_digit" by unfold_locales (rule ints.follow_comma)
qed



text \<open>The list codec prints the empty list as the empty text and then refuses to parse it.\<close>

theorem empty_list_not_parsed:
  "print_value (list_codec int_codec) [] = []
   \<and> codec_parse (list_codec int_codec) [] = Some (Err (ParseFailure ''expected integer''))"
  by (simp add: list_codec_def print_value_def codec_parse_def codec_new_def sep_by_def int_codec_def signed_int_def
      parser_new_def)

section \<open>Bytes\<close>

lemma byte_char_inverse [simp]: "byte_char (char_byte c) = c"
  by (simp add: byte_char_def char_byte_def unat_of_nat take_bit_nat_eq_self)

lemma char_byte_eq [simp]: "char_byte c = char_byte d \<longleftrightarrow> c = d"
  by (metis byte_char_inverse)

lemma takeWhile_bytes:
  "no_digit rest \<Longrightarrow> takeWhile (\<lambda>b. is_ascii_digit (byte_char b)) (map char_byte (show_nat m) @ map char_byte rest)
     = map char_byte (show_nat m)"
  by (rule drop_takeWhile_append)
    (use show_nat_digit_list [of m] in \<open>auto simp: list_all_iff no_digit_def hd_map\<close>)

lemma parse_i64_nat: "m < 2 ^ 63 \<Longrightarrow> parse_i64 (show_nat m) = Ok (of_nat m)"
  by (simp add: parse_i64_def digits_value_show show_nat_hd)

lemma of_nat_sint:
  fixes n :: i64
  shows "0 \<le> sint n \<Longrightarrow> of_nat (nat (sint n)) = n" "sint n < 0 \<Longrightarrow> - of_nat (nat (- sint n)) = n"
proof -
  have *: "of_nat k = (of_int (int k) :: i64)" for k by (rule of_int_of_nat_eq [symmetric])
  show "0 \<le> sint n \<Longrightarrow> of_nat (nat (sint n)) = n" by (subst *) simp
  show "sint n < 0 \<Longrightarrow> - of_nat (nat (- sint n)) = n" by (subst *) simp
qed

text \<open>
  The byte parser of integers reads back every \<open>i64\<close> but the least: the sign is applied after
  the digits have been parsed as an \<open>i64\<close>, and the magnitude of \<open>i64::MIN\<close> is out of range, so its
  own decimal text is refused.
\<close>

theorem byte_int_reads:
  fixes n :: i64
  assumes "no_digit rest"
  shows "byte_int (map char_byte (show_i64 n) @ map char_byte rest) =
    (if sint n = - (2 ^ 63) then Some (Err (ParseFailure ''invalid integer: number too large to fit in target type''))
     else Some (Ok (n, map char_byte rest)))"
proof (cases "sint n < 0")
  case True
  let ?m = "nat (- sint n)"
  note tw = takeWhile_bytes [OF assms, of ?m]
  have neg: "byte_int (map char_byte (show_i64 n) @ map char_byte rest) =
      (case parse_i64 (show_nat ?m) of
         Inl err \<Rightarrow> Some (Err (ParseFailure (''invalid integer: '' @ err)))
       | Inr value \<Rightarrow> Some (Ok (- value, map char_byte rest)))"
    using True tw by (simp add: byte_int_def parser_new_def show_i64_def Let_def comp_def split: sum.split)
  show ?thesis
  proof (cases "sint n = - (2 ^ 63)")
    case least: True
    then have "?m = 2 ^ 63" by simp
    then have "parse_i64 (show_nat ?m) = Err ''number too large to fit in target type''"
      by (simp add: parse_i64_def digits_value_show show_nat_hd)
    then show ?thesis using neg least by simp
  next
    case False
    then have "- (2 ^ 63) < sint n" using sint_ge [of n] by simp
    then have "?m < 2 ^ 63" by simp
    then show ?thesis using neg False parse_i64_nat [of ?m] of_nat_sint(2) [OF True] by simp
  qed
next
  case False
  have "nat (sint n) < 2 ^ 63" using sint_lt [of n] False by simp
  moreover have "sint n \<noteq> - (2 ^ 63)" using False by simp
  ultimately show ?thesis
    using False takeWhile_bytes [OF assms, of "nat (sint n)"] parse_i64_nat [of "nat (sint n)"]
      show_nat_hd [of "nat (sint n)"] of_nat_sint(1) [of n]
    by (simp add: byte_int_def parser_new_def show_i64_def Let_def comp_def hd_map)
qed

theorem byte_int_reads_witness:
  "byte_int (map char_byte (show_i64 (- 42)) @ map char_byte '';'') = Some (Ok (- 42, map char_byte '';''))"
  by (subst byte_int_reads) (simp_all add: no_digit_def is_ascii_digit_def digit_value_def)

section \<open>Diffs\<close>

text \<open>
  Applying the difference of two snapshots to the first gives the second, except for a removal: the
  \<open>None\<close> of a removal falls through to the base, so a removed value stays.
\<close>

theorem apply_diff_option:
  "diff_option before (Some v) = Some d \<Longrightarrow> apply_diff before d = Some v"
  "diff_option (Some v) None = Some (Removed v)" "apply_diff (Some v) (Removed v) = Some v"
  by (cases before; auto simp: apply_diff_def split: if_splits)+

lemma diff_values_correct: "apply_diff base (diff_values old new) = Some new" "is_unchanged (diff_values old new) \<longleftrightarrow> old = new"
  by (simp_all add: diff_values_def apply_diff_def is_unchanged_def)

section \<open>Layout\<close>

text \<open>The text of a document without its layout, and on one line.\<close>

primrec doc_text :: "doc \<Rightarrow> string" where
  "doc_text Nil_doc = []"
| "doc_text (Text t) = t"
| "doc_text Line = []"
| "doc_text Break = []"
| "doc_text (Cat l r) = doc_text l @ doc_text r"
| "doc_text (Nest n d) = doc_text d"
| "doc_text (Group d) = doc_text d"

primrec flat_text :: "doc \<Rightarrow> string" where
  "flat_text Nil_doc = []"
| "flat_text (Text t) = t"
| "flat_text Line = []"
| "flat_text Break = '' ''"
| "flat_text (Cat l r) = flat_text l @ flat_text r"
| "flat_text (Nest n d) = flat_text d"
| "flat_text (Group d) = flat_text d"

primrec one_line :: "doc \<Rightarrow> bool" where
  "one_line Nil_doc \<longleftrightarrow> True"
| "one_line (Text t) \<longleftrightarrow> newline \<notin> set t"
| "one_line Line \<longleftrightarrow> False"
| "one_line Break \<longleftrightarrow> True"
| "one_line (Cat l r) \<longleftrightarrow> one_line l \<and> one_line r"
| "one_line (Nest n d) \<longleftrightarrow> one_line d"
| "one_line (Group d) \<longleftrightarrow> one_line d"

definition ink :: "string \<Rightarrow> string" where
  "ink = filter (\<lambda>c. c \<noteq> CHR '' '' \<and> c \<noteq> newline)"

lemma ink_append [simp]: "ink (xs @ ys) = ink xs @ ink ys"
  by (simp add: ink_def)

lemma ink_layout [simp]: "ink (newline_indent n) = []" "ink '' '' = []" "ink [] = []"
  by (simp_all add: ink_def newline_indent_def)

lemma ink_render_impl: "ink (render_impl d w i m out) = ink out @ ink (doc_text d)"
  by (induction d arbitrary: w i m out) (auto simp: Let_def split: mode.split)

lemma flat_text_newline: "one_line d \<Longrightarrow> newline \<notin> set (flat_text d)"
  by (induction d) auto

lemma render_flat:
  "one_line d \<Longrightarrow> length (flat_text d) \<le> usize_max \<Longrightarrow> render_impl d usize_max i Flat out = out @ flat_text d"
  by (induction d arbitrary: i out) (auto simp: Let_def flat_text_newline)

text \<open>
  Rendering chooses the layout and nothing else: at every width the characters other than spaces
  and line breaks are those of the document's texts, in order. A group without forced line breaks
  whose one-line form fits the width is rendered as that form.
\<close>

theorem render_keeps_text:
  "ink (render d width) = ink (doc_text d)
   \<and> (one_line d \<and> length (flat_text d) \<le> width \<and> width \<le> usize_max \<longrightarrow> render (Group d) width = flat_text d)"
  by (auto simp: render_def ink_render_impl render_flat flat_text_newline Let_def)

theorem render_keeps_text_witness:
  "render (Group (Cat (Text ''a'') (Cat Break (Text ''b'')))) 3 = ''a b''"
  using render_keeps_text [of "Cat (Text ''a'') (Cat Break (Text ''b''))" 3] by (simp add: usize_max_def)

text \<open>
  The budget of a group is the whole width whatever stands to its left on the line, so a line can be
  longer than the width although breaking the group would have kept it short.
\<close>

theorem render_ignores_column:
  "render (Cat (Text ''aaaa'') (Group (Cat Break (Text ''c'')))) 4 = ''aaaa c''"
  "render (Cat (Text ''aaaa'') (Cat Break (Text ''c''))) 4 = ''aaaa'' @ [newline] @ ''c''"
  by (simp_all add: render_def Let_def newline_indent_def)

lemma fill_text: "doc_text (fill docs) = concat (map doc_text docs)"
proof -
  have "doc_text (foldl (\<lambda>d next. Cat (Cat d Break) next) d ds) = doc_text d @ concat (map doc_text ds)" for d ds
    by (induction ds arbitrary: d) auto
  then show ?thesis by (simp add: fill_def split: list.split)
qed

end
