(* ===== verification/Json.thy ===== *)
theory Json
  imports Schemas Parsers
begin

text \<open>
  \<open>crates/id_effect_parse/src/json.rs\<close> and \<open>schema_bridge.rs\<close>: the JSON parser that produces
  \<open>Unknown\<close> values, and the parsers built from schemas.

  The parser is mutually recursive with a loop in every array and object; \<open>fuel\<close> bounds the nesting
  of calls and loop turns, and \<open>None\<close> is running out of it. \<open>json_fuel\<close> is what the entry points
  give it, and the section on termination shows that this is always enough. \<open>f64::from_str\<close> is
  the argument \<open>f64\<close>, as an opaque type of numbers is in \<open>Schemas\<close>.
\<close>

section \<open>Scalars\<close>

definition json_error :: "string \<Rightarrow> parse_error" where
  "json_error m = parse_error_new [] m"

definition trim_start :: "string \<Rightarrow> string" where
  "trim_start s = dropWhile is_whitespace s"

type_synonym 'f json_step = "('f unknown \<times> string, parse_error) result"

definition parse_null :: "string \<Rightarrow> 'f json_step" where
  "parse_null input = (case strip_prefix ''null'' input of
     Some rest \<Rightarrow> Ok (Null, rest)
   | None \<Rightarrow> Err (json_error ''expected null''))"

definition parse_bool :: "string \<Rightarrow> 'f json_step" where
  "parse_bool input = (case strip_prefix ''true'' input of
     Some rest \<Rightarrow> Ok (Bool True, rest)
   | None \<Rightarrow> (case strip_prefix ''false'' input of
       Some rest \<Rightarrow> Ok (Bool False, rest)
     | None \<Rightarrow> Err (json_error ''expected boolean'')))"

definition hex_value :: "char \<Rightarrow> nat option" where
  "hex_value c = (let n = (of_char c :: nat) in
     if 48 \<le> n \<and> n \<le> 57 then Some (n - 48)
     else if 65 \<le> n \<and> n \<le> 70 then Some (n - 55)
     else if 97 \<le> n \<and> n \<le> 102 then Some (n - 87)
     else None)"

definition hex_code :: "string \<Rightarrow> nat" where
  "hex_code s = foldl (\<lambda>acc c. 16 * acc + (case hex_value c of Some d \<Rightarrow> d | None \<Rightarrow> 0)) 0 s"

text \<open>
  The escape \<open>\u\<close>: \<open>here\<close> is the input from the character \<open>u\<close> on. Four digits are at most
  \<open>0xFFFF\<close>, so \<open>from_str_radix\<close> does not overflow and \<open>char::from_u32\<close> fails on the surrogates
  only. (A decoded code point above 255 is not a \<open>char\<close> of the model; no input gets that far, by
  \<open>unicode_escapes_rejected\<close> below.)
\<close>

definition unicode_escape :: "string \<Rightarrow> (char, parse_error) result" where
  "unicode_escape here = (let hex = take 4 here in
     if length hex \<noteq> 4 \<or> \<not> list_all (\<lambda>c. hex_value c \<noteq> None) hex
     then Err (json_error ''invalid unicode escape'')
     else let code = hex_code hex in
       if 0xD800 \<le> code \<and> code \<le> 0xDFFF then Err (json_error ''invalid unicode scalar'')
       else Ok (char_of code))"

definition json_unescape :: "char \<Rightarrow> char" where
  "json_unescape c =
     (if c = CHR ''b'' then CHR 0x08 else if c = CHR ''f'' then CHR 0x0C
      else if c = CHR ''n'' then CHR 0x0A else if c = CHR ''r'' then CHR 0x0D
      else if c = CHR ''t'' then CHR 0x09 else c)"

fun string_loop :: "string \<Rightarrow> bool \<Rightarrow> string \<Rightarrow> (string \<times> string, parse_error) result" where
  "string_loop out escaped [] = Err (json_error ''unterminated string'')"
| "string_loop out escaped (c # cs) =
     (if escaped then
        if c = CHR ''u'' then (case unicode_escape (c # cs) of
            Inl e \<Rightarrow> Err e
          | Inr decoded \<Rightarrow> string_loop (out @ [decoded]) False cs)
        else string_loop (out @ [json_unescape c]) False cs
      else if c = backslash then string_loop out True cs
      else if c = dquote then Ok (out, cs)
      else string_loop (out @ [c]) False cs)"

text \<open>\<open>parse_string\<close> only returns strings, so the check of an object's key never fails.\<close>

definition parse_string :: "string \<Rightarrow> (string \<times> string, parse_error) result" where
  "parse_string input =
     (if input = [] \<or> hd input \<noteq> dquote then Err (json_error ''expected string'')
      else string_loop [] False (tl input))"

definition parse_number :: "(string \<Rightarrow> 'f option) \<Rightarrow> string \<Rightarrow> 'f json_step" where
  "parse_number f64 input =
     (let sign = (if input \<noteq> [] \<and> hd input = CHR ''-'' then 1 else 0);
          int_end = sign + length (takeWhile is_ascii_digit (drop sign input)) in
      if int_end = 0 \<or> int_end = 1 \<and> hd input = CHR ''-'' then Err (json_error ''expected number'')
      else if int_end < length input \<and> input ! int_end = CHR ''.'' then
        let frac_end = Suc int_end + length (takeWhile is_ascii_digit (drop (Suc int_end) input)) in
        (case f64 (take frac_end input) of
           None \<Rightarrow> Err (json_error ''invalid number'')
         | Some x \<Rightarrow> Ok (F64 x, drop frac_end input))
      else (case parse_i64 (take int_end input) of
          Inl _ \<Rightarrow> Err (json_error ''invalid integer'')
        | Inr n \<Rightarrow> Ok (I64 n, drop int_end input)))"

section \<open>Values\<close>

definition starts :: "string \<Rightarrow> char \<Rightarrow> bool" where
  "starts s c \<longleftrightarrow> s \<noteq> [] \<and> hd s = c"

fun parse_value :: "(string \<Rightarrow> 'f option) \<Rightarrow> nat \<Rightarrow> string \<Rightarrow> 'f json_step option"
  and array_loop :: "(string \<Rightarrow> 'f option) \<Rightarrow> nat \<Rightarrow> 'f unknown list \<Rightarrow> string \<Rightarrow> 'f json_step option"
  and object_loop ::
    "(string \<Rightarrow> 'f option) \<Rightarrow> nat \<Rightarrow> (string, 'f unknown) btree_map \<Rightarrow> string \<Rightarrow> 'f json_step option" where
  "parse_value f64 0 input = None"
| "parse_value f64 (Suc fuel) input0 = (case trim_start input0 of
     [] \<Rightarrow> Some (Err (json_error ''unexpected end of input''))
   | c # rest \<Rightarrow>
       if c = dquote then Some (result_map (\<lambda>(s, r). (String s, r)) (parse_string (c # rest)))
       else if c = CHR ''{'' then (let current = trim_start rest in
         if starts current (CHR ''}'') then Some (Ok (Object [], tl current))
         else object_loop f64 fuel [] current)
       else if c = CHR ''['' then (let current = trim_start rest in
         if starts current (CHR '']'') then Some (Ok (Array [], tl current))
         else array_loop f64 fuel [] current)
       else if c = CHR ''t'' \<or> c = CHR ''f'' then Some (parse_bool (c # rest))
       else if c = CHR ''n'' then Some (parse_null (c # rest))
       else if c = CHR ''-'' \<or> is_ascii_digit c then Some (parse_number f64 (c # rest))
       else Some (Err (json_error ''expected JSON value'')))"
| "array_loop f64 0 items current = None"
| "array_loop f64 (Suc fuel) items current = (case parse_value f64 fuel current of
     None \<Rightarrow> None
   | Some (Inl e) \<Rightarrow> Some (Err e)
   | Some (Inr (item, after)) \<Rightarrow>
       let current = trim_start after in
       if starts current (CHR '']'') then Some (Ok (Array (items @ [item]), tl current))
       else if \<not> starts current (CHR '','') then
         Some (Err (json_error (''expected '' @ [CHR 0x27, CHR '','', CHR 0x27] @ '' or '' @ [CHR 0x27, CHR '']'', CHR 0x27] @ '' in array'')))
       else array_loop f64 fuel (items @ [item]) (trim_start (tl current)))"
| "object_loop f64 0 entries current = None"
| "object_loop f64 (Suc fuel) entries current = (case parse_string current of
     Inl e \<Rightarrow> Some (Err e)
   | Inr (key, after_key) \<Rightarrow>
       let current = trim_start after_key in
       if \<not> starts current (CHR '':'') then
         Some (Err (json_error (''expected '' @ [CHR 0x27, CHR '':'', CHR 0x27] @ '' after object key'')))
       else (case parse_value f64 fuel (trim_start (tl current)) of
           None \<Rightarrow> None
         | Some (Inl e) \<Rightarrow> Some (Err e)
         | Some (Inr (v, after)) \<Rightarrow>
             let entries = bt_insert key v entries; current = trim_start after in
             if starts current (CHR ''}'') then Some (Ok (Object entries, tl current))
             else if \<not> starts current (CHR '','') then
               Some (Err (json_error (''expected '' @ [CHR 0x27, CHR '','', CHR 0x27] @ '' or '' @ [CHR 0x27, CHR ''}'', CHR 0x27] @ '' in object'')))
             else object_loop f64 fuel entries (trim_start (tl current))))"

definition json_fuel :: "string \<Rightarrow> nat" where
  "json_fuel input = Suc (2 * length input)"

definition parse_json_value :: "(string \<Rightarrow> 'f option) \<Rightarrow> string \<Rightarrow> 'f json_step option" where
  "parse_json_value f64 input = parse_value f64 (json_fuel (trim_start input)) (trim_start input)"

definition parse_json_document :: "(string \<Rightarrow> 'f option) \<Rightarrow> string \<Rightarrow> ('f unknown, parse_error) result option" where
  "parse_json_document f64 input = (case parse_json_value f64 input of
     None \<Rightarrow> None
   | Some (Inl e) \<Rightarrow> Some (Err e)
   | Some (Inr (v, rest)) \<Rightarrow>
       Some (if blank rest then Ok v else Err (json_error ''trailing input after JSON value'')))"

section \<open>Parsers from schemas\<close>

definition parser_for_string_wire :: "('a, string, 'f) schema \<Rightarrow> (string, 'a, parse_error) parser" where
  "parser_for_string_wire s = parser_new (\<lambda>input. case decode s input of
     Inr v \<Rightarrow> Ok (v, [])
   | Inl e \<Rightarrow> Err e)"

definition parser_for_json ::
  "(string \<Rightarrow> 'f option) \<Rightarrow> ('a, 'i, 'f) schema \<Rightarrow> (string, 'a, parse_error) parser" where
  "parser_for_json f64 s input = (case parse_json_document f64 input of
     None \<Rightarrow> None
   | Some (Inl e) \<Rightarrow> Some (Err e)
   | Some (Inr u) \<Rightarrow> Some (result_map (\<lambda>v. (v, [])) (decode_unknown s u)))"

definition parser_for_json_prefix ::
  "(string \<Rightarrow> 'f option) \<Rightarrow> ('a, 'i, 'f) schema \<Rightarrow> (string, 'a, parse_error) parser" where
  "parser_for_json_prefix f64 s input = (case parse_json_value f64 input of
     None \<Rightarrow> None
   | Some (Inl e) \<Rightarrow> Some (Err e)
   | Some (Inr (u, rest)) \<Rightarrow> Some (result_map (\<lambda>v. (v, rest)) (decode_unknown s u)))"

section \<open>Termination\<close>

lemma length_trim_start: "length (trim_start s) \<le> length s"
  by (simp add: trim_start_def length_dropWhile_le)

lemma trim_start_Cons: "trim_start s = c # r \<Longrightarrow> length r < length s"
  using length_trim_start [of s] by simp

lemma starts_Cons: "starts s c \<Longrightarrow> \<exists>r. s = c # r"
  by (cases s) (auto simp: starts_def)

lemma starts_tl_shorter: "starts (trim_start s) c \<Longrightarrow> length (tl (trim_start s)) < length s"
  using starts_Cons [of "trim_start s" c] trim_start_Cons [of s] by fastforce

lemma string_loop_shorter: "string_loop out esc s = Ok (v, r) \<Longrightarrow> length r < length s"
  by (induction out esc s rule: string_loop.induct) (auto split: if_splits sum.splits)

lemma parse_string_shorter: "parse_string s = Ok (v, r) \<Longrightarrow> length r < length s"
  using string_loop_shorter [of "[]" False "tl s" v r] by (cases s) (auto simp: parse_string_def split: if_splits)

lemma parse_number_shorter: "s \<noteq> [] \<Longrightarrow> parse_number f64 s = Ok (v, r) \<Longrightarrow> length r < length s"
  by (auto simp: parse_number_def Let_def split: if_splits option.splits sum.splits)

lemma parse_bool_shorter: "parse_bool s = Ok (v, r) \<Longrightarrow> length r < length s"
  by (auto simp: parse_bool_def strip_prefix_Some split: option.splits)

lemma parse_null_shorter: "parse_null s = Ok (v, r) \<Longrightarrow> length r < length s"
  by (auto simp: parse_null_def strip_prefix_Some split: option.splits)

lemmas scalars_shorter = parse_string_shorter parse_number_shorter parse_bool_shorter parse_null_shorter

text \<open>
  The turns of the three functions with their recursive calls taken out: a turn is done, or goes on
  in an array or an object at a shorter input.
\<close>

datatype 'f turn = Done "'f json_step" | In_array string | In_object string

definition value_turn :: "(string \<Rightarrow> 'f option) \<Rightarrow> string \<Rightarrow> 'f turn" where
  "value_turn f64 input0 = (case trim_start input0 of
     [] \<Rightarrow> Done (Err (json_error ''unexpected end of input''))
   | c # rest \<Rightarrow>
       if c = dquote then Done (result_map (\<lambda>(s, r). (String s, r)) (parse_string (c # rest)))
       else if c = CHR ''{'' then
         if starts (trim_start rest) (CHR ''}'') then Done (Ok (Object [], tl (trim_start rest)))
         else In_object (trim_start rest)
       else if c = CHR ''['' then
         if starts (trim_start rest) (CHR '']'') then Done (Ok (Array [], tl (trim_start rest)))
         else In_array (trim_start rest)
       else if c = CHR ''t'' \<or> c = CHR ''f'' then Done (parse_bool (c # rest))
       else if c = CHR ''n'' then Done (parse_null (c # rest))
       else if c = CHR ''-'' \<or> is_ascii_digit c then Done (parse_number f64 (c # rest))
       else Done (Err (json_error ''expected JSON value'')))"

definition item_turn :: "char \<Rightarrow> 'f unknown \<Rightarrow> string \<Rightarrow> string \<Rightarrow> ('f json_step, string) sum" where
  "item_turn close whole msg after =
     (if starts (trim_start after) close then Inl (Ok (whole, tl (trim_start after)))
      else if \<not> starts (trim_start after) (CHR '','') then Inl (Err (json_error msg))
      else Inr (trim_start (tl (trim_start after))))"

definition key_turn :: "string \<Rightarrow> (parse_error, string \<times> string) sum" where
  "key_turn current = (case parse_string current of
     Inl e \<Rightarrow> Inl e
   | Inr (key, after_key) \<Rightarrow>
       if \<not> starts (trim_start after_key) (CHR '':'') then
         Inl (json_error (''expected '' @ [CHR 0x27, CHR '':'', CHR 0x27] @ '' after object key''))
       else Inr (key, trim_start (tl (trim_start after_key))))"

definition array_msg :: string where
  "array_msg = ''expected '' @ [CHR 0x27, CHR '','', CHR 0x27] @ '' or '' @ [CHR 0x27, CHR '']'', CHR 0x27] @ '' in array''"

definition object_msg :: string where
  "object_msg = ''expected '' @ [CHR 0x27, CHR '','', CHR 0x27] @ '' or '' @ [CHR 0x27, CHR ''}'', CHR 0x27] @ '' in object''"

lemma parse_value_turn:
  "parse_value f64 (Suc n) i = (case value_turn f64 i of
     Done r \<Rightarrow> Some r | In_array cur \<Rightarrow> array_loop f64 n [] cur | In_object cur \<Rightarrow> object_loop f64 n [] cur)"
  by (cases "trim_start i") (simp_all add: value_turn_def Let_def)

lemma array_loop_turn:
  "array_loop f64 (Suc n) items cur = (case parse_value f64 n cur of
     None \<Rightarrow> None
   | Some (Inl e) \<Rightarrow> Some (Err e)
   | Some (Inr (item, after)) \<Rightarrow> (case item_turn (CHR '']'') (Array (items @ [item])) array_msg after of
       Inl r \<Rightarrow> Some r | Inr cur' \<Rightarrow> array_loop f64 n (items @ [item]) cur'))"
  by (simp add: item_turn_def array_msg_def Let_def split: option.split sum.split)

lemma object_loop_turn:
  "object_loop f64 (Suc n) entries cur = (case key_turn cur of
     Inl e \<Rightarrow> Some (Err e)
   | Inr (key, vin) \<Rightarrow> (case parse_value f64 n vin of
         None \<Rightarrow> None
       | Some (Inl e) \<Rightarrow> Some (Err e)
       | Some (Inr (v, after)) \<Rightarrow>
           (case item_turn (CHR ''}'') (Object (bt_insert key v entries)) object_msg after of
              Inl r \<Rightarrow> Some r | Inr cur' \<Rightarrow> object_loop f64 n (bt_insert key v entries) cur')))"
  by (simp add: item_turn_def key_turn_def object_msg_def Let_def split: option.split sum.split)

declare parse_value.simps(2) [simp del] array_loop.simps(2) [simp del] object_loop.simps(2) [simp del]

lemma value_turn_shorter:
  "value_turn f64 i = Done (Ok (v, r)) \<Longrightarrow> length r < length i"
  "value_turn f64 i = In_array cur \<Longrightarrow> length cur < length i"
  "value_turn f64 i = In_object cur \<Longrightarrow> length cur < length i"
proof -
  show "length r < length i" if "value_turn f64 i = Done (Ok (v, r))"
  proof (cases "trim_start i")
    case (Cons c rest)
    have len: "length (c # rest) \<le> length i" using length_trim_start [of i] by (simp add: Cons)
    have "length (tl (trim_start rest)) < length (c # rest)" using length_trim_start [of rest] by simp
    then have "length r < length (c # rest)"
      using that parse_string_shorter [of "c # rest" _ r] parse_bool_shorter [of "c # rest" v r]
        parse_null_shorter [of "c # rest" v r] parse_number_shorter [of "c # rest" f64 v r]
      by (simp add: value_turn_def Cons result_map_Ok split: if_splits) auto
    with len show ?thesis by simp
  qed (use that in \<open>simp add: value_turn_def\<close>)
  show "length cur < length i" if "value_turn f64 i = In_array cur"
    using that length_trim_start [of "tl (trim_start i)"] trim_start_Cons [of i]
    by (fastforce simp: value_turn_def split: list.splits if_splits)
  show "length cur < length i" if "value_turn f64 i = In_object cur"
    using that length_trim_start [of "tl (trim_start i)"] trim_start_Cons [of i]
    by (fastforce simp: value_turn_def split: list.splits if_splits)
qed

lemma item_turn_shorter:
  "item_turn close whole msg i = Inl (Ok (v, r)) \<Longrightarrow> length r < length i"
  "item_turn close whole msg i = Inr cur \<Longrightarrow> length cur < length i"
  using starts_tl_shorter [of i] length_trim_start [of "tl (trim_start i)"]
  by (fastforce simp: item_turn_def split: if_splits)+

lemma key_turn_shorter: "key_turn i = Inr (key, cur) \<Longrightarrow> length cur < length i"
proof -
  assume "key_turn i = Inr (key, cur)"
  then obtain rest where "parse_string i = Ok (key, rest)" "starts (trim_start rest) (CHR '':'')"
      "cur = trim_start (tl (trim_start rest))"
    by (auto simp: key_turn_def split: if_splits sum.splits)
  then show ?thesis
    using parse_string_shorter [of i key rest] starts_tl_shorter [of rest] length_trim_start [of "tl (trim_start rest)"] by fastforce
qed

lemma array_loop_Ok:
  "array_loop f64 (Suc n) items i = Some (Ok vr) \<Longrightarrow> \<exists>item after. parse_value f64 n i = Some (Ok (item, after))
     \<and> (item_turn (CHR '']'') (Array (items @ [item])) array_msg after = Inl (Ok vr)
       \<or> (\<exists>cur. item_turn (CHR '']'') (Array (items @ [item])) array_msg after = Inr cur
            \<and> array_loop f64 n (items @ [item]) cur = Some (Ok vr)))"
  by (simp add: array_loop_turn split: option.splits sum.splits prod.splits)

lemma object_loop_Ok:
  "object_loop f64 (Suc n) entries i = Some (Ok vr) \<Longrightarrow> \<exists>key vin v after. key_turn i = Inr (key, vin)
     \<and> parse_value f64 n vin = Some (Ok (v, after))
     \<and> (item_turn (CHR ''}'') (Object (bt_insert key v entries)) object_msg after = Inl (Ok vr)
       \<or> (\<exists>cur. item_turn (CHR ''}'') (Object (bt_insert key v entries)) object_msg after = Inr cur
            \<and> object_loop f64 n (bt_insert key v entries) cur = Some (Ok vr)))"
  by (simp add: object_loop_turn split: option.splits sum.splits prod.splits)

lemma item_turn_whole: "item_turn close whole msg i = Inl (Ok (v, r)) \<Longrightarrow> v = whole"
  by (simp add: item_turn_def split: if_splits)

lemma parse_shorter:
  "parse_value f64 n i = Some (Ok (v, r)) \<Longrightarrow> length r < length i"
  "array_loop f64 n items i = Some (Ok (v, r)) \<Longrightarrow> length r < length i"
  "object_loop f64 n entries i = Some (Ok (v, r)) \<Longrightarrow> length r < length i"
proof (induction n arbitrary: i items entries v r)
  case (Suc n)
  {
    case 1
    then show ?case using Suc.IH value_turn_shorter [of f64 i]
      by (fastforce simp: parse_value_turn split: turn.splits)
  next
    case 2
    then show ?case using Suc.IH item_turn_shorter
      by (fastforce simp: array_loop_turn split: option.splits sum.splits)
  next
    case 3
    then show ?case using Suc.IH item_turn_shorter key_turn_shorter
      by (fastforce simp: object_loop_turn split: option.splits sum.splits)
  }
qed simp_all

lemma parse_returns:
  "2 * length i < n \<Longrightarrow> parse_value f64 n i \<noteq> None"
  "2 * length i + 1 < n \<Longrightarrow> array_loop f64 n items i \<noteq> None"
  "2 * length i + 1 < n \<Longrightarrow> object_loop f64 n entries i \<noteq> None"
proof (induction n arbitrary: i items entries)
  case (Suc n)
  {
    case 1
    show ?case
    proof (cases "value_turn f64 i")
      case (In_array cur)
      from value_turn_shorter(2) [OF In_array] 1 Suc.IH(2) [of cur "[]"] show ?thesis
        by (simp add: parse_value_turn In_array)
    next
      case (In_object cur)
      from value_turn_shorter(3) [OF In_object] 1 Suc.IH(3) [of cur "[]"] show ?thesis
        by (simp add: parse_value_turn In_object)
    qed (simp add: parse_value_turn)
  next
    case 2
    then obtain s where s: "parse_value f64 n i = Some s" using Suc.IH(1) [of i] by auto
    have "array_loop f64 n (items @ [item]) cur \<noteq> None"
      if "s = Ok (item, after)" "item_turn (CHR '']'') (Array (items @ [item])) array_msg after = Inr cur" for item "after" cur
      using parse_shorter(1) [of f64 n i item "after"] s that item_turn_shorter(2) [OF that(2)] 2 Suc.IH(2) [of cur "items @ [item]"]
      by simp
    then show ?case by (auto simp: array_loop_turn s split: sum.splits)
  next
    case 3
    show ?case
    proof (cases "key_turn i")
      case (Inr kc)
      obtain key cur where kc: "kc = (key, cur)" by fastforce
      from key_turn_shorter [OF Inr [unfolded kc]] have len: "length cur < length i" .
      with 3 obtain s where s: "parse_value f64 n cur = Some s" using Suc.IH(1) [of cur] by auto
      have "object_loop f64 n (bt_insert key v entries) cur' \<noteq> None"
        if "s = Ok (v, after)" "item_turn (CHR ''}'') (Object (bt_insert key v entries)) object_msg after = Inr cur'" for v "after" cur'
        using parse_shorter(1) [of f64 n cur v "after"] s that item_turn_shorter(2) [OF that(2)] 3 len
          Suc.IH(3) [of cur' "bt_insert key v entries"]
        by simp
      then show ?thesis by (auto simp: object_loop_turn Inr kc s split: sum.splits)
    qed (simp add: object_loop_turn)
  }
qed simp_all

lemma parse_more_fuel:
  "parse_value f64 n i = Some s \<Longrightarrow> parse_value f64 (Suc n) i = Some s"
  "array_loop f64 n items i = Some s \<Longrightarrow> array_loop f64 (Suc n) items i = Some s"
  "object_loop f64 n entries i = Some s \<Longrightarrow> object_loop f64 (Suc n) entries i = Some s"
proof (induction n arbitrary: i items entries s)
  case (Suc n)
  {
    case 1
    then show ?case using Suc.IH(2,3)
      by (simp add: parse_value_turn [of f64 "Suc n" i] parse_value_turn [of f64 n i] split: turn.splits)
  next
    case 2
    then obtain x where x: "parse_value f64 n i = Some x" by (auto simp: array_loop_turn split: option.splits)
    then show ?case using Suc.IH(2) 2 Suc.IH(1) [OF x]
      by (auto simp: array_loop_turn [of f64 "Suc n" items i] array_loop_turn [of f64 n items i] split: sum.splits)
  next
    case 3
    show ?case
    proof (cases "key_turn i")
      case (Inr kc)
      obtain key cur where kc: "kc = (key, cur)" by fastforce
      with 3 obtain x where x: "parse_value f64 n cur = Some x" by (auto simp: object_loop_turn Inr split: option.splits)
      then show ?thesis using Suc.IH(3) 3 Suc.IH(1) [OF x]
        by (auto simp: object_loop_turn [of f64 "Suc n" entries i] object_loop_turn [of f64 n entries i] Inr kc split: sum.splits)
    qed (use 3 in \<open>simp add: object_loop_turn\<close>)
  }
qed simp_all

lemma parse_value_fuel:
  assumes "parse_value f64 n i = Some s" "n \<le> m"
  shows "parse_value f64 m i = Some s"
  using assms(2) by (induction rule: dec_induct) (simp_all add: assms(1) parse_more_fuel)

lemma array_loop_fuel:
  assumes "array_loop f64 n items i = Some s" "n \<le> m"
  shows "array_loop f64 m items i = Some s"
  using assms(2) by (induction rule: dec_induct) (simp_all add: assms(1) parse_more_fuel)

lemma object_loop_fuel:
  assumes "object_loop f64 n entries i = Some s" "n \<le> m"
  shows "object_loop f64 m entries i = Some s"
  using assms(2) by (induction rule: dec_induct) (simp_all add: assms(1) parse_more_fuel)

lemma parse_value_any_fuel:
  assumes "parse_value f64 n i = Some s"
  shows "parse_value f64 (json_fuel i) i = Some s"
proof -
  obtain s' where s': "parse_value f64 (json_fuel i) i = Some s'"
    using parse_returns(1) [of i "json_fuel i" f64] by (auto simp: json_fuel_def)
  from parse_value_fuel [OF assms, of "max n (json_fuel i)"] parse_value_fuel [OF s', of "max n (json_fuel i)"]
  have "s = s'" by simp
  with s' show ?thesis by simp
qed

section \<open>What the parser returns\<close>

text \<open>Every object of a value holds its keys in ascending order, as a \<open>BTreeMap\<close> does.\<close>

fun value_ok :: "'f unknown \<Rightarrow> bool" where
  "value_ok (Array items) \<longleftrightarrow> list_all value_ok items"
| "value_ok (Object entries) \<longleftrightarrow> bt_ok entries \<and> list_all (\<lambda>(k, v). value_ok v) entries"
| "value_ok _ \<longleftrightarrow> True"

lemma value_turn_ok: "value_turn f64 i = Done (Ok (v, r)) \<Longrightarrow> value_ok v"
  by (auto simp: value_turn_def result_map_Ok parse_bool_def parse_null_def parse_number_def Let_def bt_ok_def
      split: list.splits if_splits option.splits sum.splits)

lemma insert_values_ok:
  "list_all (\<lambda>(k, v). value_ok v) m \<Longrightarrow> value_ok v \<Longrightarrow> list_all (\<lambda>(k, v). value_ok v) (bt_insert k v m)"
  using bt_insert_values [of k v m] by (fastforce simp: list_all_iff)

lemma parse_ok:
  "parse_value f64 n i = Some (Ok (v, r)) \<Longrightarrow> value_ok v"
  "list_all value_ok items \<Longrightarrow> array_loop f64 n items i = Some (Ok (v, r)) \<Longrightarrow> value_ok v"
  "bt_ok entries \<Longrightarrow> list_all (\<lambda>(k, v). value_ok v) entries \<Longrightarrow> object_loop f64 n entries i = Some (Ok (v, r))
    \<Longrightarrow> value_ok v"
proof (induction n arbitrary: i items entries v r)
  case (Suc n)
  {
    case 1
    then show ?case
    proof (cases "value_turn f64 i")
      case (Done s)
      with 1 value_turn_ok [of f64 i v r] show ?thesis by (simp add: parse_value_turn)
    next
      case (In_array cur)
      with 1 Suc.IH(2) [of "[]" cur v r] show ?thesis by (simp add: parse_value_turn)
    next
      case (In_object cur)
      with 1 Suc.IH(3) [of "[]" cur v r] show ?thesis by (simp add: parse_value_turn bt_ok_def)
    qed
  next
    case 2
    from array_loop_Ok [OF 2(2)] obtain item "after" where p: "parse_value f64 n i = Some (Ok (item, after))"
      and t: "item_turn (CHR '']'') (Array (items @ [item])) array_msg after = Inl (Ok (v, r))
        \<or> (\<exists>cur. array_loop f64 n (items @ [item]) cur = Some (Ok (v, r)))" by blast
    have "list_all value_ok (items @ [item])" using 2(1) Suc.IH(1) [OF p] by simp
    with t Suc.IH(2) [OF this] show ?case by (auto dest: item_turn_whole)
  next
    case 3
    from object_loop_Ok [OF 3(3)] obtain key vin u "after" where p: "parse_value f64 n vin = Some (Ok (u, after))"
      and t: "item_turn (CHR ''}'') (Object (bt_insert key u entries)) object_msg after = Inl (Ok (v, r))
        \<or> (\<exists>cur. object_loop f64 n (bt_insert key u entries) cur = Some (Ok (v, r)))" by blast
    note ins = bt_insert_ok [OF 3(1)] insert_values_ok [OF 3(2) Suc.IH(1) [OF p]]
    from t ins Suc.IH(3) [OF ins] show ?case by (auto dest: item_turn_whole)
  }
qed simp_all

section \<open>Round trip\<close>

text \<open>
  A reference printer without white space. Only the two characters that end or escape a string are
  escaped. Numbers with a fraction are left out: their text is \<open>f64\<close>'s.
\<close>

definition json_escape :: "char \<Rightarrow> string" where
  "json_escape c = (if c = dquote \<or> c = backslash then [backslash, c] else [c])"

definition print_string :: "string \<Rightarrow> string" where
  "print_string s = dquote # concat (map json_escape s) @ [dquote]"

fun print_json :: "'f unknown \<Rightarrow> string" where
  "print_json Null = ''null''"
| "print_json (Bool b) = (if b then ''true'' else ''false'')"
| "print_json (I64 n) = show_i64 n"
| "print_json (F64 x) = []"
| "print_json (String s) = print_string s"
| "print_json (Array items) = ''['' @ join '','' (map print_json items) @ '']''"
| "print_json (Object entries) = ''{'' @ join '','' (map (\<lambda>(k, v). print_string k @ '':'' @ print_json v) entries) @ ''}''"

fun plain :: "'f unknown \<Rightarrow> bool" where
  "plain (F64 x) \<longleftrightarrow> False"
| "plain (Array items) \<longleftrightarrow> list_all plain items"
| "plain (Object entries) \<longleftrightarrow> bt_ok entries \<and> list_all (\<lambda>(k, v). plain v) entries"
| "plain _ \<longleftrightarrow> True"

definition number_ends :: "string \<Rightarrow> bool" where
  "number_ends rest \<longleftrightarrow> rest = [] \<or> \<not> is_ascii_digit (hd rest) \<and> hd rest \<noteq> CHR ''.''"

lemma string_loop_print: "string_loop out False (concat (map json_escape s) @ dquote # rest) = Ok (out @ s, rest)"
  by (induction s arbitrary: out) (simp_all add: json_escape_def json_unescape_def)

lemma parse_string_print: "parse_string (print_string s @ rest) = Ok (s, rest)"
  by (simp add: parse_string_def print_string_def string_loop_print)

lemma parse_number_print:
  assumes "number_ends rest"
  shows "parse_number f64 (show_i64 n @ rest) = Ok (I64 n, rest)"
proof -
  have tw: "takeWhile is_ascii_digit (show_nat m @ rest) = show_nat m" for m
    by (rule drop_takeWhile_append [OF show_nat_digit_list]) (use assms in \<open>auto simp: number_ends_def\<close>)
  have dot: "rest = [] \<or> rest ! 0 \<noteq> CHR ''.''" using assms by (auto simp: number_ends_def hd_conv_nth)
  show ?thesis
  proof (cases "sint n < 0")
    case True
    then show ?thesis using parse_i64_show [of n] dot
      by (auto simp: parse_number_def show_i64_def tw Let_def nth_append)
  next
    case False
    then show ?thesis using parse_i64_show [of n] dot show_nat_hd [of "nat (sint n)"]
      by (auto simp: parse_number_def show_i64_def tw Let_def nth_append)
  qed
qed

definition value_head :: "char \<Rightarrow> bool" where
  "value_head c \<longleftrightarrow> c \<in> set ''{[tfn-'' \<or> c = dquote \<or> is_ascii_digit c"

lemma show_i64_head: "\<exists>c cs. show_i64 n = c # cs \<and> (c = CHR ''-'' \<or> is_ascii_digit c)"
  using show_nat_digit_list [of "nat (sint n)"]
  by (cases "show_nat (nat (sint n))") (auto simp: show_i64_def)

lemma print_json_head: "plain v \<Longrightarrow> \<exists>c cs. print_json v = c # cs \<and> value_head c"
  using show_i64_head by (cases v) (fastforce simp: value_head_def print_string_def)+

lemma digit_range: "is_ascii_digit c \<Longrightarrow> 48 \<le> (of_char c :: nat) \<and> (of_char c :: nat) \<le> 57"
  by (auto simp: is_ascii_digit_def digit_value_def Let_def split: if_splits)

lemma value_head_ink: "value_head c \<Longrightarrow> \<not> is_whitespace c \<and> c \<noteq> CHR '']'' \<and> c \<noteq> CHR ''}''"
  using digit_range [of c] by (auto simp: value_head_def is_whitespace_def Let_def)

lemma trim_start_print [simp]: "plain v \<Longrightarrow> trim_start (print_json v @ rest) = print_json v @ rest"
  using print_json_head [of v] value_head_ink by (fastforce simp: trim_start_def)

lemma trim_start_ink [simp]: "\<not> is_whitespace c \<Longrightarrow> trim_start (c # s) = c # s"
  by (simp add: trim_start_def)

lemma ink_punctuation [simp]:
  "\<not> is_whitespace (CHR '','')" "\<not> is_whitespace (CHR '']'')" "\<not> is_whitespace (CHR ''}'')" "\<not> is_whitespace (CHR '':'')"
  "\<not> is_whitespace (CHR ''['')" "\<not> is_whitespace (CHR ''{'')" "\<not> is_whitespace dquote" "\<not> is_whitespace (CHR ''n'')"
  "\<not> is_whitespace (CHR ''t'')" "\<not> is_whitespace (CHR ''f'')"
  by (simp_all add: is_whitespace_def)

lemma starts_simps [simp]: "starts (c # s) d \<longleftrightarrow> c = d" "\<not> starts [] d"
  by (simp_all add: starts_def)

lemma value_turn_i64: "number_ends rest \<Longrightarrow> value_turn f64 (show_i64 n @ rest) = Done (Ok (I64 n, rest))"
proof -
  assume ends: "number_ends rest"
  obtain c cs where c: "show_i64 n = c # cs" "c = CHR ''-'' \<or> is_ascii_digit c" using show_i64_head [of n] by blast
  have "\<not> is_whitespace c" using c(2) value_head_ink [of c] by (auto simp: value_head_def)
  moreover have "c \<noteq> dquote" "c \<noteq> CHR ''{''" "c \<noteq> CHR ''[''" "c \<noteq> CHR ''t''" "c \<noteq> CHR ''f''" "c \<noteq> CHR ''n''"
    using c(2) digit_range [of c] by auto
  ultimately show ?thesis using c parse_number_print [OF ends, of f64 n] by (simp add: value_turn_def)
qed

definition parses_back :: "(string \<Rightarrow> 'f option) \<Rightarrow> 'f unknown \<Rightarrow> bool" where
  "parses_back f64 v \<longleftrightarrow> (\<forall>rest. number_ends rest \<longrightarrow> (\<exists>n. parse_value f64 n (print_json v @ rest) = Some (Ok (v, rest))))"

lemma number_ends_simps [simp]:
  "number_ends (CHR '','' # s)" "number_ends (CHR '']'' # s)" "number_ends (CHR ''}'' # s)" "number_ends []"
  by (simp_all add: number_ends_def is_ascii_digit_def digit_value_def)

lemma array_loop_print:
  assumes "list_all (\<lambda>v. plain v \<and> parses_back f64 v) (v # vs)"
  shows "\<exists>n. array_loop f64 n out (print_json v @ concat (map (\<lambda>v. CHR '','' # print_json v) vs) @ CHR '']'' # rest)
     = Some (Ok (Array (out @ v # vs), rest))"
  using assms
proof (induction vs arbitrary: v out)
  case Nil
  then obtain n where "parse_value f64 n (print_json v @ CHR '']'' # rest) = Some (Ok (v, CHR '']'' # rest))"
    unfolding parses_back_def by fastforce
  then have "array_loop f64 (Suc n) out (print_json v @ CHR '']'' # rest) = Some (Ok (Array (out @ [v]), rest))"
    by (simp add: array_loop_turn item_turn_def)
  then show ?case by auto
next
  case (Cons w vs)
  let ?tl = "print_json w @ concat (map (\<lambda>v. CHR '','' # print_json v) vs) @ CHR '']'' # rest"
  obtain n where n: "parse_value f64 n (print_json v @ CHR '','' # ?tl) = Some (Ok (v, CHR '','' # ?tl))"
    using Cons.prems unfolding parses_back_def by fastforce
  obtain m where m: "array_loop f64 m (out @ [v]) ?tl = Some (Ok (Array ((out @ [v]) @ w # vs), rest))"
    using Cons.IH [of w "out @ [v]"] Cons.prems by auto
  have "plain w" using Cons.prems by simp
  then have "array_loop f64 (Suc (max n m)) out (print_json v @ CHR '','' # ?tl) = Some (Ok (Array (out @ v # w # vs), rest))"
    using parse_value_fuel [OF n, of "max n m"] array_loop_fuel [OF m, of "max n m"]
    by (simp add: array_loop_turn item_turn_def)
  then show ?case by auto
qed

abbreviation print_entry :: "string \<times> 'f unknown \<Rightarrow> string" where
  "print_entry \<equiv> (\<lambda>(k, v). print_string k @ '':'' @ print_json v)"

lemma key_turn_print: "plain v \<Longrightarrow> key_turn (print_entry (k, v) @ rest) = Inr (k, print_json v @ rest)"
  by (simp add: key_turn_def parse_string_print)

lemma object_loop_print:
  assumes "list_all (\<lambda>(k, v). plain v \<and> parses_back f64 v) (e # es)" "bt_ok (out @ e # es)"
  shows "\<exists>n. object_loop f64 n out (print_entry e @ concat (map (\<lambda>e. CHR '','' # print_entry e) es) @ CHR ''}'' # rest)
     = Some (Ok (Object (out @ e # es), rest))"
  using assms
proof (induction es arbitrary: e out)
  case Nil
  obtain k v where e: "e = (k, v)" by fastforce
  with Nil have "plain v" and "parses_back f64 v" by simp_all
  then obtain n where "parse_value f64 n (print_json v @ CHR ''}'' # rest) = Some (Ok (v, CHR ''}'' # rest))"
    unfolding parses_back_def by fastforce
  then have "object_loop f64 (Suc n) out (print_entry (k, v) @ CHR ''}'' # rest) = Some (Ok (Object (out @ [(k, v)]), rest))"
    using key_turn_print [OF \<open>plain v\<close>, of k "CHR ''}'' # rest"] bt_insert_append [of out k v] Nil.prems(2)
    by (simp add: object_loop_turn item_turn_def e)
  then show ?case using e by auto
next
  case (Cons f es)
  obtain k v where e: "e = (k, v)" by fastforce
  obtain j w where f: "f = (j, w)" by fastforce
  have v: "plain v" "parses_back f64 v" using Cons.prems e by simp_all
  let ?tl = "print_entry f @ concat (map (\<lambda>e. CHR '','' # print_entry e) es) @ CHR ''}'' # rest"
  obtain n where n: "parse_value f64 n (print_json v @ CHR '','' # ?tl) = Some (Ok (v, CHR '','' # ?tl))"
    using v unfolding parses_back_def by fastforce
  obtain m where m: "object_loop f64 m (out @ [e]) ?tl = Some (Ok (Object ((out @ [e]) @ f # es), rest))"
    using Cons.IH [of f "out @ [e]"] Cons.prems by auto
  have ins: "bt_insert k v out = out @ [e]"
    using bt_insert_append [of out k v] Cons.prems(2) e by (simp add: bt_ok_def sorted_wrt_append)
  have "trim_start ?tl = ?tl" by (simp add: f print_string_def)
  then have "object_loop f64 (Suc (max n m)) out (print_entry (k, v) @ CHR '','' # ?tl) = Some (Ok (Object (out @ e # f # es), rest))"
    using parse_value_fuel [OF n, of "max n m"] object_loop_fuel [OF m, of "max n m"]
      key_turn_print [OF v(1), of k "CHR '','' # ?tl"]
    by (simp add: object_loop_turn item_turn_def ins)
  then show ?case using e by auto
qed

lemma parses_back_turn:
  assumes "\<And>rest. number_ends rest \<Longrightarrow> value_turn f64 (print_json v @ rest) = Done (Ok (v, rest))"
  shows "parses_back f64 v"
  unfolding parses_back_def
proof (intro allI impI exI)
  fix rest
  assume "number_ends rest"
  then show "parse_value f64 (Suc 0) (print_json v @ rest) = Some (Ok (v, rest))" by (simp add: parse_value_turn assms)
qed

lemma parses_back_array:
  assumes "list_all (\<lambda>v. plain v \<and> parses_back f64 v) items"
  shows "parses_back f64 (Array items)"
proof (cases items)
  case Nil
  then show ?thesis by (intro parses_back_turn) (simp add: value_turn_def)
next
  case (Cons v vs)
  show ?thesis unfolding parses_back_def
  proof (intro allI impI)
    fix rest
    let ?body = "print_json v @ concat (map (\<lambda>v. CHR '','' # print_json v) vs) @ CHR '']'' # rest"
    obtain n where n: "array_loop f64 n [] ?body = Some (Ok (Array items, rest))"
      using array_loop_print [of f64 v vs "[]" rest] assms by (auto simp: Cons)
    have "plain v" using assms by (simp add: Cons)
    then have t: "trim_start ?body = ?body" and "\<not> starts ?body (CHR '']'')"
      using print_json_head [OF \<open>plain v\<close>] value_head_ink by (simp, auto)
    then have "value_turn f64 (CHR ''['' # ?body) = In_array ?body" by (simp add: value_turn_def)
    then have "parse_value f64 (Suc n) (print_json (Array items) @ rest) = Some (Ok (Array items, rest))"
      using n by (simp add: parse_value_turn Cons join_items del: join.simps list.map)
    then show "\<exists>n. parse_value f64 n (print_json (Array items) @ rest) = Some (Ok (Array items, rest))" by blast
  qed
qed

lemma parses_back_object:
  assumes "bt_ok entries" "list_all (\<lambda>(k, v). plain v \<and> parses_back f64 v) entries"
  shows "parses_back f64 (Object entries)"
proof (cases entries)
  case Nil
  then show ?thesis by (intro parses_back_turn) (simp add: value_turn_def)
next
  case (Cons e es)
  show ?thesis unfolding parses_back_def
  proof (intro allI impI)
    fix rest
    let ?body = "print_entry e @ concat (map (\<lambda>e. CHR '','' # print_entry e) es) @ CHR ''}'' # rest"
    obtain n where n: "object_loop f64 n [] ?body = Some (Ok (Object entries, rest))"
      using object_loop_print [of f64 e es "[]" rest] assms by (auto simp: Cons)
    have t: "trim_start ?body = ?body" "\<not> starts ?body (CHR ''}'')" by (cases e; simp add: print_string_def)+
    then have "value_turn f64 (CHR ''{'' # ?body) = In_object ?body" by (simp add: value_turn_def)
    then have "parse_value f64 (Suc n) (print_json (Object entries) @ rest) = Some (Ok (Object entries, rest))"
      using n by (simp add: parse_value_turn Cons join_items del: join.simps list.map)
    then show "\<exists>n. parse_value f64 n (print_json (Object entries) @ rest) = Some (Ok (Object entries, rest))" by blast
  qed
qed

lemma parses_back_plain: "plain v \<Longrightarrow> parses_back f64 v"
proof (induction v rule: unknown.induct)
  case (Array items)
  then show ?case by (intro parses_back_array) (simp add: list_all_iff)
next
  case (Object entries)
  then show ?case by (intro parses_back_object) (fastforce simp: list_all_iff)+
next
  case (I64 n)
  then show ?case by (intro parses_back_turn) (simp add: value_turn_i64)
next
  case (String s)
  have "value_turn f64 (print_string s @ rest) = Done (Ok (String s, rest))" for rest
    using parse_string_print [of s rest] by (simp add: value_turn_def print_string_def)
  then show ?case by (intro parses_back_turn) simp
next
  case Null
  show ?case by (intro parses_back_turn) (simp add: value_turn_def parse_null_def)
next
  case (Bool b)
  show ?case by (intro parses_back_turn) (simp add: value_turn_def parse_bool_def)
qed simp

lemma parse_json_value_print:
  assumes "plain v" "number_ends rest"
  shows "parse_json_value f64 (print_json v @ rest) = Some (Ok (v, rest))"
  using parses_back_plain [OF assms(1), of f64] assms parse_value_any_fuel
  by (fastforce simp: parses_back_def parse_json_value_def)

text \<open>
  C28. The JSON parser always returns, on every input; a value it returns holds its object keys in
  ascending order, and the text it leaves over is strictly shorter than the input.
\<close>

theorem json_parser_total:
  "\<exists>s. parse_json_value f64 input = Some s \<and> (\<forall>v rest. s = Ok (v, rest) \<longrightarrow> value_ok v \<and> length rest < length input)"
proof -
  obtain s where s: "parse_json_value f64 input = Some s"
    using parse_returns(1) [of "trim_start input" "json_fuel (trim_start input)" f64]
    by (auto simp: parse_json_value_def json_fuel_def)
  have "value_ok v \<and> length rest < length input" if "s = Ok (v, rest)" for v rest
    using s that parse_ok(1) parse_shorter(1) length_trim_start [of input]
    by (fastforce simp: parse_json_value_def)
  with s show ?thesis by blast
qed

theorem json_parser_total_witness:
  "value_ok (Array [I64 1, Null] :: unit unknown) \<and> length '' x'' < length ''[1,null] x''"
proof -
  have "parse_json_value (\<lambda>_. None :: unit option) (print_json (Array [I64 1, Null] :: unit unknown) @ '' x'') = Some (Ok (Array [I64 1, Null], '' x''))"
    by (rule parse_json_value_print) (simp_all add: number_ends_def is_ascii_digit_def digit_value_def)
  moreover have "print_json (Array [I64 1, Null] :: unit unknown) @ '' x'' = ''[1,null] x''"
    by code_simp
  ultimately show ?thesis using json_parser_total [of "\<lambda>_. None :: unit option" "''[1,null] x''"] by auto
qed

text \<open>
  C27. JSON text and schemas compose: every value without fractions whose objects are ordered,
  printed without white space, is parsed back to itself, so the parser built from a schema decodes
  exactly what the schema decodes; a text that may not continue a number is left over by the
  prefix parser.
\<close>

theorem json_round_trip:
  assumes "plain v" "number_ends rest"
  shows "parse_json_document f64 (print_json v) = Some (Ok v)
     \<and> parser_for_json f64 s (print_json v) = Some (result_map (\<lambda>a. (a, [])) (decode_unknown s v))
     \<and> parser_for_json_prefix f64 s (print_json v @ rest) = Some (result_map (\<lambda>a. (a, rest)) (decode_unknown s v))"
proof -
  have "parse_json_document f64 (print_json v) = Some (Ok v)"
    using parse_json_value_print [OF assms(1), of "[]" f64] by (simp add: parse_json_document_def blank_def)
  then show ?thesis
    using parse_json_value_print [OF assms, of f64] by (simp add: parser_for_json_def parser_for_json_prefix_def)
qed

theorem json_round_trip_witness:
  "parser_for_json (\<lambda>_. None :: unit option) (array i64_unknown_wire) ''[-7,12]'' = Some (Ok ([- 7, 12], []))"
proof -
  have "print_json (Array [I64 (- 7), I64 12] :: unit unknown) = ''[-7,12]''"
    by code_simp
  moreover have "decode_unknown (array i64_unknown_wire) (Array [I64 (- 7), I64 12] :: unit unknown) = Ok [- 7, 12]"
    by (simp add: array_def i64_unknown_wire_def i64_of_unknown_def)
  ultimately show ?thesis
    using json_round_trip [of "Array [I64 (- 7), I64 12]" "[]" "\<lambda>_. None :: unit option" "array i64_unknown_wire"]
    by (simp del: print_json.simps)
qed

text \<open>
  The hexadecimal digits of a \<open>\u\<close> escape are read from the character \<open>u\<close> itself, which is no
  hexadecimal digit: every string with such an escape is refused.
\<close>

theorem unicode_escapes_rejected:
  "unicode_escape (CHR ''u'' # cs) = Err (json_error ''invalid unicode escape'')"
  by (simp add: unicode_escape_def hex_value_def)

theorem unicode_escape_document:
  "parse_json_document (\<lambda>_. None :: unit option) ([dquote, backslash] @ ''u0041'' @ [dquote])
     = Some (Err (json_error ''invalid unicode escape''))"
  by (simp add: parse_json_document_def parse_json_value_def json_fuel_def parse_value_turn [of _ 16, simplified] value_turn_def parse_string_def
      unicode_escapes_rejected)

end
