(* ===== verification/Streams.thy ===== *)
theory Streams
  imports Effects Orders Queues
begin

text \<open>
  \<open>crates/id_effect/src/streaming/\<close>: pull streams (\<open>stream.rs\<close>), chunks (\<open>chunk.rs\<close>), windows
  (\<open>window.rs\<close>), joins (\<open>join.rs\<close>), stateful scans (\<open>state_scan.rs\<close>) and the transducer bridge
  (\<open>transducer.rs\<close>).

  A \<open>Stream\<close> owns its state, so polling takes the stream and gives it back changed, next to the
  environment and the shared state of effects; \<open>None\<close> is a poll that never resolves. A \<open>Chunk\<close> is
  the list of its items. A queue a stream reads from lives in the shared state and is represented by
  its \<open>take\<close> operation there, the scope of a subscription by its \<open>close\<close>, and the cell in which a
  producer leaves its failure by the operation that takes the failure out. The throughput metric is the effect of its \<open>apply\<close>. Closures are
  functions of their arguments. \<open>intr\<close> is \<open>interruption_requested\<close>, which looks for a
  cancellation token in the environment. \<open>Instant\<close>s and \<open>Duration\<close>s are nanoseconds.

  Left out: broadcast and replay over a \<open>PubSub\<close>, and the operators that hand their work to \<open>rayon\<close>
  or run effects concurrently.
\<close>

section \<open>Chunks\<close>

definition chunk_map :: "'a list \<Rightarrow> ('a \<Rightarrow> 'b) \<Rightarrow> 'b list" where
  "chunk_map c f = map f c"

definition chunk_sort_with :: "'a dyn_order \<Rightarrow> 'a list \<Rightarrow> 'a list" where
  "chunk_sort_with ord c = sort_with_serial ord c"

fun chunk_compare_by :: "'a dyn_order \<Rightarrow> 'a list dyn_order" where
  "chunk_compare_by ord [] [] = Equal"
| "chunk_compare_by ord [] (y # ys) = Less"
| "chunk_compare_by ord (x # xs) [] = Greater"
| "chunk_compare_by ord (x # xs) (y # ys) = (case ord x y of
     Equal \<Rightarrow> chunk_compare_by ord xs ys
   | other \<Rightarrow> other)"

section \<open>Streams\<close>

datatype ('a, 'e) channel_message = Chunk_msg "'a list" | End_msg | Fail_msg 'e

type_synonym ('m, 'w) taker = "'w \<Rightarrow> (('m, queue_error) result \<times> 'w) option"

datatype ('a, 'e, 'r, 'w) stream_state =
    Pending "('a list, 'e, 'r, 'w) effect option"
  | Channel_state "(('a, 'e) channel_message, 'w) taker" "'a list" bool
  | Direct_queue "('a, 'w) taker" "'a list" bool "('w \<Rightarrow> 'w option) option" "'w \<Rightarrow> 'e option \<times> 'w"
  | Buffered "'a list"
  | Chaining "('a, 'e, 'r, 'w) stream option" "('a, 'e, 'r, 'w) stream"
  | Exhausted
and ('a, 'e, 'r, 'w) stream =
    Stream "('a, 'e, 'r, 'w) stream_state" "(nat \<Rightarrow> 'w \<Rightarrow> 'w option) option"

definition stream_new :: "('a list, 'e, 'r, 'w) effect \<Rightarrow> ('a, 'e, 'r, 'w) stream" where
  "stream_new f = Stream (Pending (Some f)) None"

fun with_throughput_metric ::
  "('a, 'e, 'r, 'w) stream \<Rightarrow> (nat \<Rightarrow> 'w \<Rightarrow> 'w option) \<Rightarrow> ('a, 'e, 'r, 'w) stream" where
  "with_throughput_metric (Stream s _) metric = Stream s (Some metric)"

definition stream_from_direct_queue ::
  "('a, 'w) taker \<Rightarrow> ('w \<Rightarrow> 'w option) option \<Rightarrow> ('w \<Rightarrow> 'e option \<times> 'w) \<Rightarrow> 'a list \<Rightarrow> ('a, 'e, 'r, 'w) stream" where
  "stream_from_direct_queue queue scope shared_fail initial_buffered =
     Stream (Direct_queue queue initial_buffered False scope shared_fail) None"

definition from_effect :: "('a list, 'e, 'r, 'w) effect \<Rightarrow> ('a, 'e, 'r, 'w) stream" where
  "from_effect eff = stream_new (\<lambda>r w. run eff r w)"

definition chain :: "('a, 'e, 'r, 'w) stream \<Rightarrow> ('a, 'e, 'r, 'w) stream \<Rightarrow> ('a, 'e, 'r, 'w) stream" where
  "chain s second = Stream (Chaining (Some s) second) None"

subsection \<open>Polling\<close>

type_synonym ('a, 'e, 'r, 'w) polled = "(('a list option, 'e) result \<times> ('a, 'e, 'r, 'w) stream \<times> 'r \<times> 'w) option"

text \<open>Report a chunk: count its items, then return it.\<close>

definition emit ::
  "(nat \<Rightarrow> 'w \<Rightarrow> 'w option) option \<Rightarrow> 'a list \<Rightarrow> ('a, 'e, 'r, 'w) stream \<Rightarrow> 'r \<Rightarrow> 'w \<Rightarrow> ('a, 'e, 'r, 'w) polled" where
  "emit tp out s r w = (case (case tp of None \<Rightarrow> Some w | Some m \<Rightarrow> m (length out) w) of
     None \<Rightarrow> None
   | Some w' \<Rightarrow> Some (Ok (Some out), s, r, w'))"

text \<open>The \<open>continue\<close>s of the channel arm: take messages until there is an item or the end.\<close>

partial_function (option) fill_channel ::
  "(('a, 'e) channel_message, 'w) taker \<Rightarrow> 'a list \<Rightarrow> bool \<Rightarrow> 'w \<Rightarrow> (('a list \<times> bool, 'e) result \<times> 'w) option" where
  "fill_channel tk buf closed w =
     (if buf = [] \<and> \<not> closed then
        (case tk w of
           None \<Rightarrow> None
         | Some (Inl Disconnected, w') \<Rightarrow> fill_channel tk buf True w'
         | Some (Inr (Chunk_msg c), w') \<Rightarrow> fill_channel tk (buf @ c) closed w'
         | Some (Inr End_msg, w') \<Rightarrow> fill_channel tk buf True w'
         | Some (Inr (Fail_msg e), w') \<Rightarrow> Some (Err e, w'))
      else Some (Ok (buf, closed), w))"

text \<open>
  The \<open>continue\<close>s of the direct arm: look for a failure of the producer before every message. The
  result has that failure, the buffer and whether the queue has ended.
\<close>

partial_function (option) fill_direct ::
  "('a, 'w) taker \<Rightarrow> ('w \<Rightarrow> 'e option \<times> 'w) \<Rightarrow> 'a list \<Rightarrow> bool \<Rightarrow> 'w \<Rightarrow> ('e option \<times> 'a list \<times> bool \<times> 'w) option" where
  "fill_direct tk shared_fail buf closed w = (case shared_fail w of
       (Some e, w1) \<Rightarrow> Some (Some e, buf, closed, w1)
     | (None, w1) \<Rightarrow>
         if buf = [] \<and> \<not> closed then
           (case tk w1 of
              None \<Rightarrow> None
            | Some (Inr a, w2) \<Rightarrow> fill_direct tk shared_fail (buf @ [a]) closed w2
            | Some (Inl Disconnected, w2) \<Rightarrow> fill_direct tk shared_fail buf True w2)
         else Some (None, buf, closed, w1))"

text \<open>Hand out the front of a buffer; an emptied buffer exhausts the stream.\<close>

definition from_buffer ::
  "nat \<Rightarrow> (nat \<Rightarrow> 'w \<Rightarrow> 'w option) option \<Rightarrow> 'a list \<Rightarrow> 'r \<Rightarrow> 'w \<Rightarrow> ('a, 'e, 'r, 'w) polled" where
  "from_buffer n tp items r w =
     (if items = [] then Some (Ok None, Stream Exhausted tp, r, w)
      else let out = take n items; rest = drop n items in
        emit tp out (Stream (if rest = [] then Exhausted else Buffered rest) tp) r w)"

fun poll_next_chunk_with_size ::
  "('a, 'e, 'r, 'w) stream \<Rightarrow> nat \<Rightarrow> 'r \<Rightarrow> 'w \<Rightarrow> ('a, 'e, 'r, 'w) polled" where
  "poll_next_chunk_with_size s 0 r w = Some (Ok None, s, r, w)"
| "poll_next_chunk_with_size (Stream (Channel_state tk buf closed) tp) (Suc n) r w =
     (case fill_channel tk buf closed w of
        None \<Rightarrow> None
      | Some (Inl e, w') \<Rightarrow> Some (Err e, Stream (Channel_state tk [] False) tp, r, w')
      | Some (Inr (buf', closed'), w') \<Rightarrow>
          if buf' = [] then Some (Ok None, Stream Exhausted tp, r, w')
          else emit tp (take (Suc n) buf') (Stream (Channel_state tk (drop (Suc n) buf') closed') tp) r w')"
| "poll_next_chunk_with_size (Stream (Direct_queue tk buf closed scope shared_fail) tp) (Suc n) r w =
     (case fill_direct tk shared_fail buf closed w of
        None \<Rightarrow> None
      | Some (Some e, buf', closed', w') \<Rightarrow>
          Some (Err e, Stream (Direct_queue tk buf' closed' scope shared_fail) tp, r, w')
      | Some (None, buf', closed', w') \<Rightarrow>
          if buf' = [] then
            (case (case scope of None \<Rightarrow> Some w' | Some close \<Rightarrow> close w') of
               None \<Rightarrow> None
             | Some w2 \<Rightarrow> Some (Ok None, Stream Exhausted tp, r, w2))
          else emit tp (take (Suc n) buf')
            (Stream (Direct_queue tk (drop (Suc n) buf') closed' scope shared_fail) tp) r w')"
| "poll_next_chunk_with_size (Stream (Chaining (Some fs) second) tp) (Suc n) r w =
     (case poll_next_chunk_with_size fs (Suc n) r w of
        None \<Rightarrow> None
      | Some (Inr (Some c), fs', r', w') \<Rightarrow> emit tp c (Stream (Chaining (Some fs') second) tp) r' w'
      | Some (Inl e, fs', r', w') \<Rightarrow> Some (Err e, Stream (Chaining (Some fs') second) tp, r', w')
      | Some (Inr None, fs', r', w') \<Rightarrow> (case poll_next_chunk_with_size second (Suc n) r' w' of
            None \<Rightarrow> None
          | Some (Inr (Some c), second', r2, w2) \<Rightarrow> emit tp c (Stream (Chaining None second') tp) r2 w2
          | Some (Inr None, second', r2, w2) \<Rightarrow> Some (Ok None, Stream Exhausted tp, r2, w2)
          | Some (Inl e, second', r2, w2) \<Rightarrow> Some (Err e, Stream (Chaining None second') tp, r2, w2)))"
| "poll_next_chunk_with_size (Stream (Chaining None second) tp) (Suc n) r w =
     (case poll_next_chunk_with_size second (Suc n) r w of
        None \<Rightarrow> None
      | Some (Inr (Some c), second', r2, w2) \<Rightarrow> emit tp c (Stream (Chaining None second') tp) r2 w2
      | Some (Inr None, second', r2, w2) \<Rightarrow> Some (Ok None, Stream Exhausted tp, r2, w2)
      | Some (Inl e, second', r2, w2) \<Rightarrow> Some (Err e, Stream (Chaining None second') tp, r2, w2))"
| "poll_next_chunk_with_size (Stream (Buffered items) tp) (Suc n) r w = from_buffer (Suc n) tp items r w"
| "poll_next_chunk_with_size (Stream Exhausted tp) (Suc n) r w = Some (Ok None, Stream Exhausted tp, r, w)"
| "poll_next_chunk_with_size (Stream (Pending None) tp) (Suc n) r w = Some (Ok None, Stream Exhausted tp, r, w)"
| "poll_next_chunk_with_size (Stream (Pending (Some mk)) tp) (Suc n) r w =
     (case mk r w of
        None \<Rightarrow> None
      | Some (Inl e, r', w') \<Rightarrow> Some (Err e, Stream (Pending None) tp, r', w')
      | Some (Inr items, r', w') \<Rightarrow> from_buffer (Suc n) tp items r' w')"

definition poll_next_chunk :: "('a, 'e, 'r, 'w) stream \<Rightarrow> 'r \<Rightarrow> 'w \<Rightarrow> ('a, 'e, 'r, 'w) polled" where
  "poll_next_chunk s r w = poll_next_chunk_with_size s 64 r w"

subsection \<open>Loops over chunks\<close>

text \<open>
  The loop every operator is written with: stop when interrupted, poll, leave with the error, stop at
  the end, otherwise run the body on the chunk; the body says whether to go on.
\<close>

partial_function (option) pull_loop ::
  "('r \<Rightarrow> 'w \<Rightarrow> bool) \<Rightarrow> ('s \<Rightarrow> 'a list \<Rightarrow> ('s \<times> bool, 'e, 'r, 'w) effect) \<Rightarrow> 's \<Rightarrow> ('a, 'e, 'r, 'w) stream
    \<Rightarrow> 'r \<Rightarrow> 'w \<Rightarrow> (('s, 'e) result \<times> 'r \<times> 'w) option" where
  "pull_loop intr body s st r w =
     (if intr r w then Some (Ok s, r, w)
      else (case poll_next_chunk st r w of
         None \<Rightarrow> None
       | Some (Inl e, st', r', w') \<Rightarrow> Some (Err e, r', w')
       | Some (Inr None, st', r', w') \<Rightarrow> Some (Ok s, r', w')
       | Some (Inr (Some c), st', r', w') \<Rightarrow> (case body s c r' w' of
           None \<Rightarrow> None
         | Some (Inl e, r2, w2) \<Rightarrow> Some (Err e, r2, w2)
         | Some (Inr (s', go), r2, w2) \<Rightarrow> if go then pull_loop intr body s' st' r2 w2 else Some (Ok s', r2, w2))))"

text \<open>\<open>for item in chunk.into_vec()\<close> with a step that may break out of the outer loop.\<close>

fun each :: "('s \<Rightarrow> 'a \<Rightarrow> 's \<times> bool) \<Rightarrow> 's \<Rightarrow> 'a list \<Rightarrow> 's \<times> bool" where
  "each f s [] = (s, True)"
| "each f s (x # xs) = (case f s x of (s', go) \<Rightarrow> if go then each f s' xs else (s', False))"

fun each_effect :: "('s \<Rightarrow> 'a \<Rightarrow> ('s, 'e, 'r, 'w) effect) \<Rightarrow> 's \<Rightarrow> 'a list \<Rightarrow> ('s \<times> bool, 'e, 'r, 'w) effect" where
  "each_effect f s [] = succeed (s, True)"
| "each_effect f s (x # xs) = flat_map (f s x) (\<lambda>s'. each_effect f s' xs)"

abbreviation never :: "'r \<Rightarrow> 'w \<Rightarrow> bool" where "never \<equiv> (\<lambda>_ _. False)"

text \<open>The operators that drain their upstream on the first pull.\<close>

definition draining ::
  "('s \<Rightarrow> 'a list \<Rightarrow> 's \<times> bool) \<Rightarrow> 's \<Rightarrow> ('s \<Rightarrow> 'b list) \<Rightarrow> ('a, 'e, 'r, 'w) stream \<Rightarrow> ('b, 'e, 'r, 'w) stream" where
  "draining step init finish upstream = stream_new (\<lambda>r w.
     map_option (\<lambda>(res, r', w'). (result_map finish res, r', w'))
       (pull_loop never (\<lambda>s c. succeed (step s c)) init upstream r w))"

section \<open>Constructors\<close>

partial_function (option) unfold_effect_loop ::
  "('s \<Rightarrow> (('a \<times> 's) option, 'e, 'r, 'w) effect) \<Rightarrow> 'a list \<Rightarrow> 's \<Rightarrow> 'r \<Rightarrow> 'w \<Rightarrow> (('a list, 'e) result \<times> 'r \<times> 'w) option" where
  "unfold_effect_loop f out s r w = (case f s r w of
     None \<Rightarrow> None
   | Some (Inl e, r', w') \<Rightarrow> Some (Err e, r', w')
   | Some (Inr (Some (a, s2)), r', w') \<Rightarrow> unfold_effect_loop f (out @ [a]) s2 r' w'
   | Some (Inr None, r', w') \<Rightarrow> Some (Ok out, r', w'))"

definition unfold_effect ::
  "'s \<Rightarrow> ('s \<Rightarrow> (('a \<times> 's) option, 'e, 'r, 'w) effect) \<Rightarrow> ('a, 'e, 'r, 'w) stream" where
  "unfold_effect init f = stream_new (unfold_effect_loop f [] init)"

definition unfold_stream :: "'s \<Rightarrow> ('s \<Rightarrow> ('a \<times> 's) option) \<Rightarrow> ('a, unit, unit, 'w) stream" where
  "unfold_stream init f = stream_new (unfold_effect_loop (\<lambda>s. succeed (f s)) [] init)"

definition from_iterable :: "'a list \<Rightarrow> ('a, unit, unit, 'w) stream" where
  "from_iterable v = stream_new (succeed v)"

definition range_stream :: "int \<Rightarrow> int \<Rightarrow> (int, unit, unit, 'w) stream" where
  "range_stream start end_exclusive = stream_new (succeed [start..end_exclusive - 1])"

section \<open>Runners\<close>

definition run_collect :: "('r \<Rightarrow> 'w \<Rightarrow> bool) \<Rightarrow> ('a, 'e, 'r, 'w) stream \<Rightarrow> ('a list, 'e, 'r, 'w) effect" where
  "run_collect intr s = new_async (pull_loop intr (\<lambda>out c. succeed (out @ c, True)) [] s)"

definition run_for_each_effect ::
  "('r \<Rightarrow> 'w \<Rightarrow> bool) \<Rightarrow> ('a \<Rightarrow> (unit, 'e, 'r, 'w) effect) \<Rightarrow> ('a, 'e, 'r, 'w) stream \<Rightarrow> (unit, 'e, 'r, 'w) effect" where
  "run_for_each_effect intr f s = new_async (pull_loop intr (each_effect (\<lambda>_ x. f x)) () s)"

definition run_for_each ::
  "('r \<Rightarrow> 'w \<Rightarrow> bool) \<Rightarrow> ('a \<Rightarrow> (unit, 'e, 'r, 'w) effect) \<Rightarrow> ('a, 'e, 'r, 'w) stream \<Rightarrow> (unit, 'e, 'r, 'w) effect" where
  "run_for_each intr f s = run_for_each_effect intr f s"

definition run_fold ::
  "('r \<Rightarrow> 'w \<Rightarrow> bool) \<Rightarrow> 'b \<Rightarrow> ('b \<Rightarrow> 'a \<Rightarrow> 'b) \<Rightarrow> ('a, 'e, 'r, 'w) stream \<Rightarrow> ('b, 'e, 'r, 'w) effect" where
  "run_fold intr init f s =
     new_async (pull_loop intr (\<lambda>acc c. succeed (each (\<lambda>acc x. (f acc x, True)) acc c)) init s)"

definition run_fold_effect ::
  "('r \<Rightarrow> 'w \<Rightarrow> bool) \<Rightarrow> 'b \<Rightarrow> ('b \<Rightarrow> 'a \<Rightarrow> ('b, 'e, 'r, 'w) effect) \<Rightarrow> ('a, 'e, 'r, 'w) stream \<Rightarrow> ('b, 'e, 'r, 'w) effect" where
  "run_fold_effect intr init f s = new_async (pull_loop intr (each_effect f) init s)"

definition run_reduce ::
  "('r \<Rightarrow> 'w \<Rightarrow> bool) \<Rightarrow> ('a \<Rightarrow> 'a \<Rightarrow> 'a) \<Rightarrow> ('a, 'e, 'r, 'w) stream \<Rightarrow> ('a option, 'e, 'r, 'w) effect" where
  "run_reduce intr f s = new_async (pull_loop intr
     (\<lambda>acc c. succeed (each (\<lambda>acc x. (Some (case acc of Some current \<Rightarrow> f current x | None \<Rightarrow> x), True)) acc c)) None s)"

section \<open>Operators\<close>

definition map_serial :: "('a \<Rightarrow> 'b) \<Rightarrow> ('a, 'e, 'r, 'w) stream \<Rightarrow> ('b, 'e, 'r, 'w) stream" where
  "map_serial f = draining (\<lambda>out c. (out @ chunk_map c f, True)) [] (\<lambda>out. out)"

definition filter_serial :: "('a \<Rightarrow> bool) \<Rightarrow> ('a, 'e, 'r, 'w) stream \<Rightarrow> ('a, 'e, 'r, 'w) stream" where
  "filter_serial p = draining (\<lambda>out c. (out @ filter p c, True)) [] (\<lambda>out. out)"

definition take_while :: "('a \<Rightarrow> bool) \<Rightarrow> ('a, 'e, 'r, 'w) stream \<Rightarrow> ('a, 'e, 'r, 'w) stream" where
  "take_while p = draining (each (\<lambda>out x. if \<not> p x then (out, False) else (out @ [x], True))) [] (\<lambda>out. out)"

definition drop_while :: "('a \<Rightarrow> bool) \<Rightarrow> ('a, 'e, 'r, 'w) stream \<Rightarrow> ('a, 'e, 'r, 'w) stream" where
  "drop_while p = draining (each (\<lambda>(skipping, out) x.
     if skipping then if p x then ((skipping, out), True) else ((False, out @ [x]), True)
     else ((skipping, out @ [x]), True))) (True, []) snd"

definition take_step :: "nat \<times> 'a list \<Rightarrow> 'a list \<Rightarrow> (nat \<times> 'a list) \<times> bool" where
  "take_step s c = (case s of (remaining, out) \<Rightarrow>
     let items = (if remaining < length c then take remaining c else c);
         remaining' = remaining - length items in
     ((remaining', out @ items), 0 < remaining'))"

definition take_stream :: "nat \<Rightarrow> ('a, 'e, 'r, 'w) stream \<Rightarrow> ('a, 'e, 'r, 'w) stream" where
  "take_stream n upstream =
     (if n = 0 then stream_new (succeed []) else draining take_step (n, []) snd upstream)"

definition grouped :: "nat \<Rightarrow> ('a, 'e, 'r, 'w) stream \<Rightarrow> ('a list, 'e, 'r, 'w) stream" where
  "grouped width upstream =
     (if width = 0 then stream_new (succeed [])
      else draining (each (\<lambda>(out, cur) x. let cur' = cur @ [x] in
          if length cur' = width then ((out @ [cur'], []), True) else ((out, cur'), True)))
        ([], []) (\<lambda>(out, cur). if cur \<noteq> [] then out @ [cur] else out) upstream)"

text \<open>The step of \<open>scan\<close> updates its state in place and returns an output.\<close>

definition scan :: "'s \<Rightarrow> ('s \<Rightarrow> 'a \<Rightarrow> 's \<times> 'b) \<Rightarrow> ('a, 'e, 'r, 'w) stream \<Rightarrow> ('b, 'e, 'r, 'w) stream" where
  "scan state f = draining (each (\<lambda>(s, out) x. case f s x of (s', b) \<Rightarrow> ((s', out @ [b]), True))) (state, []) snd"

definition state_scan ::
  "'s \<Rightarrow> ('s \<Rightarrow> 'a \<Rightarrow> 's \<times> 'b option) \<Rightarrow> ('a, 'e, 'r, 'w) stream \<Rightarrow> ('b, 'e, 'r, 'w) stream" where
  "state_scan init step = draining (each (\<lambda>(s, out) x. case step s x of (s', maybe) \<Rightarrow>
     ((s', case maybe of Some b \<Rightarrow> out @ [b] | None \<Rightarrow> out), True))) (init, []) snd"

subsection \<open>Transducers\<close>

type_synonym ('a, 'acc) reducer = "'acc \<Rightarrow> 'a \<Rightarrow> 'acc"
type_synonym ('a, 'acc) transducer = "('a, 'acc) reducer \<Rightarrow> ('a, 'acc) reducer"

definition xf_compose :: "('a, 'acc) transducer \<Rightarrow> ('a, 'acc) transducer \<Rightarrow> ('a, 'acc) transducer" where
  "xf_compose outer inner = (\<lambda>rf. outer (inner rf))"

definition xf_transduce :: "('a, 'acc) transducer \<Rightarrow> 'a list \<Rightarrow> ('a, 'acc) reducer \<Rightarrow> 'acc \<Rightarrow> 'acc" where
  "xf_transduce xf items rf init = foldl (xf rf) init items"

definition xf_map :: "('a \<Rightarrow> 'a) \<Rightarrow> ('a, 'acc) transducer" where
  "xf_map f = (\<lambda>rf acc item. rf acc (f item))"

definition xf_filter :: "('a \<Rightarrow> bool) \<Rightarrow> ('a, 'acc) transducer" where
  "xf_filter pred = (\<lambda>rf acc item. if pred item then rf acc item else acc)"

definition transduce_items :: "('a, 'a list) transducer \<Rightarrow> ('a, 'e, 'r, 'w) stream \<Rightarrow> ('a, 'e, 'r, 'w) stream" where
  "transduce_items xf = draining (each (\<lambda>out x. (out @ xf (\<lambda>acc y. acc @ [y]) [] x, True))) [] (\<lambda>out. out)"

definition via_transducer :: "('a, 'a list) transducer \<Rightarrow> ('a, 'e, 'r, 'w) stream \<Rightarrow> ('a, 'e, 'r, 'w) stream" where
  "via_transducer xf = transduce_items xf"

section \<open>Windows\<close>

definition tumbling :: "nat \<Rightarrow> ('a, 'e, 'r, 'w) stream \<Rightarrow> ('a list, 'e, 'r, 'w) stream" where
  "tumbling width = grouped width"

text \<open>The inner \<open>while\<close> of \<open>sliding\<close>, which is only reached with a positive size and step.\<close>

function slide :: "nat \<Rightarrow> nat \<Rightarrow> 'a list \<Rightarrow> 'a list list \<Rightarrow> 'a list \<times> 'a list list" where
  "slide width step buf out =
     (if width \<le> length buf \<and> 0 < width \<and> 0 < step
      then slide width step (drop (min step (length buf)) buf) (out @ [take width buf])
      else (buf, out))"
  by pat_completeness auto
termination
  by (relation "measure (\<lambda>(width, step, buf, out). length buf)") auto

declare slide.simps [simp del]

definition sliding :: "nat \<Rightarrow> nat \<Rightarrow> ('a, 'e, 'r, 'w) stream \<Rightarrow> ('a list, 'e, 'r, 'w) stream" where
  "sliding width step upstream =
     (if width = 0 \<or> step = 0 then stream_new (succeed [])
      else draining (each (\<lambda>(buf, out) x. (slide width step (buf @ [x]) out, True))) ([], []) snd upstream)"

definition session_by_gap :: "nat \<Rightarrow> ('a \<Rightarrow> nat) \<Rightarrow> ('a, 'e, 'r, 'w) stream \<Rightarrow> ('a list, 'e, 'r, 'w) stream" where
  "session_by_gap gap timestamp = draining (each (\<lambda>(out, cur, last_ts) x.
     let ts = timestamp x;
         cut = (case last_ts of Some prev \<Rightarrow> gap < ts - prev \<and> cur \<noteq> [] | None \<Rightarrow> False) in
     ((if cut then out @ [cur] else out, (if cut then [] else cur) @ [x], Some ts), True)))
     ([], [], None) (\<lambda>(out, cur, _). if cur \<noteq> [] then out @ [cur] else out)"

text \<open>\<open>epoch\<close> is the instant of the first call of \<open>window_epoch\<close>; \<open>duration_since\<close> saturates.\<close>

definition bucket_for :: "nat \<Rightarrow> nat \<Rightarrow> nat \<Rightarrow> nat" where
  "bucket_for epoch ts width =
     (let nanos = ts - epoch; width_nanos = max width 1; bucket = nanos div width_nanos * width_nanos in
      epoch + bucket mod 2 ^ 64)"

fun into_bucket :: "nat \<Rightarrow> 'a \<Rightarrow> (nat \<times> 'a list) list \<Rightarrow> (nat \<times> 'a list) list" where
  "into_bucket b x [] = [(b, [x])]"
| "into_bucket b x ((c, v) # buckets) = (if c = b then (c, v @ [x]) # buckets else (c, v) # into_bucket b x buckets)"

definition tumbling_by_time ::
  "nat \<Rightarrow> nat \<Rightarrow> ('a \<Rightarrow> nat) \<Rightarrow> ('a, 'e, 'r, 'w) stream \<Rightarrow> ('a list, 'e, 'r, 'w) stream" where
  "tumbling_by_time epoch duration timestamp =
     draining (each (\<lambda>buckets x. (into_bucket (bucket_for epoch (timestamp x) (max duration 1)) x buckets, True)))
       [] (\<lambda>buckets. map snd (sort_key fst buckets))"

function time_windows :: "nat \<Rightarrow> nat \<Rightarrow> (nat \<times> 'a) list \<Rightarrow> nat \<Rightarrow> nat \<Rightarrow> 'a list list \<Rightarrow> 'a list list" where
  "time_windows duration step items stop start out =
     (if start \<le> stop \<and> 0 < step then
        let window = map snd (filter (\<lambda>(ts, _). start \<le> ts \<and> ts < start + duration) items) in
        time_windows duration step items stop (start + step) (if window \<noteq> [] then out @ [window] else out)
      else out)"
  by pat_completeness auto
termination
  by (relation "measure (\<lambda>(duration, step, items, stop, start, out). Suc stop - start)") auto

declare time_windows.simps [simp del]

definition sliding_by_time ::
  "nat \<Rightarrow> nat \<Rightarrow> nat \<Rightarrow> ('a \<Rightarrow> nat) \<Rightarrow> ('a, 'e, 'r, 'w) stream \<Rightarrow> ('a list, 'e, 'r, 'w) stream" where
  "sliding_by_time epoch duration0 step0 timestamp =
     (let duration = max duration0 1; step = max step0 1 in
      draining (each (\<lambda>items x. (items @ [(timestamp x, x)], True))) []
        (\<lambda>items0. if items0 = [] then []
          else let items = sort_key fst items0 in
            time_windows duration step items (fst (last items) + duration) (bucket_for epoch (fst (hd items)) step) []))"

section \<open>Joins\<close>

text \<open>Refill an empty side that has not ended; the Boolean records the end.\<close>

definition refill ::
  "('a, 'e, 'r, 'w) stream \<Rightarrow> 'a list \<Rightarrow> bool \<Rightarrow> 'r \<Rightarrow> 'w
    \<Rightarrow> (('a list \<times> bool, 'e) result \<times> ('a, 'e, 'r, 'w) stream \<times> 'r \<times> 'w) option" where
  "refill s buf fin r w =
     (if buf = [] \<and> \<not> fin then (case poll_next_chunk s r w of
          None \<Rightarrow> None
        | Some (Inl e, s', r', w') \<Rightarrow> Some (Err e, s', r', w')
        | Some (Inr (Some c), s', r', w') \<Rightarrow> Some (Ok (c, fin), s', r', w')
        | Some (Inr None, s', r', w') \<Rightarrow> Some (Ok (buf, True), s', r', w'))
      else Some (Ok (buf, fin), s, r, w))"

partial_function (option) merge_loop ::
  "bool \<Rightarrow> 'a list \<Rightarrow> ('a, 'e, 'r, 'w) stream \<Rightarrow> 'a list \<Rightarrow> bool \<Rightarrow> ('a, 'e, 'r, 'w) stream \<Rightarrow> 'a list \<Rightarrow> bool
    \<Rightarrow> 'r \<Rightarrow> 'w \<Rightarrow> (('a list, 'e) result \<times> 'r \<times> 'w) option" where
  "merge_loop turn_left out left lbuf lfin right rbuf rfin r w =
     (case refill left lbuf lfin r w of
        None \<Rightarrow> None
      | Some (Inl e, _, r1, w1) \<Rightarrow> Some (Err e, r1, w1)
      | Some (Inr (lb, lf), left', r1, w1) \<Rightarrow> (case refill right rbuf rfin r1 w1 of
          None \<Rightarrow> None
        | Some (Inl e, _, r2, w2) \<Rightarrow> Some (Err e, r2, w2)
        | Some (Inr (rb, rf), right', r2, w2) \<Rightarrow>
            if lb = [] \<and> rb = [] \<and> lf \<and> rf then Some (Ok out, r2, w2)
            else if turn_left then
              if lb \<noteq> [] then merge_loop (\<not> turn_left) (out @ [hd lb]) left' (tl lb) lf right' rb rf r2 w2
              else if lf then Some (Ok (out @ rb), r2, w2)
              else merge_loop False out left' lb lf right' rb rf r2 w2
            else
              if rb \<noteq> [] then merge_loop (\<not> turn_left) (out @ [hd rb]) left' lb lf right' (tl rb) rf r2 w2
              else if rf then Some (Ok (out @ lb), r2, w2)
              else merge_loop (\<not> turn_left) out left' lb lf right' rb rf r2 w2))"

definition merge :: "('a, 'e, 'r, 'w) stream \<Rightarrow> ('a, 'e, 'r, 'w) stream \<Rightarrow> ('a, 'e, 'r, 'w) stream" where
  "merge s other = stream_new (merge_loop True [] s [] False other [] False)"

partial_function (option) combine_loop ::
  "('a \<times> 'b) list \<Rightarrow> 'a option \<Rightarrow> 'b option \<Rightarrow> ('a, 'e, 'r, 'w) stream \<Rightarrow> 'a list \<Rightarrow> bool
    \<Rightarrow> ('b, 'e, 'r, 'w) stream \<Rightarrow> 'b list \<Rightarrow> bool \<Rightarrow> 'r \<Rightarrow> 'w \<Rightarrow> ((('a \<times> 'b) list, 'e) result \<times> 'r \<times> 'w) option" where
  "combine_loop out la lb left lbuf lfin right rbuf rfin r w =
     (case refill left lbuf lfin r w of
        None \<Rightarrow> None
      | Some (Inl e, _, r1, w1) \<Rightarrow> Some (Err e, r1, w1)
      | Some (Inr (lq, lf), left', r1, w1) \<Rightarrow> (case refill right rbuf rfin r1 w1 of
          None \<Rightarrow> None
        | Some (Inl e, _, r2, w2) \<Rightarrow> Some (Err e, r2, w2)
        | Some (Inr (rq, rf), right', r2, w2) \<Rightarrow>
            if lq = [] \<and> rq = [] \<and> lf \<and> rf then Some (Ok out, r2, w2)
            else if lq \<noteq> [] then
              combine_loop (case lb of Some b \<Rightarrow> out @ [(hd lq, b)] | None \<Rightarrow> out) (Some (hd lq)) lb
                left' (tl lq) lf right' rq rf r2 w2
            else if rq \<noteq> [] then
              combine_loop (case la of Some a \<Rightarrow> out @ [(a, hd rq)] | None \<Rightarrow> out) la (Some (hd rq))
                left' lq lf right' (tl rq) rf r2 w2
            else combine_loop out la lb left' lq lf right' rq rf r2 w2))"

definition combine_latest :: "('a, 'e, 'r, 'w) stream \<Rightarrow> ('b, 'e, 'r, 'w) stream \<Rightarrow> ('a \<times> 'b, 'e, 'r, 'w) stream" where
  "combine_latest left right = stream_new (combine_loop [] None None left [] False right [] False)"

text \<open>One side's chunk of a keyed join: match against the other side's map, then insert.\<close>

fun join_chunk :: "('k \<times> 'a) list \<Rightarrow> ('k \<rightharpoonup> 'b) \<Rightarrow> ('k \<rightharpoonup> 'a) \<Rightarrow> ('k \<times> 'a \<times> 'b) list \<Rightarrow> ('k \<rightharpoonup> 'a) \<times> ('k \<times> 'a \<times> 'b) list" where
  "join_chunk [] other mine out = (mine, out)"
| "join_chunk ((k, a) # items) other mine out = join_chunk items other (mine(k \<mapsto> a))
     (case other k of Some b \<Rightarrow> out @ [(k, a, b)] | None \<Rightarrow> out)"

partial_function (option) keyed_loop ::
  "('k \<times> 'a \<times> 'b) list \<Rightarrow> ('k \<rightharpoonup> 'a) \<Rightarrow> ('k \<rightharpoonup> 'b) \<Rightarrow> ('k \<times> 'a, 'e, 'r, 'w) stream \<Rightarrow> bool
    \<Rightarrow> ('k \<times> 'b, 'e, 'r, 'w) stream \<Rightarrow> bool \<Rightarrow> 'r \<Rightarrow> 'w \<Rightarrow> ((('k \<times> 'a \<times> 'b) list, 'e) result \<times> 'r \<times> 'w) option" where
  "keyed_loop out lm rm left lfin right rfin r w =
     (if lfin \<and> rfin then Some (Ok out, r, w)
      else (case refill left [] lfin r w of
          None \<Rightarrow> None
        | Some (Inl e, _, r1, w1) \<Rightarrow> Some (Err e, r1, w1)
        | Some (Inr (lc, lf), left', r1, w1) \<Rightarrow>
            (case join_chunk lc rm lm out of (lm', out1) \<Rightarrow>
              (case refill right [] rfin r1 w1 of
                 None \<Rightarrow> None
               | Some (Inl e, _, r2, w2) \<Rightarrow> Some (Err e, r2, w2)
               | Some (Inr (rc, rf), right', r2, w2) \<Rightarrow>
                   (case join_chunk rc lm' rm [] of (rm', out2) \<Rightarrow>
                     keyed_loop (out1 @ map (\<lambda>(k, b, a). (k, a, b)) out2) lm' rm' left' lf right' rf r2 w2)))))"

definition keyed_join ::
  "('k \<times> 'a, 'e, 'r, 'w) stream \<Rightarrow> ('k \<times> 'b, 'e, 'r, 'w) stream \<Rightarrow> ('k \<times> 'a \<times> 'b, 'e, 'r, 'w) stream" where
  "keyed_join left right = stream_new (keyed_loop [] Map.empty Map.empty left False right False)"

section \<open>Streams as lists\<close>

text \<open>
  \<open>denotes s xs err\<close>: pulled to its end, the stream \<open>s\<close> yields the items \<open>xs\<close> and then ends, or
  fails with \<open>err\<close>, and leaves the environment and the shared state alone.
\<close>

inductive denotes :: "('a, 'e, 'r, 'w) stream \<Rightarrow> 'a list \<Rightarrow> 'e option \<Rightarrow> bool" where
  ends: "(\<And>r w. \<exists>s'. poll_next_chunk s r w = Some (Ok None, s', r, w)) \<Longrightarrow> denotes s [] None"
| fails: "(\<And>r w. \<exists>s'. poll_next_chunk s r w = Some (Err e, s', r, w)) \<Longrightarrow> denotes s [] (Some e)"
| yields: "(\<And>r w. poll_next_chunk s r w = Some (Ok (Some c), s', r, w)) \<Longrightarrow> denotes s' xs err \<Longrightarrow> denotes s (c @ xs) err"

lemma poll_64: "poll_next_chunk_with_size s (Suc 63) = poll_next_chunk s"
  by (simp add: poll_next_chunk_def fun_eq_iff)

lemmas poll_simps = poll_next_chunk_with_size.simps(2-9) [where n = 63, unfolded poll_64]

lemma succeed_apply [simp]: "succeed a r w = Some (Ok a, r, w)"
  by (simp add: succeed_def new_sync_def)

lemma denotes_cong:
  assumes "\<And>r w. poll_next_chunk s r w = poll_next_chunk t r w" "denotes t xs err"
  shows "denotes s xs err"
  using assms(2) by (cases rule: denotes.cases) (auto simp: assms(1) intro: denotes.intros)

lemma emit_None [simp]: "emit None out s r w = Some (Ok (Some out), s, r, w)"
  by (simp add: emit_def)

lemma denotes_exhausted: "denotes (Stream Exhausted None) [] None"
  by (rule denotes.ends) (simp add: poll_simps)

lemma denotes_buffered:
  fixes items :: "'a list"
  shows "denotes (Stream (Buffered items) None :: ('a, 'e, 'r, 'w) stream) items None"
proof (induction "length items" arbitrary: items rule: less_induct)
  case less
  show ?case
  proof (cases "items = []")
    case True
    then show ?thesis by (auto intro!: denotes.ends simp: poll_simps from_buffer_def)
  next
    case False
    let ?next = "Stream (if drop 64 items = [] then Exhausted else Buffered (drop 64 items)) None :: ('a, 'e, 'r, 'w) stream"
    have "denotes ?next (drop 64 items) None"
      using less.hyps [of "drop 64 items"] False denotes_exhausted by auto
    moreover have "poll_next_chunk (Stream (Buffered items) None) r w = Some (Ok (Some (take 64 items)), ?next, r, w)" for r w
      using False by (simp add: poll_simps from_buffer_def Let_def)
    ultimately have "denotes (Stream (Buffered items) None :: ('a, 'e, 'r, 'w) stream) (take 64 items @ drop 64 items) None"
      by (rule denotes.yields [rotated])
    then show ?thesis by simp
  qed
qed

lemma denotes_new:
  assumes "\<And>r w. f r w = Some (Ok items, r, w)"
  shows "denotes (stream_new f) items None"
proof -
  have eq: "poll_next_chunk (stream_new f) r w = poll_next_chunk (Stream (Buffered items) None) r w" for r w
    by (simp add: stream_new_def poll_simps assms)
  show ?thesis by (rule denotes_cong [OF eq denotes_buffered])
qed

lemma denotes_new_fails: "(\<And>r w. f r w = Some (Err e, r, w)) \<Longrightarrow> denotes (stream_new f) [] (Some e)"
  by (rule denotes.fails) (simp add: stream_new_def poll_simps)

lemma denotes_from_iterable: "denotes (from_iterable xs) xs None"
  by (simp add: from_iterable_def denotes_new succeed_def new_sync_def)

lemma denotes_second: "denotes b ys err \<Longrightarrow> denotes (Stream (Chaining None b) None) ys err"
proof (induction rule: denotes.induct)
  case (ends s)
  have "\<exists>s'. poll_next_chunk (Stream (Chaining None s) None) r w = Some (Ok None, s', r, w)" for r w
    using ends [of r w] by (auto simp: poll_simps)
  then show ?case by (rule denotes.ends)
next
  case (fails s e)
  have "\<exists>s'. poll_next_chunk (Stream (Chaining None s) None) r w = Some (Err e, s', r, w)" for r w
    using fails [of r w] by (auto simp: poll_simps)
  then show ?case by (rule denotes.fails)
next
  case (yields s c s' xs err)
  then show ?case by (intro denotes.yields [of _ c "Stream (Chaining None s') None"]) (simp_all add: poll_simps)
qed

lemma denotes_chain:
  "denotes a xs err \<Longrightarrow> denotes b ys err2 \<Longrightarrow>
   denotes (chain a b) (xs @ (if err = None then ys else [])) (if err = None then err2 else err)"
  unfolding chain_def
proof (induction rule: denotes.induct)
  case (ends s)
  have "denotes (Stream (Chaining None b) None) ys err2" by (rule denotes_second [OF ends.prems])
  moreover have "poll_next_chunk (Stream (Chaining (Some s) b) None) r w = poll_next_chunk (Stream (Chaining None b) None) r w" for r w
    using ends.hyps [of r w] by (auto simp: poll_simps)
  ultimately have "denotes (Stream (Chaining (Some s) b) None) ys err2" by (rule denotes_cong [rotated])
  then show ?case by simp
next
  case (fails s e)
  have "\<exists>s'. poll_next_chunk (Stream (Chaining (Some s) b) None) r w = Some (Err e, s', r, w)" for r w
    using fails.hyps [of r w] by (auto simp: poll_simps)
  then have "denotes (Stream (Chaining (Some s) b) None) [] (Some e)" by (rule denotes.fails)
  then show ?case by simp
next
  case (yields s c s' xs err)
  then show ?case
    using denotes.yields [of "Stream (Chaining (Some s) b) None" c "Stream (Chaining (Some s') b) None"]
    by (simp add: poll_simps)
qed

subsection \<open>Chunk-wise loops\<close>

text \<open>
  A loop body that does not see where one chunk ends and the next begins. Such a loop computes the
  same from every way of cutting the items into chunks.
\<close>

locale chunkwise =
  fixes step :: "'s \<Rightarrow> 'a list \<Rightarrow> 's \<times> bool"
  assumes step_nil: "step s [] = (s, True)"
    and step_append: "step s (c @ d) = (case step s c of (s', go) \<Rightarrow> if go then step s' d else (s', False))"
begin

lemma pull_loop_denotes:
  "denotes st xs err \<Longrightarrow> pull_loop never (\<lambda>s c. succeed (step s c)) s st r w =
     Some (case step s xs of (s', go) \<Rightarrow> if go then (case err of None \<Rightarrow> Ok s' | Some e \<Rightarrow> Err e) else Ok s', r, w)"
proof (induction arbitrary: s r w rule: denotes.induct)
  case (ends st)
  from ends [of r w] show ?case by (subst pull_loop.simps) (auto simp: step_nil)
next
  case (fails st e)
  from fails [of r w] show ?case by (subst pull_loop.simps) (auto simp: step_nil)
next
  case (yields st c st' xs err)
  show ?case
    by (subst pull_loop.simps)
      (auto simp: yields.hyps(1) yields.IH step_append split: prod.split)
qed

lemma denotes_draining:
  "denotes st xs err \<Longrightarrow> step init xs = (s', True) \<Longrightarrow>
   denotes (draining step init finish st) (if err = None then finish s' else []) err"
  unfolding draining_def
  by (cases err) (auto simp: pull_loop_denotes intro!: denotes_new denotes_new_fails)

lemma denotes_draining_stops:
  "denotes st xs err \<Longrightarrow> step init xs = (s', False) \<Longrightarrow> denotes (draining step init finish st) (finish s') None"
  unfolding draining_def by (auto simp: pull_loop_denotes intro!: denotes_new)

end

lemma each_append: "each f s (xs @ ys) = (case each f s xs of (s', go) \<Rightarrow> if go then each f s' ys else (s', False))"
  by (induction xs arbitrary: s) (auto split: prod.split)

interpretation each: chunkwise "each f" for f
  by unfold_locales (simp_all add: each_append)

lemma each_foldl: "each (\<lambda>s x. (f s x, True)) s xs = (foldl f s xs, True)"
  by (induction xs arbitrary: s) auto

subsection \<open>What the operators compute\<close>

primrec scan_list :: "('s \<Rightarrow> 'a \<Rightarrow> 's \<times> 'b) \<Rightarrow> 's \<Rightarrow> 'a list \<Rightarrow> 'b list" where
  "scan_list f s [] = []"
| "scan_list f s (x # xs) = snd (f s x) # scan_list f (fst (f s x)) xs"

primrec emissions :: "('s \<Rightarrow> 'a \<Rightarrow> 's \<times> 'b option) \<Rightarrow> 's \<Rightarrow> 'a list \<Rightarrow> 'b list" where
  "emissions f s [] = []"
| "emissions f s (x # xs) = (case snd (f s x) of Some b \<Rightarrow> [b] | None \<Rightarrow> []) @ emissions f (fst (f s x)) xs"

fun groups :: "nat \<Rightarrow> 'a list \<Rightarrow> 'a list list" where
  "groups n xs = (if xs = [] \<or> n = 0 then [] else take n xs # groups n (drop n xs))"

declare groups.simps [simp del]

fun windows :: "nat \<Rightarrow> nat \<Rightarrow> 'a list \<Rightarrow> 'a list list" where
  "windows n step xs =
     (if n = 0 \<or> step = 0 \<or> length xs < n then [] else take n xs # windows n step (drop step xs))"

declare windows.simps [simp del]

fun sessions :: "nat \<Rightarrow> ('a \<Rightarrow> nat) \<Rightarrow> 'a list \<Rightarrow> 'a list list" where
  "sessions gap ts [] = []"
| "sessions gap ts [x] = [[x]]"
| "sessions gap ts (x # y # xs) =
     (if gap < ts y - ts x then [x] # sessions gap ts (y # xs)
      else (x # hd (sessions gap ts (y # xs))) # tl (sessions gap ts (y # xs)))"

lemma each_map: "each (\<lambda>out x. (out @ [f x], True)) out c = (out @ map f c, True)"
  by (induction c arbitrary: out) auto

lemma each_filter: "each (\<lambda>out x. (if p x then out @ [x] else out, True)) out c = (out @ filter p c, True)"
  by (induction c arbitrary: out) auto

lemma chunk_steps:
  "(\<lambda>out c. (out @ chunk_map c f, True)) = each (\<lambda>out x. (out @ [f x], True))"
  "(\<lambda>out c. (out @ filter p c, True)) = each (\<lambda>out x. (if p x then out @ [x] else out, True))"
  "(\<lambda>out c. (out @ c, True)) = each (\<lambda>out x. (out @ [x], True))"
  using each_map [of "\<lambda>x. x"] by (simp_all add: fun_eq_iff each_map each_filter chunk_map_def)

lemma take_while_each:
  "each (\<lambda>out x. if \<not> p x then (out, False) else (out @ [x], True)) out xs = (out @ takeWhile p xs, list_all p xs)"
  by (induction xs arbitrary: out) auto

lemma drop_while_each:
  "each (\<lambda>(skipping, out) x. if skipping then if p x then ((skipping, out), True) else ((False, out @ [x]), True)
     else ((skipping, out @ [x]), True)) (sk, out) xs = ((sk \<and> list_all p xs, out @ (if sk then dropWhile p xs else xs)), True)"
  by (induction xs arbitrary: sk out) auto

lemma scan_each:
  "each (\<lambda>(s, out) x. case f s x of (s', b) \<Rightarrow> ((s', out @ [b]), True)) (s, out) xs =
     ((foldl (\<lambda>s x. fst (f s x)) s xs, out @ scan_list f s xs), True)"
  by (induction xs arbitrary: s out) (auto split: prod.split)

lemma state_scan_each:
  "each (\<lambda>(s, out) x. case f s x of (s', maybe) \<Rightarrow> ((s', case maybe of Some b \<Rightarrow> out @ [b] | None \<Rightarrow> out), True)) (s, out) xs =
     ((foldl (\<lambda>s x. fst (f s x)) s xs, out @ emissions f s xs), True)"
  by (induction xs arbitrary: s out) (auto split: prod.split option.split)

lemma groups_append: "length xs = n \<Longrightarrow> 0 < n \<Longrightarrow> groups n (xs @ ys) = xs # groups n ys"
  by (subst groups.simps) auto

lemma groups_short: "xs \<noteq> [] \<Longrightarrow> length xs < n \<Longrightarrow> groups n xs = [xs]"
  by (subst groups.simps) (simp add: groups.simps)

lemma groups_Nil [simp]: "groups n [] = []"
  by (simp add: groups.simps)

lemma grouped_each:
  "0 < n \<Longrightarrow> length cur < n \<Longrightarrow> \<exists>out' cur'. each (\<lambda>(out, cur) x. let cur' = cur @ [x] in
      if length cur' = n then ((out @ [cur'], []), True) else ((out, cur'), True)) (out, cur) xs = ((out', cur'), True)
    \<and> (if cur' \<noteq> [] then out' @ [cur'] else out') = out @ groups n (cur @ xs)"
proof (induction xs arbitrary: out cur)
  case Nil
  then show ?case by (simp add: groups_short)
next
  case (Cons x xs)
  show ?case
  proof (cases "length (cur @ [x]) = n")
    case True
    then have "groups n (cur @ x # xs) = (cur @ [x]) # groups n xs"
      using groups_append [of "cur @ [x]" n xs] Cons.prems by simp
    with True Cons.IH [of "[]" "out @ [cur @ [x]]"] Cons.prems show ?thesis by (simp add: Let_def)
  next
    case False
    with Cons.IH [of "cur @ [x]" out] Cons.prems show ?thesis by (simp add: Let_def)
  qed
qed

lemma pull_take:
  assumes "denotes st xs err" "0 < n"
  shows "pull_loop never (\<lambda>s c. succeed (take_step s c)) (n, out) st r w =
     Some (if err = None \<or> n \<le> length xs then Ok (n - length xs, out @ take n xs) else Err (the err), r, w)"
  using assms
proof (induction arbitrary: n out r w rule: denotes.induct)
  case (ends st)
  from ends(1) [of r w] show ?case by (subst pull_loop.simps) auto
next
  case (fails st e)
  from fails(1) [of r w] fails(2) show ?case by (subst pull_loop.simps) auto
next
  case (yields st c st' xs err)
  show ?case
  proof (cases "length c < n")
    case True
    then have "take_step (n, out) c = ((n - length c, out @ c), True)" by (simp add: take_step_def)
    with True show ?thesis by (subst pull_loop.simps) (auto simp: yields.hyps(1) yields.IH)
  next
    case False
    then have "take_step (n, out) c = ((0, out @ take n c), False)" by (simp add: take_step_def)
    with False show ?thesis by (subst pull_loop.simps) (auto simp: yields.hyps(1))
  qed
qed

lemma denotes_operators:
  assumes "denotes s xs err"
  shows "denotes (map_serial f s) (if err = None then map f xs else []) err"
    and "denotes (filter_serial p s) (if err = None then filter p xs else []) err"
    and "denotes (drop_while p s) (if err = None then dropWhile p xs else []) err"
    and "denotes (scan st g s) (if err = None then scan_list g st xs else []) err"
    and "denotes (state_scan st h s) (if err = None then emissions h st xs else []) err"
    and "0 < n \<Longrightarrow> denotes (grouped n s) (if err = None then groups n xs else []) err"
proof -
  show "denotes (map_serial f s) (if err = None then map f xs else []) err"
    using each.denotes_draining [OF assms each_map [of f "[]"], of "\<lambda>out. out"] by (cases err) (simp_all add: map_serial_def chunk_steps)
  show "denotes (filter_serial p s) (if err = None then filter p xs else []) err"
    using each.denotes_draining [OF assms each_filter [of p "[]"], of "\<lambda>out. out"] by (cases err) (simp_all add: filter_serial_def chunk_steps)
  show "denotes (drop_while p s) (if err = None then dropWhile p xs else []) err"
    using each.denotes_draining [OF assms drop_while_each [of p True "[]"], of snd] by (cases err) (simp_all add: drop_while_def)
  show "denotes (scan st g s) (if err = None then scan_list g st xs else []) err"
    using each.denotes_draining [OF assms scan_each [of g st "[]"], of snd] by (cases err) (simp_all add: scan_def)
  show "denotes (state_scan st h s) (if err = None then emissions h st xs else []) err"
    using each.denotes_draining [OF assms state_scan_each [of h st "[]"], of snd] by (cases err) (simp_all add: state_scan_def)
  show "denotes (grouped n s) (if err = None then groups n xs else []) err" if n: "0 < n"
  proof -
    obtain out' cur' where e: "each (\<lambda>(out, cur) x. let cur' = cur @ [x] in
        if length cur' = n then ((out @ [cur'], []), True) else ((out, cur'), True)) ([], []) xs = ((out', cur'), True)"
      and g: "(if cur' \<noteq> [] then out' @ [cur'] else out') = groups n xs"
      using grouped_each [OF n, of "[]" "[]" xs] n by auto
    show ?thesis
      using each.denotes_draining [OF assms e, of "\<lambda>(out, cur). if cur \<noteq> [] then out @ [cur] else out"] n g
      by (cases err) (simp_all add: grouped_def)
  qed
qed

lemma denotes_stopping:
  assumes "denotes s xs err"
  shows "denotes (take_while p s)
      (if err = None \<or> \<not> list_all p xs then takeWhile p xs else []) (if list_all p xs then err else None)"
    and "denotes (take_stream n s)
      (if err = None \<or> n \<le> length xs then take n xs else []) (if n \<le> length xs then None else err)"
proof -
  show "denotes (take_while p s)
      (if err = None \<or> \<not> list_all p xs then takeWhile p xs else []) (if list_all p xs then err else None)"
  proof (cases "list_all p xs")
    case True
    then show ?thesis
      using each.denotes_draining [OF assms, of "\<lambda>out x. if \<not> p x then (out, False) else (out @ [x], True)" "[]"
          "takeWhile p xs" "\<lambda>out. out"] take_while_each [of p "[]" xs]
      by (simp add: take_while_def)
  next
    case False
    then show ?thesis
      using each.denotes_draining_stops [OF assms, of "\<lambda>out x. if \<not> p x then (out, False) else (out @ [x], True)" "[]"
          "takeWhile p xs" "\<lambda>out. out"] take_while_each [of p "[]" xs]
      by (simp add: take_while_def)
  qed
  show "denotes (take_stream n s)
      (if err = None \<or> n \<le> length xs then take n xs else []) (if n \<le> length xs then None else err)"
  proof (cases "n = 0")
    case True
    then show ?thesis by (simp add: take_stream_def denotes_new)
  next
    case False
    then have pos: "0 < n" by simp
    show ?thesis
    proof (cases "err = None \<or> n \<le> length xs")
      case True
      then have "denotes (take_stream n s) (take n xs) None"
        using pos by (auto simp: take_stream_def draining_def pull_take [OF assms pos] intro!: denotes_new)
      with True show ?thesis by auto
    next
      case False
      then obtain e where "err = Some e" "length xs < n" by auto
      then show ?thesis
        using pos by (auto simp: take_stream_def draining_def pull_take [OF assms pos] intro!: denotes_new_fails)
    qed
  qed
qed

lemma denotes_run:
  assumes "denotes s xs err"
  shows "run_collect never s r w = Some (case err of None \<Rightarrow> Ok xs | Some e \<Rightarrow> Err e, r, w)"
    and "run_fold never b f s r w = Some (case err of None \<Rightarrow> Ok (foldl f b xs) | Some e \<Rightarrow> Err e, r, w)"
proof -
  show "run_collect never s r w = Some (case err of None \<Rightarrow> Ok xs | Some e \<Rightarrow> Err e, r, w)"
    using each.pull_loop_denotes [OF assms, of "\<lambda>out x. (out @ [x], True)" "[]" r w]
    by (simp add: run_collect_def new_async_def each_map [where f = "\<lambda>x. x", simplified])
  show "run_fold never b f s r w = Some (case err of None \<Rightarrow> Ok (foldl f b xs) | Some e \<Rightarrow> Err e, r, w)"
    using each.pull_loop_denotes [OF assms, of "\<lambda>acc x. (f acc x, True)" b r w]
    by (simp add: run_fold_def new_async_def each_foldl)
qed

subsection \<open>Windows\<close>

lemma slide_short: "length buf < n \<Longrightarrow> slide n step buf out = (buf, out)"
  by (subst slide.simps) simp

lemma slide_full:
  "length buf = n \<Longrightarrow> 0 < n \<Longrightarrow> 0 < step \<Longrightarrow> slide n step buf out = (drop (min step n) buf, out @ [buf])"
  by (subst slide.simps) (simp add: slide_short)

lemma windows_Cons:
  "0 < n \<Longrightarrow> 0 < step \<Longrightarrow> step \<le> n \<Longrightarrow> length xs = n \<Longrightarrow> windows n step (xs @ ys) = xs # windows n step (drop step xs @ ys)"
  by (subst windows.simps) simp

lemma windows_short: "length xs < n \<Longrightarrow> windows n step xs = []"
  by (subst windows.simps) simp

lemma sliding_each:
  assumes "0 < n" "0 < step" "length buf < n"
  shows "\<exists>buf'. each (\<lambda>(buf, out) x. (slide n step (buf @ [x]) out, True)) (buf, out) xs =
    ((buf', out @ windows n (min step n) (buf @ xs)), True)"
  using assms(3)
proof (induction xs arbitrary: buf out)
  case Nil
  then show ?case by (simp add: windows_short)
next
  case (Cons x xs)
  show ?case
  proof (cases "length (buf @ [x]) = n")
    case True
    then have w: "windows n (min step n) (buf @ x # xs) = (buf @ [x]) # windows n (min step n) (drop (min step n) (buf @ [x]) @ xs)"
      using windows_Cons [of n "min step n" "buf @ [x]" xs] assms by simp
    have "length (drop (min step n) (buf @ [x])) < n" using True assms by simp
    from Cons.IH [OF this, of "out @ [buf @ [x]]"] True assms show ?thesis
      by (simp add: slide_full w del: drop_append)
  next
    case False
    then have "length (buf @ [x]) < n" using Cons.prems by simp
    with Cons.IH [OF this, of out] show ?thesis by (simp add: slide_short)
  qed
qed

lemma sessions_nonempty: "sessions gap ts (x # xs) \<noteq> []"
  by (cases xs) simp_all

lemma sessions_concat: "concat (sessions gap ts xs) = xs"
proof (induction gap ts xs rule: sessions.induct)
  case (3 gap ts x y xs)
  then show ?case using sessions_nonempty [of gap ts y xs]
    by (cases "sessions gap ts (y # xs)") auto
qed simp_all

lemma session_each:
  assumes "cur \<noteq> []"
  shows "\<exists>out' cur' l. each (\<lambda>(out, cur, last_ts) x.
       let t = ts x; cut = (case last_ts of Some prev \<Rightarrow> gap < t - prev \<and> cur \<noteq> [] | None \<Rightarrow> False) in
       ((if cut then out @ [cur] else out, (if cut then [] else cur) @ [x], Some t), True))
       (out, cur, Some (ts (last cur))) xs = ((out', cur', l), True) \<and> cur' \<noteq> [] \<and>
     out' @ [cur'] = out @ (butlast cur @ hd (sessions gap ts (last cur # xs))) # tl (sessions gap ts (last cur # xs))"
  using assms
proof (induction xs arbitrary: out cur)
  case Nil
  then show ?case by simp
next
  case (Cons y ys)
  show ?case
  proof (cases "gap < ts y - ts (last cur)")
    case True
    then show ?thesis
      using Cons.IH [of "[y]" "out @ [cur]"] Cons.prems sessions_nonempty [of gap ts y ys]
      by (simp add: Let_def)
  next
    case False
    have parts: "butlast cur @ last cur # zs = cur @ zs" for zs
      using arg_cong [OF append_butlast_last_id [OF Cons.prems], of "\<lambda>c. c @ zs"] by simp
    show ?thesis using Cons.IH [of "cur @ [y]" out] False Cons.prems by (simp add: Let_def parts)
  qed
qed

lemma into_bucket_keys: "set (map fst (into_bucket b x bs)) = insert b (set (map fst bs))"
  by (induction b x bs rule: into_bucket.induct) auto

lemma into_bucket_distinct: "distinct (map fst bs) \<Longrightarrow> distinct (map fst (into_bucket b x bs))"
proof (induction b x bs rule: into_bucket.induct)
  case (2 b x c v bs)
  then show ?case using into_bucket_keys [of b x bs] by (auto simp del: set_map)
qed simp

lemma into_bucket_get: "distinct (map fst bs) \<Longrightarrow>
  map_of (into_bucket b x bs) c = (if c = b then Some ((case map_of bs b of Some v \<Rightarrow> v | None \<Rightarrow> []) @ [x]) else map_of bs c)"
proof (induction b x bs rule: into_bucket.induct)
  case (2 b x d v bs)
  then show ?case using map_of_eq_None_iff [of bs b] by auto
qed auto

lemma buckets_foldl:
  "distinct (map fst (foldl (\<lambda>bs x. into_bucket (k x) x bs) [] xs))
   \<and> set (map fst (foldl (\<lambda>bs x. into_bucket (k x) x bs) [] xs)) = k ` set xs
   \<and> (\<forall>b \<in> k ` set xs. map_of (foldl (\<lambda>bs x. into_bucket (k x) x bs) [] xs) b = Some (filter (\<lambda>x. k x = b) xs))"
proof (induction xs rule: rev_induct)
  case (snoc x xs)
  let ?bs = "foldl (\<lambda>bs x. into_bucket (k x) x bs) [] xs"
  from snoc have d: "distinct (map fst ?bs)" and keys: "set (map fst ?bs) = k ` set xs"
    and vals: "\<And>b. b \<in> k ` set xs \<Longrightarrow> map_of ?bs b = Some (filter (\<lambda>x. k x = b) xs)" by blast+
  have "(case map_of ?bs (k x) of Some v \<Rightarrow> v | None \<Rightarrow> []) = filter (\<lambda>y. k y = k x) xs"
  proof (cases "k x \<in> k ` set xs")
    case False
    then have "map_of ?bs (k x) = None" using keys by (simp add: map_of_eq_None_iff)
    moreover have "filter (\<lambda>y. k y = k x) xs = []" using False by (metis (mono_tags, lifting) filter_empty_conv imageI)
    ultimately show ?thesis by simp
  qed (simp add: vals)
  then have "map_of (into_bucket (k x) x ?bs) b = Some (filter (\<lambda>y. k y = b) (xs @ [x]))" if "b \<in> k ` set (xs @ [x])" for b
    using that vals [of b] by (cases "b = k x") (auto simp: into_bucket_get [OF d])
  moreover have "set (map fst (into_bucket (k x) x ?bs)) = k ` set (xs @ [x])"
    unfolding into_bucket_keys keys by simp
  ultimately show ?case using into_bucket_distinct [OF d] by simp
qed simp

lemma sorted_buckets:
  "map snd (sort_key fst (foldl (\<lambda>bs x. into_bucket (k x) x bs) [] xs)) =
   map (\<lambda>b. filter (\<lambda>x. k x = b) xs) (sorted_list_of_set (k ` set xs))"
proof -
  let ?bs = "foldl (\<lambda>bs x. into_bucket (k x) x bs) [] xs"
  have d: "distinct (map fst ?bs)" and keys: "set (map fst ?bs) = k ` set xs"
    and vals: "\<And>b. b \<in> k ` set xs \<Longrightarrow> map_of ?bs b = Some (filter (\<lambda>x. k x = b) xs)"
    using buckets_foldl [of k xs] by auto
  have "map fst (sort_key fst ?bs) = sorted_list_of_set (k ` set xs)"
  proof (rule sorted_distinct_set_unique)
    show "sorted (map fst (sort_key fst ?bs))" by simp
    show "distinct (map fst (sort_key fst ?bs))" using d by (simp add: distinct_map)
    show "set (map fst (sort_key fst ?bs)) = set (sorted_list_of_set (k ` set xs))" using keys by simp
  qed simp_all
  moreover have "snd p = filter (\<lambda>x. k x = fst p) xs" if "p \<in> set ?bs" for p
  proof -
    have "fst p \<in> set (map fst ?bs)" using that by simp
    then have "fst p \<in> k ` set xs" unfolding keys .
    moreover have "map_of ?bs (fst p) = Some (snd p)" using map_of_is_SomeI [OF d, of "fst p" "snd p"] that by simp
    ultimately show ?thesis using vals by simp
  qed
  then have "map snd (sort_key fst ?bs) = map (\<lambda>b. filter (\<lambda>x. k x = b) xs) (map fst (sort_key fst ?bs))"
    by simp
  ultimately show ?thesis by simp
qed

lemma denotes_windows:
  assumes "denotes s xs err"
  shows "0 < n \<Longrightarrow> 0 < step \<Longrightarrow> denotes (sliding n step s) (if err = None then windows n (min step n) xs else []) err"
    and "denotes (session_by_gap gap ts s) (if err = None then sessions gap ts xs else []) err"
    and "denotes (tumbling_by_time epoch duration ts s) (if err = None then
       map (\<lambda>b. filter (\<lambda>x. bucket_for epoch (ts x) (max duration 1) = b) xs)
         (sorted_list_of_set ((\<lambda>x. bucket_for epoch (ts x) (max duration 1)) ` set xs)) else []) err"
proof -
  show "denotes (sliding n step s) (if err = None then windows n (min step n) xs else []) err" if "0 < n" "0 < step"
  proof -
    from sliding_each [OF that, of "[]" "[]" xs] that(1) obtain buf' where
      e: "each (\<lambda>(buf, out) x. (slide n step (buf @ [x]) out, True)) ([], []) xs = ((buf', windows n (min step n) xs), True)"
      by auto
    from each.denotes_draining [OF assms e, of snd] that show ?thesis by (cases err) (simp_all add: sliding_def)
  qed
  show "denotes (session_by_gap gap ts s) (if err = None then sessions gap ts xs else []) err"
  proof -
    let ?f = "\<lambda>(out, cur, last_ts) x.
       let t = ts x; cut = (case last_ts of Some prev \<Rightarrow> gap < t - prev \<and> cur \<noteq> [] | None \<Rightarrow> False) in
       ((if cut then out @ [cur] else out, (if cut then [] else cur) @ [x], Some t), True)"
    have "\<exists>out' cur' l. each ?f ([], [], None) xs = ((out', cur', l), True)
        \<and> (if cur' \<noteq> [] then out' @ [cur'] else out') = sessions gap ts xs"
    proof (cases xs)
      case (Cons y ys)
      then show ?thesis
        using session_each [of "[y]" ts gap "[]" ys] sessions_nonempty [of gap ts y ys] by (auto simp: Let_def)
    qed simp
    then obtain out' cur' l where e: "each ?f ([], [], None) xs = ((out', cur', l), True)"
      and f: "(if cur' \<noteq> [] then out' @ [cur'] else out') = sessions gap ts xs" by blast
    from each.denotes_draining [OF assms e, of "\<lambda>(out, cur, _). if cur \<noteq> [] then out @ [cur] else out"] f
    show ?thesis by (cases err) (simp_all add: session_by_gap_def)
  qed
  show "denotes (tumbling_by_time epoch duration ts s) (if err = None then
       map (\<lambda>b. filter (\<lambda>x. bucket_for epoch (ts x) (max duration 1) = b) xs)
         (sorted_list_of_set ((\<lambda>x. bucket_for epoch (ts x) (max duration 1)) ` set xs)) else []) err"
    using each.denotes_draining [OF assms each_foldl [of "\<lambda>bs x. into_bucket (bucket_for epoch (ts x) (max duration 1)) x bs" "[]" xs],
        of "\<lambda>buckets. map snd (sort_key fst buckets)"]
    by (cases err) (simp_all add: tumbling_by_time_def sorted_buckets)
qed

subsection \<open>Joins\<close>

function interleave :: "'a list \<Rightarrow> 'a list \<Rightarrow> 'a list" where
  "interleave [] ys = ys"
| "interleave (x # xs) ys = x # interleave ys xs"
  by pat_completeness auto
termination
  by (relation "measure (\<lambda>(xs, ys). length xs + length ys)") auto

lemma interleave_Nil [simp]: "interleave xs [] = xs"
  by (cases xs) auto

lemma poll_exhausted [simp]: "poll_next_chunk (Stream Exhausted tp) r w = Some (Ok None, Stream Exhausted tp, r, w)"
  by (simp add: poll_simps)

lemma poll_iterable:
  "poll_next_chunk (from_iterable xs) r w =
     (if xs = [] then Some (Ok None, Stream Exhausted None, r, w)
      else Some (Ok (Some (take 64 xs)), Stream (if length xs \<le> 64 then Exhausted else Buffered (drop 64 xs)) None, r, w))"
  by (simp add: from_iterable_def stream_new_def poll_simps from_buffer_def Let_def)

lemma refill_exhausted [simp]:
  "refill (Stream Exhausted tp) buf fin r w = Some (Ok (buf, fin \<or> buf = []), Stream Exhausted tp, r, w)"
  by (cases buf) (auto simp: refill_def)

lemma merge_ended:
  "merge_loop turn out (Stream Exhausted None) lb lf (Stream Exhausted None) rb rf r w =
     Some (Ok (out @ (if turn then interleave lb rb else interleave rb lb)), r, w)"
proof (induction "length lb + length rb" arbitrary: turn out lb lf rb rf rule: less_induct)
  case less
  show ?case
  proof (cases turn)
    case True
    then show ?thesis
      using less [of "tl lb" rb False "out @ [hd lb]" "lf \<or> lb = []" "rf \<or> rb = []"]
      by (subst merge_loop.simps) (cases lb; simp)
  next
    case False
    then show ?thesis
      using less [of lb "tl rb" True "out @ [hd rb]" "lf \<or> lb = []" "rf \<or> rb = []"]
      by (subst merge_loop.simps) (cases rb; simp)
  qed
qed

lemma refill_iterable:
  "length xs \<le> 64 \<Longrightarrow> refill (from_iterable xs) [] False r w = Some (Ok (xs, xs = []), Stream Exhausted None, r, w)"
  by (simp add: refill_def poll_iterable)

text \<open>\<open>merge\<close> alternates two streams that each fit one chunk.\<close>

lemma merge_one_chunk:
  assumes "length xs \<le> 64" "length ys \<le> 64"
  shows "denotes (merge (from_iterable xs) (from_iterable ys)) (interleave xs ys) None"
  unfolding merge_def
proof (rule denotes_new)
  fix r :: unit and w :: 'w
  have "merge_loop True [] (from_iterable xs) [] False (from_iterable ys) [] False r w =
      merge_loop True [] (Stream Exhausted None) xs (xs = []) (Stream Exhausted None) ys (ys = []) r w"
    by (subst (1 2) merge_loop.simps) (simp add: refill_iterable assms)
  then show "merge_loop True [] (from_iterable xs) [] False (from_iterable ys) [] False r w = Some (Ok (interleave xs ys), r, w)"
    by (simp add: merge_ended)
qed

text \<open>
  When it is the turn of a side that has ended, \<open>merge\<close> appends what it has buffered of the other
  side and stops: the chunks of the other side that were not pulled yet are lost.
\<close>

theorem merge_drops_chunks: "denotes (merge (from_iterable []) (from_iterable ys)) (take 64 ys) None"
  unfolding merge_def
proof (rule denotes_new)
  fix r :: unit and w :: 'w
  show "merge_loop True [] (from_iterable []) [] False (from_iterable ys) [] False r w = Some (Ok (take 64 ys), r, w)"
    by (subst merge_loop.simps) (simp add: refill_def poll_iterable)
qed

theorem merge_loses_items:
  "run_collect never (merge (from_iterable []) (from_iterable (replicate 65 x))) () w = Some (Ok (replicate 64 x), (), w)"
  using denotes_run(1) [OF merge_drops_chunks [of "replicate 65 x"], of "()" w] by simp

lemma join_chunk_spec:
  "join_chunk items other mine out = (mine ++ map_of (rev items),
     out @ concat (map (\<lambda>(k, a). case other k of Some b \<Rightarrow> [(k, a, b)] | None \<Rightarrow> []) items))"
proof (induction items arbitrary: mine out)
  case (Cons p items)
  obtain k a where "p = (k, a)" by fastforce
  moreover have "(\<lambda>b. if b = k then Some a else mine b) = mine(k \<mapsto> a)" by auto
  ultimately show ?case by (cases "other k") (simp_all add: Cons.IH map_of_append)
qed simp

lemma keyed_join_one_chunk:
  assumes "length ls \<le> 64" "length rs \<le> 64"
  shows "denotes (keyed_join (from_iterable ls) (from_iterable rs))
    (concat (map (\<lambda>(k, b). case map_of (rev ls) k of Some a \<Rightarrow> [(k, a, b)] | None \<Rightarrow> []) rs)) None"
  unfolding keyed_join_def
proof (rule denotes_new)
  fix r :: unit and w :: 'w
  let ?out = "concat (map (\<lambda>(k, b). case map_of (rev ls) k of Some a \<Rightarrow> [(k, a, b)] | None \<Rightarrow> []) rs)"
  have out: "map (\<lambda>(k, b, a). (k, a, b)) (concat (map (\<lambda>(k, b). case map_of (rev ls) k of Some a \<Rightarrow> [(k, b, a)] | None \<Rightarrow> []) rs)) = ?out"
    by (induction rs) (auto split: option.split)
  have fin: "keyed_loop res l m (Stream Exhausted None) lf (Stream Exhausted None) rf () w = Some (Ok res, (), w)" for res l m lf rf
    by (subst keyed_loop.simps, simp)+
  have none: "concat (map (\<lambda>(k, a). []) ls) = []" by (induction ls) auto
  show "keyed_loop [] Map.empty Map.empty (from_iterable ls) False (from_iterable rs) False r w = Some (Ok ?out, r, w)"
    by (subst keyed_loop.simps) (simp add: refill_iterable assms join_chunk_spec out fin none)
qed

subsection \<open>Unfolding\<close>

inductive unfolds :: "('s \<Rightarrow> ('a \<times> 's) option) \<Rightarrow> 's \<Rightarrow> 'a list \<Rightarrow> bool" for f where
  stop: "f s = None \<Longrightarrow> unfolds f s []"
| more: "f s = Some (a, t) \<Longrightarrow> unfolds f t xs \<Longrightarrow> unfolds f s (a # xs)"

lemma unfold_loop_unfolds:
  "unfolds f s xs \<Longrightarrow> unfold_effect_loop (\<lambda>s. succeed (f s)) out s r w = Some (Ok (out @ xs), r, w)"
  by (induction arbitrary: out rule: unfolds.induct) (subst unfold_effect_loop.simps, simp)+

lemma denotes_unfold: "unfolds f s xs \<Longrightarrow> denotes (unfold_stream s f) xs None"
  unfolding unfold_stream_def by (rule denotes_new) (simp add: unfold_loop_unfolds)

subsection \<open>Properties of streams\<close>

lemma transduce_each:
  "each (\<lambda>out x. (out @ xf (\<lambda>acc y. acc @ [y]) [] x, True)) out xs = (out @ concat (map (xf (\<lambda>acc y. acc @ [y]) []) xs), True)"
  by (induction xs arbitrary: out) auto

lemma denotes_transduce:
  assumes "denotes s xs err"
  shows "denotes (transduce_items xf s) (if err = None then concat (map (xf (\<lambda>acc y. acc @ [y]) []) xs) else []) err"
  using each.denotes_draining [OF assms transduce_each [of xf "[]"], of "\<lambda>out. out"]
  by (cases err) (simp_all add: transduce_items_def)

lemma transduce_fused:
  "concat (map (xf_compose (xf_map f) (xf_filter p) (\<lambda>acc y. acc @ [y]) []) xs) = filter p (map f xs)"
  by (induction xs) (auto simp: xf_compose_def xf_map_def xf_filter_def)

lemma denotes_grouped: "denotes s xs None \<Longrightarrow> denotes (grouped n s) (groups n xs) None"
  using denotes_operators(6) [of s xs None n] by (cases "n = 0") (simp_all add: grouped_def groups.simps denotes_new)

lemma collects: "denotes s xs None \<Longrightarrow> run_collect never s r w = Some (Ok xs, r, w)"
  using denotes_run(1) [of s xs None] by simp

lemma collect_fails: "denotes s xs (Some e) \<Longrightarrow> run_collect never s r w = Some (Err e, r, w)"
  using denotes_run(1) [of s xs "Some e"] by simp

lemmas denotes_ok = denotes_operators(1-5) [where err = None, simplified] denotes_grouped
  denotes_stopping [where err = None, simplified] denotes_chain [where err = None, simplified]
  denotes_transduce [where err = None, simplified]

lemmas denotes_err = denotes_operators(1-6) [where err = "Some e" for e, simplified]
  denotes_stopping [where err = "Some e" for e, simplified] denotes_chain [where err = "Some e" for e, simplified]

text \<open>
  C34. Streams compute list functions. If a stream, however it was built and however its items are
  cut into chunks, yields the items \<open>xs\<close> and ends, then collecting it gives \<open>xs\<close> and every
  sequential operator gives the list function of its name: \<open>map\<close>, \<open>filter\<close>, \<open>take\<close>,
  \<open>take_while\<close>, \<open>drop_while\<close>, \<open>scan\<close>, \<open>state_scan\<close>, \<open>grouped\<close>, \<open>chain\<close>, \<open>run_fold\<close>, and the
  transducer that maps and then filters in one pass.
\<close>

theorem streams_are_lists:
  assumes s: "denotes s xs None" and t: "denotes t ys None"
  shows "run_collect never s r w = Some (Ok xs, r, w)
    \<and> run_collect never (map_serial f s) r w = Some (Ok (map f xs), r, w)
    \<and> run_collect never (filter_serial p s) r w = Some (Ok (filter p xs), r, w)
    \<and> run_collect never (take_stream n s) r w = Some (Ok (take n xs), r, w)
    \<and> run_collect never (take_while p s) r w = Some (Ok (takeWhile p xs), r, w)
    \<and> run_collect never (drop_while p s) r w = Some (Ok (dropWhile p xs), r, w)
    \<and> run_collect never (scan st g s) r w = Some (Ok (scan_list g st xs), r, w)
    \<and> run_collect never (state_scan st h s) r w = Some (Ok (emissions h st xs), r, w)
    \<and> run_collect never (grouped n s) r w = Some (Ok (groups n xs), r, w)
    \<and> run_collect never (chain s t) r w = Some (Ok (xs @ ys), r, w)
    \<and> run_collect never (via_transducer (xf_compose (xf_map k) (xf_filter p)) s) r w = Some (Ok (filter p (map k xs)), r, w)
    \<and> run_fold never b c s r w = Some (Ok (foldl c b xs), r, w)"
proof (intro conjI)
  show "run_collect never (via_transducer (xf_compose (xf_map k) (xf_filter p)) s) r w = Some (Ok (filter p (map k xs)), r, w)"
    using collects [OF denotes_ok(10) [OF s, of "xf_compose (xf_map k) (xf_filter p)"]] by (simp add: via_transducer_def transduce_fused)
  show "run_fold never b c s r w = Some (Ok (foldl c b xs), r, w)" using denotes_run(2) [OF s] by simp
qed (rule collects, (rule s | rule denotes_ok(9) [OF s t] | rule denotes_ok(1-8) [OF s]))+

theorem streams_are_lists_witness:
  "\<forall>w :: nat. run_collect never (take_stream 2 (chain (from_iterable [1, 2, 3]) (from_iterable [4 :: int]))) () w = Some (Ok [1, 2], (), w)"
proof
  fix w :: nat
  have c: "denotes (chain (from_iterable [1, 2, 3]) (from_iterable [4 :: int]) :: (int, unit, unit, nat) stream) [1, 2, 3, 4] None"
    using denotes_ok(9) [OF denotes_from_iterable denotes_from_iterable, of "[1, 2, 3 :: int]" "[4]"] by simp
  show "run_collect never (take_stream 2 (chain (from_iterable [1, 2, 3]) (from_iterable [4 :: int]))) () w = Some (Ok [1, 2], (), w)"
    using streams_are_lists [OF c c, of "()" w "\<lambda>x. x" "\<lambda>_. True" 2 "()" "\<lambda>s x. (s, x)" "\<lambda>s x. (s, Some x)"
        "\<lambda>x. x" "()" "\<lambda>s x. s"] by simp
qed

text \<open>
  C35. How a failure after some items travels. A stream that yields \<open>xs\<close> and then fails with \<open>e\<close>
  fails under every operator that drains its upstream, and the items are lost with it; \<open>take\<close> and
  \<open>take_while\<close> succeed when they stop before the failure; \<open>chain\<close> does not go on to its second
  stream; and a run that is interrupted before the first pull succeeds with nothing.
\<close>

theorem stream_failures:
  assumes s: "denotes s xs (Some e)" and t: "denotes t ys err"
  shows "run_collect never s r w = Some (Err e, r, w)
    \<and> run_collect never (map_serial f s) r w = Some (Err e, r, w)
    \<and> run_collect never (scan st g s) r w = Some (Err e, r, w)
    \<and> run_collect never (chain s t) r w = Some (Err e, r, w)
    \<and> run_collect never (take_stream (length xs) (chain s t)) r w = Some (Ok xs, r, w)
    \<and> run_collect never (take_stream n s) r w = Some (if n \<le> length xs then Ok (take n xs) else Err e, r, w)
    \<and> run_collect never (take_stream n (map_serial f s)) r w = Some (if n = 0 then Ok [] else Err e, r, w)
    \<and> run_collect never (take_while p s) r w = Some (if list_all p xs then Err e else Ok (takeWhile p xs), r, w)
    \<and> run_collect (\<lambda>_ _. True) s r w = Some (Ok [], r, w)"
proof (intro conjI)
  show "run_collect never s r w = Some (Err e, r, w)" by (rule collect_fails [OF s])
  show "run_collect never (map_serial f s) r w = Some (Err e, r, w)" by (rule collect_fails [OF denotes_err(1) [OF s]])
  show "run_collect never (scan st g s) r w = Some (Err e, r, w)" by (rule collect_fails [OF denotes_err(4) [OF s]])
  have c: "denotes (chain s t) xs (Some e)" by (rule denotes_err(9) [OF s t])
  show "run_collect never (chain s t) r w = Some (Err e, r, w)" by (rule collect_fails [OF c])
  show "run_collect never (take_stream (length xs) (chain s t)) r w = Some (Ok xs, r, w)"
    using denotes_run(1) [OF denotes_stopping(2) [OF c, of "length xs"]] by simp
  show "run_collect never (take_stream n s) r w = Some (if n \<le> length xs then Ok (take n xs) else Err e, r, w)"
    using denotes_run(1) [OF denotes_stopping(2) [OF s, of n]] by simp
  show "run_collect never (take_stream n (map_serial f s)) r w = Some (if n = 0 then Ok [] else Err e, r, w)"
    using denotes_run(1) [OF denotes_stopping(2) [OF denotes_err(1) [OF s, of f], of n]] by simp
  show "run_collect never (take_while p s) r w = Some (if list_all p xs then Err e else Ok (takeWhile p xs), r, w)"
    using denotes_run(1) [OF denotes_stopping(1) [OF s, of p]] by simp
  show "run_collect (\<lambda>_ _. True) s r w = Some (Ok [], r, w)"
    unfolding run_collect_def new_async_def by (subst pull_loop.simps) simp
qed

lemma denotes_fail: "denotes (from_effect (fail e)) [] (Some e)"
  unfolding from_effect_def by (rule denotes_new_fails) (simp add: run_def fail_def new_sync_def)

theorem stream_failures_witness:
  "\<forall>w :: nat. run_collect never (take_stream 2 (chain (chain (from_iterable [1, 2 :: int]) (from_effect (fail ()))) (from_iterable [3]))) () w
     = Some (Ok [1, 2], (), w)"
proof
  fix w :: nat
  have s: "denotes (chain (from_iterable [1, 2 :: int]) (from_effect (fail ())) :: (int, unit, unit, nat) stream) [1, 2] (Some ())"
    using denotes_ok(9) [OF denotes_from_iterable denotes_fail, of "[1, 2 :: int]" "()"] by simp
  show "run_collect never (take_stream 2 (chain (chain (from_iterable [1, 2 :: int]) (from_effect (fail ()))) (from_iterable [3]))) () w
     = Some (Ok [1, 2], (), w)"
    using stream_failures [OF s denotes_from_iterable, of "()" w "\<lambda>x. x" "()" "\<lambda>s x. (s, x)" "[3]" 0 "\<lambda>_. True"]
    by (simp add: numeral_2_eq_2)
qed

subsection \<open>Properties of windows\<close>

lemma groups_properties:
  assumes "0 < n"
  shows "concat (groups n xs) = xs \<and> list_all (\<lambda>c. length c = n) (butlast (groups n xs))
    \<and> (xs \<noteq> [] \<longrightarrow> groups n xs \<noteq> [] \<and> last (groups n xs) \<noteq> [] \<and> length (last (groups n xs)) \<le> n)"
proof (induction "length xs" arbitrary: xs rule: less_induct)
  case less
  show ?case
  proof (cases "length xs \<le> n")
    case True
    then show ?thesis using assms by (cases "xs = []") (simp_all add: groups.simps)
  next
    case False
    then have "groups n xs = take n xs # groups n (drop n xs)" using assms by (subst groups.simps) auto
    with less.hyps [of "drop n xs"] False assms show ?thesis by simp
  qed
qed

lemma windows_spec:
  assumes "0 < n" "0 < step"
  shows "windows n step xs =
    map (\<lambda>i. take n (drop (i * step) xs)) [0..<if length xs < n then 0 else Suc ((length xs - n) div step)]"
proof (induction "length xs" arbitrary: xs rule: less_induct)
  case less
  show ?case
  proof (cases "length xs < n")
    case False
    let ?ys = "drop step xs"
    have count: "(if length ?ys < n then 0 else Suc ((length ?ys - n) div step)) = (length xs - n) div step"
      using False assms le_div_geq [of step "length xs - n"] by (auto simp: add.commute)
    have rest: "windows n step ?ys = map (\<lambda>i. take n (drop (i * step) ?ys)) [0..<(length xs - n) div step]"
      using less.hyps [of ?ys] False assms unfolding count by simp
    have "windows n step xs = take n xs # windows n step ?ys"
      using False assms by (subst windows.simps) simp
    also have "\<dots> = map (\<lambda>i. take n (drop (i * step) xs)) [0..<Suc ((length xs - n) div step)]"
      unfolding rest map_upt_Suc by (simp add: add.commute)
    finally show ?thesis using False by simp
  qed (simp add: windows_short)
qed

text \<open>
  In the sessions of \<open>xs\<close>, neighbouring items of a session are at most \<open>gap\<close> apart, and the last
  item of a session and the first of the next are more than \<open>gap\<close> apart.
\<close>

lemma sessions_gaps:
  "(\<forall>c \<in> set (sessions gap ts xs). c \<noteq> [] \<and> successively (\<lambda>x y. ts y - ts x \<le> gap) c)
   \<and> successively (\<lambda>c d. gap < ts (hd d) - ts (last c)) (sessions gap ts xs)
   \<and> (xs \<noteq> [] \<longrightarrow> sessions gap ts xs \<noteq> [] \<and> hd (hd (sessions gap ts xs)) = hd xs)"
proof (induction gap ts xs rule: sessions.induct)
  case (3 gap ts x y xs)
  obtain c cs where s: "sessions gap ts (y # xs) = c # cs" using sessions_nonempty [of gap ts y xs] by (cases "sessions gap ts (y # xs)") auto
  show ?case
  proof (cases "gap < ts y - ts x")
    case True
    with 3(1) s show ?thesis by (auto simp: successively_Cons)
  next
    case False
    then obtain d where c: "c = y # d" using 3(2) s by (cases c) auto
    from 3(2) [OF False] False s show ?thesis by (auto simp: c successively_Cons)
  qed
qed simp_all



lemma time_windows_from:
  "c \<in> set (time_windows duration step items stop start out) \<Longrightarrow> c \<in> set out \<or> (\<forall>x \<in> set c. \<exists>t \<ge> start. (t, x) \<in> set items)"
proof (induction duration step items stop start out rule: time_windows.induct)
  case (1 duration step items stop start out)
  let ?window = "map snd (filter (\<lambda>(ts, _). start \<le> ts \<and> ts < start + duration) items)"
  let ?out = "if ?window \<noteq> [] then out @ [?window] else out"
  have window: "\<forall>x \<in> set ?window. \<exists>t \<ge> start. (t, x) \<in> set items" by force
  show ?case
  proof (cases "start \<le> stop \<and> 0 < step")
    case True
    then have "c \<in> set (time_windows duration step items stop (start + step) ?out)"
      using 1(2) unfolding time_windows.simps [of duration step items stop start out] Let_def by simp
    from 1(1) [OF True refl this] have "c \<in> set ?out \<or> (\<forall>x \<in> set c. \<exists>t \<ge> start + step. (t, x) \<in> set items)" .
    moreover have "c \<in> set out \<or> c = ?window" if "c \<in> set ?out" using that by (auto split: if_splits)
    ultimately show ?thesis using window add_leD1 by blast
  next
    case False
    with 1(2) show ?thesis unfolding time_windows.simps [of duration step items stop start out] by simp
  qed
qed

lemma early_bucket: "ts < epoch \<Longrightarrow> bucket_for epoch ts d = epoch"
  by (simp add: bucket_for_def)

lemma denotes_sliding_by_time:
  assumes "denotes s xs None"
  shows "denotes (sliding_by_time epoch duration step ts s) (if xs = [] then [] else
     time_windows (max duration 1) (max step 1) (sort_key fst (map (\<lambda>x. (ts x, x)) xs))
       (fst (last (sort_key fst (map (\<lambda>x. (ts x, x)) xs))) + max duration 1)
       (bucket_for epoch (fst (hd (sort_key fst (map (\<lambda>x. (ts x, x)) xs)))) (max step 1)) []) None"
  using each.denotes_draining [OF assms each_map [of "\<lambda>x. (ts x, x)" "[]" xs], of "\<lambda>items0. if items0 = [] then []
      else let items = sort_key fst items0 in time_windows (max duration 1) (max step 1) items
        (fst (last items) + max duration 1) (bucket_for epoch (fst (hd items)) (max step 1)) []"]
  by (cases "xs = []") (simp_all add: sliding_by_time_def Let_def del: One_nat_def)

text \<open>
  Two limits of the windows. With a step larger than the window, \<open>sliding\<close> does not skip items:
  it behaves as if the step were the window size. And \<open>bucket_for\<close> counts from the first use of
  \<open>window_epoch\<close>, so time windows do not work for earlier timestamps: \<open>tumbling_by_time\<close> puts them
  in one window, however far apart they are, and no window of \<open>sliding_by_time\<close> has any of them.
\<close>

theorem window_limits:
  assumes s: "denotes s xs None" and n: "0 < width" "width \<le> step"
    and early: "denotes t (y # ys) None" "list_all (\<lambda>y. ts y < epoch) (y # ys)"
  shows "run_collect never (sliding width step s) r w = run_collect never (sliding width width s) r w
    \<and> run_collect never (tumbling_by_time epoch duration ts t) r w = Some (Ok [y # ys], r, w)
    \<and> (\<exists>cs. run_collect never (sliding_by_time epoch duration step ts s) r w = Some (Ok cs, r, w)
         \<and> list_all (list_all (\<lambda>x. epoch \<le> ts x)) cs)"
proof (intro conjI)
  show "run_collect never (sliding width step s) r w = run_collect never (sliding width width s) r w"
    using collects [OF denotes_windows(1) [where err = None, simplified, OF s, of width]] n by simp
  let ?k = "\<lambda>x. bucket_for epoch (ts x) (max duration 1)"
  have keys: "?k ` set (y # ys) = {epoch}" and all: "filter (\<lambda>x. ?k x = epoch) (y # ys) = y # ys"
    using early(2) by (auto simp: early_bucket list_all_iff)
  have "denotes (tumbling_by_time epoch duration ts t)
      (map (\<lambda>b. filter (\<lambda>x. ?k x = b) (y # ys)) (sorted_list_of_set (?k ` set (y # ys)))) None"
    using denotes_windows(3) [OF early(1), of epoch duration ts] by (simp only: if_True simp_thms)
  then have "denotes (tumbling_by_time epoch duration ts t) [y # ys] None"
    unfolding keys using all by (simp del: filter.simps)
  then show "run_collect never (tumbling_by_time epoch duration ts t) r w = Some (Ok [y # ys], r, w)" by (rule collects)
  let ?cs = "time_windows (max duration 1) (max step 1) (sort_key fst (map (\<lambda>x. (ts x, x)) xs))
       (fst (last (sort_key fst (map (\<lambda>x. (ts x, x)) xs))) + max duration 1)
       (bucket_for epoch (fst (hd (sort_key fst (map (\<lambda>x. (ts x, x)) xs)))) (max step 1)) []"
  have "epoch \<le> ts x" if "c \<in> set ?cs" "x \<in> set c" for c x
  proof -
    from time_windows_from [OF that(1)] that(2) obtain t where
      "bucket_for epoch (fst (hd (sort_key fst (map (\<lambda>x. (ts x, x)) xs)))) (max step 1) \<le> t" "t = ts x" by auto
    then show ?thesis by (simp add: bucket_for_def Let_def)
  qed
  then show "\<exists>cs. run_collect never (sliding_by_time epoch duration step ts s) r w = Some (Ok cs, r, w)
         \<and> list_all (list_all (\<lambda>x. epoch \<le> ts x)) cs"
    using collects [OF denotes_sliding_by_time [OF s]] by (cases "xs = []") (simp_all add: list_all_iff)
qed

theorem window_limits_witness:
  "\<forall>w :: nat. run_collect never (tumbling_by_time 100 10 (\<lambda>x. x) (from_iterable [5, 95])) () w = Some (Ok [[5, 95]], (), w)"
proof
  fix w :: nat
  show "run_collect never (tumbling_by_time 100 10 (\<lambda>x. x) (from_iterable [5, 95])) () w = Some (Ok [[5, 95]], (), w)"
    using window_limits [OF denotes_from_iterable _ _ denotes_from_iterable, where ts = "\<lambda>x. x" and width = 2 and step = 3
        and y = 5 and ys = "[95]" and epoch = 100 and duration = 10 and r = "()" and w = w and xs = "[]"] by simp
qed

text \<open>
  Joins of streams that fit one chunk: \<open>merge\<close> alternates between its two streams, starting with
  the first, and \<open>keyed_join\<close> pairs every item of the second stream with the last item of the first
  that has its key. Beyond one chunk \<open>merge\<close> loses items: after a stream has ended it keeps only
  what it has buffered of the other, so merging with an empty stream cuts a stream to its first 64
  items.
\<close>

theorem joins_within_a_chunk:
  assumes "length xs \<le> 64" "length ys \<le> 64" "length ls \<le> 64" "length rs \<le> 64"
  shows "run_collect never (merge (from_iterable xs) (from_iterable ys)) () w = Some (Ok (interleave xs ys), (), w)
    \<and> run_collect never (keyed_join (from_iterable ls) (from_iterable rs)) () w =
        Some (Ok (concat (map (\<lambda>(k, b). case map_of (rev ls) k of Some a \<Rightarrow> [(k, a, b)] | None \<Rightarrow> []) rs)), (), w)
    \<and> run_collect never (merge (from_iterable []) (from_iterable zs)) () w = Some (Ok (take 64 zs), (), w)"
  by (intro conjI collects merge_one_chunk keyed_join_one_chunk merge_drops_chunks assms)

theorem joins_within_a_chunk_witness:
  "\<forall>w :: nat. run_collect never (merge (from_iterable [1, 2, 3]) (from_iterable [10 :: int])) () w = Some (Ok [1, 10, 2, 3], (), w)
     \<and> run_collect never (merge (from_iterable []) (from_iterable [0..99])) () w = Some (Ok [0..63], (), w)"
proof
  fix w :: nat
  have "take 64 [0..99] = [0..63 :: int]" by code_simp
  then show "run_collect never (merge (from_iterable [1, 2, 3]) (from_iterable [10 :: int])) () w = Some (Ok [1, 10, 2, 3], (), w)
     \<and> run_collect never (merge (from_iterable []) (from_iterable [0..99])) () w = Some (Ok [0..63], (), w)"
    using joins_within_a_chunk [of "[1, 2, 3 :: int]" "[10]" "[] :: (unit \<times> unit) list" "[] :: (unit \<times> unit) list" w "[0..99]"] by simp
qed

end
