(* ===== verification/Channels.thy ===== *)
theory Channels
  imports Streams Collections
begin

text \<open>
  \<open>crates/id_effect/src/coordination/channel.rs\<close>, \<open>crates/id_effect/src/streaming/sink.rs\<close> and the
  channel-backed streams of \<open>crates/id_effect/src/streaming/stream.rs\<close>: bidirectional channels over
  a queue, over a fold and over a stream; sinks; senders with a back-pressure policy.

  Channels share their queue, their pending output and their accumulator through \<open>Arc\<close>s, so these
  are cells of a store that operations take and return, and a channel holds the addresses. The rest
  of the shared state is the extension of that record. The stream behind a channel made by
  \<open>from_stream\<close> is shared too; it is represented by the operation that polls it in place. A panic is
  the outer \<open>None\<close>, as is a loop that does not end: an operation runs by itself, so waiting for
  another task to make room in a queue is such a loop.
\<close>

section \<open>Cells\<close>

record ('o, 'c) cells =
  queues :: "nat \<Rightarrow> ('o, 'c) queue"
  pendings :: "nat \<Rightarrow> 'o list"
  accs :: "nat \<Rightarrow> 'o"
  next_cell :: nat

definition take_at ::
  "('o, 'c) flume \<Rightarrow> nat \<Rightarrow> ('o, 'c, 'x) cells_scheme \<Rightarrow> (('o, queue_error) result \<times> ('o, 'c, 'x) cells_scheme) option" where
  "take_at fl q w = map_option (\<lambda>(res, q'). (res, w\<lparr>queues := (queues w)(q := q')\<rparr>)) (q_take fl (queues w q))"

definition offer_at ::
  "('o, 'c) flume \<Rightarrow> nat \<Rightarrow> 'o \<Rightarrow> ('o, 'c, 'x) cells_scheme \<Rightarrow> bool \<times> ('o, 'c, 'x) cells_scheme" where
  "offer_at fl q v w = (case q_offer fl (queues w q) v of (b, q') \<Rightarrow> (b, w\<lparr>queues := (queues w)(q := q')\<rparr>))"

text \<open>The loop around \<open>offer\<close>: yield to other tasks and try again until the queue accepts.\<close>

partial_function (option) offer_until ::
  "('o, 'c) flume \<Rightarrow> nat \<Rightarrow> 'o \<Rightarrow> ('o, 'c, 'x) cells_scheme \<Rightarrow> ('o, 'c, 'x) cells_scheme option" where
  "offer_until fl q v w = (case offer_at fl q v w of (accepted, w') \<Rightarrow>
     if accepted then Some w' else offer_until fl q v w')"

definition push_pending :: "nat \<Rightarrow> 'o list \<Rightarrow> ('o, 'c, 'x) cells_scheme \<Rightarrow> ('o, 'c, 'x) cells_scheme" where
  "push_pending p xs w = w\<lparr>pendings := (pendings w)(p := pendings w p @ xs)\<rparr>"

section \<open>Channels\<close>

type_synonym ('o, 'e, 'r, 'w) puller = "'r \<Rightarrow> 'w \<Rightarrow> (('o list option, 'e) result \<times> 'r \<times> 'w) option"

record ('o, 'i) sink_accum_inner =
  sa_acc :: nat
  sa_step :: "'o \<Rightarrow> 'i \<Rightarrow> 'o"
  sa_q :: nat
  sa_pending :: nat
  sa_flat_map_out :: "('o \<Rightarrow> 'o list) option"
  sa_post_read :: "'o \<Rightarrow> 'o"

datatype ('o, 'i, 'e, 'r, 'w) channel =
    Queue_channel nat "'i \<Rightarrow> 'o" nat "('o \<Rightarrow> 'o list) option" "'o \<Rightarrow> 'o"
  | Sink_accum "('o, 'i) sink_accum_inner"
  | From_stream "('o, 'e, 'r, 'w) puller" nat "('o \<Rightarrow> 'o list) option" "'o \<Rightarrow> 'o"

definition from_queue_and_map ::
  "nat \<Rightarrow> ('i \<Rightarrow> 'o) \<Rightarrow> ('o, 'c, 'x) cells_scheme
    \<Rightarrow> ('o, 'i, 'e, 'r, ('o, 'c, 'x) cells_scheme) channel \<times> ('o, 'c, 'x) cells_scheme" where
  "from_queue_and_map q map_in w = (let p = next_cell w in
     (Queue_channel q map_in p None (\<lambda>x. x), w\<lparr>pendings := (pendings w)(p := []), next_cell := Suc p\<rparr>))"

definition duplex_unbounded ::
  "'c \<Rightarrow> ('o, 'c, 'x) cells_scheme
    \<Rightarrow> ('o, 'o, 'e, 'r, ('o, 'c, 'x) cells_scheme) channel \<times> ('o, 'c, 'x) cells_scheme" where
  "duplex_unbounded new_unbounded w = (let n = next_cell w in
     (Queue_channel n (\<lambda>x. x) n None (\<lambda>x. x),
      w\<lparr>queues := (queues w)(n := q_unbounded new_unbounded), pendings := (pendings w)(n := []), next_cell := Suc n\<rparr>))"

definition from_stream ::
  "('o, 'e, 'r, ('o, 'c, 'x) cells_scheme) puller \<Rightarrow> ('o, 'c, 'x) cells_scheme
    \<Rightarrow> ('o, unit, 'e, 'r, ('o, 'c, 'x) cells_scheme) channel \<times> ('o, 'c, 'x) cells_scheme" where
  "from_stream pull w = (let p = next_cell w in
     (From_stream pull p None (\<lambda>x. x), w\<lparr>pendings := (pendings w)(p := []), next_cell := Suc p\<rparr>))"

definition from_fold ::
  "'c \<Rightarrow> 'o \<Rightarrow> ('o \<Rightarrow> 'i \<Rightarrow> 'o) \<Rightarrow> ('o, 'c, 'x) cells_scheme
    \<Rightarrow> ('o, 'i, 'e, 'r, ('o, 'c, 'x) cells_scheme) channel \<times> ('o, 'c, 'x) cells_scheme" where
  "from_fold new_unbounded init step w = (let n = next_cell w in
     (Sink_accum \<lparr>sa_acc = n, sa_step = step, sa_q = n, sa_pending = n, sa_flat_map_out = None, sa_post_read = \<lambda>x. x\<rparr>,
      w\<lparr>accs := (accs w)(n := init), queues := (queues w)(n := q_unbounded new_unbounded),
        pendings := (pendings w)(n := []), next_cell := Suc n\<rparr>))"

definition fold_state :: "('o, 'i, 'e, 'r, ('o, 'c, 'x) cells_scheme) channel \<Rightarrow> ('o, 'n, 'r, ('o, 'c, 'x) cells_scheme) effect" where
  "fold_state ch = new_async (\<lambda>r w. case ch of
     Sink_accum inner \<Rightarrow> Some (Ok (accs w (sa_acc inner)), r, w)
   | _ \<Rightarrow> None)"

definition sink_accum_inner :: "('o, 'i, 'e, 'r, 'w) channel \<Rightarrow> ('o, 'i) sink_accum_inner option" where
  "sink_accum_inner ch = (case ch of Sink_accum inner \<Rightarrow> Some inner | _ \<Rightarrow> None)"

subsection \<open>Reading\<close>

definition drain_pending ::
  "nat \<Rightarrow> ('o \<Rightarrow> 'o) \<Rightarrow> ('o, 'c, 'x) cells_scheme \<Rightarrow> 'o option \<times> ('o, 'c, 'x) cells_scheme" where
  "drain_pending p post_read w = (case pendings w p of
     [] \<Rightarrow> (None, w)
   | x # xs \<Rightarrow> (Some (post_read x), w\<lparr>pendings := (pendings w)(p := xs)\<rparr>))"

text \<open>Expand a received value: give out the first result and keep the others; \<open>None\<close> goes round again.\<close>

definition expand ::
  "nat \<Rightarrow> ('o \<Rightarrow> 'o list) option \<Rightarrow> ('o \<Rightarrow> 'o) \<Rightarrow> 'o \<Rightarrow> ('o, 'c, 'x) cells_scheme
    \<Rightarrow> 'o option \<times> ('o, 'c, 'x) cells_scheme" where
  "expand p flat post wire w = (case (case flat of Some f \<Rightarrow> f wire | None \<Rightarrow> [wire]) of
     [] \<Rightarrow> (None, w)
   | first # rest \<Rightarrow> (Some (post first), push_pending p rest w))"

partial_function (option) read_queue ::
  "('o, 'c) flume \<Rightarrow> nat \<Rightarrow> nat \<Rightarrow> ('o \<Rightarrow> 'o list) option \<Rightarrow> ('o \<Rightarrow> 'o) \<Rightarrow> ('o, 'c, 'x) cells_scheme
    \<Rightarrow> ('o option \<times> ('o, 'c, 'x) cells_scheme) option" where
  "read_queue fl q p flat post w = (case drain_pending p post w of
     (Some v, w1) \<Rightarrow> Some (Some v, w1)
   | (None, w1) \<Rightarrow> (case take_at fl q w1 of
       None \<Rightarrow> None
     | Some (Inl Disconnected, w2) \<Rightarrow> Some (None, w2)
     | Some (Inr wire, w2) \<Rightarrow> (case expand p flat post wire w2 of
         (Some v, w3) \<Rightarrow> Some (Some v, w3)
       | (None, w3) \<Rightarrow> read_queue fl q p flat post w3)))"

text \<open>The inner loop over a shared stream: skip empty chunks, keep all but the first item pending.\<close>

partial_function (option) pull_wire ::
  "('o, 'e, 'r, ('o, 'c, 'x) cells_scheme) puller \<Rightarrow> nat \<Rightarrow> 'r \<Rightarrow> ('o, 'c, 'x) cells_scheme
    \<Rightarrow> (('o option, 'e) result \<times> 'r \<times> ('o, 'c, 'x) cells_scheme) option" where
  "pull_wire pull p r w = (case pull r w of
     None \<Rightarrow> None
   | Some (Inl e, r1, w1) \<Rightarrow> Some (Err e, r1, w1)
   | Some (Inr None, r1, w1) \<Rightarrow> Some (Ok None, r1, w1)
   | Some (Inr (Some []), r1, w1) \<Rightarrow> pull_wire pull p r1 w1
   | Some (Inr (Some (x # xs)), r1, w1) \<Rightarrow> Some (Ok (Some x), r1, push_pending p xs w1))"

partial_function (option) read_stream ::
  "('o, 'e, 'r, ('o, 'c, 'x) cells_scheme) puller \<Rightarrow> nat \<Rightarrow> ('o \<Rightarrow> 'o list) option \<Rightarrow> ('o \<Rightarrow> 'o) \<Rightarrow> 'r
    \<Rightarrow> ('o, 'c, 'x) cells_scheme \<Rightarrow> (('o option, 'e) result \<times> 'r \<times> ('o, 'c, 'x) cells_scheme) option" where
  "read_stream pull p flat post r w = (case drain_pending p post w of
     (Some v, w1) \<Rightarrow> Some (Ok (Some v), r, w1)
   | (None, w1) \<Rightarrow> (case pull_wire pull p r w1 of
       None \<Rightarrow> None
     | Some (Inl e, r2, w2) \<Rightarrow> Some (Err e, r2, w2)
     | Some (Inr None, r2, w2) \<Rightarrow> Some (Ok None, r2, w2)
     | Some (Inr (Some wire), r2, w2) \<Rightarrow> (case expand p flat post wire w2 of
         (Some v, w3) \<Rightarrow> Some (Ok (Some v), r2, w3)
       | (None, w3) \<Rightarrow> read_stream pull p flat post r2 w3)))"

definition ch_read ::
  "('o, 'c) flume \<Rightarrow> ('o, 'i, 'e, 'r, ('o, 'c, 'x) cells_scheme) channel
    \<Rightarrow> ('o option, (queue_error, 'e) either_or, 'r, ('o, 'c, 'x) cells_scheme) effect" where
  "ch_read fl ch = new_async (\<lambda>r w. case ch of
     Queue_channel q _ p flat post \<Rightarrow> map_option (\<lambda>(v, w'). (Ok v, r, w')) (read_queue fl q p flat post w)
   | Sink_accum inner \<Rightarrow> map_option (\<lambda>(v, w'). (Ok v, r, w'))
       (read_queue fl (sa_q inner) (sa_pending inner) (sa_flat_map_out inner) (sa_post_read inner) w)
   | From_stream pull p flat post \<Rightarrow> map_option (\<lambda>(res, r', w').
       (case res of Inl e \<Rightarrow> Err (OrRight e) | Inr v \<Rightarrow> Ok v, r', w')) (read_stream pull p flat post r w))"

subsection \<open>Derived channels\<close>

definition ch_map_in :: "('o, 'i, 'e, 'r, 'w) channel \<Rightarrow> ('j \<Rightarrow> 'i) \<Rightarrow> ('o, 'j, 'e, 'r, 'w) channel option" where
  "ch_map_in ch f = (case ch of
     Queue_channel q map_in p flat post \<Rightarrow> Some (Queue_channel q (\<lambda>i. map_in (f i)) p flat post)
   | _ \<Rightarrow> None)"

fun ch_map_out :: "('o, 'i, 'e, 'r, 'w) channel \<Rightarrow> ('o \<Rightarrow> 'o) \<Rightarrow> ('o, 'i, 'e, 'r, 'w) channel" where
  "ch_map_out (Queue_channel q map_in p flat post) f = Queue_channel q map_in p flat (\<lambda>x. f (post x))"
| "ch_map_out (Sink_accum inner) f = Sink_accum (inner\<lparr>sa_post_read := \<lambda>x. f (sa_post_read inner x)\<rparr>)"
| "ch_map_out (From_stream pull p flat post) f = From_stream pull p flat (\<lambda>x. f (post x))"

definition flat_then :: "('o \<Rightarrow> 'o list) option \<Rightarrow> ('o \<Rightarrow> 'o list) \<Rightarrow> 'o \<Rightarrow> 'o list" where
  "flat_then prev f x = concat (map f (case prev of Some p \<Rightarrow> p x | None \<Rightarrow> [x]))"

fun flat_map_out :: "('o, 'i, 'e, 'r, 'w) channel \<Rightarrow> ('o \<Rightarrow> 'o list) \<Rightarrow> ('o, 'i, 'e, 'r, 'w) channel" where
  "flat_map_out (Queue_channel q map_in p flat post) f = Queue_channel q map_in p (Some (flat_then flat f)) post"
| "flat_map_out (Sink_accum inner) f = Sink_accum (inner\<lparr>sa_flat_map_out := Some (flat_then (sa_flat_map_out inner) f)\<rparr>)"
| "flat_map_out (From_stream pull p flat post) f = From_stream pull p (Some (flat_then flat f)) post"

fun pipe ::
  "('m, 'i, 'e, 'r, 'v) channel \<Rightarrow> ('o, 'm, 'f, 'r, 'w) channel \<Rightarrow> ('o, 'i, 'f, 'r, 'w) channel option" where
  "pipe (Queue_channel _ map_left _ _ post_left) (Queue_channel q map_right p flat post) =
     Some (Queue_channel q (\<lambda>i. map_right (post_left (map_left i))) p flat post)"
| "pipe _ _ = None"

subsection \<open>Writing\<close>

definition ch_write ::
  "('o, 'c) flume \<Rightarrow> ('o, 'i, 'e, 'r, ('o, 'c, 'x) cells_scheme) channel \<Rightarrow> 'i \<Rightarrow> (unit, 'n, 'r, ('o, 'c, 'x) cells_scheme) effect" where
  "ch_write fl ch value = new_async (\<lambda>r w. case ch of
     Queue_channel q map_in _ _ _ \<Rightarrow> map_option (\<lambda>w'. (Ok (), r, w')) (offer_until fl q (map_in value) w)
   | Sink_accum inner \<Rightarrow>
       let a = sa_step inner (accs w (sa_acc inner)) value;
           w1 = w\<lparr>accs := (accs w)(sa_acc inner := a)\<rparr> in
       map_option (\<lambda>w'. (Ok (), r, w')) (offer_until fl (sa_q inner) (sa_post_read inner a) w1)
   | From_stream _ _ _ _ \<Rightarrow> Some (Ok (), r, w))"

partial_function (option) collect_channel ::
  "('o option, 'e, 'r, 'w) effect \<Rightarrow> 'o list \<Rightarrow> 'r \<Rightarrow> 'w \<Rightarrow> (('o list, 'e) result \<times> 'r \<times> 'w) option" where
  "collect_channel rd out r w = (case rd r w of
     None \<Rightarrow> None
   | Some (Inl e, r', w') \<Rightarrow> Some (Err e, r', w')
   | Some (Inr None, r', w') \<Rightarrow> Some (Ok out, r', w')
   | Some (Inr (Some x), r', w') \<Rightarrow> collect_channel rd (out @ [x]) r' w')"

definition from_channel ::
  "('o, 'c) flume \<Rightarrow> ('o, 'i, 'e, 'r, ('o, 'c, 'x) cells_scheme) channel
    \<Rightarrow> ('o, (queue_error, 'e) either_or, 'r, ('o, 'c, 'x) cells_scheme) stream" where
  "from_channel fl ch = stream_new (collect_channel (ch_read fl ch) [])"

definition to_stream ::
  "('o, 'c) flume \<Rightarrow> ('o, 'i, 'e, 'r, ('o, 'c, 'x) cells_scheme) channel
    \<Rightarrow> ('o, (queue_error, 'e) either_or, 'r, ('o, 'c, 'x) cells_scheme) stream" where
  "to_stream fl ch = from_channel fl ch"

section \<open>Sinks\<close>

record ('a, 'i, 'e, 'r, 'w) sink =
  driver :: "('i, 'e, 'r, 'w) stream \<Rightarrow> ('a, 'e, 'r, 'w) effect"
  fold_of :: "('a \<times> ('a \<Rightarrow> 'i \<Rightarrow> 'a)) option"

definition sink_run ::
  "('a, 'i, 'e, 'r, 'w) sink \<Rightarrow> ('i, 'e, 'r, 'w) stream \<Rightarrow> ('a, 'e, 'r, 'w) effect" where
  "sink_run s stream = driver s stream"

definition from_driver ::
  "(('i, 'e, 'r, 'w) stream \<Rightarrow> ('a, 'e, 'r, 'w) effect) \<Rightarrow> ('a, 'i, 'e, 'r, 'w) sink" where
  "from_driver d = \<lparr>driver = d, fold_of = None\<rparr>"

definition consume_sink_accum_stream ::
  "('o, 'c) flume \<Rightarrow> ('r \<Rightarrow> ('o, 'c, 'x) cells_scheme \<Rightarrow> bool) \<Rightarrow> ('o, 'i) sink_accum_inner
    \<Rightarrow> ('i, 'e, 'r, ('o, 'c, 'x) cells_scheme) stream \<Rightarrow> ('o, 'e, 'r, ('o, 'c, 'x) cells_scheme) effect" where
  "consume_sink_accum_stream fl intr inner stream =
     (let ch = Sink_accum inner :: ('o, 'i, 'e, 'r, ('o, 'c, 'x) cells_scheme) channel in
      flat_map (new_async (pull_loop intr (each_effect (\<lambda>_ x. ch_write fl ch x)) () stream)) (\<lambda>_. fold_state ch))"

definition consume_stream ::
  "('o, 'c) flume \<Rightarrow> ('r \<Rightarrow> ('o, 'c, 'x) cells_scheme \<Rightarrow> bool) \<Rightarrow> ('o, 'i, 'e, 'r, ('o, 'c, 'x) cells_scheme) channel
    \<Rightarrow> ('i, 'e, 'r, ('o, 'c, 'x) cells_scheme) stream \<Rightarrow> ('o, 'e, 'r, ('o, 'c, 'x) cells_scheme) effect option" where
  "consume_stream fl intr ch stream =
     map_option (\<lambda>inner. consume_sink_accum_stream fl intr inner stream) (sink_accum_inner ch)"

definition fold_left ::
  "('a, 'c) flume \<Rightarrow> ('r \<Rightarrow> ('a, 'c, 'x) cells_scheme \<Rightarrow> bool) \<Rightarrow> 'c \<Rightarrow> 'a \<Rightarrow> ('a \<Rightarrow> 'i \<Rightarrow> 'a) \<Rightarrow> ('a, 'c, 'x) cells_scheme
    \<Rightarrow> (('a, 'i, 'e, 'r, ('a, 'c, 'x) cells_scheme) sink \<times> ('a, 'c, 'x) cells_scheme) option" where
  "fold_left fl intr new_unbounded init f w =
     (case from_fold new_unbounded init f w :: ('a, 'i, 'e, 'r, ('a, 'c, 'x) cells_scheme) channel \<times> _ of (ch, w') \<Rightarrow>
        map_option (\<lambda>st. (\<lparr>driver = consume_sink_accum_stream fl intr st, fold_of = Some (init, f)\<rparr>, w')) (sink_accum_inner ch))"

definition sink_zip ::
  "('a \<times> 'b, 'c) flume \<Rightarrow> ('r \<Rightarrow> ('a \<times> 'b, 'c, 'x) cells_scheme \<Rightarrow> bool) \<Rightarrow> 'c \<Rightarrow> ('a, 'i, 'e, 'r, 'v) sink \<Rightarrow> ('b, 'i, 'e, 'r, 'u) sink
    \<Rightarrow> ('a \<times> 'b, 'c, 'x) cells_scheme
    \<Rightarrow> (('a \<times> 'b, 'i, 'e, 'r, ('a \<times> 'b, 'c, 'x) cells_scheme) sink \<times> ('a \<times> 'b, 'c, 'x) cells_scheme) option" where
  "sink_zip fl intr new_unbounded s other w = (case (fold_of s, fold_of other) of
     (Some (ia, fa), Some (ib, fb)) \<Rightarrow> fold_left fl intr new_unbounded (ia, ib) (\<lambda>(a, b) x. (fa a x, fb b x)) w
   | _ \<Rightarrow> None)"

definition from_sink ::
  "'c \<Rightarrow> ('o, 'i, 'e, 'r, ('o, 'c, 'x) cells_scheme) sink \<Rightarrow> ('o, 'c, 'x) cells_scheme
    \<Rightarrow> (('o, 'i, 'e, 'r, ('o, 'c, 'x) cells_scheme) channel \<times> ('o, 'c, 'x) cells_scheme) option" where
  "from_sink new_unbounded s w = (case fold_of s of
     Some (init, f) \<Rightarrow> Some (from_fold new_unbounded init f w)
   | None \<Rightarrow> None)"

definition sink_collect ::
  "('i list, 'c) flume \<Rightarrow> ('r \<Rightarrow> ('i list, 'c, 'x) cells_scheme \<Rightarrow> bool) \<Rightarrow> 'c \<Rightarrow> ('i list, 'c, 'x) cells_scheme
    \<Rightarrow> (('i list, 'i, 'e, 'r, ('i list, 'c, 'x) cells_scheme) sink \<times> ('i list, 'c, 'x) cells_scheme) option" where
  "sink_collect fl intr new_unbounded w = fold_left fl intr new_unbounded [] (\<lambda>v x. v @ [x]) w"

definition collect_all_while ::
  "('r \<Rightarrow> 'w \<Rightarrow> bool) \<Rightarrow> ('i \<Rightarrow> bool) \<Rightarrow> ('i list, 'i, 'e, 'r, 'w) sink" where
  "collect_all_while intr pred = \<lparr>driver = \<lambda>stream. new_async (pull_loop intr
     (\<lambda>out c. succeed (each (\<lambda>out x. if \<not> pred x then (out, False) else (out @ [x], True)) out c)) [] stream), fold_of = None\<rparr>"

definition collect_all_until ::
  "('r \<Rightarrow> 'w \<Rightarrow> bool) \<Rightarrow> ('i \<Rightarrow> bool) \<Rightarrow> ('i list, 'i, 'e, 'r, 'w) sink" where
  "collect_all_until intr pred = \<lparr>driver = \<lambda>stream. new_async (pull_loop intr
     (\<lambda>out c. succeed (each (\<lambda>out x. if pred x then (out, False) else (out @ [x], True)) out c)) [] stream), fold_of = None\<rparr>"

definition sink_drain ::
  "(unit, 'c) flume \<Rightarrow> ('r \<Rightarrow> (unit, 'c, 'x) cells_scheme \<Rightarrow> bool) \<Rightarrow> 'c \<Rightarrow> (unit, 'c, 'x) cells_scheme
    \<Rightarrow> ((unit, 'i, 'e, 'r, (unit, 'c, 'x) cells_scheme) sink \<times> (unit, 'c, 'x) cells_scheme) option" where
  "sink_drain fl intr new_unbounded w = fold_left fl intr new_unbounded () (\<lambda>_ _. ()) w"

definition to_queue ::
  "('i, 'c) flume \<Rightarrow> ('r \<Rightarrow> ('i, 'c, 'x) cells_scheme \<Rightarrow> bool) \<Rightarrow> nat \<Rightarrow> (unit, 'i, 'e, 'r, ('i, 'c, 'x) cells_scheme) sink" where
  "to_queue fl intr q = \<lparr>driver = \<lambda>stream. new_async (pull_loop intr
     (each_effect (\<lambda>_ x. new_async (\<lambda>r w. Some (Ok (), r, snd (offer_at fl q x w))))) () stream), fold_of = None\<rparr>"

definition collect_to_map ::
  "('k, 'v, 'm) im_hash_map \<Rightarrow> ('m, 'c) flume \<Rightarrow> ('r \<Rightarrow> ('m, 'c, 'x) cells_scheme \<Rightarrow> bool) \<Rightarrow> 'c \<Rightarrow> ('m, 'c, 'x) cells_scheme
    \<Rightarrow> (('m, 'k \<times> 'v, 'e, 'r, ('m, 'c, 'x) cells_scheme) sink \<times> ('m, 'c, 'x) cells_scheme) option" where
  "collect_to_map im fl intr new_unbounded w =
     fold_left fl intr new_unbounded (hash_empty im) (\<lambda>m (k, v). hash_set im m k v) w"

definition to_sink ::
  "('o, 'c) flume \<Rightarrow> ('o, 'i, 'e, 'r, ('o, 'c, 'x) cells_scheme) channel
    \<Rightarrow> (unit, 'i, queue_error, 'r, ('o, 'c, 'x) cells_scheme) sink option" where
  "to_sink fl ch = (case ch of
     Queue_channel q map_in _ _ _ \<Rightarrow> Some (from_driver (\<lambda>stream. new_async (pull_loop never
       (each_effect (\<lambda>_ x. new_async (\<lambda>r w. map_option (\<lambda>w'. (Ok (), r, w')) (offer_until fl q (map_in x) w)))) () stream)))
   | _ \<Rightarrow> None)"

section \<open>Queue channels\<close>

record ('o, 'i) queue_channel =
  qc_q :: nat
  qc_map_in :: "'i \<Rightarrow> 'o"
  qc_pending :: nat
  qc_flat_map_out :: "('o \<Rightarrow> 'o list) option"
  qc_post_read :: "'o \<Rightarrow> 'o"

definition qc_from_queue_and_map ::
  "nat \<Rightarrow> ('i \<Rightarrow> 'o) \<Rightarrow> ('o, 'c, 'x) cells_scheme \<Rightarrow> ('o, 'i) queue_channel \<times> ('o, 'c, 'x) cells_scheme" where
  "qc_from_queue_and_map q map_in w = (let p = next_cell w in
     (\<lparr>qc_q = q, qc_map_in = map_in, qc_pending = p, qc_flat_map_out = None, qc_post_read = \<lambda>x. x\<rparr>,
      w\<lparr>pendings := (pendings w)(p := []), next_cell := Suc p\<rparr>))"

definition qc_shutdown :: "('o, 'i) queue_channel \<Rightarrow> (unit, 'n, unit, ('o, 'c, 'x) cells_scheme) effect" where
  "qc_shutdown ch = new_async (\<lambda>r w.
     Some (Ok (), r, w\<lparr>queues := (queues w)(qc_q ch := q_shutdown (queues w (qc_q ch)))\<rparr>))"

definition qc_read ::
  "('o, 'c) flume \<Rightarrow> ('o, 'i) queue_channel \<Rightarrow> ('o option, queue_error, 'r, ('o, 'c, 'x) cells_scheme) effect" where
  "qc_read fl ch = new_async (\<lambda>r w. map_option (\<lambda>(v, w'). (Ok v, r, w'))
     (read_queue fl (qc_q ch) (qc_pending ch) (qc_flat_map_out ch) (qc_post_read ch) w))"

definition qc_write ::
  "('o, 'c) flume \<Rightarrow> ('o, 'i) queue_channel \<Rightarrow> 'i \<Rightarrow> (unit, 'n, 'r, ('o, 'c, 'x) cells_scheme) effect" where
  "qc_write fl ch value = new_async (\<lambda>r w. map_option (\<lambda>w'. (Ok (), r, w')) (offer_until fl (qc_q ch) (qc_map_in ch value) w))"

definition qc_duplex_unbounded ::
  "'c \<Rightarrow> ('o, 'c, 'x) cells_scheme \<Rightarrow> ('o, 'o) queue_channel \<times> ('o, 'c, 'x) cells_scheme" where
  "qc_duplex_unbounded new_unbounded w = (let q = next_cell w in
     qc_from_queue_and_map q (\<lambda>x. x) (w\<lparr>queues := (queues w)(q := q_unbounded new_unbounded), next_cell := Suc q\<rparr>))"

definition from_duplex_queue_channel ::
  "('o, 'c) flume \<Rightarrow> ('o, 'o) queue_channel \<Rightarrow> ('o, queue_error, 'r, ('o, 'c, 'x) cells_scheme) stream" where
  "from_duplex_queue_channel fl ch = stream_new (collect_channel (qc_read fl ch) [])"

definition qc_to_stream ::
  "('o, 'c) flume \<Rightarrow> ('o, 'o) queue_channel \<Rightarrow> ('o, queue_error, 'r, ('o, 'c, 'x) cells_scheme) stream" where
  "qc_to_stream fl ch = from_duplex_queue_channel fl ch"

section \<open>Streams behind a channel\<close>

datatype backpressure_policy = Bounded_block | Drop_newest | Drop_oldest | Fail_policy

datatype backpressure_decision = Enqueue | Block | Drop_newest_item | Drop_oldest_item | Fail_offer

definition backpressure_decision :: "backpressure_policy \<Rightarrow> nat \<Rightarrow> nat \<Rightarrow> backpressure_decision" where
  "backpressure_decision policy queue_len cap =
     (if queue_len < max cap 1 then Enqueue
      else (case policy of
        Bounded_block \<Rightarrow> Block
      | Drop_newest \<Rightarrow> Drop_newest_item
      | Drop_oldest \<Rightarrow> Drop_oldest_item
      | Fail_policy \<Rightarrow> Fail_offer))"

datatype stream_channel_full = Stream_channel_full

record stream_sender =
  sn_queue :: nat
  sn_policy :: backpressure_policy

definition stream_from_channel_with_policy ::
  "(('a, 'e) channel_message, 'c) flume \<Rightarrow> (nat \<Rightarrow> 'c) \<Rightarrow> nat \<Rightarrow> backpressure_policy \<Rightarrow> (('a, 'e) channel_message, 'c, 'x) cells_scheme
    \<Rightarrow> ('a, 'e, 'r, (('a, 'e) channel_message, 'c, 'x) cells_scheme) stream \<times> stream_sender \<times> (('a, 'e) channel_message, 'c, 'x) cells_scheme" where
  "stream_from_channel_with_policy fl new_bounded len policy w =
     (let cap = max len 1; n = next_cell w;
          queue = (case policy of
              Bounded_block \<Rightarrow> q_bounded new_bounded cap
            | Fail_policy \<Rightarrow> q_bounded new_bounded cap
            | Drop_newest \<Rightarrow> q_dropping new_bounded cap
            | Drop_oldest \<Rightarrow> q_sliding cap) in
      (Stream (Channel_state (take_at fl n) [] False) None, \<lparr>sn_queue = n, sn_policy = policy\<rparr>,
       w\<lparr>queues := (queues w)(n := queue), next_cell := Suc n\<rparr>))"

definition stream_from_channel ::
  "(('a, 'e) channel_message, 'c) flume \<Rightarrow> (nat \<Rightarrow> 'c) \<Rightarrow> nat \<Rightarrow> (('a, 'e) channel_message, 'c, 'x) cells_scheme
    \<Rightarrow> ('a, 'e, 'r, (('a, 'e) channel_message, 'c, 'x) cells_scheme) stream \<times> stream_sender \<times> (('a, 'e) channel_message, 'c, 'x) cells_scheme" where
  "stream_from_channel fl new_bounded len w = stream_from_channel_with_policy fl new_bounded len Bounded_block w"

definition send_chunk ::
  "(('a, 'e) channel_message, 'c) flume \<Rightarrow> stream_sender \<Rightarrow> 'a list
    \<Rightarrow> (unit, stream_channel_full, unit, (('a, 'e) channel_message, 'c, 'x) cells_scheme) effect" where
  "send_chunk fl sender chunk = new_async (\<lambda>r w.
     let msg = Chunk_msg chunk in
     case sn_policy sender of
       Bounded_block \<Rightarrow> map_option (\<lambda>w'. (Ok (), r, w')) (offer_until fl (sn_queue sender) msg w)
     | Fail_policy \<Rightarrow> (case offer_at fl (sn_queue sender) msg w of (b, w') \<Rightarrow>
         Some (if b then Ok () else Err Stream_channel_full, r, w'))
     | _ \<Rightarrow> Some (Ok (), r, snd (offer_at fl (sn_queue sender) msg w)))"

definition end_stream ::
  "(('a, 'e) channel_message, 'c) flume \<Rightarrow> stream_sender \<Rightarrow> (unit, 'n, unit, (('a, 'e) channel_message, 'c, 'x) cells_scheme) effect" where
  "end_stream fl sender = new_async (\<lambda>r w. map_option (\<lambda>w'. (Ok (), r, w')) (offer_until fl (sn_queue sender) End_msg w))"

definition sender_fail ::
  "(('a, 'e) channel_message, 'c) flume \<Rightarrow> stream_sender \<Rightarrow> 'e \<Rightarrow> (('a, 'e) channel_message, 'c, 'x) cells_scheme
    \<Rightarrow> (bool \<times> (('a, 'e) channel_message, 'c, 'x) cells_scheme) option" where
  "sender_fail fl sender error w = map_option (\<lambda>w'. (True, w')) (offer_until fl (sn_queue sender) (Fail_msg error) w)"

section \<open>Queues in cells\<close>

text \<open>The number of values a queue holds at most.\<close>

definition limit :: "('c \<Rightarrow> nat option) \<Rightarrow> ('a, 'c) queue \<Rightarrow> nat option" where
  "limit bound q = (case q of Flume f \<Rightarrow> bound (chan f) | Sliding s \<Rightarrow> Some (sl_capacity s))"

definition has_room :: "('c \<Rightarrow> 'a list) \<Rightarrow> ('c \<Rightarrow> nat option) \<Rightarrow> ('a, 'c) queue \<Rightarrow> nat \<Rightarrow> bool" where
  "has_room content bound q k \<longleftrightarrow> (case limit bound q of None \<Rightarrow> True | Some n \<Rightarrow> length (buffered content q) + k \<le> n)"

lemma offer_view:
  assumes laws: "flume_laws fl content bound" and q: "accepting q" "has_room content bound q (Suc k)"
  shows "\<exists>q'. q_offer fl q v = (True, q') \<and> buffered content q' = buffered content q @ [v]
    \<and> accepting q' \<and> has_room content bound q' k \<and> limit bound q' = limit bound q"
proof (cases q)
  case (Flume f)
  from laws q have "\<not> fl_is_full fl (chan f)"
    by (auto simp: flume_laws_def Flume has_room_def limit_def buffered_def)
  with laws obtain c where "fl_try_send fl (chan f) v = Some c" "content c = content (chan f) @ [v]" "bound c = bound (chan f)"
    unfolding flume_laws_def by blast
  with q show ?thesis
    by (auto simp: Flume q_offer_def flume_offer_def accepting_def has_room_def limit_def buffered_def split: option.splits)
next
  case (Sliding s)
  with q show ?thesis
    by (auto simp: q_offer_def sliding_offer_def sliding_offer_or_retain_def trim_drop accepting_def has_room_def limit_def buffered_def)
qed

lemma offer_refused:
  assumes "flume_laws fl content bound" "\<not> accepting q"
  shows "q_offer fl q v = (False, q)"
  using assms by (cases q)
    (simp_all add: q_offer_def flume_offer_def sliding_offer_def sliding_offer_or_retain_def accepting_def)

text \<open>A loop around \<open>offer\<close> on a queue that was shut down does not end.\<close>

lemma offer_until_refused:
  assumes "offer_at fl q v w = (False, w)"
  shows "offer_until fl q v w = None"
proof (rule ccontr)
  assume "offer_until fl q v w \<noteq> None"
  then obtain y where y: "offer_until fl q v w = Some y" by blast
  have "\<not> (fl = fl \<and> q = q \<and> v = v \<and> w = w)"
    by (rule offer_until.raw_induct [OF _ y, where P = "\<lambda>fl' q' v' w' _. \<not> (fl' = fl \<and> q' = q \<and> v' = v \<and> w' = w)"])
      (use assms in \<open>auto split: if_splits prod.splits\<close>)
  then show False by simp
qed

lemma take_at_view:
  assumes "flume_laws fl content bound"
  shows "buffered content (queues w q) = x # xs \<Longrightarrow> \<exists>q'. take_at fl q w = Some (Ok x, w\<lparr>queues := (queues w)(q := q')\<rparr>)
      \<and> buffered content q' = xs \<and> accepting q' = accepting (queues w q)"
    and "buffered content (queues w q) = [] \<Longrightarrow> \<not> accepting (queues w q) \<Longrightarrow> take_at fl q w = Some (Err Disconnected, w)"
proof -
  show "\<exists>q'. take_at fl q w = Some (Ok x, w\<lparr>queues := (queues w)(q := q')\<rparr>)
      \<and> buffered content q' = xs \<and> accepting q' = accepting (queues w q)"
    if "buffered content (queues w q) = x # xs"
    using try_recv_view(3) [OF assms that] by (auto simp: take_at_def q_take_def recv_view)
  show "take_at fl q w = Some (Err Disconnected, w)"
    if "buffered content (queues w q) = []" "\<not> accepting (queues w q)"
    using try_recv_view(2) [OF assms that] by (simp add: take_at_def q_take_def recv_view)
qed

lemma offer_until_accepts:
  "q_offer fl (queues w q) v = (True, q') \<Longrightarrow> offer_until fl q v w = Some (w\<lparr>queues := (queues w)(q := q')\<rparr>)"
  by (subst offer_until.simps) (simp add: offer_at_def)

lemma offer_until_view:
  assumes "flume_laws fl content bound" "accepting (queues w q)" "has_room content bound (queues w q) (Suc k)"
  shows "\<exists>q'. offer_until fl q v w = Some (w\<lparr>queues := (queues w)(q := q')\<rparr>)
    \<and> buffered content q' = buffered content (queues w q) @ [v] \<and> accepting q' \<and> has_room content bound q' k
    \<and> limit bound q' = limit bound (queues w q)"
  using offer_view [OF assms, of v] by (auto simp: offer_until_accepts)

section \<open>What a channel delivers\<close>

text \<open>The outputs that a queue-backed channel still has, before \<open>post_read\<close>.\<close>

definition expansion :: "('o \<Rightarrow> 'o list) option \<Rightarrow> 'o \<Rightarrow> 'o list" where
  "expansion flat x = (case flat of Some f \<Rightarrow> f x | None \<Rightarrow> [x])"

definition outputs ::
  "('c \<Rightarrow> 'o list) \<Rightarrow> nat \<Rightarrow> nat \<Rightarrow> ('o \<Rightarrow> 'o list) option \<Rightarrow> ('o, 'c, 'x) cells_scheme \<Rightarrow> 'o list" where
  "outputs content q p flat w = pendings w p @ concat (map (expansion flat) (buffered content (queues w q)))"

lemma read_queue_outputs:
  assumes laws: "flume_laws fl content bound" and "\<not> accepting (queues w q)"
  shows "\<exists>w'. read_queue fl q p flat post w =
       Some (case outputs content q p flat w of [] \<Rightarrow> None | x # _ \<Rightarrow> Some (post x), w')
     \<and> outputs content q p flat w' = tl (outputs content q p flat w) \<and> \<not> accepting (queues w' q)"
  using assms(2)
proof (induction "buffered content (queues w q)" arbitrary: w)
  case Nil
  then show ?case using take_at_view(2) [OF laws, of w q]
    by (subst read_queue.simps) (auto simp: drain_pending_def outputs_def split: list.splits)
next
  case (Cons x xs)
  show ?case
  proof (cases "pendings w p")
    case (Cons y ys)
    with Cons.prems show ?thesis by (subst read_queue.simps) (simp add: drain_pending_def outputs_def)
  next
    case Nil
    obtain q' where take: "take_at fl q w = Some (Ok x, w\<lparr>queues := (queues w)(q := q')\<rparr>)"
      and q': "buffered content q' = xs" "\<not> accepting q'"
      using take_at_view(1) [OF laws, of w q x xs] Cons.hyps(2) Cons.prems by auto
    let ?w = "w\<lparr>queues := (queues w)(q := q')\<rparr>"
    have out: "outputs content q p flat w = expansion flat x @ outputs content q p flat ?w"
      using Nil q' Cons.hyps(2) [symmetric] by (simp add: outputs_def)
    show ?thesis
    proof (cases "expansion flat x")
      case empty: Nil
      have "read_queue fl q p flat post w = read_queue fl q p flat post ?w"
        by (subst read_queue.simps) (use Nil take empty in \<open>simp add: drain_pending_def expand_def expansion_def\<close>)
      with Cons.hyps(1) [of ?w] q' out empty show ?thesis by simp
    next
      case (Cons z zs)
      then show ?thesis using Nil take out q'
        by (subst read_queue.simps) (simp add: drain_pending_def expand_def expansion_def outputs_def push_pending_def)
    qed
  qed
qed

lemma collect_outputs:
  assumes laws: "flume_laws fl content bound" and "\<not> accepting (queues w q)"
    and rd: "\<And>w. rd r w = map_option (\<lambda>(v, w'). (Ok v, r, w')) (read_queue fl q p flat post w)"
  shows "\<exists>w'. collect_channel rd out r w = Some (Ok (out @ map post (outputs content q p flat w)), r, w')
    \<and> outputs content q p flat w' = []"
  using assms(2)
proof (induction "outputs content q p flat w" arbitrary: w out)
  case Nil
  with read_queue_outputs [OF laws Nil(2), of p flat post] show ?case
    by (subst collect_channel.simps) (auto simp: rd)
next
  case (Cons x xs)
  from read_queue_outputs [OF laws Cons.prems, of p flat post] Cons.hyps(2) [symmetric] obtain w' where
    "read_queue fl q p flat post w = Some (Some (post x), w')" "outputs content q p flat w' = xs" "\<not> accepting (queues w' q)"
    by auto
  with Cons.hyps(1) [of w' "out @ [post x]"] Cons.hyps(2) [symmetric] show ?case
    by (subst collect_channel.simps) (simp add: rd)
qed

text \<open>A stream whose items come from one effect that changes the shared state.\<close>

lemma run_collect_new:
  fixes f :: "('a list, 'e, 'r, 'w) effect"
  assumes "f r w = Some (Ok xs, r', w')"
  shows "run_collect never (stream_new f) r w = Some (Ok xs, r', w')"
proof -
  have "poll_next_chunk (stream_new f) r w = poll_next_chunk (Stream (Buffered xs) None) r' w'"
    by (simp add: stream_new_def poll_simps assms)
  then have "run_collect never (stream_new f) r w = run_collect never (Stream (Buffered xs) None) r' w'"
    unfolding run_collect_def new_async_def by (subst (1 2) pull_loop.simps) simp
  then show ?thesis using collects [OF denotes_buffered] by simp
qed

text \<open>Writing a list of values.\<close>

abbreviation write_all ::
  "('i \<Rightarrow> (unit, 'n, 'r, 'w) effect) \<Rightarrow> 'i list \<Rightarrow> (unit \<times> bool, 'n, 'r, 'w) effect" where
  "write_all wr vs \<equiv> each_effect (\<lambda>_. wr) () vs"

lemma write_all_Cons: "wr v r w = Some (Ok (), r', w') \<Longrightarrow> write_all wr (v # vs) r w = write_all wr vs r' w'"
  by (simp add: flat_map_def new_async_def run_def)

lemma write_all_queue:
  assumes laws: "flume_laws fl content bound"
    and wr: "\<And>v w q'. q_offer fl (queues w q) (m v) = (True, q') \<Longrightarrow> wr v r w = Some (Ok (), r, w\<lparr>queues := (queues w)(q := q')\<rparr>)"
    and "accepting (queues w q)" "has_room content bound (queues w q) (length vs)"
  shows "\<exists>q'. write_all wr vs r w = Some (Ok ((), True), r, w\<lparr>queues := (queues w)(q := q')\<rparr>)
    \<and> buffered content q' = buffered content (queues w q) @ map m vs \<and> accepting q'
    \<and> limit bound q' = limit bound (queues w q)"
  using assms(3,4)
proof (induction vs arbitrary: w)
  case Nil
  then show ?case by (intro exI [of _ "queues w q"]) simp
next
  case (Cons v vs)
  from offer_view [OF laws Cons.prems(1), of "length vs" "m v"] Cons.prems(2) obtain q' where
    o: "q_offer fl (queues w q) (m v) = (True, q')"
    and q': "buffered content q' = buffered content (queues w q) @ [m v]" "accepting q'" "has_room content bound q' (length vs)"
      "limit bound q' = limit bound (queues w q)" by auto
  let ?w = "w\<lparr>queues := (queues w)(q := q')\<rparr>"
  from o have "write_all wr (v # vs) r w = write_all wr vs r ?w" by (intro write_all_Cons wr)
  moreover have "accepting (queues ?w q)" "has_room content bound (queues ?w q) (length vs)" using q' by simp_all
  from Cons.IH [OF this] obtain q'' where "write_all wr vs r ?w = Some (Ok ((), True), r, ?w\<lparr>queues := (queues ?w)(q := q'')\<rparr>)"
    "buffered content q'' = buffered content (queues ?w q) @ map m vs" "accepting q''" "limit bound q'' = limit bound (queues ?w q)"
    by blast
  moreover have "?w\<lparr>queues := (queues ?w)(q := q'')\<rparr> = w\<lparr>queues := (queues w)(q := q'')\<rparr>" by simp
  ultimately have "write_all wr (v # vs) r w = Some (Ok ((), True), r, w\<lparr>queues := (queues w)(q := q'')\<rparr>)" by (simp only:)
  moreover have "buffered content q'' = buffered content (queues w q) @ map m (v # vs)" "limit bound q'' = limit bound (queues w q)"
    using \<open>buffered content q'' = _\<close> \<open>limit bound q'' = _\<close> q' by simp_all
  ultimately show ?case using \<open>accepting q''\<close> by blast
qed

lemma outputs_queues: "pendings w p = P \<Longrightarrow> outputs content q p flat (w\<lparr>queues := (queues w)(q := q')\<rparr>) =
    P @ concat (map (expansion flat) (buffered content q'))"
  by (simp add: outputs_def)

text \<open>
  C37. A queue-backed channel delivers what is written to it. On a channel whose queue is open and
  unbounded, writing any values returns; once the queue is shut down, the channel's stream collects,
  in order, the outputs that were pending, then the expansion by \<open>flat_map_out\<close> of what was queued
  before and of the written values after \<open>map_in\<close>, everything mapped by \<open>map_out\<close>. Nothing is lost
  and nothing is delivered twice.
\<close>

theorem channel_delivers:
  fixes ch :: "('o, 'i, 'e, 'r, ('o, 'c, 'x) cells_scheme) channel"
  assumes laws: "flume_laws fl content bound" and ch: "ch = Queue_channel q m p flat post"
    and q: "accepting (queues w q)" "limit bound (queues w q) = None"
  shows "\<exists>w1 w2. write_all (ch_write fl ch :: _ \<Rightarrow> (unit, unit, _, _) effect) vs r w = Some (Ok ((), True), r, w1)
    \<and> run_collect never (to_stream fl ch) r (w1\<lparr>queues := (queues w1)(q := q_shutdown (queues w1 q))\<rparr>)
      = Some (Ok (map post (pendings w p @ concat (map (expansion flat) (buffered content (queues w q) @ map m vs)))), r, w2)"
proof -
  have "has_room content bound (queues w q) (length vs)" using q(2) by (simp add: has_room_def)
  from write_all_queue [OF laws _ q(1) this, where wr = "ch_write fl ch :: _ \<Rightarrow> (unit, unit, _, _) effect" and m = m and r = r] obtain q' where
    wr: "write_all (ch_write fl ch :: _ \<Rightarrow> (unit, unit, _, _) effect) vs r w = Some (Ok ((), True), r, w\<lparr>queues := (queues w)(q := q')\<rparr>)"
    and b: "buffered content q' = buffered content (queues w q) @ map m vs"
    by (auto simp: ch ch_write_def new_async_def offer_until_accepts)
  let ?w = "w\<lparr>queues := (queues w)(q := q_shutdown q')\<rparr>"
  have rd: "ch_read fl ch r w = map_option (\<lambda>(v, w'). (Ok v, r, w')) (read_queue fl q p flat post w)" for w
    by (simp add: ch ch_read_def new_async_def)
  from collect_outputs [OF laws, of ?w q "ch_read fl ch" r p flat post "[]"] rd obtain w2 where
    "collect_channel (ch_read fl ch) [] r ?w = Some (Ok (map post (outputs content q p flat ?w)), r, w2)" by auto
  then have col: "run_collect never (to_stream fl ch) r ?w = Some (Ok (map post (outputs content q p flat ?w)), r, w2)"
    unfolding to_stream_def from_channel_def by (rule run_collect_new)
  let ?w1 = "w\<lparr>queues := (queues w)(q := q')\<rparr>"
  have shut: "?w1\<lparr>queues := (queues ?w1)(q := q_shutdown (queues ?w1 q))\<rparr> = ?w" by simp
  show ?thesis
  proof (rule exI [of _ ?w1], rule exI [of _ w2], unfold shut, intro conjI)
    show "write_all (ch_write fl ch :: _ \<Rightarrow> (unit, unit, _, _) effect) vs r w = Some (Ok ((), True), r, ?w1)" by (rule wr)
    show "run_collect never (to_stream fl ch) r ?w = Some (Ok (map post (pendings w p
        @ concat (map (expansion flat) (buffered content (queues w q) @ map m vs)))), r, w2)"
      using col unfolding outputs_queues [OF refl] shutdown_view b .
  qed
qed

lemma channel_delivers_witness:
  "\<exists>w1 w2. write_all (ch_write list_channel (Queue_channel 0 (\<lambda>x. x + 1) 0 None (\<lambda>x. x) :: (int, int, unit, unit, _) channel) :: _ \<Rightarrow> (unit, unit, _, _) effect) [1, 2] ()
       \<lparr>queues = \<lambda>_. q_unbounded (None, []), pendings = \<lambda>_. [], accs = \<lambda>_. 0, next_cell = 1\<rparr> = Some (Ok ((), True), (), w1)
    \<and> run_collect never (to_stream list_channel (Queue_channel 0 (\<lambda>x. x + 1) 0 None (\<lambda>x. x) :: (int, int, unit, unit, _) channel)) ()
        (w1\<lparr>queues := (queues w1)(0 := q_shutdown (queues w1 0))\<rparr>) = Some (Ok [2, 3], (), w2)"
  using channel_delivers [OF list_channel_laws refl, of
      "\<lparr>queues = \<lambda>_. q_unbounded (None, []), pendings = \<lambda>_. [], accs = \<lambda>_. 0, next_cell = 1\<rparr>" 0 "\<lambda>x :: int. x + 1" 0 None "\<lambda>x. x" "[1, 2]" "()"]
  by (simp add: q_unbounded_def from_flume_def accepting_def limit_def buffered_def expansion_def del: each_effect.simps)

text \<open>
  Writing to a channel whose queue was shut down never returns: the loop around \<open>offer\<close> takes the
  refusal for a full queue. The same loop is in \<open>end_stream\<close>, in \<open>StreamSender::fail\<close> and in
  \<open>send_chunk\<close> under the blocking policy.
\<close>

theorem writes_after_shutdown_hang:
  assumes laws: "flume_laws fl content bound" and "\<not> accepting (queues w q)"
  shows "ch_write fl (Queue_channel q m p flat post) v r w = None
    \<and> qc_write fl \<lparr>qc_q = q, qc_map_in = m, qc_pending = p, qc_flat_map_out = flat, qc_post_read = post\<rparr> v r w = None"
  using offer_until_refused [of fl q "m v" w] offer_refused [OF assms, of "m v"]
  by (simp add: ch_write_def qc_write_def new_async_def offer_at_def)

text \<open>\<open>pipe\<close> writes through both input maps but forgets the \<open>flat_map_out\<close> of its left channel.\<close>

theorem pipe_forgets_expansion:
  "pipe (flat_map_out (Queue_channel q ml p flat pl) f) (Queue_channel q2 mr p2 flat2 post2)
    = pipe (Queue_channel q ml p flat pl) (Queue_channel q2 mr p2 flat2 post2)"
  by simp

text \<open>
  A channel over a stream expands only the first item of every chunk, and puts the rest of that
  expansion behind the items of the chunk it has not expanded.
\<close>

theorem stream_channel_expands_heads:
  assumes "pendings w p = []" "pull r w = Some (Ok (Some (x # xs)), r', w')" "pendings w' p = []" "f x = y # ys"
  shows "\<exists>w2. ch_read fl (flat_map_out (From_stream pull p None (\<lambda>x. x)) f) r w = Some (Ok (Some y), r', w2)
    \<and> pendings w2 p = xs @ ys"
  using assms by (simp add: ch_read_def new_async_def read_stream.simps [of pull] drain_pending_def pull_wire.simps [of pull]
    expand_def push_pending_def flat_then_def)

section \<open>Sinks\<close>

lemma each_effect_append:
  "each_effect g s (xs @ ys) = flat_map (each_effect g s xs) (\<lambda>(s', _). each_effect g s' ys)"
proof (induction xs arbitrary: s)
  case Nil
  then show ?case by (simp add: flat_map_def new_async_def run_def fun_eq_iff)
next
  case (Cons x xs)
  show ?case
    by (auto simp: Cons.IH flat_map_def new_async_def run_def fun_eq_iff split: Option.bind_split sum.split)
qed

lemma each_effect_goes_on: "each_effect g s xs r w = Some (Inr (s', go), r', w') \<Longrightarrow> go"
  by (induction xs arbitrary: s r w) (auto simp: flat_map_def new_async_def run_def split: bind_splits sum.splits)

text \<open>
  A loop that runs an effect for every item does not see the chunks: it runs the effects for the
  items in order, and then reports the failure of the stream, if there is one.
\<close>

lemma pull_effects:
  "denotes st xs err \<Longrightarrow> pull_loop never (each_effect g) s st r w =
     map_option (\<lambda>(res, r', w'). (case res of
         Inl e \<Rightarrow> Err e
       | Inr (s', _) \<Rightarrow> (case err of None \<Rightarrow> Ok s' | Some e \<Rightarrow> Err e), r', w')) (each_effect g s xs r w)"
proof (induction arbitrary: s r w rule: denotes.induct)
  case (ends st)
  from ends [of r w] show ?case by (subst pull_loop.simps) auto
next
  case (fails st e)
  from fails [of r w] show ?case by (subst pull_loop.simps) auto
next
  case (yields st c st' xs err)
  have "pull_loop never (each_effect g) s st r w = (case each_effect g s c r w of
      None \<Rightarrow> None | Some (Inl e, r2, w2) \<Rightarrow> Some (Err e, r2, w2)
    | Some (Inr (s', go), r2, w2) \<Rightarrow> if go then pull_loop never (each_effect g) s' st' r2 w2 else Some (Ok s', r2, w2))"
    by (subst pull_loop.simps) (simp add: yields.hyps(1))
  then show ?case
    using each_effect_goes_on [of g s c r w]
    by (auto simp: yields.IH each_effect_append flat_map_def new_async_def run_def split: option.splits sum.splits bind_splits)
qed

text \<open>The accumulators a fold goes through, without the initial one.\<close>

primrec prefixes :: "('a \<Rightarrow> 'i \<Rightarrow> 'a) \<Rightarrow> 'a \<Rightarrow> 'i list \<Rightarrow> 'a list" where
  "prefixes f a [] = []"
| "prefixes f a (x # xs) = f a x # prefixes f (f a x) xs"

lemma prefixes_append: "prefixes f a (xs @ ys) = prefixes f a xs @ prefixes f (foldl f a xs) ys"
  by (induction xs arbitrary: a) auto

lemma write_all_fold:
  fixes inner :: "('o, 'i) sink_accum_inner" and w :: "('o, 'c, 'x) cells_scheme"
  assumes laws: "flume_laws fl content bound" and "accepting (queues w (sa_q inner))" "limit bound (queues w (sa_q inner)) = None"
  shows "\<exists>w'. write_all (ch_write fl (Sink_accum inner :: ('o, 'i, 'e, 'r, ('o, 'c, 'x) cells_scheme) channel) :: _ \<Rightarrow> (unit, 'n, 'r, _) effect) vs r w
      = Some (Ok ((), True), r, w')
    \<and> accs w' (sa_acc inner) = foldl (sa_step inner) (accs w (sa_acc inner)) vs
    \<and> accepting (queues w' (sa_q inner)) \<and> limit bound (queues w' (sa_q inner)) = None
    \<and> buffered content (queues w' (sa_q inner)) = buffered content (queues w (sa_q inner))
        @ map (sa_post_read inner) (prefixes (sa_step inner) (accs w (sa_acc inner)) vs)"
  using assms(2,3)
proof (induction vs arbitrary: w)
  case Nil
  then show ?case by simp
next
  case (Cons v vs)
  let ?a = "sa_step inner (accs w (sa_acc inner)) v"
  let ?w = "w\<lparr>accs := (accs w)(sa_acc inner := ?a)\<rparr>"
  obtain q' where o: "offer_until fl (sa_q inner) (sa_post_read inner ?a) ?w = Some (?w\<lparr>queues := (queues w)(sa_q inner := q')\<rparr>)"
    and q': "buffered content q' = buffered content (queues w (sa_q inner)) @ [sa_post_read inner ?a]" "accepting q'" "limit bound q' = None"
    using offer_until_view [OF laws, of ?w "sa_q inner" 0 "sa_post_read inner ?a"] Cons.prems
    by (auto simp: has_room_def)
  let ?w' = "?w\<lparr>queues := (queues w)(sa_q inner := q')\<rparr>"
  have "write_all (ch_write fl (Sink_accum inner :: ('o, 'i, 'e, 'r, ('o, 'c, 'x) cells_scheme) channel) :: _ \<Rightarrow> (unit, 'n, 'r, _) effect) (v # vs) r w =
      write_all (ch_write fl (Sink_accum inner :: ('o, 'i, 'e, 'r, ('o, 'c, 'x) cells_scheme) channel) :: _ \<Rightarrow> (unit, 'n, 'r, _) effect) vs r ?w'"
    using o by (intro write_all_Cons) (simp add: ch_write_def new_async_def Let_def)
  moreover have "accepting (queues ?w' (sa_q inner))" "limit bound (queues ?w' (sa_q inner)) = None" using q' by simp_all
  note Cons.IH [OF this]
  ultimately show ?case using q' by (auto simp del: each_effect.simps)
qed

lemma consume_fold:
  fixes inner :: "('o, 'i) sink_accum_inner" and w :: "('o, 'c, 'x) cells_scheme"
    and st :: "('i, 'e, 'r, ('o, 'c, 'x) cells_scheme) stream"
  assumes laws: "flume_laws fl content bound" and q: "accepting (queues w (sa_q inner))" "limit bound (queues w (sa_q inner)) = None"
    and st: "denotes st xs None"
  shows "\<exists>w'. consume_sink_accum_stream fl never inner st r w = Some (Ok (foldl (sa_step inner) (accs w (sa_acc inner)) xs), r, w')
    \<and> accs w' (sa_acc inner) = foldl (sa_step inner) (accs w (sa_acc inner)) xs
    \<and> accepting (queues w' (sa_q inner)) \<and> limit bound (queues w' (sa_q inner)) = None
    \<and> buffered content (queues w' (sa_q inner)) = buffered content (queues w (sa_q inner))
        @ map (sa_post_read inner) (prefixes (sa_step inner) (accs w (sa_acc inner)) xs)"
proof -
  let ?wr = "ch_write fl (Sink_accum inner :: ('o, 'i, 'e, 'r, ('o, 'c, 'x) cells_scheme) channel) :: _ \<Rightarrow> (unit, 'e, 'r, _) effect"
  have "\<exists>w'. write_all ?wr xs r w = Some (Ok ((), True), r, w')
      \<and> accs w' (sa_acc inner) = foldl (sa_step inner) (accs w (sa_acc inner)) xs
      \<and> accepting (queues w' (sa_q inner)) \<and> limit bound (queues w' (sa_q inner)) = None
      \<and> buffered content (queues w' (sa_q inner)) = buffered content (queues w (sa_q inner))
        @ map (sa_post_read inner) (prefixes (sa_step inner) (accs w (sa_acc inner)) xs)"
    by (rule write_all_fold [OF laws q])
  then obtain w' where w': "write_all ?wr xs r w = Some (Ok ((), True), r, w')"
    and rest: "accs w' (sa_acc inner) = foldl (sa_step inner) (accs w (sa_acc inner)) xs"
      "accepting (queues w' (sa_q inner))" "limit bound (queues w' (sa_q inner)) = None"
      "buffered content (queues w' (sa_q inner)) = buffered content (queues w (sa_q inner))
        @ map (sa_post_read inner) (prefixes (sa_step inner) (accs w (sa_acc inner)) xs)"
    by (elim exE conjE)
  have "pull_loop never (each_effect (\<lambda>_. ?wr)) () st r w = Some (Ok (), r, w')"
    by (simp add: pull_effects [OF st] w')
  then have "consume_sink_accum_stream fl never inner st r w = Some (Ok (foldl (sa_step inner) (accs w (sa_acc inner)) xs), r, w')"
    using rest by (simp add: consume_sink_accum_stream_def Let_def flat_map_def new_async_def run_def fold_state_def)
  with rest show ?thesis by blast
qed

text \<open>
  Sinks. The sink of \<open>fold_left\<close> runs to the left fold of the stream. Its accumulator belongs to
  the sink and not to the run: a second run of a clone of the sink goes on where the first one
  ended, so that \<open>Sink::collect\<close> run twice returns the items of both streams. And every
  intermediate accumulator is kept, in a queue that nothing reads.
\<close>

theorem sink_folds:
  assumes laws: "flume_laws fl content bound" and new: "content new_unbounded = []" "bound new_unbounded = None"
    and st: "denotes st xs None" "denotes st2 ys None"
  shows "\<exists>s w0 w1 w2. fold_left fl never new_unbounded init f w = Some (s, w0)
    \<and> sink_run s st r w0 = Some (Ok (foldl f init xs), r, w1)
    \<and> sink_run s st2 r w1 = Some (Ok (foldl f init (xs @ ys)), r, w2)
    \<and> buffered content (queues w2 (next_cell w)) = prefixes f init (xs @ ys)"
proof -
  let ?n = "next_cell w"
  let ?inner = "\<lparr>sa_acc = ?n, sa_step = f, sa_q = ?n, sa_pending = ?n, sa_flat_map_out = None, sa_post_read = \<lambda>x. x\<rparr>"
  let ?s = "\<lparr>driver = consume_sink_accum_stream fl never ?inner, fold_of = Some (init, f)\<rparr>"
  let ?w = "w\<lparr>accs := (accs w)(?n := init), queues := (queues w)(?n := q_unbounded new_unbounded),
        pendings := (pendings w)(?n := []), next_cell := Suc ?n\<rparr>"
  have s: "fold_left fl never new_unbounded init f w = Some (?s, ?w)"
    by (simp add: fold_left_def from_fold_def sink_accum_inner_def Let_def)
  have "accepting (queues ?w ?n)" "limit bound (queues ?w ?n) = None" "buffered content (queues ?w ?n) = []"
    using new by (simp_all add: q_unbounded_def from_flume_def accepting_def limit_def buffered_def)
  with consume_fold [OF laws _ _ st(1), of ?w ?inner r] obtain w1 where
    w1: "consume_sink_accum_stream fl never ?inner st r ?w = Some (Ok (foldl f init xs), r, w1)"
      "accs w1 ?n = foldl f init xs" "accepting (queues w1 ?n)" "limit bound (queues w1 ?n) = None"
      "buffered content (queues w1 ?n) = prefixes f init xs" by auto
  with consume_fold [OF laws _ _ st(2), of w1 ?inner r] obtain w2 where
    w2: "consume_sink_accum_stream fl never ?inner st2 r w1 = Some (Ok (foldl f (foldl f init xs) ys), r, w2)"
      "buffered content (queues w2 ?n) = prefixes f init xs @ prefixes f (foldl f init xs) ys" by auto
  have "sink_run ?s st r ?w = Some (Ok (foldl f init xs), r, w1)" "sink_run ?s st2 r w1 = Some (Ok (foldl f init (xs @ ys)), r, w2)"
    "buffered content (queues w2 ?n) = prefixes f init (xs @ ys)"
    using w1 w2 by (simp_all add: sink_run_def prefixes_append)
  with s show ?thesis by blast
qed

lemma sink_folds_witness:
  "\<exists>s w0 w1 w2. fold_left list_channel never (None, []) [] (\<lambda>v x. v @ [x])
       \<lparr>queues = \<lambda>_. q_unbounded (None, []), pendings = \<lambda>_. [], accs = \<lambda>_. [], next_cell = 0\<rparr> = Some (s, w0)
    \<and> sink_run s (from_iterable [1, 2 :: int]) () w0 = Some (Ok [1, 2], (), w1)
    \<and> sink_run s (from_iterable [3]) () w1 = Some (Ok [1, 2, 3], (), w2)"
  using sink_folds [OF list_channel_laws, of "(None, [])" "from_iterable [1, 2 :: int]" "[1, 2]" "from_iterable [3]" "[3]" "[]" "\<lambda>v x. v @ [x]"
    "\<lparr>queues = \<lambda>_. q_unbounded (None, []), pendings = \<lambda>_. [], accs = \<lambda>_. [], next_cell = 0\<rparr>" "()"] denotes_from_iterable
  by fastforce

text \<open>
  \<open>map_out\<close> on a fold channel is applied twice: to the accumulator that \<open>write\<close> enqueues and again
  when \<open>read\<close> takes it out.
\<close>

theorem fold_channel_maps_twice:
  fixes inner :: "('o, 'i) sink_accum_inner" and w :: "('o, 'c, 'x) cells_scheme"
  assumes laws: "flume_laws fl content bound" and inner: "sa_flat_map_out inner = None" "sa_post_read inner = (\<lambda>x. x)"
    and w: "accepting (queues w (sa_q inner))" "limit bound (queues w (sa_q inner)) = None"
      "buffered content (queues w (sa_q inner)) = []" "pendings w (sa_pending inner) = []"
    and ch: "ch = ch_map_out (Sink_accum inner :: ('o, 'i, 'e, 'r, ('o, 'c, 'x) cells_scheme) channel) g"
  shows "\<exists>w1 w2. (ch_write fl ch i :: (unit, unit, _, _) effect) r w = Some (Ok (), r, w1)
    \<and> ch_read fl ch r w1 = Some (Ok (Some (g (g (sa_step inner (accs w (sa_acc inner)) i)))), r, w2)"
proof -
  let ?a = "sa_step inner (accs w (sa_acc inner)) i"
  let ?w = "w\<lparr>accs := (accs w)(sa_acc inner := ?a)\<rparr>"
  obtain q' where o: "offer_until fl (sa_q inner) (g ?a) ?w = Some (?w\<lparr>queues := (queues w)(sa_q inner := q')\<rparr>)"
    and q': "buffered content q' = [g ?a]"
    using offer_until_view [OF laws, of ?w "sa_q inner" 0 "g ?a"] w by (auto simp: has_room_def)
  let ?w1 = "?w\<lparr>queues := (queues w)(sa_q inner := q')\<rparr>"
  from take_at_view(1) [OF laws, of ?w1 "sa_q inner" "g ?a" "[]"] q' obtain q'' where
    t: "take_at fl (sa_q inner) ?w1 = Some (Ok (g ?a), ?w1\<lparr>queues := (queues ?w1)(sa_q inner := q'')\<rparr>)" by auto
  have "ch_read fl ch r ?w1 = Some (Ok (Some (g (g ?a))), r, push_pending (sa_pending inner) [] (?w1\<lparr>queues := (queues ?w1)(sa_q inner := q'')\<rparr>))"
    using t w(4) inner unfolding ch
    by (simp add: ch_read_def new_async_def read_queue.simps [of fl] drain_pending_def expand_def)
  moreover have "(ch_write fl ch i :: (unit, unit, _, _) effect) r w = Some (Ok (), r, ?w1)"
    using o inner unfolding ch by (simp add: ch_write_def new_async_def Let_def)
  ultimately show ?thesis by blast
qed

section \<open>Streams behind a channel\<close>

definition finish :: "'e option \<Rightarrow> ('a, 'e) channel_message" where
  "finish err = (case err of None \<Rightarrow> End_msg | Some e \<Rightarrow> Fail_msg e)"

text \<open>What the stream still has to read: chunks and then the end or a failure.\<close>

definition remaining ::
  "('c \<Rightarrow> ('a, 'e) channel_message list) \<Rightarrow> nat \<Rightarrow> 'a list list \<Rightarrow> 'e option \<Rightarrow> (('a, 'e) channel_message, 'c, 'x) cells_scheme \<Rightarrow> bool" where
  "remaining content q cs err w \<longleftrightarrow> buffered content (queues w q) = map Chunk_msg cs @ [finish err]"

lemma take_remaining:
  assumes "flume_laws fl content bound"
  shows "remaining content q (c # cs) err w \<Longrightarrow> \<exists>w'. take_at fl q w = Some (Ok (Chunk_msg c), w') \<and> remaining content q cs err w'"
    and "remaining content q [] err w \<Longrightarrow> \<exists>w'. take_at fl q w = Some (Ok (finish err), w')"
  using take_at_view(1) [OF assms, of w q] unfolding remaining_def by fastforce+

lemma fill_remaining:
  assumes laws: "flume_laws fl content bound" and "remaining content q cs err w"
  shows "\<exists>w'. (concat cs = [] \<and> fill_channel (take_at fl q) [] False w = Some (case err of None \<Rightarrow> Ok ([], True) | Some e \<Rightarrow> Err e, w'))
    \<or> (\<exists>buf cs'. buf \<noteq> [] \<and> concat cs = buf @ concat cs' \<and> remaining content q cs' err w'
        \<and> fill_channel (take_at fl q) [] False w = Some (Ok (buf, False), w'))"
  using assms(2)
proof (induction cs arbitrary: w)
  case Nil
  from take_remaining(2) [OF laws Nil] obtain w' where "take_at fl q w = Some (Ok (finish err), w')" by blast
  then show ?case
    by (subst (1 2) fill_channel.simps, subst (2) fill_channel.simps) (auto simp: finish_def fill_channel.simps [of _ "[]" True] split: option.split)
next
  case (Cons c cs)
  from take_remaining(1) [OF laws Cons.prems] obtain w' where
    t: "take_at fl q w = Some (Ok (Chunk_msg c), w')" and r: "remaining content q cs err w'" by blast
  have f: "fill_channel (take_at fl q) [] False w = fill_channel (take_at fl q) c False w'"
    by (subst fill_channel.simps) (simp add: t)
  show ?case
  proof (cases "c = []")
    case True
    with Cons.IH [OF r] f show ?thesis by simp
  next
    case False
    then have "fill_channel (take_at fl q) [] False w = Some (Ok (c, False), w')"
      unfolding f by (subst fill_channel.simps) simp
    with False r show ?thesis by (intro exI [of _ w'] disjI2 exI [of _ c] exI [of _ cs]) simp
  qed
qed

lemma fill_buffered: "buf \<noteq> [] \<Longrightarrow> fill_channel tk buf closed w = Some (Ok (buf, closed), w)"
  by (subst fill_channel.simps) simp

lemma collect_remaining:
  fixes w :: "(('a, 'e) channel_message, 'c, 'x) cells_scheme"
  assumes laws: "flume_laws fl content bound" and "remaining content q cs err w"
  shows "\<exists>w'. pull_loop never (\<lambda>out c. succeed (out @ c, True)) out (Stream (Channel_state (take_at fl q) buf False) None) r w
    = Some (case err of None \<Rightarrow> Ok (out @ buf @ concat cs) | Some e \<Rightarrow> Err e, r, w')"
  using assms(2)
proof (induction "length (buf @ concat cs)" arbitrary: buf cs out w rule: less_induct)
  case less
  let ?st = "\<lambda>buf. Stream (Channel_state (take_at fl q) buf False) None :: ('a, 'e, _, (('a, 'e) channel_message, 'c, 'x) cells_scheme) stream"
  have step: "\<exists>w'. pull_loop never (\<lambda>out c. succeed (out @ c, True)) out (?st b) r w2
      = Some (case err of None \<Rightarrow> Ok (out @ buf' @ concat cs') | Some e \<Rightarrow> Err e, r, w')"
    if fill: "fill_channel (take_at fl q) b False w2 = Some (Ok (buf', False), w3)" and ne: "buf' \<noteq> []"
      and eq: "length (buf' @ concat cs') \<le> length (buf @ concat cs)" and rem: "remaining content q cs' err w3" for b w2 w3 buf' cs' 
  proof -
    have "poll_next_chunk (?st b) r w2 = Some (Ok (Some (take 64 buf')), ?st (drop 64 buf'), r, w3)"
      using fill ne by (simp add: poll_simps)
    then have "pull_loop never (\<lambda>out c. succeed (out @ c, True)) out (?st b) r w2 =
        pull_loop never (\<lambda>out c. succeed (out @ c, True)) (out @ take 64 buf') (?st (drop 64 buf')) r w3"
      by (subst pull_loop.simps) simp
    moreover have "length (drop 64 buf' @ concat cs') < length (buf @ concat cs)"
      using ne eq by (cases buf') auto
    from less.hyps [OF this rem, of "out @ take 64 buf'"] obtain w' where
      "pull_loop never (\<lambda>out c. succeed (out @ c, True)) (out @ take 64 buf') (?st (drop 64 buf')) r w3 =
        Some (case err of None \<Rightarrow> Ok ((out @ take 64 buf') @ drop 64 buf' @ concat cs') | Some e \<Rightarrow> Err e, r, w')" by blast
    moreover have "(out @ take 64 buf') @ drop 64 buf' @ concat cs' = out @ buf' @ concat cs'"
      by (metis append.assoc append_take_drop_id)
    ultimately show ?thesis by (simp only:) blast
  qed
  show ?case
  proof (cases "buf = []")
    case False
    from step [OF fill_buffered [OF False] False _ less.prems] show ?thesis by simp
  next
    case True
    from fill_remaining [OF laws less.prems] show ?thesis
    proof (elim exE disjE conjE)
      fix w' assume "concat cs = []" "fill_channel (take_at fl q) [] False w = Some (case err of None \<Rightarrow> Ok ([], True) | Some e \<Rightarrow> Err e, w')"
      then show ?thesis using True
        by (subst pull_loop.simps) (cases err; simp add: poll_simps)
    next
      fix w' buf' cs' assume "buf' \<noteq> []" "concat cs = buf' @ concat cs'" "remaining content q cs' err w'"
        "fill_channel (take_at fl q) [] False w = Some (Ok (buf', False), w')"
      with step [of "[]" w buf' w' cs'] True show ?thesis by (simp only: append_Nil) simp
    qed
  qed
qed

text \<open>
  C38. A stream behind a channel. Under every back-pressure policy, as long as the queue has room,
  sending chunks and then the end returns, and collecting the stream gives the items of the chunks in
  the order they were sent; a failure sent instead of the end is what the stream fails with.
\<close>

theorem channel_stream_delivers:
  fixes w :: "(('a, 'e) channel_message, 'c, 'x) cells_scheme"
  assumes laws: "flume_laws fl content bound" and new: "\<And>n. content (new_bounded n) = []" "\<And>n. bound (new_bounded n) = Some n"
    and room: "length cs < cap"
    and s: "stream_from_channel_with_policy fl new_bounded cap policy w = (s, sender, w0)"
  shows "\<exists>w1 w2 w3. write_all (send_chunk fl sender) cs () w0 = Some (Ok ((), True), (), w1)
      \<and> (end_stream fl sender :: (unit, unit, _, _) effect) () w1 = Some (Ok (), (), w2)
      \<and> run_collect never s r w2 = Some (Ok (concat cs), r, w3)
    \<and> (\<exists>w4 w5. sender_fail fl sender e w1 = Some (True, w4) \<and> run_collect never s r w4 = Some (Err e, r, w5))"
proof -
  let ?q = "next_cell w"
  have parts: "s = Stream (Channel_state (take_at fl ?q) [] False) None" "sn_queue sender = ?q" "sn_policy sender = policy"
    and q: "accepting (queues w0 ?q)" "buffered content (queues w0 ?q) = []" "limit bound (queues w0 ?q) = Some cap"
    using s room new by (auto simp: stream_from_channel_with_policy_def Let_def q_bounded_def q_dropping_def q_sliding_def sliding_new_def
      from_flume_def accepting_def buffered_def limit_def split: backpressure_policy.splits)
  have "has_room content bound (queues w0 ?q) (Suc (length cs))" using q room by (simp add: has_room_def)
  then have "has_room content bound (queues w0 ?q) (length cs)" by (auto simp: has_room_def split: option.splits)
  note has = this
  have send: "send_chunk fl sender c () v = Some (Ok (), (), v\<lparr>queues := (queues v)(?q := q')\<rparr>)"
    if "q_offer fl (queues v ?q) (Chunk_msg c) = (True, q')" for c v q'
    using that parts(2) by (cases "sn_policy sender") (simp_all add: send_chunk_def new_async_def offer_until_accepts offer_at_def)
  obtain q1 where sent: "write_all (send_chunk fl sender) cs () w0 = Some (Ok ((), True), (), w0\<lparr>queues := (queues w0)(?q := q1)\<rparr>)"
    and q1: "buffered content q1 = map Chunk_msg cs" "accepting q1" "limit bound q1 = Some cap"
    using write_all_queue [OF laws _ q(1) has, where wr = "send_chunk fl sender" and m = Chunk_msg and r = "()"] send q by auto
  define w1 where "w1 = w0\<lparr>queues := (queues w0)(?q := q1)\<rparr>"
  have w1_q: "queues w1 ?q = q1" by (simp add: w1_def)
  have last: "\<exists>v. offer_until fl ?q (finish err) w1 = Some v \<and> remaining content ?q cs err v" for err
  proof -
    have "accepting (queues w1 ?q)" "has_room content bound (queues w1 ?q) 1" using q1 room by (simp_all add: w1_q has_room_def)
    from offer_until_view [OF laws this(1), of 0 "finish err"] this(2) q1 show ?thesis by (auto simp: remaining_def w1_q)
  qed
  have col: "\<exists>w'. run_collect never s r v = Some (case err of None \<Rightarrow> Ok (concat cs) | Some e \<Rightarrow> Err e, r, w')"
    if "remaining content ?q cs err v" for err v
    using collect_remaining [OF laws that, of "[]" "[]" r] unfolding run_collect_def new_async_def parts(1) append_Nil .
  from last [of None] obtain w2 where "offer_until fl ?q End_msg w1 = Some w2" "remaining content ?q cs None w2"
    by (auto simp: finish_def)
  moreover from last [of "Some e"] obtain w4 where "offer_until fl ?q (Fail_msg e) w1 = Some w4" "remaining content ?q cs (Some e) w4"
    by (auto simp: finish_def)
  moreover obtain w3 w5 where "run_collect never s r w2 = Some (Ok (concat cs), r, w3)" "run_collect never s r w4 = Some (Err e, r, w5)"
    using col [OF \<open>remaining content ?q cs None w2\<close>] col [OF \<open>remaining content ?q cs (Some e) w4\<close>] by auto
  moreover note sent [folded w1_def]
  ultimately show ?thesis using parts(2)
    by (intro exI [of _ w1] exI [of _ w2] exI [of _ w3] conjI exI [of _ w4] exI [of _ w5])
      (simp_all add: end_stream_def sender_fail_def new_async_def)
qed

lemma channel_stream_delivers_witness:
  "\<exists>s sender w0 w1 w2 w3. stream_from_channel_with_policy list_channel (\<lambda>n. (Some n, [])) 3 Fail_policy
       \<lparr>queues = \<lambda>_. q_sliding 1, pendings = \<lambda>_. [], accs = \<lambda>_. End_msg, next_cell = 0\<rparr> = (s, sender, w0)
    \<and> write_all (send_chunk list_channel sender) [[1, 2], [3 :: int]] () w0 = Some (Ok ((), True), (), w1)
    \<and> (end_stream list_channel sender :: (unit, unit, _, _) effect) () w1 = Some (Ok (), (), w2)
    \<and> run_collect never (s :: (int, unit, unit, _) stream) () w2 = Some (Ok [1, 2, 3], (), w3)"
proof -
  obtain s sender w0 where s: "stream_from_channel_with_policy list_channel (\<lambda>n. (Some n, [])) 3 Fail_policy
       \<lparr>queues = \<lambda>_. q_sliding 1, pendings = \<lambda>_. [], accs = \<lambda>_. End_msg, next_cell = 0\<rparr>
      = (s :: (int, unit, unit, _) stream, sender, w0)" by (rule prod_cases3)
  from channel_stream_delivers [OF list_channel_laws _ _ _ s, of "[[1, 2], [3]]" "()" "()"] s show ?thesis by fastforce
qed

text \<open>
  On a full bounded queue the policies differ: \<open>Fail\<close> reports it, \<open>DropNewest\<close> says that all is well
  and drops the chunk, and \<open>BoundedBlock\<close> waits until another task has made room. \<open>DropOldest\<close> never
  sees a full queue; it loses the oldest message.
\<close>

theorem send_chunk_when_full:
  assumes "q_offer fl (queues w (sn_queue sender)) (Chunk_msg c) = (False, queues w (sn_queue sender))"
  shows "send_chunk fl sender c () w = (case sn_policy sender of
      Fail_policy \<Rightarrow> Some (Err Stream_channel_full, (), w)
    | Bounded_block \<Rightarrow> None
    | _ \<Rightarrow> Some (Ok (), (), w))"
proof -
  have "offer_at fl (sn_queue sender) (Chunk_msg c) w = (False, w)" using assms by (simp add: offer_at_def)
  then show ?thesis
    using offer_until_refused [of fl "sn_queue sender" "Chunk_msg c" w]
    by (cases "sn_policy sender") (simp_all add: send_chunk_def new_async_def)
qed

end
