(* ===== verification/Cells.thy ===== *)
theory Cells
  imports Scopes
begin

text \<open>
  The single-cell primitives of \<open>crates/id_effect/src/coordination/\<close>: \<open>ref_.rs\<close>,
  \<open>synchronized_ref.rs\<close>, \<open>deferred.rs\<close>, \<open>latch.rs\<close>, \<open>semaphore.rs\<close> and the batching of
  \<open>request_resolver.rs\<close>.

  The \<open>Arc\<close>s are addresses into the shared state, or a component of it. What comes from \<open>tokio\<close> is an
  argument with its documented behaviour as a predicate: the \<open>watch\<close> channel of a deferred
  (\<open>watch_laws\<close>), the semaphore (\<open>semaphore_laws\<close>) and the asynchronous mutex (\<open>mutex_laws\<close>). An
  operation runs by itself: one that waits for another task is \<open>None\<close>. The latch is also given as a
  step relation between a waiter and an opener, because its two loads can be separated.
\<close>

section \<open>References\<close>

record 'a refs =
  ref_val :: "nat \<Rightarrow> 'a"
  ref_next :: nat

definition put_ref :: "nat \<Rightarrow> 'a \<Rightarrow> ('a, 'x) refs_scheme \<Rightarrow> ('a, 'x) refs_scheme" where
  "put_ref i v w = w\<lparr>ref_val := (ref_val w)(i := v)\<rparr>"

definition ref_make :: "'a \<Rightarrow> (nat, 'n, 'r, ('a, 'x) refs_scheme) effect" where
  "ref_make v = new_sync (\<lambda>r w. (Ok (ref_next w), r, (put_ref (ref_next w) v w)\<lparr>ref_next := Suc (ref_next w)\<rparr>))"

definition ref_get :: "nat \<Rightarrow> ('a, 'n, 'r, ('a, 'x) refs_scheme) effect" where
  "ref_get i = new_sync (\<lambda>r w. (Ok (ref_val w i), r, w))"

definition ref_set :: "nat \<Rightarrow> 'a \<Rightarrow> (unit, 'n, 'r, ('a, 'x) refs_scheme) effect" where
  "ref_set i v = new_sync (\<lambda>r w. (Ok (), r, put_ref i v w))"

definition ref_update :: "nat \<Rightarrow> ('a \<Rightarrow> 'a) \<Rightarrow> (unit, 'n, 'r, ('a, 'x) refs_scheme) effect" where
  "ref_update i f = new_sync (\<lambda>r w. let old = ref_val w i in (Ok (), r, put_ref i (f old) w))"

definition ref_update_and_get :: "nat \<Rightarrow> ('a \<Rightarrow> 'a) \<Rightarrow> ('a, 'n, 'r, ('a, 'x) refs_scheme) effect" where
  "ref_update_and_get i f = new_sync (\<lambda>r w. let new_val = f (ref_val w i) in (Ok new_val, r, put_ref i new_val w))"

definition ref_get_and_update :: "nat \<Rightarrow> ('a \<Rightarrow> 'a) \<Rightarrow> ('a, 'n, 'r, ('a, 'x) refs_scheme) effect" where
  "ref_get_and_update i f = new_sync (\<lambda>r w. let old = ref_val w i in (Ok old, r, put_ref i (f old) w))"

definition ref_modify :: "nat \<Rightarrow> ('a \<Rightarrow> 'b \<times> 'a) \<Rightarrow> ('b, 'n, 'r, ('a, 'x) refs_scheme) effect" where
  "ref_modify i f = new_sync (\<lambda>r w. case f (ref_val w i) of (b, new_val) \<Rightarrow> (Ok b, r, put_ref i new_val w))"

definition ref_modify_effect ::
  "nat \<Rightarrow> ('a \<Rightarrow> ('b \<times> 'a, 'e, 'r, ('a, 'x) refs_scheme) effect) \<Rightarrow> ('b, 'e, 'r, ('a, 'x) refs_scheme) effect" where
  "ref_modify_effect i f = new_async (\<lambda>r w. let old = ref_val w i in
     case run (f old) r w of
       None \<Rightarrow> None
     | Some (Inl e, r', w') \<Rightarrow> Some (Err e, r', w')
     | Some (Inr (b, new_val), r', w') \<Rightarrow> Some (Ok b, r', put_ref i new_val w'))"

definition ref_get_and_set :: "nat \<Rightarrow> 'a \<Rightarrow> ('a, 'n, 'r, ('a, 'x) refs_scheme) effect" where
  "ref_get_and_set i v = new_sync (\<lambda>r w. let old = ref_val w i in (Ok old, r, put_ref i v w))"

definition ref_set_and_get :: "nat \<Rightarrow> 'a \<Rightarrow> ('a, 'n, 'r, ('a, 'x) refs_scheme) effect" where
  "ref_set_and_get i v = new_sync (\<lambda>r w. (Ok v, r, put_ref i v w))"

section \<open>Synchronised references\<close>

text \<open>
  The mutex: \<open>am_lock\<close> gives the value and the locked mutex, or \<open>None\<close> when it would wait;
  \<open>am_release\<close> is the drop of a guard that holds the given value.
\<close>

record ('a, 'm) async_mutex =
  am_new :: "'a \<Rightarrow> 'm"
  am_lock :: "'m \<Rightarrow> ('a \<times> 'm) option"
  am_release :: "'a \<Rightarrow> 'm \<Rightarrow> 'm"

definition mutex_laws :: "('a, 'm) async_mutex \<Rightarrow> bool" where
  "mutex_laws am \<longleftrightarrow>
     (\<forall>v. \<exists>m. am_lock am (am_new am v) = Some (v, m)) \<and>
     (\<forall>m v m'. am_lock am m = Some (v, m') \<longrightarrow> am_lock am m' = None) \<and>
     (\<forall>m v m' x. am_lock am m = Some (v, m') \<longrightarrow> (\<exists>m''. am_lock am (am_release am x m') = Some (x, m'')))"

definition sync_make :: "('a, 'm) async_mutex \<Rightarrow> 'a \<Rightarrow> (nat, 'n, 'r, ('m, 'x) refs_scheme) effect" where
  "sync_make am v = ref_make (am_new am v)"

text \<open>Lock, run the body with the value, and release with the value the body leaves.\<close>

definition sync_locked ::
  "('a, 'm) async_mutex \<Rightarrow> nat \<Rightarrow> ('a \<Rightarrow> 'r \<Rightarrow> ('m, 'x) refs_scheme \<Rightarrow> (('b, 'e) result \<times> 'a \<times> 'r \<times> ('m, 'x) refs_scheme) option)
    \<Rightarrow> ('b, 'e, 'r, ('m, 'x) refs_scheme) effect" where
  "sync_locked am i body = new_async (\<lambda>r w. case am_lock am (ref_val w i) of
     None \<Rightarrow> None
   | Some (v, m) \<Rightarrow> (case body v r (put_ref i m w) of
       None \<Rightarrow> None
     | Some (res, v', r', w') \<Rightarrow> Some (res, r', put_ref i (am_release am v' (ref_val w' i)) w')))"

definition sync_get :: "('a, 'm) async_mutex \<Rightarrow> nat \<Rightarrow> ('a, 'n, 'r, ('m, 'x) refs_scheme) effect" where
  "sync_get am i = sync_locked am i (\<lambda>v r w. Some (Ok v, v, r, w))"

definition sync_set :: "('a, 'm) async_mutex \<Rightarrow> nat \<Rightarrow> 'a \<Rightarrow> (unit, 'n, 'r, ('m, 'x) refs_scheme) effect" where
  "sync_set am i x = sync_locked am i (\<lambda>v r w. Some (Ok (), x, r, w))"

definition sync_update :: "('a, 'm) async_mutex \<Rightarrow> nat \<Rightarrow> ('a \<Rightarrow> 'a) \<Rightarrow> (unit, 'n, 'r, ('m, 'x) refs_scheme) effect" where
  "sync_update am i f = sync_locked am i (\<lambda>v r w. Some (Ok (), f v, r, w))"

definition sync_modify :: "('a, 'm) async_mutex \<Rightarrow> nat \<Rightarrow> ('a \<Rightarrow> 'b \<times> 'a) \<Rightarrow> ('b, 'n, 'r, ('m, 'x) refs_scheme) effect" where
  "sync_modify am i f = sync_locked am i (\<lambda>v r w. case f v of (b, new_a) \<Rightarrow> Some (Ok b, new_a, r, w))"

definition sync_update_effect ::
  "('a, 'm) async_mutex \<Rightarrow> nat \<Rightarrow> ('a \<Rightarrow> ('a, 'e, 'r, ('m, 'x) refs_scheme) effect) \<Rightarrow> (unit, 'e, 'r, ('m, 'x) refs_scheme) effect" where
  "sync_update_effect am i f = sync_locked am i (\<lambda>v r w. case run (f v) r w of
     None \<Rightarrow> None
   | Some (Inl e, r', w') \<Rightarrow> Some (Err e, v, r', w')
   | Some (Inr new_val, r', w') \<Rightarrow> Some (Ok (), new_val, r', w'))"

definition sync_modify_effect ::
  "('a, 'm) async_mutex \<Rightarrow> nat \<Rightarrow> ('a \<Rightarrow> ('b \<times> 'a, 'e, 'r, ('m, 'x) refs_scheme) effect) \<Rightarrow> ('b, 'e, 'r, ('m, 'x) refs_scheme) effect" where
  "sync_modify_effect am i f = sync_locked am i (\<lambda>v r w. case run (f v) r w of
     None \<Rightarrow> None
   | Some (Inl e, r', w') \<Rightarrow> Some (Err e, v, r', w')
   | Some (Inr (b, new_a), r', w') \<Rightarrow> Some (Ok b, new_a, r', w'))"

definition sync_get_effect ::
  "('a, 'm) async_mutex \<Rightarrow> nat \<Rightarrow> ('a \<Rightarrow> ('a, 'e, 'r, ('m, 'x) refs_scheme) effect) \<Rightarrow> ('a, 'e, 'r, ('m, 'x) refs_scheme) effect" where
  "sync_get_effect am i f = sync_locked am i (\<lambda>v r w. case run (f v) r w of
     None \<Rightarrow> None
   | Some (res, r', w') \<Rightarrow> Some (res, v, r', w'))"

section \<open>Deferreds\<close>

record ('v, 'c) watch =
  wt_channel :: "'v \<Rightarrow> 'c"
  wt_borrow :: "'c \<Rightarrow> 'v"
  wt_send_if_modified :: "('v \<Rightarrow> bool \<times> 'v) \<Rightarrow> 'c \<Rightarrow> bool \<times> 'c"
  wt_send :: "'v \<Rightarrow> 'c \<Rightarrow> 'c"

definition watch_laws :: "('v, 'c) watch \<Rightarrow> bool" where
  "watch_laws wt \<longleftrightarrow>
     (\<forall>v. wt_borrow wt (wt_channel wt v) = v) \<and>
     (\<forall>f c. fst (wt_send_if_modified wt f c) = fst (f (wt_borrow wt c))) \<and>
     (\<forall>f c. wt_borrow wt (snd (wt_send_if_modified wt f c)) = snd (f (wt_borrow wt c))) \<and>
     (\<forall>v c. wt_borrow wt (wt_send wt v c) = v)"

type_synonym ('a, 'e, 'c) exit_watch = "(('a, 'e) exit option, 'c) watch"

definition deferred_make :: "('a, 'e, 'c) exit_watch \<Rightarrow> 'c" where
  "deferred_make wt = wt_channel wt None"

definition exit_result :: "('a, 'e) exit \<Rightarrow> ('a, 'e cause) result" where
  "exit_result x = (case x of Success a \<Rightarrow> Ok a | Failure c \<Rightarrow> Err c)"

definition deferred_wait :: "('a, 'e, 'c) exit_watch \<Rightarrow> 'c \<Rightarrow> ('a, 'e cause) result option" where
  "deferred_wait wt c = map_option exit_result (wt_borrow wt c)"

definition deferred_poll :: "('a, 'e, 'c) exit_watch \<Rightarrow> 'c \<Rightarrow> ('a, 'e) exit option" where
  "deferred_poll wt c = wt_borrow wt c"

definition deferred_is_done :: "('a, 'e, 'c) exit_watch \<Rightarrow> 'c \<Rightarrow> bool" where
  "deferred_is_done wt c \<longleftrightarrow> wt_borrow wt c \<noteq> None"

text \<open>The closure that every completion passes to \<open>send_if_modified\<close>.\<close>

definition first_wins :: "('a, 'e) exit \<Rightarrow> ('a, 'e) exit option \<Rightarrow> bool \<times> ('a, 'e) exit option" where
  "first_wins x slot = (if slot = None then (True, Some x) else (False, slot))"

definition try_succeed :: "('a, 'e, 'c) exit_watch \<Rightarrow> 'a \<Rightarrow> 'c \<Rightarrow> bool \<times> 'c" where
  "try_succeed wt v c = wt_send_if_modified wt (first_wins (exit_succeed v)) c"

definition try_fail_cause :: "('a, 'e, 'c) exit_watch \<Rightarrow> 'e cause \<Rightarrow> 'c \<Rightarrow> bool \<times> 'c" where
  "try_fail_cause wt x c = wt_send_if_modified wt (first_wins (Failure x)) c"

definition deferred_succeed :: "('a, 'e, 'c) exit_watch \<Rightarrow> 'a \<Rightarrow> (bool, 'n, unit, 'c) effect" where
  "deferred_succeed wt v = new_sync (\<lambda>r c. case wt_send_if_modified wt (first_wins (exit_succeed v)) c of (b, c') \<Rightarrow> (Ok b, r, c'))"

definition deferred_fail :: "('a, 'e, 'c) exit_watch \<Rightarrow> 'e \<Rightarrow> (bool, 'n, unit, 'c) effect" where
  "deferred_fail wt e = new_sync (\<lambda>r c. case wt_send_if_modified wt (first_wins (exit_fail e)) c of (b, c') \<Rightarrow> (Ok b, r, c'))"

definition deferred_fail_cause :: "('a, 'e, 'c) exit_watch \<Rightarrow> 'e cause \<Rightarrow> (bool, 'n, unit, 'c) effect" where
  "deferred_fail_cause wt x = new_sync (\<lambda>r c. case wt_send_if_modified wt (first_wins (Failure x)) c of (b, c') \<Rightarrow> (Ok b, r, c'))"

text \<open>\<open>fiber\<close> is the fiber identifier that \<open>FiberId::fresh\<close> gives.\<close>

definition deferred_interrupt :: "('a, 'e, 'c) exit_watch \<Rightarrow> fiber_id \<Rightarrow> (bool, 'n, unit, 'c) effect" where
  "deferred_interrupt wt fiber = new_sync (\<lambda>r c. case wt_send_if_modified wt (first_wins (exit_interrupt fiber)) c of (b, c') \<Rightarrow> (Ok b, r, c'))"

definition deferred_complete ::
  "('a, 'e, 'c) exit_watch \<Rightarrow> ('a, 'e, 'r, 'c \<times> 'w) effect \<Rightarrow> (bool, 'e, 'r, 'c \<times> 'w) effect" where
  "deferred_complete wt eff = new_async (\<lambda>r cw. case run eff r cw of
     None \<Rightarrow> None
   | Some (Inl e, r', cw') \<Rightarrow> Some (Err e, r', cw')
   | Some (Inr v, r', (c, w)) \<Rightarrow>
       (case wt_send_if_modified wt (first_wins (exit_succeed v)) c of (b, c') \<Rightarrow> Some (Ok b, r', (c', w))))"

definition unsafe_done :: "('a, 'e, 'c) exit_watch \<Rightarrow> ('a, 'e) exit \<Rightarrow> (unit, 'n, unit, 'c) effect" where
  "unsafe_done wt x = new_sync (\<lambda>r c. (Ok (), r, wt_send wt (Some x) c))"

section \<open>Batched requests\<close>

record ('k, 'd) request_entry =
  entry_key :: 'k
  entry_deferred :: 'd

datatype 'k missing_key = Missing_key 'k

primrec dedup_keys :: "'k list \<Rightarrow> ('k, 'd) request_entry list \<Rightarrow> 'k list" where
  "dedup_keys keys [] = keys"
| "dedup_keys keys (e # es) = dedup_keys (if entry_key e \<in> set keys then keys else keys @ [entry_key e]) es"

text \<open>The deferreds are addresses into the shared state; \<open>fetch\<close> is an effect over it.\<close>

definition fulfil ::
  "('v, 'k missing_key, 'c) exit_watch \<Rightarrow> ('k \<rightharpoonup> 'v) \<Rightarrow> ('k, nat) request_entry \<Rightarrow> ('c, 'x) refs_scheme \<Rightarrow> ('c, 'x) refs_scheme" where
  "fulfil wt found e w = (let d = entry_deferred e; c = ref_val w d in
     put_ref d (snd (case found (entry_key e) of
         Some v \<Rightarrow> try_succeed wt v c
       | None \<Rightarrow> try_fail_cause wt (cause_fail (Missing_key (entry_key e))) c)) w)"

text \<open>A fetch that fails is a panic.\<close>

primrec batching ::
  "('v, 'k missing_key, 'c) exit_watch \<Rightarrow> ('k list \<Rightarrow> ('k \<rightharpoonup> 'v, 'e, unit, ('c, 'x) refs_scheme) effect)
    \<Rightarrow> ('k, nat) request_entry list list \<Rightarrow> (unit, 'n, unit, ('c, 'x) refs_scheme) effect" where
  "batching wt fetch [] = succeed ()"
| "batching wt fetch (batch # batches) = new_async (\<lambda>r w.
     case run (fetch (dedup_keys [] batch)) () w of
       None \<Rightarrow> None
     | Some (Inl e, _, w1) \<Rightarrow> None
     | Some (Inr found, _, w1) \<Rightarrow> run (batching wt fetch batches) r (foldl (\<lambda>w e. fulfil wt found e w) w1 batch))"

section \<open>Latches\<close>

definition latch_make :: bool where
  "latch_make = False"

text \<open>The result is whether \<open>notify_waiters\<close> is called.\<close>

definition latch_open :: "bool \<Rightarrow> bool \<times> bool" where
  "latch_open opened = (\<not> opened, True)"

definition latch_wait :: "bool \<Rightarrow> unit option" where
  "latch_wait opened = (if opened then Some () else None)"

definition latch_is_open :: "bool \<Rightarrow> (bool, 'n, 'r, 'w) effect" where
  "latch_is_open opened = (let v = opened in new_sync (\<lambda>r w. (Ok v, r, w)))"

text \<open>
  One waiter and one opener, step by step: the waiter loads the flag, and if it was not set asks
  \<open>notified()\<close> for a future and awaits it; the opener swaps the flag and then notifies. \<open>notify_waiters\<close>
  wakes the futures that exist when it is called and stores nothing for later ones.
\<close>

datatype waiter = Before_load | Before_notified | Awaiting | Passed
datatype opener = Before_swap | Before_notify | Opened

inductive latch_step :: "bool \<times> waiter \<times> opener \<Rightarrow> bool \<times> waiter \<times> opener \<Rightarrow> bool" where
  load_open: "latch_step (True, Before_load, p) (True, Passed, p)"
| load_closed: "latch_step (False, Before_load, p) (False, Before_notified, p)"
| enqueue: "latch_step (f, Before_notified, p) (f, Awaiting, p)"
| swap: "latch_step (f, q, Before_swap) (True, q, if f then Opened else Before_notify)"
| notify: "latch_step (f, q, Before_notify) (f, if q = Awaiting then Before_load else q, Opened)"

section \<open>Semaphores\<close>

record 's tokio_semaphore =
  ts_new :: "nat \<Rightarrow> 's"
  ts_acquire :: "'s \<Rightarrow> 's option"
  ts_release :: "'s \<Rightarrow> 's"
  ts_available :: "'s \<Rightarrow> nat"

definition semaphore_laws :: "'s tokio_semaphore \<Rightarrow> bool" where
  "semaphore_laws ts \<longleftrightarrow>
     (\<forall>n. ts_available ts (ts_new ts n) = n) \<and>
     (\<forall>s. ts_available ts s = 0 \<longrightarrow> ts_acquire ts s = None) \<and>
     (\<forall>s. 0 < ts_available ts s \<longrightarrow> (\<exists>s'. ts_acquire ts s = Some s' \<and> Suc (ts_available ts s') = ts_available ts s)) \<and>
     (\<forall>s. ts_available ts (ts_release ts s) = Suc (ts_available ts s))"

text \<open>Whether the permit owns its handle.\<close>

datatype permit = Permit bool

definition sem_make :: "'s tokio_semaphore \<Rightarrow> nat \<Rightarrow> 's" where
  "sem_make ts permits = ts_new ts permits"

text \<open>
  The environment is the scope; \<open>fin\<close> stands for the finalizer that drops the guard. Adding it to a
  closed scope drops it, and the guard with it.
\<close>

definition sem_acquire :: "'s tokio_semaphore \<Rightarrow> 'f \<Rightarrow> (permit, 'n, nat, 's \<times> 'f scopes) effect" where
  "sem_acquire ts fin = new_async (\<lambda>scope (s, sc). case ts_acquire ts s of
     None \<Rightarrow> None
   | Some s' \<Rightarrow> (case add_finalizer scope fin sc of
       None \<Rightarrow> None
     | Some (added, sc') \<Rightarrow> Some (Ok (Permit False), scope, (if added then s' else ts_release ts s', sc'))))"

definition sem_acquire_owned :: "'s tokio_semaphore \<Rightarrow> (permit, 'n, unit, 's) effect" where
  "sem_acquire_owned ts = new_async (\<lambda>r s. map_option (\<lambda>s'. (Ok (Permit True), r, s')) (ts_acquire ts s))"

definition sem_try_acquire :: "'s tokio_semaphore \<Rightarrow> (permit option, 'n, unit, 's) effect" where
  "sem_try_acquire ts = new_sync (\<lambda>r s. case ts_acquire ts s of
     Some s' \<Rightarrow> (Ok (Some (Permit True)), r, s')
   | None \<Rightarrow> (Ok None, r, s))"

definition permit_drop :: "'s tokio_semaphore \<Rightarrow> permit \<Rightarrow> 's \<Rightarrow> 's" where
  "permit_drop ts p s = (case p of Permit owned \<Rightarrow> if owned then ts_release ts s else s)"

definition sem_available :: "'s tokio_semaphore \<Rightarrow> 's \<Rightarrow> (nat, 'n, 'r, 'w) effect" where
  "sem_available ts s = (let n = ts_available ts s in new_sync (\<lambda>r w. (Ok n, r, w)))"

section \<open>Cells that are updated atomically\<close>

lemma ref_val_put [simp]: "ref_val (put_ref i v w) j = (if j = i then v else ref_val w j)"
  by (simp add: put_ref_def)

locale atomic_cell =
  fixes holds :: "'w \<Rightarrow> 'a \<Rightarrow> bool"
    and get :: "('a, 'n, 'r, 'w) effect"
    and set_value :: "'a \<Rightarrow> (unit, 'n, 'r, 'w) effect"
    and update :: "('a \<Rightarrow> 'a) \<Rightarrow> (unit, 'n, 'r, 'w) effect"
  assumes get: "holds w v \<Longrightarrow> \<exists>w'. get r w = Some (Ok v, r, w') \<and> holds w' v"
    and set_value: "holds w v \<Longrightarrow> \<exists>w'. set_value x r w = Some (Ok (), r, w') \<and> holds w' x"
    and update: "holds w v \<Longrightarrow> \<exists>w'. update f r w = Some (Ok (), r, w') \<and> holds w' (f v)"
begin

primrec update_all :: "('a \<Rightarrow> 'a) list \<Rightarrow> (unit, 'n, 'r, 'w) effect" where
  "update_all [] = succeed ()"
| "update_all (f # fs) = and_then (update f) (update_all fs)"

lemma update_all_folds: "holds w v \<Longrightarrow> \<exists>w'. update_all fs r w = Some (Ok (), r, w') \<and> holds w' (fold (\<lambda>f. f) fs v)"
proof (induction fs arbitrary: v w)
  case (Cons f fs)
  from update [OF Cons.prems] obtain w1 where "update f r w = Some (Ok (), r, w1)" "holds w1 (f v)" by blast
  with Cons.IH [OF this(2)] show ?case by (auto simp: and_then_def flat_map_def new_async_def run_def)
qed (simp add: succeed_def new_sync_def)

lemma set_then_get:
  assumes "holds w v"
  shows "\<exists>w'. and_then (set_value x) get r w = Some (Ok x, r, w')"
proof -
  from set_value [OF assms] obtain w1 where "set_value x r w = Some (Ok (), r, w1)" "holds w1 x" by blast
  with get [OF this(2)] show ?thesis by (auto simp: and_then_def flat_map_def new_async_def run_def)
qed

end

interpretation plain_ref: atomic_cell "\<lambda>w v. ref_val w i = v" "ref_get i" "ref_set i" "ref_update i" for i
  by unfold_locales (simp_all add: ref_get_def ref_set_def ref_update_def new_sync_def put_ref_def Let_def)

definition unlocked :: "('a, 'm) async_mutex \<Rightarrow> nat \<Rightarrow> ('m, 'x) refs_scheme \<Rightarrow> 'a \<Rightarrow> bool" where
  "unlocked am i w v \<longleftrightarrow> (\<exists>m. am_lock am (ref_val w i) = Some (v, m))"

lemma sync_locked_run:
  assumes "mutex_laws am" "am_lock am (ref_val w i) = Some (v, m)"
    and "body v r (put_ref i m w) = Some (res, v', r', w')" "ref_val w' i = m"
  shows "\<exists>w2. sync_locked am i body r w = Some (res, r', w2) \<and> unlocked am i w2 v'"
  using assms unfolding mutex_laws_def by (auto simp: sync_locked_def new_async_def unlocked_def put_ref_def)

lemma sync_cell: "mutex_laws am \<Longrightarrow> atomic_cell (unlocked am i) (sync_get am i) (sync_set am i) (sync_update am i)"
  unfolding sync_get_def sync_set_def sync_update_def
  by unfold_locales (auto simp: unlocked_def put_ref_def elim!: sync_locked_run [unfolded unlocked_def])

text \<open>The mutex as its value and whether it is locked.\<close>

definition flag_mutex :: "('a, 'a \<times> bool) async_mutex" where
  "flag_mutex = \<lparr>am_new = \<lambda>v. (v, False), am_lock = \<lambda>(v, l). if l then None else Some (v, (v, True)), am_release = \<lambda>v _. (v, False)\<rparr>"

lemma flag_mutex_laws: "mutex_laws flag_mutex"
  by (auto simp: mutex_laws_def flag_mutex_def)

interpretation flag_ref: atomic_cell "unlocked flag_mutex i" "sync_get flag_mutex i" "sync_set flag_mutex i" "sync_update flag_mutex i" for i
  by (rule sync_cell [OF flag_mutex_laws])

text \<open>
  The two kinds of reference differ in their effectful updates. While the effect of
  \<open>Ref::modify_effect\<close> runs, others may change the cell, and what they wrote is overwritten with the
  value computed from the snapshot. \<open>SynchronizedRef::modify_effect\<close> holds the lock: an effect that
  uses the same cell never returns, a failing effect leaves the value as it was and the cell usable,
  and a successful one stores the value computed from the current one.
\<close>

theorem modify_effect_isolation:
  fixes w :: "('a, 'x) refs_scheme" and w2 :: "('m, 'x) refs_scheme"
  assumes laws: "mutex_laws am" and free: "unlocked am i w2 v"
  shows "ref_modify_effect i (\<lambda>old. and_then (ref_set i other) (succeed (b, f old))) r w =
      Some (Ok b :: ('b, 'e) result, r, put_ref i (f (ref_val w i)) (put_ref i other w))
    \<and> sync_modify_effect am i (\<lambda>old. and_then (sync_set am i other) (succeed (b, f old))) r w2 = (None :: (('b, 'e) result \<times> _) option)
    \<and> (\<exists>w3. sync_modify_effect am i (\<lambda>old. fail e) r w2 = Some (Err e :: ('b, 'e) result, r, w3) \<and> unlocked am i w3 v)
    \<and> (\<exists>w3. sync_modify_effect am i (\<lambda>old. succeed (b, f old)) r w2 = Some (Ok b :: ('b, 'e) result, r, w3) \<and> unlocked am i w3 (f v))"
proof (intro conjI)
  show "ref_modify_effect i (\<lambda>old. and_then (ref_set i other) (succeed (b, f old))) r w =
      Some (Ok b :: ('b, 'e) result, r, put_ref i (f (ref_val w i)) (put_ref i other w))"
    by (simp add: ref_modify_effect_def ref_set_def and_then_def flat_map_def new_async_def new_sync_def run_def succeed_def)
  obtain m where m: "am_lock am (ref_val w2 i) = Some (v, m)" using free by (auto simp: unlocked_def)
  with laws have "am_lock am m = None" unfolding mutex_laws_def by blast
  with m show "sync_modify_effect am i (\<lambda>old. and_then (sync_set am i other) (succeed (b, f old))) r w2 = (None :: (('b, 'e) result \<times> _) option)"
    by (simp add: sync_modify_effect_def sync_set_def sync_locked_def and_then_def flat_map_def new_async_def run_def)
  show "\<exists>w3. sync_modify_effect am i (\<lambda>old. fail e) r w2 = Some (Err e :: ('b, 'e) result, r, w3) \<and> unlocked am i w3 v"
    unfolding sync_modify_effect_def
    by (rule sync_locked_run [OF laws m]) (simp add: run_def fail_def new_sync_def, simp)
  show "\<exists>w3. sync_modify_effect am i (\<lambda>old. succeed (b, f old)) r w2 = Some (Ok b :: ('b, 'e) result, r, w3) \<and> unlocked am i w3 (f v)"
    unfolding sync_modify_effect_def
    by (rule sync_locked_run [OF laws m]) (simp add: run_def succeed_def new_sync_def, simp)
qed

lemma modify_effect_isolation_witness:
  "sync_modify_effect flag_mutex 0 (\<lambda>old. and_then (sync_set flag_mutex 0 7) (succeed ((), old + 1))) ()
     \<lparr>ref_val = \<lambda>_. (1 :: int, False), ref_next = 1\<rparr> = (None :: ((unit, unit) result \<times> _) option)"
proof -
  have "unlocked flag_mutex 0 \<lparr>ref_val = \<lambda>_. (1 :: int, False), ref_next = 1\<rparr> 1" by (auto simp: unlocked_def flag_mutex_def)
  from modify_effect_isolation [where b = "()" and f = "\<lambda>x. x + 1" and r = "()" and other = 7 and e = "()" and w = "\<lparr>ref_val = \<lambda>_. 0, ref_next = 1\<rparr>", OF flag_mutex_laws this]
  show ?thesis by blast
qed

section \<open>Deferreds\<close>

lemma send_first:
  assumes "watch_laws wt"
  shows "fst (wt_send_if_modified wt (first_wins x) c) \<longleftrightarrow> wt_borrow wt c = None"
    and "wt_borrow wt (snd (wt_send_if_modified wt (first_wins x) c)) = Some (case wt_borrow wt c of None \<Rightarrow> x | Some y \<Rightarrow> y)"
  using assms by (auto simp: watch_laws_def first_wins_def split: option.splits)

datatype ('a, 'e) completion = By_succeed 'a | By_fail 'e | By_fail_cause "'e cause" | By_interrupt fiber_id

fun completion_exit :: "('a, 'e) completion \<Rightarrow> ('a, 'e) exit" where
  "completion_exit (By_succeed a) = Success a"
| "completion_exit (By_fail e) = Failure (cause_fail e)"
| "completion_exit (By_fail_cause c) = Failure c"
| "completion_exit (By_interrupt i) = Failure (cause_interrupt i)"

fun complete_by :: "('a, 'e, 'c) exit_watch \<Rightarrow> ('a, 'e) completion \<Rightarrow> (bool, unit, unit, 'c) effect" where
  "complete_by wt (By_succeed a) = deferred_succeed wt a"
| "complete_by wt (By_fail e) = deferred_fail wt e"
| "complete_by wt (By_fail_cause x) = deferred_fail_cause wt x"
| "complete_by wt (By_interrupt i) = deferred_interrupt wt i"

primrec complete_all :: "('a, 'e, 'c) exit_watch \<Rightarrow> ('a, 'e) completion list \<Rightarrow> 'c \<Rightarrow> (bool list \<times> 'c) option" where
  "complete_all wt [] c = Some ([], c)"
| "complete_all wt (x # xs) c = (case complete_by wt x () c of
     Some (Inr b, _, c') \<Rightarrow> map_option (\<lambda>(bs, c2). (b # bs, c2)) (complete_all wt xs c')
   | _ \<Rightarrow> None)"

lemma complete_by_first:
  assumes "watch_laws wt"
  shows "\<exists>c'. complete_by wt x () c = Some (Ok (wt_borrow wt c = None), (), c')
    \<and> wt_borrow wt c' = Some (case wt_borrow wt c of None \<Rightarrow> completion_exit x | Some y \<Rightarrow> y)"
  using send_first [OF assms, of "completion_exit x" c]
  by (cases x) (auto simp: deferred_succeed_def deferred_fail_def deferred_fail_cause_def deferred_interrupt_def new_sync_def
    exit_succeed_def exit_fail_def exit_interrupt_def split: prod.splits)

lemma complete_all_done:
  assumes laws: "watch_laws wt"
  shows "wt_borrow wt c = Some y \<Longrightarrow> \<exists>c'. complete_all wt xs c = Some (replicate (length xs) False, c') \<and> wt_borrow wt c' = Some y"
proof (induction xs arbitrary: c)
  case (Cons x xs)
  from complete_by_first [OF laws, of x c] Cons.prems obtain c1 where
    "complete_by wt x () c = Some (Ok False, (), c1)" "wt_borrow wt c1 = Some y" by auto
  with Cons.IH [OF this(2)] show ?case by auto
qed simp

text \<open>
  C15. A deferred is completed once. Whatever completions race for a new deferred, the first one is
  told that it won and every later one that it did not; \<open>poll\<close> gives the first exit, \<open>wait\<close> returns
  its value or its cause, and before any completion \<open>wait\<close> does not return. An effect that fails
  inside \<open>complete\<close> leaves the deferred as it was.
\<close>

theorem deferred_first_wins:
  assumes laws: "watch_laws wt"
  shows "deferred_wait wt (deferred_make wt) = None
    \<and> (\<exists>c. complete_all wt (x # xs) (deferred_make wt) = Some (True # replicate (length xs) False, c)
        \<and> deferred_poll wt c = Some (completion_exit x) \<and> deferred_is_done wt c
        \<and> deferred_wait wt c = Some (exit_result (completion_exit x)))
    \<and> deferred_complete wt (fail e) r (c0, w) = Some (Err e, r, (c0, w))"
proof (intro conjI)
  have new: "wt_borrow wt (deferred_make wt) = None" using laws by (simp add: deferred_make_def watch_laws_def)
  then show "deferred_wait wt (deferred_make wt) = None" by (simp add: deferred_wait_def)
  from complete_by_first [OF laws, of x "deferred_make wt"] new obtain c1 where
    c1: "complete_by wt x () (deferred_make wt) = Some (Ok True, (), c1)" "wt_borrow wt c1 = Some (completion_exit x)" by auto
  from complete_all_done [OF laws c1(2), of xs] obtain c where
    "complete_all wt xs c1 = Some (replicate (length xs) False, c)" "wt_borrow wt c = Some (completion_exit x)" by blast
  with c1 show "\<exists>c. complete_all wt (x # xs) (deferred_make wt) = Some (True # replicate (length xs) False, c)
        \<and> deferred_poll wt c = Some (completion_exit x) \<and> deferred_is_done wt c
        \<and> deferred_wait wt c = Some (exit_result (completion_exit x))"
    by (intro exI [of _ c]) (simp add: deferred_poll_def deferred_is_done_def deferred_wait_def)
  show "deferred_complete wt (fail e) r (c0, w) = Some (Err e, r, (c0, w))"
    by (simp add: deferred_complete_def new_async_def run_def fail_def new_sync_def)
qed

definition value_watch :: "('v, 'v) watch" where
  "value_watch = \<lparr>wt_channel = \<lambda>v. v, wt_borrow = \<lambda>c. c, wt_send_if_modified = \<lambda>f c. f c, wt_send = \<lambda>v _. v\<rparr>"

lemma value_watch_laws: "watch_laws value_watch"
  by (simp add: watch_laws_def value_watch_def)

lemma deferred_first_wins_witness:
  "\<exists>c. complete_all value_watch [By_fail ''no'', By_succeed (1 :: int)] (deferred_make value_watch) = Some ([True, False], c)
     \<and> deferred_wait value_watch c = Some (Err (cause_fail ''no''))"
  using deferred_first_wins [OF value_watch_laws, of "By_fail ''no''" "[By_succeed (1 :: int)]" "''e''" "()" None "()"]
  by (auto simp: exit_result_def)

section \<open>Latches\<close>

inductive_cases latch_stepE: "latch_step s t"

text \<open>Whatever the interleaving, a waiter passes only when the latch was opened.\<close>

lemma latch_safe: "latch_step\<^sup>*\<^sup>* (False, Before_load, Before_swap) (f, q, p) \<Longrightarrow> q = Passed \<Longrightarrow> f"
proof -
  have "(q = Passed \<longrightarrow> f) \<and> (p = Before_swap \<longleftrightarrow> \<not> f)"
    if "latch_step\<^sup>*\<^sup>* (False, Before_load, Before_swap) (f, q, p)" for f q p
    using that by (induction "(f, q, p)" arbitrary: f q p rule: rtranclp_induct) (auto elim!: latch_stepE split: if_splits)
  then show "latch_step\<^sup>*\<^sup>* (False, Before_load, Before_swap) (f, q, p) \<Longrightarrow> q = Passed \<Longrightarrow> f" by blast
qed

text \<open>
  The flag is loaded before the \<open>Notified\<close> future is created: when the opener runs completely between
  the two, the wake-up is lost and the waiter stays where it is, in front of an open latch.
\<close>

theorem latch_lost_wakeup:
  "latch_step\<^sup>*\<^sup>* (False, Before_load, Before_swap) (True, Awaiting, Opened)
   \<and> \<not> (\<exists>s. latch_step (True, Awaiting, Opened) s)"
proof
  have "latch_step (False, Before_load, Before_swap) (False, Before_notified, Before_swap)" by (rule latch_step.load_closed)
  moreover have "latch_step (False, Before_notified, Before_swap) (True, Before_notified, Before_notify)"
    using latch_step.swap [of False Before_notified] by simp
  moreover have "latch_step (True, Before_notified, Before_notify) (True, Before_notified, Opened)"
    using latch_step.notify [of True Before_notified] by simp
  moreover have "latch_step (True, Before_notified, Opened) (True, Awaiting, Opened)" by (rule latch_step.enqueue)
  ultimately show "latch_step\<^sup>*\<^sup>* (False, Before_load, Before_swap) (True, Awaiting, Opened)"
    by (meson converse_rtranclp_into_rtranclp rtranclp.rtrancl_refl)
  show "\<not> (\<exists>s. latch_step (True, Awaiting, Opened) s)" by (auto elim: latch_stepE)
qed

section \<open>Batched requests\<close>

lemma dedup_keys_spec:
  "distinct keys \<Longrightarrow> distinct (dedup_keys keys es) \<and> set (dedup_keys keys es) = set keys \<union> entry_key ` set es"
  by (induction es arbitrary: keys) auto

definition answer :: "('k \<rightharpoonup> 'v) \<Rightarrow> 'k \<Rightarrow> ('v, 'k missing_key) exit" where
  "answer found k = (case found k of Some v \<Rightarrow> Success v | None \<Rightarrow> Failure (cause_fail (Missing_key k)))"

lemma fulfil_effect:
  assumes "watch_laws wt"
  shows "wt_borrow wt (ref_val (fulfil wt found e w) d) =
     (if d = entry_deferred e then Some (case wt_borrow wt (ref_val w d) of None \<Rightarrow> answer found (entry_key e) | Some y \<Rightarrow> y)
      else wt_borrow wt (ref_val w d))"
  using send_first(2) [OF assms, of "answer found (entry_key e)" "ref_val w (entry_deferred e)"]
  by (auto simp: fulfil_def Let_def try_succeed_def try_fail_cause_def answer_def exit_succeed_def split: option.splits)

lemma fulfil_batch:
  assumes laws: "watch_laws wt" and "distinct (map entry_deferred es)"
  shows "wt_borrow wt (ref_val (foldl (\<lambda>w e. fulfil wt found e w) w es) d) =
     (case find (\<lambda>e. entry_deferred e = d) es of
        None \<Rightarrow> wt_borrow wt (ref_val w d)
      | Some e \<Rightarrow> Some (case wt_borrow wt (ref_val w d) of None \<Rightarrow> answer found (entry_key e) | Some y \<Rightarrow> y))"
  using assms(2)
proof (induction es arbitrary: w)
  case (Cons e es)
  have "find (\<lambda>e. entry_deferred e = d) es = None" if "d = entry_deferred e"
    using Cons.prems that by (auto simp: find_None_iff) (metis imageI)
  with Cons show ?case by (auto simp: fulfil_effect [OF laws] split: option.splits)
qed simp

text \<open>
  Specification. A fetch that uses its own part of the state is a function \<open>query\<close> of the keys and that
  part. \<open>rounds\<close> queries once for each batch, in order, for the distinct keys of the batch; a failure ends it.
\<close>

primrec rounds ::
  "('k list \<Rightarrow> 'x \<Rightarrow> ('k \<rightharpoonup> 'v, 'e) result \<times> 'x) \<Rightarrow> ('k, 'd) request_entry list list \<Rightarrow> 'x \<Rightarrow> (('k \<rightharpoonup> 'v) list \<times> 'x) option" where
  "rounds query [] x = Some ([], x)"
| "rounds query (b # bs) x = (case query (rev (remdups (rev (map entry_key b)))) x of
     (Inl e, x') \<Rightarrow> None
   | (Inr found, x') \<Rightarrow> map_option (\<lambda>(ms, x2). (found # ms, x2)) (rounds query bs x'))"

definition fetch_with ::
  "('k list \<Rightarrow> 'x \<Rightarrow> ('k \<rightharpoonup> 'v, 'e) result \<times> 'x) \<Rightarrow> 'k list \<Rightarrow> ('k \<rightharpoonup> 'v, 'e, unit, ('c, 'x) refs_scheme) effect" where
  "fetch_with query ks = new_sync (\<lambda>r w. case query ks (refs.more w) of
     (res, x') \<Rightarrow> (res, r, \<lparr>ref_val = ref_val w, ref_next = ref_next w, \<dots> = x'\<rparr>))"

lemma remdups_snoc: "remdups (xs @ [x]) = remdups (filter (\<lambda>y. y \<noteq> x) xs) @ [x]"
  by (induction xs) auto

lemma dedup_keys_remdups: "dedup_keys keys es = keys @ rev (remdups (rev (filter (\<lambda>k. k \<notin> set keys) (map entry_key es))))"
proof (induction es arbitrary: keys)
  case (Cons e es)
  have "filter (\<lambda>y. y \<noteq> entry_key e) (rev (filter (\<lambda>k. k \<notin> set keys) (map entry_key es)))
      = rev (filter (\<lambda>k. k \<notin> set (keys @ [entry_key e])) (map entry_key es))"
    by (auto simp: rev_filter intro!: arg_cong [where f = rev] filter_cong)
  with Cons show ?case by (simp add: remdups_snoc)
qed simp

lemma fulfil_more: "refs.more (foldl (\<lambda>w e. fulfil wt found e w) w es) = refs.more w"
  by (induction es arbitrary: w) (simp_all add: fulfil_def put_ref_def Let_def)

text \<open>
  C16. Batched requests. The batching resolver fetches once per batch, in order, for the distinct keys of
  the batch in the order they first occur, and nothing else touches what the fetches use. When every
  fetch succeeds it returns with every pending deferred completed: with the value its batch's fetch found
  under its key, or with \<open>MissingKey\<close>; other deferreds are left alone. When a fetch fails it panics.
\<close>

theorem batching_completes:
  fixes w :: "('c, 'x) refs_scheme"
  assumes laws: "watch_laws wt" and "distinct (map entry_deferred (concat batches))"
    and pending: "\<And>e. e \<in> set (concat batches) \<Longrightarrow> wt_borrow wt (ref_val w (entry_deferred e)) = None"
  shows "case rounds query batches (refs.more w) of
      None \<Rightarrow> (batching wt (fetch_with query) batches :: (unit, unit, _, _) effect) () w = None
    | Some (ms, x) \<Rightarrow> \<exists>w'. (batching wt (fetch_with query) batches :: (unit, unit, _, _) effect) () w = Some (Ok (), (), w')
        \<and> refs.more w' = x \<and> length ms = length batches
        \<and> (\<forall>i < length batches. \<forall>e \<in> set (batches ! i).
             deferred_poll wt (ref_val w' (entry_deferred e)) = Some (answer (ms ! i) (entry_key e)))
        \<and> (\<forall>d. d \<notin> entry_deferred ` set (concat batches) \<longrightarrow> wt_borrow wt (ref_val w' d) = wt_borrow wt (ref_val w d))"
  using assms(2) pending
proof (induction batches arbitrary: w)
  case Nil
  then show ?case by (auto simp: succeed_def new_sync_def)
next
  case (Cons b bs)
  have keys: "dedup_keys [] b = rev (remdups (rev (map entry_key b)))" using dedup_keys_remdups [of "[]" b] by simp
  obtain res x1 where query: "query (rev (remdups (rev (map entry_key b)))) (refs.more w) = (res, x1)" by fastforce
  show ?case
  proof (cases res)
    case (Inl e)
    then show ?thesis using query by (simp add: new_async_def run_def fetch_with_def new_sync_def keys)
  next
    case (Inr found)
    let ?w1 = "\<lparr>ref_val = ref_val w, ref_next = ref_next w, \<dots> = x1\<rparr>"
    let ?w = "foldl (\<lambda>w e. fulfil wt found e w) ?w1 b"
    have step: "(batching wt (fetch_with query) (b # bs) :: (unit, unit, _, _) effect) () w = (batching wt (fetch_with query) bs :: (unit, unit, _, _) effect) () ?w"
      using query Inr by (simp add: new_async_def run_def fetch_with_def new_sync_def keys)
    have more: "refs.more ?w = x1" by (simp add: fulfil_more)
    note eff = fulfil_batch [OF laws, of b found ?w1]
    have d: "distinct (map entry_deferred b)" using Cons.prems(1) by simp
    have mine: "wt_borrow wt (ref_val ?w (entry_deferred e)) = Some (answer found (entry_key e))" if "e \<in> set b" for e
    proof -
      have "find (\<lambda>x. entry_deferred x = entry_deferred e) b = Some e" using that d by (induction b) auto
      then show ?thesis using eff [OF d] Cons.prems(2) [of e] that by simp
    qed
    have other: "wt_borrow wt (ref_val ?w x) = wt_borrow wt (ref_val w x)" if "x \<notin> entry_deferred ` set b" for x
      using eff [OF d, of x] that find_None_iff [of "\<lambda>e. entry_deferred e = x" b] by auto
    have apart: "entry_deferred e \<notin> entry_deferred ` set b" if "e \<in> set (concat bs)" for e
      using Cons.prems(1) that by (auto simp: image_iff)
    have IH: "case rounds query bs x1 of
        None \<Rightarrow> (batching wt (fetch_with query) bs :: (unit, unit, _, _) effect) () ?w = None
      | Some (ms, x) \<Rightarrow> \<exists>w'. (batching wt (fetch_with query) bs :: (unit, unit, _, _) effect) () ?w = Some (Ok (), (), w')
          \<and> refs.more w' = x \<and> length ms = length bs
          \<and> (\<forall>i < length bs. \<forall>e \<in> set (bs ! i). deferred_poll wt (ref_val w' (entry_deferred e)) = Some (answer (ms ! i) (entry_key e)))
          \<and> (\<forall>d. d \<notin> entry_deferred ` set (concat bs) \<longrightarrow> wt_borrow wt (ref_val w' d) = wt_borrow wt (ref_val ?w d))"
      by (rule Cons.IH [of ?w, unfolded more]) (use Cons.prems other apart in auto)
    show ?thesis
    proof (cases "rounds query bs x1")
      case None
      then show ?thesis using IH query Inr step by simp
    next
      case (Some mx)
      obtain ms x where mx: "mx = (ms, x)" by fastforce
      from IH Some mx obtain w' where w': "(batching wt (fetch_with query) bs :: (unit, unit, _, _) effect) () ?w = Some (Ok (), (), w')"
          "refs.more w' = x" "length ms = length bs"
        and fin: "\<And>i e. i < length bs \<Longrightarrow> e \<in> set (bs ! i) \<Longrightarrow> deferred_poll wt (ref_val w' (entry_deferred e)) = Some (answer (ms ! i) (entry_key e))"
        and rest: "\<And>d. d \<notin> entry_deferred ` set (concat bs) \<Longrightarrow> wt_borrow wt (ref_val w' d) = wt_borrow wt (ref_val ?w d)" by auto
      have first: "deferred_poll wt (ref_val w' (entry_deferred e)) = Some (answer found (entry_key e))" if "e \<in> set b" for e
      proof -
        have "entry_deferred e \<notin> entry_deferred ` set (concat bs)" using Cons.prems(1) that by (auto simp: image_iff)
        then show ?thesis using rest mine [OF that] by (simp add: deferred_poll_def)
      qed
      have "deferred_poll wt (ref_val w' (entry_deferred e)) = Some (answer ((found # ms) ! i) (entry_key e))"
        if "i < length (b # bs)" "e \<in> set ((b # bs) ! i)" for i e
        using that first fin by (cases i) auto
      moreover have "wt_borrow wt (ref_val w' x) = wt_borrow wt (ref_val w x)" if "x \<notin> entry_deferred ` set (concat (b # bs))" for x
        using that by (simp add: rest other image_Un)
      ultimately show ?thesis using w' query Inr Some mx step by (simp del: batching.simps)
    qed
  qed
qed

text \<open>The witness counts the calls of its fetch.\<close>

lemma batching_completes_witness:
  "\<exists>w'. (batching value_watch (fetch_with (\<lambda>ks n. (Ok (\<lambda>k. if k = ''a'' then Some (1 :: int) else None) :: unit + _, Suc n)))
       [[\<lparr>entry_key = ''a'', entry_deferred = 0\<rparr>, \<lparr>entry_key = ''b'', entry_deferred = 1\<rparr>], [\<lparr>entry_key = ''a'', entry_deferred = 2\<rparr>]] :: (unit, unit, _, _) effect) ()
       \<lparr>ref_val = \<lambda>_. None, ref_next = 3, \<dots> = 0 :: nat\<rparr> = Some (Ok (), (), w')
     \<and> refs.more w' = 2 \<and> deferred_poll value_watch (ref_val w' 0) = Some (Success 1)
     \<and> deferred_poll value_watch (ref_val w' 1) = Some (Failure (cause_fail (Missing_key ''b'')))"
proof -
  let ?w = "\<lparr>ref_val = \<lambda>_. None, ref_next = 3, \<dots> = 0\<rparr> :: ((int, string missing_key) exit option, nat) refs_scheme"
  let ?bs = "[[\<lparr>entry_key = ''a'', entry_deferred = 0\<rparr>, \<lparr>entry_key = ''b'', entry_deferred = 1\<rparr>], [\<lparr>entry_key = ''a'', entry_deferred = 2\<rparr>]] :: (string, nat) request_entry list list"
  have "wt_borrow value_watch (ref_val ?w d) = None" for d by (simp add: value_watch_def)
  then show ?thesis
    using batching_completes [OF value_watch_laws, where w = ?w and query = "\<lambda>ks n. (Ok (\<lambda>k. if k = ''a'' then Some 1 else None) :: unit + _, Suc n)"
        and batches = ?bs]
    by (force simp: answer_def less_Suc_eq numeral_2_eq_2 simp del: batching.simps)
qed

end
