(* ===== verification/Pools.thy ===== *)
theory Pools
  imports Cells
begin

text \<open>
  \<open>crates/id_effect/src/resource/pool.rs\<close>: the resource pool and the pool with keys, over the semaphore
  of \<open>Cells\<close> and the scopes of \<open>Scopes\<close>.

  The shared state has the semaphore, the cell with the idle slots, the clock (\<open>Instant::now\<close> reads it)
  and the scopes. A finalizer that a checkout registers is a value of \<open>pool_finalizer\<close>, which
  \<open>run_finalizer\<close> executes; closing a scope executes those that the scope model logs, in that order.
  What the factory uses is the component \<open>p_rest\<close>. The two pools of the source differ in how they keep
  idle values, and share the protocol of \<open>get\<close>, which is the definition \<open>checkout\<close>.
\<close>

datatype 'i pool_finalizer = Release_permit | Check_in 'i

record ('p, 'i, 's, 'x) pool_world =
  p_sem :: 's
  p_state :: 'p
  p_now :: nat
  p_scopes :: "'i pool_finalizer scopes"
  p_rest :: 'x

section \<open>The protocol of a checkout\<close>

definition pool_acquire ::
  "'s tokio_semaphore \<Rightarrow> nat \<Rightarrow> ('p, 'i, 's, 'x) pool_world \<Rightarrow> ('p, 'i, 's, 'x) pool_world option" where
  "pool_acquire ts scope w =
     (case (sem_acquire ts Release_permit :: (permit, unit, _, _) effect) scope (p_sem w, p_scopes w) of
        Some (_, _, s, sc) \<Rightarrow> Some (w\<lparr>p_sem := s, p_scopes := sc\<rparr>)
      | None \<Rightarrow> None)"

text \<open>
  \<open>get\<close>: acquire a permit, take an idle value or run the factory, and register the check-in. A closed
  scope drops the finalizer.
\<close>

definition checkout ::
  "'s tokio_semaphore \<Rightarrow> (nat \<Rightarrow> 'p \<Rightarrow> 'a option \<times> 'p) \<Rightarrow> ('a, 'e, unit, 'x) effect \<Rightarrow> ('a \<Rightarrow> 'i)
    \<Rightarrow> ('a, 'e, nat, ('p, 'i, 's, 'x) pool_world) effect" where
  "checkout ts take_slot factory item = new_async (\<lambda>scope w. case pool_acquire ts scope w of
     None \<Rightarrow> None
   | Some w1 \<Rightarrow> (case take_slot (p_now w1) (p_state w1) of (taken, st) \<Rightarrow>
       let w2 = w1\<lparr>p_state := st\<rparr> in
       (case (case taken of
                Some a \<Rightarrow> Some (Ok a, w2)
              | None \<Rightarrow> (case run factory () (p_rest w2) of
                  None \<Rightarrow> None
                | Some (res, _, x) \<Rightarrow> Some (res, w2\<lparr>p_rest := x\<rparr>))) of
          None \<Rightarrow> None
        | Some (Inl e, w3) \<Rightarrow> Some (Err e, scope, w3)
        | Some (Inr a, w3) \<Rightarrow> (case add_finalizer scope (Check_in (item a)) (p_scopes w3) of
            None \<Rightarrow> None
          | Some (_, sc) \<Rightarrow> Some (Ok a, scope, w3\<lparr>p_scopes := sc\<rparr>)))))"

definition run_finalizer ::
  "'s tokio_semaphore \<Rightarrow> (nat \<Rightarrow> 'i \<Rightarrow> 'p \<Rightarrow> 'p) \<Rightarrow> 'i pool_finalizer \<Rightarrow> ('p, 'i, 's, 'x) pool_world \<Rightarrow> ('p, 'i, 's, 'x) pool_world" where
  "run_finalizer ts check_in f w = (case f of
     Release_permit \<Rightarrow> w\<lparr>p_sem := ts_release ts (p_sem w)\<rparr>
   | Check_in i \<Rightarrow> w\<lparr>p_state := check_in (p_now w) i (p_state w)\<rparr>)"

definition close_pool_scope ::
  "'s tokio_semaphore \<Rightarrow> (nat \<Rightarrow> 'i \<Rightarrow> 'p \<Rightarrow> 'p) \<Rightarrow> nat \<Rightarrow> (unit, unit) exit \<Rightarrow> ('p, 'i, 's, 'x) pool_world
    \<Rightarrow> (bool \<times> ('p, 'i, 's, 'x) pool_world) option" where
  "close_pool_scope ts check_in scope exit w = (case close_with_exit scope exit (p_scopes w) of
     None \<Rightarrow> None
   | Some (b, sc) \<Rightarrow> Some (b, fold (run_finalizer ts check_in) (map (\<lambda>(_, f, _). f) (drop (length (log (p_scopes w))) (log sc)))
       (w\<lparr>p_scopes := sc\<rparr>)))"

section \<open>Pools\<close>

record 'a pool_state =
  idle :: "('a \<times> nat) list"
  discard :: "'a list"

definition pool_default :: "'a pool_state" where
  "pool_default = \<lparr>idle = [], discard = []\<rparr>"

fun take_slots :: "nat option \<Rightarrow> nat \<Rightarrow> ('a \<Rightarrow> bool) \<Rightarrow> ('a \<times> nat) list \<Rightarrow> 'a option \<times> ('a \<times> nat) list" where
  "take_slots ttl now discarded [] = (None, [])"
| "take_slots ttl now discarded ((v, at) # slots) =
     (if (case ttl of Some t \<Rightarrow> t < now - at | None \<Rightarrow> False) then take_slots ttl now discarded slots
      else if discarded v then take_slots ttl now discarded slots
      else (Some v, slots))"

definition take_idle :: "nat option \<Rightarrow> nat \<Rightarrow> 'a pool_state \<Rightarrow> 'a option \<times> 'a pool_state" where
  "take_idle ttl now st = (case take_slots ttl now (\<lambda>v. v \<in> set (discard st)) (idle st) of (v, slots) \<Rightarrow> (v, st\<lparr>idle := slots\<rparr>))"

record ('a, 'e, 'x) pool =
  pl_factory :: "('a, 'e, unit, 'x) effect"
  pl_ttl :: "nat option"

definition pool_make ::
  "'s tokio_semaphore \<Rightarrow> nat \<Rightarrow> ('a, 'e, unit, 'x) effect \<Rightarrow> ('a pool_state, 'a, 's, 'x) pool_world
    \<Rightarrow> ('a, 'e, 'x) pool \<times> ('a pool_state, 'a, 's, 'x) pool_world" where
  "pool_make ts cap factory w = (\<lparr>pl_factory = factory, pl_ttl = None\<rparr>, w\<lparr>p_sem := ts_new ts cap, p_state := pool_default\<rparr>)"

definition pool_make_with_ttl ::
  "'s tokio_semaphore \<Rightarrow> nat \<Rightarrow> nat \<Rightarrow> ('a, 'e, unit, 'x) effect \<Rightarrow> ('a pool_state, 'a, 's, 'x) pool_world
    \<Rightarrow> ('a, 'e, 'x) pool \<times> ('a pool_state, 'a, 's, 'x) pool_world" where
  "pool_make_with_ttl ts cap ttl factory w = (case pool_make ts cap factory w of (p, w') \<Rightarrow> (p\<lparr>pl_ttl := Some ttl\<rparr>, w'))"

definition pool_invalidate :: "'a \<Rightarrow> 'a pool_state \<Rightarrow> 'a pool_state" where
  "pool_invalidate item st = st\<lparr>discard := discard st @ [item], idle := filter (\<lambda>(v, _). v \<noteq> item) (idle st)\<rparr>"

definition pool_check_in :: "nat \<Rightarrow> 'a \<Rightarrow> 'a pool_state \<Rightarrow> 'a pool_state" where
  "pool_check_in now v st = (if v \<in> set (discard st) then st else st\<lparr>idle := idle st @ [(v, now)]\<rparr>)"

definition pool_get ::
  "'s tokio_semaphore \<Rightarrow> ('a, 'e, 'x) pool \<Rightarrow> ('a, 'e, nat, ('a pool_state, 'a, 's, 'x) pool_world) effect" where
  "pool_get ts p = checkout ts (take_idle (pl_ttl p)) (pl_factory p) (\<lambda>a. a)"

section \<open>Pools with keys\<close>

record ('k, 'a) keyed_state =
  per_key :: "'k \<rightharpoonup> ('a \<times> nat) list"
  key_discard :: "('k \<times> 'a) list"

definition keyed_default :: "('k, 'a) keyed_state" where
  "keyed_default = \<lparr>per_key = Map.empty, key_discard = []\<rparr>"

definition take_idle_keyed :: "'k \<Rightarrow> nat option \<Rightarrow> nat \<Rightarrow> ('k, 'a) keyed_state \<Rightarrow> 'a option \<times> ('k, 'a) keyed_state" where
  "take_idle_keyed key ttl now st = (case per_key st key of
     None \<Rightarrow> (None, st)
   | Some slots \<Rightarrow> (case take_slots ttl now (\<lambda>v. (key, v) \<in> set (key_discard st)) slots of
       (Some v, rest) \<Rightarrow> (Some v, st\<lparr>per_key := (per_key st)(key := if rest = [] then None else Some rest)\<rparr>)
     | (None, rest) \<Rightarrow> (None, st\<lparr>per_key := (per_key st)(key := None)\<rparr>)))"

record ('k, 'a, 'e, 'x) keyed_pool =
  kp_factory :: "'k \<Rightarrow> ('a, 'e, unit, 'x) effect"
  kp_ttl :: "nat option"

definition keyed_make ::
  "'s tokio_semaphore \<Rightarrow> nat \<Rightarrow> ('k \<Rightarrow> ('a, 'e, unit, 'x) effect) \<Rightarrow> (('k, 'a) keyed_state, 'k \<times> 'a, 's, 'x) pool_world
    \<Rightarrow> ('k, 'a, 'e, 'x) keyed_pool \<times> (('k, 'a) keyed_state, 'k \<times> 'a, 's, 'x) pool_world" where
  "keyed_make ts cap factory w = (\<lparr>kp_factory = factory, kp_ttl = None\<rparr>, w\<lparr>p_sem := ts_new ts cap, p_state := keyed_default\<rparr>)"

definition keyed_make_with_ttl ::
  "'s tokio_semaphore \<Rightarrow> nat \<Rightarrow> nat \<Rightarrow> ('k \<Rightarrow> ('a, 'e, unit, 'x) effect) \<Rightarrow> (('k, 'a) keyed_state, 'k \<times> 'a, 's, 'x) pool_world
    \<Rightarrow> ('k, 'a, 'e, 'x) keyed_pool \<times> (('k, 'a) keyed_state, 'k \<times> 'a, 's, 'x) pool_world" where
  "keyed_make_with_ttl ts cap ttl factory w = (case keyed_make ts cap factory w of (p, w') \<Rightarrow> (p\<lparr>kp_ttl := Some ttl\<rparr>, w'))"

definition keyed_invalidate :: "'k \<Rightarrow> 'a \<Rightarrow> ('k, 'a) keyed_state \<Rightarrow> ('k, 'a) keyed_state" where
  "keyed_invalidate key item st =
     (let st1 = st\<lparr>key_discard := key_discard st @ [(key, item)]\<rparr> in
      case per_key st1 key of
        None \<Rightarrow> st1
      | Some slots \<Rightarrow> let slots' = filter (\<lambda>(v, _). v \<noteq> item) slots in
          st1\<lparr>per_key := (per_key st1)(key := if slots' = [] then None else Some slots')\<rparr>)"

definition keyed_check_in :: "nat \<Rightarrow> 'k \<times> 'a \<Rightarrow> ('k, 'a) keyed_state \<Rightarrow> ('k, 'a) keyed_state" where
  "keyed_check_in now ka st = (case ka of (k, v) \<Rightarrow>
     if (k, v) \<in> set (key_discard st) then st
     else st\<lparr>per_key := (per_key st)(k \<mapsto> (case per_key st k of Some slots \<Rightarrow> slots | None \<Rightarrow> []) @ [(v, now)])\<rparr>)"

definition keyed_get ::
  "'s tokio_semaphore \<Rightarrow> ('k, 'a, 'e, 'x) keyed_pool \<Rightarrow> 'k
    \<Rightarrow> ('a, 'e, nat, (('k, 'a) keyed_state, 'k \<times> 'a, 's, 'x) pool_world) effect" where
  "keyed_get ts p key = checkout ts (take_idle_keyed key (kp_ttl p)) (kp_factory p key) (Pair key)"

section \<open>Capacity\<close>

definition permits_in :: "'i pool_finalizer list \<Rightarrow> nat" where
  "permits_in fs = length (filter (\<lambda>f. f = Release_permit) fs)"

definition loans_in :: "'i pool_finalizer list \<Rightarrow> nat" where
  "loans_in fs = length (filter (\<lambda>f. f \<noteq> Release_permit) fs)"

lemma finalizers_in_simps [simp]:
  "permits_in [] = 0" "permits_in (fs @ gs) = permits_in fs + permits_in gs" "permits_in (rev fs) = permits_in fs"
  "permits_in [Release_permit] = 1" "permits_in [Check_in i] = 0"
  "loans_in [] = 0" "loans_in (fs @ gs) = loans_in fs + loans_in gs" "loans_in [Release_permit] = 0" "loans_in [Check_in i] = 1"
  by (simp_all add: permits_in_def loans_in_def rev_filter [symmetric])

text \<open>The permits that open scopes will give back, and the values that they will check in.\<close>

definition held :: "'i pool_finalizer scopes \<Rightarrow> nat" where
  "held sc = (\<Sum>i<used sc. permits_in (bucket (scope_at sc i)))"

definition lent :: "'i pool_finalizer scopes \<Rightarrow> nat" where
  "lent sc = (\<Sum>i<used sc. loans_in (bucket (scope_at sc i)))"

definition pool_ok :: "'s tokio_semaphore \<Rightarrow> nat \<Rightarrow> ('p, 'i, 's, 'x) pool_world \<Rightarrow> bool" where
  "pool_ok ts cap w \<longleftrightarrow> scopes_ok (p_scopes w) \<and> ts_available ts (p_sem w) + held (p_scopes w) = cap
     \<and> (\<forall>i. loans_in (bucket (scope_at (p_scopes w) i)) \<le> permits_in (bucket (scope_at (p_scopes w) i)))
     \<and> (\<forall>i \<ge> used (p_scopes w). bucket (scope_at (p_scopes w) i) = [])"

lemma lent_held: "pool_ok ts cap w \<Longrightarrow> lent (p_scopes w) \<le> held (p_scopes w)"
  unfolding pool_ok_def lent_def held_def by (intro sum_mono) blast

lemma add_finalizer_cases:
  assumes "add_finalizer i f sc = Some (b, sc')"
  shows "(\<not> b \<and> sc' = sc) \<or> (b \<and> sc' = put_scope i ((scope_at sc i)\<lparr>bucket := bucket (scope_at sc i) @ [f]\<rparr>) sc)"
  using assms by (auto simp: add_finalizer_def split: option.splits bool.splits)

lemma held_put:
  assumes "i < used sc"
  shows "held (put_scope i ((scope_at sc i)\<lparr>bucket := bucket (scope_at sc i) @ fs\<rparr>) sc) = held sc + permits_in fs"
proof -
  have "(\<Sum>k<used sc. permits_in (bucket (if k = i then (scope_at sc i)\<lparr>bucket := bucket (scope_at sc i) @ fs\<rparr> else scope_at sc k)))
      = (\<Sum>k<used sc. permits_in (bucket (scope_at sc k)) + (if k = i then permits_in fs else 0))"
    by (intro sum.cong) auto
  also have "\<dots> = held sc + permits_in fs" using assms by (simp add: held_def sum.distrib sum.delta)
  finally show ?thesis by (simp add: held_def put_scope_def)
qed

lemma pool_ok_add:
  assumes ok: "pool_ok ts cap w" and i: "i < used (p_scopes w)" and add: "add_finalizer i f (p_scopes w) = Some (b, sc)"
    and f: "f = Release_permit \<or> loans_in (bucket (scope_at (p_scopes w) i)) < permits_in (bucket (scope_at (p_scopes w) i)) \<or> \<not> b"
    and s: "ts_available ts s + (if b then permits_in [f] else 0) = ts_available ts (p_sem w)"
  shows "pool_ok ts cap (w\<lparr>p_sem := s, p_scopes := sc\<rparr>)" and "used sc = used (p_scopes w)"
proof -
  show used: "used sc = used (p_scopes w)" using scopes_ok_add_finalizer(2) [OF _ add] ok by (simp add: pool_ok_def)
  have sok: "scopes_ok sc" using scopes_ok_add_finalizer(1) [OF _ add] ok by (simp add: pool_ok_def)
  show "pool_ok ts cap (w\<lparr>p_sem := s, p_scopes := sc\<rparr>)"
  proof (cases b)
    case False
    with add_finalizer_cases [OF add] have "sc = p_scopes w" by simp
    with ok s False show ?thesis by (simp add: pool_ok_def)
  next
    case True
    with add_finalizer_cases [OF add] have sc: "sc = put_scope i ((scope_at (p_scopes w) i)\<lparr>bucket := bucket (scope_at (p_scopes w) i) @ [f]\<rparr>) (p_scopes w)"
      by simp
    have "held sc = held (p_scopes w) + permits_in [f]" unfolding sc by (rule held_put [OF i])
    moreover have "loans_in (bucket (scope_at sc k)) \<le> permits_in (bucket (scope_at sc k))" for k
      using ok f True by (cases f) (auto simp: sc put_scope_def pool_ok_def intro: le_SucI)
    moreover have "bucket (scope_at sc k) = []" if "used sc \<le> k" for k
      using ok i that used by (simp add: sc put_scope_def pool_ok_def)
    ultimately show ?thesis using ok s True sok by (simp add: pool_ok_def)
  qed
qed

lemma acquire_available:
  assumes "semaphore_laws ts" "ts_acquire ts s = Some s'"
  shows "Suc (ts_available ts s') = ts_available ts s" "ts_available ts (ts_release ts s') = ts_available ts s"
  using assms unfolding semaphore_laws_def by (metis option.distinct(1) option.inject neq0_conv)+

lemma pool_acquire_ok:
  assumes laws: "semaphore_laws ts" and ok: "pool_ok ts cap w" and i: "i < used (p_scopes w)"
    and acq: "pool_acquire ts i w = Some w1"
  shows "\<exists>s sc b. w1 = w\<lparr>p_sem := s, p_scopes := sc\<rparr> \<and> used sc = used (p_scopes w) \<and> pool_ok ts cap w1
    \<and> add_finalizer i Release_permit (p_scopes w) = Some (b, sc)
    \<and> (b \<longrightarrow> loans_in (bucket (scope_at sc i)) < permits_in (bucket (scope_at sc i)))"
proof -
  from acq obtain s' b sc where a: "ts_acquire ts (p_sem w) = Some s'" "add_finalizer i Release_permit (p_scopes w) = Some (b, sc)"
    and w1: "w1 = w\<lparr>p_sem := (if b then s' else ts_release ts s'), p_scopes := sc\<rparr>"
    by (auto simp: pool_acquire_def sem_acquire_def new_async_def split: option.splits prod.splits)
  have "pool_ok ts cap w1"
    unfolding w1 using acquire_available [OF laws a(1)] by (intro pool_ok_add(1) [OF ok i a(2)]) auto
  moreover have "used sc = used (p_scopes w)" using scopes_ok_add_finalizer(2) [OF _ a(2)] ok by (simp add: pool_ok_def)
  moreover have "loans_in (bucket (scope_at sc i)) < permits_in (bucket (scope_at sc i))" if b
    using add_finalizer_cases [OF a(2)] that ok by (auto simp: put_scope_def pool_ok_def less_Suc_eq_le)
  ultimately show ?thesis using w1 a(2) by blast
qed

lemma add_again: "add_finalizer i f sc = Some (False, sc) \<Longrightarrow> \<exists>b. add_finalizer i g sc = Some (b, sc') \<Longrightarrow> sc' = sc"
  by (auto simp: add_finalizer_def split: option.splits bool.splits)

lemma checkout_ok:
  assumes laws: "semaphore_laws ts" and ok: "pool_ok ts cap w" and i: "i < used (p_scopes w)"
    and get: "checkout ts tk factory item i w = Some (res, i', w')"
  shows "pool_ok ts cap w' \<and> used (p_scopes w') = used (p_scopes w)"
proof -
  from get obtain w1 where acq: "pool_acquire ts i w = Some w1" by (auto simp: checkout_def new_async_def split: option.splits)
  from pool_acquire_ok [OF laws ok i acq] obtain s sc b where w1: "w1 = w\<lparr>p_sem := s, p_scopes := sc\<rparr>" "used sc = used (p_scopes w)"
    and ok1: "pool_ok ts cap w1" and b: "add_finalizer i Release_permit (p_scopes w) = Some (b, sc)"
      "b \<Longrightarrow> loans_in (bucket (scope_at sc i)) < permits_in (bucket (scope_at sc i))" by blast
  obtain taken st where t: "tk (p_now w1) (p_state w1) = (taken, st)" by fastforce
  let ?w2 = "w1\<lparr>p_state := st\<rparr>"
  let ?inner = "case taken of Some a \<Rightarrow> Some (Ok a, ?w2) | None \<Rightarrow> (case run factory () (p_rest ?w2) of
      None \<Rightarrow> None | Some (res, _, x) \<Rightarrow> Some (res, ?w2\<lparr>p_rest := x\<rparr>))"
  have rest: "\<exists>x. w3 = ?w2\<lparr>p_rest := x\<rparr>" if "?inner = Some (y, w3)" for y w3
  proof (cases taken)
    case (Some a)
    with that have "w3 = ?w2\<lparr>p_rest := p_rest ?w2\<rparr>" by simp
    then show ?thesis by blast
  next
    case None
    with that show ?thesis by (auto split: option.splits)
  qed
  have got: "(case ?inner of None \<Rightarrow> None
      | Some (Inl e, w3) \<Rightarrow> Some (Err e, i, w3)
      | Some (Inr a, w3) \<Rightarrow> (case add_finalizer i (Check_in (item a)) (p_scopes w3) of None \<Rightarrow> None
          | Some (_, sc) \<Rightarrow> Some (Ok a, i, w3\<lparr>p_scopes := sc\<rparr>))) = Some (res, i', w')"
    using get by (simp add: checkout_def new_async_def acq t Let_def)
  have "(\<exists>st x. w' = w1\<lparr>p_state := st, p_rest := x\<rparr>) \<or>
    (\<exists>st x a c sc'. add_finalizer i (Check_in a) sc = Some (c, sc') \<and> w' = w1\<lparr>p_state := st, p_rest := x, p_scopes := sc'\<rparr>)"
  proof (cases ?inner)
    case None
    then show ?thesis using got by simp
  next
    case (Some yw)
    obtain y w3 where yw: "yw = (y, w3)" by fastforce
    from rest [OF Some [unfolded yw]] obtain x where w3: "w3 = ?w2\<lparr>p_rest := x\<rparr>" by blast
    have sc3: "p_scopes w3 = sc" by (simp add: w3 w1)
    show ?thesis
    proof (cases y)
      case (Inl e)
      then show ?thesis using got Some by (auto simp: yw w3)
    next
      case (Inr a)
      with got have "(case add_finalizer i (Check_in (item a)) sc of None \<Rightarrow> None
          | Some (_, sc) \<Rightarrow> Some (Ok a, i, w3\<lparr>p_scopes := sc\<rparr>)) = Some (res, i', w')"
        unfolding Some yw by (simp add: sc3)
      then obtain c sc' where "add_finalizer i (Check_in (item a)) sc = Some (c, sc')" "w' = w3\<lparr>p_scopes := sc'\<rparr>"
        by (auto split: option.splits)
      then show ?thesis unfolding w3 by blast
    qed
  qed
  then show ?thesis
  proof (elim disjE exE conjE)
    fix st x assume "w' = w1\<lparr>p_state := st, p_rest := x\<rparr>"
    then show ?thesis using ok1 w1 by (simp add: pool_ok_def)
  next
    fix st x a c sc' assume add: "add_finalizer i (Check_in a) sc = Some (c, sc')" and w': "w' = w1\<lparr>p_state := st, p_rest := x, p_scopes := sc'\<rparr>"
    let ?w = "w1\<lparr>p_state := st, p_rest := x\<rparr>"
    have ok2: "pool_ok ts cap ?w" using ok1 by (simp add: pool_ok_def)
    have "\<not> c" if "\<not> b" using b(1) that add by (auto simp: add_finalizer_def split: option.splits bool.splits)
    moreover have "add_finalizer i (Check_in a) (p_scopes ?w) = Some (c, sc')" "i < used (p_scopes ?w)" using add i w1 by simp_all
    ultimately have "pool_ok ts cap (?w\<lparr>p_sem := p_sem ?w, p_scopes := sc'\<rparr>)"
      using b(2) w1 pool_ok_add [OF ok2, of i "Check_in a" c sc' "p_sem ?w"] by (cases c) auto
    moreover have "used sc' = used sc" using scopes_ok_add_finalizer(2) [OF _ add] ok1 w1 by (simp add: pool_ok_def)
    ultimately show ?thesis using w1 by (simp add: w' pool_ok_def)
  qed
qed

lemma run_finalizers_effect:
  assumes "semaphore_laws ts"
  shows "ts_available ts (p_sem (fold (run_finalizer ts ci) fs w)) = ts_available ts (p_sem w) + permits_in fs"
    and "p_scopes (fold (run_finalizer ts ci) fs w) = p_scopes w"
  using assms by (induction fs arbitrary: w)
    (auto simp: run_finalizer_def semaphore_laws_def permits_in_def split: pool_finalizer.splits)

lemma sum_closed:
  fixes f :: "nat \<Rightarrow> nat"
  assumes "distinct ks" "\<And>k. n \<le> k \<Longrightarrow> f k = 0"
  shows "(\<Sum>k<n. if k \<in> set ks then 0 else f k) + sum_list (map f ks) = (\<Sum>k<n. f k)"
proof -
  have "(\<Sum>k\<in>set ks. f k) = (\<Sum>k\<in>set ks \<inter> {..<n}. f k)"
    by (rule sum.mono_neutral_right) (auto, metis assms(2) less_irrefl not_le)
  also have "\<dots> = (\<Sum>k<n. if k \<in> set ks then f k else 0)"
    by (simp add: Int_commute flip: sum.inter_restrict)
  finally have "sum_list (map f ks) = (\<Sum>k<n. if k \<in> set ks then f k else 0)"
    using assms(1) by (simp add: sum_list_distinct_conv_sum_set)
  then have "(\<Sum>k<n. if k \<in> set ks then 0 else f k) + sum_list (map f ks) =
      (\<Sum>k<n. (if k \<in> set ks then 0 else f k) + (if k \<in> set ks then f k else 0))"
    by (simp add: sum.distrib)
  also have "\<dots> = (\<Sum>k<n. f k)" by (rule sum.cong) auto
  finally show ?thesis .
qed

lemma permits_in_finalizations:
  "permits_in (map (\<lambda>(_, f, _). f) (concat (map (finalizations sc exit) ks))) =
     sum_list (map (\<lambda>k. permits_in (bucket (scope_at sc k))) ks)"
  by (induction ks) (simp_all add: finalizations_def comp_def)

lemma close_pool_scope_ok:
  assumes laws: "semaphore_laws ts" and ok: "pool_ok ts cap w" and close: "close_pool_scope ts ci i exit w = Some (b, w')"
  shows "pool_ok ts cap w'"
proof -
  from close obtain sc where c: "close_with_exit i exit (p_scopes w) = Some (b, sc)"
    and w': "w' = fold (run_finalizer ts ci) (map (\<lambda>(_, f, _). f) (drop (length (log (p_scopes w))) (log sc))) (w\<lparr>p_scopes := sc\<rparr>)"
    by (auto simp: close_pool_scope_def split: option.splits)
  note r = close_result [OF c]
  note run = run_finalizers_effect [OF laws, of ci _ "w\<lparr>p_scopes := sc\<rparr>"]
  show ?thesis
  proof (cases b)
    case False
    then have "sc = p_scopes w" using r(3) by simp
    then show ?thesis using ok by (simp add: w' run pool_ok_def)
  next
    case True
    then have "close_with_exit i exit (p_scopes w) = Some (True, sc)" using c by simp
    from close_log [OF this] obtain ks where d: "distinct (ks @ [i])"
      and lg: "log sc = log (p_scopes w) @ concat (map (finalizations (p_scopes w) exit) (ks @ [i]))"
      and bk: "\<And>k. bucket (scope_at sc k) = (if k \<in> set (ks @ [i]) then [] else bucket (scope_at (p_scopes w) k))" by blast
    have ne: "\<And>k. used (p_scopes w) \<le> k \<Longrightarrow> permits_in (bucket (scope_at (p_scopes w) k)) = 0" using ok by (simp add: pool_ok_def)
    have "held sc = (\<Sum>k<used (p_scopes w). if k \<in> set (ks @ [i]) then 0 else permits_in (bucket (scope_at (p_scopes w) k)))"
      unfolding held_def r(4) by (rule sum.cong) (simp_all add: bk)
    with sum_closed [OF d ne] have "held sc + sum_list (map (\<lambda>k. permits_in (bucket (scope_at (p_scopes w) k))) (ks @ [i])) = held (p_scopes w)"
      by (simp add: held_def)
    then have "ts_available ts (p_sem w') + held sc = cap"
      using ok permits_in_finalizations [of "p_scopes w" exit "ks @ [i]"] by (simp add: w' run lg pool_ok_def del: map_append)
    moreover have "scopes_ok sc" using r(7) ok by (simp add: pool_ok_def)
    ultimately show ?thesis using ok by (auto simp: w' run pool_ok_def bk r(4))
  qed
qed

lemma new_scope_ok:
  assumes "pool_ok ts cap w"
  shows "pool_ok ts cap (w\<lparr>p_scopes := snd (scope_make (p_scopes w))\<rparr>)"
proof -
  let ?sc = "snd (scope_make (p_scopes w))"
  have b: "bucket (scope_at ?sc k) = (if k = used (p_scopes w) then [] else bucket (scope_at (p_scopes w) k))" for k
    by (simp add: scope_make_def put_scope_def open_scope_def)
  have u: "used ?sc = Suc (used (p_scopes w))" by (simp add: scope_make_def)
  have "held ?sc = held (p_scopes w)" unfolding held_def u by (simp add: b)
  then show ?thesis using assms scopes_ok_make [of "p_scopes w"] by (auto simp: pool_ok_def b u)
qed

text \<open>
  What can happen to a pool: checkouts in open scopes, new scopes, closing scopes, and changes of the
  idle values and the clock. The second component lists the values that are lent, with the scope each
  was lent to: a checkout that succeeds adds its value, and closing scopes ends the loans of the scopes
  that are then closed.
\<close>

inductive pool_run ::
  "'s tokio_semaphore \<Rightarrow> (nat \<Rightarrow> 'i \<Rightarrow> 'p \<Rightarrow> 'p) \<Rightarrow> (nat \<Rightarrow> 'p \<Rightarrow> 'a option \<times> 'p) set \<Rightarrow> ('a, 'e, unit, 'x) effect \<Rightarrow> ('a \<Rightarrow> 'i)
    \<Rightarrow> ('p, 'i, 's, 'x) pool_world \<Rightarrow> (nat \<times> 'a) list \<Rightarrow> ('p, 'i, 's, 'x) pool_world \<Rightarrow> bool"
  for ts ci tks factory item w0 where
  start: "pool_run ts ci tks factory item w0 [] w0"
| get: "pool_run ts ci tks factory item w0 loans w \<Longrightarrow> tk \<in> tks \<Longrightarrow> i < used (p_scopes w) \<Longrightarrow> is_closed (p_scopes w) i = Some False
    \<Longrightarrow> checkout ts tk factory item i w = Some (res, i', w')
    \<Longrightarrow> pool_run ts ci tks factory item w0 (case res of Inr a \<Rightarrow> (i, a) # loans | Inl e \<Rightarrow> loans) w'"
| close: "pool_run ts ci tks factory item w0 loans w \<Longrightarrow> close_pool_scope ts ci i exit w = Some (b, w')
    \<Longrightarrow> pool_run ts ci tks factory item w0 (filter (\<lambda>(k, _). \<not> closed (scope_at (p_scopes w') k)) loans) w'"
| new_scope: "pool_run ts ci tks factory item w0 loans w
    \<Longrightarrow> pool_run ts ci tks factory item w0 loans (w\<lparr>p_scopes := snd (scope_make (p_scopes w))\<rparr>)"
| change: "pool_run ts ci tks factory item w0 loans w \<Longrightarrow> pool_run ts ci tks factory item w0 loans (w\<lparr>p_state := st, p_now := t\<rparr>)"

text \<open>In an open scope a checkout registers the permit and, when it succeeds, the value.\<close>

lemma add_finalizer_open:
  assumes "is_closed sc i = Some False"
  shows "\<exists>sc'. add_finalizer i f sc = Some (True, sc') \<and> is_closed sc' i = Some False
    \<and> (\<forall>k. bucket (scope_at sc' k) = bucket (scope_at sc k) @ (if k = i then [f] else []))"
  using assms is_closed_cong [OF assms, of "put_scope i ((scope_at sc i)\<lparr>bucket := bucket (scope_at sc i) @ [f]\<rparr>) sc"]
  by (auto simp: add_finalizer_def put_scope_def)

lemma checkout_open:
  assumes "is_closed (p_scopes w) i = Some False" "checkout ts tk factory item i w = Some (res, i', w')"
  shows "bucket (scope_at (p_scopes w') k) = bucket (scope_at (p_scopes w) k)
    @ (if k = i then Release_permit # (case res of Inr a \<Rightarrow> [Check_in (item a)] | Inl _ \<Rightarrow> []) else [])"
proof -
  obtain sc where sc: "add_finalizer i Release_permit (p_scopes w) = Some (True, sc)" "is_closed sc i = Some False"
      "\<And>k. bucket (scope_at sc k) = bucket (scope_at (p_scopes w) k) @ (if k = i then [Release_permit] else [])"
    using add_finalizer_open [OF assms(1), of Release_permit] by blast
  have 2: "\<exists>sc'. add_finalizer i f sc = Some (True, sc') \<and> (\<forall>k. bucket (scope_at sc' k) = bucket (scope_at sc k) @ (if k = i then [f] else []))" for f
    using add_finalizer_open [OF sc(2)] by blast
  from assms(2) obtain s where acq: "pool_acquire ts i w = Some (w\<lparr>p_sem := s, p_scopes := sc\<rparr>)"
    by (auto simp: checkout_def new_async_def pool_acquire_def sem_acquire_def sc(1) split: option.splits)
  show ?thesis
  proof (cases res)
    case (Inl e)
    then have "p_scopes w' = sc"
      using assms(2) by (auto simp: checkout_def new_async_def acq Let_def split: option.splits prod.splits sum.splits)
    with sc(3) Inl show ?thesis by simp
  next
    case (Inr a)
    then have "\<exists>c. add_finalizer i (Check_in (item a)) sc = Some (c, p_scopes w')"
      using assms(2) by (auto simp: checkout_def new_async_def acq Let_def split: option.splits prod.splits sum.splits)
    with 2 [of "Check_in (item a)"] have "bucket (scope_at (p_scopes w') k) = bucket (scope_at sc k) @ (if k = i then [Check_in (item a)] else [])"
      by auto
    with sc(3) Inr show ?thesis by simp
  qed
qed

definition loans_of :: "nat \<Rightarrow> (nat \<times> 'a) list \<Rightarrow> nat" where
  "loans_of k loans = length (filter (\<lambda>(j, _). j = k) loans)"

lemma length_loans:
  assumes "\<forall>(k, _) \<in> set loans. k < n"
  shows "length loans = (\<Sum>k<n. loans_of k loans)"
  using assms
proof (induction loans)
  case (Cons l loans)
  obtain j a where l: "l = (j, a)" by fastforce
  have "(\<Sum>k<n. loans_of k (l # loans)) = (\<Sum>k<n. (if k = j then 1 else 0) + loans_of k loans)"
    by (intro sum.cong) (auto simp: loans_of_def l)
  with Cons l show ?case by (simp add: sum.distrib)
qed (simp add: loans_of_def)

text \<open>The invariant: the pool is in order, and each loan has its check-in registered in its scope.\<close>

definition run_ok :: "'s tokio_semaphore \<Rightarrow> nat \<Rightarrow> (nat \<times> 'a) list \<Rightarrow> ('p, 'i, 's, 'x) pool_world \<Rightarrow> bool" where
  "run_ok ts cap loans w \<longleftrightarrow> pool_ok ts cap w \<and> (\<forall>(k, _) \<in> set loans. k < used (p_scopes w))
     \<and> (\<forall>k. loans_of k loans \<le> loans_in (bucket (scope_at (p_scopes w) k)))"

lemma run_ok_get:
  assumes laws: "semaphore_laws ts" and ok: "run_ok ts cap loans w" and i: "i < used (p_scopes w)"
    and op: "is_closed (p_scopes w) i = Some False" and get: "checkout ts tk factory item i w = Some (res, i', w')"
  shows "run_ok ts cap (case res of Inr a \<Rightarrow> (i, a) # loans | Inl e \<Rightarrow> loans) w'"
proof -
  have "pool_ok ts cap w" using ok by (simp add: run_ok_def)
  note p = checkout_ok [OF laws this i get]
  have "loans_in [Release_permit, Check_in (item a)] = 1" for a by (simp add: loans_in_def)
  then show ?thesis
    using ok p i checkout_open [OF op get] by (cases res) (auto simp: run_ok_def loans_of_def le_SucI)
qed

lemma run_ok_close:
  assumes laws: "semaphore_laws ts" and ok: "run_ok ts cap loans w" and close: "close_pool_scope ts ci i exit w = Some (b, w')"
  shows "run_ok ts cap (filter (\<lambda>(k, _). \<not> closed (scope_at (p_scopes w') k)) loans) w'"
proof -
  from close obtain sc where c: "close_with_exit i exit (p_scopes w) = Some (b, sc)" and sc: "p_scopes w' = sc"
    by (auto simp: close_pool_scope_def run_finalizers_effect(2) [OF laws] split: option.splits)
  note r = close_result [OF c]
  have "loans_of k (filter (\<lambda>(k, _). \<not> closed (scope_at sc k)) loans) \<le> loans_in (bucket (scope_at sc k))" for k
  proof (cases "closed (scope_at sc k)")
    case True
    then have "filter (\<lambda>(j, _). j = k) (filter (\<lambda>(k, _). \<not> closed (scope_at sc k)) loans) = []" by (auto simp: filter_empty_conv)
    then show ?thesis by (simp only: loans_of_def list.size)
  next
    case False
    have "bucket (scope_at sc k) = bucket (scope_at (p_scopes w) k)"
    proof (cases b)
      case True
      with c have "close_with_exit i exit (p_scopes w) = Some (True, sc)" by simp
      from close_log [OF this] obtain ks where "set (ks @ [i]) = {k. closed (scope_at sc k) \<and> \<not> closed (scope_at (p_scopes w) k)}"
        "\<And>k. bucket (scope_at sc k) = (if k \<in> set (ks @ [i]) then [] else bucket (scope_at (p_scopes w) k))" by blast
      with \<open>\<not> closed (scope_at sc k)\<close> show ?thesis by simp
    qed (use r(3) in simp)
    moreover have "loans_of k (filter P loans) \<le> loans_of k loans" for P
      unfolding loans_of_def by (induction loans) auto
    moreover have "loans_of k loans \<le> loans_in (bucket (scope_at (p_scopes w) k))" using ok by (simp add: run_ok_def)
    ultimately show ?thesis by (auto intro: le_trans)
  qed
  then show ?thesis
    using ok close_pool_scope_ok [OF laws _ close] r(4) by (auto simp: run_ok_def sc)
qed

lemma pool_run_ok:
  assumes "semaphore_laws ts" "pool_ok ts cap w0" "pool_run ts ci tks factory item w0 loans w"
  shows "run_ok ts cap loans w"
  using assms(3)
proof (induction rule: pool_run.induct)
  case start
  then show ?case using assms(2) by (simp add: run_ok_def loans_of_def)
next
  case (get loans w tk i res i' w')
  then show ?case by (intro run_ok_get [OF assms(1)])
next
  case (close loans w i exit b w')
  then show ?case by (intro run_ok_close [OF assms(1)])
next
  case (new_scope loans w)
  have "bucket (scope_at (snd (scope_make (p_scopes w))) k) = bucket (scope_at (p_scopes w) k)" for k
    using new_scope.IH by (auto simp: run_ok_def pool_ok_def scope_make_def put_scope_def open_scope_def)
  then show ?case
    using new_scope.IH new_scope_ok [of ts cap w] by (auto simp: run_ok_def scope_make_def less_SucI)
next
  case (change loans w st t)
  then show ?case by (simp add: run_ok_def pool_ok_def)
qed

text \<open>
  C14. A pool does not lend more values at a time to open scopes than its capacity. Whatever checkouts
  in open scopes (also ones whose factory fails), new scopes, closed scopes, invalidations and clock
  ticks happen, one after the other in any order, the values that were handed out to scopes that are
  not closed yet are at most as many as the permits these scopes hold, and those permits and the free
  ones add up to the capacity. A checkout is one step here: none starts while another is waiting.
\<close>

theorem pool_capacity:
  assumes laws: "semaphore_laws ts"
    and start: "scopes_ok (p_scopes w0)" "\<And>i. bucket (scope_at (p_scopes w0) i) = []" "ts_available ts (p_sem w0) = cap"
    and run: "pool_run ts ci tks factory item w0 loans w"
  shows "length loans \<le> held (p_scopes w) \<and> ts_available ts (p_sem w) + held (p_scopes w) = cap"
proof -
  have "pool_ok ts cap w0" using start by (simp add: pool_ok_def held_def)
  with pool_run_ok [OF laws] run have ok: "run_ok ts cap loans w" by blast
  then have "length loans = (\<Sum>k<used (p_scopes w). loans_of k loans)" by (intro length_loans) (simp add: run_ok_def)
  also have "\<dots> \<le> lent (p_scopes w)" using ok unfolding lent_def run_ok_def by (intro sum_mono) simp
  also have "\<dots> \<le> held (p_scopes w)" using ok by (intro lent_held [of ts cap]) (simp add: run_ok_def)
  finally show ?thesis using ok by (simp add: run_ok_def pool_ok_def)
qed

definition counter_semaphore :: "nat tokio_semaphore" where
  "counter_semaphore = \<lparr>ts_new = \<lambda>n. n, ts_acquire = \<lambda>s. case s of 0 \<Rightarrow> None | Suc n \<Rightarrow> Some n, ts_release = Suc, ts_available = \<lambda>s. s\<rparr>"

lemma counter_semaphore_laws: "semaphore_laws counter_semaphore"
  by (auto simp: semaphore_laws_def counter_semaphore_def gr0_conv_Suc)

text \<open>
  A scope that is already closed drops the finalizers: \<open>get\<close> hands out a value, gives its permit back at
  once, and never sees the value again, so that closed scopes get values beyond the capacity.
\<close>

theorem closed_scope_bypasses_capacity:
  assumes laws: "semaphore_laws ts" and closed: "is_closed (p_scopes w) i = Some True" and free: "0 < ts_available ts (p_sem w)"
    and f: "factory () (p_rest w) = Some (Ok a, (), x)" and idle: "tk (p_now w) (p_state w) = (None, st)"
  shows "\<exists>w'. checkout ts tk factory item i w = Some (Ok a, i, w') \<and> p_scopes w' = p_scopes w
    \<and> ts_available ts (p_sem w') = ts_available ts (p_sem w)"
proof -
  obtain s where "ts_acquire ts (p_sem w) = Some s" using laws free unfolding semaphore_laws_def by blast
  with acquire_available(2) [OF laws this] closed f idle show ?thesis
    by (simp add: checkout_def pool_acquire_def sem_acquire_def new_async_def run_def add_finalizer_def Let_def)
qed

text \<open>A pool of two with one value lent out.\<close>

definition demo_world :: "(int pool_state, int, nat, unit) pool_world" where
  "demo_world = \<lparr>p_sem = 2, p_state = pool_default, p_now = 0, p_scopes = root_store, p_rest = ()\<rparr>"

lemma demo_get:
  "\<exists>w. (checkout counter_semaphore (take_idle None) (succeed 5) (\<lambda>a. a) :: (int, unit, _, _) effect) 0 demo_world = Some (Ok 5, 0, w)
     \<and> p_sem w = 1 \<and> bucket (scope_at (p_scopes w) 0) = [Release_permit, Check_in 5]"
proof -
  let ?sc = "put_scope 0 ((scope_at root_store 0)\<lparr>bucket := [Release_permit]\<rparr>) root_store :: int pool_finalizer scopes"
  have "add_finalizer 0 Release_permit (root_store :: int pool_finalizer scopes) = Some (True, ?sc)"
    by (simp add: add_finalizer_def root_store_open root_store_simps open_scope_def)
  moreover have "is_closed ?sc 0 = Some False"
    by (subst is_closed.simps) (simp add: put_scope_def root_store_simps open_scope_def)
  ultimately show ?thesis
    by (simp add: demo_world_def checkout_def pool_acquire_def sem_acquire_def new_async_def new_sync_def succeed_def run_def add_finalizer_def [of 0 "Check_in _"]
        counter_semaphore_def numeral_2_eq_2 take_idle_def pool_default_def Let_def)
      (simp add: put_scope_def)
qed

lemma pool_capacity_witness:
  "\<exists>w. (checkout counter_semaphore (take_idle None) (succeed 5) (\<lambda>a. a) :: (int, unit, _, _) effect) 0 demo_world = Some (Ok 5, 0, w)
     \<and> length [(0 :: nat, 5 :: int)] \<le> held (p_scopes w) \<and> p_sem w + held (p_scopes w) = 2"
proof -
  from demo_get obtain w where w: "(checkout counter_semaphore (take_idle None) (succeed 5) (\<lambda>a. a) :: (int, unit, _, _) effect) 0 demo_world = Some (Ok 5, 0, w)"
    by blast
  have "pool_run counter_semaphore pool_check_in {take_idle None} (succeed 5 :: (int, unit, _, _) effect) (\<lambda>a. a) demo_world
      (case Ok 5 :: unit + int of Inr a \<Rightarrow> (0, a) # [] | Inl e \<Rightarrow> []) w"
    by (rule pool_run.get [OF pool_run.start _ _ _ w]) (simp_all add: demo_world_def root_store_simps root_store_open)
  then have run: "pool_run counter_semaphore pool_check_in {take_idle None} (succeed 5 :: (int, unit, _, _) effect) (\<lambda>a. a) demo_world [(0, 5)] w"
    by simp
  have "scopes_ok (p_scopes demo_world)" "\<And>i. bucket (scope_at (p_scopes demo_world) i) = []" "ts_available counter_semaphore (p_sem demo_world) = 2"
    by (simp_all add: demo_world_def root_store_ok root_store_simps open_scope_def counter_semaphore_def)
  from pool_capacity [OF counter_semaphore_laws this run] w show ?thesis by (auto simp: counter_semaphore_def)
qed

section \<open>Idle values\<close>

text \<open>What the two pools promise of their idle values: the first that is neither expired nor barred is taken.\<close>

locale idle_store =
  fixes take_slot :: "nat \<Rightarrow> 'p \<Rightarrow> 'a option \<times> 'p"
    and check_in :: "nat \<Rightarrow> 'a \<Rightarrow> 'p \<Rightarrow> 'p"
    and invalidate :: "'a \<Rightarrow> 'p \<Rightarrow> 'p"
    and slots :: "'p \<Rightarrow> ('a \<times> nat) list"
    and barred :: "'p \<Rightarrow> 'a set"
    and usable :: "nat \<Rightarrow> 'p \<Rightarrow> 'a \<times> nat \<Rightarrow> bool"
  assumes take_slot: "fst (take_slot now st) = map_option fst (find (usable now st) (slots st))"
      "slots (snd (take_slot now st)) = tl (dropWhile (Not \<circ> usable now st) (slots st))"
      "barred (snd (take_slot now st)) = barred st"
    and usable: "usable now st (v, at) \<Longrightarrow> v \<notin> barred st"
    and check_in: "slots (check_in now v st) = slots st @ (if v \<in> barred st then [] else [(v, now)])" "barred (check_in now v st) = barred st"
      "usable later (check_in now v st) = usable later st"
    and invalidate: "slots (invalidate v st) = filter (\<lambda>(x, _). x \<noteq> v) (slots st)" "barred (invalidate v st) = insert v (barred st)"
begin

text \<open>A value that is taken is fresh and was never invalidated.\<close>

lemma taken_is_usable:
  assumes "fst (take_slot now st) = Some v"
  shows "v \<notin> barred st" and "\<exists>at. (v, at) \<in> set (slots st) \<and> usable now st (v, at)"
proof -
  from assms obtain at where "find (usable now st) (slots st) = Some (v, at)" by (auto simp: take_slot)
  then have "(v, at) \<in> set (slots st)" "usable now st (v, at)" by (auto simp: find_Some_iff in_set_conv_nth)
  then show "v \<notin> barred st" "\<exists>at. (v, at) \<in> set (slots st) \<and> usable now st (v, at)" using usable by blast+
qed

lemma returned_is_reused:
  assumes "slots st = []" "usable now st (v, at)"
  shows "fst (take_slot now (check_in at v st)) = Some v" "slots (snd (take_slot now (check_in at v st))) = []"
  using assms usable [OF assms(2)] by (simp_all add: take_slot check_in)

lemma invalidated_never_taken:
  "fst (take_slot now (check_in at v (invalidate v st))) \<noteq> Some v"
  using taken_is_usable(1) [of now "check_in at v (invalidate v st)" v] check_in(2) invalidate(2)
  by (metis insertI1)

end

definition slot_usable :: "nat option \<Rightarrow> nat \<Rightarrow> ('a \<Rightarrow> bool) \<Rightarrow> 'a \<times> nat \<Rightarrow> bool" where
  "slot_usable ttl now discarded = (\<lambda>(v, at). (case ttl of Some t \<Rightarrow> now - at \<le> t | None \<Rightarrow> True) \<and> \<not> discarded v)"

lemma take_slots_first:
  "take_slots ttl now p xs = (map_option fst (find (slot_usable ttl now p) xs), tl (dropWhile (Not \<circ> slot_usable ttl now p) xs))"
  by (induction ttl now p xs rule: take_slots.induct) (auto simp: slot_usable_def split: option.splits)

interpretation plain_pool: idle_store "take_idle ttl" pool_check_in pool_invalidate idle "\<lambda>st. set (discard st)"
    "\<lambda>now st. slot_usable ttl now (\<lambda>v. v \<in> set (discard st))" for ttl
  by unfold_locales
    (simp_all add: take_idle_def take_slots_first pool_check_in_def pool_invalidate_def slot_usable_def)

definition key_slots :: "'k \<Rightarrow> ('k, 'a) keyed_state \<Rightarrow> ('a \<times> nat) list" where
  "key_slots k st = (case per_key st k of Some slots \<Rightarrow> slots | None \<Rightarrow> [])"

lemma find_None_tl: "find p xs = None \<Longrightarrow> tl (dropWhile (Not \<circ> p) xs) = []"
  by (induction xs) (auto split: if_splits)

interpretation per_key_pool: idle_store "take_idle_keyed (k :: 'k) ttl" "\<lambda>now (v :: 'a). keyed_check_in now (k, v)" "keyed_invalidate k" "key_slots k"
    "\<lambda>st. {v. (k, v) \<in> set (key_discard st)}" "\<lambda>now st. slot_usable ttl now (\<lambda>v. (k, v) \<in> set (key_discard st))" for k ttl
proof unfold_locales
  fix now :: nat and st :: "('k, 'a) keyed_state" and v at later
  let ?u = "slot_usable ttl now (\<lambda>v. (k, v) \<in> set (key_discard st))"
  show "fst (take_idle_keyed k ttl now st) = map_option fst (find ?u (key_slots k st))"
    by (simp add: take_idle_keyed_def take_slots_first key_slots_def split: option.splits)
  show "key_slots k (snd (take_idle_keyed k ttl now st)) = tl (dropWhile (Not \<circ> ?u) (key_slots k st))"
    by (auto simp: take_idle_keyed_def take_slots_first key_slots_def find_None_tl split: option.splits)
  show "{v. (k, v) \<in> set (key_discard (snd (take_idle_keyed k ttl now st)))} = {v. (k, v) \<in> set (key_discard st)}"
    by (simp add: take_idle_keyed_def take_slots_first split: option.splits)
qed (auto simp: slot_usable_def keyed_check_in_def keyed_invalidate_def key_slots_def Let_def split: option.splits)

text \<open>
  Neither pool hands out again a value that was invalidated, not even when its holder returns it later.
\<close>

theorem invalidated_values_stay_out:
  "fst (take_idle ttl now (pool_check_in at v (pool_invalidate v st))) \<noteq> Some v
   \<and> fst (take_idle_keyed k ttl now (keyed_check_in at (k, v) (keyed_invalidate k v kst))) \<noteq> Some v"
  by (intro conjI plain_pool.invalidated_never_taken per_key_pool.invalidated_never_taken)

end
