(* ===== verification/Caches.thy ===== *)
theory Caches
  imports Cells Collections
begin

text \<open>
  \<open>crates/id_effect/src/resource/cache.rs\<close>: the memoising cache with expiry, least-recently-used
  eviction and coalesced loads.

  The entries are an \<open>im\<close> hash map (the parameter of \<open>Collections\<close>), the deferreds of loads in flight
  are cells of a store (\<open>Cells\<close>), \<open>Instant::now\<close> is a component of the world. \<open>cache_get\<close> is a lookup
  that runs by itself. \<open>cache_step\<close> interleaves any number of lookups and invalidations: each critical
  section of the synchronised state is one step, and so is each completion of a deferred, each load
  and each wait. The relation also records the keys in the order of their uses, which no operation
  reads.
\<close>

section \<open>State\<close>

record cache_stats =
  hits :: u64
  misses :: u64
  evictions :: u64
  loads :: u64

record 'v cached =
  cached_value :: 'v
  stored_at :: nat

record ('k, 'm) cache_state =
  entries :: 'm
  in_flight :: "'k \<rightharpoonup> nat"
  lru :: "'k list"
  stats :: cache_stats

type_synonym ('k, 'v, 'm) entry_map = "('k, 'v cached, 'm) im_hash_map"

definition cache_default :: "('k, 'v, 'm) entry_map \<Rightarrow> ('k, 'm) cache_state" where
  "cache_default im = \<lparr>entries = hash_empty im, in_flight = Map.empty, lru = [],
     stats = \<lparr>hits = 0, misses = 0, evictions = 0, loads = 0\<rparr>\<rparr>"

definition is_fresh :: "nat option \<Rightarrow> nat \<Rightarrow> 'v cached \<Rightarrow> bool" where
  "is_fresh ttl now c = (case ttl of None \<Rightarrow> True | Some t \<Rightarrow> now - stored_at c \<le> t)"

definition touch_lru :: "'k list \<Rightarrow> 'k \<Rightarrow> 'k list" where
  "touch_lru ks key = filter (\<lambda>k. k \<noteq> key) ks @ [key]"

definition remove_lru :: "'k list \<Rightarrow> 'k \<Rightarrow> 'k list" where
  "remove_lru ks key = filter (\<lambda>k. k \<noteq> key) ks"

definition evict_entry :: "('k, 'v, 'm) entry_map \<Rightarrow> 'k \<Rightarrow> ('k, 'm) cache_state \<Rightarrow> ('k, 'm) cache_state" where
  "evict_entry im k s = s\<lparr>entries := hash_remove im (entries s) k, lru := remove_lru (lru s) k,
     stats := (stats s)\<lparr>evictions := sat_add (evictions (stats s)) 1\<rparr>\<rparr>"

text \<open>The loop of \<open>evict_lru\<close>; its last case is the one for a list that lost a key.\<close>

partial_function (option) evict_loop ::
  "('k, 'v, 'm) entry_map \<Rightarrow> nat \<Rightarrow> ('k, 'm) cache_state \<Rightarrow> ('k, 'm) cache_state option" where
  "evict_loop im cap s =
     (if length (im_iter im (entries s)) < cap then Some s
      else case lru s of
        victim # rest \<Rightarrow>
          (let s1 = s\<lparr>lru := rest\<rparr> in
           evict_loop im cap
             (if hash_has im (entries s1) victim
              then s1\<lparr>entries := hash_remove im (entries s1) victim,
                stats := (stats s1)\<lparr>evictions := sat_add (evictions (stats s1)) 1\<rparr>\<rparr>
              else s1))
      | [] \<Rightarrow> (case hash_keys im (entries s) of
          k # _ \<Rightarrow> evict_loop im cap (evict_entry im k s)
        | [] \<Rightarrow> Some s))"

definition evict_lru :: "('k, 'v, 'm) entry_map \<Rightarrow> nat \<Rightarrow> ('k, 'm) cache_state \<Rightarrow> ('k, 'm) cache_state option" where
  "evict_lru im cap s = (if cap = 0 then Some s else evict_loop im cap s)"

definition put_entry ::
  "('k, 'v, 'm) entry_map \<Rightarrow> nat \<Rightarrow> nat \<Rightarrow> 'k \<Rightarrow> 'v \<Rightarrow> ('k, 'm) cache_state \<Rightarrow> ('k, 'm) cache_state option" where
  "put_entry im cap now key value s =
     (case (if \<not> hash_has im (entries s) key \<and> 0 < cap \<and> cap \<le> length (im_iter im (entries s))
            then evict_lru im cap s else Some s) of
        None \<Rightarrow> None
      | Some s1 \<Rightarrow> Some (s1\<lparr>entries := hash_set im (entries s1) key \<lparr>cached_value = value, stored_at = now\<rparr>,
          lru := remove_lru (lru s1) key @ [key]\<rparr>))"

section \<open>Critical sections\<close>

datatype 'v phase1 = Hit1 'v | Join nat | Miss
datatype 'v phase2 = Hit2 'v | Follow nat | Leader nat

definition fresh_entry :: "('k, 'v, 'm) entry_map \<Rightarrow> nat option \<Rightarrow> nat \<Rightarrow> 'k \<Rightarrow> ('k, 'm) cache_state \<Rightarrow> 'v cached option" where
  "fresh_entry im ttl now key s = (case hash_get im (entries s) key of
     Some c \<Rightarrow> if is_fresh ttl now c then Some c else None
   | None \<Rightarrow> None)"

definition count_hit :: "'k \<Rightarrow> ('k, 'm) cache_state \<Rightarrow> ('k, 'm) cache_state" where
  "count_hit key s = s\<lparr>stats := (stats s)\<lparr>hits := sat_add (hits (stats s)) 1\<rparr>, lru := touch_lru (lru s) key\<rparr>"

definition count_miss :: "('k, 'm) cache_state \<Rightarrow> ('k, 'm) cache_state" where
  "count_miss s = s\<lparr>stats := (stats s)\<lparr>misses := sat_add (misses (stats s)) 1\<rparr>\<rparr>"

definition lookup_phase1 ::
  "('k, 'v, 'm) entry_map \<Rightarrow> nat option \<Rightarrow> nat \<Rightarrow> 'k \<Rightarrow> ('k, 'm) cache_state \<Rightarrow> 'v phase1 \<times> ('k, 'm) cache_state" where
  "lookup_phase1 im ttl now key s = (case fresh_entry im ttl now key s of
     Some c \<Rightarrow> (Hit1 (cached_value c), count_hit key s)
   | None \<Rightarrow> (case in_flight s key of
       Some d \<Rightarrow> (Join d, count_miss s)
     | None \<Rightarrow> (Miss, s)))"

definition lookup_phase2 ::
  "('k, 'v, 'm) entry_map \<Rightarrow> nat option \<Rightarrow> nat \<Rightarrow> 'k \<Rightarrow> nat \<Rightarrow> ('k, 'm) cache_state \<Rightarrow> 'v phase2 \<times> ('k, 'm) cache_state" where
  "lookup_phase2 im ttl now key d_leader s = (case fresh_entry im ttl now key s of
     Some c \<Rightarrow> (Hit2 (cached_value c), count_hit key s)
   | None \<Rightarrow> (case in_flight s key of
       Some d \<Rightarrow> (Follow d, count_miss s)
     | None \<Rightarrow> (Leader d_leader, count_miss (s\<lparr>in_flight := (in_flight s)(key \<mapsto> d_leader)\<rparr>))))"

definition unregister :: "'k \<Rightarrow> ('k, 'm) cache_state \<Rightarrow> ('k, 'm) cache_state" where
  "unregister key s = s\<lparr>in_flight := (in_flight s)(key := None)\<rparr>"

definition commit_load ::
  "('k, 'v, 'm) entry_map \<Rightarrow> nat \<Rightarrow> nat \<Rightarrow> 'k \<Rightarrow> 'v \<Rightarrow> bool \<Rightarrow> ('k, 'm) cache_state \<Rightarrow> ('k, 'm) cache_state option" where
  "commit_load im cap now key v won s = (let s1 = unregister key s in
     if won then map_option (\<lambda>s2. s2\<lparr>stats := (stats s2)\<lparr>loads := sat_add (loads (stats s2)) 1\<rparr>\<rparr>) (put_entry im cap now key v s1)
     else Some s1)"

definition remove_key :: "('k, 'v, 'm) entry_map \<Rightarrow> 'k \<Rightarrow> ('k, 'm) cache_state \<Rightarrow> nat option \<times> ('k, 'm) cache_state" where
  "remove_key im key s = (in_flight s key,
     s\<lparr>entries := hash_remove im (entries s) key, lru := remove_lru (lru s) key, in_flight := (in_flight s)(key := None)\<rparr>)"

section \<open>Lookups\<close>

record ('c, 'k, 'm) cache_world = "'c refs" +
  cw_state :: "('k, 'm) cache_state"
  cw_now :: nat

record ('k, 'v, 'e, 'r, 'w) cache =
  cache_capacity :: nat
  cache_ttl :: "nat option"
  cache_load :: "'k \<Rightarrow> ('v, 'e, 'r, 'w) effect"

definition cache_make ::
  "('k, 'v, 'm) entry_map \<Rightarrow> nat \<Rightarrow> nat option \<Rightarrow> ('k \<Rightarrow> ('v, 'e, 'r, 'w) effect) \<Rightarrow> ('c, 'k, 'm, 'x) cache_world_scheme
    \<Rightarrow> ('k, 'v, 'e, 'r, 'w) cache \<times> ('c, 'k, 'm, 'x) cache_world_scheme" where
  "cache_make im cap ttl load w = (\<lparr>cache_capacity = cap, cache_ttl = ttl, cache_load = load\<rparr>, w\<lparr>cw_state := cache_default im\<rparr>)"

text \<open>Run an operation of a deferred on its cell; its error type is empty.\<close>

definition on_deferred ::
  "nat \<Rightarrow> (bool, unit, unit, 'c) effect \<Rightarrow> ('c, 'x) refs_scheme \<Rightarrow> bool \<times> ('c, 'x) refs_scheme" where
  "on_deferred d eff w = (case eff () (ref_val w d) of
     Some (Inr b, _, c) \<Rightarrow> (b, put_ref d c w)
   | _ \<Rightarrow> (False, w))"

definition new_deferred :: "('v, 'e, 'c) exit_watch \<Rightarrow> ('c, 'x) refs_scheme \<Rightarrow> nat \<times> ('c, 'x) refs_scheme" where
  "new_deferred wt w = (ref_next w, (put_ref (ref_next w) (deferred_make wt) w)\<lparr>ref_next := Suc (ref_next w)\<rparr>)"

definition lead ::
  "('k, 'v, 'm) entry_map \<Rightarrow> ('v, 'e, 'c) exit_watch \<Rightarrow> ('k, 'v, 'e, 'r, ('c, 'k, 'm, 'x) cache_world_scheme) cache \<Rightarrow> 'k \<Rightarrow> nat
    \<Rightarrow> ('v, 'e cause, 'r, ('c, 'k, 'm, 'x) cache_world_scheme) effect" where
  "lead im wt cache key d = (\<lambda>r w. case run (cache_load cache key) r w of
     None \<Rightarrow> None
   | Some (Inr v, r', w1) \<Rightarrow> (case on_deferred d (deferred_succeed wt v) w1 of (won, w2) \<Rightarrow>
       (case commit_load im (cache_capacity cache) (cw_now w2) key v won (cw_state w2) of
          None \<Rightarrow> None
        | Some s \<Rightarrow> Some (Ok v, r', w2\<lparr>cw_state := s\<rparr>)))
   | Some (Inl e, r', w1) \<Rightarrow> (case on_deferred d (deferred_fail wt e) w1 of (_, w2) \<Rightarrow>
       Some (Err (cause_fail e), r', w2\<lparr>cw_state := unregister key (cw_state w2)\<rparr>)))"

definition cache_get ::
  "('k, 'v, 'm) entry_map \<Rightarrow> ('v, 'e, 'c) exit_watch \<Rightarrow> ('k, 'v, 'e, 'r, ('c, 'k, 'm, 'x) cache_world_scheme) cache \<Rightarrow> 'k
    \<Rightarrow> ('v, 'e cause, 'r, ('c, 'k, 'm, 'x) cache_world_scheme) effect" where
  "cache_get im wt cache key = new_async (\<lambda>r w.
     case lookup_phase1 im (cache_ttl cache) (cw_now w) key (cw_state w) of (p1, s1) \<Rightarrow>
       (let w1 = w\<lparr>cw_state := s1\<rparr> in
        case p1 of
          Hit1 v \<Rightarrow> Some (Ok v, r, w1)
        | Join d \<Rightarrow> map_option (\<lambda>res. (res, r, w1)) (deferred_wait wt (ref_val w1 d))
        | Miss \<Rightarrow> (case new_deferred wt w1 of (d_leader, w2) \<Rightarrow>
            (case lookup_phase2 im (cache_ttl cache) (cw_now w2) key d_leader (cw_state w2) of (p2, s2) \<Rightarrow>
              (let w3 = w2\<lparr>cw_state := s2\<rparr> in
               case p2 of
                 Hit2 v \<Rightarrow> Some (Ok v, r, w3)
               | Follow d \<Rightarrow> map_option (\<lambda>res. (res, r, w3)) (deferred_wait wt (ref_val w3 d))
               | Leader d \<Rightarrow> lead im wt cache key d r w3)))))"

text \<open>\<open>fiber\<close> is the identifier the interruption carries.\<close>

definition cache_invalidate ::
  "('k, 'v, 'm) entry_map \<Rightarrow> ('v, 'e, 'c) exit_watch \<Rightarrow> fiber_id \<Rightarrow> 'k \<Rightarrow> ('c, 'k, 'm, 'x) cache_world_scheme \<Rightarrow> ('c, 'k, 'm, 'x) cache_world_scheme" where
  "cache_invalidate im wt fiber key w = (case remove_key im key (cw_state w) of (to_interrupt, s) \<Rightarrow>
     let w1 = w\<lparr>cw_state := s\<rparr> in
     case to_interrupt of
       Some d \<Rightarrow> snd (on_deferred d (deferred_interrupt wt fiber) w1)
     | None \<Rightarrow> w1)"

definition cache_read_stats :: "('c, 'k, 'm, 'x) cache_world_scheme \<Rightarrow> cache_stats" where
  "cache_read_stats w = stats (cw_state w)"

section \<open>Interleaved lookups\<close>

text \<open>
  A task is a lookup or an invalidation, by the point it has reached. \<open>Loading\<close> is a leader whose load
  runs; the outcome of the load is decided by a step of its own. A dropped future never moves again.
\<close>

datatype ('k, 'v, 'e) cache_task =
    Getting 'k | Missed 'k | Loading 'k nat | Loaded 'k nat 'v | Load_failed 'k nat 'e
  | Storing 'k 'v bool | Cleaning 'k 'e | Waiting 'k nat | Returned 'k "('v, 'e cause) result"
  | Invalidating 'k | Interrupting 'k "nat option" | Invalidated 'k

fun cache_task_step ::
  "('k, 'v, 'm) entry_map \<Rightarrow> ('v, 'e, 'c) exit_watch \<Rightarrow> nat \<Rightarrow> nat option \<Rightarrow> fiber_id
    \<Rightarrow> ('k, 'v, 'e) cache_task \<Rightarrow> ('c, 'k, 'm) cache_world \<Rightarrow> (('k, 'v, 'e) cache_task \<times> ('c, 'k, 'm) cache_world) option" where
  "cache_task_step im wt cap ttl fiber (Getting k) w =
     (case lookup_phase1 im ttl (cw_now w) k (cw_state w) of (p, s) \<Rightarrow>
        Some (case p of Hit1 v \<Rightarrow> Returned k (Ok v) | Join d \<Rightarrow> Waiting k d | Miss \<Rightarrow> Missed k, w\<lparr>cw_state := s\<rparr>))"
| "cache_task_step im wt cap ttl fiber (Missed k) w =
     (case new_deferred wt w of (d, w1) \<Rightarrow> case lookup_phase2 im ttl (cw_now w1) k d (cw_state w1) of (p, s) \<Rightarrow>
        Some (case p of Hit2 v \<Rightarrow> Returned k (Ok v) | Follow d \<Rightarrow> Waiting k d | Leader d \<Rightarrow> Loading k d, w1\<lparr>cw_state := s\<rparr>))"
| "cache_task_step im wt cap ttl fiber (Loaded k d v) w =
     (case on_deferred d (deferred_succeed wt v) w of (won, w1) \<Rightarrow> Some (Storing k v won, w1))"
| "cache_task_step im wt cap ttl fiber (Load_failed k d e) w =
     (case on_deferred d (deferred_fail wt e) w of (_, w1) \<Rightarrow> Some (Cleaning k e, w1))"
| "cache_task_step im wt cap ttl fiber (Storing k v won) w =
     map_option (\<lambda>s. (Returned k (Ok v), w\<lparr>cw_state := s\<rparr>)) (commit_load im cap (cw_now w) k v won (cw_state w))"
| "cache_task_step im wt cap ttl fiber (Cleaning k e) w =
     Some (Returned k (Err (cause_fail e)), w\<lparr>cw_state := unregister k (cw_state w)\<rparr>)"
| "cache_task_step im wt cap ttl fiber (Waiting k d) w =
     map_option (\<lambda>res. (Returned k res, w)) (deferred_wait wt (ref_val w d))"
| "cache_task_step im wt cap ttl fiber (Invalidating k) w =
     (case remove_key im k (cw_state w) of (d, s) \<Rightarrow> Some (Interrupting k d, w\<lparr>cw_state := s\<rparr>))"
| "cache_task_step im wt cap ttl fiber (Interrupting k None) w = Some (Invalidated k, w)"
| "cache_task_step im wt cap ttl fiber (Interrupting k (Some d)) w =
     Some (Invalidated k, snd (on_deferred d (deferred_interrupt wt fiber) w))"
| "cache_task_step im wt cap ttl fiber t w = None"

text \<open>
  A step uses a key when it answers a lookup from the entries or stores a loaded value. This is read
  off the task before and after the step, not off the state of the cache.
\<close>

fun returned :: "('k, 'v, 'e) cache_task \<Rightarrow> bool" where
  "returned (Returned k res) = True"
| "returned t = False"

fun used_by :: "('k, 'v, 'e) cache_task \<Rightarrow> ('k, 'v, 'e) cache_task \<Rightarrow> 'k list" where
  "used_by (Getting k) t' = (if returned t' then [k] else [])"
| "used_by (Missed k) t' = (if returned t' then [k] else [])"
| "used_by (Storing k v won) t' = (if won then [k] else [])"
| "used_by t t' = []"

text \<open>
  The system: the world, the tasks, and a record of what the loads gave, of the keys that were
  invalidated, and of the keys that were used, in the order of their uses.
\<close>

record ('c, 'k, 'm, 'v, 'e) cache_system =
  cs_world :: "('c, 'k, 'm) cache_world"
  cs_tasks :: "nat \<rightharpoonup> ('k, 'v, 'e) cache_task"
  cs_loaded :: "('k \<times> ('v, 'e) result) set"
  cs_invalidated :: "'k set"
  cs_uses :: "'k list"

definition set_task :: "nat \<Rightarrow> ('k, 'v, 'e) cache_task \<Rightarrow> ('c, 'k, 'm, 'v, 'e) cache_system \<Rightarrow> ('c, 'k, 'm, 'v, 'e) cache_system" where
  "set_task i t y = y\<lparr>cs_tasks := (cs_tasks y)(i \<mapsto> t)\<rparr>"

inductive cache_step ::
  "('k, 'v, 'm) entry_map \<Rightarrow> ('v, 'e, 'c) exit_watch \<Rightarrow> nat \<Rightarrow> nat option
    \<Rightarrow> ('c, 'k, 'm, 'v, 'e) cache_system \<Rightarrow> ('c, 'k, 'm, 'v, 'e) cache_system \<Rightarrow> bool"
  for im wt cap ttl where
  call: "cs_tasks y i = None \<Longrightarrow> cache_step im wt cap ttl y (set_task i (Getting k) y)"
| invalidate: "cs_tasks y i = None \<Longrightarrow>
    cache_step im wt cap ttl y ((set_task i (Invalidating k) y)\<lparr>cs_invalidated := insert k (cs_invalidated y)\<rparr>)"
| advance: "cs_tasks y i = Some t \<Longrightarrow> cache_task_step im wt cap ttl fiber t (cs_world y) = Some (t', w') \<Longrightarrow>
    cache_step im wt cap ttl y ((set_task i t' y)\<lparr>cs_world := w', cs_uses := cs_uses y @ used_by t t'\<rparr>)"
| load_ok: "cs_tasks y i = Some (Loading k d) \<Longrightarrow>
    cache_step im wt cap ttl y ((set_task i (Loaded k d v) y)\<lparr>cs_loaded := insert (k, Ok v) (cs_loaded y)\<rparr>)"
| load_err: "cs_tasks y i = Some (Loading k d) \<Longrightarrow>
    cache_step im wt cap ttl y ((set_task i (Load_failed k d e) y)\<lparr>cs_loaded := insert (k, Err e) (cs_loaded y)\<rparr>)"
| tick: "cache_step im wt cap ttl y (y\<lparr>cs_world := (cs_world y)\<lparr>cw_now := cw_now (cs_world y) + n\<rparr>\<rparr>)"

definition cache_start :: "('k, 'v, 'm) entry_map \<Rightarrow> ('c, 'k, 'm) cache_world \<Rightarrow> ('c, 'k, 'm, 'v, 'e) cache_system" where
  "cache_start im w = \<lparr>cs_world = w\<lparr>cw_state := cache_default im\<rparr>, cs_tasks = Map.empty, cs_loaded = {}, cs_invalidated = {}, cs_uses = []\<rparr>"

section \<open>The entries and their order of use\<close>

definition lru_ok :: "('k, 'v, 'm) entry_map \<Rightarrow> nat \<Rightarrow> ('k, 'm) cache_state \<Rightarrow> bool" where
  "lru_ok im cap s \<longleftrightarrow> distinct (lru s) \<and> set (lru s) = dom (im_get im (entries s))
     \<and> (0 < cap \<longrightarrow> length (lru s) \<le> cap)"

lemmas hash_ops = hash_empty_def hash_get_def hash_has_def hash_set_def hash_remove_def hash_keys_def

lemma set_hash_keys:
  assumes "hash_map_laws im"
  shows "set (hash_keys im m) = dom (im_get im m)"
  using hash_map_lawsD(7) [OF assms, of m] by (metis dom_map_of_conv_image_fst hash_keys_def list.set_map)

lemma length_iter:
  assumes "hash_map_laws im"
  shows "length (im_iter im m) = card (dom (im_get im m))"
  using hash_map_lawsD(6) [OF assms, of m] set_hash_keys [OF assms, of m]
  by (metis distinct_card hash_keys_def length_map)

lemma finite_entries:
  assumes "hash_map_laws im"
  shows "finite (dom (im_get im m))"
  by (metis assms finite_set set_hash_keys)

text \<open>The eviction loop returns on every state, also on one whose list lost a key.\<close>

lemma evict_loop_returns:
  assumes laws: "hash_map_laws im" and "0 < cap"
  shows "\<exists>s'. evict_loop im cap s = Some s' \<and> card (dom (im_get im (entries s'))) < cap"
proof (induction "length (lru s) + card (dom (im_get im (entries s)))" arbitrary: s rule: less_induct)
  case less
  let ?D = "dom (im_get im (entries s))"
  have fin: "finite ?D" by (rule finite_entries [OF laws])
  note step = evict_loop.simps [of im cap s]
  show ?case
  proof (cases "card ?D < cap")
    case True
    then show ?thesis by (subst step) (simp add: length_iter [OF laws])
  next
    case False
    show ?thesis
    proof (cases "lru s")
      case (Cons victim rest)
      let ?s1 = "s\<lparr>lru := rest\<rparr>"
      let ?s2 = "if hash_has im (entries ?s1) victim
              then ?s1\<lparr>entries := hash_remove im (entries ?s1) victim,
                stats := (stats ?s1)\<lparr>evictions := sat_add (evictions (stats ?s1)) 1\<rparr>\<rparr>
              else ?s1"
      have "card (dom (im_get im (entries ?s2))) \<le> card ?D"
        using fin by (auto simp: hash_ops hash_map_lawsD [OF laws] intro!: card_mono)
      then have "\<exists>s'. evict_loop im cap ?s2 = Some s' \<and> card (dom (im_get im (entries s'))) < cap"
        using Cons by (intro less.hyps) auto
      with False Cons show ?thesis by (subst step) (simp add: length_iter [OF laws] Let_def)
    next
      case Nil
      from False \<open>0 < cap\<close> fin obtain k ks where k: "hash_keys im (entries s) = k # ks"
        using set_hash_keys [OF laws, of "entries s"] by (cases "hash_keys im (entries s)") auto
      then have "k \<in> ?D" using set_hash_keys [OF laws, of "entries s"] by auto
      then have "card (dom (im_get im (entries (evict_entry im k s)))) < card ?D"
        using fin by (simp add: evict_entry_def hash_ops hash_map_lawsD [OF laws] card_Diff1_less del: card_Diff_insert)
      moreover have "length (lru (evict_entry im k s)) \<le> length (lru s)" by (simp add: evict_entry_def remove_lru_def)
      ultimately have "\<exists>s'. evict_loop im cap (evict_entry im k s) = Some s' \<and> card (dom (im_get im (entries s'))) < cap"
        by (intro less.hyps) simp
      with False Nil k show ?thesis by (subst step) (simp add: length_iter [OF laws])
    qed
  qed
qed

text \<open>On a state whose list is right it removes the keys used longest ago, and nothing else.\<close>

lemma evict_loop_drops:
  assumes laws: "hash_map_laws im" and "0 < cap"
    and "distinct (lru s)" "set (lru s) = dom (im_get im (entries s))"
  shows "\<exists>m st. evict_loop im cap s = Some (s\<lparr>entries := m, lru := drop (length (lru s) - (cap - 1)) (lru s), stats := st\<rparr>)
    \<and> im_get im m = im_get im (entries s) |` set (drop (length (lru s) - (cap - 1)) (lru s))"
  using assms(3,4)
proof (induction "lru s" arbitrary: s)
  case Nil
  then have "s\<lparr>entries := entries s, lru := [], stats := stats s\<rparr> = s" by (cases s) simp
  with Nil(1) [symmetric] Nil(3) \<open>0 < cap\<close> show ?case
    by (intro exI [of _ "entries s"] exI [of _ "stats s"]) (subst evict_loop.simps, auto simp: length_iter [OF laws] restrict_map_def)
next
  case (Cons victim rest)
  from Cons.prems have len: "length (im_iter im (entries s)) = length (lru s)"
    using distinct_card [OF Cons.prems(1)] by (simp add: length_iter [OF laws])
  show ?case
  proof (cases "length (lru s) < cap")
    case True
    then show ?thesis using len Cons.prems(2) \<open>0 < cap\<close>
      by (subst evict_loop.simps) (auto intro!: exI [of _ "entries s"] exI [of _ "stats s"] simp: restrict_map_def fun_eq_iff dom_def)
  next
    case False
    let ?s = "s\<lparr>lru := rest, entries := hash_remove im (entries s) victim,
       stats := (stats s)\<lparr>evictions := sat_add (evictions (stats s)) 1\<rparr>\<rparr>"
    have l: "lru s = victim # rest" using Cons.hyps(2) by simp
    have g: "im_get im (entries ?s) = (im_get im (entries s))(victim := None)" by (simp add: hash_ops hash_map_lawsD [OF laws])
    have dr: "drop (length (lru s) - (cap - 1)) (lru s) = drop (length rest - (cap - 1)) rest"
      using False l \<open>0 < cap\<close> by (simp add: Suc_diff_le)
    have "distinct (lru ?s)" "set (lru ?s) = dom (im_get im (entries ?s))"
      using Cons.prems(1) l by (simp, simp only: g) (use Cons.prems l in auto)
    from Cons.hyps(1) [OF _ this] obtain m st where st: "evict_loop im cap ?s = Some (?s\<lparr>entries := m, lru := drop (length rest - (cap - 1)) rest, stats := st\<rparr>)"
      "im_get im m = im_get im (entries ?s) |` set (drop (length rest - (cap - 1)) rest)" by auto
    have has: "hash_has im (entries s) victim" using Cons.prems(2) l by (auto simp: hash_ops dom_def)
    have "victim \<notin> set (drop (length rest - (cap - 1)) rest)" using Cons.prems(1) l by (auto dest: in_set_dropD)
    then have "im_get im m = im_get im (entries s) |` set (drop (length rest - (cap - 1)) rest)"
      by (auto simp: st(2) hash_ops hash_map_lawsD [OF laws] restrict_map_def fun_eq_iff)
    moreover have "evict_loop im cap s = evict_loop im cap ?s"
      using False len l has by (subst evict_loop.simps) (simp add: Let_def)
    ultimately show ?thesis unfolding dr using st(1) by (intro exI [of _ m] exI [of _ st]) simp
  qed
qed

text \<open>
  Storing an entry: the value is there with its time, the key is the one used last, and the other
  entries are those used last, as many as fit.
\<close>

lemma put_entry_spec:
  assumes laws: "hash_map_laws im" and ok: "lru_ok im cap s"
  shows "\<exists>s'. put_entry im cap now k v s = Some s' \<and> lru_ok im cap s' \<and> in_flight s' = in_flight s
    \<and> im_get im (entries s') k = Some \<lparr>cached_value = v, stored_at = now\<rparr>
    \<and> (\<forall>x. x \<noteq> k \<longrightarrow> im_get im (entries s') x = (if x \<in> set (lru s') then im_get im (entries s) x else None))
    \<and> (let keep = remove_lru (lru s) k in lru s' = (if cap = 0 then keep else drop (length keep - (cap - 1)) keep) @ [k])"
proof -
  let ?D = "dom (im_get im (entries s))" and ?new = "\<lparr>cached_value = v, stored_at = now\<rparr>"
  have lru: "distinct (lru s)" "set (lru s) = ?D" "0 < cap \<Longrightarrow> length (lru s) \<le> cap"
    using ok by (simp_all add: lru_ok_def)
  have len: "length (im_iter im (entries s)) = length (lru s)"
    using distinct_card [OF lru(1)] lru(2) by (simp add: length_iter [OF laws])
  have get: "im_get im (hash_set im m k ?new) = (im_get im m)(k \<mapsto> ?new)" for m by (simp add: hash_ops hash_map_lawsD [OF laws])
  have has: "hash_has im (entries s) k \<longleftrightarrow> k \<in> set (lru s)" unfolding lru(2) by (auto simp: hash_ops)
  show ?thesis
  proof (cases "k \<notin> set (lru s) \<and> 0 < cap \<and> cap \<le> length (lru s)")
    case True
    let ?keep = "drop (length (lru s) - (cap - 1)) (lru s)"
    have same: "remove_lru (lru s) k = lru s" "remove_lru (drop n (lru s)) k = drop n (lru s)" for n
      using True by (auto simp: remove_lru_def filter_id_conv dest: in_set_dropD)
    have "0 < cap" using True by simp
    from evict_loop_drops [OF laws this lru(1,2)] True obtain m st where
      st: "evict_lru im cap s = Some (s\<lparr>entries := m, lru := ?keep, stats := st\<rparr>)"
        "im_get im m = im_get im (entries s) |` set ?keep"
      by (auto simp: evict_lru_def)
    have sub: "set ?keep \<subseteq> ?D" using lru(2) by (auto dest: in_set_dropD)
    have "length ?keep \<le> cap - 1" by simp
    then have "length (?keep @ [k]) \<le> cap" using True by simp
    moreover have "distinct (?keep @ [k])" using lru(1) True by (auto dest: in_set_dropD)
    moreover have "set (?keep @ [k]) = dom ((im_get im m)(k \<mapsto> ?new))" using sub by (auto simp: st(2) restrict_map_def split: if_splits)
    ultimately show ?thesis using True
      by (simp add: put_entry_def has len st(1) same get lru_ok_def Let_def) (auto simp: st(2) restrict_map_def split: if_splits)
  next
    case False
    then have put: "put_entry im cap now k v s =
        Some (s\<lparr>entries := hash_set im (entries s) k ?new, lru := remove_lru (lru s) k @ [k]\<rparr>)"
      by (auto simp: put_entry_def has len)
    have "length (remove_lru (lru s) k) \<le> cap - 1" if "0 < cap"
    proof (cases "k \<in> set (lru s)")
      case True
      then have "length (remove_lru (lru s) k) < length (lru s)" unfolding remove_lru_def by (metis (mono_tags, lifting) length_filter_less)
      with lru(3) [OF that] show ?thesis by simp
    next
      case nin: False
      then have "length (lru s) < cap" using False that by auto
      then show ?thesis using length_filter_le [of "\<lambda>x. x \<noteq> k" "lru s"] unfolding remove_lru_def by linarith
    qed
    then show ?thesis using lru put
      by (auto simp: get lru_ok_def remove_lru_def Let_def)
  qed
qed

lemma lru_ok_sections:
  assumes "hash_map_laws im" "lru_ok im cap s"
  shows "lru_ok im cap (snd (lookup_phase1 im ttl now k s))"
    and "lru_ok im cap (snd (lookup_phase2 im ttl now k d s))"
    and "lru_ok im cap (unregister k s)"
    and "lru_ok im cap (snd (remove_key im k s))"
proof -
  have touch: "lru_ok im cap (count_hit k s)" if "k \<in> set (lru s)"
  proof -
    have "length (filter (\<lambda>x. x \<noteq> k) (lru s)) < length (lru s)" using that by (metis (mono_tags, lifting) length_filter_less)
    then show ?thesis using assms(2) that by (auto simp: lru_ok_def count_hit_def touch_lru_def)
  qed
  have "k \<in> set (lru s)" if "fresh_entry im ttl now k s = Some c" for c
    using that assms(2) by (auto simp: fresh_entry_def lru_ok_def hash_ops split: option.splits if_splits)
  then show "lru_ok im cap (snd (lookup_phase1 im ttl now k s))" "lru_ok im cap (snd (lookup_phase2 im ttl now k d s))"
    using assms(2) touch
    by (auto simp: lookup_phase1_def lookup_phase2_def count_miss_def lru_ok_def split: option.splits)
  show "lru_ok im cap (unregister k s)" using assms(2) by (simp add: lru_ok_def unregister_def)
  show "lru_ok im cap (snd (remove_key im k s))"
    using assms(2)
    by (auto intro: le_trans [OF length_filter_le] simp: lru_ok_def remove_key_def remove_lru_def hash_ops hash_map_lawsD [OF assms(1)])
qed

lemma commit_load_ok:
  assumes "hash_map_laws im" "lru_ok im cap s"
  shows "\<exists>s'. commit_load im cap now k v won s = Some s' \<and> lru_ok im cap s' \<and> in_flight s' = (in_flight s)(k := None)"
proof (cases won)
  case True
  from put_entry_spec [OF assms(1) lru_ok_sections(3) [OF assms, of k]] obtain s' where
    "put_entry im cap now k v (unregister k s) = Some s'" "lru_ok im cap s'" "in_flight s' = in_flight (unregister k s)"
    by blast
  with True show ?thesis by (simp add: commit_load_def unregister_def lru_ok_def)
qed (use assms in \<open>simp add: commit_load_def unregister_def lru_ok_def\<close>)

section \<open>Every interleaving\<close>

lemmas task_step_simps = lookup_phase1_def lookup_phase2_def count_hit_def count_miss_def unregister_def remove_key_def

lemma on_deferred_state [simp]:
  "cw_state (snd (on_deferred d eff w)) = cw_state w" "cw_now (snd (on_deferred d eff w)) = cw_now w"
  "ref_next (snd (on_deferred d eff w)) = ref_next w"
  for w :: "('c, 'k, 'm, 'x) cache_world_scheme"
  by (simp_all add: on_deferred_def put_ref_def split: option.splits sum.splits prod.splits)

lemma task_step_lru:
  assumes laws: "hash_map_laws im" and "lru_ok im cap (cw_state w)"
    and "cache_task_step im wt cap ttl fiber t w = Some (t', w')"
  shows "lru_ok im cap (cw_state w')"
  using assms(3)
proof (cases t)
  case (Getting k)
  then show ?thesis using assms lru_ok_sections(1) [OF laws, of cap "cw_state w" ttl "cw_now w" k]
    by (auto split: prod.splits)
next
  case (Missed k)
  then show ?thesis using assms lru_ok_sections(2) [OF laws, of cap "cw_state w" ttl "cw_now w" k "ref_next w"]
    by (auto simp: new_deferred_def put_ref_def split: prod.splits)
next
  case (Loaded k d v)
  then show ?thesis using assms by (auto split: prod.splits) (metis on_deferred_state(1) snd_conv)
next
  case (Load_failed k d e)
  then show ?thesis using assms by (auto split: prod.splits) (metis on_deferred_state(1) snd_conv)
next
  case (Storing k v won)
  then show ?thesis using assms commit_load_ok [OF laws, of cap "cw_state w" "cw_now w" k v won] by auto
next
  case (Cleaning k e)
  then show ?thesis using assms lru_ok_sections(3) [OF laws, of cap "cw_state w" k] by auto
next
  case (Invalidating k)
  then show ?thesis using assms lru_ok_sections(4) [OF laws, of cap "cw_state w" k] by (auto split: prod.splits)
next
  case (Interrupting k d)
  then show ?thesis using assms by (cases d) auto
qed (use assms in auto)

lemma cache_step_lru:
  assumes "hash_map_laws im" "cache_step im wt cap ttl y z" "lru_ok im cap (cw_state (cs_world y))"
  shows "lru_ok im cap (cw_state (cs_world z))"
  using assms(2,3) by cases (auto simp: set_task_def dest: task_step_lru [OF assms(1)])

lemma cache_start_lru: "hash_map_laws im \<Longrightarrow> lru_ok im cap (cw_state (cs_world (cache_start im w)))"
  by (simp add: cache_start_def cache_default_def lru_ok_def hash_ops hash_map_lawsD)

subsection \<open>The order of use\<close>

text \<open>
  The keys of \<open>xs\<close> are in the order of their last use in the history \<open>us\<close> (\<open>remdups\<close> keeps the last
  occurrence of each element).
\<close>

definition use_order :: "'k list \<Rightarrow> 'k list \<Rightarrow> bool" where
  "use_order us xs \<longleftrightarrow> xs = filter (\<lambda>k. k \<in> set xs) (remdups us)"

lemma use_order_distinct: "use_order us xs \<Longrightarrow> distinct xs"
  unfolding use_order_def by (metis distinct_filter distinct_remdups)

lemma use_order_filter:
  assumes "use_order us xs"
  shows "use_order us (filter P xs)"
proof -
  have "filter P xs = filter P (filter (\<lambda>k. k \<in> set xs) (remdups us))" using assms unfolding use_order_def by (rule arg_cong)
  also have "\<dots> = filter (\<lambda>k. k \<in> set (filter P xs)) (remdups us)" by (simp add: conj_commute)
  finally show ?thesis unfolding use_order_def .
qed

lemma drop_eq_filter: "distinct xs \<Longrightarrow> drop n xs = filter (\<lambda>k. k \<in> set (drop n xs)) xs"
proof (induction xs arbitrary: n)
  case (Cons x xs)
  show ?case
  proof (cases n)
    case (Suc m)
    have "x \<notin> set (drop m xs)" using Cons.prems by (auto dest: in_set_dropD)
    with Suc Cons show ?thesis by simp
  qed (auto intro: filter_True [symmetric])
qed simp

lemma use_order_drop: "use_order us xs \<Longrightarrow> use_order us (drop n xs)"
  using use_order_filter [of us xs "\<lambda>k. k \<in> set (drop n xs)"] drop_eq_filter [OF use_order_distinct, of us xs n] by simp

lemma use_order_snoc:
  assumes "use_order us xs" "k \<notin> set xs"
  shows "use_order (us @ [k]) (xs @ [k])"
proof -
  have "remdups (us @ [k]) = filter (\<lambda>x. x \<noteq> k) (remdups us) @ [k]"
    by (induction us) auto
  then have "filter (\<lambda>x. x \<in> set (xs @ [k])) (remdups (us @ [k])) = filter (\<lambda>x. x \<in> set (xs @ [k])) (filter (\<lambda>x. x \<noteq> k) (remdups us)) @ [k]"
    by (simp only:) simp
  also have "filter (\<lambda>x. x \<in> set (xs @ [k])) (filter (\<lambda>x. x \<noteq> k) (remdups us)) = filter (\<lambda>x. x \<in> set xs) (remdups us)"
    using assms(2) by (auto intro: filter_cong)
  finally show ?thesis using assms(1) by (simp add: use_order_def)
qed

lemma use_order_touch: "use_order us xs \<Longrightarrow> use_order (us @ [k]) (touch_lru xs k)"
  unfolding touch_lru_def by (intro use_order_snoc use_order_filter) auto

lemma use_order_phases:
  assumes "use_order us (lru s)"
  shows "use_order (us @ (case fst (lookup_phase1 im ttl now k s) of Hit1 v \<Rightarrow> [k] | _ \<Rightarrow> [])) (lru (snd (lookup_phase1 im ttl now k s)))"
    and "use_order (us @ (case fst (lookup_phase2 im ttl now k d s) of Hit2 v \<Rightarrow> [k] | _ \<Rightarrow> [])) (lru (snd (lookup_phase2 im ttl now k d s)))"
  using assms use_order_touch [OF assms]
  by (simp_all add: lookup_phase1_def lookup_phase2_def count_hit_def count_miss_def split: option.split)

lemma use_order_commit:
  assumes "hash_map_laws im" "lru_ok im cap s" "use_order us (lru s)" "commit_load im cap now k v won s = Some s'"
  shows "use_order (us @ (if won then [k] else [])) (lru s')"
proof (cases won)
  case True
  from put_entry_spec [OF assms(1) lru_ok_sections(3) [OF assms(1,2)], of now k v k] obtain s1 where
    s1: "put_entry im cap now k v (unregister k s) = Some s1"
      "lru s1 = (let keep = remove_lru (lru s) k in if cap = 0 then keep else drop (length keep - (cap - 1)) keep) @ [k]"
    by (auto simp: unregister_def Let_def)
  have "use_order (us @ [k]) (lru s1)"
    unfolding s1(2) Let_def remove_lru_def
    by (rule use_order_snoc) (auto intro!: use_order_drop use_order_filter assms(3) dest: in_set_dropD)
  then show ?thesis using assms(4) s1(1) True by (auto simp: commit_load_def)
qed (use assms(3,4) in \<open>auto simp: commit_load_def unregister_def\<close>)

lemma task_step_order:
  assumes laws: "hash_map_laws im" and "lru_ok im cap (cw_state w)" "use_order us (lru (cw_state w))"
    and "cache_task_step im wt cap ttl fiber t w = Some (t', w')"
  shows "use_order (us @ used_by t t') (lru (cw_state w'))"
proof (cases t)
  case (Getting k)
  then show ?thesis using assms(4) use_order_phases(1) [OF assms(3), of k im ttl "cw_now w"]
    by (auto split: prod.splits phase1.splits)
next
  case (Missed k)
  then show ?thesis using assms(4) use_order_phases(2) [OF assms(3), of k im ttl "cw_now w" "ref_next w"]
    by (auto simp: new_deferred_def put_ref_def split: prod.splits phase2.splits)
next
  case (Loaded k d v)
  then show ?thesis using assms(3,4) by (auto split: prod.splits) (metis on_deferred_state(1) snd_conv)
next
  case (Load_failed k d e)
  then show ?thesis using assms(3,4) by (auto split: prod.splits) (metis on_deferred_state(1) snd_conv)
next
  case (Storing k v won)
  then show ?thesis using assms(4) use_order_commit [OF assms(1-3), of "cw_now w" k v won] by (cases won) auto
next
  case (Invalidating k)
  then show ?thesis using assms(3,4) by (auto simp: remove_key_def remove_lru_def use_order_filter)
next
  case (Interrupting k d)
  then show ?thesis using assms(3,4) by (cases d) auto
qed (use assms(3,4) in \<open>auto simp: unregister_def\<close>)

lemma reachable_order:
  assumes laws: "hash_map_laws im" and "(cache_step im wt cap ttl)\<^sup>*\<^sup>* (cache_start im w) y"
  shows "lru_ok im cap (cw_state (cs_world y)) \<and> use_order (cs_uses y) (lru (cw_state (cs_world y)))"
  using assms(2)
proof induction
  case base
  show ?case by (simp add: cache_start_lru [OF laws]) (simp add: cache_start_def cache_default_def use_order_def)
next
  case (step y z)
  have "use_order (cs_uses z) (lru (cw_state (cs_world z)))"
    using step.hyps(2) step.IH by cases (auto simp: set_task_def dest: task_step_order [OF laws])
  with cache_step_lru [OF laws step.hyps(2)] step.IH show ?case by simp
qed

text \<open>
  C18. The cache keeps its bound and evicts what was used longest ago. Whatever lookups, loads and
  invalidations are interleaved, the list of keys by use is the list of the stored keys in the order
  of their last use, where a use is a lookup that was answered from the entries or a value that was
  stored; and with a capacity there are never more entries than it. So the branch of the eviction
  loop for a list out of step is never taken, and every commit returns. What is stored after it is
  the new entry together with those of the other entries whose last use is most recent, as many as
  the capacity leaves room for, all unchanged.
\<close>

theorem cache_bounded:
  fixes im :: "('k, 'v, 'm) entry_map" and k :: 'k
  assumes laws: "hash_map_laws im"
    and "(cache_step im wt cap ttl)\<^sup>*\<^sup>* (cache_start im w) y"
  defines "s \<equiv> cw_state (cs_world y)"
  defines "stored \<equiv> dom (hash_get im (entries s))"
  defines "others \<equiv> filter (\<lambda>x. x \<in> stored - {k}) (remdups (cs_uses y))"
  defines "kept \<equiv> (if cap = 0 then others else drop (length others - (cap - 1)) others)"
  shows "lru s = filter (\<lambda>x. x \<in> stored) (remdups (cs_uses y)) \<and> (0 < cap \<longrightarrow> card stored \<le> cap)
    \<and> (\<exists>s'. commit_load im cap now k v True s = Some s'
        \<and> hash_get im (entries s') = (hash_get im (entries s) |` set kept)(k \<mapsto> \<lparr>cached_value = v, stored_at = now\<rparr>))"
proof -
  have ok: "lru_ok im cap s" and ord: "use_order (cs_uses y) (lru s)"
    using reachable_order [OF assms(1,2)] by (simp_all add: s_def)
  have lru: "distinct (lru s)" "set (lru s) = stored" "0 < cap \<longrightarrow> length (lru s) \<le> cap"
    using ok by (auto simp: lru_ok_def stored_def hash_get_def)
  have order: "lru s = filter (\<lambda>x. x \<in> stored) (remdups (cs_uses y))" using ord unfolding use_order_def lru(2) .
  then have others: "others = remove_lru (lru s) k" unfolding others_def remove_lru_def by (auto intro: filter_cong)
  from put_entry_spec [OF laws lru_ok_sections(3) [OF laws ok], of now k v k] obtain s1 where s1:
    "put_entry im cap now k v (unregister k s) = Some s1" "lru s1 = kept @ [k]"
    "im_get im (entries s1) k = Some \<lparr>cached_value = v, stored_at = now\<rparr>"
    "\<And>x. x \<noteq> k \<Longrightarrow> im_get im (entries s1) x = (if x \<in> set (lru s1) then im_get im (entries s) x else None)"
    unfolding kept_def others by (auto simp: unregister_def Let_def)
  have "hash_get im (entries s1) = (hash_get im (entries s) |` set kept)(k \<mapsto> \<lparr>cached_value = v, stored_at = now\<rparr>)"
    using s1(2,3) by (auto simp: fun_eq_iff hash_get_def s1(4) restrict_map_def)
  then have "\<exists>s'. commit_load im cap now k v True s = Some s'
        \<and> hash_get im (entries s') = (hash_get im (entries s) |` set kept)(k \<mapsto> \<lparr>cached_value = v, stored_at = now\<rparr>)"
    using s1(1) by (simp add: commit_load_def)
  moreover have "card stored = length (lru s)" using distinct_card [OF lru(1)] lru(2) by simp
  ultimately show ?thesis using order lru(3) by simp
qed

section \<open>What lookups return\<close>

text \<open>The outcomes a lookup of \<open>k\<close> may see when the loads gave \<open>H\<close>.\<close>

definition seen_exit :: "('k \<times> ('v, 'e) result) set \<Rightarrow> 'k \<Rightarrow> ('v, 'e) exit \<Rightarrow> bool" where
  "seen_exit H k x \<longleftrightarrow> (case x of Success v \<Rightarrow> (k, Ok v) \<in> H
     | Failure c \<Rightarrow> (\<exists>e. c = cause_fail e \<and> (k, Err e) \<in> H) \<or> (\<exists>f. c = cause_interrupt f))"

fun leads :: "('k, 'v, 'e) cache_task \<Rightarrow> ('k \<times> nat) option" where
  "leads (Loading k d) = Some (k, d)"
| "leads (Loaded k d v) = Some (k, d)"
| "leads (Load_failed k d e) = Some (k, d)"
| "leads t = None"

text \<open>\<open>own\<close> is the key each deferred was made for.\<close>

fun task_ok :: "(nat \<Rightarrow> 'k) \<Rightarrow> ('k \<times> ('v, 'e) result) set \<Rightarrow> nat \<Rightarrow> ('k, 'v, 'e) cache_task \<Rightarrow> bool" where
  "task_ok own H n (Loading k d) \<longleftrightarrow> own d = k \<and> d < n"
| "task_ok own H n (Loaded k d v) \<longleftrightarrow> own d = k \<and> d < n \<and> (k, Ok v) \<in> H"
| "task_ok own H n (Load_failed k d e) \<longleftrightarrow> own d = k \<and> d < n \<and> (k, Err e) \<in> H"
| "task_ok own H n (Storing k v won) \<longleftrightarrow> (k, Ok v) \<in> H"
| "task_ok own H n (Cleaning k e) \<longleftrightarrow> (k, Err e) \<in> H"
| "task_ok own H n (Waiting k d) \<longleftrightarrow> own d = k \<and> d < n"
| "task_ok own H n (Returned k res) \<longleftrightarrow> (\<exists>x. res = exit_result x \<and> seen_exit H k x)"
| "task_ok own H n t \<longleftrightarrow> True"

text \<open>A deferred that somebody waits for, or may come to wait for, is completed or has a leader at work.\<close>

definition attended :: "('v, 'e, 'c) exit_watch \<Rightarrow> ('c, 'k, 'm) cache_world \<Rightarrow> (nat \<rightharpoonup> ('k, 'v, 'e) cache_task) \<Rightarrow> 'k \<Rightarrow> nat \<Rightarrow> bool" where
  "attended wt w ts k d \<longleftrightarrow> wt_borrow wt (ref_val w d) \<noteq> None \<or> (\<exists>i t. ts i = Some t \<and> leads t = Some (k, d))"

definition loads_ok :: "('k, 'v, 'm) entry_map \<Rightarrow> ('v, 'e, 'c) exit_watch \<Rightarrow> (nat \<Rightarrow> 'k) \<Rightarrow> ('c, 'k, 'm, 'v, 'e) cache_system \<Rightarrow> bool" where
  "loads_ok im wt own y \<longleftrightarrow> (let w = cs_world y; s = cw_state w; H = cs_loaded y; n = ref_next w in
     (\<forall>d<n. \<forall>x. wt_borrow wt (ref_val w d) = Some x \<longrightarrow> seen_exit H (own d) x)
   \<and> (\<forall>k c. im_get im (entries s) k = Some c \<longrightarrow> (k, Ok (cached_value c)) \<in> H)
   \<and> (\<forall>k d. in_flight s k = Some d \<longrightarrow> own d = k \<and> d < n \<and> attended wt w (cs_tasks y) k d)
   \<and> (\<forall>i t. cs_tasks y i = Some t \<longrightarrow> task_ok own H n t)
   \<and> (\<forall>i k d. cs_tasks y i = Some (Waiting k d) \<longrightarrow> attended wt w (cs_tasks y) k d))"

lemma seen_exit_mono: "seen_exit H k x \<Longrightarrow> H \<subseteq> H' \<Longrightarrow> seen_exit H' k x"
  by (auto simp: seen_exit_def split: exit.splits)

lemma task_ok_mono: "task_ok own H n t \<Longrightarrow> H \<subseteq> H' \<Longrightarrow> task_ok own H' n t"
  by (cases t) (auto intro: seen_exit_mono)

lemma task_ok_new: "task_ok own H n t \<Longrightarrow> task_ok (own(n := k)) H (Suc n) t"
  by (cases t) auto

lemma loads_okI:
  assumes "\<And>d x. d < ref_next (cs_world y) \<Longrightarrow> wt_borrow wt (ref_val (cs_world y) d) = Some x \<Longrightarrow> seen_exit (cs_loaded y) (own d) x"
    and "\<And>k c. im_get im (entries (cw_state (cs_world y))) k = Some c \<Longrightarrow> (k, Ok (cached_value c)) \<in> cs_loaded y"
    and "\<And>k d. in_flight (cw_state (cs_world y)) k = Some d \<Longrightarrow> own d = k \<and> d < ref_next (cs_world y) \<and> attended wt (cs_world y) (cs_tasks y) k d"
    and "\<And>i t. cs_tasks y i = Some t \<Longrightarrow> task_ok own (cs_loaded y) (ref_next (cs_world y)) t"
    and "\<And>i k d. cs_tasks y i = Some (Waiting k d) \<Longrightarrow> attended wt (cs_world y) (cs_tasks y) k d"
  shows "loads_ok im wt own y"
  using assms unfolding loads_ok_def Let_def by blast

lemma loads_okD:
  assumes "loads_ok im wt own y"
  shows "d < ref_next (cs_world y) \<Longrightarrow> wt_borrow wt (ref_val (cs_world y) d) = Some x \<Longrightarrow> seen_exit (cs_loaded y) (own d) x"
    and "im_get im (entries (cw_state (cs_world y))) k = Some c \<Longrightarrow> (k, Ok (cached_value c)) \<in> cs_loaded y"
    and "in_flight (cw_state (cs_world y)) k = Some d \<Longrightarrow> own d = k \<and> d < ref_next (cs_world y) \<and> attended wt (cs_world y) (cs_tasks y) k d"
    and "cs_tasks y i = Some t \<Longrightarrow> task_ok own (cs_loaded y) (ref_next (cs_world y)) t"
    and "cs_tasks y i = Some (Waiting k d) \<Longrightarrow> attended wt (cs_world y) (cs_tasks y) k d"
  using assms unfolding loads_ok_def Let_def by blast+

text \<open>A task that leads nothing may be replaced, and so may a leader that goes on leading the same.\<close>

lemma attended_set_task:
  assumes "attended wt w ts k d" "\<And>t0. ts i = Some t0 \<Longrightarrow> leads t0 = None \<or> leads t = leads t0"
  shows "attended wt w (ts(i \<mapsto> t)) k d"
  using assms unfolding attended_def by (metis fun_upd_apply option.distinct(1) option.inject)

text \<open>A step that changes one task and the state, and completes no deferred.\<close>

lemma loads_ok_quiet:
  assumes ok: "loads_ok im wt own y"
    and ref: "ref_val w' = ref_val (cs_world y)" "ref_next w' = ref_next (cs_world y)"
    and ent: "\<And>k c. im_get im (entries (cw_state w')) k = Some c \<Longrightarrow> (k, Ok (cached_value c)) \<in> cs_loaded y"
    and fl: "in_flight (cw_state w') \<subseteq>\<^sub>m in_flight (cw_state (cs_world y))"
    and lead: "\<And>t0. cs_tasks y i = Some t0 \<Longrightarrow> leads t0 = None"
    and t: "task_ok own (cs_loaded y) (ref_next (cs_world y)) t" "\<And>k d. t = Waiting k d \<Longrightarrow> attended wt (cs_world y) (cs_tasks y) k d"
  shows "loads_ok im wt own ((set_task i t y)\<lparr>cs_world := w'\<rparr>)"
proof -
  have att: "attended wt w' ((cs_tasks y)(i \<mapsto> t)) k d" if "attended wt (cs_world y) (cs_tasks y) k d" for k d
    using attended_set_task [of wt w' "cs_tasks y" k d i t] that lead by (auto simp: attended_def ref)
  then have att_t: "t = Waiting k d \<Longrightarrow> attended wt w' ((cs_tasks y)(i \<mapsto> Waiting k d)) k d" for k d using t(2) by auto
  have "in_flight (cw_state (cs_world y)) k = Some d" if "in_flight (cw_state w') k = Some d" for k d
    using fl that by (metis domI map_le_def)
  then show ?thesis
    by (intro loads_okI) (auto simp: set_task_def ref split: if_splits intro: att att_t t dest: loads_okD [OF ok] ent)
qed

lemma on_deferred_borrow:
  fixes w :: "('c, 'x) refs_scheme"
  assumes "watch_laws wt"
  shows "wt_borrow wt (ref_val (snd (on_deferred d (deferred_succeed wt v) w)) j) =
      (if j = d then Some (case wt_borrow wt (ref_val w d) of None \<Rightarrow> Success v | Some x \<Rightarrow> x) else wt_borrow wt (ref_val w j))"
    and "wt_borrow wt (ref_val (snd (on_deferred d (deferred_fail wt e) w)) j) =
      (if j = d then Some (case wt_borrow wt (ref_val w d) of None \<Rightarrow> Failure (cause_fail e) | Some x \<Rightarrow> x) else wt_borrow wt (ref_val w j))"
    and "wt_borrow wt (ref_val (snd (on_deferred d (deferred_interrupt wt f) w)) j) =
      (if j = d then Some (case wt_borrow wt (ref_val w d) of None \<Rightarrow> Failure (cause_interrupt f) | Some x \<Rightarrow> x) else wt_borrow wt (ref_val w j))"
  using send_first(2) [OF assms, of "Success v" "ref_val w d"] send_first(2) [OF assms, of "Failure (cause_fail e)" "ref_val w d"]
    send_first(2) [OF assms, of "Failure (cause_interrupt f)" "ref_val w d"]
  by (auto simp: on_deferred_def deferred_succeed_def deferred_fail_def deferred_interrupt_def new_sync_def
      exit_succeed_def exit_fail_def exit_interrupt_def split: prod.splits)

text \<open>A step that completes a deferred with \<open>x\<close>, unless it is completed already.\<close>

lemma loads_ok_complete:
  assumes ok: "loads_ok im wt own y"
    and borrow: "\<And>j. wt_borrow wt (ref_val w' j) =
      (if j = d then Some (case wt_borrow wt (ref_val (cs_world y) d) of None \<Rightarrow> x | Some z \<Rightarrow> z) else wt_borrow wt (ref_val (cs_world y) j))"
    and same: "ref_next w' = ref_next (cs_world y)" "cw_state w' = cw_state (cs_world y)"
    and x: "d < ref_next (cs_world y) \<Longrightarrow> seen_exit (cs_loaded y) (own d) x"
    and lead: "\<And>t0 k d0. cs_tasks y i = Some t0 \<Longrightarrow> leads t0 = Some (k, d0) \<Longrightarrow> d0 = d"
    and t: "task_ok own (cs_loaded y) (ref_next (cs_world y)) t" "\<And>k d. t \<noteq> Waiting k d"
  shows "loads_ok im wt own ((set_task i t y)\<lparr>cs_world := w'\<rparr>)"
proof -
  have att: "attended wt w' ((cs_tasks y)(i \<mapsto> t)) k j" if "attended wt (cs_world y) (cs_tasks y) k j" for k j
  proof (cases "j = d")
    case False
    from that consider "wt_borrow wt (ref_val (cs_world y) j) \<noteq> None" | i' t' where "cs_tasks y i' = Some t'" "leads t' = Some (k, j)"
      unfolding attended_def by blast
    then show ?thesis
    proof cases
      case 2
      with lead False have "i' \<noteq> i" by metis
      with 2 show ?thesis unfolding attended_def by (metis fun_upd_other)
    qed (simp add: attended_def borrow False)
  qed (simp add: attended_def borrow)
  show ?thesis
    by (intro loads_okI)
      (auto simp: set_task_def same borrow t split: if_splits option.splits intro: att x dest: loads_okD [OF ok])
qed

text \<open>A step that makes the deferred of a new leader.\<close>

lemma loads_ok_new:
  assumes ok: "loads_ok im wt own y" and laws: "watch_laws wt"
    and n: "ref_next w' = Suc (ref_next (cs_world y))"
    and val: "ref_val w' = (ref_val (cs_world y))(ref_next (cs_world y) := deferred_make wt)"
    and ent: "\<And>k c. im_get im (entries (cw_state w')) k = Some c \<Longrightarrow> (k, Ok (cached_value c)) \<in> cs_loaded y"
    and fl: "\<And>k d. in_flight (cw_state w') k = Some d \<Longrightarrow>
      in_flight (cw_state (cs_world y)) k = Some d \<or> k = key \<and> d = ref_next (cs_world y) \<and> leads t = Some (k, d)"
    and lead: "\<And>t0. cs_tasks y i = Some t0 \<Longrightarrow> leads t0 = None"
    and t: "task_ok (own(ref_next (cs_world y) := key)) (cs_loaded y) (Suc (ref_next (cs_world y))) t"
      "\<And>k d. t = Waiting k d \<Longrightarrow> in_flight (cw_state (cs_world y)) k = Some d"
  shows "loads_ok im wt (own(ref_next (cs_world y) := key)) ((set_task i t y)\<lparr>cs_world := w'\<rparr>)"
proof -
  let ?n = "ref_next (cs_world y)"
  have att: "attended wt w' ((cs_tasks y)(i \<mapsto> t)) k d" if "attended wt (cs_world y) (cs_tasks y) k d" "d < ?n" for k d
    using attended_set_task [of wt w' "cs_tasks y" k d i t] that lead by (auto simp: attended_def val)
  have new: "wt_borrow wt (deferred_make wt) = None" using laws by (simp add: deferred_make_def watch_laws_def)
  have fly: "own d = k" "d < ?n" "attended wt w' ((cs_tasks y)(i \<mapsto> t)) k d" if "in_flight (cw_state (cs_world y)) k = Some d" for k d
    using loads_okD(3) [OF ok that] att by auto
  show ?thesis
  proof (intro loads_okI)
    fix d x assume "d < ref_next (cs_world ((set_task i t y)\<lparr>cs_world := w'\<rparr>))"
      "wt_borrow wt (ref_val (cs_world ((set_task i t y)\<lparr>cs_world := w'\<rparr>)) d) = Some x"
    then show "seen_exit (cs_loaded ((set_task i t y)\<lparr>cs_world := w'\<rparr>)) ((own(?n := key)) d) x"
      using loads_okD(1) [OF ok, of d x] by (auto simp: set_task_def val n new split: if_splits)
  next
    fix k d assume inf: "in_flight (cw_state (cs_world ((set_task i t y)\<lparr>cs_world := w'\<rparr>))) k = Some d"
    show "(own(?n := key)) d = k \<and> d < ref_next (cs_world ((set_task i t y)\<lparr>cs_world := w'\<rparr>))
      \<and> attended wt (cs_world ((set_task i t y)\<lparr>cs_world := w'\<rparr>)) (cs_tasks ((set_task i t y)\<lparr>cs_world := w'\<rparr>)) k d"
    proof (cases "in_flight (cw_state (cs_world y)) k = Some d")
      case True
      with fly [OF True] show ?thesis by (simp add: set_task_def n)
    next
      case False
      with fl [of k d] inf have "k = key" "d = ?n" "leads t = Some (k, d)" by (auto simp: set_task_def)
      then show ?thesis by (auto simp: set_task_def n attended_def)
    qed
  next
    fix j t' assume "cs_tasks ((set_task i t y)\<lparr>cs_world := w'\<rparr>) j = Some t'"
    then show "task_ok (own(?n := key)) (cs_loaded ((set_task i t y)\<lparr>cs_world := w'\<rparr>)) (ref_next (cs_world ((set_task i t y)\<lparr>cs_world := w'\<rparr>))) t'"
      using t(1) loads_okD(4) [OF ok] by (auto simp: set_task_def n split: if_splits intro: task_ok_new)
  next
    fix j k d assume "cs_tasks ((set_task i t y)\<lparr>cs_world := w'\<rparr>) j = Some (Waiting k d)"
    then show "attended wt (cs_world ((set_task i t y)\<lparr>cs_world := w'\<rparr>)) (cs_tasks ((set_task i t y)\<lparr>cs_world := w'\<rparr>)) k d"
      using t(2) fly(3) att [OF loads_okD(5) [OF ok]] loads_okD(4) [OF ok]
      by (auto simp: set_task_def split: if_splits) fastforce
  qed (use ent in \<open>auto simp: set_task_def\<close>)
qed

lemma put_entry_sources:
  assumes "hash_map_laws im" "lru_ok im cap s" "commit_load im cap now k v won s = Some s'"
    and "im_get im (entries s') x = Some c"
  shows "x = k \<and> cached_value c = v \<or> im_get im (entries s) x = Some c"
proof (cases won)
  case True
  from put_entry_spec [OF assms(1) lru_ok_sections(3) [OF assms(1,2), of k], of now k v]
  obtain s1 where s1: "put_entry im cap now k v (unregister k s) = Some s1" "im_get im (entries s1) k = Some \<lparr>cached_value = v, stored_at = now\<rparr>"
    "\<forall>x. x \<noteq> k \<longrightarrow> im_get im (entries s1) x = (if x \<in> set (lru s1) then im_get im (entries (unregister k s)) x else None)"
    by blast
  moreover from s1(1) True assms(3) have "entries s' = entries s1" by (auto simp: commit_load_def)
  ultimately show ?thesis using assms(4) by (cases "x = k") (auto simp: unregister_def split: if_splits)
qed (use assms in \<open>auto simp: commit_load_def unregister_def\<close>)

lemma fresh_entry_get: "fresh_entry im ttl now k s = Some c \<Longrightarrow> im_get im (entries s) k = Some c"
  by (auto simp: fresh_entry_def hash_ops split: option.splits if_splits)

lemma sections_entries [simp]:
  "entries (snd (lookup_phase1 im ttl now k s)) = entries s" "in_flight (snd (lookup_phase1 im ttl now k s)) = in_flight s"
  "entries (snd (lookup_phase2 im ttl now k d s)) = entries s"
  by (auto simp: task_step_simps split: option.splits)

lemma task_step_loads:
  assumes laws: "hash_map_laws im" "watch_laws wt" and lru: "lru_ok im cap (cw_state (cs_world y))"
    and ok: "loads_ok im wt own y" and i: "cs_tasks y i = Some t"
    and step: "cache_task_step im wt cap ttl fiber t (cs_world y) = Some (t', w')"
  shows "\<exists>own'. loads_ok im wt own' ((set_task i t' y)\<lparr>cs_world := w'\<rparr>)"
proof -
  let ?w = "cs_world y" and ?H = "cs_loaded y"
  note D = loads_okD [OF ok]
  note quiet = loads_ok_quiet [OF ok, where w' = w' and i = i and t = t'] and complete = loads_ok_complete [OF ok, where w' = w' and i = i and t = t']
  have ti: "task_ok own ?H (ref_next ?w) t" using D(4) [OF i] .
  have hit: "task_ok own' ?H n (Returned k (Ok (cached_value c)))" if "fresh_entry im ttl (cw_now ?w) k (cw_state ?w) = Some c" for own' n k c
    using D(2) [OF fresh_entry_get [OF that]] by (auto intro!: exI [of _ "Success (cached_value c)"] simp: exit_result_def seen_exit_def)
  show ?thesis
  proof (cases t)
    case (Getting k)
    have w': "w' = ?w\<lparr>cw_state := snd (lookup_phase1 im ttl (cw_now ?w) k (cw_state ?w))\<rparr>"
      using step unfolding Getting by (auto split: prod.splits)
    have "loads_ok im wt own ((set_task i t' y)\<lparr>cs_world := w'\<rparr>)"
    proof (rule quiet)
      show "task_ok own ?H (ref_next ?w) t'" "\<And>k d. t' = Waiting k d \<Longrightarrow> attended wt ?w (cs_tasks y) k d"
        using step D(3) hit unfolding Getting by (auto simp: lookup_phase1_def split: option.splits)
      show "in_flight (cw_state w') \<subseteq>\<^sub>m in_flight (cw_state ?w)"
        by (simp add: w')
      show "\<And>k c. im_get im (entries (cw_state w')) k = Some c \<Longrightarrow> (k, Ok (cached_value c)) \<in> ?H"
        using D(2) by (simp add: w')
    qed (use i Getting in \<open>auto simp: w'\<close>)
    then show ?thesis by blast
  next
    case (Missed k)
    have "loads_ok im wt (own(ref_next ?w := k)) ((set_task i t' y)\<lparr>cs_world := w'\<rparr>)"
      by (rule loads_ok_new [OF ok laws(2)])
        (use step i hit D(2,3) D(3) [THEN conjunct2, THEN conjunct1, THEN less_SucI] in \<open>auto simp: Missed new_deferred_def put_ref_def lookup_phase2_def count_hit_def count_miss_def split: option.splits if_splits\<close>)
    then show ?thesis by blast
  next
    case (Loaded k d v)
    have w': "w' = snd (on_deferred d (deferred_succeed wt v) ?w)" and t': "\<exists>won. t' = Storing k v won"
      using step unfolding Loaded by (auto split: prod.splits)
    have "loads_ok im wt own ((set_task i t' y)\<lparr>cs_world := w'\<rparr>)"
      using ti i
      by (intro complete [of d "Success v"])
        (use t' in \<open>auto simp: Loaded w' seen_exit_def on_deferred_borrow(1) [OF laws(2)]\<close>)
    then show ?thesis by blast
  next
    case (Load_failed k d e)
    have w': "w' = snd (on_deferred d (deferred_fail wt e) ?w)" and t': "\<exists>won. t' = Cleaning k e"
      using step unfolding Load_failed by (auto split: prod.splits)
    have "loads_ok im wt own ((set_task i t' y)\<lparr>cs_world := w'\<rparr>)"
      using ti i
      by (intro complete [of d "Failure (cause_fail e)"])
        (use t' in \<open>auto simp: Load_failed w' seen_exit_def on_deferred_borrow(2) [OF laws(2)]\<close>)
    then show ?thesis by blast
  next
    case (Storing k v won)
    then obtain s where s: "commit_load im cap (cw_now ?w) k v won (cw_state ?w) = Some s" "t' = Returned k (Ok v)" "w' = ?w\<lparr>cw_state := s\<rparr>"
      using step by auto
    have "loads_ok im wt own ((set_task i t' y)\<lparr>cs_world := w'\<rparr>)"
      using s i ti D(2) commit_load_ok [OF laws(1) lru, of "cw_now ?w" k v won] put_entry_sources [OF laws(1) lru s(1)]
      by (intro quiet) (auto simp: Storing map_le_def dom_def exit_result_def seen_exit_def split: exit.splits intro!: exI [of _ "Success v"])
    then show ?thesis by blast
  next
    case (Cleaning k e)
    have "\<exists>x. Err (cause_fail e) = exit_result x \<and> seen_exit ?H k x"
      using ti by (intro exI [of _ "Failure (cause_fail e)"]) (auto simp: Cleaning exit_result_def seen_exit_def)
    then have "task_ok own ?H (ref_next ?w) t'" using step by (auto simp: Cleaning)
    then have "loads_ok im wt own ((set_task i t' y)\<lparr>cs_world := w'\<rparr>)"
      using step i D(2) by (intro quiet) (auto simp: Cleaning unregister_def map_le_def split: if_splits)
    then show ?thesis by blast
  next
    case (Waiting k d)
    then obtain x where "wt_borrow wt (ref_val ?w d) = Some x" "t' = Returned k (exit_result x)" "w' = ?w"
      using step by (auto simp: deferred_wait_def)
    then have "loads_ok im wt own ((set_task i t' y)\<lparr>cs_world := w'\<rparr>)"
      using i ti D(1,2) by (intro quiet) (auto simp: Waiting)
    then show ?thesis by blast
  next
    case (Invalidating k)
    have "loads_ok im wt own ((set_task i t' y)\<lparr>cs_world := w'\<rparr>)"
      using step i D(2) by (intro quiet) (auto simp: Invalidating remove_key_def map_le_def hash_ops hash_map_lawsD [OF laws(1)] split: if_splits)
    then show ?thesis by blast
  next
    case (Interrupting k dd)
    show ?thesis
    proof (cases dd)
      case None
      then have "loads_ok im wt own ((set_task i t' y)\<lparr>cs_world := w'\<rparr>)"
        using step i D(2) by (intro quiet) (auto simp: Interrupting)
      then show ?thesis by blast
    next
      case (Some d)
      then have "loads_ok im wt own ((set_task i t' y)\<lparr>cs_world := w'\<rparr>)"
        using step i on_deferred_state [of d "deferred_interrupt wt fiber" ?w]
        by (intro complete [of d "Failure (cause_interrupt fiber)"])
          (auto simp: Interrupting seen_exit_def on_deferred_borrow(3) [OF laws(2)])
      then show ?thesis by blast
    qed
  qed (use step in auto)
qed

lemma set_task_world [simp]: "(set_task i t y)\<lparr>cs_world := cs_world y\<rparr> = set_task i t y"
  by (simp add: set_task_def)

lemma loads_ok_invalidated [simp]: "loads_ok im wt own (y\<lparr>cs_invalidated := K\<rparr>) = loads_ok im wt own y"
  by (simp add: loads_ok_def)

lemma loads_ok_uses [simp]: "loads_ok im wt own (y\<lparr>cs_uses := us\<rparr>) = loads_ok im wt own y"
  by (simp add: loads_ok_def)

lemma loads_ok_load:
  assumes ok: "loads_ok im wt own y" and i: "cs_tasks y i = Some (Loading k d)"
    and t: "leads t = Some (k, d)" "own d = k \<Longrightarrow> d < ref_next (cs_world y) \<Longrightarrow> task_ok own H (ref_next (cs_world y)) t"
    and H: "cs_loaded y \<subseteq> H"
  shows "loads_ok im wt own ((set_task i t y)\<lparr>cs_loaded := H\<rparr>)"
proof -
  note D = loads_okD [OF ok]
  have att: "attended wt (cs_world y) ((cs_tasks y)(i \<mapsto> t)) k' d'" if "attended wt (cs_world y) (cs_tasks y) k' d'" for k' d'
    using attended_set_task [OF that, of i t] i t(1) by simp
  have ti: "task_ok own H (ref_next (cs_world y)) t" using D(4) [OF i] t(2) by simp
  have others: "task_ok own H (ref_next (cs_world y)) u" if "cs_tasks y j = Some u" for j u
    using task_ok_mono [OF D(4) [OF that] H] .
  have "\<And>k d. t \<noteq> Waiting k d" using t(1) by (cases t) auto
  then show ?thesis
    by (intro loads_okI) (use D(2) H in \<open>auto simp: set_task_def ti split: if_splits intro: others att seen_exit_mono [OF _ H] dest: D(1,3,5)\<close>)
qed

lemma cache_step_loads:
  assumes laws: "hash_map_laws im" "watch_laws wt" and lru: "lru_ok im cap (cw_state (cs_world y))"
    and ok: "loads_ok im wt own y" and step: "cache_step im wt cap ttl y z"
  shows "\<exists>own'. loads_ok im wt own' z"
  using step
proof cases
  case (advance i t fiber t' w')
  with task_step_loads [OF laws lru ok] show ?thesis by simp
next
  case (tick n)
  have "loads_ok im wt own z"
    by (intro loads_okI) (use loads_okD [OF ok] in \<open>auto simp: tick attended_def\<close>)
  then show ?thesis by blast
next
  case (call i k)
  have "loads_ok im wt own ((set_task i (Getting k) y)\<lparr>cs_world := cs_world y\<rparr>)"
    by (rule loads_ok_quiet [OF ok]) (use call loads_okD(2) [OF ok] in auto)
  then show ?thesis by (auto simp: call set_task_def)
next
  case (invalidate i k)
  have "loads_ok im wt own ((set_task i (Invalidating k) y)\<lparr>cs_world := cs_world y\<rparr>)"
    by (rule loads_ok_quiet [OF ok]) (use invalidate loads_okD(2) [OF ok] in auto)
  then show ?thesis unfolding invalidate by auto
next
  case (load_ok i k d v)
  with loads_ok_load [OF ok load_ok(2), of "Loaded k d v" "insert (k, Ok v) (cs_loaded y)"] show ?thesis by auto
next
  case (load_err i k d e)
  with loads_ok_load [OF ok load_err(2), of "Load_failed k d e" "insert (k, Err e) (cs_loaded y)"] show ?thesis by auto
qed

section \<open>One leader\<close>

text \<open>The key of a task that loads, or has loaded and not yet left the critical section.\<close>

fun active_key :: "('k, 'v, 'e) cache_task \<Rightarrow> 'k option" where
  "active_key (Storing k v won) = Some k"
| "active_key (Cleaning k e) = Some k"
| "active_key t = map_option fst (leads t)"

lemma leads_active: "leads t = Some (k, d) \<Longrightarrow> active_key t = Some k"
  by (cases t) auto

definition one_leader :: "('c, 'k, 'm, 'v, 'e) cache_system \<Rightarrow> bool" where
  "one_leader y \<longleftrightarrow>
     (\<forall>i t k. cs_tasks y i = Some t \<longrightarrow> (t = Invalidating k \<or> (\<exists>d. t = Interrupting k d)) \<longrightarrow> k \<in> cs_invalidated y)
   \<and> (\<forall>k i j t u. k \<notin> cs_invalidated y \<longrightarrow> cs_tasks y i = Some t \<longrightarrow> active_key t = Some k
        \<longrightarrow> in_flight (cw_state (cs_world y)) k \<noteq> None \<and> (cs_tasks y j = Some u \<longrightarrow> active_key u = Some k \<longrightarrow> i = j))"

lemma one_leaderI:
  assumes "\<And>i t k. cs_tasks y i = Some t \<Longrightarrow> t = Invalidating k \<or> (\<exists>d. t = Interrupting k d) \<Longrightarrow> k \<in> cs_invalidated y"
    and "\<And>k i t. k \<notin> cs_invalidated y \<Longrightarrow> cs_tasks y i = Some t \<Longrightarrow> active_key t = Some k \<Longrightarrow> in_flight (cw_state (cs_world y)) k \<noteq> None"
    and "\<And>k i j t u. k \<notin> cs_invalidated y \<Longrightarrow> cs_tasks y i = Some t \<Longrightarrow> active_key t = Some k
      \<Longrightarrow> cs_tasks y j = Some u \<Longrightarrow> active_key u = Some k \<Longrightarrow> i = j"
  shows "one_leader y"
  using assms unfolding one_leader_def by blast

lemma one_leaderD:
  assumes "one_leader y"
  shows "cs_tasks y i = Some t \<Longrightarrow> t = Invalidating k \<or> (\<exists>d. t = Interrupting k d) \<Longrightarrow> k \<in> cs_invalidated y"
    and "k \<notin> cs_invalidated y \<Longrightarrow> cs_tasks y i = Some t \<Longrightarrow> active_key t = Some k \<Longrightarrow> in_flight (cw_state (cs_world y)) k \<noteq> None"
    and "k \<notin> cs_invalidated y \<Longrightarrow> cs_tasks y i = Some t \<Longrightarrow> active_key t = Some k
      \<Longrightarrow> cs_tasks y j = Some u \<Longrightarrow> active_key u = Some k \<Longrightarrow> i = j"
  using assms unfolding one_leader_def by blast+

text \<open>A task that starts to be active for a key does so when no load of it is in flight.\<close>

lemma one_leader_replace:
  assumes ok: "one_leader y"
    and old: "cs_tasks y i = Some t0 \<Longrightarrow> active_key t0 = Some k0 \<Longrightarrow> active_key t = Some k0 \<or> active_key t = None"
    and new: "\<And>k. active_key t = Some k \<Longrightarrow> (\<exists>t0. cs_tasks y i = Some t0 \<and> active_key t0 = Some k) \<or> in_flight (cw_state (cs_world y)) k = None"
    and reg: "\<And>k. k \<notin> cs_invalidated y \<Longrightarrow> active_key t = Some k \<Longrightarrow> in_flight (cw_state w') k \<noteq> None"
    and others: "\<And>k. k \<notin> cs_invalidated y \<Longrightarrow> in_flight (cw_state (cs_world y)) k \<noteq> None \<Longrightarrow> in_flight (cw_state w') k = None
      \<Longrightarrow> \<exists>t0. cs_tasks y i = Some t0 \<and> active_key t0 = Some k"
    and inv: "\<And>k. t = Invalidating k \<or> (\<exists>d. t = Interrupting k d) \<Longrightarrow> k \<in> cs_invalidated y"
  shows "one_leader ((set_task i t y)\<lparr>cs_world := w'\<rparr>)"
proof -
  note D = one_leaderD [OF ok]
  have uniq: "j = i" if "k \<notin> cs_invalidated y" "active_key t = Some k" "cs_tasks y j = Some u" "active_key u = Some k" for k j u
    using new [OF that(2)] D(3) [OF that(1)] D(2) [OF that(1)] that by blast
  have flying: "in_flight (cw_state w') k \<noteq> None" if "k \<notin> cs_invalidated y" "cs_tasks y j = Some u" "active_key u = Some k" "j \<noteq> i" for k j u
    using others [OF that(1)] D(2,3) [OF that(1-3)] that(4) by blast
  show ?thesis
  proof (intro one_leaderI)
    fix j u k assume "cs_tasks ((set_task i t y)\<lparr>cs_world := w'\<rparr>) j = Some u" "u = Invalidating k \<or> (\<exists>d. u = Interrupting k d)"
    then show "k \<in> cs_invalidated ((set_task i t y)\<lparr>cs_world := w'\<rparr>)"
      using D(1) inv by (cases "j = i") (auto simp: set_task_def)
  next
    fix k j u assume "k \<notin> cs_invalidated ((set_task i t y)\<lparr>cs_world := w'\<rparr>)" "cs_tasks ((set_task i t y)\<lparr>cs_world := w'\<rparr>) j = Some u" "active_key u = Some k"
    then show "in_flight (cw_state (cs_world ((set_task i t y)\<lparr>cs_world := w'\<rparr>))) k \<noteq> None"
      using reg flying by (cases "j = i") (auto simp: set_task_def)
  next
    fix k j j' u u'
    assume "k \<notin> cs_invalidated ((set_task i t y)\<lparr>cs_world := w'\<rparr>)" "cs_tasks ((set_task i t y)\<lparr>cs_world := w'\<rparr>) j = Some u" "active_key u = Some k"
      "cs_tasks ((set_task i t y)\<lparr>cs_world := w'\<rparr>) j' = Some u'" "active_key u' = Some k"
    then show "j = j'" using uniq [of k] D(3) [of k j u j' u'] by (auto simp: set_task_def split: if_splits)
  qed
qed

lemma task_step_one_leader:
  assumes laws: "hash_map_laws im" and lru: "lru_ok im cap (cw_state (cs_world y))" and ok: "one_leader y"
    and i: "cs_tasks y i = Some t" and step: "cache_task_step im wt cap ttl fiber t (cs_world y) = Some (t', w')"
  shows "one_leader ((set_task i t' y)\<lparr>cs_world := w'\<rparr>)"
proof (cases t)
  case (Getting k)
  then show ?thesis using i step
    by (intro one_leader_replace [OF ok]) (auto simp: lookup_phase1_def count_hit_def count_miss_def split: option.splits)
next
  case (Missed k)
  then show ?thesis using i step
    by (intro one_leader_replace [OF ok])
      (auto simp: new_deferred_def put_ref_def lookup_phase2_def count_hit_def count_miss_def split: option.splits if_splits)
next
  case (Loaded k d v)
  have "cw_state w' = cw_state (cs_world y)" "\<exists>won. t' = Storing k v won"
    using step on_deferred_state(1) [of d "deferred_succeed wt v" "cs_world y"] unfolding Loaded by (auto split: prod.splits simp del: on_deferred_state)
  then show ?thesis using i one_leaderD(2) [OF ok, of _ i t] by (intro one_leader_replace [OF ok]) (auto simp: Loaded)
next
  case (Load_failed k d e)
  have "cw_state w' = cw_state (cs_world y)" "t' = Cleaning k e"
    using step on_deferred_state(1) [of d "deferred_fail wt e" "cs_world y"] unfolding Load_failed by (auto split: prod.splits simp del: on_deferred_state)
  then show ?thesis using i one_leaderD(2) [OF ok, of _ i t] by (intro one_leader_replace [OF ok]) (auto simp: Load_failed)
next
  case (Storing k v won)
  then show ?thesis using i step commit_load_ok [OF laws lru, of "cw_now (cs_world y)" k v won]
    by (intro one_leader_replace [OF ok]) (auto split: if_splits)
next
  case (Cleaning k e)
  then show ?thesis using i step by (intro one_leader_replace [OF ok]) (auto simp: unregister_def split: if_splits)
next
  case (Waiting k d)
  then show ?thesis using i step by (intro one_leader_replace [OF ok]) auto
next
  case (Invalidating k)
  then show ?thesis using i step one_leaderD(1) [OF ok i, of k]
    by (intro one_leader_replace [OF ok]) (auto simp: remove_key_def split: if_splits)
next
  case (Interrupting k dd)
  then show ?thesis using i step by (cases dd; intro one_leader_replace [OF ok]) auto
qed (use step in auto)

lemma cache_step_one_leader:
  assumes laws: "hash_map_laws im" and lru: "lru_ok im cap (cw_state (cs_world y))" and ok: "one_leader y"
    and step: "cache_step im wt cap ttl y z"
  shows "one_leader z"
  using step
proof cases
  case (advance i t fiber t' w')
  with task_step_one_leader [OF laws lru ok] show ?thesis by (simp add: one_leader_def)
next
  case (call i k)
  have "one_leader ((set_task i (Getting k) y)\<lparr>cs_world := cs_world y\<rparr>)"
    by (rule one_leader_replace [OF ok]) (use call in auto)
  then show ?thesis by (simp add: call)
next
  case (invalidate i k)
  let ?y = "y\<lparr>cs_invalidated := insert k (cs_invalidated y)\<rparr>"
  have "one_leader ?y" by (rule one_leaderI) (use one_leaderD [OF ok] in auto)
  then have "one_leader ((set_task i (Invalidating k) ?y)\<lparr>cs_world := cs_world ?y\<rparr>)"
    by (rule one_leader_replace) (use invalidate in auto)
  moreover have "(set_task i (Invalidating k) ?y)\<lparr>cs_world := cs_world ?y\<rparr> = z" by (simp add: invalidate set_task_def)
  ultimately show ?thesis by simp
next
  case (load_ok i k d v)
  have "one_leader ((set_task i (Loaded k d v) y)\<lparr>cs_world := cs_world y\<rparr>)"
    using load_ok one_leaderD(2) [OF ok, of k i] by (intro one_leader_replace [OF ok]) auto
  then show ?thesis by (simp add: load_ok one_leader_def)
next
  case (load_err i k d e)
  have "one_leader ((set_task i (Load_failed k d e) y)\<lparr>cs_world := cs_world y\<rparr>)"
    using load_err one_leaderD(2) [OF ok, of k i] by (intro one_leader_replace [OF ok]) auto
  then show ?thesis by (simp add: load_err one_leader_def)
qed (use ok in \<open>simp add: one_leader_def\<close>)

lemma reachable_cache:
  assumes laws: "hash_map_laws im" "watch_laws wt" and reach: "(cache_step im wt cap ttl)\<^sup>*\<^sup>* (cache_start im w) y" and empty: "ref_next w = 0"
  shows "lru_ok im cap (cw_state (cs_world y)) \<and> (\<exists>own. loads_ok im wt own y) \<and> one_leader y"
  using reach
proof induction
  case base
  have "loads_ok im wt (\<lambda>_. undefined) (cache_start im w)"
    by (intro loads_okI) (auto simp: cache_start_def cache_default_def hash_ops hash_map_lawsD [OF laws(1)] empty)
  moreover have "one_leader (cache_start im w)" by (auto simp: one_leader_def cache_start_def)
  ultimately show ?case using cache_start_lru [OF laws(1)] by blast
next
  case (step y z)
  then obtain own where "lru_ok im cap (cw_state (cs_world y))" "loads_ok im wt own y" "one_leader y" by blast
  with cache_step_lru [OF laws(1) step.hyps(2)] cache_step_loads [OF laws _ _ step.hyps(2)] cache_step_one_leader [OF laws(1) _ _ step.hyps(2)]
  show ?case by blast
qed

text \<open>
  C17. Coalesced loads. Whatever lookups, loads and invalidations are interleaved: a lookup returns the
  value or the failure of some load of its own key, or an interruption; nobody waits for a deferred
  that is neither completed nor has its leader still at work; and as long as a key is not
  invalidated, at most one lookup at a time loads it.
\<close>

theorem cache_coalesces:
  assumes "hash_map_laws im" "watch_laws wt" "ref_next w = 0" "(cache_step im wt cap ttl)\<^sup>*\<^sup>* (cache_start im w) y"
  shows "(\<forall>i k res. cs_tasks y i = Some (Returned k res) \<longrightarrow> (\<exists>x. res = exit_result x \<and> seen_exit (cs_loaded y) k x))
    \<and> (\<forall>i k d. cs_tasks y i = Some (Waiting k d) \<longrightarrow> deferred_is_done wt (ref_val (cs_world y) d)
        \<or> (\<exists>j t. cs_tasks y j = Some t \<and> leads t = Some (k, d)))
    \<and> (\<forall>k i j t u d d'. k \<notin> cs_invalidated y \<longrightarrow> cs_tasks y i = Some t \<longrightarrow> leads t = Some (k, d)
        \<longrightarrow> cs_tasks y j = Some u \<longrightarrow> leads u = Some (k, d') \<longrightarrow> i = j)"
proof -
  from reachable_cache [OF assms(1,2,4,3)] obtain own where ok: "loads_ok im wt own y" "one_leader y" by blast
  show ?thesis
  proof (intro conjI allI impI)
    fix i k res assume "cs_tasks y i = Some (Returned k res)"
    with loads_okD(4) [OF ok(1) this] show "\<exists>x. res = exit_result x \<and> seen_exit (cs_loaded y) k x" by simp
  next
    fix i k d assume "cs_tasks y i = Some (Waiting k d)"
    with loads_okD(5) [OF ok(1)] show "deferred_is_done wt (ref_val (cs_world y) d) \<or> (\<exists>j t. cs_tasks y j = Some t \<and> leads t = Some (k, d))"
      by (simp add: attended_def deferred_is_done_def)
  next
    fix k i j t u d d' assume "k \<notin> cs_invalidated y" "cs_tasks y i = Some t" "leads t = Some (k, d)" "cs_tasks y j = Some u" "leads u = Some (k, d')"
    then show "i = j" by (intro one_leaderD(3) [OF ok(2), of k i t j u] leads_active)
  qed
qed

section \<open>Concrete runs\<close>

text \<open>A schedule of events, to execute the step relation.\<close>

datatype ('k, 'v, 'e) cache_event = Call nat 'k | Invalidate nat 'k | Advance nat fiber_id | Load nat "('v, 'e) result" | Tick nat

fun play ::
  "('k, 'v, 'm) entry_map \<Rightarrow> ('v, 'e, 'c) exit_watch \<Rightarrow> nat \<Rightarrow> nat option \<Rightarrow> ('k, 'v, 'e) cache_event
    \<Rightarrow> ('c, 'k, 'm, 'v, 'e) cache_system \<Rightarrow> ('c, 'k, 'm, 'v, 'e) cache_system option" where
  "play im wt cap ttl (Call i k) y = (if cs_tasks y i = None then Some (set_task i (Getting k) y) else None)"
| "play im wt cap ttl (Invalidate i k) y =
     (if cs_tasks y i = None then Some ((set_task i (Invalidating k) y)\<lparr>cs_invalidated := insert k (cs_invalidated y)\<rparr>) else None)"
| "play im wt cap ttl (Advance i fiber) y = (case cs_tasks y i of None \<Rightarrow> None
   | Some t \<Rightarrow> map_option (\<lambda>(t', w'). (set_task i t' y)\<lparr>cs_world := w', cs_uses := cs_uses y @ used_by t t'\<rparr>) (cache_task_step im wt cap ttl fiber t (cs_world y)))"
| "play im wt cap ttl (Load i res) y = (case cs_tasks y i of
     Some (Loading k d) \<Rightarrow> Some ((set_task i (case res of Inl e \<Rightarrow> Load_failed k d e | Inr v \<Rightarrow> Loaded k d v) y)\<lparr>cs_loaded := insert (k, res) (cs_loaded y)\<rparr>)
   | _ \<Rightarrow> None)"
| "play im wt cap ttl (Tick n) y = Some (y\<lparr>cs_world := (cs_world y)\<lparr>cw_now := cw_now (cs_world y) + n\<rparr>\<rparr>)"

primrec plays ::
  "('k, 'v, 'm) entry_map \<Rightarrow> ('v, 'e, 'c) exit_watch \<Rightarrow> nat \<Rightarrow> nat option \<Rightarrow> ('k, 'v, 'e) cache_event list
    \<Rightarrow> ('c, 'k, 'm, 'v, 'e) cache_system \<Rightarrow> ('c, 'k, 'm, 'v, 'e) cache_system option" where
  "plays im wt cap ttl [] y = Some y"
| "plays im wt cap ttl (e # es) y = (case play im wt cap ttl e y of
     None \<Rightarrow> None | Some z \<Rightarrow> plays im wt cap ttl es z)"

lemma play_step: "play im wt cap ttl e y = Some z \<Longrightarrow> cache_step im wt cap ttl y z"
  by (cases e) (auto split: if_splits option.splits cache_task.splits sum.splits intro: cache_step.intros)

lemma plays_reach: "plays im wt cap ttl es y = Some z \<Longrightarrow> (cache_step im wt cap ttl)\<^sup>*\<^sup>* y z"
proof (induction es arbitrary: y)
  case (Cons e es)
  then obtain z' where "play im wt cap ttl e y = Some z'" "plays im wt cap ttl es z' = Some z" by (auto split: option.splits)
  with Cons.IH play_step show ?case by (metis converse_rtranclp_into_rtranclp)
qed simp

definition demo_cache :: "((int, string) exit option, string, (string \<times> int cached) list, int, string) cache_system" where
  "demo_cache = cache_start alist_map \<lparr>ref_val = \<lambda>_. None, ref_next = 0, cw_state = cache_default (alist_map :: (string, int, _) entry_map), cw_now = 0\<rparr>"

lemmas run_demo = cache_start_def cache_default_def demo_cache_def alist_map_def value_watch_def hash_ops lookup_phase1_def lookup_phase2_def
  count_hit_def count_miss_def fresh_entry_def is_fresh_def new_deferred_def put_ref_def deferred_make_def set_task_def remove_key_def remove_lru_def
  on_deferred_def deferred_succeed_def deferred_fail_def deferred_interrupt_def new_sync_def first_wins_def commit_load_def put_entry_def unregister_def
  deferred_wait_def exit_result_def exit_succeed_def exit_fail_def exit_interrupt_def touch_lru_def

lemma demo_join:
  "\<exists>y. plays alist_map value_watch 1 None
      [Call 0 ''k'', Advance 0 f, Advance 0 f, Call 1 ''k'', Advance 1 f, Load 0 (Ok 7), Advance 0 f, Advance 1 f, Advance 0 f] demo_cache = Some y
    \<and> cs_tasks y 0 = Some (Returned ''k'' (Ok 7)) \<and> cs_tasks y 1 = Some (Returned ''k'' (Ok 7)) \<and> cs_loaded y = {(''k'', Ok 7)}"
  by (simp add: run_demo)

lemma demo_lru:
  "\<exists>y. plays alist_map value_watch 2 None
      [Call 0 ''a'', Advance 0 f, Advance 0 f, Load 0 (Ok 1), Advance 0 f, Advance 0 f,
       Call 1 ''b'', Advance 1 f, Advance 1 f, Load 1 (Ok 2), Advance 1 f, Advance 1 f,
       Call 2 ''a'', Advance 2 f] demo_cache = Some y
    \<and> cs_uses y = [''a'', ''b'', ''a''] \<and> entries (cw_state (cs_world y)) = [(''b'', \<lparr>cached_value = 2, stored_at = 0\<rparr>), (''a'', \<lparr>cached_value = 1, stored_at = 0\<rparr>)]"
  by (simp add: run_demo)

text \<open>Of two entries, the one looked up since stays, although it was stored first.\<close>

lemma cache_bounded_witness:
  "\<exists>y s'. plays alist_map value_watch 2 None
      [Call 0 ''a'', Advance 0 (FiberId 1), Advance 0 (FiberId 1), Load 0 (Ok 1), Advance 0 (FiberId 1), Advance 0 (FiberId 1),
       Call 1 ''b'', Advance 1 (FiberId 1), Advance 1 (FiberId 1), Load 1 (Ok 2), Advance 1 (FiberId 1), Advance 1 (FiberId 1),
       Call 2 ''a'', Advance 2 (FiberId 1)] demo_cache = Some y
    \<and> commit_load alist_map 2 5 ''c'' 3 True (cw_state (cs_world y)) = Some s'
    \<and> hash_get alist_map (entries s') =
        [''a'' \<mapsto> \<lparr>cached_value = 1, stored_at = 0\<rparr>, ''c'' \<mapsto> \<lparr>cached_value = 3, stored_at = 5\<rparr>]"
  (is "\<exists>y s'. ?run = Some y \<and> _")
proof -
  from demo_lru obtain y where y: "?run = Some y" "cs_uses y = [''a'', ''b'', ''a'']"
    "entries (cw_state (cs_world y)) = [(''b'', \<lparr>cached_value = 2, stored_at = 0\<rparr>), (''a'', \<lparr>cached_value = 1, stored_at = 0\<rparr>)]" by blast
  from plays_reach [OF y(1)] have "(cache_step alist_map value_watch 2 None)\<^sup>*\<^sup>* (cache_start alist_map
      \<lparr>ref_val = \<lambda>_. None, ref_next = 0, cw_state = cache_default (alist_map :: (string, int, _) entry_map), cw_now = 0\<rparr>) y"
    unfolding demo_cache_def .
  from cache_bounded [OF alist_map_laws this, of 5 "''c''" 3] y show ?thesis
    by (auto simp: hash_get_def alist_map_def restrict_map_def fun_eq_iff)
qed

lemma cache_coalesces_witness:
  "\<exists>y. plays alist_map value_watch 1 None
      [Call 0 ''k'', Advance 0 (FiberId 1), Advance 0 (FiberId 1), Call 1 ''k'', Advance 1 (FiberId 1), Load 0 (Ok 7), Advance 0 (FiberId 1), Advance 1 (FiberId 1), Advance 0 (FiberId 1)] demo_cache = Some y
    \<and> (\<exists>x. Ok 7 = exit_result x \<and> seen_exit {(''k'', Ok 7 :: (int, string) result)} ''k'' x)"
  (is "\<exists>y. ?run = Some y \<and> _")
proof -
  from demo_join obtain y where y: "?run = Some y" "cs_tasks y 1 = Some (Returned ''k'' (Ok 7))" "cs_loaded y = {(''k'', Ok 7)}" by blast
  from plays_reach [OF y(1)] have reach: "(cache_step alist_map value_watch 1 None)\<^sup>*\<^sup>* (cache_start alist_map
      \<lparr>ref_val = \<lambda>_. None, ref_next = 0, cw_state = cache_default (alist_map :: (string, int, _) entry_map), cw_now = 0\<rparr>) y"
    unfolding demo_cache_def .
  have "ref_next \<lparr>ref_val = \<lambda>_. None, ref_next = 0, cw_state = cache_default (alist_map :: (string, int, _) entry_map), cw_now = 0\<rparr> = 0" by simp
  from cache_coalesces [OF alist_map_laws value_watch_laws this reach] y show ?thesis by fastforce
qed

text \<open>
  A lookup that was interrupted by an invalidation still runs its commit, and that removes whatever is
  registered for its key: here the deferred of the lookup that started after the invalidation. From
  then on two lookups load the same key at once although nothing was invalidated in between, and a
  second invalidation no longer reaches the first of them, whose value is stored afterwards.
\<close>

theorem stale_leader_unregisters:
  "\<exists>y d2 d3. plays alist_map value_watch 0 None
      [Call 0 ''k'', Advance 0 f, Advance 0 f, Invalidate 1 ''k'', Advance 1 f, Advance 1 f,
       Call 2 ''k'', Advance 2 f, Advance 2 f, Load 0 (Ok 1), Advance 0 f, Advance 0 f,
       Call 3 ''k'', Advance 3 f, Advance 3 f] demo_cache = Some y
    \<and> cs_tasks y 2 = Some (Loading ''k'' d2) \<and> cs_tasks y 3 = Some (Loading ''k'' d3) \<and> d2 \<noteq> d3
    \<and> (\<exists>z. plays alist_map value_watch 0 None [Invalidate 4 ''k'', Advance 4 f, Advance 4 f, Load 2 (Ok 5), Advance 2 f, Advance 2 f] y = Some z
        \<and> map_option cached_value (hash_get alist_map (entries (cw_state (cs_world z))) ''k'') = Some 5)"
  by (simp add: run_demo)

section \<open>Lookups that run by themselves\<close>

lemma cache_get_hit:
  assumes "fresh_entry im (cache_ttl c) (cw_now w) k (cw_state w) = Some x"
  shows "cache_get im wt c k r w = Some (Ok (cached_value x), r, w\<lparr>cw_state := count_hit k (cw_state w)\<rparr>)"
  using assms by (simp add: cache_get_def new_async_def lookup_phase1_def)

lemma cache_get_miss:
  assumes "fresh_entry im (cache_ttl c) (cw_now w) k (cw_state w) = None" "in_flight (cw_state w) k = None"
  shows "cache_get im wt c k r w = lead im wt c k (ref_next w) r
    (w\<lparr>ref_val := (ref_val w)(ref_next w := deferred_make wt), ref_next := Suc (ref_next w),
       cw_state := count_miss ((cw_state w)\<lparr>in_flight := (in_flight (cw_state w))(k \<mapsto> ref_next w)\<rparr>)\<rparr>)"
  using assms by (simp add: cache_get_def new_async_def lookup_phase1_def lookup_phase2_def new_deferred_def put_ref_def)

lemma on_deferred_more [simp]: "cache_world.more (snd (on_deferred d eff w)) = cache_world.more w"
  for w :: "('c, 'k, 'm, 'x) cache_world_scheme"
  by (simp add: on_deferred_def put_ref_def split: option.splits sum.splits prod.splits)

lemma on_deferred_succeed:
  assumes "watch_laws wt" "wt_borrow wt (ref_val w d) = None"
  shows "fst (on_deferred d (deferred_succeed wt v) w)"
  using send_first(1) [OF assms(1), of "Success v" "ref_val w d"] assms(2)
  by (auto simp: on_deferred_def deferred_succeed_def new_sync_def exit_succeed_def split: prod.splits)

text \<open>
  C19. Memoisation. The load of \<open>k\<close> is any effect that takes \<open>took\<close> of time, whose outcome and whose change
  to its own part of the world, which the cache does not know, are given by \<open>f\<close>. A lookup that runs by
  itself on a key with no fresh entry and no load in flight runs the load exactly once: that part of
  the world is the one a single run leaves. A value that was loaded is returned, and so is it by
  every lookup until it expires, whatever the load has become by then; such a lookup does not run the
  load, for it leaves the world outside the cache alone. A failed load is reported to its caller, and
  the cache is as it was but for the miss it counted. No registration stays behind in either case.
\<close>

theorem cache_get_memoises:
  fixes w :: "('c, 'k, 'm, 'x) cache_world_scheme"
    and c :: "('k, 'v, 'e, 'r, ('c, 'k, 'm, 'x) cache_world_scheme) cache"
    and f :: "'x \<Rightarrow> ('v, 'e) result \<times> 'x"
  assumes laws: "hash_map_laws im" "watch_laws wt" and ok: "lru_ok im (cache_capacity c) (cw_state w)"
    and miss: "fresh_entry im (cache_ttl c) (cw_now w) k (cw_state w) = None" "in_flight (cw_state w) k = None"
    and load: "\<And>w1. cache_load c k r w1 = Some (fst (f (cache_world.more w1)), r',
      cache_world.more_update (\<lambda>_. snd (f (cache_world.more w1))) (w1\<lparr>cw_now := cw_now w1 + took\<rparr>))"
  shows "\<exists>w'. cache_get im wt c k r w = Some (result_map_err cause_fail (fst (f (cache_world.more w))), r', w')
    \<and> cache_world.more w' = snd (f (cache_world.more w)) \<and> in_flight (cw_state w') = in_flight (cw_state w)
    \<and> (case fst (f (cache_world.more w)) of
         Inl e \<Rightarrow> cw_state w' = count_miss (cw_state w)
       | Inr v \<Rightarrow> (\<forall>now r1 load'. (\<forall>t. cache_ttl c = Some t \<longrightarrow> now \<le> cw_now w + took + t) \<longrightarrow>
           (\<exists>w2. cache_get im wt (c\<lparr>cache_load := load'\<rparr>) k r1 (w'\<lparr>cw_now := now\<rparr>) = Some (Ok v, r1, w2)
             \<and> cache_world.more w2 = cache_world.more w')))"
proof -
  let ?d = "ref_next w" and ?x = "snd (f (cache_world.more w))" and ?now = "cw_now w + took"
  let ?w = "w\<lparr>ref_val := (ref_val w)(?d := deferred_make wt), ref_next := Suc ?d,
       cw_state := count_miss ((cw_state w)\<lparr>in_flight := (in_flight (cw_state w))(k \<mapsto> ?d)\<rparr>)\<rparr>"
  let ?wl = "cache_world.more_update (\<lambda>_. ?x) (?w\<lparr>cw_now := ?now\<rparr>)"
  have fl: "(in_flight (cw_state w))(k := None) = in_flight (cw_state w)" using miss(2) by auto
  have un: "unregister k (cw_state ?wl) = count_miss (cw_state w)"
    by (simp add: unregister_def count_miss_def fl)
  have run: "run (cache_load c k) r ?w = Some (fst (f (cache_world.more w)), r', ?wl)"
    by (simp add: run_def load)
  show ?thesis
  proof (cases "fst (f (cache_world.more w))")
    case (Inl e)
    let ?w2 = "snd (on_deferred ?d (deferred_fail wt e) ?wl)"
    have "lead im wt c k ?d r ?w = Some (Err (cause_fail e), r', ?w2\<lparr>cw_state := unregister k (cw_state ?w2)\<rparr>)"
      unfolding lead_def run by (simp add: Inl case_prod_beta)
    then show ?thesis using cache_get_miss [OF miss] un by (simp add: Inl) (simp add: count_miss_def)
  next
    case (Inr v)
    have "wt_borrow wt (ref_val ?wl ?d) = None" using laws(2) by (simp add: deferred_make_def watch_laws_def)
    then obtain w1 where won: "on_deferred ?d (deferred_succeed wt v) ?wl = (True, w1)"
      using on_deferred_succeed [OF laws(2), of ?wl ?d v] by (cases "on_deferred ?d (deferred_succeed wt v) ?wl") simp
    then have w1: "cw_state w1 = cw_state ?wl" "cw_now w1 = ?now" "cache_world.more w1 = ?x"
      using on_deferred_state(1,2) [of ?d "deferred_succeed wt v" ?wl] on_deferred_more [of ?d "deferred_succeed wt v" ?wl]
      by (simp_all del: on_deferred_state on_deferred_more)
    have "lru_ok im (cache_capacity c) (count_miss (cw_state w))" using ok by (simp add: lru_ok_def count_miss_def)
    from put_entry_spec [OF laws(1) this, of ?now k v] obtain s where
      s: "put_entry im (cache_capacity c) ?now k v (count_miss (cw_state w)) = Some s" "in_flight s = in_flight (count_miss (cw_state w))"
        "im_get im (entries s) k = Some \<lparr>cached_value = v, stored_at = ?now\<rparr>" by blast
    let ?w3 = "w1\<lparr>cw_state := s\<lparr>stats := (stats s)\<lparr>loads := sat_add (loads (stats s)) 1\<rparr>\<rparr>\<rparr>"
    have get: "cache_get im wt c k r w = Some (Ok v, r', ?w3)"
      unfolding cache_get_miss [OF miss] lead_def run using s(1) un by (simp add: Inr won w1 commit_load_def)
    have "\<exists>w2. cache_get im wt (c\<lparr>cache_load := load'\<rparr>) k r1 (?w3\<lparr>cw_now := now\<rparr>) = Some (Ok v, r1, w2)
        \<and> cache_world.more w2 = cache_world.more ?w3"
      if "\<forall>t. cache_ttl c = Some t \<longrightarrow> now \<le> ?now + t" for now r1 load'
    proof -
      have "fresh_entry im (cache_ttl (c\<lparr>cache_load := load'\<rparr>)) (cw_now (?w3\<lparr>cw_now := now\<rparr>)) k (cw_state (?w3\<lparr>cw_now := now\<rparr>))
          = Some \<lparr>cached_value = v, stored_at = ?now\<rparr>"
        using that by (auto simp: fresh_entry_def hash_get_def s(3) is_fresh_def split: option.split)
      from cache_get_hit [OF this, of wt r1] show ?thesis by simp
    qed
    moreover have "in_flight (cw_state ?w3) = in_flight (cw_state w)" by (simp add: s(2) count_miss_def)
    ultimately show ?thesis using get by (auto simp: Inr w1(3))
  qed
qed

text \<open>The load counts its runs: two lookups, one run.\<close>

definition counting_load :: "int \<Rightarrow> string \<Rightarrow> (int, string, unit, ((int, string) exit option, string, (string \<times> int cached) list, nat) cache_world_scheme) effect" where
  "counting_load v k = (\<lambda>r w. Some (Ok v, r, cache_world.more_update Suc w))"

lemma cache_get_memoises_witness:
  "\<exists>w' w2. cache_get alist_map value_watch \<lparr>cache_capacity = 2, cache_ttl = Some 10, cache_load = counting_load 3\<rparr> ''k'' ()
      \<lparr>ref_val = \<lambda>_. None, ref_next = 0, cw_state = cache_default alist_map, cw_now = 0, \<dots> = 0\<rparr> = Some (Ok 3, (), w')
    \<and> cache_world.more w' = 1
    \<and> cache_get alist_map value_watch \<lparr>cache_capacity = 2, cache_ttl = Some 10, cache_load = counting_load 4\<rparr> ''k'' () (w'\<lparr>cw_now := 9\<rparr>)
      = Some (Ok 3, (), w2)
    \<and> cache_world.more w2 = 1"
proof -
  let ?c = "\<lparr>cache_capacity = 2, cache_ttl = Some 10, cache_load = counting_load 3\<rparr>"
  let ?w = "\<lparr>ref_val = \<lambda>_. None, ref_next = 0, cw_state = cache_default alist_map, cw_now = 0, \<dots> = 0\<rparr>
     :: ((int, string) exit option, string, (string \<times> int cached) list, nat) cache_world_scheme"
  have "lru_ok alist_map (cache_capacity ?c) (cw_state ?w)" "fresh_entry alist_map (cache_ttl ?c) (cw_now ?w) ''k'' (cw_state ?w) = None"
    "in_flight (cw_state ?w) ''k'' = None"
    "\<And>w1. cache_load ?c ''k'' () w1 = Some (fst ((\<lambda>n. (Ok 3, Suc n)) (cache_world.more w1)), (),
       cache_world.more_update (\<lambda>_. snd ((\<lambda>n. (Ok 3 :: (int, string) result, Suc n)) (cache_world.more w1))) (w1\<lparr>cw_now := cw_now w1 + 0\<rparr>))"
    by (simp_all add: run_demo lru_ok_def counting_load_def)
  from cache_get_memoises [OF alist_map_laws value_watch_laws this] obtain w' where
    w': "cache_get alist_map value_watch ?c ''k'' () ?w = Some (Ok 3, (), w')" "cache_world.more w' = 1"
      "\<forall>now r1 load'. (\<forall>t. cache_ttl ?c = Some t \<longrightarrow> now \<le> cw_now ?w + 0 + t) \<longrightarrow>
           (\<exists>w2. cache_get alist_map value_watch (?c\<lparr>cache_load := load'\<rparr>) ''k'' r1 (w'\<lparr>cw_now := now\<rparr>) = Some (Ok 3, r1, w2)
             \<and> cache_world.more w2 = cache_world.more w')"
    by auto
  from w'(3) [rule_format, of 9 "counting_load 4" "()"] w'(1,2) show ?thesis by auto
qed

end
