(* ===== verification/Configs.thy ===== *)
theory Configs
  imports Documents Capability Matching
begin

text \<open>
  \<open>crates/id_effect_config\<close>: configuration providers, lazy descriptors, the reads that take the provider
  from the environment, and the errors; with the log levels of \<open>crates/id_effect_logger\<close>, which a
  descriptor can load.

  A provider is a record of the methods of the trait \<open>ConfigProvider\<close>, a descriptor \<open>Config<T>\<close> is the
  function it wraps. Parameters are \<open>std::env::var\<close> (\<open>env_var\<close>), the crates \<open>figment\<close> and \<open>url\<close>,
  \<open>f64::from_str\<close>, the duration decoder (which works on \<open>f64\<close>) and the \<open>Debug\<close> text of strings; \<open>'f\<close> is the
  type of figment's errors. An environment is asked with \<open>need\<close>; \<open>None\<close> is the panic for a missing
  capability.
\<close>

section \<open>Strings\<close>

text \<open>\<open>str::trim\<close>, \<open>to_ascii_lowercase\<close> and \<open>str::split\<close> by a string.\<close>

definition str_trim :: "string \<Rightarrow> string" where
  "str_trim s = rev (dropWhile is_whitespace (rev (dropWhile is_whitespace s)))"

definition ascii_lower :: "char \<Rightarrow> char" where
  "ascii_lower c = (let n = of_char c :: nat in if 65 \<le> n \<and> n \<le> 90 then char_of (n + 32) else c)"

definition to_ascii_lowercase :: "string \<Rightarrow> string" where
  "to_ascii_lowercase s = map ascii_lower s"

function split_at_delim :: "string \<Rightarrow> string \<Rightarrow> string list" where
  "split_at_delim d [] = [[]]"
| "split_at_delim d (c # s) = (if d = [] then [c # s]
     else case strip_prefix d (c # s) of
       Some rest \<Rightarrow> [] # split_at_delim d rest
     | None \<Rightarrow> (case split_at_delim d s of [] \<Rightarrow> [[c]] | p # ps \<Rightarrow> (c # p) # ps))"
  by pat_completeness auto

termination
  by (relation "measure (\<lambda>(d, s). length s)") (auto simp: strip_prefix_Some Cons_eq_append_conv)

definition str_split :: "string \<Rightarrow> string \<Rightarrow> string list" where
  "str_split d s = (if d = [] then [] # map (\<lambda>c. [c]) s @ [[]] else split_at_delim d s)"

text \<open>\<open>i64::from_str\<close> on any text: each character is checked to be a digit before the range is.\<close>

fun digits_i64 :: "bool \<Rightarrow> int \<Rightarrow> string \<Rightarrow> string + i64" where
  "digits_i64 neg acc [] = Ok (word_of_int acc)"
| "digits_i64 neg acc (c # cs) = (case digit_value c of
     None \<Rightarrow> Err ''invalid digit found in string''
   | Some d \<Rightarrow> (let n = 10 * acc + (if neg then - int d else int d) in
       if n < - (2 ^ 63) then Err ''number too small to fit in target type''
       else if 2 ^ 63 \<le> n then Err ''number too large to fit in target type''
       else digits_i64 neg n cs))"

definition i64_from_str :: "string \<Rightarrow> string + i64" where
  "i64_from_str s = (case s of
     [] \<Rightarrow> Err ''cannot parse integer from empty string''
   | c # cs \<Rightarrow>
       if (c = CHR ''-'' \<or> c = CHR ''+'') \<and> cs = [] then Err ''invalid digit found in string''
       else if c = CHR ''-'' then digits_i64 True 0 cs
       else if c = CHR ''+'' then digits_i64 False 0 cs
       else digits_i64 False 0 s)"

section \<open>Errors and secrets\<close>

datatype 'f config_error =
    Figment_error 'f
  | Missing string
  | Invalid string string string
  | Invalid_utf8 string

datatype config_error_disp =
    Disp_figment string
  | Disp_missing string
  | Disp_invalid string string string
  | Disp_invalid_utf8 string

fun error_disp :: "('f \<Rightarrow> string) \<Rightarrow> 'f config_error \<Rightarrow> config_error_disp" where
  "error_disp show_f (Figment_error err) = Disp_figment (show_f err)"
| "error_disp show_f (Missing path) = Disp_missing path"
| "error_disp show_f (Invalid path value reason) = Disp_invalid path value reason"
| "error_disp show_f (Invalid_utf8 var) = Disp_invalid_utf8 var"

text \<open>\<open>Display\<close>; \<open>dbg\<close> is the \<open>Debug\<close> text of a string. The arms that cannot be reached give \<open>None\<close>.\<close>

definition config_error_fmt :: "('f \<Rightarrow> string) \<Rightarrow> (string \<Rightarrow> string) \<Rightarrow> 'f config_error \<Rightarrow> string option" where
  "config_error_fmt show_f dbg e = Option.bind (run_exhaustive
     (when_arm (when_arm (when_arm (when_arm matcher_new
        (\<lambda>c. case c of Disp_figment _ \<Rightarrow> True | _ \<Rightarrow> False)
        (\<lambda>c. case c of Disp_figment msg \<Rightarrow> Some msg | _ \<Rightarrow> None))
        (\<lambda>c. case c of Disp_missing _ \<Rightarrow> True | _ \<Rightarrow> False)
        (\<lambda>c. case c of Disp_missing path \<Rightarrow> Some (''missing configuration at path '' @ dbg path) | _ \<Rightarrow> None))
        (\<lambda>c. case c of Disp_invalid _ _ _ \<Rightarrow> True | _ \<Rightarrow> False)
        (\<lambda>c. case c of Disp_invalid path value reason \<Rightarrow>
            Some (''invalid configuration at path '' @ dbg path @ '' (value='' @ dbg value @ ''): '' @ reason) | _ \<Rightarrow> None))
        (\<lambda>c. case c of Disp_invalid_utf8 _ \<Rightarrow> True | _ \<Rightarrow> False)
        (\<lambda>c. case c of Disp_invalid_utf8 var \<Rightarrow> Some (''environment variable '' @ dbg var @ '' is not valid UTF-8'') | _ \<Rightarrow> None))
     (error_disp show_f e)) id"

datatype 't secret = Secret 't

primrec expose :: "'t secret \<Rightarrow> 't" where
  "expose (Secret t) = t"

definition secret_fmt :: "'t secret \<Rightarrow> string" where
  "secret_fmt s = ''<redacted>''"

section \<open>Log levels\<close>

datatype log_level = Trace | Debug | Info | Warn | Error | Fatal | No_level

fun severity :: "log_level \<Rightarrow> nat" where
  "severity Trace = 0"
| "severity Debug = 1"
| "severity Info = 2"
| "severity Warn = 3"
| "severity Error = 4"
| "severity Fatal = 5"
| "severity No_level = 255"

definition allows :: "log_level \<Rightarrow> log_level \<Rightarrow> bool" where
  "allows minimum message_level = (if minimum = No_level \<or> message_level = No_level then False
     else severity minimum \<le> severity message_level)"

fun level_str :: "log_level \<Rightarrow> string" where
  "level_str Trace = ''TRACE''"
| "level_str Debug = ''DEBUG''"
| "level_str Info = ''INFO''"
| "level_str Warn = ''WARN''"
| "level_str Error = ''ERROR''"
| "level_str Fatal = ''FATAL''"
| "level_str No_level = ''NONE''"

definition level_from_str :: "(string \<Rightarrow> string) \<Rightarrow> string \<Rightarrow> string + log_level" where
  "level_from_str dbg s = (let l = to_ascii_lowercase (str_trim s) in
     if l = ''trace'' then Ok Trace
     else if l = ''debug'' then Ok Debug
     else if l = ''info'' then Ok Info
     else if l = ''warn'' \<or> l = ''warning'' then Ok Warn
     else if l = ''error'' then Ok Error
     else if l = ''fatal'' then Ok Fatal
     else if l = ''none'' then Ok No_level
     else Err (''unknown log level: '' @ dbg l))"

section \<open>Providers\<close>

record 'f config_provider =
  load_raw :: "string list \<Rightarrow> (string option, 'f config_error) result"
  seq_delim :: string

record provider_options =
  path_delim :: string
  list_delim :: string

definition options_default :: provider_options where
  "options_default = \<lparr>path_delim = ''_'', list_delim = '',''\<rparr>"

definition join_path :: "string list \<Rightarrow> string \<Rightarrow> (string, 'f config_error) result" where
  "join_path path delim = (if path = [] then Err (Invalid [] [] ''empty configuration path'') else Ok (join delim path))"

text \<open>\<open>std::env::var\<close>.\<close>

datatype env_value = Var string | Not_present | Not_unicode

definition env_provider :: "(string \<Rightarrow> env_value) \<Rightarrow> provider_options \<Rightarrow> 'f config_provider" where
  "env_provider env_var options = \<lparr>
     load_raw = (\<lambda>path. result_bind (join_path path (path_delim options)) (\<lambda>key. case env_var key of
         Var s \<Rightarrow> Ok (Some s)
       | Not_present \<Rightarrow> Ok None
       | Not_unicode \<Rightarrow> Err (Invalid_utf8 key))),
     seq_delim = list_delim options\<rparr>"

definition provider_from_env :: "(string \<Rightarrow> env_value) \<Rightarrow> 'f config_provider" where
  "provider_from_env env_var = env_provider env_var options_default"

definition map_with_options :: "(string \<rightharpoonup> string) \<Rightarrow> provider_options \<Rightarrow> 'f config_provider" where
  "map_with_options m options = \<lparr>
     load_raw = (\<lambda>path. result_bind (join_path path (path_delim options)) (\<lambda>key. Ok (m key))),
     seq_delim = list_delim options\<rparr>"

definition provider_from_map :: "(string \<rightharpoonup> string) \<Rightarrow> 'f config_provider" where
  "provider_from_map m = map_with_options m options_default"

definition from_pairs_with_options :: "(string \<times> string) list \<Rightarrow> provider_options \<Rightarrow> 'f config_provider" where
  "from_pairs_with_options pairs options = map_with_options (foldl (\<lambda>m (k, v). m(k \<mapsto> v)) Map.empty pairs) options"

definition provider_from_pairs :: "(string \<times> string) list \<Rightarrow> 'f config_provider" where
  "provider_from_pairs pairs = from_pairs_with_options pairs options_default"

text \<open>Figment: which keys it has and the value of a key. \<open>'g\<close> is the type of its floats.\<close>

datatype 'g fig_num =
    U8 "8 word" | U16 "16 word" | U32 "32 word" | U64 "64 word" | U128 "128 word" | USize "64 word"
  | I8 "8 word" | I16 "16 word" | I32 "32 word" | I64_num "64 word" | I128 "128 word" | ISize "64 word"
  | F32 'g | F64_num 'g

datatype 'g fig_value = Fig_string string | Fig_char char | Fig_bool bool | Fig_num "'g fig_num" | Fig_other string

record ('f, 'g) figment =
  fig_contains :: "string \<Rightarrow> bool"
  fig_find_value :: "string \<Rightarrow> ('g fig_value, 'f) result"

definition show_signed :: "int \<Rightarrow> string" where
  "show_signed n = (if n < 0 then ''-'' @ show_nat (nat (- n)) else show_nat (nat n))"

fun num_to_string :: "('g \<Rightarrow> string) \<Rightarrow> 'g fig_num \<Rightarrow> string" where
  "num_to_string show_float (U8 v) = show_nat (unat v)"
| "num_to_string show_float (U16 v) = show_nat (unat v)"
| "num_to_string show_float (U32 v) = show_nat (unat v)"
| "num_to_string show_float (U64 v) = show_nat (unat v)"
| "num_to_string show_float (U128 v) = show_nat (unat v)"
| "num_to_string show_float (USize v) = show_nat (unat v)"
| "num_to_string show_float (I8 v) = show_signed (sint v)"
| "num_to_string show_float (I16 v) = show_signed (sint v)"
| "num_to_string show_float (I32 v) = show_signed (sint v)"
| "num_to_string show_float (I64_num v) = show_signed (sint v)"
| "num_to_string show_float (I128 v) = show_signed (sint v)"
| "num_to_string show_float (ISize v) = show_signed (sint v)"
| "num_to_string show_float (F32 v) = show_float v"
| "num_to_string show_float (F64_num v) = show_float v"

fun figment_value_as_raw_string :: "('g \<Rightarrow> string) \<Rightarrow> 'g fig_value \<Rightarrow> (string, 'f config_error) result" where
  "figment_value_as_raw_string show_float (Fig_string s) = Ok s"
| "figment_value_as_raw_string show_float (Fig_char c) = Ok [c]"
| "figment_value_as_raw_string show_float (Fig_bool b) = Ok (if b then ''true'' else ''false'')"
| "figment_value_as_raw_string show_float (Fig_num n) = Ok (num_to_string show_float n)"
| "figment_value_as_raw_string show_float (Fig_other dbg) = Err (Invalid [] dbg ''expected a scalar string, bool, or number'')"

definition figment_provider :: "('g \<Rightarrow> string) \<Rightarrow> ('f, 'g) figment \<Rightarrow> 'f config_provider" where
  "figment_provider show_float fig = \<lparr>
     load_raw = (\<lambda>path. result_bind (join_path path ''.'') (\<lambda>key_path.
       if \<not> fig_contains fig key_path then Ok None
       else result_bind (result_map_err Figment_error (fig_find_value fig key_path)) (\<lambda>v.
         result_map Some (figment_value_as_raw_string show_float v)))),
     seq_delim = '',''\<rparr>"

definition or_else_provider :: "'f config_provider \<Rightarrow> 'f config_provider \<Rightarrow> 'f config_provider" where
  "or_else_provider primary fallback = \<lparr>
     load_raw = (\<lambda>path. result_bind (load_raw primary path) (\<lambda>v. case v of
         None \<Rightarrow> load_raw fallback path
       | Some s \<Rightarrow> Ok (Some s))),
     seq_delim = seq_delim primary\<rparr>"

definition split_dotted :: "string \<Rightarrow> string list" where
  "split_dotted path = filter (\<lambda>s. s \<noteq> []) (split_on (CHR ''.'') path)"

text \<open>\<open>ScopedConfigProvider\<close>, which \<open>within\<close> builds from a dotted prefix.\<close>

definition scoped_provider :: "'f config_provider \<Rightarrow> string list \<Rightarrow> 'f config_provider" where
  "scoped_provider inner prefix = \<lparr>load_raw = (\<lambda>path. load_raw inner (prefix @ path)), seq_delim = seq_delim inner\<rparr>"

definition within :: "'f config_provider \<Rightarrow> string \<Rightarrow> 'f config_provider" where
  "within p prefix = scoped_provider p (split_dotted prefix)"

section \<open>Descriptors\<close>

type_synonym ('t, 'f) config = "'f config_provider \<Rightarrow> ('t, 'f config_error) result"

definition config_load :: "('t, 'f) config \<Rightarrow> 'f config_provider \<Rightarrow> ('t, 'f config_error) result" where
  "config_load c p = c p"

text \<open>\<open>into_a\<close> and \<open>into_e\<close> are the \<open>From\<close> instances of the result types.\<close>

definition config_run ::
  "('r \<Rightarrow> 'f config_provider option) \<Rightarrow> ('t \<Rightarrow> 'a) \<Rightarrow> ('f config_error \<Rightarrow> 'e) \<Rightarrow> ('t, 'f) config \<Rightarrow> ('a, 'e, 'r, 'w) effect" where
  "config_run need into_a into_e c = new_async (\<lambda>r w. case need r of
     None \<Rightarrow> None
   | Some service \<Rightarrow> Some (result_map into_a (result_map_err into_e (c service)), r, w))"

definition config_map :: "('t, 'f) config \<Rightarrow> ('t \<Rightarrow> 'u) \<Rightarrow> ('u, 'f) config" where
  "config_map c f = (\<lambda>p. result_bind (c p) (\<lambda>t. Ok (f t)))"

definition config_map_attempt :: "('t, 'f) config \<Rightarrow> ('t \<Rightarrow> ('u, 'f config_error) result) \<Rightarrow> ('u, 'f) config" where
  "config_map_attempt c f = (\<lambda>p. result_bind (c p) f)"

definition config_secret :: "('t, 'f) config \<Rightarrow> ('t secret, 'f) config" where
  "config_secret c = (\<lambda>p. result_bind (c p) (\<lambda>t. Ok (Secret t)))"

text \<open>\<open>PrefixProvider\<close>, the adapter that \<open>nested\<close> hands to the inner loader.\<close>

definition prefix_provider :: "'f config_provider \<Rightarrow> string list \<Rightarrow> 'f config_provider" where
  "prefix_provider inner prefix = \<lparr>load_raw = (\<lambda>path. load_raw inner (prefix @ path)), seq_delim = seq_delim inner\<rparr>"

definition config_nested :: "('t, 'f) config \<Rightarrow> string \<Rightarrow> ('t, 'f) config" where
  "config_nested c prefix = (let prefix_segs = filter (\<lambda>s. s \<noteq> []) (split_on (CHR ''.'') prefix) in
     (\<lambda>p. c (prefix_provider p prefix_segs)))"

definition config_with_default :: "('t, 'f) config \<Rightarrow> 't \<Rightarrow> ('t, 'f) config" where
  "config_with_default c dflt = (\<lambda>p. case c p of
     Inr v \<Rightarrow> Ok v
   | Inl e \<Rightarrow> (case e of Missing _ \<Rightarrow> Ok dflt | _ \<Rightarrow> Err e))"

definition config_validate :: "('t, 'f) config \<Rightarrow> string \<Rightarrow> ('t \<Rightarrow> bool) \<Rightarrow> ('t, 'f) config" where
  "config_validate c reason predicate = (\<lambda>p. result_bind (c p) (\<lambda>v.
     if predicate v then Ok v else Err (Invalid [] [] reason)))"

text \<open>The read of a required scalar that every typed constructor starts with: the text and the path it names in errors.\<close>

definition required :: "string list \<Rightarrow> (string \<times> string, 'f) config" where
  "required segs = (\<lambda>p. result_bind (load_raw p segs) (\<lambda>raw. case raw of
     None \<Rightarrow> Err (Missing (join ''.'' segs))
   | Some s \<Rightarrow> Ok (s, join ''.'' segs)))"

definition config_string :: "string \<Rightarrow> (string, 'f) config" where
  "config_string path = (\<lambda>p. result_bind (required (split_dotted path) p) (\<lambda>(s, _). Ok s))"

definition config_optional_string :: "string \<Rightarrow> (string option, 'f) config" where
  "config_optional_string path = (\<lambda>p. load_raw p (split_dotted path))"

text \<open>\<open>parse_f64\<close> is \<open>f64::from_str\<close> with the text of its error, \<open>parse_url\<close> that of \<open>Url\<close>.\<close>

definition config_number :: "(string \<Rightarrow> string + 'g) \<Rightarrow> string \<Rightarrow> ('g, 'f) config" where
  "config_number parse_f64 path = (\<lambda>p. result_bind (required (split_dotted path) p) (\<lambda>(s, path_str).
     result_map_err (Invalid path_str s) (parse_f64 s)))"

definition config_integer :: "string \<Rightarrow> (i64, 'f) config" where
  "config_integer path = (\<lambda>p. result_bind (required (split_dotted path) p) (\<lambda>(s, path_str).
     result_map_err (Invalid path_str s) (i64_from_str s)))"

definition parse_bool :: "string \<Rightarrow> bool option" where
  "parse_bool s = (let l = to_ascii_lowercase s in
     if l \<in> {''true'', ''1'', ''yes''} then Some True
     else if l \<in> {''false'', ''0'', ''no''} then Some False
     else None)"

definition config_boolean :: "string \<Rightarrow> (bool, 'f) config" where
  "config_boolean path = (\<lambda>p. result_bind (required (split_dotted path) p) (\<lambda>(s, path_str).
     case parse_bool s of
       Some b \<Rightarrow> Ok b
     | None \<Rightarrow> Err (Invalid path_str s ''expected boolean string'')))"

definition split_list :: "string \<Rightarrow> string \<Rightarrow> string list" where
  "split_list delim s = filter (\<lambda>x. x \<noteq> []) (map str_trim (str_split delim s))"

definition config_string_list :: "string \<Rightarrow> (string list, 'f) config" where
  "config_string_list path = (\<lambda>p. result_bind (required (split_dotted path) p) (\<lambda>(s, _).
     Ok (split_list (seq_delim p) s)))"

definition split_csv_list :: "string \<Rightarrow> string list" where
  "split_csv_list s = filter (\<lambda>x. x \<noteq> []) (map str_trim (split_on (CHR '','') s))"

definition config_repeat :: "string \<Rightarrow> (string list, 'f) config" where
  "config_repeat path = (\<lambda>p. result_bind (required (split_dotted path) p) (\<lambda>(s, _). Ok (split_csv_list s)))"

text \<open>\<open>decoder\<close> is \<open>duration::decode\<close>; its error has the input and a text.\<close>

definition config_duration :: "(string \<Rightarrow> (string \<times> string) + 'd) \<Rightarrow> string \<Rightarrow> ('d, 'f) config" where
  "config_duration decoder path = (\<lambda>p. result_bind (required (split_dotted path) p) (\<lambda>(s, path_str).
     result_map_err (\<lambda>(inp, txt). Invalid path_str inp txt) (decoder (str_trim s))))"

definition config_log_level :: "(string \<Rightarrow> string) \<Rightarrow> string \<Rightarrow> (log_level, 'f) config" where
  "config_log_level dbg path = (\<lambda>p. result_bind (required (split_dotted path) p) (\<lambda>(s, path_str).
     result_map_err (Invalid path_str s) (level_from_str dbg (str_trim s))))"

definition config_url :: "(string \<Rightarrow> string + 'u) \<Rightarrow> string \<Rightarrow> ('u, 'f) config" where
  "config_url parse_url path = (\<lambda>p. result_bind (required (split_dotted path) p) (\<lambda>(s, path_str).
     result_map_err (Invalid path_str s) (parse_url s)))"

definition config_all :: "('a, 'f) config \<Rightarrow> ('b, 'f) config \<Rightarrow> ('a \<times> 'b, 'f) config" where
  "config_all a b = (\<lambda>p. result_bind (a p) (\<lambda>av. result_bind (b p) (\<lambda>bv. Ok (av, bv))))"

definition config_all3 :: "('a, 'f) config \<Rightarrow> ('b, 'f) config \<Rightarrow> ('c, 'f) config \<Rightarrow> ('a \<times> 'b \<times> 'c, 'f) config" where
  "config_all3 a b c = (\<lambda>p. result_bind (a p) (\<lambda>av. result_bind (b p) (\<lambda>bv. result_bind (c p) (\<lambda>cv. Ok (av, bv, cv)))))"

definition config_zip_with :: "('a, 'f) config \<Rightarrow> ('b, 'f) config \<Rightarrow> ('a \<Rightarrow> 'b \<Rightarrow> 'c) \<Rightarrow> ('c, 'f) config" where
  "config_zip_with a b f = (\<lambda>p. result_bind (a p) (\<lambda>av. result_bind (b p) (\<lambda>bv. Ok (f av bv))))"

definition config_or_else :: "('t, 'f) config \<Rightarrow> ('t, 'f) config \<Rightarrow> ('t, 'f) config" where
  "config_or_else primary fallback = (\<lambda>p. case primary p of
     Inr v \<Rightarrow> Ok v
   | Inl e \<Rightarrow> (case e of Missing _ \<Rightarrow> fallback p | _ \<Rightarrow> Err e))"

primrec config_all_vec :: "('t, 'f) config list \<Rightarrow> ('t list, 'f) config" where
  "config_all_vec [] p = Ok []"
| "config_all_vec (c # cs) p = result_bind (c p) (\<lambda>t. result_map (Cons t) (config_all_vec cs p))"

definition config_nest :: "string \<Rightarrow> ('t, 'f) config \<Rightarrow> ('t, 'f) config" where
  "config_nest prefix inner = config_nested inner prefix"

section \<open>Reads through the environment\<close>

definition read_with_default :: "('a, 'f config_error, 'r, 'w) effect \<Rightarrow> 'a \<Rightarrow> ('a, 'f config_error, 'r, 'w) effect" where
  "read_with_default eff dflt = catch eff (\<lambda>e. case e of Missing _ \<Rightarrow> succeed dflt | other \<Rightarrow> fail other)"

definition nested_path :: "string \<Rightarrow> string list \<Rightarrow> string list" where
  "nested_path namespace leaf = namespace # leaf"

definition read_raw ::
  "('r \<Rightarrow> 'f config_provider option) \<Rightarrow> ('f config_error \<Rightarrow> 'e) \<Rightarrow> ('f config_provider \<Rightarrow> ('a, 'f config_error) result) \<Rightarrow> ('a, 'e, 'r, 'w) effect" where
  "read_raw need into_e body = new_async (\<lambda>r w. case need r of
     None \<Rightarrow> None
   | Some p \<Rightarrow> Some (result_map_err into_e (body p), r, w))"

definition read_string ::
  "('r \<Rightarrow> 'f config_provider option) \<Rightarrow> (string \<Rightarrow> 'a) \<Rightarrow> ('f config_error \<Rightarrow> 'e) \<Rightarrow> string list \<Rightarrow> ('a, 'e, 'r, 'w) effect" where
  "read_string need into_a into_e path = read_raw need into_e (\<lambda>p. case load_raw p path of
     Inl e \<Rightarrow> Err e
   | Inr None \<Rightarrow> Err (Missing (join ''.'' path))
   | Inr (Some s) \<Rightarrow> Ok (into_a s))"

definition read_string_opt ::
  "('r \<Rightarrow> 'f config_provider option) \<Rightarrow> (string option \<Rightarrow> 'a) \<Rightarrow> ('f config_error \<Rightarrow> 'e) \<Rightarrow> string list \<Rightarrow> ('a, 'e, 'r, 'w) effect" where
  "read_string_opt need into_a into_e path = read_raw need into_e (\<lambda>p. case load_raw p path of
     Inl e \<Rightarrow> Err e
   | Inr raw \<Rightarrow> Ok (into_a raw))"

definition read_number ::
  "(string \<Rightarrow> string + 'g) \<Rightarrow> ('r \<Rightarrow> 'f config_provider option) \<Rightarrow> ('g \<Rightarrow> 'a) \<Rightarrow> ('f config_error \<Rightarrow> 'e) \<Rightarrow> string list \<Rightarrow> ('a, 'e, 'r, 'w) effect" where
  "read_number parse_f64 need into_a into_e path = read_raw need into_e (\<lambda>p. case load_raw p path of
     Inl e \<Rightarrow> Err e
   | Inr None \<Rightarrow> Err (Missing (join ''.'' path))
   | Inr (Some s) \<Rightarrow> result_map into_a (result_map_err (Invalid (join ''.'' path) s) (parse_f64 s)))"

definition read_i64 ::
  "('r \<Rightarrow> 'f config_provider option) \<Rightarrow> (i64 \<Rightarrow> 'a) \<Rightarrow> ('f config_error \<Rightarrow> 'e) \<Rightarrow> string list \<Rightarrow> ('a, 'e, 'r, 'w) effect" where
  "read_i64 need into_a into_e path = read_raw need into_e (\<lambda>p. case load_raw p path of
     Inl e \<Rightarrow> Err e
   | Inr None \<Rightarrow> Err (Missing (join ''.'' path))
   | Inr (Some s) \<Rightarrow> result_map into_a (result_map_err (Invalid (join ''.'' path) s) (i64_from_str s)))"

definition read_bool ::
  "('r \<Rightarrow> 'f config_provider option) \<Rightarrow> (bool \<Rightarrow> 'a) \<Rightarrow> ('f config_error \<Rightarrow> 'e) \<Rightarrow> string list \<Rightarrow> ('a, 'e, 'r, 'w) effect" where
  "read_bool need into_a into_e path = read_raw need into_e (\<lambda>p. case load_raw p path of
     Inl e \<Rightarrow> Err e
   | Inr None \<Rightarrow> Err (Missing (join ''.'' path))
   | Inr (Some s) \<Rightarrow> (case parse_bool s of
       Some b \<Rightarrow> Ok (into_a b)
     | None \<Rightarrow> Err (Invalid (join ''.'' path) s ''expected boolean string'')))"

definition read_string_list ::
  "('r \<Rightarrow> 'f config_provider option) \<Rightarrow> (string list \<Rightarrow> 'a) \<Rightarrow> ('f config_error \<Rightarrow> 'e) \<Rightarrow> string list \<Rightarrow> ('a, 'e, 'r, 'w) effect" where
  "read_string_list need into_a into_e path = read_raw need into_e (\<lambda>p. case load_raw p path of
     Inl e \<Rightarrow> Err e
   | Inr None \<Rightarrow> Err (Missing (join ''.'' path))
   | Inr (Some s) \<Rightarrow> Ok (into_a (split_list (seq_delim p) s)))"

definition read_nested_string ::
  "('r \<Rightarrow> 'f config_provider option) \<Rightarrow> (string \<Rightarrow> 'a) \<Rightarrow> ('f config_error \<Rightarrow> 'e) \<Rightarrow> string \<Rightarrow> string list \<Rightarrow> ('a, 'e, 'r, 'w) effect" where
  "read_nested_string need into_a into_e namespace leaf = read_raw need into_e (\<lambda>p. let path = nested_path namespace leaf in
     case load_raw p path of
       Inl e \<Rightarrow> Err e
     | Inr None \<Rightarrow> Err (Missing (join ''.'' path))
     | Inr (Some s) \<Rightarrow> Ok (into_a s))"

definition read_nested_string_list ::
  "('r \<Rightarrow> 'f config_provider option) \<Rightarrow> (string list \<Rightarrow> 'a) \<Rightarrow> ('f config_error \<Rightarrow> 'e) \<Rightarrow> string \<Rightarrow> string list \<Rightarrow> ('a, 'e, 'r, 'w) effect" where
  "read_nested_string_list need into_a into_e namespace leaf = read_raw need into_e (\<lambda>p. let path = nested_path namespace leaf in
     case load_raw p path of
       Inl e \<Rightarrow> Err e
     | Inr None \<Rightarrow> Err (Missing (join ''.'' path))
     | Inr (Some s) \<Rightarrow> Ok (into_a (split_list (seq_delim p) s)))"

section \<open>Direct reads and the capability\<close>

definition get_string :: "'f config_provider \<Rightarrow> string \<Rightarrow> (string, 'f config_error) result" where
  "get_string p name = config_load (config_string name) p"

definition get_optional_string :: "'f config_provider \<Rightarrow> string \<Rightarrow> (string option, 'f config_error) result" where
  "get_optional_string p name = config_load (config_optional_string name) p"

definition get_number :: "(string \<Rightarrow> string + 'g) \<Rightarrow> 'f config_provider \<Rightarrow> string \<Rightarrow> ('g, 'f config_error) result" where
  "get_number parse_f64 p name = config_load (config_number parse_f64 name) p"

definition get_integer :: "'f config_provider \<Rightarrow> string \<Rightarrow> (i64, 'f config_error) result" where
  "get_integer p name = config_load (config_integer name) p"

definition get_boolean :: "'f config_provider \<Rightarrow> string \<Rightarrow> (bool, 'f config_error) result" where
  "get_boolean p name = config_load (config_boolean name) p"

definition nested_string :: "'f config_provider \<Rightarrow> string \<Rightarrow> string \<Rightarrow> (string, 'f config_error) result" where
  "nested_string p namespace name = config_load (config_nested (config_string name) namespace) p"

definition nested_optional_string :: "'f config_provider \<Rightarrow> string \<Rightarrow> string \<Rightarrow> (string option, 'f config_error) result" where
  "nested_optional_string p namespace name = config_load (config_nested (config_optional_string name) namespace) p"

definition nested_number :: "(string \<Rightarrow> string + 'g) \<Rightarrow> 'f config_provider \<Rightarrow> string \<Rightarrow> string \<Rightarrow> ('g, 'f config_error) result" where
  "nested_number parse_f64 p namespace name = config_load (config_nested (config_number parse_f64 name) namespace) p"

definition nested_integer :: "'f config_provider \<Rightarrow> string \<Rightarrow> string \<Rightarrow> (i64, 'f config_error) result" where
  "nested_integer p namespace name = config_load (config_nested (config_integer name) namespace) p"

definition nested_boolean :: "'f config_provider \<Rightarrow> string \<Rightarrow> string \<Rightarrow> (bool, 'f config_error) result" where
  "nested_boolean p namespace name = config_load (config_nested (config_boolean name) namespace) p"

definition get_string_list :: "'f config_provider \<Rightarrow> string \<Rightarrow> (string list, 'f config_error) result" where
  "get_string_list p name = config_load (config_string_list name) p"

definition nested_string_list :: "'f config_provider \<Rightarrow> string \<Rightarrow> string \<Rightarrow> (string list, 'f config_error) result" where
  "nested_string_list p namespace name = config_load (config_nested (config_string_list name) namespace) p"

definition result_with_default :: "('t, 'f config_error) result \<Rightarrow> 't \<Rightarrow> ('t, 'f config_error) result" where
  "result_with_default r dflt = (case r of
     Inr v \<Rightarrow> Ok v
   | Inl e \<Rightarrow> (case e of Missing _ \<Rightarrow> Ok dflt | _ \<Rightarrow> Err e))"

text \<open>\<open>key\<close> is the type \<open>ConfigProviderService\<close>.\<close>

definition config_env :: "'t \<Rightarrow> 'f config_provider \<Rightarrow> ('t, 'f config_provider) env" where
  "config_env key p = env_insert env_new key p"

definition need_config :: "'t \<Rightarrow> ('t, 'f config_provider) env \<Rightarrow> 'f config_provider option" where
  "need_config key env = (case try_get env key of Inr p \<Rightarrow> Some p | Inl _ \<Rightarrow> None)"

definition provide_config_provider :: "'t \<Rightarrow> 'f config_provider \<Rightarrow> ('t, 'f config_provider, 'w) provider_node" where
  "provide_config_provider key p = \<lparr>n_id = ''config-provider'', n_requires = [], n_optional = [],
     n_provides = cap_of key, n_cap_name = ''ConfigProvider'', n_effectful = False,
     n_build = (\<lambda>deps. Ok (env_insert deps key p)),
     n_build_effect = (\<lambda>deps. succeed (env_insert deps key p))\<rparr>"

definition provide_env_config_provider ::
  "'t \<Rightarrow> (string \<Rightarrow> env_value) \<Rightarrow> provider_options \<Rightarrow> ('t, 'f config_provider, 'w) provider_node" where
  "provide_env_config_provider key env_var options = provide_config_provider key (env_provider env_var options)"

definition provide_figment_config_provider ::
  "'t \<Rightarrow> ('g \<Rightarrow> string) \<Rightarrow> ('f, 'g) figment \<Rightarrow> ('t, 'f config_provider, 'w) provider_node" where
  "provide_figment_config_provider key show_float fig = provide_config_provider key (figment_provider show_float fig)"

section \<open>Text\<close>

lemma split_on_append_sep: "split_on c (x @ c # y) = split_on c x @ split_on c y"
proof (induction x)
  case (Cons a x)
  have "split_on c x \<noteq> []" by (cases x) (auto split: list.split)
  with Cons show ?case by (auto split: list.split)
qed simp

lemma split_dotted_append: "split_dotted (b @ ''.'' @ a) = split_dotted b @ split_dotted a"
  by (simp add: split_dotted_def split_on_append_sep)

definition plain_segments :: "string list \<Rightarrow> bool" where
  "plain_segments path \<longleftrightarrow> path \<noteq> [] \<and> (\<forall>s \<in> set path. s \<noteq> [] \<and> CHR ''.'' \<notin> set s)"

lemma split_dotted_join: "plain_segments path \<Longrightarrow> split_dotted (join ''.'' path) = path"
  by (simp add: plain_segments_def split_dotted_def split_join)

lemma split_at_char: "split_at_delim [c] s = split_on c s"
  by (induction s) (auto split: list.splits)

lemma digits_value_le: "digits_value a ds = Some N \<Longrightarrow> a \<le> N"
proof (induction ds arbitrary: a)
  case (Cons c ds)
  then obtain d where "digits_value (10 * a + d) ds = Some N" by (auto split: option.splits)
  from Cons.IH [OF this] show ?case by simp
qed simp

lemma digits_i64_value:
  assumes "digits_value a ds = Some N"
  shows "N < 2 ^ 63 \<Longrightarrow> digits_i64 False (int a) ds = Ok (word_of_int (int N))"
    and "N \<le> 2 ^ 63 \<Longrightarrow> digits_i64 True (- int a) ds = Ok (word_of_int (- int N))"
proof -
  have "(N < 2 ^ 63 \<longrightarrow> digits_i64 False (int a) ds = Ok (word_of_int (int N)))
      \<and> (N \<le> 2 ^ 63 \<longrightarrow> digits_i64 True (- int a) ds = Ok (word_of_int (- int N)))"
    using assms
  proof (induction ds arbitrary: a)
    case (Cons c ds)
    then obtain d where d: "digit_value c = Some d" "digits_value (10 * a + d) ds = Some N" by (auto split: option.splits)
    have le: "10 * a + d \<le> N" by (rule digits_value_le [OF d(2)])
    from Cons.IH [OF d(2)] le show ?case
      by (simp add: d(1) Let_def)
  qed simp
  then show "N < 2 ^ 63 \<Longrightarrow> digits_i64 False (int a) ds = Ok (word_of_int (int N))"
    "N \<le> 2 ^ 63 \<Longrightarrow> digits_i64 True (- int a) ds = Ok (word_of_int (- int N))" by blast+
qed

lemma i64_from_str_show: "i64_from_str (show_i64 n) = Ok n"
proof (cases "sint n < 0")
  case True
  let ?N = "nat (- sint n)"
  have "- (2 ^ 63) \<le> sint n" using sint_range_size [of n] by (simp add: word_size)
  then have "?N \<le> 2 ^ 63" by simp
  from digits_i64_value(2) [OF digits_value_show this] True
  show ?thesis by (cases "show_nat ?N") (auto simp: show_i64_def i64_from_str_def)
next
  case False
  let ?N = "nat (sint n)"
  have "sint n < 2 ^ 63" using sint_range_size [of n] by (simp add: word_size)
  then have "?N < 2 ^ 63" using False by simp
  from digits_i64_value(1) [OF digits_value_show this] False show_nat_hd [of ?N]
  show ?thesis by (cases "show_nat ?N") (auto simp: show_i64_def i64_from_str_def)
qed

section \<open>Descriptors and the keys they read\<close>

text \<open>
  The contract of a descriptor: it depends on the provider only through the values at the paths \<open>P\<close> and
  the delimiter of lists. So a descriptor can be tested with a provider that has only those keys.
\<close>

locale descriptor =
  fixes c :: "('t, 'f) config"
    and P :: "string list set"
  assumes depends: "(\<And>x. x \<in> P \<Longrightarrow> load_raw p x = load_raw q x) \<Longrightarrow> seq_delim p = seq_delim q \<Longrightarrow> c p = c q"
begin

lemma through:
  assumes "\<And>p q. c p = c q \<Longrightarrow> d p = d q"
  shows "descriptor d P"
  using assms depends by unfold_locales blast

lemma mapped:
  "descriptor (config_map c f) P" "descriptor (config_map_attempt c g) P" "descriptor (config_secret c) P"
  "descriptor (config_validate c reason pr) P" "descriptor (config_with_default c d) P"
  by (rule through; simp add: config_map_def config_map_attempt_def config_secret_def config_validate_def config_with_default_def)+

lemma nested: "descriptor (config_nested c prefix) ((@) (split_dotted prefix) ` P)"
proof
  fix p q :: "'f config_provider"
  assume "\<And>x. x \<in> (@) (split_dotted prefix) ` P \<Longrightarrow> load_raw p x = load_raw q x" "seq_delim p = seq_delim q"
  then show "config_nested c prefix p = config_nested c prefix q"
    unfolding config_nested_def Let_def split_dotted_def [symmetric]
    by (intro depends) (simp_all add: prefix_provider_def)
qed

end

lemma descriptor_pair:
  fixes a :: "('a, 'f) config" and b :: "('b, 'f) config" and d :: "('d, 'f) config"
  assumes "descriptor a P" "descriptor b Q" "\<And>p q. a p = a q \<Longrightarrow> b p = b q \<Longrightarrow> d p = d q"
  shows "descriptor d (P \<union> Q)"
proof
  fix p q :: "'f config_provider" assume eq: "\<And>x. x \<in> P \<union> Q \<Longrightarrow> load_raw p x = load_raw q x" "seq_delim p = seq_delim q"
  then have "a p = a q" "b p = b q"
    using descriptor.depends [OF assms(1), of p q] descriptor.depends [OF assms(2), of p q] by auto
  then show "d p = d q" by (rule assms(3))
qed

lemma descriptor_vec:
  assumes "list_all2 descriptor cs Ps"
  shows "descriptor (config_all_vec cs) (\<Union> (set Ps))"
  using assms
proof (induction rule: list_all2_induct)
  case Nil
  show ?case by unfold_locales simp
next
  case (Cons c cs P Ps)
  have "descriptor (config_all_vec (c # cs)) (P \<union> \<Union> (set Ps))" by (rule descriptor_pair [OF Cons.hyps(1) Cons.IH]) simp
  then show ?case by (simp del: config_all_vec.simps)
qed

interpretation scalar: descriptor "required segs" "{segs}" for segs
  by unfold_locales (simp add: required_def)

interpretation optional: descriptor "config_optional_string path" "{split_dotted path}" for path
  by unfold_locales (simp add: config_optional_string_def)

interpretation listed: descriptor "config_string_list path" "{split_dotted path}" for path
  by unfold_locales (simp add: config_string_list_def required_def)

lemma typed_descriptors:
  "descriptor (config_string path) {split_dotted path}" "descriptor (config_number pf path) {split_dotted path}"
  "descriptor (config_integer path) {split_dotted path}" "descriptor (config_boolean path) {split_dotted path}"
  "descriptor (config_repeat path) {split_dotted path}" "descriptor (config_duration dec path) {split_dotted path}"
  "descriptor (config_log_level dbg path) {split_dotted path}" "descriptor (config_url pu path) {split_dotted path}"
  by (rule scalar.through;
      simp add: config_string_def config_number_def config_integer_def config_boolean_def config_repeat_def config_duration_def
        config_log_level_def config_url_def)+

text \<open>
  What a descriptor reads. A typed descriptor depends on the provider only through the value at its
  own dotted path (and the list delimiter); transformations, defaults and validations read nothing
  more; \<open>nested\<close> moves every key below the prefix; combinations read the keys of their parts.
\<close>

theorem descriptors_read_their_keys:
  fixes a a' :: "('a, 'f) config" and b :: "('b, 'f) config"
  assumes a: "descriptor a P" and a': "descriptor a' P'" and b: "descriptor b Q" and cs: "list_all2 descriptor cs Ps"
  shows "descriptor (config_string path :: (string, 'f) config) {split_dotted path}
    \<and> descriptor (config_integer path :: (i64, 'f) config) {split_dotted path}
    \<and> descriptor (config_boolean path :: (bool, 'f) config) {split_dotted path}
    \<and> descriptor (config_string_list path :: (string list, 'f) config) {split_dotted path}
    \<and> descriptor (config_map a f) P \<and> descriptor (config_map_attempt a g) P \<and> descriptor (config_with_default a d) P
    \<and> descriptor (config_validate a reason pr) P \<and> descriptor (config_nested a prefix) ((@) (split_dotted prefix) ` P)
    \<and> descriptor (config_all a b) (P \<union> Q) \<and> descriptor (config_or_else a a') (P \<union> P')
    \<and> descriptor (config_all_vec cs) (\<Union> (set Ps))"
proof (intro conjI)
  show "descriptor (config_all a b) (P \<union> Q)" by (rule descriptor_pair [OF a b]) (simp add: config_all_def)
  show "descriptor (config_or_else a a') (P \<union> P')" by (rule descriptor_pair [OF a a']) (simp add: config_or_else_def split: sum.splits config_error.splits)
qed (rule typed_descriptors listed.descriptor_axioms descriptor.mapped [OF a] descriptor.nested [OF a] descriptor_vec [OF cs])+

lemma descriptors_read_their_keys_witness:
  "descriptor (config_nested (config_string ''host'' :: (string, unit) config) ''db'') ((@) (split_dotted ''db'') ` {[''host'']})"
proof -
  have "descriptor (config_string ''host'' :: (string, unit) config) {[''host'']}"
    using typed_descriptors(1) [of "''host''"] by (simp add: split_dotted_def)
  from descriptors_read_their_keys [OF this this this, of "[]" "[]"] show ?thesis by blast
qed

section \<open>Scopes and fallbacks\<close>

text \<open>
  C21. Scoping. Nesting a descriptor under a prefix is the same as scoping the provider it is loaded from;
  nested prefixes compose to one dotted prefix with the outer one first; a provider composed of two
  can be scoped before or after it is composed; and on a map the key is the whole path joined by the
  delimiter.
\<close>

theorem config_scoping:
  fixes c :: "('t, 'f) config" and p q :: "'f config_provider"
  shows "config_load (config_nested c prefix) p = config_load c (within p prefix)
   \<and> config_nested (config_nested c inner) outer = config_nested c (outer @ ''.'' @ inner)
   \<and> within (within p outer) inner = within p (outer @ ''.'' @ inner)
   \<and> within (or_else_provider p q) prefix = or_else_provider (within p prefix) (within q prefix)
   \<and> (split_dotted prefix @ split_dotted name \<noteq> [] \<longrightarrow>
       nested_string (map_with_options m opts) prefix name =
         (case m (join (path_delim opts) (split_dotted prefix @ split_dotted name)) of
            Some s \<Rightarrow> Ok s
          | None \<Rightarrow> Err (Missing (join ''.'' (split_dotted name)) :: 'f config_error)))"
proof (intro conjI impI)
  have pp: "prefix_provider p segs = scoped_provider p segs" for p :: "'f config_provider" and segs by (simp add: prefix_provider_def scoped_provider_def)
  show "config_load (config_nested c prefix) p = config_load c (within p prefix)"
    by (simp add: config_load_def config_nested_def within_def split_dotted_def pp)
  have ss: "scoped_provider (scoped_provider p x) y = scoped_provider p (x @ y)" for p :: "'f config_provider" and x y
    by (simp add: scoped_provider_def)
  show "config_nested (config_nested c inner) outer = config_nested c (outer @ ''.'' @ inner)"
    unfolding config_nested_def Let_def split_dotted_def [symmetric] split_dotted_append pp ss ..
  show "within (within p outer) inner = within p (outer @ ''.'' @ inner)" by (simp add: within_def ss split_dotted_append [simplified])
  show "within (or_else_provider p q) prefix = or_else_provider (within p prefix) (within q prefix)"
    by (simp add: within_def scoped_provider_def or_else_provider_def cong: option.case_cong)
  assume "split_dotted prefix @ split_dotted name \<noteq> []"
  then show "nested_string (map_with_options m opts) prefix name =
      (case m (join (path_delim opts) (split_dotted prefix @ split_dotted name)) of
         Some s \<Rightarrow> Ok s | None \<Rightarrow> Err (Missing (join ''.'' (split_dotted name)) :: 'f config_error))"
    unfolding nested_string_def config_load_def config_nested_def Let_def split_dotted_def [symmetric]
    by (auto simp: config_string_def required_def prefix_provider_def map_with_options_def join_path_def split: option.splits)
qed

text \<open>
  What the fallbacks rely on: a provider says that a key is missing with \<open>Ok(None)\<close> and never with the
  error. Every provider of the crate does so.
\<close>

locale config_source =
  fixes p :: "'f config_provider"
  assumes never_missing: "load_raw p path \<noteq> Err (Missing x)"
begin

lemma scoped: "config_source (scoped_provider p prefix)"
  by unfold_locales (simp add: scoped_provider_def never_missing)

lemma composed: "config_source q \<Longrightarrow> config_source (or_else_provider p q)"
proof unfold_locales
  fix path x assume "config_source q"
  then show "load_raw (or_else_provider p q) path \<noteq> Err (Missing x)"
    using never_missing [of path x] config_source.never_missing [of q path x]
    by (cases "load_raw p path") (auto simp: or_else_provider_def split: option.splits)
qed

lemma fallback:
  assumes "\<And>s x path. k s x \<noteq> Err (Missing path)"
  shows "config_or_else (\<lambda>_. result_bind (required segs p) (\<lambda>(s, path_str). k s path_str)) (\<lambda>_. result_bind (required segs q) (\<lambda>(s, path_str). k s path_str)) r
      = result_bind (required segs (or_else_provider p q)) (\<lambda>(s, path_str). k s path_str)"
proof (cases "load_raw p segs")
  case (Inr raw)
  then show ?thesis using assms
    by (cases raw) (auto simp: config_or_else_def required_def or_else_provider_def split: sum.splits config_error.splits)
qed (use never_missing [of segs] in \<open>auto simp: config_or_else_def required_def or_else_provider_def split: config_error.splits\<close>)

end

interpretation env_source: config_source "env_provider env_var options" for env_var options
  by unfold_locales (auto simp: env_provider_def join_path_def split: env_value.splits)

interpretation map_source: config_source "map_with_options m options" for m options
  by unfold_locales (auto simp: map_with_options_def join_path_def)

interpretation figment_source: config_source "figment_provider show_float fig" for show_float fig
proof unfold_locales
  fix path x
  show "load_raw (figment_provider show_float fig) path \<noteq> Err (Missing x)"
  proof (cases "fig_find_value fig (join ''.'' path)")
    case (Inr v)
    then show ?thesis by (cases v) (auto simp: figment_provider_def join_path_def)
  qed (auto simp: figment_provider_def join_path_def)
qed

lemma result_map_commutes: "result_map_err g (result_map f x) = result_map f (result_map_err g x)"
  by (cases x) simp_all

text \<open>
  C22. Fallbacks. A default is a fallback descriptor that always succeeds, fallbacks associate, and only a
  missing key starts one: any other error is final. For the scalar types a fallback between two
  providers gives what a fallback between two descriptors gives: a value the primary has but that
  does not parse is reported and not replaced.
\<close>

theorem config_fallbacks:
  fixes a b c :: "('t, 'f) config"
  assumes p: "config_source p"
  shows "config_with_default a d = config_or_else a (\<lambda>p. Ok d)
    \<and> config_or_else (config_or_else a b) c = config_or_else a (config_or_else b c)
    \<and> (a p = Err e \<longrightarrow> (\<forall>path. e \<noteq> Missing path) \<longrightarrow> config_or_else a b p = Err e \<and> config_with_default a d p = Err e)
    \<and> config_string path (or_else_provider p q) = config_or_else (\<lambda>_. config_string path p) (\<lambda>_. config_string path q) r
    \<and> config_integer path (or_else_provider p q) = config_or_else (\<lambda>_. config_integer path p) (\<lambda>_. config_integer path q) r
    \<and> config_boolean path (or_else_provider p q) = config_or_else (\<lambda>_. config_boolean path p) (\<lambda>_. config_boolean path q) r"
proof (intro conjI impI)
  note fb = config_source.fallback [OF p, symmetric]
  show "config_string path (or_else_provider p q) = config_or_else (\<lambda>_. config_string path p) (\<lambda>_. config_string path q) r"
    unfolding config_string_def by (rule fb) simp
  show "config_integer path (or_else_provider p q) = config_or_else (\<lambda>_. config_integer path p) (\<lambda>_. config_integer path q) r"
    unfolding config_integer_def by (rule fb) (auto simp: result_map_err_def split: sum.splits)
  show "config_boolean path (or_else_provider p q) = config_or_else (\<lambda>_. config_boolean path p) (\<lambda>_. config_boolean path q) r"
    unfolding config_boolean_def by (rule fb) (auto split: option.splits)
qed (auto simp: config_with_default_def config_or_else_def fun_eq_iff split: sum.splits config_error.splits)

lemma config_fallbacks_witness:
  "config_integer ''port'' (or_else_provider (provider_from_pairs [(''port'', ''x'')]) (provider_from_pairs [(''port'', ''80'')])) =
     (Err (Invalid ''port'' ''x'' ''invalid digit found in string'') :: (i64, unit config_error) result)"
proof -
  let ?p = "provider_from_pairs [(''port'', ''x'')] :: unit config_provider" and ?q = "provider_from_pairs [(''port'', ''80'')] :: unit config_provider"
  have "config_source ?p" unfolding provider_from_pairs_def from_pairs_with_options_def by (rule map_source.config_source_axioms)
  from config_fallbacks [OF this, of "\<lambda>_. Ok ()" "()" "\<lambda>_. Ok ()" "\<lambda>_. Ok ()" "Missing []" "''port''" ?q ?q]
  have "config_integer ''port'' (or_else_provider ?p ?q) = config_or_else (\<lambda>_. config_integer ''port'' ?p) (\<lambda>_. config_integer ''port'' ?q) ?q"
    by blast
  moreover have "config_integer ''port'' ?p = Err (Invalid ''port'' ''x'' ''invalid digit found in string'')"
    by (simp add: provider_from_pairs_def from_pairs_with_options_def config_integer_def required_def split_dotted_def
        map_with_options_def join_path_def options_default_def i64_from_str_def digit_value_def)
  ultimately show ?thesis by (simp add: config_or_else_def)
qed

text \<open>
  The two ways to read. For a path of plain segments the reads through the environment and the
  descriptor at the dotted path give the same effect: the same value, the same error with the same
  path, and a panic when the environment has no provider. Defaults agree as well.
\<close>

theorem read_apis_agree:
  assumes path: "plain_segments path"
  shows "read_string need fa fe path = (config_run need fa fe (config_string (join ''.'' path)) :: ('a, 'e, 'r, 'w) effect)
    \<and> read_string_opt need fo fe path = (config_run need fo fe (config_optional_string (join ''.'' path)) :: ('a, 'e, 'r, 'w) effect)
    \<and> read_number pf need fn fe path = (config_run need fn fe (config_number pf (join ''.'' path)) :: ('a, 'e, 'r, 'w) effect)
    \<and> read_i64 need fi fe path = (config_run need fi fe (config_integer (join ''.'' path)) :: ('a, 'e, 'r, 'w) effect)
    \<and> read_bool need fb fe path = (config_run need fb fe (config_boolean (join ''.'' path)) :: ('a, 'e, 'r, 'w) effect)
    \<and> read_string_list need fl fe path = (config_run need fl fe (config_string_list (join ''.'' path)) :: ('a, 'e, 'r, 'w) effect)
    \<and> read_nested_string need fa fe (hd path) (tl path) = (config_run need fa fe (config_string (join ''.'' path)) :: ('a, 'e, 'r, 'w) effect)
    \<and> read_with_default (config_run need (\<lambda>a. a) (\<lambda>e. e) c) d = (config_run need (\<lambda>a. a) (\<lambda>e. e) (config_with_default c d) :: ('t, 'f config_error, 'r, 'w) effect)"
proof -
  note j = split_dotted_join [OF path]
  have np: "nested_path (hd path) (tl path) = path" using path by (simp add: nested_path_def plain_segments_def)
  have rs: "read_string need fa fe path = (config_run need fa fe (config_string (join ''.'' path)) :: ('a, 'e, 'r, 'w) effect)"
    by (auto simp: fun_eq_iff read_string_def read_raw_def config_run_def new_async_def config_string_def j required_def split: option.splits sum.splits)
  have "read_nested_string need fa fe (hd path) (tl path) = (read_string need fa fe path :: ('a, 'e, 'r, 'w) effect)"
    by (simp add: read_nested_string_def read_string_def np Let_def)
  with rs show ?thesis
    by (intro conjI)
      (auto simp: fun_eq_iff read_string_opt_def read_number_def read_i64_def read_bool_def read_string_list_def read_raw_def config_run_def new_async_def
        config_optional_string_def config_number_def config_integer_def config_boolean_def config_string_list_def j required_def
        result_map_commutes read_with_default_def catch_def run_def config_with_default_def succeed_def fail_def new_sync_def
        split: option.splits sum.splits config_error.splits)
qed

lemma read_apis_agree_witness:
  "read_i64 (\<lambda>p. Some p) (\<lambda>n. n) (\<lambda>e. e) [''server'', ''port''] (provider_from_pairs [(''server_port'', ''8080'')] :: unit config_provider) ()
     = Some (Ok 8080, provider_from_pairs [(''server_port'', ''8080'')], ())"
proof -
  let ?p = "provider_from_pairs [(''server_port'', ''8080'')] :: unit config_provider"
  have "plain_segments [''server'', ''port'']" by (simp add: plain_segments_def)
  note agree = read_apis_agree [where need = "Some :: unit config_provider \<Rightarrow> _" and fi = "\<lambda>n. n" and fe = "\<lambda>e. e" and 'w = unit, OF this]
  have "read_i64 (\<lambda>p. Some p) (\<lambda>n. n) (\<lambda>e. e) [''server'', ''port''] ?p () = config_run (\<lambda>p. Some p) (\<lambda>n. n) (\<lambda>e. e) (config_integer ''server.port'') ?p ()"
    using conjunct1 [OF conjunct2 [OF conjunct2 [OF conjunct2 [OF agree]]]] by simp
  also have "\<dots> = Some (Ok 8080, ?p, ())"
    by (simp add: config_run_def new_async_def provider_from_pairs_def from_pairs_with_options_def config_integer_def required_def split_dotted_def
        map_with_options_def join_path_def options_default_def i64_from_str_def digit_value_def)
  finally show ?thesis .
qed

lemma config_scoping_witness:
  "nested_string (map_with_options [''db_host'' \<mapsto> ''h''] options_default) ''db'' ''host'' = (Ok ''h'' :: (string, unit config_error) result)"
  using config_scoping [where 'f = unit and c = "\<lambda>_. Ok ()" and prefix = "''db''" and p = "provider_from_pairs []" and q = "provider_from_pairs []"
      and name = "''host''" and m = "[''db_host'' \<mapsto> ''h'']" and opts = options_default]
  by (simp add: split_dotted_def options_default_def)

section \<open>Typed values\<close>

lemma lower_levels:
  "map (\<lambda>l. to_ascii_lowercase (str_trim (level_str l))) [Trace, Debug, Info, Warn, Error, Fatal, No_level] =
     [''trace'', ''debug'', ''info'', ''warn'', ''error'', ''fatal'', ''none'']"
  by code_simp

lemma level_round_trip: "level_from_str dbg (level_str l) = Ok l"
  using lower_levels by (cases l) (simp_all add: level_from_str_def)

lemma allows_threshold:
  "allows m l \<Longrightarrow> severity l \<le> severity l' \<Longrightarrow> l' \<noteq> No_level \<Longrightarrow> allows m l'" "\<not> allows No_level l" "\<not> allows l No_level"
  by (auto simp: allows_def split: if_splits)

lemma split_list_join:
  assumes "xs \<noteq> []" "\<forall>x \<in> set xs. x \<noteq> [] \<and> c \<notin> set x \<and> str_trim x = x"
  shows "split_list [c] (join [c] xs) = xs" "c = CHR '','' \<Longrightarrow> split_csv_list (join [c] xs) = xs"
proof -
  have "split_on c (join [c] xs) = xs" using assms by (intro split_join) auto
  moreover have "map str_trim xs = xs" using assms(2) by (simp add: map_idI)
  ultimately show "split_list [c] (join [c] xs) = xs" "c = CHR '','' \<Longrightarrow> split_csv_list (join [c] xs) = xs"
    using assms(2) by (auto simp: split_list_def str_split_def split_at_char split_csv_list_def filter_id_conv)
qed

text \<open>The provider has \<open>s\<close> at the dotted path.\<close>

definition has_text :: "'f config_provider \<Rightarrow> string \<Rightarrow> string \<Rightarrow> bool" where
  "has_text p path s \<longleftrightarrow> load_raw p (split_dotted path) = Ok (Some s)"



text \<open>
  The path of a missing key is the one the descriptor was made with: the prefix of \<open>nested\<close> is not in
  it, so two keys with the same name under different prefixes give the same error. A value that a
  validation refuses is reported without its path and without its text.
\<close>

theorem errors_lose_the_prefix:
  "nested_string (provider_from_pairs [] :: 'f config_provider) ''db'' ''host'' = Err (Missing ''host'')
   \<and> nested_string (provider_from_pairs [] :: 'f config_provider) ''cache'' ''host'' = Err (Missing ''host'')
   \<and> config_validate (config_string ''host'') ''bad host'' (\<lambda>s. s \<noteq> ''x'') (provider_from_pairs [(''host'', ''x'')]) = Err (Invalid [] [] ''bad host'')"
  by (simp add: nested_string_def config_load_def config_nested_def config_string_def required_def split_dotted_def prefix_provider_def config_validate_def
      provider_from_pairs_def from_pairs_with_options_def map_with_options_def join_path_def options_default_def)

text \<open>Different paths can name the same variable.\<close>

lemma joined_paths_collide:
  "load_raw (env_provider env_var options_default) [''a'', ''b_c''] = load_raw (env_provider env_var options_default) [''a_b'', ''c'']"
  by (simp add: env_provider_def join_path_def options_default_def)

text \<open>A provider registered as a capability is the one that descriptors read in the environment it builds.\<close>

theorem provided_configuration_is_read:
  assumes "n_build (provide_config_provider key p :: ('t, 'f config_provider, 'w) provider_node) deps = Ok env"
  shows "config_run (need_config key) (\<lambda>a. a) (\<lambda>e. e) c env w = Some (c p, env, w)"
  using assms
  by (cases "c p") (auto simp: provide_config_provider_def config_run_def new_async_def need_config_def try_get_def env_insert_def cap_of_def
      result_map_def result_map_err_def)

text \<open>A configuration error always has a text.\<close>

lemma config_error_fmt_total: "config_error_fmt show_f dbg e \<noteq> None"
  by (cases e) (simp_all add: config_error_fmt_def run_exhaustive_def when_arm_def matcher_new_def)

end
