(* ===== verification/Fiber_Refs.thy ===== *)
theory Fiber_Refs
  imports Runtime
begin

text \<open>
  \<open>crates/id_effect/src/concurrency/fiber_ref.rs\<close>: references whose value is local to a fiber.

  The thread-local \<open>CURRENT_FIBER\<close> and the counter \<open>NEXT_REF_KEY\<close> are fields of the shared state. The
  stores, \<open>Arc<Mutex<HashMap<(u64, u64), A>>>\<close>, live in one heap per value type; a \<open>place\<close> says where
  the state keeps the heap of a type, and the locale \<open>typed_heap\<close> is what is expected of a place. A
  store's mutex is held throughout each operation on it. The closures of a reference are functions
  without effects, so none of them panics, or uses the reference again, while the mutex is held.

  A fiber reference refines an abstract one, a total function from fibers to values (\<open>fr_view\<close>).
\<close>

section \<open>State\<close>

record fiber_world =
  current_fiber :: fiber_id
  next_ref_key :: u64

type_synonym 'a fiber_store = "u64 \<times> u64 \<rightharpoonup> 'a"

record 'a store_heap =
  store_at :: "nat \<Rightarrow> 'a fiber_store"
  next_store :: nat

record ('a, 'w) place =
  heap_of :: "'w \<Rightarrow> 'a store_heap"
  put_heap :: "'a store_heap \<Rightarrow> 'w \<Rightarrow> 'w"

record 'a fiber_ref =
  fr_key :: u64
  fr_initial :: "unit \<Rightarrow> 'a"
  fr_fork :: "'a \<Rightarrow> 'a"
  fr_join :: "'a \<Rightarrow> 'a \<Rightarrow> 'a"
  fr_store :: nat

definition store_of :: "('a, 'w) place \<Rightarrow> 'a fiber_ref \<Rightarrow> 'w \<Rightarrow> 'a fiber_store" where
  "store_of h fr w = store_at (heap_of h w) (fr_store fr)"

definition put_store :: "('a, 'w) place \<Rightarrow> 'a fiber_ref \<Rightarrow> 'a fiber_store \<Rightarrow> 'w \<Rightarrow> 'w" where
  "put_store h fr m w = put_heap h ((heap_of h w)\<lparr>store_at := (store_at (heap_of h w))(fr_store fr := m)\<rparr>) w"

section \<open>The current fiber\<close>

definition with_fiber_id ::
  "fiber_id \<Rightarrow> ('x fiber_world_scheme \<Rightarrow> 'r \<times> 'x fiber_world_scheme) \<Rightarrow> 'x fiber_world_scheme \<Rightarrow> 'r \<times> 'x fiber_world_scheme" where
  "with_fiber_id fiber f w = (let prev = current_fiber w in
     case f (w\<lparr>current_fiber := fiber\<rparr>) of (result, w') \<Rightarrow> (result, w'\<lparr>current_fiber := prev\<rparr>))"

definition current_fiber_id :: "'x fiber_world_scheme \<Rightarrow> fiber_id" where
  "current_fiber_id w = current_fiber w"

section \<open>Operations\<close>

definition fr_make_with ::
  "('a, 'x fiber_world_scheme) place \<Rightarrow> (unit \<Rightarrow> 'a) \<Rightarrow> ('a \<Rightarrow> 'a) \<Rightarrow> ('a \<Rightarrow> 'a \<Rightarrow> 'a)
    \<Rightarrow> ('a fiber_ref, unit, 'r, 'x fiber_world_scheme) effect" where
  "fr_make_with h initial fork_f join_f = new_sync (\<lambda>r w.
     let key = next_ref_key w;
         w1 = w\<lparr>next_ref_key := key + 1\<rparr>;
         hp = heap_of h w1;
         address = next_store hp
     in (Ok \<lparr>fr_key = key, fr_initial = initial, fr_fork = fork_f, fr_join = join_f, fr_store = address\<rparr>, r,
         put_heap h \<lparr>store_at = (store_at hp)(address := Map.empty), next_store = Suc address\<rparr> w1))"

definition fr_make ::
  "('a, 'x fiber_world_scheme) place \<Rightarrow> (unit \<Rightarrow> 'a) \<Rightarrow> ('a fiber_ref, unit, 'r, 'x fiber_world_scheme) effect" where
  "fr_make h initial = fr_make_with h initial (\<lambda>a. a) (\<lambda>p c. c)"

definition slot :: "'a fiber_ref \<Rightarrow> fiber_id \<Rightarrow> u64 \<times> u64" where
  "slot fr fiber = (fr_key fr, as_u64 fiber)"

definition on_fork ::
  "('a, 'x fiber_world_scheme) place \<Rightarrow> 'a fiber_ref \<Rightarrow> fiber_id \<Rightarrow> fiber_id \<Rightarrow> (unit, unit, 'r, 'x fiber_world_scheme) effect" where
  "on_fork h fr parent child = new_sync (\<lambda>r w.
     let m = store_of h fr w;
         pk = slot fr parent;
         parent_v = (case m pk of None \<Rightarrow> fr_initial fr () | Some v \<Rightarrow> v);
         m1 = (case m pk of None \<Rightarrow> m(pk \<mapsto> parent_v) | Some v \<Rightarrow> m);
         child_v = fr_fork fr parent_v
     in (Ok (), r, put_store h fr (m1(slot fr child \<mapsto> child_v)) w))"

definition on_join ::
  "('a, 'x fiber_world_scheme) place \<Rightarrow> 'a fiber_ref \<Rightarrow> fiber_id \<Rightarrow> fiber_id \<Rightarrow> (unit, unit, 'r, 'x fiber_world_scheme) effect" where
  "on_join h fr parent child = new_sync (\<lambda>r w.
     let m = store_of h fr w;
         pk = slot fr parent;
         ck = slot fr child;
         child_v = m ck;
         m1 = m(ck := None);
         parent_v = m1 pk
     in (Ok (), r, put_store h fr (case (parent_v, child_v) of
           (Some p, Some c) \<Rightarrow> m1(pk \<mapsto> fr_join fr p c)
         | (None, Some c) \<Rightarrow> m1(pk \<mapsto> c)
         | _ \<Rightarrow> m1) w))"

definition fr_get :: "('a, 'x fiber_world_scheme) place \<Rightarrow> 'a fiber_ref \<Rightarrow> ('a, unit, 'r, 'x fiber_world_scheme) effect" where
  "fr_get h fr = new_sync (\<lambda>r w.
     let k = slot fr (current_fiber_id w) in
     case store_of h fr w k of
       Some v \<Rightarrow> (Ok v, r, w)
     | None \<Rightarrow> (let v = fr_initial fr () in (Ok v, r, put_store h fr ((store_of h fr w)(k \<mapsto> v)) w)))"

definition fr_set :: "('a, 'x fiber_world_scheme) place \<Rightarrow> 'a fiber_ref \<Rightarrow> 'a \<Rightarrow> (unit, unit, 'r, 'x fiber_world_scheme) effect" where
  "fr_set h fr value = new_sync (\<lambda>r w.
     (Ok (), r, put_store h fr ((store_of h fr w)(slot fr (current_fiber_id w) \<mapsto> value)) w))"

definition fr_update :: "('a, 'x fiber_world_scheme) place \<Rightarrow> 'a fiber_ref \<Rightarrow> ('a \<Rightarrow> 'a) \<Rightarrow> (unit, unit, 'r, 'x fiber_world_scheme) effect" where
  "fr_update h fr f = new_sync (\<lambda>r w.
     let k = slot fr (current_fiber_id w);
         cur = (case store_of h fr w k of Some v \<Rightarrow> v | None \<Rightarrow> fr_initial fr ());
         next_v = f cur
     in (Ok (), r, put_store h fr ((store_of h fr w)(k \<mapsto> next_v)) w))"

definition fr_modify ::
  "('a, 'x fiber_world_scheme) place \<Rightarrow> 'a fiber_ref \<Rightarrow> ('a \<Rightarrow> 'b \<times> 'a) \<Rightarrow> ('b, unit, 'r, 'x fiber_world_scheme) effect" where
  "fr_modify h fr f = new_sync (\<lambda>r w.
     let k = slot fr (current_fiber_id w);
         cur = (case store_of h fr w k of Some v \<Rightarrow> v | None \<Rightarrow> fr_initial fr ())
     in case f cur of (result, next_v) \<Rightarrow> (Ok result, r, put_store h fr ((store_of h fr w)(k \<mapsto> next_v)) w))"

definition fr_reset :: "('a, 'x fiber_world_scheme) place \<Rightarrow> 'a fiber_ref \<Rightarrow> (unit, unit, 'r, 'x fiber_world_scheme) effect" where
  "fr_reset h fr = new_sync (\<lambda>r w.
     (Ok (), r, put_store h fr ((store_of h fr w)(slot fr (current_fiber_id w) := None)) w))"

definition fr_locally ::
  "('a, 'x fiber_world_scheme) place \<Rightarrow> 'a fiber_ref \<Rightarrow> 'a \<Rightarrow> ('b, 'e, 'r, 'x fiber_world_scheme) effect
    \<Rightarrow> ('b, 'e, 'r, 'x fiber_world_scheme) effect" where
  "fr_locally h fr value inner = new_async (\<lambda>r w.
     let k = slot fr (current_fiber_id w);
         previous = store_of h fr w k;
         w1 = put_store h fr ((store_of h fr w)(k := None)) w;
         w2 = put_store h fr ((store_of h fr w1)(k \<mapsto> value)) w1
     in case run inner r w2 of
          None \<Rightarrow> None
        | Some (result, r', w3) \<Rightarrow>
            let m = (store_of h fr w3)(k := None)
            in Some (result, r', put_store h fr (case previous of Some v \<Rightarrow> m(k \<mapsto> v) | None \<Rightarrow> m) w3))"

definition fr_locally_with ::
  "('a, 'x fiber_world_scheme) place \<Rightarrow> 'a fiber_ref \<Rightarrow> (unit \<Rightarrow> 'a) \<Rightarrow> ('b, 'e, 'r, 'x fiber_world_scheme) effect
    \<Rightarrow> ('b, 'e, 'r, 'x fiber_world_scheme) effect" where
  "fr_locally_with h fr f inner = new_async (\<lambda>r w.
     let value = f ();
         k = slot fr (current_fiber_id w);
         previous = store_of h fr w k;
         w1 = put_store h fr ((store_of h fr w)(k := None)) w;
         w2 = put_store h fr ((store_of h fr w1)(k \<mapsto> value)) w1
     in case run inner r w2 of
          None \<Rightarrow> None
        | Some (result, r', w3) \<Rightarrow>
            let m = (store_of h fr w3)(k := None)
            in Some (result, r', put_store h fr (case previous of Some v \<Rightarrow> m(k \<mapsto> v) | None \<Rightarrow> m) w3))"

section \<open>Views\<close>

text \<open>What a fiber reads: its slot, or the initial value while it has none.\<close>

definition fr_view :: "('a, 'w) place \<Rightarrow> 'a fiber_ref \<Rightarrow> 'w \<Rightarrow> fiber_id \<Rightarrow> 'a" where
  "fr_view h fr w fiber = (case store_of h fr w (slot fr fiber) of Some v \<Rightarrow> v | None \<Rightarrow> fr_initial fr ())"

lemma slot_eq [simp]: "slot fr f = slot fr g \<longleftrightarrow> f = g"
  by (cases f; cases g) (simp add: slot_def)

text \<open>\<open>locally_with\<close> is \<open>locally\<close> of the computed value.\<close>

lemma fr_locally_with_eq: "fr_locally_with h fr f inner = fr_locally h fr (f ()) inner"
  by (simp add: fr_locally_with_def fr_locally_def Let_def)

locale typed_heap =
  fixes h :: "('a, 'x fiber_world_scheme) place"
  assumes heap_put [simp]: "heap_of h (put_heap h hp w) = hp"
    and put_put [simp]: "put_heap h hp' (put_heap h hp w) = put_heap h hp' w"
    and put_heap_same [simp]: "put_heap h (heap_of h w) w = w"
    and current_put [simp]: "current_fiber (put_heap h hp w) = current_fiber w"
    and next_key_put [simp]: "next_ref_key (put_heap h hp w) = next_ref_key w"
    and heap_of_current [simp]: "heap_of h (w\<lparr>current_fiber := f\<rparr>) = heap_of h w"
    and heap_of_next_key [simp]: "heap_of h (w\<lparr>next_ref_key := n\<rparr>) = heap_of h w"
    and put_heap_current: "put_heap h hp (w\<lparr>current_fiber := f\<rparr>) = (put_heap h hp w)\<lparr>current_fiber := f\<rparr>"
begin

lemma store_put [simp]: "store_of h fr (put_store h fr m w) = m"
  by (simp add: store_of_def put_store_def)

lemma store_put_other [simp]: "fr_store fr' \<noteq> fr_store fr \<Longrightarrow> store_of h fr' (put_store h fr m w) = store_of h fr' w"
  by (simp add: store_of_def put_store_def)

lemma put_store_put [simp]: "put_store h fr m' (put_store h fr m w) = put_store h fr m' w"
  by (simp add: put_store_def)

lemma put_store_same [simp]: "put_store h fr (store_of h fr w) w = w"
  by (simp add: put_store_def store_of_def)

lemma current_put_store [simp]: "current_fiber (put_store h fr m w) = current_fiber w"
  by (simp add: put_store_def)

lemma view_put: "fr_view h fr (put_store h fr m w) f = (case m (slot fr f) of Some v \<Rightarrow> v | None \<Rightarrow> fr_initial fr ())"
  by (simp add: fr_view_def)

lemma on_fork_owned:
  assumes "run (on_fork h fr p c) r w = Some (Ok (), r, w')"
  shows "store_of h fr w' (slot fr p) \<noteq> None \<and> store_of h fr w' (slot fr c) \<noteq> None"
  using assms by (auto simp: run_def on_fork_def new_sync_def Let_def split: option.splits)

lemma fr_locally_eq:
  "run (fr_locally h fr v inner) r w =
    (case run inner r (put_store h fr ((store_of h fr w)(slot fr (current_fiber w) \<mapsto> v)) w) of
       None \<Rightarrow> None
     | Some (result, r', w3) \<Rightarrow> Some (result, r', put_store h fr
         ((store_of h fr w3)(slot fr (current_fiber w) := store_of h fr w (slot fr (current_fiber w)))) w3))"
  by (cases "store_of h fr w (slot fr (current_fiber w))")
    (simp_all add: run_def fr_locally_def new_async_def current_fiber_id_def Let_def split: option.split)

lemma view_override:
  "fr_view h fr (put_store h fr ((store_of h fr w)(slot fr c \<mapsto> v)) w) = (fr_view h fr w)(c := v)"
  by (auto simp: fr_view_def)

lemma view_restore:
  "fr_view h fr (put_store h fr ((store_of h fr w3)(slot fr c := store_of h fr w (slot fr c))) w3) = (fr_view h fr w3)(c := fr_view h fr w c)"
  by (auto simp: fr_view_def)

lemma fr_locally_restores:
  assumes "run (fr_locally h fr v inner) r w = Some (result, r', w')"
  shows "\<exists>w2 w3. fr_view h fr w2 = (fr_view h fr w)(current_fiber w := v) \<and> run inner r w2 = Some (result, r', w3)
    \<and> store_of h fr w' = (store_of h fr w3)(slot fr (current_fiber w) := store_of h fr w (slot fr (current_fiber w)))"
  using assms view_override [of fr w "current_fiber w" v] by (auto simp: fr_locally_eq split: option.splits)

end

section \<open>Programs over one reference\<close>

text \<open>
  Programs that read and write a reference, switch fibers for a while (\<open>In_fiber\<close>), override the value for
  a while (\<open>Locally\<close>) and fork children. \<open>fr_exec\<close> runs one with the operations above and gives the
  values it reads; \<open>fr_spec\<close> is its meaning on a total function from fibers to values.
\<close>

datatype 'a fr_op =
    Read
  | Write 'a
  | Change "'a \<Rightarrow> 'a"
  | Exchange "'a \<Rightarrow> 'a \<times> 'a"
  | Reset
  | Fork fiber_id
  | In_fiber fiber_id "'a fr_op list"
  | Locally 'a "'a fr_op list"

definition under_fiber ::
  "fiber_id \<Rightarrow> ('b, 'e, 'r, 'x fiber_world_scheme) effect \<Rightarrow> ('b, 'e, 'r, 'x fiber_world_scheme) effect" where
  "under_fiber fiber body = new_async (\<lambda>r w.
     case with_fiber_id fiber (\<lambda>w. case run body r w of None \<Rightarrow> (None, w) | Some (res, r', w') \<Rightarrow> (Some (res, r'), w')) w of
       (None, _) \<Rightarrow> None
     | (Some (res, r'), w') \<Rightarrow> Some (res, r', w'))"

fun fr_exec ::
  "('a, 'x fiber_world_scheme) place \<Rightarrow> 'a fiber_ref \<Rightarrow> 'a fr_op list \<Rightarrow> ('a list, unit, 'r, 'x fiber_world_scheme) effect" where
  "fr_exec h fr [] = succeed []"
| "fr_exec h fr (Read # ops) = flat_map (fr_get h fr) (\<lambda>v. flat_map (fr_exec h fr ops) (\<lambda>vs. succeed (v # vs)))"
| "fr_exec h fr (Write v # ops) = flat_map (fr_set h fr v) (\<lambda>_. fr_exec h fr ops)"
| "fr_exec h fr (Change f # ops) = flat_map (fr_update h fr f) (\<lambda>_. fr_exec h fr ops)"
| "fr_exec h fr (Exchange g # ops) = flat_map (fr_modify h fr g) (\<lambda>b. flat_map (fr_exec h fr ops) (\<lambda>vs. succeed (b # vs)))"
| "fr_exec h fr (Reset # ops) = flat_map (fr_reset h fr) (\<lambda>_. fr_exec h fr ops)"
| "fr_exec h fr (Fork c # ops) =
     new_async (\<lambda>r w. run (flat_map (on_fork h fr (current_fiber_id w) c) (\<lambda>_. fr_exec h fr ops)) r w)"
| "fr_exec h fr (In_fiber c body # ops) =
     flat_map (under_fiber c (fr_exec h fr body)) (\<lambda>us. flat_map (fr_exec h fr ops) (\<lambda>vs. succeed (us @ vs)))"
| "fr_exec h fr (Locally v body # ops) =
     flat_map (fr_locally h fr v (fr_exec h fr body)) (\<lambda>us. flat_map (fr_exec h fr ops) (\<lambda>vs. succeed (us @ vs)))"

fun fr_spec :: "'a \<Rightarrow> ('a \<Rightarrow> 'a) \<Rightarrow> 'a fr_op list \<Rightarrow> fiber_id \<Rightarrow> (fiber_id \<Rightarrow> 'a) \<Rightarrow> 'a list \<times> (fiber_id \<Rightarrow> 'a)" where
  "fr_spec d fk [] c m = ([], m)"
| "fr_spec d fk (Read # ops) c m = (case fr_spec d fk ops c m of (vs, m') \<Rightarrow> (m c # vs, m'))"
| "fr_spec d fk (Write v # ops) c m = fr_spec d fk ops c (m(c := v))"
| "fr_spec d fk (Change f # ops) c m = fr_spec d fk ops c (m(c := f (m c)))"
| "fr_spec d fk (Exchange g # ops) c m =
     (case fr_spec d fk ops c (m(c := snd (g (m c)))) of (vs, m') \<Rightarrow> (fst (g (m c)) # vs, m'))"
| "fr_spec d fk (Reset # ops) c m = fr_spec d fk ops c (m(c := d))"
| "fr_spec d fk (Fork k # ops) c m = fr_spec d fk ops c (m(k := fk (m c)))"
| "fr_spec d fk (In_fiber k body # ops) c m = (case fr_spec d fk body k m of (us, m1) \<Rightarrow>
     case fr_spec d fk ops c m1 of (vs, m2) \<Rightarrow> (us @ vs, m2))"
| "fr_spec d fk (Locally v body # ops) c m = (case fr_spec d fk body c (m(c := v)) of (us, m1) \<Rightarrow>
     case fr_spec d fk ops c (m1(c := m c)) of (vs, m2) \<Rightarrow> (us @ vs, m2))"

lemma fr_ops_induct:
  assumes "P []" "\<And>ops. P ops \<Longrightarrow> P (Read # ops)" "\<And>v ops. P ops \<Longrightarrow> P (Write v # ops)"
    "\<And>f ops. P ops \<Longrightarrow> P (Change f # ops)" "\<And>g ops. P ops \<Longrightarrow> P (Exchange g # ops)"
    "\<And>ops. P ops \<Longrightarrow> P (Reset # ops)" "\<And>c ops. P ops \<Longrightarrow> P (Fork c # ops)"
    "\<And>c body ops. P body \<Longrightarrow> P ops \<Longrightarrow> P (In_fiber c body # ops)"
    "\<And>v body ops. P body \<Longrightarrow> P ops \<Longrightarrow> P (Locally v body # ops)"
  shows "P ops"
proof (induction ops rule: measure_induct_rule [where f = "size_list size"])
  case (less ops)
  show ?case
  proof (cases ops)
    case (Cons op rest)
    with less show ?thesis by (cases op) (auto intro: assms)
  qed (simp add: assms(1))
qed

lemma run_under:
  "run (under_fiber c body) r w = (case run body r (w\<lparr>current_fiber := c\<rparr>) of None \<Rightarrow> None
     | Some (res, r', w') \<Rightarrow> Some (res, r', w'\<lparr>current_fiber := current_fiber w\<rparr>))"
  by (simp add: under_fiber_def with_fiber_id_def new_async_def run_def split: option.split)

text \<open>
  \<open>eff\<close> computes \<open>F\<close>: it completes, gives the value of \<open>F\<close> at the current fiber and the view, and leaves
  the view of \<open>F\<close> and the current fiber.
\<close>

definition computes ::
  "('a, 'x fiber_world_scheme) place \<Rightarrow> 'a fiber_ref \<Rightarrow> ('b, 'e, 'r, 'x fiber_world_scheme) effect
    \<Rightarrow> (fiber_id \<Rightarrow> (fiber_id \<Rightarrow> 'a) \<Rightarrow> 'b \<times> (fiber_id \<Rightarrow> 'a)) \<Rightarrow> bool" where
  "computes h fr eff F \<longleftrightarrow> (\<forall>r w. \<exists>w'. run eff r w = Some (Ok (fst (F (current_fiber w) (fr_view h fr w))), r, w')
     \<and> fr_view h fr w' = snd (F (current_fiber w) (fr_view h fr w)) \<and> current_fiber w' = current_fiber w)"

lemma computes_bind:
  assumes "computes h fr eff F" "\<And>v. computes h fr (k v) (G v)"
  shows "computes h fr (flat_map eff k) (\<lambda>c m. case F c m of (v, m1) \<Rightarrow> G v c m1)"
  unfolding computes_def
proof (intro allI)
  fix r w
  obtain w1 where 1: "run eff r w = Some (Ok (fst (F (current_fiber w) (fr_view h fr w))), r, w1)"
      "fr_view h fr w1 = snd (F (current_fiber w) (fr_view h fr w))" "current_fiber w1 = current_fiber w"
    using assms(1) unfolding computes_def by blast
  let ?k = "k (fst (F (current_fiber w) (fr_view h fr w)))" and ?G = "G (fst (F (current_fiber w) (fr_view h fr w)))"
  obtain w2 where "run ?k r w1 = Some (Ok (fst (?G (current_fiber w1) (fr_view h fr w1))), r, w2)"
      "fr_view h fr w2 = snd (?G (current_fiber w1) (fr_view h fr w1))" "current_fiber w2 = current_fiber w1"
    using assms(2) unfolding computes_def by blast
  with 1 show "\<exists>w'. run (flat_map eff k) r w =
      Some (Ok (fst (case F (current_fiber w) (fr_view h fr w) of (v, m1) \<Rightarrow> G v (current_fiber w) m1)), r, w')
      \<and> fr_view h fr w' = snd (case F (current_fiber w) (fr_view h fr w) of (v, m1) \<Rightarrow> G v (current_fiber w) m1)
      \<and> current_fiber w' = current_fiber w"
    by (simp add: run_flat_map split_beta)
qed

lemma computes_succeed: "computes h fr (succeed v) (\<lambda>c m. (v, m))"
  by (simp add: computes_def succeed_def new_sync_def run_def)

lemma computes_then:
  assumes "computes h fr eff F" "computes h fr eff' G"
  shows "computes h fr (flat_map eff (\<lambda>v. flat_map eff' (\<lambda>vs. succeed (f v vs))))
    (\<lambda>c m. case F c m of (v, m1) \<Rightarrow> case G c m1 of (vs, m2) \<Rightarrow> (f v vs, m2))"
  by (intro computes_bind computes_succeed assms)

lemma computes_seq:
  assumes "computes h fr eff (\<lambda>c m. ((), F c m))" "computes h fr eff' G"
  shows "computes h fr (flat_map eff (\<lambda>_. eff')) (\<lambda>c m. G c (F c m))"
  using computes_bind [OF assms(1), where k = "\<lambda>_. eff'" and G = "\<lambda>_. G"] assms(2) by simp

context typed_heap
begin

lemma store_of_current [simp]: "store_of h fr (w\<lparr>current_fiber := f\<rparr>) = store_of h fr w"
  by (simp add: store_of_def)

lemma view_current [simp]: "fr_view h fr (w\<lparr>current_fiber := f\<rparr>) = fr_view h fr w"
  by (simp add: fr_view_def fun_eq_iff)

lemma fr_ops_compute:
  "computes h fr (fr_get h fr) (\<lambda>c m. (m c, m))"
  "computes h fr (fr_set h fr v) (\<lambda>c m. ((), m(c := v)))"
  "computes h fr (fr_update h fr f) (\<lambda>c m. ((), m(c := f (m c))))"
  "computes h fr (fr_modify h fr g) (\<lambda>c m. (fst (g (m c)), m(c := snd (g (m c)))))"
  "computes h fr (fr_reset h fr) (\<lambda>c m. ((), m(c := fr_initial fr ())))"
  "computes h fr (on_fork h fr p k) (\<lambda>c m. ((), m(k := fr_fork fr (m p))))"
  by (auto simp: computes_def run_def fr_get_def fr_set_def fr_update_def fr_modify_def fr_reset_def on_fork_def new_sync_def
      current_fiber_id_def fr_view_def Let_def fun_eq_iff split_beta split: option.split)

lemma computes_fork:
  assumes "computes h fr eff G"
  shows "computes h fr (new_async (\<lambda>r w. run (flat_map (on_fork h fr (current_fiber_id w) k) (\<lambda>_. eff)) r w))
    (\<lambda>c m. G c (m(k := fr_fork fr (m c))))"
  unfolding computes_def
proof (intro allI)
  fix r w
  show "\<exists>w'. run (new_async (\<lambda>r w. run (flat_map (on_fork h fr (current_fiber_id w) k) (\<lambda>_. eff)) r w)) r w =
      Some (Ok (fst (G (current_fiber w) ((fr_view h fr w)(k := fr_fork fr (fr_view h fr w (current_fiber w)))))), r, w')
      \<and> fr_view h fr w' = snd (G (current_fiber w) ((fr_view h fr w)(k := fr_fork fr (fr_view h fr w (current_fiber w)))))
      \<and> current_fiber w' = current_fiber w"
    using computes_seq [OF fr_ops_compute(6) [of fr "current_fiber w" k] assms]
    unfolding computes_def by (simp add: run_def new_async_def current_fiber_id_def)
qed

lemma computes_under:
  assumes "computes h fr body F"
  shows "computes h fr (under_fiber k body) (\<lambda>c m. F k m)"
  unfolding computes_def
proof (intro allI)
  fix r w
  obtain w' where "run body r (w\<lparr>current_fiber := k\<rparr>) = Some (Ok (fst (F k (fr_view h fr w))), r, w')"
      "fr_view h fr w' = snd (F k (fr_view h fr w))"
    using assms [unfolded computes_def, rule_format, of r "w\<lparr>current_fiber := k\<rparr>"] by auto
  then show "\<exists>w'. run (under_fiber k body) r w = Some (Ok (fst (F k (fr_view h fr w))), r, w')
      \<and> fr_view h fr w' = snd (F k (fr_view h fr w)) \<and> current_fiber w' = current_fiber w"
    by (simp add: run_under)
qed

lemma computes_locally:
  assumes "computes h fr body F"
  shows "computes h fr (fr_locally h fr v body) (\<lambda>c m. case F c (m(c := v)) of (b, m1) \<Rightarrow> (b, m1(c := m c)))"
  unfolding computes_def
proof (intro allI)
  fix r w
  let ?w2 = "put_store h fr ((store_of h fr w)(slot fr (current_fiber w) \<mapsto> v)) w"
  obtain w3 where "run body r ?w2 = Some (Ok (fst (F (current_fiber ?w2) (fr_view h fr ?w2))), r, w3)"
      "fr_view h fr w3 = snd (F (current_fiber ?w2) (fr_view h fr ?w2))" "current_fiber w3 = current_fiber ?w2"
    using assms unfolding computes_def by blast
  then show "\<exists>w'. run (fr_locally h fr v body) r w =
      Some (Ok (fst (case F (current_fiber w) ((fr_view h fr w)(current_fiber w := v)) of (b, m1) \<Rightarrow> (b, m1(current_fiber w := fr_view h fr w (current_fiber w))))), r, w')
      \<and> fr_view h fr w' = snd (case F (current_fiber w) ((fr_view h fr w)(current_fiber w := v)) of (b, m1) \<Rightarrow> (b, m1(current_fiber w := fr_view h fr w (current_fiber w))))
      \<and> current_fiber w' = current_fiber w"
    by (simp add: split_beta view_override view_restore fr_locally_eq)
qed

text \<open>The meaning of each operation at the front of a program, as a function of the current fiber and the view.\<close>

lemma fr_spec_eqs:
  "fr_spec d fk [] = (\<lambda>c m. ([], m))"
  "fr_spec d fk (Read # ops) = (\<lambda>c m. case (m c, m) of (v, m1) \<Rightarrow> case fr_spec d fk ops c m1 of (vs, m2) \<Rightarrow> (v # vs, m2))"
  "fr_spec d fk (Write x # ops) = (\<lambda>c m. fr_spec d fk ops c (m(c := x)))"
  "fr_spec d fk (Change f # ops) = (\<lambda>c m. fr_spec d fk ops c (m(c := f (m c))))"
  "fr_spec d fk (Exchange g # ops) = (\<lambda>c m. case (fst (g (m c)), m(c := snd (g (m c)))) of (v, m1) \<Rightarrow>
      case fr_spec d fk ops c m1 of (vs, m2) \<Rightarrow> (v # vs, m2))"
  "fr_spec d fk (Reset # ops) = (\<lambda>c m. fr_spec d fk ops c (m(c := d)))"
  "fr_spec d fk (Fork k # ops) = (\<lambda>c m. fr_spec d fk ops c (m(k := fk (m c))))"
  "fr_spec d fk (In_fiber k body # ops) = (\<lambda>c m. case fr_spec d fk body k m of (us, m1) \<Rightarrow>
      case fr_spec d fk ops c m1 of (vs, m2) \<Rightarrow> (us @ vs, m2))"
  "fr_spec d fk (Locally x body # ops) = (\<lambda>c m. case (case fr_spec d fk body c (m(c := x)) of (b, m1) \<Rightarrow> (b, m1(c := m c))) of
      (us, m1) \<Rightarrow> case fr_spec d fk ops c m1 of (vs, m2) \<Rightarrow> (us @ vs, m2))"
  by (intro ext; simp add: split_beta)+

lemma fr_exec_computes: "computes h fr (fr_exec h fr ops) (fr_spec (fr_initial fr ()) (fr_fork fr) ops)"
proof (induction ops rule: fr_ops_induct)
  case 1 show ?case unfolding fr_exec.simps fr_spec_eqs by (rule computes_succeed)
next
  case 2 then show ?case unfolding fr_exec.simps fr_spec_eqs by (intro computes_then [OF fr_ops_compute(1)])
next
  case 3 then show ?case unfolding fr_exec.simps fr_spec_eqs by (intro computes_seq [OF fr_ops_compute(2)])
next
  case 4 then show ?case unfolding fr_exec.simps fr_spec_eqs by (intro computes_seq [OF fr_ops_compute(3)])
next
  case 5 then show ?case unfolding fr_exec.simps fr_spec_eqs by (intro computes_then [OF fr_ops_compute(4)])
next
  case 6 then show ?case unfolding fr_exec.simps fr_spec_eqs by (intro computes_seq [OF fr_ops_compute(5)])
next
  case 7 then show ?case unfolding fr_exec.simps fr_spec_eqs by (intro computes_fork)
next
  case 8 then show ?case unfolding fr_exec.simps fr_spec_eqs by (intro computes_then computes_under)
next
  case 9 then show ?case unfolding fr_exec.simps fr_spec_eqs by (intro computes_then computes_locally)
qed

lemma fr_get_put:
  "\<exists>m. run_blocking (fr_get h fr) r w = Some (Ok (fr_view h fr w (current_fiber w)), put_store h fr m w)
     \<and> fr_view h fr (put_store h fr m w) = fr_view h fr w"
proof (cases "store_of h fr w (slot fr (current_fiber w))")
  case None
  then show ?thesis
    by (intro exI [of _ "(store_of h fr w)(slot fr (current_fiber w) \<mapsto> fr_initial fr ())"])
      (auto simp: run_blocking_def run_def fr_get_def new_sync_def current_fiber_id_def fr_view_def Let_def)
next
  case (Some v)
  then show ?thesis
    by (intro exI [of _ "store_of h fr w"]) (simp add: run_blocking_def run_def fr_get_def new_sync_def current_fiber_id_def fr_view_def)
qed

lemma fr_make_with_run:
  "\<exists>fr w'. run (fr_make_with h initial fk jn) r w = Some (Ok fr, r, w') \<and> fr_view h fr w' = (\<lambda>_. initial ())
     \<and> fr_fork fr = fk \<and> fr_join fr = jn \<and> fr_initial fr = initial
     \<and> fr_store fr = next_store (heap_of h w) \<and> next_store (heap_of h w') = Suc (fr_store fr)
     \<and> (\<forall>fr'. fr_store fr' < fr_store fr \<longrightarrow> store_of h fr' w' = store_of h fr' w)"
  by (auto simp: run_def fr_make_with_def new_sync_def Let_def fr_view_def store_of_def)

end

section \<open>A state with one heap\<close>

record 'a heap_world = fiber_world +
  the_heap :: "'a store_heap"

definition the_place :: "('a, 'a heap_world) place" where
  "the_place = \<lparr>heap_of = the_heap, put_heap = (\<lambda>hp w. w\<lparr>the_heap := hp\<rparr>)\<rparr>"

interpretation one_heap: typed_heap the_place
  by unfold_locales (simp_all add: the_place_def)

definition empty_heap :: "'a store_heap" where
  "empty_heap = \<lparr>store_at = (\<lambda>_. Map.empty), next_store = 0\<rparr>"

definition start_world :: "'a heap_world" where
  "start_world = \<lparr>current_fiber = fiber_root, next_ref_key = 1, the_heap = empty_heap\<rparr>"

definition demo_ref :: "nat fiber_ref" where
  "demo_ref = \<lparr>fr_key = 1, fr_initial = (\<lambda>_. 0), fr_fork = Suc, fr_join = (\<lambda>p c. p + c), fr_store = 0\<rparr>"

section \<open>Properties\<close>

text \<open>
  C23. A fiber reference behaves as a total function from fibers to values. Every program of reads,
  writes, updates, resets, forks, switches of the current fiber and local overrides completes; it
  reads what the abstract program reads; and it leaves every fiber, and the current fiber, as the
  abstract program does. So a fiber sees only its own writes, and an override ends with its body.
\<close>

theorem fiber_refs_refine_views:
  fixes h :: "('a, 'x fiber_world_scheme) place"
  assumes "typed_heap h"
  shows "\<exists>w'. run (fr_exec h fr ops) r w
        = Some (Ok (fst (fr_spec (fr_initial fr ()) (fr_fork fr) ops (current_fiber w) (fr_view h fr w))), r, w')
     \<and> fr_view h fr w' = snd (fr_spec (fr_initial fr ()) (fr_fork fr) ops (current_fiber w) (fr_view h fr w))
     \<and> current_fiber w' = current_fiber w"
  by (rule typed_heap.fr_exec_computes [OF assms, unfolded computes_def, rule_format])

theorem fiber_refs_refine_views_witness:
  "\<exists>w'. run (fr_exec the_place demo_ref [Write 5, Fork (FiberId 1), In_fiber (FiberId 1) [Read, Write 9], Locally 7 [Read, Reset, Read], Read]) () start_world
        = Some (Ok [6, 7, 0, 5], (), w')"
  using fiber_refs_refine_views [OF one_heap.typed_heap_axioms, of demo_ref
      "[Write 5, Fork (FiberId 1), In_fiber (FiberId 1) [Read, Write 9], Locally 7 [Read, Reset, Read], Read]" "()" start_world]
  by (auto simp: start_world_def demo_ref_def fiber_root_def)

text \<open>
  \<open>locally\<close> with any body, whatever it returns and whatever it does to the reference: the body starts
  with the override, and afterwards the slot of the fiber that entered is what it was, absent when it
  was absent, while the other slots keep what the body left in them.
\<close>

theorem locally_restores_the_slot:
  fixes h :: "('a, 'x fiber_world_scheme) place"
  assumes "typed_heap h" "run (fr_locally h fr v inner) r w = Some (result, r', w')"
  shows "\<exists>w2 w3. fr_view h fr w2 = (fr_view h fr w)(current_fiber w := v) \<and> run inner r w2 = Some (result, r', w3)
    \<and> store_of h fr w' = (store_of h fr w3)(slot fr (current_fiber w) := store_of h fr w (slot fr (current_fiber w)))"
  by (rule typed_heap.fr_locally_restores [OF assms])

text \<open>
  A child forked from a parent, run under its own fiber and joined: when the parent still has its
  slot, the parent's value is the join of what both hold, and the child's slot is gone.
\<close>

theorem fork_then_join_merges:
  fixes h :: "('a, 'x fiber_world_scheme) place"
  assumes "typed_heap h" "p \<noteq> c" "store_of h fr w (slot fr p) = Some a" "store_of h fr w (slot fr c) = Some b"
  shows "\<exists>w'. run (on_join h fr p c) r w = Some (Ok (), r, w')
    \<and> store_of h fr w' = (store_of h fr w)(slot fr c := None, slot fr p \<mapsto> fr_join fr a b)"
  using assms by (auto simp: run_def on_join_def new_sync_def Let_def typed_heap.store_put)

text \<open>
  A parent that was reset before the join has no slot: the child's value is taken as it is, and the
  reference's \<open>join\<close> is not applied to it and the initial value.
\<close>

theorem join_into_a_reset_parent:
  fixes h :: "('a, 'x fiber_world_scheme) place"
  assumes "typed_heap h" "p \<noteq> c" "store_of h fr w (slot fr p) = None" "store_of h fr w (slot fr c) = Some b"
  shows "\<exists>w'. run (on_join h fr p c) r w = Some (Ok (), r, w')
    \<and> fr_view h fr w p = fr_initial fr () \<and> fr_view h fr w' p = b"
  using assms by (auto simp: run_def on_join_def new_sync_def Let_def fr_view_def typed_heap.store_put)

end
