(* ===== verification/Loggers.thy ===== *)
theory Loggers
  imports Fiber_Refs Configs
begin

text \<open>
  \<open>crates/id_effect_logger/src\<close>: the records and backends (\<open>pipeline.rs\<close>), \<open>EffectLogger\<close> with its
  annotations and spans (\<open>lib.rs\<close>) and the providers that install them (\<open>providers.rs\<close>). Log levels are
  in \<open>Configs\<close>.

  A backend behind an \<open>Arc\<close> is a value of \<open>backend\<close>; what it writes to is at an address of the state:
  the writer of a JSON or structured backend, the list of a composite. The calls of \<open>tracing\<close> are kept
  as a list of events. The writer's \<open>write_all\<close>, \<open>serde_json\<close> and backends written elsewhere are the
  operations of \<open>sink_ops\<close>. A \<open>write!\<close> of several pieces is one call with the text they form. A composite
  can contain itself, and then emitting to it does not end: emitting is \<open>None\<close> in that case. The lock of
  a composite cannot be poisoned, that of a writer can, since the writer may panic.
\<close>

section \<open>Records and backends\<close>

datatype logger_error = Sink string

fun logger_error_fmt :: "logger_error \<Rightarrow> string" where
  "logger_error_fmt (Sink msg) = ''log sink error: '' @ msg"

record 'm log_record =
  lr_level :: log_level
  lr_message :: string
  lr_annotations :: 'm
  lr_spans :: "string list"

datatype 'b backend =
    Tracing_backend
  | Json_backend nat
  | Structured_backend nat
  | Composite_backend nat
  | Other_backend nat 'b

datatype tracing_level = T_trace | T_debug | T_info | T_warn | T_error

record json_line =
  jl_level :: string
  jl_message :: string
  jl_fields :: "string \<rightharpoonup> string"
  jl_spans :: "string list"

record ('o, 'b, 'm) sink_ops =
  so_write_all :: "string \<Rightarrow> 'o \<Rightarrow> (unit, string) result \<times> 'o"
  so_json :: "json_line \<Rightarrow> 'o \<Rightarrow> (unit, string) result \<times> 'o"
  so_emit :: "'b \<Rightarrow> 'm log_record \<Rightarrow> 'o \<Rightarrow> (unit, logger_error) result \<times> 'o"
  so_debug :: "string \<Rightarrow> string"

text \<open>Everything the backends can change: the tracing events, the writers, and the lists of the composites.\<close>

record ('o, 'b) sinks =
  traced :: "(tracing_level \<times> string) list"
  writer_at :: "nat \<Rightarrow> 'o"
  poisoned :: "nat \<Rightarrow> bool"
  composite_at :: "nat \<Rightarrow> 'b backend list"
  next_composite :: nat

definition format_tracing_line :: "(string, string, 'm) im_hash_map \<Rightarrow> 'm log_record \<Rightarrow> string" where
  "format_tracing_line im rec =
     (if lr_spans rec \<noteq> [] then ''['' @ join '' > '' (lr_spans rec) @ ''] '' else [])
     @ lr_message rec
     @ concat (map (\<lambda>(k, v). '' '' @ k @ ''='' @ v) (im_iter im (lr_annotations rec)))"

definition tracing_emit ::
  "(string, string, 'm) im_hash_map \<Rightarrow> 'm log_record \<Rightarrow> ('o, 'b, 'x) sinks_scheme \<Rightarrow> (unit, logger_error) result \<times> ('o, 'b, 'x) sinks_scheme" where
  "tracing_emit im rec s = (let line = format_tracing_line im rec in
     case lr_level rec of
       Trace \<Rightarrow> (Ok (), s\<lparr>traced := traced s @ [(T_trace, line)]\<rparr>)
     | Debug \<Rightarrow> (Ok (), s\<lparr>traced := traced s @ [(T_debug, line)]\<rparr>)
     | Info \<Rightarrow> (Ok (), s\<lparr>traced := traced s @ [(T_info, line)]\<rparr>)
     | Warn \<Rightarrow> (Ok (), s\<lparr>traced := traced s @ [(T_warn, line)]\<rparr>)
     | Error \<Rightarrow> (Ok (), s\<lparr>traced := traced s @ [(T_error, line)]\<rparr>)
     | Fatal \<Rightarrow> (Ok (), s\<lparr>traced := traced s @ [(T_error, line)]\<rparr>)
     | No_level \<Rightarrow> (Ok (), s))"

text \<open>A write to the writer at an address; its error becomes a sink error.\<close>

definition writing ::
  "nat \<Rightarrow> ('o \<Rightarrow> (unit, string) result \<times> 'o) \<Rightarrow> ('o, 'b, 'x) sinks_scheme \<Rightarrow> (unit, logger_error) result \<times> ('o, 'b, 'x) sinks_scheme" where
  "writing i f s = (case f (writer_at s i) of
     (res, o') \<Rightarrow> (result_map_err Sink res, s\<lparr>writer_at := (writer_at s)(i := o')\<rparr>))"

text \<open>The \<open>?\<close> between two writes.\<close>

definition on_ok :: "(unit, 'e) result \<times> 's \<Rightarrow> ('s \<Rightarrow> (unit, 'e) result \<times> 's) \<Rightarrow> (unit, 'e) result \<times> 's" where
  "on_ok p k = (case p of (Inl e, s1) \<Rightarrow> (Err e, s1) | (Inr _, s1) \<Rightarrow> k s1)"

definition lock_text :: string where "lock_text = ''poisoned lock: another task failed inside''"

definition json_line_of :: "(string, string, 'm) im_hash_map \<Rightarrow> 'm log_record \<Rightarrow> json_line" where
  "json_line_of im rec =
     (let fields = foldl (\<lambda>m (k, v). m(k \<mapsto> v)) Map.empty (im_iter im (lr_annotations rec)) in
      \<lparr>jl_level = level_str (lr_level rec), jl_message = lr_message rec,
       jl_fields = fields, jl_spans = lr_spans rec\<rparr>)"

definition json_emit ::
  "(string, string, 'm) im_hash_map \<Rightarrow> ('o, 'b, 'm) sink_ops \<Rightarrow> nat \<Rightarrow> 'm log_record \<Rightarrow> ('o, 'b, 'x) sinks_scheme
    \<Rightarrow> (unit, logger_error) result \<times> ('o, 'b, 'x) sinks_scheme" where
  "json_emit im so i rec s =
     (if lr_level rec = No_level then (Ok (), s)
      else let row = json_line_of im rec in
      if poisoned s i then (Err (Sink (''json backend mutex: '' @ lock_text)), s)
      else on_ok (writing i (so_json so row) s) (writing i (so_write_all so [CHR 0x0A])))"

text \<open>The loop over the annotations of the structured backend.\<close>

fun write_fields ::
  "('o, 'b, 'm) sink_ops \<Rightarrow> nat \<Rightarrow> (string \<times> string) list \<Rightarrow> ('o, 'b, 'x) sinks_scheme
    \<Rightarrow> (unit, logger_error) result \<times> ('o, 'b, 'x) sinks_scheme" where
  "write_fields so i [] s = (Ok (), s)"
| "write_fields so i ((k, v) # kvs) s =
     on_ok (writing i (so_write_all so ('' '' @ k @ ''='' @ so_debug so v)) s) (write_fields so i kvs)"

definition structured_emit ::
  "(string, string, 'm) im_hash_map \<Rightarrow> ('o, 'b, 'm) sink_ops \<Rightarrow> nat \<Rightarrow> 'm log_record \<Rightarrow> ('o, 'b, 'x) sinks_scheme
    \<Rightarrow> (unit, logger_error) result \<times> ('o, 'b, 'x) sinks_scheme" where
  "structured_emit im so i rec s =
     (if lr_level rec = No_level then (Ok (), s)
      else if poisoned s i then (Err (Sink (''structured backend mutex: '' @ lock_text)), s)
      else on_ok (on_ok (on_ok
          (writing i (so_write_all so (''level='' @ level_str (lr_level rec) @ '' message='' @ so_debug so (lr_message rec))) s)
          (\<lambda>s1. if lr_spans rec \<noteq> [] then writing i (so_write_all so ('' spans='' @ so_debug so (join ''>'' (lr_spans rec)))) s1
                 else (Ok (), s1)))
          (write_fields so i (im_iter im (lr_annotations rec))))
          (writing i (so_write_all so [CHR 0x0A])))"

text \<open>\<open>LogBackend::emit\<close> of a backend that is not a composite.\<close>

fun plain_emit ::
  "(string, string, 'm) im_hash_map \<Rightarrow> ('o, 'b, 'm) sink_ops \<Rightarrow> 'b backend \<Rightarrow> 'm log_record \<Rightarrow> ('o, 'b, 'x) sinks_scheme
    \<Rightarrow> (unit, logger_error) result \<times> ('o, 'b, 'x) sinks_scheme" where
  "plain_emit im so Tracing_backend rec s = tracing_emit im rec s"
| "plain_emit im so (Json_backend i) rec s = json_emit im so i rec s"
| "plain_emit im so (Structured_backend i) rec s = structured_emit im so i rec s"
| "plain_emit im so (Other_backend i b) rec s = (case so_emit so b rec (writer_at s i) of
     (res, o') \<Rightarrow> (res, s\<lparr>writer_at := (writer_at s)(i := o')\<rparr>))"
| "plain_emit im so (Composite_backend i) rec s = (Ok (), s)"

text \<open>
  The loop of \<open>emit_all\<close> over its copy of the list. An element that is a composite emits to its own list,
  as it is then.
\<close>

partial_function (option) emit_list ::
  "(string, string, 'm) im_hash_map \<Rightarrow> ('o, 'b, 'm) sink_ops \<Rightarrow> 'b backend list \<Rightarrow> 'm log_record \<Rightarrow> ('o, 'b, 'x) sinks_scheme
    \<Rightarrow> ((unit, logger_error) result \<times> ('o, 'b, 'x) sinks_scheme) option" where
  [code]: "emit_list im so bs rec s = (case bs of
     [] \<Rightarrow> Some (Ok (), s)
   | b # rest \<Rightarrow> Option.bind
       (case b of Composite_backend i \<Rightarrow> emit_list im so (composite_at s i) rec s | _ \<Rightarrow> Some (plain_emit im so b rec s))
       (\<lambda>(res, s1). case res of Inl e \<Rightarrow> Some (Err e, s1) | Inr _ \<Rightarrow> emit_list im so rest rec s1))"

definition emit_all ::
  "(string, string, 'm) im_hash_map \<Rightarrow> ('o, 'b, 'm) sink_ops \<Rightarrow> nat \<Rightarrow> 'm log_record \<Rightarrow> ('o, 'b, 'x) sinks_scheme
    \<Rightarrow> ((unit, logger_error) result \<times> ('o, 'b, 'x) sinks_scheme) option" where
  "emit_all im so i rec s = emit_list im so (composite_at s i) rec s"

section \<open>Composite backends\<close>

definition composite_new :: "('o, 'b, 'x) sinks_scheme \<Rightarrow> nat \<times> ('o, 'b, 'x) sinks_scheme" where
  "composite_new s = (let i = next_composite s in
     (i, s\<lparr>composite_at := (composite_at s)(i := []), next_composite := Suc i\<rparr>))"

definition logger_add ::
  "nat \<Rightarrow> 'b backend \<Rightarrow> ('o, 'b, 'x) sinks_scheme \<Rightarrow> (unit, logger_error) result \<times> ('o, 'b, 'x) sinks_scheme" where
  "logger_add i b s = (Ok (), s\<lparr>composite_at := (composite_at s)(i := composite_at s i @ [b])\<rparr>)"

definition logger_replace ::
  "nat \<Rightarrow> nat \<Rightarrow> 'b backend \<Rightarrow> ('o, 'b, 'x) sinks_scheme \<Rightarrow> (unit, logger_error) result \<times> ('o, 'b, 'x) sinks_scheme" where
  "logger_replace i idx b s = (let g = composite_at s i in
     if length g \<le> idx
     then (Err (Sink (''logger replace: index '' @ show_nat idx @ '' out of bounds (len '' @ show_nat (length g) @ '')'')), s)
     else (Ok (), s\<lparr>composite_at := (composite_at s)(i := g[idx := b])\<rparr>))"

definition logger_remove ::
  "nat \<Rightarrow> nat \<Rightarrow> ('o, 'b, 'x) sinks_scheme \<Rightarrow> (unit, logger_error) result \<times> ('o, 'b, 'x) sinks_scheme" where
  "logger_remove i idx s = (let g = composite_at s i in
     if length g \<le> idx
     then (Err (Sink (''logger remove: index '' @ show_nat idx @ '' out of bounds (len '' @ show_nat (length g) @ '')'')), s)
     else (Ok (), s\<lparr>composite_at := (composite_at s)(i := take idx g @ drop (Suc idx) g)\<rparr>))"

section \<open>The logger\<close>

text \<open>The four thread-local slots, the heaps of the references they hold and the sinks.\<close>

record ('o, 'b, 'm) log_world = fiber_world +
  level_heap :: "log_level store_heap"
  ann_heap :: "'m store_heap"
  span_heap :: "string list store_heap"
  min_level_ref :: "log_level fiber_ref option"
  ann_ref :: "'m fiber_ref option"
  span_ref :: "string list fiber_ref option"
  composite_ref :: "nat option"
  log_sinks :: "('o, 'b) sinks"

definition level_place :: "(log_level, ('o, 'b, 'm, 'x) log_world_scheme) place" where
  "level_place = \<lparr>heap_of = level_heap, put_heap = (\<lambda>hp w. w\<lparr>level_heap := hp\<rparr>)\<rparr>"

definition ann_place :: "('m, ('o, 'b, 'm, 'x) log_world_scheme) place" where
  "ann_place = \<lparr>heap_of = ann_heap, put_heap = (\<lambda>hp w. w\<lparr>ann_heap := hp\<rparr>)\<rparr>"

definition span_place :: "(string list, ('o, 'b, 'm, 'x) log_world_scheme) place" where
  "span_place = \<lparr>heap_of = span_heap, put_heap = (\<lambda>hp w. w\<lparr>span_heap := hp\<rparr>)\<rparr>"

definition install_min_log_level ::
  "log_level fiber_ref \<Rightarrow> ('o, 'b, 'm, 'x) log_world_scheme \<Rightarrow> ('o, 'b, 'm, 'x) log_world_scheme" where
  "install_min_log_level fr w = w\<lparr>min_level_ref := Some fr\<rparr>"

definition install_composite_log_backend ::
  "nat \<Rightarrow> ('o, 'b, 'm, 'x) log_world_scheme \<Rightarrow> ('o, 'b, 'm, 'x) log_world_scheme" where
  "install_composite_log_backend c w = w\<lparr>composite_ref := Some c\<rparr>"

definition install_log_annotations ::
  "'m fiber_ref \<Rightarrow> ('o, 'b, 'm, 'x) log_world_scheme \<Rightarrow> ('o, 'b, 'm, 'x) log_world_scheme" where
  "install_log_annotations fr w = w\<lparr>ann_ref := Some fr\<rparr>"

definition install_log_spans ::
  "string list fiber_ref \<Rightarrow> ('o, 'b, 'm, 'x) log_world_scheme \<Rightarrow> ('o, 'b, 'm, 'x) log_world_scheme" where
  "install_log_spans fr w = w\<lparr>span_ref := Some fr\<rparr>"

definition with_minimum_log_level ::
  "log_level fiber_ref \<Rightarrow> log_level \<Rightarrow> ('a, 'e, 'r, ('o, 'b, 'm, 'x) log_world_scheme) effect
    \<Rightarrow> ('a, 'e, 'r, ('o, 'b, 'm, 'x) log_world_scheme) effect" where
  "with_minimum_log_level fr level inner = fr_locally level_place fr level inner"

text \<open>The read of an optional reference with \<open>run_blocking\<close>, with a default when it is absent or fails.\<close>

definition read_tls ::
  "('a, 'x fiber_world_scheme) place \<Rightarrow> 'a fiber_ref option \<Rightarrow> 'a \<Rightarrow> 'x fiber_world_scheme \<Rightarrow> ('a \<times> 'x fiber_world_scheme) option" where
  "read_tls h tls dflt w = (case tls of
     None \<Rightarrow> Some (dflt, w)
   | Some fr \<Rightarrow> map_option (\<lambda>(res, w'). (case res of Inr v \<Rightarrow> v | Inl _ \<Rightarrow> dflt, w')) (run_blocking (fr_get h fr) () w))"

definition elog ::
  "(string, string, 'm) im_hash_map \<Rightarrow> ('o, 'b, 'm) sink_ops \<Rightarrow> log_level \<Rightarrow> string
    \<Rightarrow> (unit, logger_error, 'r, ('o, 'b, 'm, 'x) log_world_scheme) effect" where
  "elog im so level msg =
     (if level = No_level then new_sync (\<lambda>r w. (Ok (), r, w))
      else new_async (\<lambda>r w.
        Option.bind (case min_level_ref w of
            None \<Rightarrow> Some (True, w)
          | Some fr \<Rightarrow> map_option (\<lambda>(res, w'). (case res of Inr lo \<Rightarrow> allows lo level | Inl _ \<Rightarrow> True, w'))
                         (run_blocking (fr_get level_place fr) () w)) (\<lambda>(emit, w1).
        if \<not> emit then Some (Ok (), r, w1)
        else Option.bind (read_tls ann_place (ann_ref w1) (hash_empty im) w1) (\<lambda>(annotations, w2).
             Option.bind (read_tls span_place (span_ref w2) [] w2) (\<lambda>(spans, w3).
             let rec = \<lparr>lr_level = level, lr_message = msg, lr_annotations = annotations, lr_spans = spans\<rparr> in
             map_option (\<lambda>(res, s). (res, r, w3\<lparr>log_sinks := s\<rparr>))
               (case composite_ref w3 of
                  Some c \<Rightarrow> emit_all im so c rec (log_sinks w3)
                | None \<Rightarrow> Some (tracing_emit im rec (log_sinks w3))))))))"

definition log_string ::
  "(string, string, 'm) im_hash_map \<Rightarrow> ('o, 'b, 'm) sink_ops \<Rightarrow> log_level \<Rightarrow> string
    \<Rightarrow> (unit, logger_error, 'r, ('o, 'b, 'm, 'x) log_world_scheme) effect" where
  "log_string im so level msg = elog im so level msg"

definition log_trace ::
  "(string, string, 'm) im_hash_map \<Rightarrow> ('o, 'b, 'm) sink_ops \<Rightarrow> string \<Rightarrow> (unit, logger_error, 'r, ('o, 'b, 'm, 'x) log_world_scheme) effect" where
  "log_trace im so msg = elog im so Trace msg"

definition log_debug ::
  "(string, string, 'm) im_hash_map \<Rightarrow> ('o, 'b, 'm) sink_ops \<Rightarrow> string \<Rightarrow> (unit, logger_error, 'r, ('o, 'b, 'm, 'x) log_world_scheme) effect" where
  "log_debug im so msg = elog im so Debug msg"

definition log_info ::
  "(string, string, 'm) im_hash_map \<Rightarrow> ('o, 'b, 'm) sink_ops \<Rightarrow> string \<Rightarrow> (unit, logger_error, 'r, ('o, 'b, 'm, 'x) log_world_scheme) effect" where
  "log_info im so msg = elog im so Info msg"

definition log_warn ::
  "(string, string, 'm) im_hash_map \<Rightarrow> ('o, 'b, 'm) sink_ops \<Rightarrow> string \<Rightarrow> (unit, logger_error, 'r, ('o, 'b, 'm, 'x) log_world_scheme) effect" where
  "log_warn im so msg = elog im so Warn msg"

definition log_error ::
  "(string, string, 'm) im_hash_map \<Rightarrow> ('o, 'b, 'm) sink_ops \<Rightarrow> string \<Rightarrow> (unit, logger_error, 'r, ('o, 'b, 'm, 'x) log_world_scheme) effect" where
  "log_error im so msg = elog im so Error msg"

definition log_fatal ::
  "(string, string, 'm) im_hash_map \<Rightarrow> ('o, 'b, 'm) sink_ops \<Rightarrow> string \<Rightarrow> (unit, logger_error, 'r, ('o, 'b, 'm, 'x) log_world_scheme) effect" where
  "log_fatal im so msg = elog im so Fatal msg"

definition annotate_logs ::
  "(string, string, 'm) im_hash_map \<Rightarrow> string \<Rightarrow> string \<Rightarrow> ('a, 'e, 'r, ('o, 'b, 'm, 'x) log_world_scheme) effect
    \<Rightarrow> ('a, 'e, 'r, ('o, 'b, 'm, 'x) log_world_scheme) effect" where
  "annotate_logs im key v inner = new_async (\<lambda>r w. case ann_ref w of
     None \<Rightarrow> run inner r w
   | Some fr \<Rightarrow> Option.bind (run_blocking (fr_get ann_place fr) () w) (\<lambda>(res, w1). case res of
       Inl _ \<Rightarrow> run inner r w1
     | Inr cur \<Rightarrow> run (fr_locally ann_place fr (hash_set im cur key v) inner) r w1))"

definition with_log_span ::
  "string \<Rightarrow> ('a, 'e, 'r, ('o, 'b, 'm, 'x) log_world_scheme) effect \<Rightarrow> ('a, 'e, 'r, ('o, 'b, 'm, 'x) log_world_scheme) effect" where
  "with_log_span label inner = new_async (\<lambda>r w. case span_ref w of
     None \<Rightarrow> run inner r w
   | Some fr \<Rightarrow> Option.bind (read_tls span_place (Some fr) [] w) (\<lambda>(cur, w1).
       run (fr_locally span_place fr (cur @ [label]) inner) r w1))"

section \<open>Providers\<close>

text \<open>
  The \<open>build\<close> of the provider nodes: they install into the thread-local slots and insert the capability
  at its key. \<open>stored\<close> is the value stored in the environment. A panic of \<open>expect\<close> is \<open>None\<close>.
\<close>

definition composite_logger_build ::
  "'t \<Rightarrow> 'v \<Rightarrow> nat \<Rightarrow> ('t, 'v) env \<Rightarrow> ('o, 'b, 'm, 'x) log_world_scheme
    \<Rightarrow> (('t, 'v) env, provider_error) result \<times> ('o, 'b, 'm, 'x) log_world_scheme" where
  "composite_logger_build key marker c deps w =
     (let w1 = install_composite_log_backend c w in (Ok (env_insert deps key marker), w1))"

definition minimum_log_level_build ::
  "'t \<Rightarrow> (log_level fiber_ref \<Rightarrow> 'v) \<Rightarrow> log_level \<Rightarrow> ('t, 'v) env \<Rightarrow> ('o, 'b, 'm, 'x) log_world_scheme
    \<Rightarrow> ((('t, 'v) env, provider_error) result \<times> ('o, 'b, 'm, 'x) log_world_scheme) option" where
  "minimum_log_level_build key stored initial deps w =
     Option.bind (run_blocking (fr_make level_place (\<lambda>_. initial)) () w) (\<lambda>(res, w1). case res of
       Inl _ \<Rightarrow> Some (Err \<lparr>provider = ''effect-logger-min-level'', message = ''FiberRef::make: ()''\<rparr>, w1)
     | Inr fr \<Rightarrow> Some (Ok (env_insert deps key (stored fr)), install_min_log_level fr w1))"

definition log_metadata_new ::
  "(string, string, 'm) im_hash_map \<Rightarrow> ('o, 'b, 'm, 'x) log_world_scheme \<Rightarrow> ('o, 'b, 'm, 'x) log_world_scheme option" where
  "log_metadata_new im w =
     Option.bind (run_blocking (fr_make_with ann_place (\<lambda>_. hash_empty im) (\<lambda>m. m) (\<lambda>p c. p)) () w) (\<lambda>(res1, w1).
     case res1 of Inl _ \<Rightarrow> None | Inr ann \<Rightarrow>
     Option.bind (run_blocking (fr_make_with span_place (\<lambda>_. []) (\<lambda>v. v) (\<lambda>p c. p)) () w1) (\<lambda>(res2, w2).
     case res2 of Inl _ \<Rightarrow> None | Inr sp \<Rightarrow> Some (install_log_spans sp (install_log_annotations ann w2))))"

section \<open>Emitting to nested composites\<close>

text \<open>
  Specification: the backends of a list with the composites replaced by what they contain, and the
  delivery to a flat list, which ends at the first failure.
\<close>

fun plain_backend :: "'b backend \<Rightarrow> bool" where
  "plain_backend (Composite_backend i) = False"
| "plain_backend b = True"

inductive flattens :: "(nat \<Rightarrow> 'b backend list) \<Rightarrow> 'b backend list \<Rightarrow> 'b backend list \<Rightarrow> bool" for g where
  flattens_nil: "flattens g [] []"
| flattens_plain: "plain_backend b \<Longrightarrow> flattens g bs fs \<Longrightarrow> flattens g (b # bs) (b # fs)"
| flattens_composite: "flattens g (g i) fs \<Longrightarrow> flattens g bs gs \<Longrightarrow> flattens g (Composite_backend i # bs) (fs @ gs)"

fun emit_seq ::
  "(string, string, 'm) im_hash_map \<Rightarrow> ('o, 'b, 'm) sink_ops \<Rightarrow> 'b backend list \<Rightarrow> 'm log_record \<Rightarrow> ('o, 'b, 'x) sinks_scheme
    \<Rightarrow> (unit, logger_error) result \<times> ('o, 'b, 'x) sinks_scheme" where
  "emit_seq im so [] rec s = (Ok (), s)"
| "emit_seq im so (b # bs) rec s = on_ok (plain_emit im so b rec s) (emit_seq im so bs rec)"

definition acyclic_composites :: "(nat \<Rightarrow> 'b backend list) \<Rightarrow> bool" where
  "acyclic_composites g \<longleftrightarrow> (\<exists>rank :: nat \<Rightarrow> nat. \<forall>i j. Composite_backend j \<in> set (g i) \<longrightarrow> rank j < rank i)"

lemma writing_keeps: "composite_at (snd (writing i f s)) = composite_at s"
  by (simp add: writing_def split: prod.split)

lemma on_ok_keeps:
  assumes "composite_at (snd p) = g" "\<And>s1. composite_at s1 = g \<Longrightarrow> composite_at (snd (k s1)) = g"
  shows "composite_at (snd (on_ok p k)) = g"
  using assms by (auto simp: on_ok_def split: prod.split sum.split)

lemma write_fields_keeps: "composite_at (snd (write_fields so i kvs s)) = composite_at s"
  by (induction so i kvs s rule: write_fields.induct) (auto intro!: on_ok_keeps simp: writing_keeps)

lemma tracing_emit_ok: "fst (tracing_emit im rec s) = Ok ()" "composite_at (snd (tracing_emit im rec s)) = composite_at s"
  by (simp_all add: tracing_emit_def Let_def split: log_level.split)

lemma plain_emit_keeps: "composite_at (snd (plain_emit im so b rec s)) = composite_at s"
proof (cases b)
  case (Json_backend i)
  then show ?thesis by (simp add: json_emit_def on_ok_keeps writing_keeps Let_def)
next
  case (Structured_backend i)
  then show ?thesis by (simp add: structured_emit_def on_ok_keeps writing_keeps write_fields_keeps)
qed (simp_all add: tracing_emit_ok split: prod.split)

lemma emit_seq_keeps: "composite_at (snd (emit_seq im so fs rec s)) = composite_at s"
  by (induction im so fs rec s rule: emit_seq.induct) (auto intro!: on_ok_keeps simp: plain_emit_keeps)

lemma emit_seq_append: "emit_seq im so (fs @ gs) rec s = on_ok (emit_seq im so fs rec s) (emit_seq im so gs rec)"
proof (induction fs arbitrary: s)
  case Nil
  then show ?case by (simp add: on_ok_def)
next
  case (Cons b fs)
  then show ?case by (auto simp: on_ok_def split: prod.split sum.split)
qed

lemma emit_list_cons:
  "emit_list im so (b # bs) rec s = (case (if plain_backend b then Some (plain_emit im so b rec s)
       else emit_list im so (case b of Composite_backend i \<Rightarrow> composite_at s i | _ \<Rightarrow> []) rec s) of
     None \<Rightarrow> None | Some (Inl e, s1) \<Rightarrow> Some (Err e, s1) | Some (Inr _, s1) \<Rightarrow> emit_list im so bs rec s1)"
  by (cases b) (simp_all add: emit_list.simps [of im so "_ # _"] split: option.split sum.split prod.split bind_split)

lemma emit_list_flattens:
  assumes "flattens g bs fs" "composite_at s = g"
  shows "emit_list im so bs rec s = Some (emit_seq im so fs rec s)"
  using assms
proof (induction arbitrary: s rule: flattens.induct)
  case flattens_nil
  then show ?case by (simp add: emit_list.simps)
next
  case (flattens_plain b bs fs)
  then show ?case
    using plain_emit_keeps [of im so b rec s] by (auto simp: emit_list_cons on_ok_def split: prod.split sum.split)
next
  case (flattens_composite i fs bs gs)
  then show ?case
    using emit_seq_keeps [of im so fs rec s] by (auto simp: emit_list_cons emit_seq_append on_ok_def split: prod.split sum.split)
qed

lemma flattens_exists:
  assumes "\<And>i j. Composite_backend j \<in> set (g i) \<Longrightarrow> rank j < (rank i :: nat)"
  shows "(\<And>j. Composite_backend j \<in> set bs \<Longrightarrow> rank j < n) \<Longrightarrow> \<exists>fs. flattens g bs fs"
proof (induction n arbitrary: bs)
  case 0
  then have "\<forall>b \<in> set bs. plain_backend b" by (metis not_less_zero plain_backend.elims(3))
  then have "flattens g bs bs" by (induction bs) (auto intro: flattens.intros)
  then show ?case ..
next
  case (Suc n)
  from Suc.prems show ?case
  proof (induction bs)
    case (Cons b bs)
    then obtain fs where fs: "flattens g bs fs" by auto
    show ?case
    proof (cases "plain_backend b")
      case False
      then obtain i where b: "b = Composite_backend i" by (cases b) auto
      have "rank j < n" if "Composite_backend j \<in> set (g i)" for j
        using assms [OF that] Cons.prems [of i] b by simp
      then obtain gs where "flattens g (g i) gs" using Suc.IH by blast
      then show ?thesis using fs b by (auto intro: flattens.intros)
    qed (use fs in \<open>auto intro: flattens.intros\<close>)
  qed (auto intro: flattens.intros)
qed

lemma acyclic_flattens:
  assumes "acyclic_composites g"
  obtains fs where "flattens g bs fs"
proof -
  obtain rank :: "nat \<Rightarrow> nat" where r: "\<And>i j. Composite_backend j \<in> set (g i) \<Longrightarrow> rank j < rank i"
    using assms unfolding acyclic_composites_def by blast
  let ?n = "Suc (Max (insert 0 {rank j | j. Composite_backend j \<in> set bs}))"
  have fin: "finite {rank j | j. Composite_backend j \<in> set bs}"
  proof (rule finite_subset)
    show "{rank j | j. Composite_backend j \<in> set bs} \<subseteq> (\<lambda>b. case b of Composite_backend j \<Rightarrow> rank j | _ \<Rightarrow> 0) ` set bs"
      by force
  qed simp
  have "rank j < ?n" if "Composite_backend j \<in> set bs" for j
    using fin that by (intro le_imp_less_Suc Max_ge) auto
  then show ?thesis using flattens_exists [of g rank, OF r] that by blast
qed

section \<open>What a fiber logs\<close>

interpretation levels: typed_heap level_place
  by unfold_locales (simp_all add: level_place_def)

interpretation annotations: typed_heap ann_place
  by unfold_locales (simp_all add: ann_place_def)

interpretation spans: typed_heap span_place
  by unfold_locales (simp_all add: span_place_def)

text \<open>The level, annotations and spans that the current fiber logs with, and the backends it logs to.\<close>

definition min_view :: "('o, 'b, 'm, 'x) log_world_scheme \<Rightarrow> log_level" where
  "min_view w = (case min_level_ref w of None \<Rightarrow> Trace | Some fr \<Rightarrow> fr_view level_place fr w (current_fiber w))"

definition ann_view :: "(string, string, 'm) im_hash_map \<Rightarrow> ('o, 'b, 'm, 'x) log_world_scheme \<Rightarrow> 'm" where
  "ann_view im w = (case ann_ref w of None \<Rightarrow> hash_empty im | Some fr \<Rightarrow> fr_view ann_place fr w (current_fiber w))"

definition span_view :: "('o, 'b, 'm, 'x) log_world_scheme \<Rightarrow> string list" where
  "span_view w = (case span_ref w of None \<Rightarrow> [] | Some fr \<Rightarrow> fr_view span_place fr w (current_fiber w))"

definition targets :: "('o, 'b, 'm, 'x) log_world_scheme \<Rightarrow> 'b backend list" where
  "targets w = (case composite_ref w of None \<Rightarrow> [Tracing_backend] | Some c \<Rightarrow> composite_at (log_sinks w) c)"

type_synonym 'm log_context = "log_level \<times> 'm \<times> string list"

definition context_of :: "(string, string, 'm) im_hash_map \<Rightarrow> ('o, 'b, 'm, 'x) log_world_scheme \<Rightarrow> 'm log_context" where
  "context_of im w = (min_view w, ann_view im w, span_view w)"

text \<open>The delivery of a message in a context to a flat list of backends.\<close>

fun deliver ::
  "(string, string, 'm) im_hash_map \<Rightarrow> ('o, 'b, 'm) sink_ops \<Rightarrow> 'b backend list \<Rightarrow> log_level \<Rightarrow> string \<Rightarrow> 'm log_context
    \<Rightarrow> ('o, 'b) sinks \<Rightarrow> (unit, logger_error) result \<times> ('o, 'b) sinks" where
  "deliver im so fs level msg (lo, ann, sp) s =
     (if allows lo level
      then emit_seq im so fs \<lparr>lr_level = level, lr_message = msg, lr_annotations = ann, lr_spans = sp\<rparr> s
      else (Ok (), s))"

text \<open>Two states that differ at most in the stores of the references.\<close>

definition same_setup :: "('o, 'b, 'm, 'x) log_world_scheme \<Rightarrow> ('o, 'b, 'm, 'x) log_world_scheme \<Rightarrow> bool" where
  "same_setup w w' \<longleftrightarrow> current_fiber w' = current_fiber w \<and> min_level_ref w' = min_level_ref w \<and> ann_ref w' = ann_ref w
     \<and> span_ref w' = span_ref w \<and> composite_ref w' = composite_ref w"

lemma put_store_frame:
  "log_sinks (put_store level_place fr m w) = log_sinks w" "log_sinks (put_store ann_place ar a w) = log_sinks w"
  "log_sinks (put_store span_place sr sp w) = log_sinks w"
  "same_setup w0 (put_store level_place fr m w) = same_setup w0 w" "same_setup w0 (put_store ann_place ar a w) = same_setup w0 w"
  "same_setup w0 (put_store span_place sr sp w) = same_setup w0 w"
  by (simp_all add: put_store_def level_place_def ann_place_def span_place_def same_setup_def)

lemma put_store_setup:
  "same_setup (put_store level_place fr m w) w0 = same_setup w w0" "same_setup (put_store ann_place ar a w) w0 = same_setup w w0"
  "same_setup (put_store span_place sr sp w) w0 = same_setup w w0"
  by (simp_all add: put_store_def level_place_def ann_place_def span_place_def same_setup_def)

lemma view_frame:
  "fr_view ann_place ar (put_store level_place fr m w) = fr_view ann_place ar w"
  "fr_view span_place sr (put_store level_place fr m w) = fr_view span_place sr w"
  "fr_view level_place fr (put_store ann_place ar a w) = fr_view level_place fr w"
  "fr_view span_place sr (put_store ann_place ar a w) = fr_view span_place sr w"
  "fr_view level_place fr (put_store span_place sr sp w) = fr_view level_place fr w"
  "fr_view ann_place ar (put_store span_place sr sp w) = fr_view ann_place ar w"
  by (simp_all add: put_store_def level_place_def ann_place_def span_place_def store_of_def fr_view_def fun_eq_iff)

lemma view_sinks [simp]:
  "fr_view level_place fr (w\<lparr>log_sinks := s\<rparr>) = fr_view level_place fr w"
  "fr_view ann_place ar (w\<lparr>log_sinks := s\<rparr>) = fr_view ann_place ar w"
  "fr_view span_place sr (w\<lparr>log_sinks := s\<rparr>) = fr_view span_place sr w"
  by (simp_all add: fr_view_def store_of_def level_place_def ann_place_def span_place_def fun_eq_iff)

lemma setup_fields:
  assumes "same_setup w w'"
  shows "current_fiber w' = current_fiber w" "min_level_ref w' = min_level_ref w" "ann_ref w' = ann_ref w"
    "span_ref w' = span_ref w" "composite_ref w' = composite_ref w"
  using assms by (simp_all add: same_setup_def)

lemma setup_refl: "same_setup w w"
  by (simp add: same_setup_def)

lemma setup_trans: "same_setup w w1 \<Longrightarrow> same_setup w1 w2 \<Longrightarrow> same_setup w w2"
  by (simp add: same_setup_def)

definition quiet ::
  "(string, string, 'm) im_hash_map \<Rightarrow> ('o, 'b, 'm, 'x) log_world_scheme \<Rightarrow> ('o, 'b, 'm, 'x) log_world_scheme \<Rightarrow> bool" where
  "quiet im w w' \<longleftrightarrow> context_of im w' = context_of im w \<and> same_setup w w' \<and> log_sinks w' = log_sinks w"

lemma quiet_refl: "quiet im w w"
  by (simp add: quiet_def setup_refl)

lemma quiet_trans: "quiet im w w1 \<Longrightarrow> quiet im w1 w2 \<Longrightarrow> quiet im w w2"
  by (auto simp: quiet_def intro: setup_trans)

lemmas context_defs = context_of_def min_view_def ann_view_def span_view_def

lemma context_sinks: "context_of im (w\<lparr>log_sinks := s\<rparr>) = context_of im w" "same_setup w0 (w\<lparr>log_sinks := s\<rparr>) = same_setup w0 w"
  by (simp_all add: context_defs same_setup_def split: option.split)

lemma quiet_put:
  "min_level_ref w = Some fr \<Longrightarrow> fr_view level_place fr (put_store level_place fr m w) = fr_view level_place fr w
     \<Longrightarrow> quiet im w (put_store level_place fr m w)"
  "ann_ref w = Some ar \<Longrightarrow> fr_view ann_place ar (put_store ann_place ar a w) = fr_view ann_place ar w
     \<Longrightarrow> quiet im w (put_store ann_place ar a w)"
  "span_ref w = Some sr \<Longrightarrow> fr_view span_place sr (put_store span_place sr sp w) = fr_view span_place sr w
     \<Longrightarrow> quiet im w (put_store span_place sr sp w)"
  using setup_fields [of w "put_store level_place fr m w"] setup_fields [of w "put_store ann_place ar a w"]
    setup_fields [of w "put_store span_place sr sp w"]
  by (simp_all add: quiet_def context_defs put_store_frame view_frame setup_refl split: option.split)

lemma read_level:
  "\<exists>w'. (case min_level_ref w of None \<Rightarrow> Some (True, w)
      | Some fr \<Rightarrow> map_option (\<lambda>(res, w'). (case res of Inr lo \<Rightarrow> allows lo level | Inl _ \<Rightarrow> True, w')) (run_blocking (fr_get level_place fr) () w))
    = Some (level = No_level \<and> min_level_ref w = None \<or> allows (min_view w) level, w') \<and> quiet im w w'"
proof (cases "min_level_ref w")
  case None
  then show ?thesis by (cases level) (simp_all add: quiet_refl min_view_def allows_def)
next
  case (Some fr)
  with levels.fr_get_put [of fr "()" w] show ?thesis
    by (auto simp: min_view_def intro: quiet_put)
qed

lemma read_ann:
  "\<exists>w'. read_tls ann_place (ann_ref w) (hash_empty im) w = Some (ann_view im w, w') \<and> quiet im w w'"
  using annotations.fr_get_put [of "the (ann_ref w)" "()" w]
  by (cases "ann_ref w") (auto simp: read_tls_def ann_view_def quiet_refl intro: quiet_put)

lemma read_spans:
  "\<exists>w'. read_tls span_place (span_ref w) [] w = Some (span_view w, w') \<and> quiet im w w'"
  using spans.fr_get_put [of "the (span_ref w)" "()" w]
  by (cases "span_ref w") (auto simp: read_tls_def span_view_def quiet_refl intro: quiet_put)

inductive_cases flattens_consE: "flattens g (b # bs) fs"
inductive_cases flattens_nilE: "flattens g [] fs"

lemma emit_targets:
  assumes "flattens (composite_at s) (case c of None \<Rightarrow> [Tracing_backend] | Some i \<Rightarrow> composite_at s i) fs"
  shows "(case c of Some i \<Rightarrow> emit_all im so i rec s | None \<Rightarrow> Some (tracing_emit im rec s)) = Some (emit_seq im so fs rec s)"
proof (cases c)
  case None
  with assms have "fs = [Tracing_backend]" by (auto elim!: flattens_consE flattens_nilE)
  then show ?thesis
    using None tracing_emit_ok(1) [of im rec s] by (auto simp: on_ok_def split: prod.split)
next
  case (Some i)
  with assms show ?thesis by (simp add: emit_all_def emit_list_flattens)
qed

lemma elog_run:
  fixes w :: "('o, 'b, 'm, 'x) log_world_scheme"
  assumes fl: "flattens (composite_at (log_sinks w)) (targets w) fs"
  shows "\<exists>w'. run (elog im so level msg) r w = Some (fst (deliver im so fs level msg (context_of im w) (log_sinks w)), r, w')
    \<and> log_sinks w' = snd (deliver im so fs level msg (context_of im w) (log_sinks w))
    \<and> context_of im w' = context_of im w \<and> same_setup w w'"
proof (cases "level = No_level")
  case True
  then show ?thesis by (auto simp: elog_def new_sync_def run_def context_of_def allows_def setup_refl)
next
  case False
  obtain w1 where 1: "(case min_level_ref w of None \<Rightarrow> Some (True, w)
      | Some fr \<Rightarrow> map_option (\<lambda>(res, w'). (case res of Inr lo \<Rightarrow> allows lo level | Inl _ \<Rightarrow> True, w')) (run_blocking (fr_get level_place fr) () w))
    = Some (allows (min_view w) level, w1)" and q1: "quiet im w w1"
    using read_level [of w level im] False by auto
  obtain w2 where 2: "read_tls ann_place (ann_ref w1) (hash_empty im) w1 = Some (ann_view im w1, w2)" and q2: "quiet im w1 w2"
    using read_ann by blast
  obtain w3 where 3: "read_tls span_place (span_ref w2) [] w2 = Some (span_view w2, w3)" and q3: "quiet im w2 w3"
    using read_spans by blast
  have q: "quiet im w w3" using q1 q2 q3 quiet_trans by blast
  have views: "ann_view im w1 = ann_view im w" "span_view w2 = span_view w"
    using q1 quiet_trans [OF q1 q2] by (simp_all add: quiet_def context_of_def)
  let ?rec = "\<lparr>lr_level = level, lr_message = msg, lr_annotations = ann_view im w, lr_spans = span_view w\<rparr>"
  have sinks: "log_sinks w3 = log_sinks w" "composite_ref w3 = composite_ref w"
    using q by (simp_all add: quiet_def same_setup_def)
  have emit: "(case composite_ref w3 of Some c \<Rightarrow> emit_all im so c ?rec (log_sinks w3) | None \<Rightarrow> Some (tracing_emit im ?rec (log_sinks w3)))
    = Some (emit_seq im so fs ?rec (log_sinks w))"
    unfolding sinks using fl by (intro emit_targets) (simp add: targets_def)
  have put: "context_of im (w3\<lparr>log_sinks := s\<rparr>) = context_of im w" "same_setup w (w3\<lparr>log_sinks := s\<rparr>)" for s
    using q by (simp_all add: quiet_def context_sinks)
  show ?thesis
  proof (cases "allows (min_view w) level")
    case True
    obtain res s where es: "emit_seq im so fs ?rec (log_sinks w) = (res, s)" by force
    have "run (elog im so level msg) r w = Some (res, r, w3\<lparr>log_sinks := s\<rparr>)"
      using False True 1 2 3 emit es by (simp add: elog_def new_async_def run_def views Let_def)
    then show ?thesis using True es put by (simp add: context_of_def)
  next
    case no: False
    then show ?thesis
      using False 1 q1 by (simp add: elog_def new_async_def run_def context_of_def quiet_def)
  qed
qed

section \<open>Scopes of the logger\<close>

datatype log_scope = In_span string | Annotated string string | At_least log_level

fun in_scope ::
  "(string, string, 'm) im_hash_map \<Rightarrow> log_level fiber_ref \<Rightarrow> log_scope \<Rightarrow> ('a, 'e, 'r, ('o, 'b, 'm, 'x) log_world_scheme) effect
    \<Rightarrow> ('a, 'e, 'r, ('o, 'b, 'm, 'x) log_world_scheme) effect" where
  "in_scope im fr (In_span l) inner = with_log_span l inner"
| "in_scope im fr (Annotated k v) inner = annotate_logs im k v inner"
| "in_scope im fr (At_least l) inner = with_minimum_log_level fr l inner"

fun push_scope :: "(string, string, 'm) im_hash_map \<Rightarrow> log_scope \<Rightarrow> 'm log_context \<Rightarrow> 'm log_context" where
  "push_scope im (In_span l) (lo, ann, sp) = (lo, ann, sp @ [l])"
| "push_scope im (Annotated k v) (lo, ann, sp) = (lo, hash_set im ann k v, sp)"
| "push_scope im (At_least l) (lo, ann, sp) = (l, ann, sp)"

definition installed :: "log_level fiber_ref \<Rightarrow> ('o, 'b, 'm, 'x) log_world_scheme \<Rightarrow> bool" where
  "installed fr w \<longleftrightarrow> min_level_ref w = Some fr \<and> ann_ref w \<noteq> None \<and> span_ref w \<noteq> None"

lemma installed_setup: "installed fr w \<Longrightarrow> same_setup w w' \<Longrightarrow> installed fr w'"
  by (simp add: installed_def same_setup_def)

text \<open>
  \<open>eff\<close> runs \<open>inner\<close> in the context \<open>ctx\<close>, and in the state it leaves the context is the one before, if
  \<open>inner\<close> ended with the context it started with.
\<close>

definition brackets ::
  "(string, string, 'm) im_hash_map \<Rightarrow> ('o, 'b, 'm, 'x) log_world_scheme \<Rightarrow> 'm log_context
    \<Rightarrow> ('a, 'e, 'r, ('o, 'b, 'm, 'x) log_world_scheme) effect \<Rightarrow> ('a, 'e, 'r, ('o, 'b, 'm, 'x) log_world_scheme) effect \<Rightarrow> bool" where
  "brackets im w ctx eff inner \<longleftrightarrow> (\<exists>w2. context_of im w2 = ctx \<and> same_setup w w2 \<and> log_sinks w2 = log_sinks w
     \<and> (\<forall>r res r' w3. run inner r w2 = Some (res, r', w3) \<and> context_of im w3 = ctx \<and> same_setup w2 w3 \<longrightarrow>
          (\<exists>w'. run eff r w = Some (res, r', w') \<and> context_of im w' = context_of im w \<and> same_setup w w' \<and> log_sinks w' = log_sinks w3)))"

lemma put_store_fields [simp]:
  "min_level_ref (put_store level_place fr m w) = min_level_ref w" "ann_ref (put_store level_place fr m w) = ann_ref w"
  "span_ref (put_store level_place fr m w) = span_ref w" "min_level_ref (put_store ann_place ar a w) = min_level_ref w"
  "ann_ref (put_store ann_place ar a w) = ann_ref w" "span_ref (put_store ann_place ar a w) = span_ref w"
  "min_level_ref (put_store span_place sr sp w) = min_level_ref w" "ann_ref (put_store span_place sr sp w) = ann_ref w"
  "span_ref (put_store span_place sr sp w) = span_ref w"
  by (simp_all add: put_store_def level_place_def ann_place_def span_place_def)

lemma context_put:
  "min_level_ref w = Some fr \<Longrightarrow> context_of im (put_store level_place fr m w) =
     (fr_view level_place fr (put_store level_place fr m w) (current_fiber w), ann_view im w, span_view w)"
  "ann_ref w = Some ar \<Longrightarrow> context_of im (put_store ann_place ar a w) =
     (min_view w, fr_view ann_place ar (put_store ann_place ar a w) (current_fiber w), span_view w)"
  "span_ref w = Some sr \<Longrightarrow> context_of im (put_store span_place sr sp w) =
     (min_view w, ann_view im w, fr_view span_place sr (put_store span_place sr sp w) (current_fiber w))"
  by (simp_all add: context_defs view_frame split: option.split)

lemma brackets_level:
  assumes "min_level_ref w = Some fr"
  shows "brackets im w (v, ann_view im w, span_view w) (fr_locally level_place fr v inner) inner"
  unfolding brackets_def
proof (rule exI [of _ "put_store level_place fr ((store_of level_place fr w)(slot fr (current_fiber w) \<mapsto> v)) w"], intro conjI allI impI; (elim conjE)?)
  fix r res r' w3
  assume run: "run inner r (put_store level_place fr ((store_of level_place fr w)(slot fr (current_fiber w) \<mapsto> v)) w) = Some (res, r', w3)"
    and ctx: "context_of im w3 = (v, ann_view im w, span_view w)"
    and same: "same_setup (put_store level_place fr ((store_of level_place fr w)(slot fr (current_fiber w) \<mapsto> v)) w) w3"
  note w3 = setup_fields [OF same [unfolded put_store_setup]]
  from run ctx show "\<exists>w'. run (fr_locally level_place fr v inner) r w = Some (res, r', w') \<and> context_of im w' = context_of im w
      \<and> same_setup w w' \<and> log_sinks w' = log_sinks w3"
    using assms same w3
    by (simp add: levels.fr_locally_eq context_put levels.view_restore put_store_frame put_store_setup)
      (simp add: context_of_def min_view_def)
qed (use assms in \<open>simp_all add: context_put levels.view_override put_store_frame setup_refl\<close>)

lemma brackets_ann:
  assumes "ann_ref w = Some fr"
  shows "brackets im w (min_view w, v, span_view w) (fr_locally ann_place fr v inner) inner"
  unfolding brackets_def
proof (rule exI [of _ "put_store ann_place fr ((store_of ann_place fr w)(slot fr (current_fiber w) \<mapsto> v)) w"], intro conjI allI impI; (elim conjE)?)
  fix r res r' w3
  assume run: "run inner r (put_store ann_place fr ((store_of ann_place fr w)(slot fr (current_fiber w) \<mapsto> v)) w) = Some (res, r', w3)"
    and ctx: "context_of im w3 = (min_view w, v, span_view w)"
    and same: "same_setup (put_store ann_place fr ((store_of ann_place fr w)(slot fr (current_fiber w) \<mapsto> v)) w) w3"
  note w3 = setup_fields [OF same [unfolded put_store_setup]]
  from run ctx show "\<exists>w'. run (fr_locally ann_place fr v inner) r w = Some (res, r', w') \<and> context_of im w' = context_of im w
      \<and> same_setup w w' \<and> log_sinks w' = log_sinks w3"
    using assms same w3
    by (simp add: annotations.fr_locally_eq context_put annotations.view_restore put_store_frame put_store_setup)
      (simp add: context_of_def ann_view_def)
qed (use assms in \<open>simp_all add: context_put annotations.view_override put_store_frame setup_refl\<close>)

lemma brackets_span:
  assumes "span_ref w = Some fr"
  shows "brackets im w (min_view w, ann_view im w, v) (fr_locally span_place fr v inner) inner"
  unfolding brackets_def
proof (rule exI [of _ "put_store span_place fr ((store_of span_place fr w)(slot fr (current_fiber w) \<mapsto> v)) w"], intro conjI allI impI; (elim conjE)?)
  fix r res r' w3
  assume run: "run inner r (put_store span_place fr ((store_of span_place fr w)(slot fr (current_fiber w) \<mapsto> v)) w) = Some (res, r', w3)"
    and ctx: "context_of im w3 = (min_view w, ann_view im w, v)"
    and same: "same_setup (put_store span_place fr ((store_of span_place fr w)(slot fr (current_fiber w) \<mapsto> v)) w) w3"
  note w3 = setup_fields [OF same [unfolded put_store_setup]]
  from run ctx show "\<exists>w'. run (fr_locally span_place fr v inner) r w = Some (res, r', w') \<and> context_of im w' = context_of im w
      \<and> same_setup w w' \<and> log_sinks w' = log_sinks w3"
    using assms same w3
    by (simp add: spans.fr_locally_eq context_put spans.view_restore put_store_frame put_store_setup)
      (simp add: context_of_def span_view_def)
qed (use assms in \<open>simp_all add: context_put spans.view_override put_store_frame setup_refl\<close>)

lemma bracketsE:
  assumes "brackets im w ctx eff inner"
  obtains w2 where "context_of im w2 = ctx" "same_setup w w2" "log_sinks w2 = log_sinks w"
    "\<forall>r res r' w3. run inner r w2 = Some (res, r', w3) \<and> context_of im w3 = ctx \<and> same_setup w2 w3 \<longrightarrow>
         (\<exists>w'. run eff r w = Some (res, r', w') \<and> context_of im w' = context_of im w \<and> same_setup w w' \<and> log_sinks w' = log_sinks w3)"
  using assms unfolding brackets_def by blast

lemma brackets_quiet:
  assumes "quiet im w w1" "brackets im w1 ctx eff inner" "\<And>r. run eff' r w = run eff r w1"
  shows "brackets im w ctx eff' inner"
proof -
  obtain w2 where 2: "context_of im w2 = ctx" "same_setup w1 w2" "log_sinks w2 = log_sinks w1"
      "\<forall>r res r' w3. run inner r w2 = Some (res, r', w3) \<and> context_of im w3 = ctx \<and> same_setup w2 w3 \<longrightarrow>
         (\<exists>w'. run eff r w1 = Some (res, r', w') \<and> context_of im w' = context_of im w1 \<and> same_setup w1 w' \<and> log_sinks w' = log_sinks w3)"
    by (rule bracketsE [OF assms(2)])
  have w: "context_of im w1 = context_of im w" "same_setup w w1" "log_sinks w1 = log_sinks w"
    using assms(1) by (simp_all add: quiet_def)
  show ?thesis
    unfolding brackets_def assms(3)
    by (rule exI [of _ w2]) (use 2 w setup_trans [OF w(2)] in \<open>fastforce\<close>)
qed

lemma brackets_scope:
  assumes "installed fr w"
  shows "brackets im w (push_scope im sc (context_of im w)) (in_scope im fr sc inner) inner"
proof (cases sc)
  case (In_span l)
  obtain sr where sr: "span_ref w = Some sr" using assms by (auto simp: installed_def)
  obtain w1 where 1: "read_tls span_place (span_ref w) [] w = Some (span_view w, w1)" "quiet im w w1"
    using read_spans by blast
  from 1(2) have w1: "span_ref w1 = Some sr" "min_view w1 = min_view w" "ann_view im w1 = ann_view im w"
    using sr by (simp_all add: quiet_def same_setup_def context_of_def)
  from 1(2) brackets_span [OF w1(1)] show ?thesis
    unfolding In_span in_scope.simps context_of_def push_scope.simps w1(2,3) [symmetric]
    by (rule brackets_quiet) (use 1(1) sr in \<open>simp add: with_log_span_def new_async_def run_def\<close>)
next
  case (Annotated k v)
  obtain ar where ar: "ann_ref w = Some ar" using assms by (auto simp: installed_def)
  obtain m where 1: "run_blocking (fr_get ann_place ar) () w = Some (Ok (ann_view im w), put_store ann_place ar m w)"
      "quiet im w (put_store ann_place ar m w)"
    using annotations.fr_get_put [of ar "()" w] ar by (auto simp: ann_view_def intro: quiet_put)
  let ?w1 = "put_store ann_place ar m w"
  from 1(2) have w1: "ann_ref ?w1 = Some ar" "min_view ?w1 = min_view w" "span_view ?w1 = span_view w"
    using ar by (simp_all add: quiet_def context_of_def)
  from 1(2) brackets_ann [OF w1(1)] show ?thesis
    unfolding Annotated in_scope.simps context_of_def push_scope.simps w1(2,3) [symmetric]
    by (rule brackets_quiet) (use 1(1) ar in \<open>simp add: annotate_logs_def new_async_def run_def\<close>)
next
  case (At_least l)
  then show ?thesis
    using assms brackets_level [of w fr im l inner] by (simp add: installed_def context_of_def with_minimum_log_level_def)
qed

lemma elog_in_scopes:
  fixes r :: 'r and w :: "('o, 'b, 'm, 'x) log_world_scheme"
  assumes "installed fr w" "flattens (composite_at (log_sinks w)) (targets w) fs"
  shows "\<exists>w'. run (foldr (in_scope im fr) scs (elog im so level msg)) r w
      = Some (fst (deliver im so fs level msg (foldl (\<lambda>c sc. push_scope im sc c) (context_of im w) scs) (log_sinks w)), r, w')
    \<and> log_sinks w' = snd (deliver im so fs level msg (foldl (\<lambda>c sc. push_scope im sc c) (context_of im w) scs) (log_sinks w))
    \<and> context_of im w' = context_of im w \<and> same_setup w w'"
  using assms
proof (induction scs arbitrary: w)
  case Nil
  then show ?case using elog_run by simp
next
  case (Cons sc scs)
  let ?inner = "foldr (in_scope im fr) scs (elog im so level msg) :: (unit, logger_error, 'r, ('o, 'b, 'm, 'x) log_world_scheme) effect"
  obtain w2 where 2: "context_of im w2 = push_scope im sc (context_of im w)" "same_setup w w2" "log_sinks w2 = log_sinks w"
      "\<forall>r res r' w3. run ?inner r w2 = Some (res, r', w3) \<and> context_of im w3 = push_scope im sc (context_of im w) \<and> same_setup w2 w3 \<longrightarrow>
         (\<exists>w'. run (in_scope im fr sc ?inner) r w = Some (res, r', w') \<and> context_of im w' = context_of im w \<and> same_setup w w' \<and> log_sinks w' = log_sinks w3)"
    by (rule bracketsE [OF brackets_scope [OF Cons.prems(1), of im sc ?inner]])
  have "flattens (composite_at (log_sinks w2)) (targets w2) fs"
    using Cons.prems(2) setup_fields(5) [OF 2(2)] unfolding targets_def 2(3) by simp
  from Cons.IH [OF installed_setup [OF Cons.prems(1) 2(2)] this]
  obtain w3 where 3: "run ?inner r w2
      = Some (fst (deliver im so fs level msg (foldl (\<lambda>c sc. push_scope im sc c) (context_of im w2) scs) (log_sinks w2)), r, w3)"
      "log_sinks w3 = snd (deliver im so fs level msg (foldl (\<lambda>c sc. push_scope im sc c) (context_of im w2) scs) (log_sinks w2))"
      "context_of im w3 = context_of im w2" "same_setup w2 w3"
    by blast
  from 2(4) [rule_format, OF conjI [OF 3(1) conjI [OF 3(3) [unfolded 2(1)] 3(4)]]] show ?case by (auto simp: 3(2) 2(1,3))
qed

section \<open>Properties\<close>

text \<open>
  C25. Emitting to a composite ends when no composite contains itself, at any depth, and it is emitting
  in order to the backends the nesting flattens to, each with the state the one before left, up to and
  including the first that fails, whose error is the result.
\<close>

theorem emit_all_flattens:
  fixes s :: "('o, 'b, 'x) sinks_scheme"
  assumes "acyclic_composites (composite_at s)"
  shows "\<exists>fs. flattens (composite_at s) (composite_at s i) fs \<and> emit_all im so i rec s = Some (emit_seq im so fs rec s)"
proof -
  obtain fs where "flattens (composite_at s) (composite_at s i) fs" by (rule acyclic_flattens [OF assms])
  then show ?thesis by (auto simp: emit_all_def emit_list_flattens)
qed

definition text_sink :: "(string, unit, (string \<times> string) list) sink_ops" where
  "text_sink = \<lparr>so_write_all = (\<lambda>t w. (Ok (), w @ t)), so_json = (\<lambda>l w. (Ok (), w @ jl_message l)),
     so_emit = (\<lambda>b rec w. (Err (Sink ''down''), w)), so_debug = (\<lambda>t. t)\<rparr>"

definition demo_sinks :: "(string, unit) sinks" where
  "demo_sinks = \<lparr>traced = [], writer_at = (\<lambda>_. []), poisoned = (\<lambda>_. False),
     composite_at = (\<lambda>i. if i = 0 then [Composite_backend 1, Structured_backend 7] else if i = 1 then [Tracing_backend] else []),
     next_composite = 2\<rparr>"

definition demo_record :: "(string \<times> string) list log_record" where
  "demo_record = \<lparr>lr_level = Warn, lr_message = ''m'', lr_annotations = [(''k'', ''v'')], lr_spans = [''a'', ''b'']\<rparr>"

lemma demo_acyclic: "acyclic_composites (composite_at demo_sinks)"
  unfolding acyclic_composites_def by (rule exI [of _ "\<lambda>i. 2 - i"]) (auto simp: demo_sinks_def split: if_splits)

theorem emit_all_flattens_witness:
  "\<exists>s'. emit_all alist_map text_sink 0 demo_record demo_sinks = Some (Ok (), s')
     \<and> traced s' = [(T_warn, ''[a > b] m k=v'')] \<and> writer_at s' 7 = ''level=WARN message=m spans=a>b k=v'' @ [CHR 0x0A]"
proof -
  obtain fs where fs: "flattens (composite_at demo_sinks) (composite_at demo_sinks 0) fs"
      "emit_all alist_map text_sink 0 demo_record demo_sinks = Some (emit_seq alist_map text_sink fs demo_record demo_sinks)"
    using emit_all_flattens [OF demo_acyclic, of 0 alist_map text_sink demo_record] by blast
  from fs(1) have "fs = [Tracing_backend, Structured_backend 7]"
    by (auto simp: demo_sinks_def elim!: flattens_consE flattens_nilE)
  with fs(2) show ?thesis
    by (simp add: demo_sinks_def demo_record_def alist_map_def text_sink_def on_ok_def tracing_emit_def structured_emit_def writing_def
        format_tracing_line_def result_map_err_def)
qed

text \<open>
  C24. A message logged inside any nesting of spans, annotations and minimum levels, by a fiber whose
  references are installed, is delivered exactly when the innermost minimum level (or the fiber's own)
  allows it; the record carries the fiber's annotations updated from the outside in and its spans
  followed by the labels from the outside in; and afterwards the fiber's level, annotations and spans
  are what they were, also when a backend fails.
\<close>

theorem scoped_logging:
  fixes w :: "('o, 'b, 'm, 'x) log_world_scheme"
  assumes "installed fr w" "acyclic_composites (composite_at (log_sinks w))"
  shows "\<exists>fs w'. flattens (composite_at (log_sinks w)) (targets w) fs
    \<and> run (foldr (in_scope im fr) scs (elog im so level msg)) r w
      = Some (fst (deliver im so fs level msg (foldl (\<lambda>c sc. push_scope im sc c) (context_of im w) scs) (log_sinks w)), r, w')
    \<and> log_sinks w' = snd (deliver im so fs level msg (foldl (\<lambda>c sc. push_scope im sc c) (context_of im w) scs) (log_sinks w))
    \<and> context_of im w' = context_of im w"
proof -
  obtain fs where "flattens (composite_at (log_sinks w)) (targets w) fs" by (rule acyclic_flattens [OF assms(2)])
  with elog_in_scopes [OF assms(1) this, of im scs so level msg r] show ?thesis by blast
qed

definition level_ref_0 :: "log_level fiber_ref" where
  "level_ref_0 = \<lparr>fr_key = 1, fr_initial = (\<lambda>_. Info), fr_fork = (\<lambda>a. a), fr_join = (\<lambda>p c. c), fr_store = 0\<rparr>"

definition demo_log_world :: "(string, unit, (string \<times> string) list) log_world" where
  "demo_log_world = \<lparr>current_fiber = fiber_root, next_ref_key = 4, level_heap = empty_heap, ann_heap = empty_heap, span_heap = empty_heap,
     min_level_ref = Some level_ref_0,
     ann_ref = Some \<lparr>fr_key = 2, fr_initial = (\<lambda>_. []), fr_fork = (\<lambda>a. a), fr_join = (\<lambda>p c. p), fr_store = 0\<rparr>,
     span_ref = Some \<lparr>fr_key = 3, fr_initial = (\<lambda>_. []), fr_fork = (\<lambda>a. a), fr_join = (\<lambda>p c. p), fr_store = 0\<rparr>,
     composite_ref = None, log_sinks = demo_sinks\<rparr>"

lemma demo_context: "context_of alist_map demo_log_world = (Info, [], [])" "targets demo_log_world = [Tracing_backend]"
  "log_sinks demo_log_world = demo_sinks" "installed level_ref_0 demo_log_world"
  by (simp_all add: context_defs targets_def installed_def demo_log_world_def level_ref_0_def fr_view_def store_of_def level_place_def
      ann_place_def span_place_def empty_heap_def)

theorem scoped_logging_witness:
  "\<exists>w'. run (foldr (in_scope alist_map level_ref_0) [In_span ''a'', Annotated ''k'' ''v'', At_least Warn, In_span ''b''] (elog alist_map text_sink Error ''m''))
       () demo_log_world = Some (Ok (), (), w')
     \<and> traced (log_sinks w') = [(T_error, ''[a > b] m k=v'')]"
proof -
  let ?scs = "[In_span ''a'', Annotated ''k'' ''v'', At_least Warn, In_span ''b'']"
  obtain fs w' where fs: "flattens (composite_at demo_sinks) [Tracing_backend] fs"
      and run: "run (foldr (in_scope alist_map level_ref_0) ?scs (elog alist_map text_sink Error ''m'')) () demo_log_world
        = Some (fst (deliver alist_map text_sink fs Error ''m'' (foldl (\<lambda>c sc. push_scope alist_map sc c) (Info, [], []) ?scs) demo_sinks), (), w')"
      and snk: "log_sinks w' = snd (deliver alist_map text_sink fs Error ''m'' (foldl (\<lambda>c sc. push_scope alist_map sc c) (Info, [], []) ?scs) demo_sinks)"
    using scoped_logging [OF demo_context(4) demo_acyclic [folded demo_context(3)], of alist_map ?scs text_sink Error "''m''" "()"]
    unfolding demo_context by blast
  from fs have "fs = [Tracing_backend]" by (auto elim!: flattens_consE flattens_nilE)
  then have "deliver alist_map text_sink fs Error ''m'' (foldl (\<lambda>c sc. push_scope alist_map sc c) (Info, [], []) ?scs) demo_sinks
      = (Ok (), demo_sinks\<lparr>traced := [(T_error, ''[a > b] m k=v'')]\<rparr>)"
    by (simp add: allows_def tracing_emit_def on_ok_def format_tracing_line_def alist_map_def hash_set_def demo_sinks_def)
  with run snk show ?thesis by (intro exI [of _ w']) simp
qed

text \<open>
  A failing backend ends the delivery: the backends after it do not get the record, whatever they are.
\<close>

theorem later_backends_miss_the_record:
  fixes s :: "('o, 'b, 'x) sinks_scheme"
  assumes "emit_seq im so fs rec s = (Ok (), s1)" "plain_emit im so b rec s1 = (Err e, s2)"
  shows "emit_seq im so (fs @ b # gs) rec s = (Err e, s2)"
  using assms by (simp add: emit_seq_append on_ok_def)

text \<open>A composite added to itself: emitting to it does not end.\<close>

theorem self_containing_composite_diverges:
  fixes s :: "('o, 'b, 'x) sinks_scheme"
  assumes "composite_at s i = [Composite_backend i]"
  shows "emit_all im so i rec s = None"
proof -
  have "\<not> (bs = [Composite_backend i] \<and> composite_at s i = [Composite_backend i])"
    if "emit_list im so bs rec s = Some y" for bs and s :: "('o, 'b, 'x) sinks_scheme" and y
    by (rule emit_list.raw_induct [where P = "\<lambda>im so bs rec s y. \<not> (bs = [Composite_backend i] \<and> composite_at s i = [Composite_backend i])", OF _ that])
      (fastforce split: bind_splits)
  then show ?thesis using assms by (cases "emit_all im so i rec s") (auto simp: emit_all_def)
qed

text \<open>
  The edits of a composite: \<open>add\<close> appends, \<open>replace\<close> and \<open>remove\<close> work inside the list and otherwise leave
  it unchanged with an error.
\<close>

theorem composite_edits:
  fixes s :: "('o, 'b, 'x) sinks_scheme"
  shows "fst (logger_add i b s) = Ok () \<and> composite_at (snd (logger_add i b s)) i = composite_at s i @ [b]"
    and "idx < length (composite_at s i) \<Longrightarrow> fst (logger_replace i idx b s) = Ok ()
       \<and> composite_at (snd (logger_replace i idx b s)) i = (composite_at s i)[idx := b]"
    and "idx < length (composite_at s i) \<Longrightarrow> fst (logger_remove i idx s) = Ok ()
       \<and> length (composite_at (snd (logger_remove i idx s)) i) = length (composite_at s i) - 1
       \<and> (\<forall>k < length (composite_at s i) - 1. composite_at (snd (logger_remove i idx s)) i ! k
            = composite_at s i ! (if k < idx then k else Suc k))"
    and "length (composite_at s i) \<le> idx \<Longrightarrow> (\<exists>e e'. logger_replace i idx b s = (Err e, s) \<and> logger_remove i idx s = (Err e', s))"
  by (auto simp: logger_add_def logger_replace_def logger_remove_def Let_def nth_append)

text \<open>
  A provided minimum level: the reference in the environment is the installed one, and every fiber
  starts from the level given.
\<close>

theorem provided_minimum_level:
  fixes w :: "('o, 'b, 'm, 'x) log_world_scheme"
  shows "\<exists>fr w'. minimum_log_level_build key stored lo deps w = Some (Ok (env_insert deps key (stored fr)), w')
    \<and> min_level_ref w' = Some fr \<and> (\<forall>c. min_view (w'\<lparr>current_fiber := c\<rparr>) = lo)"
proof -
  obtain fr w1 where "run (fr_make_with level_place (\<lambda>_. lo) (\<lambda>a. a) (\<lambda>p c. c)) () w = Some (Ok fr, (), w1)"
      "fr_view level_place fr w1 = (\<lambda>_. lo)"
    using levels.fr_make_with_run [of "\<lambda>_. lo" "\<lambda>a. a" "\<lambda>p c. c" "()" w] by blast
  moreover have "fr_view level_place fr (w1\<lparr>min_level_ref := Some fr\<rparr>) = fr_view level_place fr w1"
    by (simp add: fr_view_def store_of_def level_place_def fun_eq_iff)
  ultimately show ?thesis
    by (auto simp: minimum_log_level_build_def run_blocking_def fr_make_def install_min_log_level_def min_view_def)
qed

end
