(* ===== verification/Spec2Isabelle.thy ===== *)
theory Spec2Isabelle
  imports Prelude Matching Failure Effects Orders Durations Schedules Stm Collections Graphs Planner
    Capability Cascades Scopes Queues Ordered_Maps Tries Schemas Documents Optics Runtime Journals
    Machines Breakers Events Jobs Texts Parsers Json Streams Channels Cells Pools Caches
    Configs Fiber_Refs Loggers
begin

text \<open>
  \<^bold>\<open>A model of the effect-rs workspace.\<close>

  The workspace is an effect system for Rust. Its core crate, \<open>crates/id_effect\<close>, has a lazy program
  type \<open>Effect<A, E, R>\<close> and, built on it, software transactional memory, scopes with finalizers,
  cancellation, queues, scheduling policies and a capability system that plans and builds an
  environment from providers; \<open>crates/id_effect_graph\<close> has the dependency sorting that the
  capability system and other crates use. On top of these stand crates for nested documents and
  optics (\<open>id_effect_optics\<close>, over the schemas of the core), state machines and sagas
  (\<open>id_effect_fsm\<close>, over the step journal of \<open>id_effect_workflow\<close>), resilience
  (\<open>id_effect_resilience\<close>), event sourcing (\<open>id_effect_events\<close>, over the graph crate) and background
  work (\<open>id_effect_jobs\<close>), parser combinators with a JSON reader (\<open>id_effect_parse\<close>),
  configuration (\<open>id_effect_config\<close>) and logging (\<open>id_effect_logger\<close>). The theories below follow that layering.

  \<^bold>\<open>Conventions.\<close> A function of the source keeps its name, with a prefix where several types have
  one of the same name (\<open>q_\<close> for \<open>Queue\<close>, \<open>stm_\<close> for \<open>Stm\<close>, \<open>scope_\<close>, \<open>token_\<close>). \<open>Result<A, E>\<close> is
  the sum \<open>'e + 'a\<close> with \<open>Err\<close> and \<open>Ok\<close>. A panic, and a future that never resolves, is the outer
  \<open>None\<close> of an \<open>option\<close>; the text of each definition says which. Interior mutability is explicit
  state: an operation takes the store and returns it. Loops that can run for ever are
  \<open>partial_function (option)\<close>, and the theorems that such a loop returns are stated as such. Two
  definitions take fuel: the JSON parser, twice the length of its input, and \<open>json_parser_total\<close> shows
  that it is never used up; and the walk of \<open>Cascades\<close> under \<open>close\<close> and \<open>cancel\<close>, one more than there are
  nodes, and \<open>cascade_total\<close> (for \<open>close\<close>, \<open>finalizers_once_lifo\<close> and \<open>close_cascades\<close>) shows the same. Integers whose overflow matters are \<open>64 word\<close> and \<open>32 word\<close>; \<open>usize\<close>
  indices and lengths are \<open>nat\<close>. Third-party code is a parameter: the hash maps of \<open>std\<close> and
  \<open>im\<close> where their iteration order is visible (\<open>planner_maps\<close>, \<open>graph_maps\<close>, \<open>im_hash_map\<close>), the
  \<open>flume\<close> channel (\<open>flume\<close>), the semaphore, mutex and watch channel of \<open>tokio\<close>
  (\<open>tokio_semaphore\<close>, \<open>async_mutex\<close>, \<open>watch\<close>), the clock and the metric of the retry loops, the writers of the log
  backends (\<open>sink_ops\<close>). Their documented behaviour
  is a named predicate (\<open>planner_maps_laws\<close>, \<open>graph_maps_laws\<close>, \<open>hash_map_laws\<close>, \<open>flume_laws\<close>,
  \<open>semaphore_laws\<close>, \<open>mutex_laws\<close>, \<open>watch_laws\<close>), for
  which the theories also give an instance. \<open>serde_json\<close> is a pair of functions with the round trip as
  a hypothesis (\<open>serde_ok\<close> for the journal file), \<open>Uuid::new_v4\<close> a function of a counter or an
  argument, \<open>f64\<close> a type variable of the schemas. A trait that other code is generic in
  (\<open>StepJournal\<close>, \<open>EventStore\<close>, \<open>JobRunner\<close>, \<open>OutboxTable\<close>) is a record of its methods, and its
  contract, where clients rely on one, a locale that is interpreted on the implementations.

  \<^bold>\<open>Theories.\<close>

  \<^item> \<open>Prelude\<close>: results, saturating arithmetic, decimal printing, and the locale \<open>sequencing\<close> for
    monad-like operations (interpreted for effects and transactions).
  \<^item> \<open>Matching\<close> (\<open>match_.rs\<close>), \<open>Failure\<close> (\<open>failure/\<close>, \<open>concurrency/fiber_id.rs\<close>): the matcher, causes,
    exits, the binary error union and their renderers; the matchers the code runs are total on
    the types they are used at, and \<open>flatten\<close> obeys the monad laws.
  \<^item> \<open>Effects\<close> (\<open>kernel/effect.rs\<close>): an effect maps an environment and the shared state to a result;
    \<open>effect_laws\<close> states the algebra of sequencing and recovery, and
    \<open>acquire_release_releases_before_use\<close> when a resource is released.
  \<^item> \<open>Orders\<close> (\<open>schema/order.rs\<close>): comparators with the locale \<open>comparator_laws\<close>; selection and stable
    sorting for every comparator assembled from lawful ones.
  \<^item> \<open>Durations\<close>, \<open>Schedules\<close> (\<open>scheduling/\<close>): nanosecond durations with their bounds; policies and the
    \<open>repeat\<close> / \<open>retry\<close> loops, which policies make them return, what they do over \<open>recurs\<close>, the
    exponential delays, and the predicates that never see the attempt number.
  \<^item> \<open>Stm\<close> (\<open>stm/mod.rs\<close>): versioned cells, the transaction log, the two-phase commit and the
    containers. \<open>concurrent\<close> is the step relation of interleaved transactions; \<open>stm_serialisable\<close>
    relates it to serial execution. Two theorems show what \<open>or_else\<close> and failing bodies do.
  \<^item> \<open>Collections\<close> (\<open>collections/\<close>): hash maps over the \<open>im\<close> crate, the mutable list and queue, with
    the locale \<open>bounded_buffer\<close>.
  \<^item> \<open>Graphs\<close> (\<open>crates/id_effect_graph\<close>): the \<open>Dag\<close> and Kahn's algorithm, with the locale
    \<open>topological_sorter\<close>; correctness, totality and the exact content of cycle errors.
  \<^item> \<open>Planner\<close>, \<open>Capability\<close> (\<open>capability/\<close>): the planner, its agreement with \<open>Graphs\<close>, identifiers,
    environments, providers, building in plan order, and \<open>run_with\<close> with shutdown.
  \<^item> \<open>Cascades\<close>, \<open>Scopes\<close> (\<open>resource/scope.rs\<close>, \<open>concurrency/cancel.rs\<close>, \<open>scope_with\<close> and \<open>scoped\<close> of
    \<open>kernel/effect.rs\<close>): the locale \<open>cascading\<close> captures a depth-first walk over a mutable
    graph in which every node acts once; closing a scope and cancelling a token are instances.
  \<^item> \<open>Queues\<close> (\<open>coordination/queue.rs\<close>): the four queue modes over the channel parameter, what each
    keeps and what happens after \<open>shutdown\<close>.

  \<^item> \<open>Ordered_Maps\<close>, \<open>Tries\<close> (\<open>collections/trie.rs\<close>): \<open>BTreeMap\<close> as its ascending list of entries, with
    the locale \<open>map_interface\<close>; the trie is such a map, lists its entries in order and finds the
    longest stored prefix.
  \<^item> \<open>Texts\<close>: white space and decimal integers the way \<open>std\<close> reads and prints them.
  \<^item> \<open>Schemas\<close> (\<open>schema/parse.rs\<close>, \<open>schema/extra.rs\<close>): dynamic values, schemas and their combinators. The
    locale \<open>codec\<close> is the round-trip contract, on wire values and on their representation as dynamic
    values, with the conditions under which each combinator keeps it; error paths lead to the part
    of the value that failed.
  \<^item> \<open>Documents\<close> (\<open>id_effect_optics\<close>: \<open>path.rs\<close>, \<open>schema_bridge.rs\<close>, \<open>json_patch.rs\<close>): paths in two notations,
    reading and writing inside a dynamic value, patches; writes agree with a recursive reference,
    satisfy the laws of a lens, and patches keep documents well formed.
  \<^item> \<open>Optics\<close> (\<open>id_effect_optics\<close>: \<open>lens.rs\<close>, \<open>prism.rs\<close>, \<open>iso.rs\<close>, \<open>optional.rs\<close>, \<open>traversal.rs\<close>,
    \<open>transducer.rs\<close>, \<open>zipper.rs\<close>): the locales \<open>lawful_lens\<close>, \<open>lawful_prism\<close>, \<open>lawful_iso\<close> and
    \<open>lawful_traversal\<close> and their closure under composition; zippers give back the edited trie.
  \<^item> \<open>Runtime\<close> (\<open>runtime/execute.rs\<close>): the two drivers that the crates below run effects with.
  \<^item> \<open>Journals\<close> (\<open>id_effect_workflow\<close>: \<open>journal.rs\<close>): the in-memory step journal and the locale
    \<open>durable_journal\<close>; a completed step is not executed again.
  \<^item> \<open>Machines\<close> (\<open>id_effect_fsm\<close>): transition tables, effectful steps, sagas as two sequences of effects,
    and machines that recover their state from any journal that honours the contract.
  \<^item> \<open>Breakers\<close> (\<open>id_effect_resilience\<close>: \<open>circuit_breaker.rs\<close>): the breaker and the failure-streak
    specification it implements for calls that do not overlap.
  \<^item> \<open>Events\<close> (\<open>id_effect_events\<close>): the in-memory store and the journal file, both instances of the locale
    \<open>event_log\<close> and so of one abstract log; projections, their dependency order, and commands.
  \<^item> \<open>Jobs\<close> (\<open>id_effect_jobs\<close>): the job queue with its drain loop, the outbox with its relay, the broker.
  \<^item> \<open>Parsers\<close> (\<open>id_effect_parse\<close>: \<open>parser.rs\<close>, \<open>byte.rs\<close>, \<open>codec.rs\<close>, \<open>diff.rs\<close>, \<open>pretty.rs\<close>): combinators, of
    which the repeating ones return on parsers that make progress; the locales \<open>text_law\<close> and
    \<open>item_law\<close> for codecs that read back what they print, closed under pairs and lists; documents.
  \<^item> \<open>Json\<close> (\<open>id_effect_parse\<close>: \<open>json.rs\<close>, \<open>schema_bridge.rs\<close>): the JSON parser, its totality, and its
    round trip with a reference printer and any schema.

  \<^item> \<open>Streams\<close> (\<open>streaming/\<close>): pull streams with their polling, operators, windows and joins. \<open>denotes\<close>
    says which items a stream yields and how it ends, and the locale \<open>chunkwise\<close> shows that operators
    do not see the chunks; so operators compute list functions. \<open>window_limits\<close> and
    \<open>joins_within_a_chunk\<close> show where windows and \<open>merge\<close> do not.
  \<^item> \<open>Channels\<close> (\<open>coordination/channel.rs\<close>, \<open>streaming/sink.rs\<close>, the senders of \<open>streaming/stream.rs\<close>):
    channels over a store of queues, pending outputs and accumulators; what channels, sinks and
    channel-backed streams deliver, and five places where they do not deliver what they promise.

  \<^item> \<open>Cells\<close> (\<open>coordination/\<close>: \<open>ref_.rs\<close>, \<open>synchronized_ref.rs\<close>, \<open>deferred.rs\<close>, \<open>latch.rs\<close>,
    \<open>semaphore.rs\<close>, \<open>request_resolver.rs\<close>): the single-cell primitives and the batching resolver, with
    the locale \<open>atomic_cell\<close>; which updates are atomic, that the first completion of a deferred wins,
    and that a batch whose fetch succeeds completes its requests after one fetch.
  \<^item> \<open>Pools\<close> (\<open>resource/pool.rs\<close>): the two resource pools over the semaphore and the scopes; the capacity
    bound for values lent to open scopes, and the locale \<open>idle_store\<close> for the reuse of idle values.
  \<^item> \<open>Caches\<close> (\<open>resource/cache.rs\<close>): the memoising cache. \<open>cache_step\<close> interleaves lookups, loads and
    invalidations; the bound of the entries and their order by last use (recorded by the step
    relation in \<open>cs_uses\<close>), where results come from, that waiters have a leader, that a lookup runs its
    load at most once, and what a stale leader does.
  \<^item> \<open>Configs\<close> (\<open>id_effect_config\<close>, log levels of \<open>id_effect_logger\<close>): providers with the locale
    \<open>config_source\<close>, descriptors with the locale \<open>descriptor\<close> (which keys they read), scopes and
    fallbacks, the agreement of the two reading interfaces, and typed values.
  \<^item> \<open>Fiber_Refs\<close> (\<open>concurrency/fiber_ref.rs\<close>): references local to a fiber, over any place of the state
    that satisfies the locale \<open>typed_heap\<close>. Programs over a reference refine a total function from
    fibers to values; overrides end with their body; what a join merges.
  \<^item> \<open>Loggers\<close> (\<open>id_effect_logger\<close>): records, backends and their nesting, the logger with its scopes over
    three interpretations of \<open>typed_heap\<close>, and the providers. What a message in nested scopes carries,
    when it is delivered, and when emitting ends.

  \<^bold>\<open>Concurrency.\<close> In \<open>Stm\<close> interleaving is explicit: the reads of a body are separate steps and the
  commit, which the code runs under its locks, is atomic. In \<open>Scopes\<close> the operations are atomic
  except for the race of \<open>add_finalizer\<close> with the drain transaction of \<open>close\<close>, which has its own
  definition. In \<open>Queues\<close> an operation runs by itself, and blocking is the result \<open>None\<close>.
  In \<open>Caches\<close> each critical section, load, completion and wait is a step of its own.
  In \<open>Breakers\<close> an effect may change the breaker it runs under, which is how calls overlap; the
  journals, stores and job queues take their locks once per operation, so an operation is atomic.

  \<^bold>\<open>Not modelled.\<close> Floating-point functions (\<open>duration::decode\<close>, \<open>number_f64\<close>, the rate limiter), the
  executor and fiber handles, parallel variants of sequential functions, broadcast, date-time
  and observability, journals and stores that live in a database or a message broker, and the crates that adapt the system to HTTP, SQL,
  terminals and code generation.
\<close>

end
